(* ===== verification/Prelude.thy ===== *)
theory Prelude
  imports Main "HOL-Library.Word"
begin

unbundle bit_operations_syntax

text \<open>
  Shared vocabulary of the development: the machine types of the C sources, the
  memory primitives every component is written with (\<open>overwrite\<close> is
  \<open>memcpy\<close> into a buffer, \<open>bm_test\<close>, \<open>bm_set\<close> and \<open>bm_clear\<close> are the
  \<open>uint32_t\<close> bit arrays), the generic lemmas on them, and two locales the component
  theories interpret: a state machine with an invariant, and one whose steps also
  stay inside a transitive frame relation.
\<close>

section \<open>Machine types\<close>

type_synonym byte = "8 word"
type_synonym u16 = "16 word"
type_synonym u32 = "32 word"
type_synonym u64 = "64 word"

named_theorems wf_keep \<open>preservation of a component's invariant by its operations\<close>
named_theorems frame \<open>fields an operation leaves alone\<close>

section \<open>Buffers\<close>

text \<open>\<open>overwrite xs d ys\<close> is the buffer \<open>xs\<close> after \<open>memcpy (xs + d, ys, length ys)\<close>.\<close>

definition overwrite :: "'a list \<Rightarrow> nat \<Rightarrow> 'a list \<Rightarrow> 'a list" where
  "overwrite xs d ys = take d xs @ ys @ drop (d + length ys) xs"

lemma length_overwrite [simp]:
  "d + length ys \<le> length xs \<Longrightarrow> length (overwrite xs d ys) = length xs"
  by (simp add: overwrite_def)

lemma nth_overwrite:
  assumes "d + length ys \<le> length xs" and "i < length xs"
  shows "overwrite xs d ys ! i =
    (if d \<le> i \<and> i < d + length ys then ys ! (i - d) else xs ! i)"
  using assms by (auto simp: overwrite_def nth_append min_def)

lemma overwrite_Nil [simp]: "overwrite xs d [] = xs"
  by (simp add: overwrite_def)

lemma set_overwrite: "set (overwrite xs d ys) \<subseteq> set xs \<union> set ys"
  unfolding overwrite_def by (auto dest: in_set_takeD in_set_dropD)

section \<open>Bit arrays\<close>

definition bm_test :: "u32 list \<Rightarrow> nat \<Rightarrow> bool" where
  "bm_test w i = bit (w ! (i div 32)) (i mod 32)"

definition bm_set :: "u32 list \<Rightarrow> nat \<Rightarrow> u32 list" where
  "bm_set w i = w[i div 32 := (w ! (i div 32)) OR push_bit (i mod 32) 1]"

definition bm_clear :: "u32 list \<Rightarrow> nat \<Rightarrow> u32 list" where
  "bm_clear w i = w[i div 32 := (w ! (i div 32)) AND NOT (push_bit (i mod 32) 1)]"

lemma length_bm_set [simp]: "length (bm_set w i) = length w"
  by (simp add: bm_set_def)

lemma length_bm_clear [simp]: "length (bm_clear w i) = length w"
  by (simp add: bm_clear_def)

lemma bit_u32_exp: "bit (2 ^ (i mod 32) :: u32) (j mod 32) \<longleftrightarrow> i mod 32 = j mod 32"
  by (auto simp: bit_simps)

lemma div_mod_32_inj: "(i::nat) div 32 = j div 32 \<Longrightarrow> i mod 32 = j mod 32 \<Longrightarrow> i = j"
  by (metis div_mult_mod_eq)

lemma bm_test_set:
  assumes "i div 32 < length w"
  shows "bm_test (bm_set w i) j \<longleftrightarrow> i = j \<or> bm_test w j"
proof (cases "i div 32 = j div 32")
  case True
  then show ?thesis
    using assms by (auto simp: bm_test_def bm_set_def bit_or_iff bit_u32_exp dest: div_mod_32_inj)
next
  case False
  then show ?thesis by (auto simp: bm_test_def bm_set_def)
qed

lemma bm_test_clear:
  assumes "i div 32 < length w"
  shows "bm_test (bm_clear w i) j \<longleftrightarrow> i \<noteq> j \<and> bm_test w j"
proof (cases "i div 32 = j div 32")
  case True
  have "j mod 32 < 32" by simp
  then show ?thesis
    using assms True
    by (auto simp: bm_test_def bm_clear_def bit_and_iff bit_not_iff bit_u32_exp
        dest: div_mod_32_inj)
next
  case False
  then show ?thesis by (auto simp: bm_test_def bm_clear_def)
qed

lemma bm_test_zero [simp]: "i div 32 < n \<Longrightarrow> \<not> bm_test (replicate n 0) i"
  by (simp add: bm_test_def)

text \<open>The mask arithmetic the ring buffer uses on sizes that are powers of two.\<close>

fun is_pow2 :: "nat \<Rightarrow> bool" where
  "is_pow2 n = (if n \<le> 1 then n = 1 else if even n then is_pow2 (n div 2) else False)"

declare is_pow2.simps [simp del]

lemma is_pow2_iff: "is_pow2 n \<longleftrightarrow> (\<exists>k. n = 2 ^ k)"
proof
  show "is_pow2 n \<Longrightarrow> \<exists>k. n = 2 ^ k"
  proof (induction n rule: is_pow2.induct)
    case (1 n)
    show ?case
    proof (cases "n \<le> 1")
      case True
      with "1.prems" have "n = 2 ^ 0" by (simp add: is_pow2.simps [of n])
      then show ?thesis by blast
    next
      case False
      with "1.prems" have n: "even n" "is_pow2 (n div 2)"
        by (simp_all add: is_pow2.simps [of n] split: if_splits)
      with "1.IH" False obtain k where "n div 2 = 2 ^ k" by blast
      with n have "n = 2 ^ Suc k" by auto
      then show ?thesis by blast
    qed
  qed
next
  have "is_pow2 (2 ^ k)" for k
    proof (induction k)
    case 0
    show ?case by (simp add: is_pow2.simps)
  next
    case (Suc k)
    have "1 < (2::nat) ^ Suc k" by (rule one_less_power) simp_all
    with Suc show ?case by (subst is_pow2.simps) simp
  qed
  then show "\<exists>k. n = 2 ^ k \<Longrightarrow> is_pow2 n" by auto
qed

lemma is_pow2_pos: "is_pow2 n \<Longrightarrow> 0 < n"
  by (auto simp: is_pow2_iff)

lemma is_pow2_double: "is_pow2 n \<Longrightarrow> is_pow2 (n * 2)"
  by (metis is_pow2_iff power_Suc2)

lemma and_pow2_minus_1:
  assumes "is_pow2 c"
  shows "(x::nat) AND (c - 1) = x mod c"
proof -
  from assms obtain k where "c = 2 ^ k" by (auto simp: is_pow2_iff)
  then show ?thesis
    by (metis mask_eq_exp_minus_1 take_bit_eq_mask take_bit_eq_mod)
qed

lemmas and_pow2 = and_pow2_minus_1 [unfolded One_nat_def]

lemma or_push_bit_nat: "x < 2 ^ k \<Longrightarrow> x OR push_bit k y = x + 2 ^ k * (y::nat)"
proof -
  assume "x < 2 ^ k"
  then have b: "bit x n \<Longrightarrow> n < k" for n
    by (metis bit_take_bit_iff take_bit_nat_eq_self)
  have "x AND push_bit k y = 0"
    by (auto simp: bit_eq_iff bit_simps dest: b)
  then have "x + push_bit k y = x OR push_bit k y" by (rule disjunctive_add_eq_or)
  then show ?thesis by (simp add: push_bit_eq_mult mult.commute)
qed

lemma unat_byte_less [simp]: "unat (b :: byte) < 256"
  using unsigned_less [of b] by simp

section \<open>A state machine with an invariant\<close>

text \<open>
  Every event-driven component of the program is a step function run over a list of
  events. The locale states what one step keeps and derives what a run keeps.
\<close>

locale inv_machine =
  fixes step :: "'s \<Rightarrow> 'e \<Rightarrow> 's"
    and inv :: "'s \<Rightarrow> bool"
  assumes step_inv: "inv s \<Longrightarrow> inv (step s e)"
begin

lemma run_inv: "inv s \<Longrightarrow> inv (foldl step s es)"
  by (induction es arbitrary: s) (simp_all add: step_inv)

lemma run_prefix_inv: "inv s \<Longrightarrow> inv (foldl step s (take n es))"
  by (rule run_inv)

end

text \<open>A machine that in addition never changes some observation of its state.\<close>

locale framed_machine = inv_machine +
  fixes obs :: "'s \<Rightarrow> 'o"
  assumes step_obs: "inv s \<Longrightarrow> obs (step s e) = obs s"
begin

lemma run_obs: "inv s \<Longrightarrow> obs (foldl step s es) = obs s"
  by (induction es arbitrary: s) (simp_all add: step_inv step_obs)

end

end
