(* ===== verification/Width.thy ===== *)
theory Width
  imports Prelude
begin

text \<open>
  Character cell widths (\<open>src/vt/vt_width.c\<close>): the three range tables, the binary search
  over them and the two queries the engine asks. Code points are \<open>int\<close> here: the code only
  compares them.
\<close>

section \<open>Model\<close>

definition comb_ranges :: "(int \<times> int) list" where
  "comb_ranges = [
    (0x0300, 0x036F), (0x0483, 0x0489), (0x0591, 0x05BD), (0x05BF, 0x05BF), (0x05C1, 0x05C2),
    (0x05C4, 0x05C5), (0x05C7, 0x05C7), (0x0610, 0x061A), (0x064B, 0x065F), (0x0670, 0x0670),
    (0x06D6, 0x06DC), (0x06DF, 0x06E4), (0x06E7, 0x06E8), (0x06EA, 0x06ED), (0x0711, 0x0711),
    (0x0730, 0x074A), (0x07A6, 0x07B0), (0x07EB, 0x07F3), (0x0816, 0x0819), (0x081B, 0x0823),
    (0x0825, 0x0827), (0x0829, 0x082D), (0x0859, 0x085B), (0x08D3, 0x08E1), (0x08E3, 0x0902),
    (0x093A, 0x093A), (0x093C, 0x093C), (0x0941, 0x0948), (0x094D, 0x094D), (0x0951, 0x0957),
    (0x0962, 0x0963), (0x0981, 0x0981), (0x09BC, 0x09BC), (0x09C1, 0x09C4), (0x09CD, 0x09CD),
    (0x09E2, 0x09E3), (0x0A01, 0x0A02), (0x0A3C, 0x0A3C), (0x0A41, 0x0A42), (0x0A47, 0x0A48),
    (0x0A4B, 0x0A4D), (0x0A51, 0x0A51), (0x0A70, 0x0A71), (0x0A75, 0x0A75), (0x0A81, 0x0A82),
    (0x0ABC, 0x0ABC), (0x0AC1, 0x0AC5), (0x0AC7, 0x0AC8), (0x0ACD, 0x0ACD), (0x0AE2, 0x0AE3),
    (0x0B01, 0x0B01), (0x0B3C, 0x0B3C), (0x0B3F, 0x0B3F), (0x0B41, 0x0B44), (0x0B4D, 0x0B4D),
    (0x0B62, 0x0B63), (0x0B82, 0x0B82), (0x0BC0, 0x0BC0), (0x0BCD, 0x0BCD), (0x0C00, 0x0C00),
    (0x0C3E, 0x0C40), (0x0C46, 0x0C48), (0x0C4A, 0x0C4D), (0x0C55, 0x0C56), (0x0C62, 0x0C63),
    (0x0C81, 0x0C81), (0x0CBC, 0x0CBC), (0x0CBF, 0x0CBF), (0x0CC6, 0x0CC6), (0x0CCC, 0x0CCD),
    (0x0CE2, 0x0CE3), (0x0D01, 0x0D01), (0x0D41, 0x0D44), (0x0D4D, 0x0D4D), (0x0D62, 0x0D63),
    (0x0DCA, 0x0DCA), (0x0DD2, 0x0DD4), (0x0DD6, 0x0DD6), (0x0E31, 0x0E31), (0x0E34, 0x0E3A),
    (0x0E47, 0x0E4E), (0x0EB1, 0x0EB1), (0x0EB4, 0x0EBC), (0x0EC8, 0x0ECD), (0x0F18, 0x0F19),
    (0x0F35, 0x0F35), (0x0F37, 0x0F37), (0x0F39, 0x0F39), (0x0F71, 0x0F7E), (0x0F80, 0x0F84),
    (0x0F86, 0x0F87), (0x0F8D, 0x0F97), (0x0F99, 0x0FBC), (0x0FC6, 0x0FC6), (0x102D, 0x1030),
    (0x1032, 0x1037), (0x1039, 0x103A), (0x103D, 0x103E), (0x1058, 0x1059), (0x105E, 0x1060),
    (0x1071, 0x1074), (0x1082, 0x1082), (0x1085, 0x1086), (0x108D, 0x108D), (0x109D, 0x109D),
    (0x135D, 0x135F), (0x1712, 0x1714), (0x1732, 0x1734), (0x1752, 0x1753), (0x1772, 0x1773),
    (0x17B4, 0x17B5), (0x17B7, 0x17BD), (0x17C6, 0x17C6), (0x17C9, 0x17D3), (0x17DD, 0x17DD),
    (0x1885, 0x1886), (0x18A9, 0x18A9), (0x1920, 0x1922), (0x1927, 0x1928), (0x1932, 0x1932),
    (0x1939, 0x193B), (0x1A17, 0x1A18), (0x1A1B, 0x1A1B), (0x1A56, 0x1A56), (0x1A58, 0x1A5E),
    (0x1A60, 0x1A60), (0x1A62, 0x1A62), (0x1A65, 0x1A6C), (0x1A73, 0x1A7C), (0x1A7F, 0x1A7F),
    (0x1AB0, 0x1ABE), (0x1B00, 0x1B03), (0x1B34, 0x1B34), (0x1B36, 0x1B3A), (0x1B3C, 0x1B3C),
    (0x1B42, 0x1B42), (0x1B6B, 0x1B73), (0x1B80, 0x1B81), (0x1BA2, 0x1BA5), (0x1BA8, 0x1BA9),
    (0x1BAB, 0x1BAD), (0x1BE6, 0x1BE6), (0x1BE8, 0x1BE9), (0x1BED, 0x1BED), (0x1BEF, 0x1BF1),
    (0x1C2C, 0x1C33), (0x1C36, 0x1C37), (0x1CD0, 0x1CD2), (0x1CD4, 0x1CE0), (0x1CE2, 0x1CE8),
    (0x1CED, 0x1CED), (0x1CF4, 0x1CF4), (0x1CF8, 0x1CF9), (0x1DC0, 0x1DF9), (0x1DFB, 0x1DFF),
    (0x20D0, 0x20F0), (0x2CEF, 0x2CF1), (0x2D7F, 0x2D7F), (0x2DE0, 0x2DFF), (0x302A, 0x302D),
    (0x3099, 0x309A), (0xA66F, 0xA672), (0xA674, 0xA67D), (0xA69E, 0xA69F), (0xA6F0, 0xA6F1),
    (0xA802, 0xA802), (0xA806, 0xA806), (0xA80B, 0xA80B), (0xA825, 0xA826), (0xA8C4, 0xA8C5),
    (0xA8E0, 0xA8F1), (0xA926, 0xA92D), (0xA947, 0xA951), (0xA980, 0xA982), (0xA9B3, 0xA9B3),
    (0xA9B6, 0xA9B9), (0xA9BC, 0xA9BD), (0xAA29, 0xAA2E), (0xAA31, 0xAA32), (0xAA35, 0xAA36),
    (0xAA43, 0xAA43), (0xAA4C, 0xAA4C), (0xAA7C, 0xAA7C), (0xAAB0, 0xAAB0), (0xAAB2, 0xAAB4),
    (0xAAB7, 0xAAB8), (0xAABE, 0xAABF), (0xAAC1, 0xAAC1), (0xAAEC, 0xAAED), (0xAAF6, 0xAAF6),
    (0xABE5, 0xABE5), (0xABE8, 0xABE8), (0xABED, 0xABED), (0xFB1E, 0xFB1E), (0xFE20, 0xFE2F),
    (0x101FD, 0x101FD), (0x10A01, 0x10A03), (0x10A05, 0x10A06), (0x10A0C, 0x10A0F), (0x10A38, 0x10A3A),
    (0x10A3F, 0x10A3F), (0x11001, 0x11001), (0x11038, 0x11046), (0x1107F, 0x11081), (0x110B3, 0x110B6),
    (0x110B9, 0x110BA), (0x11100, 0x11102), (0x11127, 0x1112B), (0x1112D, 0x11134), (0x11173, 0x11173),
    (0x11180, 0x11181), (0x111B6, 0x111BE), (0x1122F, 0x11231), (0x11234, 0x11234), (0x11236, 0x11237),
    (0x112DF, 0x112DF), (0x112E3, 0x112EA), (0x11300, 0x11301), (0x1133C, 0x1133C), (0x11340, 0x11340),
    (0x11366, 0x1136C), (0x11370, 0x11374), (0x114B3, 0x114B8), (0x114BA, 0x114BA), (0x114BF, 0x114C0),
    (0x114C2, 0x114C3), (0x115B2, 0x115B5), (0x115BC, 0x115BD), (0x115BF, 0x115C0), (0x115DC, 0x115DD),
    (0x11633, 0x1163A), (0x1163D, 0x1163D), (0x1163F, 0x11640), (0x116AB, 0x116AB), (0x116AD, 0x116AD),
    (0x116B0, 0x116B5), (0x116B7, 0x116B7), (0x1171D, 0x1171F), (0x11722, 0x11725), (0x11727, 0x1172B),
    (0x16AF0, 0x16AF4), (0x16B30, 0x16B36), (0x16F8F, 0x16F92), (0x1BC9D, 0x1BC9E), (0x1D167, 0x1D169),
    (0x1D17B, 0x1D182), (0x1D185, 0x1D18B), (0x1D1AA, 0x1D1AD), (0x1D242, 0x1D244), (0x1DA00, 0x1DA36),
    (0x1DA3B, 0x1DA6C), (0x1DA75, 0x1DA75), (0x1DA84, 0x1DA84), (0x1DA9B, 0x1DA9F), (0x1DAA1, 0x1DAAF),
    (0x1E000, 0x1E006), (0x1E008, 0x1E018), (0x1E01B, 0x1E021), (0x1E023, 0x1E024), (0x1E026, 0x1E02A),
    (0x1E8D0, 0x1E8D6), (0x1E944, 0x1E94A)
  ]"

definition wide_ranges :: "(int \<times> int) list" where
  "wide_ranges = [
    (0x1100, 0x115F), (0x231A, 0x231B), (0x2329, 0x232A), (0x23E9, 0x23EC), (0x23F0, 0x23F0),
    (0x23F3, 0x23F3), (0x25FD, 0x25FE), (0x2614, 0x2615), (0x2648, 0x2653), (0x267F, 0x267F),
    (0x2693, 0x2693), (0x26A1, 0x26A1), (0x26AA, 0x26AB), (0x26BD, 0x26BE), (0x26C4, 0x26C5),
    (0x26CE, 0x26CE), (0x26D4, 0x26D4), (0x26EA, 0x26EA), (0x26F2, 0x26F3), (0x26F5, 0x26F5),
    (0x26FA, 0x26FA), (0x26FD, 0x26FD), (0x2705, 0x2705), (0x270A, 0x270B), (0x2728, 0x2728),
    (0x274C, 0x274C), (0x274E, 0x274E), (0x2753, 0x2755), (0x2757, 0x2757), (0x2795, 0x2797),
    (0x27B0, 0x27B0), (0x27BF, 0x27BF), (0x2B1B, 0x2B1C), (0x2B50, 0x2B50), (0x2B55, 0x2B55),
    (0x2E80, 0x2E99), (0x2E9B, 0x2EF3), (0x2F00, 0x2FD5), (0x2FF0, 0x2FFB), (0x3000, 0x303E),
    (0x3041, 0x3096), (0x3099, 0x30FF), (0x3105, 0x312F), (0x3131, 0x318E), (0x3190, 0x31BA),
    (0x31C0, 0x31E3), (0x31F0, 0x321E), (0x3220, 0x3247), (0x3250, 0x4DBF), (0x4E00, 0xA48C),
    (0xA490, 0xA4C6), (0xA960, 0xA97C), (0xAC00, 0xD7A3), (0xF900, 0xFAFF), (0xFE10, 0xFE19),
    (0xFE30, 0xFE52), (0xFE54, 0xFE66), (0xFE68, 0xFE6B), (0xFF00, 0xFF60), (0xFFE0, 0xFFE6),
    (0x16FE0, 0x16FE4), (0x17000, 0x187F7), (0x18800, 0x18CD5), (0x1B000, 0x1B152), (0x1B164, 0x1B167),
    (0x1B170, 0x1B2FB), (0x1F004, 0x1F004), (0x1F0CF, 0x1F0CF), (0x1F18E, 0x1F18E), (0x1F191, 0x1F19A),
    (0x1F200, 0x1F202), (0x1F210, 0x1F23B), (0x1F240, 0x1F248), (0x1F250, 0x1F251), (0x1F260, 0x1F265),
    (0x1F300, 0x1F320), (0x1F32D, 0x1F335), (0x1F337, 0x1F37C), (0x1F37E, 0x1F393), (0x1F3A0, 0x1F3CA),
    (0x1F3CF, 0x1F3D3), (0x1F3E0, 0x1F3F0), (0x1F3F4, 0x1F3F4), (0x1F3F8, 0x1F43E), (0x1F440, 0x1F440),
    (0x1F442, 0x1F4FC), (0x1F4FF, 0x1F53D), (0x1F54B, 0x1F54E), (0x1F550, 0x1F567), (0x1F57A, 0x1F57A),
    (0x1F595, 0x1F596), (0x1F5A4, 0x1F5A4), (0x1F5FB, 0x1F64F), (0x1F680, 0x1F6C5), (0x1F6CC, 0x1F6CC),
    (0x1F6D0, 0x1F6D2), (0x1F6D5, 0x1F6D7), (0x1F6EB, 0x1F6EC), (0x1F6F4, 0x1F6FC), (0x1F7E0, 0x1F7EB),
    (0x1F90C, 0x1F93A), (0x1F93C, 0x1F945), (0x1F947, 0x1F978), (0x1F97A, 0x1F9CB), (0x1F9CD, 0x1F9FF),
    (0x1FA70, 0x1FA74), (0x1FA78, 0x1FA7A), (0x1FA80, 0x1FA86), (0x1FA90, 0x1FAA8), (0x1FAB0, 0x1FAB6),
    (0x1FAC0, 0x1FAC2), (0x1FAD0, 0x1FAD6), (0x20000, 0x2FFFD), (0x30000, 0x3FFFD)
  ]"

definition fmt_ranges :: "(int \<times> int) list" where
  "fmt_ranges = [
    (0x180B, 0x180D), (0x200B, 0x200F), (0x202A, 0x202E), (0x2060, 0x2064), (0xFE00, 0xFE0F),
    (0xFEFF, 0xFEFF), (0xE0100, 0xE01EF)
  ]"

text \<open>\<open>in_ranges\<close>: the window \<open>[lo, hi)\<close> of the search.\<close>

function in_ranges_loop :: "(int \<times> int) list \<Rightarrow> int \<Rightarrow> nat \<Rightarrow> nat \<Rightarrow> bool" where
  "in_ranges_loop r cp lo hi =
    (if lo < hi then
       let mid = (lo + hi) div 2 in
       if cp < fst (r ! mid) then in_ranges_loop r cp lo mid
       else if cp > snd (r ! mid) then in_ranges_loop r cp (mid + 1) hi
       else True
     else False)"
  by pat_completeness auto
termination
  by (relation "measure (\<lambda>(r, cp, lo, hi). hi - lo)") auto

declare in_ranges_loop.simps [simp del]

definition in_ranges :: "(int \<times> int) list \<Rightarrow> int \<Rightarrow> bool" where
  "in_ranges r cp = in_ranges_loop r cp 0 (length r)"

definition vt_is_combining :: "u32 \<Rightarrow> bool" where
  "vt_is_combining cp = in_ranges comb_ranges (uint cp)"

definition vt_wcwidth :: "u32 \<Rightarrow> int" where
  "vt_wcwidth cp =
    (if cp = 0 then 0
     else if cp < 0x20 \<or> (cp \<ge> 0x7f \<and> cp < 0xa0) then 0
     else if in_ranges comb_ranges (uint cp) then 0
     else if in_ranges fmt_ranges (uint cp) then 0
     else if in_ranges wide_ranges (uint cp) then 2
     else 1)"

section \<open>The search finds exactly the table\<close>

fun sorted_ranges :: "(int \<times> int) list \<Rightarrow> bool" where
  "sorted_ranges [] = True"
| "sorted_ranges [(l, h)] = (l \<le> h)"
| "sorted_ranges ((l, h) # (l', h') # r) = (l \<le> h \<and> h < l' \<and> sorted_ranges ((l', h') # r))"

definition covered :: "(int \<times> int) list \<Rightarrow> int \<Rightarrow> bool" where
  "covered r cp = list_ex (\<lambda>(l, h). l \<le> cp \<and> cp \<le> h) r"

lemma covered_nth: "covered r cp \<longleftrightarrow> (\<exists>i<length r. fst (r ! i) \<le> cp \<and> cp \<le> snd (r ! i))"
  by (auto simp: covered_def list_ex_length case_prod_beta)

lemma sorted_ranges_head: "sorted_ranges ((l, h) # r) \<Longrightarrow> p \<in> set r \<Longrightarrow> h < fst p \<and> fst p \<le> snd p"
proof (induction r arbitrary: l h)
  case (Cons q r)
  obtain a b where "q = (a, b)" by (cases q)
  with Cons show ?case by (cases r) (fastforce+)
qed simp

lemma sorted_ranges_nth:
  "sorted_ranges r \<Longrightarrow> i < j \<Longrightarrow> j < length r \<Longrightarrow> snd (r ! i) < fst (r ! j)"
proof (induction r arbitrary: i j)
  case (Cons p r)
  obtain l h where p: "p = (l, h)" by (cases p)
  show ?case
  proof (cases i)
    case 0
    then show ?thesis using Cons.prems p sorted_ranges_head [of l h r "r ! (j - 1)"]
      by (cases j) auto
  next
    case (Suc k)
    moreover have "sorted_ranges r" using Cons.prems(1) p by (cases r) auto
    ultimately show ?thesis using Cons by (cases j) auto
  qed
qed simp

lemma sorted_ranges_le: "sorted_ranges r \<Longrightarrow> i < length r \<Longrightarrow> fst (r ! i) \<le> snd (r ! i)"
proof (induction r arbitrary: i rule: sorted_ranges.induct)
  case (3 l h l' h' r)
  then show ?case by (cases i) auto
qed auto

lemma in_ranges_loop_iff:
  "sorted_ranges r \<Longrightarrow> hi \<le> length r \<Longrightarrow>
    in_ranges_loop r cp lo hi \<longleftrightarrow> (\<exists>i. lo \<le> i \<and> i < hi \<and> fst (r ! i) \<le> cp \<and> cp \<le> snd (r ! i))"
proof (induction r cp lo hi rule: in_ranges_loop.induct)
  case (1 r cp lo hi)
  define mid where "mid = (lo + hi) div 2"
  show ?case
  proof (cases "lo < hi")
    case False
    then show ?thesis by (auto simp: in_ranges_loop.simps [of r cp lo hi])
  next
    case True
    then have mid: "lo \<le> mid" "mid < hi" by (auto simp: mid_def)
    note unf = in_ranges_loop.simps [of r cp lo hi, folded mid_def, unfolded Let_def]
    have lt: "i < j \<Longrightarrow> j < hi \<Longrightarrow> snd (r ! i) < fst (r ! j)" for i j
      using sorted_ranges_nth [OF "1.prems"(1)] "1.prems"(2) by auto
    have le: "i < hi \<Longrightarrow> fst (r ! i) \<le> snd (r ! i)" for i
      using sorted_ranges_le [OF "1.prems"(1)] "1.prems"(2) by auto
    consider "cp < fst (r ! mid)" | "\<not> cp < fst (r ! mid)" "snd (r ! mid) < cp"
      | "fst (r ! mid) \<le> cp" "cp \<le> snd (r ! mid)" by linarith
    then show ?thesis
    proof cases
      case c: 1
      have "\<not> (mid \<le> i \<and> i < hi \<and> fst (r ! i) \<le> cp)" for i
        using c lt [of mid i] le [of mid] mid by (cases "i = mid") auto
      then show ?thesis
        using "1.IH"(1) [OF True mid_def c "1.prems"(1)] "1.prems"(2) mid True c
        by (auto simp: unf intro: not_le_imp_less dest: less_trans)
    next
      case c: 2
      have "\<not> (lo \<le> i \<and> i \<le> mid \<and> cp \<le> snd (r ! i))" for i
        using c lt [of i mid] le [of mid] mid by (cases "i = mid") auto
      then show ?thesis
        using "1.IH"(2) [OF True mid_def c "1.prems"] mid True c
        by (auto simp: unf intro: Suc_leI not_le_imp_less)
    next
      case 3
      then show ?thesis using mid True by (auto simp: unf)
    qed
  qed
qed

lemma in_ranges_iff: "sorted_ranges r \<Longrightarrow> in_ranges r cp \<longleftrightarrow> covered r cp"
  by (simp add: in_ranges_def in_ranges_loop_iff covered_nth)

lemma comb_sorted: "sorted_ranges comb_ranges"
  by (simp add: comb_ranges_def)

lemma wide_sorted: "sorted_ranges wide_ranges"
  by (simp add: wide_ranges_def)

lemma fmt_sorted: "sorted_ranges fmt_ranges"
  by (simp add: fmt_ranges_def)

lemmas table_iff = in_ranges_iff [OF comb_sorted] in_ranges_iff [OF wide_sorted]
  in_ranges_iff [OF fmt_sorted]

lemma vt_wcwidth_range: "vt_wcwidth cp \<in> {0, 1, 2}"
  by (simp add: vt_wcwidth_def)

lemma vt_wcwidth_combining: "vt_is_combining cp \<Longrightarrow> vt_wcwidth cp = 0"
  by (simp add: vt_is_combining_def vt_wcwidth_def)

text \<open>No range of one table meets a range of another.\<close>

definition disjoint_ranges :: "(int \<times> int) list \<Rightarrow> (int \<times> int) list \<Rightarrow> bool" where
  "disjoint_ranges r s = list_all (\<lambda>(l, h). list_all (\<lambda>(l', h'). h < l' \<or> h' < l) s) r"

lemma disjoint_ranges_covered: "disjoint_ranges r s \<Longrightarrow> \<not> (covered r cp \<and> covered s cp)"
  by (fastforce simp: disjoint_ranges_def covered_def list_all_iff list_ex_iff)

lemma fmt_comb_disjoint: "disjoint_ranges fmt_ranges comb_ranges"
  by (simp add: disjoint_ranges_def fmt_ranges_def comb_ranges_def)

lemma fmt_wide_disjoint: "disjoint_ranges fmt_ranges wide_ranges"
  by (simp add: disjoint_ranges_def fmt_ranges_def wide_ranges_def)

text \<open>
  The width of a code point is what the Unicode tables say: the binary search
  agrees with plain membership in the tables, so a code point has width 0 exactly when it
  is a control, an attachable mark or a format control, and width 2 exactly when it is in
  the wide table and none of these; no code point is both an attachable mark and a format
  control.
\<close>

theorem wcwidth_by_tables:
  "(vt_wcwidth cp = 0 \<longleftrightarrow>
      cp < 0x20 \<or> (0x7f \<le> cp \<and> cp < 0xa0) \<or> covered comb_ranges (uint cp) \<or> covered fmt_ranges (uint cp)) \<and>
   (vt_wcwidth cp = 2 \<longleftrightarrow> covered wide_ranges (uint cp) \<and> vt_wcwidth cp \<noteq> 0) \<and>
   (vt_wcwidth cp = 1 \<longleftrightarrow> \<not> covered wide_ranges (uint cp) \<and> vt_wcwidth cp \<noteq> 0) \<and>
   (vt_is_combining cp \<longleftrightarrow> covered comb_ranges (uint cp)) \<and>
   \<not> (covered comb_ranges (uint cp) \<and> covered fmt_ranges (uint cp))"
proof -
  have "cp = 0 \<Longrightarrow> cp < 0x20" by simp
  then show ?thesis
    using disjoint_ranges_covered [OF fmt_comb_disjoint, of "uint cp"]
    by (auto simp: vt_wcwidth_def vt_is_combining_def table_iff)
qed

end
