(* ===== verification/Loop.thy ===== *)
theory Loop
  imports Prelude
begin

text \<open>
  The event loop's table of \<open>src/daemon/loop.c\<close>: the file descriptors that are polled, in
  table order, each with the callback's owner. The type of owners is a parameter; the daemon
  uses it for the callback and its argument. One round of \<open>loop_run\<close> is a function of the
  events \<open>poll\<close> reported and of what the callbacks do to the state that holds the table.
\<close>

section \<open>The table\<close>

abbreviation (input) POLLIN :: u16 where "POLLIN \<equiv> 0x01"
abbreviation (input) POLLOUT :: u16 where "POLLOUT \<equiv> 0x04"
abbreviation (input) POLLERR :: u16 where "POLLERR \<equiv> 0x08"
abbreviation (input) POLLHUP :: u16 where "POLLHUP \<equiv> 0x10"
abbreviation (input) POLLNVAL :: u16 where "POLLNVAL \<equiv> 0x20"

definition LOOP_MAX_FDS :: nat where "LOOP_MAX_FDS = 1024"

record 'o pollfd =
  pfd :: int
  pevents :: u16
  prevents :: u16
  powner :: 'o

definition find_idx :: "'o pollfd list \<Rightarrow> int \<Rightarrow> nat option" where
  "find_idx tb fd = find (\<lambda>i. pfd (tb ! i) = fd) [0..<length tb]"

definition loop_add_fd :: "'o pollfd list \<Rightarrow> int \<Rightarrow> u16 \<Rightarrow> 'o \<Rightarrow> int \<times> 'o pollfd list" where
  "loop_add_fd tb fd ev ow =
    (if length tb \<ge> LOOP_MAX_FDS \<or> find_idx tb fd \<noteq> None then (- 1, tb)
     else (0, tb @ [\<lparr>pfd = fd, pevents = ev, prevents = 0, powner = ow\<rparr>]))"

definition loop_mod_fd :: "'o pollfd list \<Rightarrow> int \<Rightarrow> u16 \<Rightarrow> int \<times> 'o pollfd list" where
  "loop_mod_fd tb fd ev = (case find_idx tb fd of None \<Rightarrow> (- 1, tb)
     | Some i \<Rightarrow> (0, tb[i := (tb ! i)\<lparr>pevents := ev\<rparr>]))"

text \<open>The last entry takes the place of the one removed.\<close>

definition loop_del_fd :: "'o pollfd list \<Rightarrow> int \<Rightarrow> 'o pollfd list" where
  "loop_del_fd tb fd = (case find_idx tb fd of None \<Rightarrow> tb
     | Some i \<Rightarrow> let n = length tb - 1 in take n (tb[i := tb ! n]))"

section \<open>A round of dispatch\<close>

text \<open>The loop over the table after \<open>poll\<close> returned \<open>n\<close> ready descriptors. \<open>tb\<close> reads the table
  of a state, \<open>put\<close> writes it, and \<open>call\<close> is the callback of an owner.\<close>

function round_from :: "('s \<Rightarrow> 'o pollfd list) \<Rightarrow> ('o pollfd list \<Rightarrow> 's \<Rightarrow> 's) \<Rightarrow> ('o \<Rightarrow> int \<Rightarrow> u16 \<Rightarrow> 's \<Rightarrow> 's) \<Rightarrow>
    nat \<Rightarrow> nat \<Rightarrow> nat \<Rightarrow> 's \<Rightarrow> 's" where
  "round_from tb put call before n i s =
    (if length (tb s) \<noteq> before \<or> i \<ge> before \<or> n = 0 then s
     else let e = tb s ! i in
       if prevents e = 0 then round_from tb put call before n (i + 1) s
       else let s = put ((tb s)[i := e\<lparr>prevents := 0\<rparr>]) s; s = call (powner e) (pfd e) (prevents e) s
            in if length (tb s) \<noteq> before then s else round_from tb put call before (n - 1) (i + 1) s)"
  by pat_completeness auto
termination by (relation "measure (\<lambda>(tb, put, call, before, n, i, s). before - i)") auto

declare round_from.simps [simp del]

definition loop_round :: "('s \<Rightarrow> 'o pollfd list) \<Rightarrow> ('o pollfd list \<Rightarrow> 's \<Rightarrow> 's) \<Rightarrow> ('o \<Rightarrow> int \<Rightarrow> u16 \<Rightarrow> 's \<Rightarrow> 's) \<Rightarrow> nat \<Rightarrow> 's \<Rightarrow> 's" where
  "loop_round tb put call n s = round_from tb put call (length (tb s)) n 0 s"

section \<open>The table is a finite map\<close>

definition loop_wf :: "'o pollfd list \<Rightarrow> bool" where
  "loop_wf tb \<longleftrightarrow> distinct (map pfd tb) \<and> length tb \<le> LOOP_MAX_FDS"

definition watch :: "'o pollfd list \<Rightarrow> int \<Rightarrow> 'o pollfd option" where
  "watch tb fd = find (\<lambda>e. pfd e = fd) tb"

lemma find_idx_None: "find_idx tb fd = None \<longleftrightarrow> fd \<notin> pfd ` set tb"
  by (force simp: find_idx_def find_None_iff in_set_conv_nth)

lemma find_idx_Some: "find_idx tb fd = Some i \<Longrightarrow> i < length tb \<and> pfd (tb ! i) = fd"
  by (auto simp: find_idx_def find_Some_iff)

lemma watch_iff: "distinct (map pfd tb) \<Longrightarrow> watch tb fd = Some e \<longleftrightarrow> e \<in> set tb \<and> pfd e = fd"
  unfolding watch_def
  by (induction tb) (auto split: if_splits)

lemma watch_None: "watch tb fd = None \<longleftrightarrow> fd \<notin> pfd ` set tb"
  by (force simp: watch_def find_None_iff)

lemma find_idx_unique: "distinct (map pfd tb) \<Longrightarrow> i < length tb \<Longrightarrow> pfd (tb ! i) = fd \<Longrightarrow> e \<in> set tb \<Longrightarrow> pfd e = fd \<Longrightarrow> e = tb ! i"
  by (metis distinct_conv_nth in_set_conv_nth length_map nth_map)

lemma loop_del_entries:
  assumes "loop_wf tb"
  shows "loop_wf (loop_del_fd tb fd)" and "set (loop_del_fd tb fd) = {e \<in> set tb. pfd e \<noteq> fd}"
proof -
  have *: "loop_wf (loop_del_fd tb fd) \<and> set (loop_del_fd tb fd) = {e \<in> set tb. pfd e \<noteq> fd}"
  proof (cases "find_idx tb fd")
    case None
    then have "\<forall>e\<in>set tb. pfd e \<noteq> fd" by (auto simp: find_idx_None)
    then show ?thesis using None assms by (auto simp: loop_del_fd_def)
  next
    case (Some i)
    have i: "i < length tb" "pfd (tb ! i) = fd" using find_idx_Some [OF Some] by auto
    obtain ys z where tb: "tb = ys @ [z]" using i(1) by (cases tb rule: rev_cases) auto
    have d: "distinct (map pfd ys)" "pfd z \<notin> pfd ` set ys" "distinct ys"
      using assms by (auto simp: loop_wf_def tb distinct_map)
    have eq: "loop_del_fd tb fd = (if i < length ys then ys[i := z] else ys)"
      using Some i(1) by (auto simp: loop_del_fd_def tb list_update_append)
    show ?thesis
    proof (cases "i < length ys")
      case True
      then have u: "pfd (ys ! i) = fd" using i(2) by (simp add: tb nth_append)
      then have "e = ys ! i" if "e \<in> set ys" "pfd e = fd" for e
        using find_idx_unique [OF d(1) True] that by blast
      moreover have "pfd z \<noteq> fd" using True u d(2) by (metis imageI nth_mem)
      ultimately have "set (ys[i := z]) = {e \<in> set tb. pfd e \<noteq> fd}"
        using True d(3) u by (auto simp: set_update_distinct tb)
      moreover have "distinct (map pfd (ys[i := z]))"
        using d by (auto simp: map_update intro!: distinct_list_update)
      ultimately show ?thesis unfolding eq using assms True by (simp add: loop_wf_def tb)
    next
      case False
      then have "i = length ys" using i(1) by (simp add: tb)
      then have "pfd z = fd" using i(2) by (simp add: tb)
      then have "set ys = {e \<in> set tb. pfd e \<noteq> fd}" using d(2) by (auto simp: tb) (metis imageI)
      then show ?thesis unfolding eq using assms False d by (simp add: loop_wf_def tb)
    qed
  qed
  then show "loop_wf (loop_del_fd tb fd)" "set (loop_del_fd tb fd) = {e \<in> set tb. pfd e \<noteq> fd}" by auto
qed

lemma loop_mod_wf: "loop_wf tb \<Longrightarrow> loop_wf (snd (loop_mod_fd tb fd ev))"
proof (cases "find_idx tb fd")
  case (Some i)
  assume "loop_wf tb"
  moreover have "map pfd (tb[i := (tb ! i)\<lparr>pevents := ev\<rparr>]) = map pfd tb"
    using find_idx_Some [OF Some] by (simp add: map_update list_update_same_conv)
  ultimately show ?thesis using Some by (simp add: loop_mod_fd_def loop_wf_def)
qed (simp add: loop_mod_fd_def)

lemma loop_add_wf: "loop_wf tb \<Longrightarrow> loop_wf (snd (loop_add_fd tb fd ev ow))"
  by (auto simp: loop_add_fd_def loop_wf_def find_idx_None)

end
