(* ===== verification/Vt_Types.thy ===== *)
theory Vt_Types
  imports Prelude Width
begin

unbundle bit_operations_syntax

text \<open>
  The data of the terminal engine, from \<open>src/vt/vt.h\<close> and \<open>src/vt/vt_internal.h\<close>: cells,
  pens, cursors, mode bits, callbacks and the screen half of \<open>struct vt\<close>. A screen holds two
  grids of \<open>rows * cols\<close> cells each, laid out row by row as in the C arrays; a pointer into
  the active grid is an index, and the null pointer of \<open>vt_cell_at\<close> is \<open>None\<close>.

  The field \<open>ub\<close> is not in the C structure. Every primitive access to memory sets it when
  the C program would dereference null, step outside an array or hand overlapping regions
  to \<open>memcpy\<close>, so that the absence of undefined behaviour is a statement about the final
  state: \<open>\<not> ub\<close>. The callbacks are recorded by presence, and what they are called with
  is appended to the field \<open>out\<close>.
\<close>

section \<open>Cells, pens and cursors\<close>

record cell =
  ccp :: u32
  cfg :: u32
  cbg :: u32
  cattrs :: u16
  ccomb :: u16

record vt_pen =
  pfg :: u32
  pbg :: u32
  pattrs :: u16

record vt_cursor =
  crow :: nat
  ccol :: nat
  cpen :: vt_pen
  pending_wrap :: bool
  charset_idx :: nat
  charset_graphics :: "bool list"
  corigin :: bool

definition zero_cell :: cell where
  "zero_cell = \<lparr>ccp = 0, cfg = 0, cbg = 0, cattrs = 0, ccomb = 0\<rparr>"

definition VT_COLOR_DEFAULT :: u32 where
  "VT_COLOR_DEFAULT = 0"

definition VT_COLOR_IDX :: "u32 \<Rightarrow> u32" where
  "VT_COLOR_IDX n = 0x01000000 OR n"

definition VT_COLOR_RGB :: "u32 \<Rightarrow> u32" where
  "VT_COLOR_RGB rgb = 0x02000000 OR (rgb AND 0xFFFFFF)"

definition default_pen :: vt_pen where
  "default_pen = \<lparr>pfg = VT_COLOR_DEFAULT, pbg = VT_COLOR_DEFAULT, pattrs = 0\<rparr>"

definition zero_cursor :: vt_cursor where
  "zero_cursor = \<lparr>crow = 0, ccol = 0, cpen = default_pen, pending_wrap = False,
    charset_idx = 0, charset_graphics = [False, False], corigin = False\<rparr>"

section \<open>Attribute and mode bits\<close>

abbreviation (input) "VT_ATTR_BOLD \<equiv> (0x001 :: u16)"
abbreviation (input) "VT_ATTR_DIM \<equiv> (0x002 :: u16)"
abbreviation (input) "VT_ATTR_ITALIC \<equiv> (0x004 :: u16)"
abbreviation (input) "VT_ATTR_UNDERLINE \<equiv> (0x008 :: u16)"
abbreviation (input) "VT_ATTR_BLINK \<equiv> (0x010 :: u16)"
abbreviation (input) "VT_ATTR_REVERSE \<equiv> (0x020 :: u16)"
abbreviation (input) "VT_ATTR_INVISIBLE \<equiv> (0x040 :: u16)"
abbreviation (input) "VT_ATTR_STRIKE \<equiv> (0x080 :: u16)"
abbreviation (input) "VT_ATTR_WIDE \<equiv> (0x100 :: u16)"
abbreviation (input) "VT_ATTR_WIDE_SPACER \<equiv> (0x200 :: u16)"

abbreviation (input) "VT_MODE_DECCKM \<equiv> (0x0001 :: u32)"
abbreviation (input) "VT_MODE_DECOM \<equiv> (0x0002 :: u32)"
abbreviation (input) "VT_MODE_DECAWM \<equiv> (0x0004 :: u32)"
abbreviation (input) "VT_MODE_DECTCEM \<equiv> (0x0008 :: u32)"
abbreviation (input) "VT_MODE_ALTSCREEN \<equiv> (0x0010 :: u32)"
abbreviation (input) "VT_MODE_MOUSE_X10 \<equiv> (0x0020 :: u32)"
abbreviation (input) "VT_MODE_MOUSE_BTN \<equiv> (0x0040 :: u32)"
abbreviation (input) "VT_MODE_MOUSE_ANY \<equiv> (0x0080 :: u32)"
abbreviation (input) "VT_MODE_FOCUS \<equiv> (0x0100 :: u32)"
abbreviation (input) "VT_MODE_MOUSE_UTF8 \<equiv> (0x0200 :: u32)"
abbreviation (input) "VT_MODE_MOUSE_SGR \<equiv> (0x0400 :: u32)"
abbreviation (input) "VT_MODE_PASTE \<equiv> (0x0800 :: u32)"
abbreviation (input) "VT_MODE_IRM \<equiv> (0x1000 :: u32)"

abbreviation (input) "VT_ROWS_MAX \<equiv> (1000 :: nat)"
abbreviation (input) "VT_COLS_MAX \<equiv> (1000 :: nat)"
abbreviation (input) "VT_TABSTOP_WORDS \<equiv> (32 :: nat)"
abbreviation (input) "VT_DIRTY_WORDS \<equiv> (32 :: nat)"

text \<open>The cast \<open>(uint16_t) x\<close> of a C \<open>int\<close>.\<close>

definition u16 :: "int \<Rightarrow> nat" where
  "u16 x = nat (x mod 65536)"

lemma u16_id: "0 \<le> x \<Longrightarrow> x < 65536 \<Longrightarrow> u16 x = nat x"
  by (simp add: u16_def)

lemma u16_of_nat [simp]: "n < 65536 \<Longrightarrow> u16 (int n) = n"
  by (simp add: u16_id)

lemma u16_pred [simp]: "0 < n \<Longrightarrow> n \<le> 65536 \<Longrightarrow> u16 (int n - 1) = n - 1"
  by (simp add: u16_id nat_diff_distrib')

section \<open>Callbacks and the screen\<close>

record vt_callbacks =
  on_response :: bool
  on_scrollback_line :: bool
  on_title :: bool
  on_bell :: bool
  on_passthrough :: bool

datatype vt_event =
    Response "byte list"
  | ScrollbackLine "cell list"
  | Title "byte list"
  | Bell
  | Passthrough "byte list"

record screen =
  rows :: nat
  cols :: nat
  grid :: "cell list list"
  active :: nat
  cur :: vt_cursor
  saved_cur :: "vt_cursor list"
  modes :: u32
  scroll_top :: nat
  scroll_bot :: nat
  tabstops :: "u32 list"
  last_row :: nat
  last_col :: nat
  last_valid :: bool
  dirty :: "u32 list"
  dirty_all :: bool
  cb :: vt_callbacks
  out :: "vt_event list"
  ub :: bool

abbreviation mode_on :: "screen \<Rightarrow> u32 \<Rightarrow> bool" where
  "mode_on v m \<equiv> modes v AND m \<noteq> 0"

section \<open>Memory accesses\<close>

abbreviation cells :: "screen \<Rightarrow> cell list" where
  "cells v \<equiv> grid v ! active v"

abbreviation set_cells :: "screen \<Rightarrow> cell list \<Rightarrow> screen" where
  "set_cells v cs \<equiv> v\<lparr>grid := (grid v)[active v := cs]\<rparr>"

definition load :: "screen \<Rightarrow> nat \<Rightarrow> screen" where
  "load v i = (if i < length (cells v) then v else v\<lparr>ub := True\<rparr>)"

definition store :: "screen \<Rightarrow> nat option \<Rightarrow> cell \<Rightarrow> screen" where
  "store v p c = (case p of
     None \<Rightarrow> v\<lparr>ub := True\<rparr>
   | Some i \<Rightarrow> if i < length (cells v) then set_cells v ((cells v)[i := c]) else v\<lparr>ub := True\<rparr>)"

definition memmove_cells :: "screen \<Rightarrow> nat option \<Rightarrow> nat option \<Rightarrow> nat \<Rightarrow> screen" where
  "memmove_cells v d s n = (case (d, s) of
     (Some di, Some si) \<Rightarrow>
       if di + n \<le> length (cells v) \<and> si + n \<le> length (cells v)
       then set_cells v (overwrite (cells v) di (take n (drop si (cells v))))
       else v\<lparr>ub := True\<rparr>
   | _ \<Rightarrow> v\<lparr>ub := True\<rparr>)"

definition memcpy_cells :: "screen \<Rightarrow> nat option \<Rightarrow> nat option \<Rightarrow> nat \<Rightarrow> screen" where
  "memcpy_cells v d s n = (case (d, s) of
     (Some di, Some si) \<Rightarrow>
       if di + n \<le> si \<or> si + n \<le> di then memmove_cells v d s n else v\<lparr>ub := True\<rparr>
   | _ \<Rightarrow> v\<lparr>ub := True\<rparr>)"

definition emit_event :: "screen \<Rightarrow> vt_event \<Rightarrow> screen" where
  "emit_event v e = v\<lparr>out := out v @ [e]\<rparr>"

end
