(* ===== verification/Vt_Screen.thy ===== *)
theory Vt_Screen
  imports Vt_Types
begin

unbundle bit_operations_syntax

text \<open>
  The grid operations of \<open>src/vt/vt_screen.c\<close>, in the order of the file: damage marking,
  scrolling, cursor movement, printing, erasing and shifting, scroll regions, the alternate
  screen, reset, resize and the inspection functions.
\<close>

section \<open>Model\<close>

definition blank_cell :: "screen \<Rightarrow> cell" where
  "blank_cell v = \<lparr>ccp = 0, cfg = VT_COLOR_DEFAULT, cbg = pbg (cpen (cur v)), cattrs = 0, ccomb = 0\<rparr>"

definition forget_last :: "screen \<Rightarrow> screen" where
  "forget_last v = v\<lparr>last_valid := False\<rparr>"

definition mark_row :: "screen \<Rightarrow> nat \<Rightarrow> screen" where
  "mark_row v row =
    (if row < rows v then
       if row div 32 < length (dirty v) then v\<lparr>dirty := bm_set (dirty v) row\<rparr>
       else v\<lparr>ub := True\<rparr>
     else v)"

definition mark_rows :: "screen \<Rightarrow> nat \<Rightarrow> nat \<Rightarrow> screen" where
  "mark_rows v tp bt = foldl mark_row v [tp..<min (bt + 1) (rows v)]"

definition mark_all :: "screen \<Rightarrow> screen" where
  "mark_all v = v\<lparr>dirty_all := True\<rparr>"

definition vt_cell_at :: "screen \<Rightarrow> nat \<Rightarrow> nat \<Rightarrow> nat option" where
  "vt_cell_at v row col =
    (if rows v \<le> row \<or> cols v \<le> col then None else Some (row * cols v + col))"

definition clear_row :: "screen \<Rightarrow> nat \<Rightarrow> nat \<Rightarrow> nat \<Rightarrow> screen" where
  "clear_row v row from to =
    (if rows v \<le> row then v
     else let to = (if cols v < to then cols v else to);
              v = mark_row v row;
              b = blank_cell v
          in foldl (\<lambda>v c. store v (vt_cell_at v row c) b) v [from..<to])"

text \<open>One half of a wide character, blanked if it carries the given attribute.\<close>

definition unsplit_half :: "screen \<Rightarrow> nat option \<Rightarrow> u16 \<Rightarrow> screen" where
  "unsplit_half v p attr = (case p of
     None \<Rightarrow> v
   | Some j \<Rightarrow>
       let v = load v j; c = cells v ! j
       in if cattrs c AND attr \<noteq> 0
          then store v (Some j) (c\<lparr>ccp := 0, cattrs := 0, ccomb := 0\<rparr>) else v)"

definition unsplit_wide :: "screen \<Rightarrow> nat \<Rightarrow> nat \<Rightarrow> screen" where
  "unsplit_wide v row col = (case vt_cell_at v row col of
     None \<Rightarrow> v
   | Some i \<Rightarrow>
       let v = mark_row (load v i) row;
           v = (if cattrs (cells v ! i) AND VT_ATTR_WIDE_SPACER \<noteq> 0 \<and> 0 < col
                then unsplit_half v (vt_cell_at v row (col - 1)) VT_ATTR_WIDE else v)
       in if cattrs (cells v ! i) AND VT_ATTR_WIDE \<noteq> 0 \<and> col + 1 < cols v
          then unsplit_half v (vt_cell_at v row (col + 1)) VT_ATTR_WIDE_SPACER else v)"

subsection \<open>Scrolling\<close>

text \<open>The line the callback gets is read in place, through the pointer of its first cell.\<close>

definition emit_line :: "screen \<Rightarrow> nat \<Rightarrow> screen" where
  "emit_line v i = (case vt_cell_at v i 0 of
     None \<Rightarrow> v\<lparr>ub := True\<rparr>
   | Some k \<Rightarrow> if k + cols v \<le> length (cells v)
               then emit_event v (ScrollbackLine (take (cols v) (drop k (cells v))))
               else v\<lparr>ub := True\<rparr>)"

definition scroll_region_up :: "screen \<Rightarrow> nat \<Rightarrow> nat \<Rightarrow> int \<Rightarrow> screen" where
  "scroll_region_up v tp bt n =
    (if n \<le> 0 then v
     else let v = mark_rows (forget_last v) tp bt;
              height = int bt - int tp + 1;
              n = nat (if n > height then height else n);
              v = (if active v = 0 \<and> tp = 0 \<and> on_scrollback_line (cb v)
                   then foldl emit_line v [0..<n] else v);
              v = foldl (\<lambda>v r. memcpy_cells v (vt_cell_at v r 0) (vt_cell_at v (r + n) 0) (cols v))
                    v [tp..<bt + 1 - n]
          in foldl (\<lambda>v r. clear_row v r 0 (cols v)) v [bt + 1 - n..<bt + 1])"

definition scroll_region_down :: "screen \<Rightarrow> nat \<Rightarrow> nat \<Rightarrow> int \<Rightarrow> screen" where
  "scroll_region_down v tp bt n =
    (if n \<le> 0 then v
     else let v = mark_rows (forget_last v) tp bt;
              height = int bt - int tp + 1;
              n = nat (if n > height then height else n);
              v = foldl (\<lambda>v r. memcpy_cells v (vt_cell_at v r 0) (vt_cell_at v (r - n) 0) (cols v))
                    v (rev [tp + n..<bt + 1])
          in foldl (\<lambda>v r. clear_row v r 0 (cols v)) v [tp..<tp + n])"

definition vt_screen_scroll_up :: "screen \<Rightarrow> int \<Rightarrow> screen" where
  "vt_screen_scroll_up v n = scroll_region_up v (scroll_top v) (scroll_bot v) n"

definition vt_screen_scroll_down :: "screen \<Rightarrow> int \<Rightarrow> screen" where
  "vt_screen_scroll_down v n = scroll_region_down v (scroll_top v) (scroll_bot v) n"

subsection \<open>Cursor movement\<close>

definition vt_screen_move_cursor :: "screen \<Rightarrow> int \<Rightarrow> int \<Rightarrow> screen" where
  "vt_screen_move_cursor v row col =
    (let tp = (if mode_on v VT_MODE_DECOM then int (scroll_top v) else 0);
         bt = (if mode_on v VT_MODE_DECOM then int (scroll_bot v) else int (rows v) - 1);
         row = (if mode_on v VT_MODE_DECOM then row + tp else row);
         row = (if row < tp then tp else row);
         row = (if row > bt then bt else row);
         col = (if col < 0 then 0 else col);
         col = (if col \<ge> int (cols v) then int (cols v) - 1 else col)
     in forget_last (v\<lparr>cur := (cur v)\<lparr>crow := u16 row, ccol := u16 col, pending_wrap := False\<rparr>\<rparr>))"

definition vt_screen_carriage_return :: "screen \<Rightarrow> screen" where
  "vt_screen_carriage_return v = forget_last (v\<lparr>cur := (cur v)\<lparr>ccol := 0, pending_wrap := False\<rparr>\<rparr>)"

definition vt_screen_backspace :: "screen \<Rightarrow> screen" where
  "vt_screen_backspace v =
    (let v = forget_last v
     in if pending_wrap (cur v) then v\<lparr>cur := (cur v)\<lparr>pending_wrap := False\<rparr>\<rparr>
        else if 0 < ccol (cur v) then v\<lparr>cur := (cur v)\<lparr>ccol := ccol (cur v) - 1\<rparr>\<rparr>
        else v)"

definition no_wrap :: "screen \<Rightarrow> screen" where
  "no_wrap v = v\<lparr>cur := (cur v)\<lparr>pending_wrap := False\<rparr>\<rparr>"

definition vt_screen_newline :: "screen \<Rightarrow> screen" where
  "vt_screen_newline v =
    (let v = no_wrap (forget_last v)
     in if crow (cur v) = scroll_bot v then scroll_region_up v (scroll_top v) (scroll_bot v) 1
        else if crow (cur v) + 1 < rows v then v\<lparr>cur := (cur v)\<lparr>crow := crow (cur v) + 1\<rparr>\<rparr>
        else v)"

definition vt_screen_reverse_index :: "screen \<Rightarrow> screen" where
  "vt_screen_reverse_index v =
    (let v = no_wrap (forget_last v)
     in if crow (cur v) = scroll_top v then scroll_region_down v (scroll_top v) (scroll_bot v) 1
        else if 0 < crow (cur v) then v\<lparr>cur := (cur v)\<lparr>crow := crow (cur v) - 1\<rparr>\<rparr>
        else v)"

fun next_tab :: "u32 list \<Rightarrow> nat list \<Rightarrow> nat option" where
  "next_tab ts [] = None"
| "next_tab ts (c # cs) = (if bm_test ts c then Some c else next_tab ts cs)"

definition vt_screen_tab :: "screen \<Rightarrow> screen" where
  "vt_screen_tab v =
    (let v = no_wrap (forget_last v)
     in if cols v > 32 * length (tabstops v) then v\<lparr>ub := True\<rparr>
        else v\<lparr>cur := (cur v)\<lparr>ccol := (case next_tab (tabstops v) [ccol (cur v) + 1..<cols v] of
               Some c \<Rightarrow> c | None \<Rightarrow> u16 (int (cols v) - 1))\<rparr>\<rparr>)"

subsection \<open>Printing\<close>

definition attach_combining :: "screen \<Rightarrow> u32 \<Rightarrow> screen" where
  "attach_combining v cp =
    (if \<not> last_valid v \<or> cp > 0xFFFF then v
     else case vt_cell_at v (last_row v) (last_col v) of
       None \<Rightarrow> v
     | Some i \<Rightarrow>
         let v = load v i; c = cells v ! i
         in if ccp c = 0 \<or> ccomb c \<noteq> 0 then v
            else mark_row (store v (Some i) (c\<lparr>ccomb := ucast cp\<rparr>)) (last_row v))"

text \<open>The memory move that opens a gap of \<open>n\<close> cells at the cursor.\<close>

definition vt_screen_insert_chars :: "screen \<Rightarrow> int \<Rightarrow> screen" where
  "vt_screen_insert_chars v n =
    (if n \<le> 0 then v
     else let v = forget_last v;
              avail = int (cols v) - int (ccol (cur v));
              n = nat (if n > avail then avail else n);
              row = vt_cell_at v (crow (cur v)) 0;
              v = mark_row v (crow (cur v));
              v = memmove_cells v (map_option (\<lambda>p. p + ccol (cur v) + n) row)
                    (map_option (\<lambda>p. p + ccol (cur v)) row) (nat avail - n);
              v = clear_row v (crow (cur v)) (ccol (cur v)) (u16 (int (ccol (cur v)) + int n))
          in no_wrap v)"

text \<open>
  \<open>vt_screen_put\<close> in its stages: the deferred wrap of the previous character, the wrap of a
  wide character that does not fit (\<open>None\<close> when a one-column grid cannot hold it), the
  spacer half of a wide character, and the write itself with the cursor advance.
\<close>

definition put_wrap :: "screen \<Rightarrow> screen" where
  "put_wrap v =
    (if pending_wrap (cur v) \<and> mode_on v VT_MODE_DECAWM
     then vt_screen_newline (vt_screen_carriage_return v) else v)"

definition put_fit :: "screen \<Rightarrow> int \<Rightarrow> screen option" where
  "put_fit v width =
    (if width = 2 \<and> ccol (cur v) + 1 \<ge> cols v then
       if mode_on v VT_MODE_DECAWM
       then Some (vt_screen_newline (vt_screen_carriage_return
                    (clear_row v (crow (cur v)) (ccol (cur v)) (cols v))))
       else if cols v \<ge> 2 then Some (v\<lparr>cur := (cur v)\<lparr>ccol := u16 (int (cols v) - 2)\<rparr>\<rparr>)
       else None
     else Some v)"

definition put_spacer :: "screen \<Rightarrow> screen" where
  "put_spacer v =
    (let v = unsplit_wide v (crow (cur v)) (u16 (int (ccol (cur v)) + 1))
     in case vt_cell_at v (crow (cur v)) (u16 (int (ccol (cur v)) + 1)) of
          None \<Rightarrow> v
        | Some j \<Rightarrow> store v (Some j)
            \<lparr>ccp = 0, cfg = pfg (cpen (cur v)), cbg = pbg (cpen (cur v)),
             cattrs = VT_ATTR_WIDE_SPACER, ccomb = 0\<rparr>)"

definition put_advance :: "screen \<Rightarrow> int \<Rightarrow> screen" where
  "put_advance v width =
    (let last = u16 (int (cols v) - 1)
     in if int (ccol (cur v)) + width - 1 \<ge> int last
        then v\<lparr>cur := (cur v)\<lparr>ccol := last, pending_wrap := True\<rparr>\<rparr>
        else v\<lparr>cur := (cur v)\<lparr>ccol := u16 (int (ccol (cur v)) + width)\<rparr>\<rparr>)"

definition put_write :: "screen \<Rightarrow> u32 \<Rightarrow> int \<Rightarrow> screen" where
  "put_write v cp width =
    (let v = unsplit_wide v (crow (cur v)) (ccol (cur v))
     in case vt_cell_at v (crow (cur v)) (ccol (cur v)) of
          None \<Rightarrow> v
        | Some i \<Rightarrow>
            let v = mark_row v (crow (cur v));
                v = store v (Some i)
                      \<lparr>ccp = cp, cfg = pfg (cpen (cur v)), cbg = pbg (cpen (cur v)),
                       cattrs = pattrs (cpen (cur v)) OR (if width = 2 then VT_ATTR_WIDE else 0),
                       ccomb = 0\<rparr>;
                v = v\<lparr>last_row := crow (cur v), last_col := ccol (cur v), last_valid := True\<rparr>;
                v = (if width = 2 then put_spacer v else v)
            in put_advance v width)"

definition vt_screen_put :: "screen \<Rightarrow> u32 \<Rightarrow> int \<Rightarrow> screen" where
  "vt_screen_put v cp width =
    (if width \<le> 0 then if vt_is_combining cp then attach_combining v cp else v
     else
       let v = put_wrap v
       in case put_fit v width of
            None \<Rightarrow> v
          | Some v \<Rightarrow>
              let v = (if mode_on v VT_MODE_IRM then vt_screen_insert_chars v width else v)
              in put_write v cp width)"

subsection \<open>Erasing, inserting, deleting\<close>

definition clear_rows :: "screen \<Rightarrow> nat \<Rightarrow> nat \<Rightarrow> screen" where
  "clear_rows v from to = foldl (\<lambda>v r. clear_row v r 0 (cols v)) v [from..<to]"

definition vt_screen_erase_display :: "screen \<Rightarrow> int \<Rightarrow> screen" where
  "vt_screen_erase_display v mode =
    (let v = no_wrap (forget_last v)
     in if mode = 0 then
          clear_rows (clear_row v (crow (cur v)) (ccol (cur v)) (cols v)) (crow (cur v) + 1) (rows v)
        else if mode = 1 then
          clear_row (clear_rows v 0 (crow (cur v))) (crow (cur v)) 0 (u16 (int (ccol (cur v)) + 1))
        else if mode = 2 \<or> mode = 3 then clear_rows v 0 (rows v)
        else v)"

definition vt_screen_erase_line :: "screen \<Rightarrow> int \<Rightarrow> screen" where
  "vt_screen_erase_line v mode =
    (let v = no_wrap (forget_last v)
     in if mode = 0 then clear_row v (crow (cur v)) (ccol (cur v)) (cols v)
        else if mode = 1 then clear_row v (crow (cur v)) 0 (u16 (int (ccol (cur v)) + 1))
        else if mode = 2 then clear_row v (crow (cur v)) 0 (cols v)
        else v)"

definition vt_screen_insert_lines :: "screen \<Rightarrow> int \<Rightarrow> screen" where
  "vt_screen_insert_lines v n =
    (if crow (cur v) < scroll_top v \<or> crow (cur v) > scroll_bot v then v
     else no_wrap (scroll_region_down v (crow (cur v)) (scroll_bot v) n))"

definition vt_screen_delete_lines :: "screen \<Rightarrow> int \<Rightarrow> screen" where
  "vt_screen_delete_lines v n =
    (if crow (cur v) < scroll_top v \<or> crow (cur v) > scroll_bot v then v
     else no_wrap (scroll_region_up v (crow (cur v)) (scroll_bot v) n))"

definition vt_screen_delete_chars :: "screen \<Rightarrow> int \<Rightarrow> screen" where
  "vt_screen_delete_chars v n =
    (if n \<le> 0 then v
     else let v = forget_last v;
              avail = int (cols v) - int (ccol (cur v));
              n = nat (if n > avail then avail else n);
              row = vt_cell_at v (crow (cur v)) 0;
              v = mark_row v (crow (cur v));
              v = memmove_cells v (map_option (\<lambda>p. p + ccol (cur v)) row)
                    (map_option (\<lambda>p. p + ccol (cur v) + n) row) (nat avail - n);
              v = clear_row v (crow (cur v)) (u16 (int (cols v) - int n)) (cols v)
          in no_wrap v)"

definition vt_screen_erase_chars :: "screen \<Rightarrow> int \<Rightarrow> screen" where
  "vt_screen_erase_chars v n =
    (if n \<le> 0 then v
     else let v = forget_last v;
              end = int (ccol (cur v)) + n;
              end = (if end > int (cols v) then int (cols v) else end)
          in no_wrap (clear_row v (crow (cur v)) (ccol (cur v)) (u16 end)))"

subsection \<open>Regions, alternate screen, reset\<close>

definition vt_screen_set_scroll_region :: "screen \<Rightarrow> int \<Rightarrow> int \<Rightarrow> screen" where
  "vt_screen_set_scroll_region v tp bt =
    (let tp = (if tp \<le> 0 then 1 else tp);
         bt = (if bt \<le> 0 \<or> bt > int (rows v) then int (rows v) else bt)
     in if tp \<ge> bt then v
        else vt_screen_move_cursor (v\<lparr>scroll_top := u16 (tp - 1), scroll_bot := u16 (bt - 1)\<rparr>) 0 0)"

definition vt_screen_switch_alt :: "screen \<Rightarrow> bool \<Rightarrow> bool \<Rightarrow> bool \<Rightarrow> screen" where
  "vt_screen_switch_alt v alt save_cursor clear =
    (if alt = mode_on v VT_MODE_ALTSCREEN then v
     else let v = mark_all (forget_last v);
              v = (if alt then
                     let v = (if save_cursor then v\<lparr>saved_cur := (saved_cur v)[0 := cur v]\<rparr> else v);
                         v = v\<lparr>active := 1, modes := modes v OR VT_MODE_ALTSCREEN\<rparr>
                     in if clear then clear_rows v 0 (rows v) else v
                   else
                     let v = v\<lparr>active := 0, modes := modes v AND NOT VT_MODE_ALTSCREEN\<rparr>
                     in if save_cursor then v\<lparr>cur := saved_cur v ! 0\<rparr> else v)
          in no_wrap v)"

function every_8th :: "nat \<Rightarrow> nat \<Rightarrow> nat list" where
  "every_8th c n = (if c < n then c # every_8th (c + 8) n else [])"
  by auto
termination by (relation "measure (\<lambda>(c, n). n - c)") auto

declare every_8th.simps [simp del]

definition reset_tabstops :: "screen \<Rightarrow> screen" where
  "reset_tabstops v =
    (if cols v > 32 * VT_TABSTOP_WORDS then v\<lparr>ub := True\<rparr>
     else v\<lparr>tabstops := foldl bm_set (replicate VT_TABSTOP_WORDS 0) (every_8th 8 (cols v))\<rparr>)"

definition vt_screen_reset :: "screen \<Rightarrow> screen" where
  "vt_screen_reset v =
    (let v = mark_all (forget_last v);
         v = v\<lparr>modes := VT_MODE_DECAWM OR VT_MODE_DECTCEM, active := 0, scroll_top := 0,
               scroll_bot := u16 (int (rows v) - 1), cur := zero_cursor,
               saved_cur := [zero_cursor, zero_cursor]\<rparr>;
         v = reset_tabstops v
     in v\<lparr>grid := map (\<lambda>cs. foldl (\<lambda>cs r. overwrite cs (r * cols v) (replicate (cols v) zero_cell))
                             cs [0..<rows v]) (grid v)\<rparr>)"

definition E_cell :: cell where
  "E_cell = \<lparr>ccp = 0x45, cfg = VT_COLOR_DEFAULT, cbg = VT_COLOR_DEFAULT, cattrs = 0, ccomb = 0\<rparr>"

definition vt_screen_align_test :: "screen \<Rightarrow> screen" where
  "vt_screen_align_test v =
    (let v = mark_all (forget_last v);
         saved = cpen (cur v);
         v = v\<lparr>cur := (cur v)\<lparr>cpen := default_pen\<rparr>\<rparr>;
         v = foldl (\<lambda>v r. foldl (\<lambda>v c. store v (vt_cell_at v r c) E_cell) v [0..<cols v]) v [0..<rows v];
         v = v\<lparr>cur := (cur v)\<lparr>cpen := saved\<rparr>, scroll_top := 0, scroll_bot := u16 (int (rows v) - 1)\<rparr>
     in vt_screen_move_cursor v 0 0)"

subsection \<open>Resizing\<close>

definition clamp_dim :: "nat \<Rightarrow> nat \<Rightarrow> nat" where
  "clamp_dim mx n = (let n = (if n = 0 then 1 else n) in if n > mx then mx else n)"

definition resize_grid :: "nat \<Rightarrow> nat \<Rightarrow> nat \<Rightarrow> nat \<Rightarrow> cell list \<Rightarrow> cell list" where
  "resize_grid orows ocols nrows ncols old =
    (let copy_rows = (if nrows < orows then nrows else orows);
         copy_cols = (if ncols < ocols then ncols else ocols)
     in foldl (\<lambda>nc r. overwrite nc (r * ncols) (take copy_cols (drop (r * ocols) old)))
          (replicate (nrows * ncols) zero_cell) [0..<copy_rows])"

definition clamp_cursor :: "nat \<Rightarrow> nat \<Rightarrow> vt_cursor \<Rightarrow> vt_cursor" where
  "clamp_cursor nrows ncols c =
    (let c = (if crow c \<ge> nrows then c\<lparr>crow := u16 (int nrows - 1)\<rparr> else c)
     in if ccol c \<ge> ncols then c\<lparr>ccol := u16 (int ncols - 1)\<rparr> else c)"

text \<open>
  The two flags say whether the two allocations succeed. The second may fail after the
  first grid has been replaced.
\<close>

definition vt_resize_screen :: "bool \<Rightarrow> bool \<Rightarrow> screen \<Rightarrow> nat \<Rightarrow> nat \<Rightarrow> screen" where
  "vt_resize_screen alloc0 alloc1 v nrows ncols =
    (let nrows = clamp_dim VT_ROWS_MAX nrows; ncols = clamp_dim VT_COLS_MAX ncols
     in if nrows = rows v \<and> ncols = cols v then v
        else if \<not> alloc0 then v
        else
          let v = v\<lparr>grid := (grid v)[0 := resize_grid (rows v) (cols v) nrows ncols (grid v ! 0)]\<rparr>
          in if \<not> alloc1 then v
             else
               let v = v\<lparr>grid := (grid v)[1 := resize_grid (rows v) (cols v) nrows ncols (grid v ! 1)]\<rparr>;
                   v = v\<lparr>rows := nrows, cols := ncols, scroll_top := 0,
                         scroll_bot := u16 (int nrows - 1),
                         cur := clamp_cursor nrows ncols (cur v),
                         saved_cur := map (clamp_cursor nrows ncols) (saved_cur v)\<rparr>
               in reset_tabstops (mark_all (forget_last (no_wrap v))))"

subsection \<open>Inspection and damage\<close>

definition vt_line :: "screen \<Rightarrow> nat \<Rightarrow> cell list option" where
  "vt_line v row =
    (if row \<ge> rows v then None else Some (take (cols v) (drop (row * cols v) (cells v))))"

definition vt_get_cursor :: "screen \<Rightarrow> nat \<times> nat \<times> bool" where
  "vt_get_cursor v = (crow (cur v), ccol (cur v), mode_on v VT_MODE_DECTCEM)"

definition vt_get_modes :: "screen \<Rightarrow> u32" where
  "vt_get_modes v = modes v"

definition vt_get_size :: "screen \<Rightarrow> nat \<times> nat" where
  "vt_get_size v = (rows v, cols v)"

definition vt_any_dirty :: "screen \<Rightarrow> bool" where
  "vt_any_dirty v = (dirty_all v \<or> list_ex (\<lambda>w. w \<noteq> 0) (dirty v))"

definition vt_row_dirty :: "screen \<Rightarrow> nat \<Rightarrow> bool" where
  "vt_row_dirty v row = (row < rows v \<and> (dirty_all v \<or> bm_test (dirty v) row))"

definition vt_damage_clear :: "screen \<Rightarrow> screen" where
  "vt_damage_clear v = v\<lparr>dirty_all := False, dirty := map (\<lambda>_. 0) (dirty v)\<rparr>"

end
