(* ===== verification/Vt_Grid.thy ===== *)
theory Vt_Grid
  imports Vt_Screen
begin

unbundle bit_operations_syntax

text \<open>
  What the grid operations do, cell by cell. \<open>at v r c\<close> is the cell a client sees at row
  \<open>r\<close> and column \<open>c\<close>; \<open>only_cells v v'\<close> says that a step changed at most the active grid
  and the damage bits. Each painting operation is characterised by these two, and the
  scrolling operations by whole lines.
\<close>

section \<open>Cells and lines\<close>

definition at :: "screen \<Rightarrow> nat \<Rightarrow> nat \<Rightarrow> cell" where
  "at v r c = cells v ! (r * cols v + c)"

definition line :: "screen \<Rightarrow> nat \<Rightarrow> cell list" where
  "line v r = take (cols v) (drop (r * cols v) (cells v))"

definition mem_ok :: "screen \<Rightarrow> bool" where
  "mem_ok v \<longleftrightarrow> 0 < rows v \<and> rows v \<le> VT_ROWS_MAX \<and> 0 < cols v \<and> cols v \<le> VT_COLS_MAX \<and>
    length (grid v) = 2 \<and> active v < 2 \<and> list_all (\<lambda>g. length g = rows v * cols v) (grid v) \<and>
    length (dirty v) = VT_DIRTY_WORDS \<and> \<not> ub v"

definition only_cells :: "screen \<Rightarrow> screen \<Rightarrow> bool" where
  "only_cells v v' \<longleftrightarrow> (\<exists>g d. v' = v\<lparr>grid := (grid v)[active v := g], dirty := d\<rparr> \<and>
    length g = length (cells v) \<and> length d = length (dirty v))"

lemma idx_less: "r < R \<Longrightarrow> c < C \<Longrightarrow> r * C + c < R * (C::nat)"
proof -
  assume "r < R" "c < C"
  then have "r * C + c < Suc r * C" by simp
  also have "\<dots> \<le> R * C" using \<open>r < R\<close> by (intro mult_le_mono1) simp
  finally show ?thesis .
qed

lemma idx_eq_iff: "c < C \<Longrightarrow> c' < C \<Longrightarrow> r * C + c = r' * C + c' \<longleftrightarrow> r = r' \<and> c = (c'::nat)"
proof
  assume c: "c < C" "c' < C" and e: "r * C + c = r' * C + c'"
  have "(r * C + c) div C = r" "(r' * C + c') div C = r'" using c by simp_all
  with e show "r = r' \<and> c = c'" by auto
qed auto

lemma mem_ok_cells: "mem_ok v \<Longrightarrow> length (cells v) = rows v * cols v"
  by (auto simp: mem_ok_def list_all_length)

lemma mem_ok_at: "mem_ok v \<Longrightarrow> r < rows v \<Longrightarrow> c < cols v \<Longrightarrow> r * cols v + c < length (cells v)"
  by (simp add: mem_ok_cells idx_less)

lemma only_cells_refl [simp]: "only_cells v v"
  unfolding only_cells_def
  by (rule exI [of _ "cells v"], rule exI [of _ "dirty v"]) (simp add: list_update_id)

lemma only_cells_fields:
  assumes "only_cells v v'"
  shows "rows v' = rows v" "cols v' = cols v" "active v' = active v" "cur v' = cur v"
    "saved_cur v' = saved_cur v" "modes v' = modes v" "scroll_top v' = scroll_top v"
    "scroll_bot v' = scroll_bot v" "tabstops v' = tabstops v" "last_row v' = last_row v"
    "last_col v' = last_col v" "last_valid v' = last_valid v" "dirty_all v' = dirty_all v"
    "cb v' = cb v" "out v' = out v" "ub v' = ub v" "length (grid v') = length (grid v)"
    "length (dirty v') = length (dirty v)"
  using assms by (auto simp: only_cells_def)

lemma only_cellsI:
  "v' = v\<lparr>grid := (grid v)[active v := g], dirty := d\<rparr> \<Longrightarrow> length g = length (cells v) \<Longrightarrow>
    length d = length (dirty v) \<Longrightarrow> only_cells v v'"
  by (auto simp: only_cells_def)

lemma grid_self [simp]: "v\<lparr>grid := (grid v)[active v := cells v], dirty := d\<rparr> = v\<lparr>dirty := d\<rparr>"
  by (cases v) simp

lemma only_cells_trans [trans]:
  assumes "only_cells v w" and "only_cells w x" and "active v < length (grid v)"
  shows "only_cells v x"
proof -
  from assms(1) obtain g d where w: "w = v\<lparr>grid := (grid v)[active v := g], dirty := d\<rparr>"
    "length g = length (cells v)" "length d = length (dirty v)"
    by (auto simp: only_cells_def)
  from assms(2) obtain h e where "x = w\<lparr>grid := (grid w)[active w := h], dirty := e\<rparr>"
    "length h = length (cells w)" "length e = length (dirty w)"
    by (auto simp: only_cells_def)
  with w assms(3) show ?thesis by (intro only_cellsI [where g = h and d = e]) simp_all
qed

lemma only_cells_mem_ok: "only_cells v v' \<Longrightarrow> mem_ok v \<Longrightarrow> mem_ok v'"
  by (auto simp: only_cells_def mem_ok_def list_all_length nth_list_update)

lemma only_cells_other: "only_cells v v' \<Longrightarrow> g \<noteq> active v \<Longrightarrow> grid v' ! g = grid v ! g"
  by (auto simp: only_cells_def)

lemma mem_ok_active: "mem_ok v \<Longrightarrow> active v < length (grid v)"
  by (simp add: mem_ok_def)

section \<open>Single accesses\<close>

lemma vt_cell_at_in: "r < rows v \<Longrightarrow> c < cols v \<Longrightarrow> vt_cell_at v r c = Some (r * cols v + c)"
  by (simp add: vt_cell_at_def)

lemma load_ok [simp]: "i < length (cells v) \<Longrightarrow> load v i = v"
  by (simp add: load_def)

lemma store_in:
  assumes "mem_ok v" "r < rows v" "c < cols v"
  shows "store v (Some (r * cols v + c)) x = set_cells v ((cells v)[r * cols v + c := x])"
  using mem_ok_at [OF assms] by (simp add: store_def)

lemma store_only_cells:
  assumes "mem_ok v" "r < rows v" "c < cols v"
  shows "only_cells v (store v (Some (r * cols v + c)) x)"
  using assms unfolding store_in [OF assms] only_cells_def
  by (auto intro!: exI [of _ "(cells v)[r * cols v + c := x]"] exI [of _ "dirty v"])

lemma store_at:
  assumes "mem_ok v" "r < rows v" "c < cols v" "c' < cols v"
  shows "at (store v (Some (r * cols v + c)) x) r' c' = (if r' = r \<and> c' = c then x else at v r' c')"
  using assms(4) mem_ok_at [OF assms(1-3)] mem_ok_active [OF assms(1)] assms(3)
  unfolding store_in [OF assms(1-3)] at_def
  by (auto simp: nth_list_update idx_eq_iff)

lemma store_dirty: "dirty (store v p x) = dirty v"
  by (auto simp: store_def split: option.splits)

lemma mark_row_only_cells:
  assumes "mem_ok v"
  shows "only_cells v (mark_row v r)"
proof (cases "r < rows v")
  case True
  with assms show ?thesis
    by (intro only_cellsI [where g = "cells v" and d = "bm_set (dirty v) r"]) (auto simp: mark_row_def mem_ok_def)
qed (simp add: mark_row_def)

lemma mark_row_cells [simp]: "grid (mark_row v r) = grid v" "cols (mark_row v r) = cols v"
    "rows (mark_row v r) = rows v" "active (mark_row v r) = active v" "cur (mark_row v r) = cur v"
    "at (mark_row v r) r' c' = at v r' c'"
  by (simp_all add: mark_row_def at_def)

lemma mark_row_dirty:
  assumes "mem_ok v"
  shows "vt_row_dirty (mark_row v r) r' \<longleftrightarrow> vt_row_dirty v r' \<or> (r' = r \<and> r < rows v)"
  using assms bm_test_set [of r "dirty v" r']
  by (auto simp: mark_row_def vt_row_dirty_def mem_ok_def)

section \<open>Painting rows\<close>

lemma store_row_fold:
  fixes row b
  defines "f \<equiv> \<lambda>v c. store v (vt_cell_at v row c) b"
  assumes "mem_ok v" "row < rows v" "set cs \<subseteq> {..<cols v}"
  shows "only_cells v (foldl f v cs)"
    and "dirty (foldl f v cs) = dirty v"
    and "c' < cols v \<Longrightarrow> at (foldl f v cs) r' c' = (if r' = row \<and> c' \<in> set cs then b else at v r' c')"
proof -
  have "only_cells v (foldl f v cs) \<and> dirty (foldl f v cs) = dirty v \<and>
    (\<forall>r' c'. c' < cols v \<longrightarrow>
      at (foldl f v cs) r' c' = (if r' = row \<and> c' \<in> set cs then b else at v r' c'))"
    using assms(2-4)
  proof (induction cs arbitrary: v)
    case (Cons c cs)
    define w where "w = store v (Some (row * cols v + c)) b"
    have fw: "f v c = w" using Cons.prems by (simp add: f_def w_def vt_cell_at_in)
    have ow: "only_cells v w" using Cons.prems by (simp add: w_def store_only_cells)
    note F = only_cells_fields [OF ow]
    have IH: "only_cells w (foldl f w cs) \<and> dirty (foldl f w cs) = dirty w \<and>
      (\<forall>r' c'. c' < cols w \<longrightarrow>
        at (foldl f w cs) r' c' = (if r' = row \<and> c' \<in> set cs then b else at w r' c'))"
      using Cons.prems F only_cells_mem_ok [OF ow] by (intro Cons.IH) auto
    have aw: "c' < cols v \<Longrightarrow> at w r' c' = (if r' = row \<and> c' = c then b else at v r' c')" for r' c'
      using Cons.prems by (simp add: w_def store_at)
    show ?case
      using IH F aw only_cells_trans [OF ow _ mem_ok_active [OF Cons.prems(1)]]
      by (auto simp: fw w_def store_dirty)
  qed simp
  then show "only_cells v (foldl f v cs)" "dirty (foldl f v cs) = dirty v"
    "c' < cols v \<Longrightarrow> at (foldl f v cs) r' c' = (if r' = row \<and> c' \<in> set cs then b else at v r' c')"
    by blast+
qed

lemma clear_row_out: "rows v \<le> row \<Longrightarrow> clear_row v row f t = v"
  by (simp add: clear_row_def)

lemma clear_row_props:
  assumes "mem_ok v"
  shows "only_cells v (clear_row v row f t)"
    and "row < rows v \<Longrightarrow> c' < cols v \<Longrightarrow> at (clear_row v row f t) r' c' =
      (if r' = row \<and> f \<le> c' \<and> c' < t then blank_cell v else at v r' c')"
    and "vt_row_dirty (clear_row v row f t) r' \<longleftrightarrow> vt_row_dirty v r' \<or> (r' = row \<and> row < rows v)"
proof -
  define w where "w = mark_row v row"
  define cs where "cs = [f..<(if cols v < t then cols v else t)]"
  have ow: "only_cells v w" using assms by (simp add: w_def mark_row_only_cells)
  note F = only_cells_fields [OF ow]
  have mw: "mem_ok w" using ow assms by (rule only_cells_mem_ok)
  have b: "blank_cell w = blank_cell v" by (simp add: blank_cell_def F)
  have cw: "clear_row v row f t =
      (if rows v \<le> row then v else foldl (\<lambda>u c. store u (vt_cell_at u row c) (blank_cell v)) w cs)"
    unfolding b [symmetric] by (simp add: clear_row_def w_def cs_def Let_def)
  have dw: "vt_row_dirty w r' \<longleftrightarrow> vt_row_dirty v r' \<or> (r' = row \<and> row < rows v)" for r'
    using assms by (simp add: w_def mark_row_dirty)
  have aw: "at w r' c' = at v r' c'" for r' c' by (simp add: w_def)
  have "only_cells v (clear_row v row f t) \<and>
      (row < rows v \<longrightarrow> c' < cols v \<longrightarrow> at (clear_row v row f t) r' c' =
        (if r' = row \<and> f \<le> c' \<and> c' < t then blank_cell v else at v r' c')) \<and>
      (vt_row_dirty (clear_row v row f t) r' \<longleftrightarrow> vt_row_dirty v r' \<or> (r' = row \<and> row < rows v))" for r' c'
  proof (cases "row < rows v")
    case True
    then have pre: "row < rows w" "set cs \<subseteq> {..<cols w}" by (auto simp: F cs_def)
    note S = store_row_fold [OF mw pre, where b = "blank_cell v"]
    have "vt_row_dirty (clear_row v row f t) r' \<longleftrightarrow> vt_row_dirty w r'"
      using S(2) only_cells_fields [OF S(1)] True by (simp add: cw vt_row_dirty_def)
    then show ?thesis
      using True S(1) S(3) [of c' r'] only_cells_trans [OF ow S(1) mem_ok_active [OF assms]]
      by (auto simp: cw F dw aw cs_def)
  qed (auto simp: clear_row_out)
  then show "only_cells v (clear_row v row f t)"
    "row < rows v \<Longrightarrow> c' < cols v \<Longrightarrow> at (clear_row v row f t) r' c' =
      (if r' = row \<and> f \<le> c' \<and> c' < t then blank_cell v else at v r' c')"
    "vt_row_dirty (clear_row v row f t) r' \<longleftrightarrow> vt_row_dirty v r' \<or> (r' = row \<and> row < rows v)"
    by blast+
qed

lemma clear_fold:
  defines "f \<equiv> \<lambda>v r. clear_row v r 0 (cols v)"
  assumes "mem_ok v" "set rs \<subseteq> {..<rows v}"
  shows "only_cells v (foldl f v rs)"
    and "c' < cols v \<Longrightarrow> at (foldl f v rs) r' c' = (if r' \<in> set rs then blank_cell v else at v r' c')"
    and "vt_row_dirty (foldl f v rs) r' \<longleftrightarrow> vt_row_dirty v r' \<or> r' \<in> set rs"
proof -
  have "only_cells v (foldl f v rs) \<and>
    (\<forall>r' c'. c' < cols v \<longrightarrow> at (foldl f v rs) r' c' = (if r' \<in> set rs then blank_cell v else at v r' c')) \<and>
    (\<forall>r'. vt_row_dirty (foldl f v rs) r' \<longleftrightarrow> vt_row_dirty v r' \<or> r' \<in> set rs)"
    using assms(2,3)
  proof (induction rs arbitrary: v)
    case (Cons r rs)
    define w where "w = f v r"
    have r: "r < rows v" using Cons.prems by simp
    note C = clear_row_props [OF Cons.prems(1), where row = r and f = 0 and t = "cols v"]
    have ow: "only_cells v w" using C(1) by (simp add: w_def f_def)
    note F = only_cells_fields [OF ow]
    have b: "blank_cell w = blank_cell v" by (simp add: blank_cell_def F)
    have aw: "c' < cols v \<Longrightarrow> at w r' c' = (if r' = r then blank_cell v else at v r' c')" for r' c'
      using C(2) r by (simp add: w_def f_def)
    have dw: "vt_row_dirty w r' \<longleftrightarrow> vt_row_dirty v r' \<or> r' = r" for r'
      using C(3) r by (auto simp: w_def f_def)
    have IH: "only_cells w (foldl f w rs) \<and>
      (\<forall>r' c'. c' < cols w \<longrightarrow> at (foldl f w rs) r' c' = (if r' \<in> set rs then blank_cell w else at w r' c')) \<and>
      (\<forall>r'. vt_row_dirty (foldl f w rs) r' \<longleftrightarrow> vt_row_dirty w r' \<or> r' \<in> set rs)"
      using Cons.prems F only_cells_mem_ok [OF ow] by (intro Cons.IH) auto
    show ?case
      using IH F aw dw b only_cells_trans [OF ow _ mem_ok_active [OF Cons.prems(1)]]
      by (auto simp flip: w_def)
  qed simp
  then show "only_cells v (foldl f v rs)"
    "c' < cols v \<Longrightarrow> at (foldl f v rs) r' c' = (if r' \<in> set rs then blank_cell v else at v r' c')"
    "vt_row_dirty (foldl f v rs) r' \<longleftrightarrow> vt_row_dirty v r' \<or> r' \<in> set rs"
    by blast+
qed

lemma mark_fold:
  assumes "mem_ok v"
  shows "only_cells v (foldl mark_row v rs)"
    and "grid (foldl mark_row v rs) = grid v"
    and "vt_row_dirty (foldl mark_row v rs) r' \<longleftrightarrow> vt_row_dirty v r' \<or> (r' \<in> set rs \<and> r' < rows v)"
proof -
  have "only_cells v (foldl mark_row v rs) \<and> grid (foldl mark_row v rs) = grid v \<and>
    (\<forall>r'. vt_row_dirty (foldl mark_row v rs) r' \<longleftrightarrow> vt_row_dirty v r' \<or> (r' \<in> set rs \<and> r' < rows v))"
    using assms
  proof (induction rs arbitrary: v)
    case (Cons r rs)
    note ow = mark_row_only_cells [OF Cons.prems, of r]
    show ?case
      using Cons.IH [OF only_cells_mem_ok [OF ow Cons.prems]] mark_row_dirty [OF Cons.prems, of r]
        only_cells_trans [OF ow _ mem_ok_active [OF Cons.prems]]
      by auto
  qed simp
  then show "only_cells v (foldl mark_row v rs)" "grid (foldl mark_row v rs) = grid v"
    "vt_row_dirty (foldl mark_row v rs) r' \<longleftrightarrow> vt_row_dirty v r' \<or> (r' \<in> set rs \<and> r' < rows v)"
    by blast+
qed

section \<open>Copying rows\<close>

definition copy_row :: "screen \<Rightarrow> nat \<Rightarrow> nat \<Rightarrow> screen" where
  "copy_row v d s = memcpy_cells v (vt_cell_at v d 0) (vt_cell_at v s 0) (cols v)"

lemma row_end: "r < R \<Longrightarrow> r * C + C \<le> R * (C::nat)"
  using mult_le_mono1 [of "Suc r" R C] by simp

lemma copy_row_props:
  assumes "mem_ok v" "d < rows v" "s < rows v" "d \<noteq> s"
  shows "only_cells v (copy_row v d s)"
    and "dirty (copy_row v d s) = dirty v"
    and "r' < rows v \<Longrightarrow> c' < cols v \<Longrightarrow> at (copy_row v d s) r' c' = (if r' = d then at v s c' else at v r' c')"
proof -
  let ?L = "length (cells v)"
  have L: "?L = rows v * cols v" using assms(1) by (rule mem_ok_cells)
  have c0: "0 < cols v" using assms(1) by (simp add: mem_ok_def)
  have disj: "d * cols v + cols v \<le> s * cols v \<or> s * cols v + cols v \<le> d * cols v"
    using assms(4) row_end [of d s] row_end [of s d] by (cases "d < s") auto
  have fit: "d * cols v + cols v \<le> ?L" "s * cols v + cols v \<le> ?L"
    using assms row_end by (simp_all add: L)
  have e: "copy_row v d s =
      set_cells v (overwrite (cells v) (d * cols v) (take (cols v) (drop (s * cols v) (cells v))))"
    using assms c0 disj fit
    by (simp add: copy_row_def memcpy_cells_def memmove_cells_def vt_cell_at_in)
  have len: "length (take (cols v) (drop (s * cols v) (cells v))) = cols v" using fit by simp
  show "only_cells v (copy_row v d s)"
    unfolding e by (rule only_cellsI [where d = "dirty v" and
        g = "overwrite (cells v) (d * cols v) (take (cols v) (drop (s * cols v) (cells v)))"]) (use fit len in simp_all)
  show "dirty (copy_row v d s) = dirty v" by (simp add: e)
  assume r': "r' < rows v" "c' < cols v"
  have i: "r' * cols v + c' < ?L" using r' by (simp add: L idx_less)
  have "d * cols v \<le> r' * cols v + c' \<and> r' * cols v + c' < d * cols v + cols v \<longleftrightarrow> r' = d"
    using r'(2) row_end [of r' d "cols v"] row_end [of d r' "cols v"]
    by (cases r' d rule: linorder_cases) auto
  with r' fit len i mem_ok_active [OF assms(1)]
  show "at (copy_row v d s) r' c' = (if r' = d then at v s c' else at v r' c')"
    by (auto simp: e at_def nth_overwrite)
qed

lemma copy_up_fold:
  fixes n
  defines "f \<equiv> \<lambda>v r. copy_row v r (r + n)"
  assumes "mem_ok v" "0 < n" "k = 0 \<or> t + k + n \<le> rows v"
  shows "only_cells v (foldl f v [t..<t + k]) \<and> dirty (foldl f v [t..<t + k]) = dirty v \<and>
    (\<forall>r<rows v. \<forall>c<cols v. at (foldl f v [t..<t + k]) r c =
      (if t \<le> r \<and> r < t + k then at v (r + n) c else at v r c))"
  using assms(4)
proof (induction k)
  case (Suc k)
  define w where "w = foldl f v [t..<t + k]"
  have IH: "only_cells v w" "dirty w = dirty v"
    "\<And>r c. r < rows v \<Longrightarrow> c < cols v \<Longrightarrow> at w r c = (if t \<le> r \<and> r < t + k then at v (r + n) c else at v r c)"
    using Suc by (auto simp: w_def)
  note F = only_cells_fields [OF IH(1)]
  have k: "t + k < rows w" "t + k + n < rows w" "t + k \<noteq> t + k + n" using Suc.prems assms(3) F by auto
  note C = copy_row_props [OF only_cells_mem_ok [OF IH(1) assms(2)] k]
  have "foldl f v [t..<t + Suc k] = copy_row w (t + k) (t + k + n)" by (simp add: w_def f_def)
  then show ?case
    using C(1,2) IH(2) only_cells_trans [OF IH(1) C(1) mem_ok_active [OF assms(2)]] C(3) IH(3) F k assms(3)
    by auto
qed auto

lemma copy_down_fold:
  fixes n
  defines "f \<equiv> \<lambda>v r. copy_row v r (r - n)"
  assumes "mem_ok v" "0 < n" "n \<le> lo" "lo + k \<le> rows v"
  shows "only_cells v (foldl f v (rev [lo..<lo + k])) \<and> dirty (foldl f v (rev [lo..<lo + k])) = dirty v \<and>
    (\<forall>r<rows v. \<forall>c<cols v. at (foldl f v (rev [lo..<lo + k])) r c =
      (if lo \<le> r \<and> r < lo + k then at v (r - n) c else at v r c))"
  using assms(4,5)
proof (induction k arbitrary: lo)
  case (Suc k)
  define w where "w = foldl f v (rev [Suc lo..<Suc lo + k])"
  have IH: "only_cells v w" "dirty w = dirty v"
    "\<And>r c. r < rows v \<Longrightarrow> c < cols v \<Longrightarrow>
      at w r c = (if Suc lo \<le> r \<and> r < Suc lo + k then at v (r - n) c else at v r c)"
    using Suc.IH [of "Suc lo"] Suc.prems by (auto simp: w_def)
  note F = only_cells_fields [OF IH(1)]
  have k: "lo < rows w" "lo - n < rows w" "lo \<noteq> lo - n" using Suc.prems assms(3) F by auto
  note C = copy_row_props [OF only_cells_mem_ok [OF IH(1) assms(2)] k]
  have "rev [lo..<lo + Suc k] = rev [Suc lo..<Suc lo + k] @ [lo]" by (simp add: upt_rec [of lo])
  then have "foldl f v (rev [lo..<lo + Suc k]) = copy_row w lo (lo - n)" by (simp add: w_def f_def)
  then show ?case
    using C(1,2) IH(2) only_cells_trans [OF IH(1) C(1) mem_ok_active [OF assms(2)]] C(3) IH(3) F k assms(3)
    by auto
qed auto

section \<open>Scrolling\<close>

lemma line_at: "mem_ok v \<Longrightarrow> r < rows v \<Longrightarrow> line v r = map (at v r) [0..<cols v]"
  using row_end [of r "rows v" "cols v"]
  by (auto intro!: nth_equalityI simp: line_def at_def mem_ok_cells)

lemma mem_ok_fields [simp]:
  "mem_ok (v\<lparr>out := x\<rparr>) = mem_ok v" "mem_ok (v\<lparr>last_valid := y\<rparr>) = mem_ok v"
  "mem_ok (v\<lparr>cur := k\<rparr>) = mem_ok v"
  by (simp_all add: mem_ok_def)

lemma at_fields [simp]:
  "at (v\<lparr>out := x\<rparr>) r c = at v r c" "at (v\<lparr>last_valid := y\<rparr>) r c = at v r c"
  "at (v\<lparr>cur := k\<rparr>) r c = at v r c"
  by (simp_all add: at_def)

lemma dirty_fields [simp]:
  "vt_row_dirty (v\<lparr>out := x\<rparr>) r = vt_row_dirty v r" "vt_row_dirty (v\<lparr>last_valid := y\<rparr>) r = vt_row_dirty v r"
  "vt_row_dirty (v\<lparr>cur := k\<rparr>) r = vt_row_dirty v r"
  by (simp_all add: vt_row_dirty_def)

lemma emit_line_in:
  "mem_ok v \<Longrightarrow> i < rows v \<Longrightarrow> emit_line v i = v\<lparr>out := out v @ [ScrollbackLine (line v i)]\<rparr>"
  using row_end [of i "rows v" "cols v"]
  by (simp add: emit_line_def vt_cell_at_def mem_ok_def list_all_length line_def emit_event_def)

lemma emit_fold:
  "mem_ok v \<Longrightarrow> k \<le> rows v \<Longrightarrow>
    foldl emit_line v [0..<k] = v\<lparr>out := out v @ map (\<lambda>i. ScrollbackLine (line v i)) [0..<k]\<rparr>"
proof (induction k)
  case (Suc k)
  have "line (v\<lparr>out := x\<rparr>) k = line v k" for x by (simp add: line_def)
  with Suc show ?case by (simp add: emit_line_in)
qed simp

text \<open>The lines handed to the scrollback callback by a scroll of \<open>k\<close> rows.\<close>

definition leaving :: "screen \<Rightarrow> nat \<Rightarrow> nat \<Rightarrow> vt_event list" where
  "leaving v t k =
    (if active v = 0 \<and> t = 0 \<and> on_scrollback_line (cb v)
     then map (\<lambda>i. ScrollbackLine (line v i)) [0..<k] else [])"

abbreviation scrolled :: "screen \<Rightarrow> vt_event list \<Rightarrow> screen" where
  "scrolled v es \<equiv> v\<lparr>last_valid := False, out := out v @ es\<rparr>"

lemma mark_rows_props:
  assumes "mem_ok v"
  shows "only_cells v (mark_rows v t b)" and "grid (mark_rows v t b) = grid v"
    and "vt_row_dirty (mark_rows v t b) r \<longleftrightarrow> vt_row_dirty v r \<or> (t \<le> r \<and> r \<le> b \<and> r < rows v)"
proof -
  show "only_cells v (mark_rows v t b)" "grid (mark_rows v t b) = grid v"
    unfolding mark_rows_def by (rule mark_fold [OF assms])+
  show "vt_row_dirty (mark_rows v t b) r \<longleftrightarrow> vt_row_dirty v r \<or> (t \<le> r \<and> r \<le> b \<and> r < rows v)"
    unfolding mark_rows_def mark_fold(3) [OF assms] by auto
qed

lemma only_cells_out: "only_cells v w \<Longrightarrow> only_cells (v\<lparr>out := x\<rparr>) (w\<lparr>out := x\<rparr>)"
  unfolding only_cells_def by (elim exE, rule_tac x = g in exI, rule_tac x = d in exI) simp

lemma scroll_region_up_props:
  fixes n :: int
  assumes "mem_ok v" "t \<le> b" "b < rows v" "0 < n"
  defines "k \<equiv> min (nat n) (b - t + 1)"
  defines "v' \<equiv> scroll_region_up v t b n"
  shows "only_cells (scrolled v (leaving v t k)) v'"
    and "r < rows v \<Longrightarrow> c < cols v \<Longrightarrow> at v' r c =
      (if t \<le> r \<and> r + k \<le> b then at v (r + k) c
       else if t \<le> r \<and> r \<le> b then blank_cell v else at v r c)"
    and "vt_row_dirty v' r \<longleftrightarrow> vt_row_dirty v r \<or> (t \<le> r \<and> r \<le> b)"
proof -
  have k: "0 < k" "t + k \<le> b + 1" "nat (if n > int b - int t + 1 then int b - int t + 1 else n) = k"
    using assms(2-4) by (auto simp: k_def)
  define v0 where "v0 = forget_last v"
  define v1 where "v1 = mark_rows v0 t b"
  define v2 where "v2 = v1\<lparr>out := out v @ leaving v t k\<rparr>"
  define v3 where "v3 = foldl (\<lambda>v r. copy_row v r (r + k)) v2 [t..<t + (b + 1 - k - t)]"
  have m0: "mem_ok v0" using assms(1) by (simp add: v0_def forget_last_def)
  note M = mark_rows_props [OF m0, of t b, folded v1_def]
  note F1 = only_cells_fields [OF M(1)]
  have m1: "mem_ok v1" and m2: "mem_ok v2" using only_cells_mem_ok [OF M(1) m0] by (simp_all add: v2_def)
  have o12: "only_cells (scrolled v (leaving v t k)) v2"
    using only_cells_out [OF M(1), of "out v @ leaving v t k"] by (simp add: v2_def v0_def forget_last_def)
  have l1: "line v1 i = line v i" for i
    using M(2) F1 by (simp add: line_def v0_def forget_last_def)
  have e2: "(if active v1 = 0 \<and> t = 0 \<and> on_scrollback_line (cb v1) then foldl emit_line v1 [0..<k] else v1) = v2"
    using emit_fold [OF m1, of k] k F1(1,3,14,15) assms(3)
    by (simp add: v2_def leaving_def l1 v0_def forget_last_def)
  note F2 = only_cells_fields [OF o12]
  have U: "only_cells v2 v3 \<and> dirty v3 = dirty v2 \<and> (\<forall>r<rows v2. \<forall>c<cols v2. at v3 r c =
      (if t \<le> r \<and> r < t + (b + 1 - k - t) then at v2 (r + k) c else at v2 r c))"
    unfolding v3_def by (rule copy_up_fold [OF m2]) (use k assms(3) F2(1) in auto)
  note F3 = only_cells_fields [OF conjunct1 [OF U]]
  have m3: "mem_ok v3" using U m2 only_cells_mem_ok by blast
  have rs: "set [b + 1 - k..<b + 1] \<subseteq> {..<rows v3}" using assms(3) F2(1) F3(1) by auto
  note C = clear_fold [OF m3 rs]
  have v': "v' = foldl (\<lambda>v r. clear_row v r 0 (cols v)) v3 [b + 1 - k..<b + 1]"
    unfolding v'_def scroll_region_up_def Let_def k(3) v0_def [symmetric] v1_def [symmetric] e2
      copy_row_def [symmetric]
    using assms(4) k by (simp add: v3_def)
  have a2: "at v2 r c = at v r c" for r c
    using M(2) F1 by (simp add: v2_def at_def v0_def forget_last_def)
  have b3: "blank_cell v3 = blank_cell v" using F2 F3 by (simp add: blank_cell_def)
  have d2: "vt_row_dirty v2 r \<longleftrightarrow> vt_row_dirty v r \<or> (t \<le> r \<and> r \<le> b)" for r
    using M(3) [of r] assms(3) by (auto simp: v2_def v0_def forget_last_def)
  have d3: "vt_row_dirty v3 r = vt_row_dirty v2 r" for r
    using conjunct1 [OF conjunct2 [OF U]] F3 by (simp add: vt_row_dirty_def)
  have a3: "r < rows v \<Longrightarrow> c < cols v \<Longrightarrow>
      at v3 r c = (if t \<le> r \<and> r < t + (b + 1 - k - t) then at v (r + k) c else at v r c)" for r c
    using conjunct2 [OF conjunct2 [OF U]] F2(1,2) by (simp add: a2)
  have act: "active (scrolled v (leaving v t k)) < length (grid (scrolled v (leaving v t k)))"
    using mem_ok_active [OF assms(1)] by simp
  show "only_cells (scrolled v (leaving v t k)) v'"
    unfolding v' using only_cells_trans [OF o12 _ act] only_cells_trans [OF conjunct1 [OF U] C(1)]
      mem_ok_active [OF m2] by blast
  show "r < rows v \<Longrightarrow> c < cols v \<Longrightarrow> at v' r c =
      (if t \<le> r \<and> r + k \<le> b then at v (r + k) c
       else if t \<le> r \<and> r \<le> b then blank_cell v else at v r c)"
    using C(2) [of c r] k F2(2) by (auto simp: v' a3 b3 F3(2))
  show "vt_row_dirty v' r \<longleftrightarrow> vt_row_dirty v r \<or> (t \<le> r \<and> r \<le> b)"
    using C(3) [of r] k by (auto simp: v' d3 d2)
qed

lemma scroll_region_down_props:
  fixes n :: int
  assumes "mem_ok v" "t \<le> b" "b < rows v" "0 < n"
  defines "k \<equiv> min (nat n) (b - t + 1)"
  defines "v' \<equiv> scroll_region_down v t b n"
  shows "only_cells (v\<lparr>last_valid := False\<rparr>) v'"
    and "r < rows v \<Longrightarrow> c < cols v \<Longrightarrow> at v' r c =
      (if t + k \<le> r \<and> r \<le> b then at v (r - k) c
       else if t \<le> r \<and> r \<le> b then blank_cell v else at v r c)"
    and "vt_row_dirty v' r \<longleftrightarrow> vt_row_dirty v r \<or> (t \<le> r \<and> r \<le> b)"
proof -
  have k: "0 < k" "t + k \<le> b + 1" "nat (if n > int b - int t + 1 then int b - int t + 1 else n) = k"
    using assms(2-4) by (auto simp: k_def)
  define v0 where "v0 = forget_last v"
  define v2 where "v2 = mark_rows v0 t b"
  define v3 where "v3 = foldl (\<lambda>v r. copy_row v r (r - k)) v2 (rev [t + k..<(t + k) + (b + 1 - (t + k))])"
  have m0: "mem_ok v0" using assms(1) by (simp add: v0_def forget_last_def)
  note M = mark_rows_props [OF m0, of t b, folded v2_def]
  note F2 = only_cells_fields [OF M(1), unfolded v0_def forget_last_def, simplified]
  have m2: "mem_ok v2" using only_cells_mem_ok [OF M(1) m0] .
  have U: "only_cells v2 v3 \<and> dirty v3 = dirty v2 \<and> (\<forall>r<rows v2. \<forall>c<cols v2. at v3 r c =
      (if t + k \<le> r \<and> r < (t + k) + (b + 1 - (t + k)) then at v2 (r - k) c else at v2 r c))"
    unfolding v3_def by (rule copy_down_fold [OF m2]) (use k assms(3) F2(1) in auto)
  note F3 = only_cells_fields [OF conjunct1 [OF U]]
  have m3: "mem_ok v3" using U m2 only_cells_mem_ok by blast
  have rs: "set [t..<t + k] \<subseteq> {..<rows v3}" using assms(3) k F2(1) F3(1) by auto
  note C = clear_fold [OF m3 rs]
  have v': "v' = foldl (\<lambda>v r. clear_row v r 0 (cols v)) v3 [t..<t + k]"
    unfolding v'_def scroll_region_down_def Let_def k(3) v0_def [symmetric] v2_def [symmetric]
      copy_row_def [symmetric]
    using assms(4) k by (simp add: v3_def)
  have a2: "at v2 r c = at v r c" for r c
    using M(2) F2 by (simp add: at_def v0_def forget_last_def)
  have b3: "blank_cell v3 = blank_cell v" using F2(4) F3(4) by (simp add: blank_cell_def)
  have d2: "vt_row_dirty v2 r \<longleftrightarrow> vt_row_dirty v r \<or> (t \<le> r \<and> r \<le> b)" for r
    using M(3) [of r] assms(3) by (auto simp: v0_def forget_last_def)
  have d3: "vt_row_dirty v3 r = vt_row_dirty v2 r" for r
    using conjunct1 [OF conjunct2 [OF U]] F3 by (simp add: vt_row_dirty_def)
  have "only_cells v2 v'"
    unfolding v' by (rule only_cells_trans [OF conjunct1 [OF U] C(1) mem_ok_active [OF m2]])
  then have "only_cells v0 v'" by (rule only_cells_trans [OF M(1) _ mem_ok_active [OF m0]])
  then show "only_cells (v\<lparr>last_valid := False\<rparr>) v'" by (simp add: v0_def forget_last_def)
  have a3: "r < rows v \<Longrightarrow> c < cols v \<Longrightarrow>
      at v3 r c = (if t + k \<le> r \<and> r < t + k + (b + 1 - (t + k)) then at v (r - k) c else at v r c)" for r c
    using conjunct2 [OF conjunct2 [OF U]] by (simp add: F2(1,2) a2)
  show "r < rows v \<Longrightarrow> c < cols v \<Longrightarrow> at v' r c =
      (if t + k \<le> r \<and> r \<le> b then at v (r - k) c
       else if t \<le> r \<and> r \<le> b then blank_cell v else at v r c)"
    using C(2) [of c r] k by (auto simp: v' a3 b3 F3(2) F2(2))
  show "vt_row_dirty v' r \<longleftrightarrow> vt_row_dirty v r \<or> (t \<le> r \<and> r \<le> b)"
    using C(3) [of r] k by (auto simp: v' d3 d2)
qed

end
