(* ===== verification/Vt_Safe.thy ===== *)
theory Vt_Safe
  imports Vt_Grid "HOL-Library.Sublist"
begin

unbundle bit_operations_syntax

text \<open>
  The well-formedness of a screen, and the contract every screen operation keeps: from a
  well-formed screen it produces a well-formed one (in particular without undefined
  behaviour), leaves the geometry and the callbacks alone, only appends to the event log,
  never clears damage, and leaves every row that it does not report as damaged exactly as
  it was.
\<close>

section \<open>The invariant and the contract\<close>

definition cursor_wf :: "nat \<Rightarrow> nat \<Rightarrow> vt_cursor \<Rightarrow> bool" where
  "cursor_wf r c k \<longleftrightarrow> crow k < r \<and> ccol k < c \<and> charset_idx k < 2 \<and> length (charset_graphics k) = 2"

definition screen_wf :: "screen \<Rightarrow> bool" where
  "screen_wf v \<longleftrightarrow> mem_ok v \<and> cursor_wf (rows v) (cols v) (cur v) \<and>
    length (saved_cur v) = 2 \<and> list_all (cursor_wf (rows v) (cols v)) (saved_cur v) \<and>
    scroll_top v \<le> scroll_bot v \<and> scroll_bot v < rows v \<and>
    length (tabstops v) = VT_TABSTOP_WORDS \<and>
    (active v = 1 \<longleftrightarrow> mode_on v VT_MODE_ALTSCREEN)"

definition evolves :: "screen \<Rightarrow> screen \<Rightarrow> bool" where
  "evolves v v' \<longleftrightarrow> screen_wf v' \<and> rows v' = rows v \<and> cols v' = cols v \<and> cb v' = cb v \<and>
    prefix (out v) (out v') \<and>
    (\<forall>r. vt_row_dirty v r \<longrightarrow> vt_row_dirty v' r) \<and>
    (\<forall>r<rows v. \<not> vt_row_dirty v' r \<longrightarrow> (\<forall>c<cols v. at v' r c = at v r c))"

lemma evolves_refl [simp]: "evolves v v \<longleftrightarrow> screen_wf v"
  by (auto simp: evolves_def)

lemma evolves_trans [trans]:
  assumes "evolves u v" and "evolves v w"
  shows "evolves u w"
proof -
  note U = assms(1) [unfolded evolves_def] and W = assms(2) [unfolded evolves_def]
  have "at w r c = at u r c" if "r < rows u" "\<not> vt_row_dirty w r" "c < cols u" for r c
    using U W that by metis
  moreover have "prefix (out u) (out w)" using U W prefix_order.order_trans by blast
  ultimately show ?thesis unfolding evolves_def using U W by simp
qed

lemma evolves_wf: "evolves v w \<Longrightarrow> screen_wf w"
  by (simp add: evolves_def)

lemma evolves_step: "evolves u v \<Longrightarrow> (screen_wf v \<Longrightarrow> evolves v w) \<Longrightarrow> evolves u w"
  by (blast intro: evolves_trans dest: evolves_wf)

lemma wf_mem: "screen_wf v \<Longrightarrow> mem_ok v"
  by (simp add: screen_wf_def)

lemma wf_bounds:
  assumes "screen_wf v"
  shows "0 < rows v" "rows v \<le> 1000" "0 < cols v" "cols v \<le> 1000" "crow (cur v) < rows v"
    "ccol (cur v) < cols v" "scroll_top v \<le> scroll_bot v" "scroll_bot v < rows v"
    "scroll_top v < rows v" "\<not> ub v" "active v < 2" "active v < length (grid v)"
    "length (tabstops v) = 32" "length (dirty v) = 32" "length (saved_cur v) = 2"
    "charset_idx (cur v) < 2" "length (charset_graphics (cur v)) = 2"
  using assms by (auto simp: screen_wf_def mem_ok_def cursor_wf_def)

text \<open>An operation that only paints, and the ways a field may change on its own.\<close>

lemma only_cells_wf: "only_cells v v' \<Longrightarrow> screen_wf v \<Longrightarrow> screen_wf v'"
  using only_cells_fields [of v v'] only_cells_mem_ok [of v v'] by (simp add: screen_wf_def)

lemma evolves_cells:
  assumes "screen_wf v" "only_cells v v'" "\<And>r. vt_row_dirty v r \<Longrightarrow> vt_row_dirty v' r"
    and "\<And>r c. r < rows v \<Longrightarrow> \<not> vt_row_dirty v' r \<Longrightarrow> c < cols v \<Longrightarrow> at v' r c = at v r c"
  shows "evolves v v'"
  using assms only_cells_wf [OF assms(2,1)] only_cells_fields [OF assms(2)]
  by (simp add: evolves_def)

lemma evolves_cur:
  "screen_wf v \<Longrightarrow> cursor_wf (rows v) (cols v) k \<Longrightarrow> evolves v (v\<lparr>cur := k\<rparr>)"
  by (simp add: evolves_def screen_wf_def)

lemma evolves_pos:
  "screen_wf v \<Longrightarrow> r < rows v \<Longrightarrow> c < cols v \<Longrightarrow>
    evolves v (v\<lparr>cur := (cur v)\<lparr>crow := r, ccol := c, pending_wrap := w\<rparr>\<rparr>)"
  by (rule evolves_cur) (simp_all add: screen_wf_def cursor_wf_def)

lemma evolves_last:
  "screen_wf v \<Longrightarrow> evolves v (v\<lparr>last_valid := b\<rparr>)"
  "screen_wf v \<Longrightarrow> evolves v (v\<lparr>last_row := r, last_col := c, last_valid := b\<rparr>)"
  by (simp_all add: evolves_def screen_wf_def mem_ok_def at_def vt_row_dirty_def)

lemma evolves_out: "screen_wf v \<Longrightarrow> evolves v (v\<lparr>out := out v @ es\<rparr>)"
  by (simp add: evolves_def screen_wf_def)

lemma evolves_saved:
  "screen_wf v \<Longrightarrow> length ks = 2 \<Longrightarrow> list_all (cursor_wf (rows v) (cols v)) ks \<Longrightarrow>
    evolves v (v\<lparr>saved_cur := ks\<rparr>)"
  by (simp add: evolves_def screen_wf_def mem_ok_def at_def vt_row_dirty_def)

lemma evolves_tabs: "screen_wf v \<Longrightarrow> length ts = 32 \<Longrightarrow> evolves v (v\<lparr>tabstops := ts\<rparr>)"
  by (simp add: evolves_def screen_wf_def mem_ok_def at_def vt_row_dirty_def)

lemma evolves_region:
  "screen_wf v \<Longrightarrow> t \<le> b \<Longrightarrow> b < rows v \<Longrightarrow> evolves v (v\<lparr>scroll_top := t, scroll_bot := b\<rparr>)"
  by (simp add: evolves_def screen_wf_def mem_ok_def at_def vt_row_dirty_def)

lemma evolves_modes:
  "screen_wf v \<Longrightarrow> m AND VT_MODE_ALTSCREEN = modes v AND VT_MODE_ALTSCREEN \<Longrightarrow> evolves v (v\<lparr>modes := m\<rparr>)"
  by (simp add: evolves_def screen_wf_def mem_ok_def at_def vt_row_dirty_def)

lemma vt_row_dirty_all: "dirty_all v \<Longrightarrow> vt_row_dirty v r \<longleftrightarrow> r < rows v"
  by (simp add: vt_row_dirty_def)

section \<open>Damage, clearing, wide characters\<close>

lemma forget_last_evolves [wf_keep]: "screen_wf v \<Longrightarrow> evolves v (forget_last v)"
  by (simp add: forget_last_def evolves_last)

lemma no_wrap_evolves [wf_keep]: "screen_wf v \<Longrightarrow> evolves v (no_wrap v)"
  unfolding no_wrap_def by (rule evolves_cur) (simp_all add: screen_wf_def cursor_wf_def)

lemma mark_all_evolves [wf_keep]: "screen_wf v \<Longrightarrow> evolves v (mark_all v)"
  by (auto simp: mark_all_def evolves_def screen_wf_def mem_ok_def at_def vt_row_dirty_def)

lemma mark_row_evolves [wf_keep]: "screen_wf v \<Longrightarrow> evolves v (mark_row v r)"
  by (rule evolves_cells) (simp_all add: mark_row_only_cells wf_mem mark_row_dirty)

lemma clear_row_evolves [wf_keep]:
  assumes "screen_wf v"
  shows "evolves v (clear_row v r f t)"
proof (cases "r < rows v")
  case True
  show ?thesis
    using clear_row_props [OF wf_mem [OF assms]] True by (intro evolves_cells [OF assms]) auto
qed (simp add: clear_row_out assms)

lemma evolves_foldl:
  "screen_wf v \<Longrightarrow> (\<And>v x. screen_wf v \<Longrightarrow> evolves v (f v x)) \<Longrightarrow> evolves v (foldl f v xs)"
proof (induction xs arbitrary: v)
  case (Cons x xs)
  then show ?case using evolves_step [of v "f v x"] by simp
qed simp

lemma clear_rows_evolves [wf_keep]: "screen_wf v \<Longrightarrow> evolves v (clear_rows v f t)"
  unfolding clear_rows_def by (rule evolves_foldl) (auto intro: clear_row_evolves)

text \<open>A store into a row that is already marked.\<close>

lemma store_evolves:
  assumes "screen_wf v" "r < rows v" "c < cols v" "vt_row_dirty v r"
  shows "evolves v (store v (Some (r * cols v + c)) x)"
proof (rule evolves_cells [OF assms(1) store_only_cells])
  note S = store_only_cells [OF wf_mem [OF assms(1)] assms(2,3), of x]
  have d: "vt_row_dirty (store v (Some (r * cols v + c)) x) r' = vt_row_dirty v r'" for r'
    using only_cells_fields [OF S] by (simp add: vt_row_dirty_def store_dirty)
  then show "vt_row_dirty v r' \<Longrightarrow> vt_row_dirty (store v (Some (r * cols v + c)) x) r'" for r' by simp
  show "\<not> vt_row_dirty (store v (Some (r * cols v + c)) x) r' \<Longrightarrow> c' < cols v \<Longrightarrow>
      at (store v (Some (r * cols v + c)) x) r' c' = at v r' c'" for r' c'
    using assms(4) store_at [OF wf_mem [OF assms(1)] assms(2,3)] by (auto simp: d)
qed (use assms wf_mem in auto)

lemma evolves_dirty: "evolves v w \<Longrightarrow> vt_row_dirty v r \<Longrightarrow> vt_row_dirty w r"
  by (simp add: evolves_def)

lemma evolves_geom: "evolves v w \<Longrightarrow> rows w = rows v" "evolves v w \<Longrightarrow> cols w = cols v"
  by (simp_all add: evolves_def)

lemma unsplit_half_evolves:
  assumes "screen_wf v" "vt_row_dirty v r"
  shows "evolves v (unsplit_half v (vt_cell_at v r c) a)"
proof (cases "r < rows v \<and> c < cols v")
  case True
  then show ?thesis
    using assms store_evolves [of v r c] mem_ok_at [OF wf_mem [OF assms(1)], of r c]
    by (simp add: unsplit_half_def vt_cell_at_in Let_def)
qed (use assms in \<open>auto simp: unsplit_half_def vt_cell_at_def\<close>)

lemma unsplit_wide_evolves [wf_keep]:
  assumes "screen_wf v"
  shows "evolves v (unsplit_wide v r c)"
proof (cases "r < rows v \<and> c < cols v")
  case True
  define v1 where "v1 = mark_row v r"
  define v2 where "v2 = (if cattrs (cells v1 ! (r * cols v + c)) AND VT_ATTR_WIDE_SPACER \<noteq> 0 \<and> 0 < c
    then unsplit_half v1 (vt_cell_at v1 r (c - 1)) VT_ATTR_WIDE else v1)"
  have e1: "evolves v v1" using assms by (simp add: v1_def mark_row_evolves)
  have d1: "vt_row_dirty v1 r" using True assms by (simp add: v1_def mark_row_dirty wf_mem)
  have e2: "evolves v1 v2" using evolves_wf [OF e1] d1 by (simp add: v2_def unsplit_half_evolves)
  have d2: "vt_row_dirty v2 r" using e2 d1 by (rule evolves_dirty)
  have "unsplit_wide v r c = (if cattrs (cells v2 ! (r * cols v + c)) AND VT_ATTR_WIDE \<noteq> 0 \<and> c + 1 < cols v2
    then unsplit_half v2 (vt_cell_at v2 r (c + 1)) VT_ATTR_WIDE_SPACER else v2)"
    using True mem_ok_at [OF wf_mem [OF assms], of r c]
    by (simp add: unsplit_wide_def vt_cell_at_in Let_def v2_def v1_def)
  then have "evolves v2 (unsplit_wide v r c)"
    using evolves_wf [OF e2] d2 by (simp add: unsplit_half_evolves)
  with e1 e2 show ?thesis by (blast intro: evolves_trans)
qed (use assms in \<open>auto simp: unsplit_wide_def vt_cell_at_def\<close>)

section \<open>Scrolling and cursor movement\<close>

lemma evolves_scrolled:
  assumes "screen_wf v" "only_cells (scrolled v es) v'" "\<And>r. vt_row_dirty v r \<Longrightarrow> vt_row_dirty v' r"
    and "\<And>r c. r < rows v \<Longrightarrow> \<not> vt_row_dirty v' r \<Longrightarrow> c < cols v \<Longrightarrow> at v' r c = at v r c"
  shows "evolves v v'"
proof -
  have e: "evolves v (scrolled v es)"
    using evolves_step [OF evolves_last(1) [OF assms(1), of False] evolves_out [of _ es]] by simp
  have d: "vt_row_dirty (scrolled v es) r = vt_row_dirty v r" for r by simp
  have "evolves (scrolled v es) v'"
    using assms(3,4) by (intro evolves_cells [OF evolves_wf [OF e] assms(2)]) simp_all
  with e show ?thesis by (rule evolves_trans)
qed

lemma scroll_region_up_evolves [wf_keep]:
  assumes "screen_wf v" "t \<le> b" "b < rows v"
  shows "evolves v (scroll_region_up v t b n)"
proof (cases "0 < n")
  case True
  note P = scroll_region_up_props [OF wf_mem [OF assms(1)] assms(2,3) True]
  show ?thesis
    by (rule evolves_scrolled [OF assms(1) P(1)]) (auto simp: P(2,3))
qed (simp add: scroll_region_up_def assms)

lemma scroll_region_down_evolves [wf_keep]:
  assumes "screen_wf v" "t \<le> b" "b < rows v"
  shows "evolves v (scroll_region_down v t b n)"
proof (cases "0 < n")
  case True
  note P = scroll_region_down_props [OF wf_mem [OF assms(1)] assms(2,3) True]
  have "v\<lparr>last_valid := False\<rparr> = scrolled v []" by simp
  then have "only_cells (scrolled v []) (scroll_region_down v t b n)" using P(1) by simp
  then show ?thesis by (rule evolves_scrolled [OF assms(1)]) (auto simp: P(2,3))
qed (simp add: scroll_region_down_def assms)

lemma vt_screen_scroll_up_evolves [wf_keep]: "screen_wf v \<Longrightarrow> evolves v (vt_screen_scroll_up v n)"
  by (simp add: vt_screen_scroll_up_def scroll_region_up_evolves wf_bounds)

lemma vt_screen_scroll_down_evolves [wf_keep]: "screen_wf v \<Longrightarrow> evolves v (vt_screen_scroll_down v n)"
  by (simp add: vt_screen_scroll_down_def scroll_region_down_evolves wf_bounds)

lemma vt_screen_move_cursor_eq:
  assumes "screen_wf v"
  shows "vt_screen_move_cursor v row col =
    (let tp = (if mode_on v VT_MODE_DECOM then int (scroll_top v) else 0);
         bt = (if mode_on v VT_MODE_DECOM then int (scroll_bot v) else int (rows v) - 1)
     in v\<lparr>cur := (cur v)\<lparr>crow := nat (min bt (max tp (row + tp))),
          ccol := nat (min (int (cols v) - 1) (max 0 col)), pending_wrap := False\<rparr>,
          last_valid := False\<rparr>)"
  using wf_bounds [OF assms]
  by (auto simp: vt_screen_move_cursor_def forget_last_def Let_def u16_id min_def max_def)

lemma vt_screen_move_cursor_evolves [wf_keep]:
  assumes "screen_wf v"
  shows "evolves v (vt_screen_move_cursor v row col)"
proof -
  let ?r = "nat (min (if mode_on v VT_MODE_DECOM then int (scroll_bot v) else int (rows v) - 1)
    (max (if mode_on v VT_MODE_DECOM then int (scroll_top v) else 0)
      (row + (if mode_on v VT_MODE_DECOM then int (scroll_top v) else 0))))"
  let ?c = "nat (min (int (cols v) - 1) (max 0 col))"
  have "?r < rows v" "?c < cols v" using wf_bounds [OF assms] by auto
  note E = evolves_pos [OF assms this, of False]
  show ?thesis
    unfolding vt_screen_move_cursor_eq [OF assms] Let_def
    by (rule evolves_trans [OF E evolves_last(1) [OF evolves_wf [OF E]]])
qed

lemma vt_screen_carriage_return_evolves [wf_keep]:
  assumes "screen_wf v"
  shows "evolves v (vt_screen_carriage_return v)"
  unfolding vt_screen_carriage_return_def
  by (rule evolves_step [OF evolves_cur forget_last_evolves])
    (use assms in \<open>simp_all add: screen_wf_def cursor_wf_def mem_ok_def\<close>)

lemma vt_screen_backspace_evolves [wf_keep]:
  assumes "screen_wf v"
  shows "evolves v (vt_screen_backspace v)"
  unfolding vt_screen_backspace_def Let_def
proof (rule evolves_step [OF forget_last_evolves [OF assms]])
  assume "screen_wf (forget_last v)"
  then show "evolves (forget_last v)
     (if pending_wrap (cur (forget_last v)) then (forget_last v)\<lparr>cur := (cur (forget_last v))\<lparr>pending_wrap := False\<rparr>\<rparr>
      else if 0 < ccol (cur (forget_last v))
      then (forget_last v)\<lparr>cur := (cur (forget_last v))\<lparr>ccol := ccol (cur (forget_last v)) - 1\<rparr>\<rparr>
      else forget_last v)"
    by (auto intro!: evolves_cur simp: screen_wf_def cursor_wf_def)
qed

lemma reset_wrap_evolves: "screen_wf v \<Longrightarrow> evolves v (no_wrap (forget_last v))"
  by (blast intro: evolves_trans forget_last_evolves no_wrap_evolves evolves_wf)

lemma vt_screen_newline_evolves [wf_keep]:
  assumes "screen_wf v"
  shows "evolves v (vt_screen_newline v)"
  unfolding vt_screen_newline_def Let_def
proof (rule evolves_step [OF reset_wrap_evolves [OF assms]])
  fix w assume "screen_wf w"
  then show "evolves w (if crow (cur w) = scroll_bot w then scroll_region_up w (scroll_top w) (scroll_bot w) 1
      else if crow (cur w) + 1 < rows w then w\<lparr>cur := (cur w)\<lparr>crow := crow (cur w) + 1\<rparr>\<rparr> else w)"
    by (auto intro!: evolves_cur scroll_region_up_evolves simp: screen_wf_def cursor_wf_def)
qed

lemma vt_screen_reverse_index_evolves [wf_keep]:
  assumes "screen_wf v"
  shows "evolves v (vt_screen_reverse_index v)"
  unfolding vt_screen_reverse_index_def Let_def
proof (rule evolves_step [OF reset_wrap_evolves [OF assms]])
  fix w assume "screen_wf w"
  then show "evolves w (if crow (cur w) = scroll_top w then scroll_region_down w (scroll_top w) (scroll_bot w) 1
      else if 0 < crow (cur w) then w\<lparr>cur := (cur w)\<lparr>crow := crow (cur w) - 1\<rparr>\<rparr> else w)"
    by (auto intro!: evolves_cur scroll_region_down_evolves simp: screen_wf_def cursor_wf_def)
qed

lemma next_tab_Some: "next_tab ts cs = Some c \<Longrightarrow> c \<in> set cs \<and> bm_test ts c"
  by (induction cs) (auto split: if_splits)

lemma vt_screen_tab_evolves [wf_keep]:
  assumes "screen_wf v"
  shows "evolves v (vt_screen_tab v)"
  unfolding vt_screen_tab_def Let_def
proof (rule evolves_step [OF reset_wrap_evolves [OF assms]])
  fix w assume w: "screen_wf w"
  then show "evolves w (if cols w > 32 * length (tabstops w) then w\<lparr>ub := True\<rparr>
      else w\<lparr>cur := (cur w)\<lparr>ccol := (case next_tab (tabstops w) [ccol (cur w) + 1..<cols w] of
             Some c \<Rightarrow> c | None \<Rightarrow> u16 (int (cols w) - 1))\<rparr>\<rparr>)"
    using wf_bounds [OF w]
    by (auto intro!: evolves_cur simp: cursor_wf_def split: option.splits dest!: next_tab_Some)
qed

section \<open>Shifting characters within a row\<close>

lemma memmove_row_props:
  fixes d s n
  assumes "mem_ok v" "row < rows v" "d + n \<le> cols v" "s + n \<le> cols v"
  defines "w \<equiv> memmove_cells v (Some (row * cols v + d)) (Some (row * cols v + s)) n"
  shows "only_cells v w" and "dirty w = dirty v"
    and "r < rows v \<Longrightarrow> c < cols v \<Longrightarrow>
      at w r c = (if r = row \<and> d \<le> c \<and> c < d + n then at v row (c - d + s) else at v r c)"
proof -
  let ?L = "length (cells v)"
  have L: "?L = rows v * cols v" using assms(1) by (rule mem_ok_cells)
  have fit: "row * cols v + d + n \<le> ?L" "row * cols v + s + n \<le> ?L"
    using row_end [OF assms(2), of "cols v"] assms(3,4) by (simp_all add: L)
  let ?src = "take n (drop (row * cols v + s) (cells v))"
  have e: "w = set_cells v (overwrite (cells v) (row * cols v + d) ?src)"
    using fit by (simp add: w_def memmove_cells_def add.assoc)
  have len: "length ?src = n" using fit by simp
  show "only_cells v w"
    unfolding e by (rule only_cellsI [where d = "dirty v" and g = "overwrite (cells v) (row * cols v + d) ?src"])
      (use fit len in simp_all)
  show "dirty w = dirty v" by (simp add: e)
  assume r: "r < rows v" "c < cols v"
  have i: "r * cols v + c < ?L" using r by (simp add: L idx_less)
  have "row * cols v + d \<le> r * cols v + c \<and> r * cols v + c < row * cols v + d + n \<longleftrightarrow>
      r = row \<and> d \<le> c \<and> c < d + n"
    using r(2) assms(3) row_end [of r row "cols v"] row_end [of row r "cols v"]
    by (cases r row rule: linorder_cases) auto
  with r fit len i mem_ok_active [OF assms(1)]
  show "at w r c = (if r = row \<and> d \<le> c \<and> c < d + n then at v row (c - d + s) else at v r c)"
    by (auto simp: e at_def nth_overwrite add.assoc intro!: arg_cong [where f = "\<lambda>i. cells v ! i"])
qed

lemma clamp_shift:
  "0 < n \<Longrightarrow> c < w \<Longrightarrow> nat (if n > int w - int c then int w - int c else n) = min (nat n) (w - c)"
  by auto

lemma only_cells_dirty: "only_cells v w \<Longrightarrow> dirty w = dirty v \<Longrightarrow> vt_row_dirty w r = vt_row_dirty v r"
  by (simp add: vt_row_dirty_def only_cells_fields)

lemma blank_only_cells: "only_cells v w \<Longrightarrow> blank_cell w = blank_cell v"
  by (simp add: blank_cell_def only_cells_fields)

text \<open>
  Both shifts, as one statement: the row of the cursor is marked, \<open>m\<close> of its cells move
  from column \<open>s\<close> to column \<open>d\<close>, and the cells from \<open>f\<close> to \<open>t\<close> are blanked.
\<close>

lemma shift_clear_props:
  fixes d s m f t
  assumes "mem_ok v" "row < rows v" "d + m \<le> cols v" "s + m \<le> cols v"
  defines "w \<equiv> clear_row (memmove_cells (mark_row v row) (Some (row * cols v + d)) (Some (row * cols v + s)) m) row f t"
  shows "only_cells v w"
    and "r < rows v \<Longrightarrow> c < cols v \<Longrightarrow> at w r c =
      (if r = row \<and> f \<le> c \<and> c < t then blank_cell v
       else if r = row \<and> d \<le> c \<and> c < d + m then at v row (c - d + s) else at v r c)"
    and "vt_row_dirty w r \<longleftrightarrow> vt_row_dirty v r \<or> r = row"
proof -
  define v1 where "v1 = mark_row v row"
  define v2 where "v2 = memmove_cells v1 (Some (row * cols v + d)) (Some (row * cols v + s)) m"
  have o1: "only_cells v v1" using assms(1) by (simp add: v1_def mark_row_only_cells)
  have m1: "mem_ok v1" using o1 assms(1) by (rule only_cells_mem_ok)
  have g1: "rows v1 = rows v" "cols v1 = cols v" by (simp_all add: v1_def)
  note P = memmove_row_props [OF m1, unfolded g1, OF assms(2-4), folded v2_def]
  have m2: "mem_ok v2" using P(1) m1 by (rule only_cells_mem_ok)
  note C = clear_row_props [OF m2, where row = row and f = f and t = t]
  have w: "w = clear_row v2 row f t" by (simp add: w_def v2_def v1_def)
  note F2 = only_cells_fields [OF P(1), unfolded g1]
  have o2: "only_cells v v2" by (rule only_cells_trans [OF o1 P(1) mem_ok_active [OF assms(1)]])
  show "only_cells v w" unfolding w by (rule only_cells_trans [OF o2 C(1) mem_ok_active [OF assms(1)]])
  have a1: "at v1 r c = at v r c" for r c by (simp add: v1_def)
  show "r < rows v \<Longrightarrow> c < cols v \<Longrightarrow> at w r c =
      (if r = row \<and> f \<le> c \<and> c < t then blank_cell v
       else if r = row \<and> d \<le> c \<and> c < d + m then at v row (c - d + s) else at v r c)"
    using C(2) [of c r] P(3) [of r c] assms(2) by (auto simp: w F2 blank_only_cells [OF o2] a1)
  show "vt_row_dirty w r \<longleftrightarrow> vt_row_dirty v r \<or> r = row"
    using C(3) [of r] only_cells_dirty [OF P(1,2), of r] mark_row_dirty [OF assms(1), of row r] assms(2)
    by (auto simp: w F2 v1_def)
qed

lemma vt_screen_insert_chars_props:
  assumes "screen_wf v" "0 < n"
  defines "k \<equiv> min (nat n) (cols v - ccol (cur v))"
  defines "v' \<equiv> vt_screen_insert_chars v n"
  shows "\<exists>w. only_cells (v\<lparr>last_valid := False\<rparr>) w \<and> v' = no_wrap w"
    and "r < rows v \<Longrightarrow> c < cols v \<Longrightarrow> at v' r c =
      (if r \<noteq> crow (cur v) \<or> c < ccol (cur v) then at v r c
       else if c < ccol (cur v) + k then blank_cell v else at v r (c - k))"
    and "vt_row_dirty v' r \<longleftrightarrow> vt_row_dirty v r \<or> r = crow (cur v)"
proof -
  note B = wf_bounds [OF assms(1)]
  let ?r = "crow (cur v)" and ?c = "ccol (cur v)"
  define v0 where "v0 = v\<lparr>last_valid := False\<rparr>"
  define m where "m = cols v - ?c - k"
  have m0: "mem_ok v0" using wf_mem [OF assms(1)] by (simp add: v0_def)
  have pre: "?r < rows v0" "(?c + k) + m \<le> cols v0" "?c + m \<le> cols v0"
    using B by (auto simp: v0_def m_def k_def)
  define w where "w = clear_row (memmove_cells (mark_row v0 ?r) (Some (?r * cols v0 + (?c + k)))
      (Some (?r * cols v0 + ?c)) m) ?r ?c (?c + k)"
  note P = shift_clear_props [OF m0 pre, where f = ?c and t = "?c + k", folded w_def]
  have u: "u16 (int ?c + int k) = ?c + k" using B by (simp add: u16_id k_def)
  have na: "nat (int (cols v) - int ?c) - k = m" by (simp add: m_def)
  have f0: "cols v0 = cols v" "rows v0 = rows v" "cur v0 = cur v" by (simp_all add: v0_def)
  have k': "nat (if int (cols v0) - int (ccol (cur v0)) < n then int (cols v0) - int (ccol (cur v0)) else n) = k"
    unfolding k_def f0 using assms(2) B by (rule_tac clamp_shift) auto
  have cu: "cur (memmove_cells x a b j) = cur x" for x a b j
    by (auto simp: memmove_cells_def split: option.splits)
  have v': "v' = no_wrap w"
    unfolding v'_def vt_screen_insert_chars_def Let_def forget_last_def v0_def [symmetric] k'
    using assms(2) B by (simp add: w_def vt_cell_at_in cu u na f0 add.assoc)
  show "\<exists>w. only_cells (v\<lparr>last_valid := False\<rparr>) w \<and> v' = no_wrap w"
    using P(1) v' by (auto simp: v0_def)
  have b0: "blank_cell v0 = blank_cell v" by (simp add: v0_def blank_cell_def)
  have a0: "at v0 r c = at v r c" "vt_row_dirty v0 r = vt_row_dirty v r" for r c by (simp_all add: v0_def)
  have aw: "at (no_wrap w) r c = at w r c" "vt_row_dirty (no_wrap w) r = vt_row_dirty w r" for r c
    by (simp_all add: no_wrap_def)
  show "r < rows v \<Longrightarrow> c < cols v \<Longrightarrow> at v' r c =
      (if r \<noteq> ?r \<or> c < ?c then at v r c else if c < ?c + k then blank_cell v else at v r (c - k))"
    using P(2) [of r c] by (auto simp: v' aw b0 f0 a0 m_def)
  show "vt_row_dirty v' r \<longleftrightarrow> vt_row_dirty v r \<or> r = ?r"
    using P(3) [of r] by (simp add: v' aw a0)
qed

lemma vt_screen_delete_chars_props:
  assumes "screen_wf v" "0 < n"
  defines "k \<equiv> min (nat n) (cols v - ccol (cur v))"
  defines "v' \<equiv> vt_screen_delete_chars v n"
  shows "\<exists>w. only_cells (v\<lparr>last_valid := False\<rparr>) w \<and> v' = no_wrap w"
    and "r < rows v \<Longrightarrow> c < cols v \<Longrightarrow> at v' r c =
      (if r \<noteq> crow (cur v) \<or> c < ccol (cur v) then at v r c
       else if c < cols v - k then at v r (c + k) else blank_cell v)"
    and "vt_row_dirty v' r \<longleftrightarrow> vt_row_dirty v r \<or> r = crow (cur v)"
proof -
  note B = wf_bounds [OF assms(1)]
  let ?r = "crow (cur v)" and ?c = "ccol (cur v)"
  define v0 where "v0 = v\<lparr>last_valid := False\<rparr>"
  define m where "m = cols v - ?c - k"
  have m0: "mem_ok v0" using wf_mem [OF assms(1)] by (simp add: v0_def)
  have pre: "?r < rows v0" "?c + m \<le> cols v0" "(?c + k) + m \<le> cols v0"
    using B by (auto simp: v0_def m_def k_def)
  define w where "w = clear_row (memmove_cells (mark_row v0 ?r) (Some (?r * cols v0 + ?c))
      (Some (?r * cols v0 + (?c + k))) m) ?r (cols v - k) (cols v)"
  note P = shift_clear_props [OF m0 pre, where f = "cols v - k" and t = "cols v", folded w_def]
  have u: "u16 (int (cols v) - int k) = cols v - k" using B by (simp add: u16_id k_def)
  have na: "nat (int (cols v) - int ?c) - k = m" by (simp add: m_def)
  have k1: "k \<le> cols v - ?c" by (simp add: k_def)
  have f0: "cols v0 = cols v" "rows v0 = rows v" "cur v0 = cur v" by (simp_all add: v0_def)
  have k': "nat (if int (cols v0) - int (ccol (cur v0)) < n then int (cols v0) - int (ccol (cur v0)) else n) = k"
    unfolding k_def f0 using assms(2) B by (rule_tac clamp_shift) auto
  have cu: "cur (memmove_cells x a b j) = cur x" "cols (memmove_cells x a b j) = cols x" for x a b j
    by (auto simp: memmove_cells_def split: option.splits)
  have v': "v' = no_wrap w"
    unfolding v'_def vt_screen_delete_chars_def Let_def forget_last_def v0_def [symmetric] k'
    using assms(2) B by (simp add: w_def vt_cell_at_in cu u na f0 add.assoc)
  show "\<exists>w. only_cells (v\<lparr>last_valid := False\<rparr>) w \<and> v' = no_wrap w"
    using P(1) v' by (auto simp: v0_def)
  have b0: "blank_cell v0 = blank_cell v" by (simp add: v0_def blank_cell_def)
  have a0: "at v0 r c = at v r c" "vt_row_dirty v0 r = vt_row_dirty v r" for r c by (simp_all add: v0_def)
  have aw: "at (no_wrap w) r c = at w r c" "vt_row_dirty (no_wrap w) r = vt_row_dirty w r" for r c
    by (simp_all add: no_wrap_def)
  show "r < rows v \<Longrightarrow> c < cols v \<Longrightarrow> at v' r c =
      (if r \<noteq> ?r \<or> c < ?c then at v r c else if c < cols v - k then at v r (c + k) else blank_cell v)"
    using P(2) [of r c] k1 by (auto simp: v' aw b0 f0 a0 m_def add.commute)
  show "vt_row_dirty v' r \<longleftrightarrow> vt_row_dirty v r \<or> r = ?r"
    using P(3) [of r] by (simp add: v' aw a0)
qed


lemma evolves_shift:
  assumes "screen_wf v" "\<exists>w. only_cells (v\<lparr>last_valid := False\<rparr>) w \<and> v' = no_wrap w"
    and "\<And>r. vt_row_dirty v r \<Longrightarrow> vt_row_dirty v' r"
    and "\<And>r c. r < rows v \<Longrightarrow> \<not> vt_row_dirty v' r \<Longrightarrow> c < cols v \<Longrightarrow> at v' r c = at v r c"
  shows "evolves v v'"
proof -
  from assms(2) obtain w where w: "only_cells (scrolled v []) w" "v' = no_wrap w" by auto
  have "at v' r c = at w r c" "vt_row_dirty v' r = vt_row_dirty w r" for r c by (simp_all add: w no_wrap_def)
  with assms(3,4) have "evolves v w" by (intro evolves_scrolled [OF assms(1) w(1)]) auto
  then show ?thesis unfolding w(2) by (rule evolves_step) (rule no_wrap_evolves)
qed

lemma vt_screen_insert_chars_evolves [wf_keep]:
  assumes "screen_wf v"
  shows "evolves v (vt_screen_insert_chars v n)"
proof (cases "0 < n")
  case True
  note P = vt_screen_insert_chars_props [OF assms True]
  show ?thesis by (rule evolves_shift [OF assms P(1)]) (auto simp: P(2,3))
qed (simp add: vt_screen_insert_chars_def assms)

lemma vt_screen_delete_chars_evolves [wf_keep]:
  assumes "screen_wf v"
  shows "evolves v (vt_screen_delete_chars v n)"
proof (cases "0 < n")
  case True
  note P = vt_screen_delete_chars_props [OF assms True]
  show ?thesis by (rule evolves_shift [OF assms P(1)]) (auto simp: P(2,3))
qed (simp add: vt_screen_delete_chars_def assms)

section \<open>Erasing, regions, alternate screen\<close>

text \<open>
  The operations are sequences of \<open>let\<close> bindings of the current state, so the contract is
  carried through them by one rule per construct: a binding, a conditional, and each
  primitive applied to a state that has already evolved from the initial one.
\<close>

lemma evolves_let: "evolves u a \<Longrightarrow> (\<And>v. evolves u v \<Longrightarrow> evolves u (f v)) \<Longrightarrow> evolves u (Let a f)"
  by simp

lemma evolves_if: "(b \<Longrightarrow> evolves u x) \<Longrightarrow> (\<not> b \<Longrightarrow> evolves u y) \<Longrightarrow> evolves u (if b then x else y)"
  by simp

lemmas keep_rules =
  evolves_step [OF _ forget_last_evolves] evolves_step [OF _ no_wrap_evolves]
  evolves_step [OF _ mark_all_evolves] evolves_step [OF _ mark_row_evolves]
  evolves_step [OF _ clear_row_evolves] evolves_step [OF _ clear_rows_evolves]
  evolves_step [OF _ unsplit_wide_evolves]
  evolves_step [OF _ vt_screen_scroll_up_evolves] evolves_step [OF _ vt_screen_scroll_down_evolves]
  evolves_step [OF _ vt_screen_move_cursor_evolves]
  evolves_step [OF _ vt_screen_carriage_return_evolves] evolves_step [OF _ vt_screen_backspace_evolves]
  evolves_step [OF _ vt_screen_newline_evolves] evolves_step [OF _ vt_screen_reverse_index_evolves]
  evolves_step [OF _ vt_screen_tab_evolves]
  evolves_step [OF _ vt_screen_insert_chars_evolves] evolves_step [OF _ vt_screen_delete_chars_evolves]

lemmas keep_intros = evolves_let evolves_if keep_rules

lemma vt_screen_erase_chars_evolves [wf_keep]:
  assumes "screen_wf v" shows "evolves v (vt_screen_erase_chars v n)"
  unfolding vt_screen_erase_chars_def Let_def [where 'a = int]
  by (intro keep_intros) (simp_all add: assms)

lemma vt_screen_erase_display_evolves [wf_keep]:
  assumes "screen_wf v" shows "evolves v (vt_screen_erase_display v mode)"
  unfolding vt_screen_erase_display_def by (intro keep_intros) (simp_all add: assms)

lemma vt_screen_erase_line_evolves [wf_keep]:
  assumes "screen_wf v" shows "evolves v (vt_screen_erase_line v mode)"
  unfolding vt_screen_erase_line_def by (intro keep_intros) (simp_all add: assms)

lemma vt_screen_insert_lines_evolves [wf_keep]:
  assumes "screen_wf v" shows "evolves v (vt_screen_insert_lines v n)"
  unfolding vt_screen_insert_lines_def
  by (intro keep_intros scroll_region_down_evolves) (simp_all add: assms wf_bounds)

lemma vt_screen_delete_lines_evolves [wf_keep]:
  assumes "screen_wf v" shows "evolves v (vt_screen_delete_lines v n)"
  unfolding vt_screen_delete_lines_def
  by (intro keep_intros scroll_region_up_evolves) (simp_all add: assms wf_bounds)

lemma vt_screen_set_scroll_region_evolves [wf_keep]:
  assumes "screen_wf v"
  shows "evolves v (vt_screen_set_scroll_region v t b)"
proof -
  define t' where "t' = (if t \<le> 0 then 1 else t)"
  define b' where "b' = (if b \<le> 0 \<or> b > int (rows v) then int (rows v) else b)"
  have e: "vt_screen_set_scroll_region v t b = (if t' \<ge> b' then v
      else vt_screen_move_cursor (v\<lparr>scroll_top := u16 (t' - 1), scroll_bot := u16 (b' - 1)\<rparr>) 0 0)"
    unfolding vt_screen_set_scroll_region_def Let_def t'_def b'_def ..
  show ?thesis
  proof (cases "t' < b'")
    case True
    moreover have "1 \<le> t'" "b' \<le> int (rows v)" "rows v \<le> 1000"
      using wf_bounds [OF assms] by (auto simp: t'_def b'_def)
    ultimately have "u16 (t' - 1) \<le> u16 (b' - 1)" "u16 (b' - 1) < rows v" by (auto simp: u16_id)
    then show ?thesis
      using True evolves_step [OF evolves_region [OF assms] vt_screen_move_cursor_evolves] by (simp add: e)
  qed (simp add: e assms)
qed

lemma evolves_dirty_all:
  assumes "dirty_all v" "screen_wf v'" "rows v' = rows v" "cols v' = cols v" "cb v' = cb v"
    "prefix (out v) (out v')" "dirty_all v'"
  shows "evolves v v'"
  using assms by (simp add: evolves_def vt_row_dirty_all)

lemma vt_screen_switch_alt_evolves [wf_keep]:
  assumes "screen_wf v"
  shows "evolves v (vt_screen_switch_alt v alt sv clr)"
proof (cases "alt = mode_on v VT_MODE_ALTSCREEN")
  case False
  define w where "w = mark_all (forget_last v)"
  have w: "evolves v w" unfolding w_def by (intro keep_rules) (simp add: assms)
  have dw: "dirty_all w" by (simp add: w_def mark_all_def)
  have sw: "screen_wf w" using w by (rule evolves_wf)
  have on: "evolves u (u\<lparr>active := 1, modes := modes u OR VT_MODE_ALTSCREEN\<rparr>)"
    if "screen_wf u" "dirty_all u" for u
    using that by (intro evolves_dirty_all)
      (simp_all add: screen_wf_def mem_ok_def bit.conj_disj_distrib2)
  have off: "evolves u (u\<lparr>active := 0, modes := modes u AND NOT VT_MODE_ALTSCREEN\<rparr>)"
    if "screen_wf u" "dirty_all u" for u
    using that by (intro evolves_dirty_all) (simp_all add: screen_wf_def mem_ok_def and.assoc)
  have save: "evolves w (if sv then w\<lparr>saved_cur := (saved_cur w)[0 := cur w]\<rparr> else w)"
    using sw by (auto intro!: evolves_saved simp: screen_wf_def list_all_length nth_list_update)
  have restore: "evolves u (if sv then u\<lparr>cur := saved_cur u ! 0\<rparr> else u)" if "screen_wf u" for u
    using that by (auto intro!: evolves_cur simp: screen_wf_def list_all_length)
  have "evolves w (vt_screen_switch_alt v alt sv clr)"
  proof (cases alt)
    case True
    define u where "u = (if sv then w\<lparr>saved_cur := (saved_cur w)[0 := cur w]\<rparr> else w)"
    have du: "dirty_all u" using dw by (simp add: u_def)
    have eu: "evolves w u" using save by (simp add: u_def)
    have "evolves w (u\<lparr>active := 1, modes := modes u OR VT_MODE_ALTSCREEN\<rparr>)"
      by (rule evolves_trans [OF eu on [OF evolves_wf [OF eu] du]])
    then show ?thesis
      using True False unfolding vt_screen_switch_alt_def w_def [symmetric]
      by (simp add: u_def [symmetric] Let_def keep_rules)
  next
    case alt: False
    have e: "evolves w (w\<lparr>active := 0, modes := modes w AND NOT VT_MODE_ALTSCREEN\<rparr>)"
      by (rule off [OF sw dw])
    define u where "u = w\<lparr>active := 0, modes := modes w AND NOT VT_MODE_ALTSCREEN\<rparr>"
    have "vt_screen_switch_alt v alt sv clr = no_wrap (if sv then u\<lparr>cur := saved_cur u ! 0\<rparr> else u)"
      using alt False unfolding vt_screen_switch_alt_def w_def [symmetric] u_def by (simp add: Let_def)
    then show ?thesis
      using evolves_step [OF evolves_step [OF e [folded u_def] restore] no_wrap_evolves] by simp
  qed
  with w show ?thesis by (rule evolves_trans)
qed (simp add: vt_screen_switch_alt_def assms)

lemma length_foldl_bm_set [simp]: "length (foldl bm_set ts cs) = length ts"
  by (induction cs arbitrary: ts) simp_all

lemma zero_rows_fold:
  "k * C \<le> length cs \<Longrightarrow>
    foldl (\<lambda>cs r. overwrite cs (r * C) (replicate C z)) cs [0..<k] = replicate (k * C) z @ drop (k * C) cs"
proof (induction k)
  case (Suc k)
  then have "foldl (\<lambda>cs r. overwrite cs (r * C) (replicate C z)) cs [0..<k]
      = replicate (k * C) z @ drop (k * C) cs" by simp
  moreover have "replicate (C + k * C) z = replicate (k * C) z @ replicate C z"
    by (metis add.commute replicate_add)
  ultimately show ?case using Suc.prems by (simp add: overwrite_def add.commute)
qed simp

lemma reset_tabstops_eq:
  "cols v \<le> 1000 \<Longrightarrow> reset_tabstops v =
    v\<lparr>tabstops := foldl bm_set (replicate VT_TABSTOP_WORDS 0) (every_8th 8 (cols v))\<rparr>"
  by (simp add: reset_tabstops_def)

lemma reset_grid:
  "list_all (\<lambda>g. length g = rows v * cols v) gs \<Longrightarrow>
    map (\<lambda>cs. foldl (\<lambda>cs r. overwrite cs (r * cols v) (replicate (cols v) zero_cell)) cs [0..<rows v]) gs
      = replicate (length gs) (replicate (rows v * cols v) zero_cell)"
  by (induction gs) (simp_all add: zero_rows_fold)

lemma vt_screen_reset_eq:
  assumes "mem_ok v"
  shows "vt_screen_reset v = v\<lparr>last_valid := False, dirty_all := True,
    modes := VT_MODE_DECAWM OR VT_MODE_DECTCEM, active := 0, scroll_top := 0,
    scroll_bot := rows v - 1, cur := zero_cursor, saved_cur := [zero_cursor, zero_cursor],
    tabstops := foldl bm_set (replicate VT_TABSTOP_WORDS 0) (every_8th 8 (cols v)),
    grid := [replicate (rows v * cols v) zero_cell, replicate (rows v * cols v) zero_cell]\<rparr>"
  using assms
  by (simp add: vt_screen_reset_def mark_all_def forget_last_def Let_def reset_tabstops_eq mem_ok_def
      reset_grid numeral_2_eq_2)

lemma vt_screen_reset_evolves [wf_keep]:
  assumes "screen_wf v"
  shows "evolves v (vt_screen_reset v)"
  using assms wf_mem [OF assms]
  by (simp add: vt_screen_reset_eq evolves_def screen_wf_def mem_ok_def cursor_wf_def zero_cursor_def
      vt_row_dirty_def)

lemma fill_fold:
  fixes x
  defines "f \<equiv> \<lambda>v r. foldl (\<lambda>v c. store v (vt_cell_at v r c) x) v [0..<cols v]"
  assumes "mem_ok v" "set rs \<subseteq> {..<rows v}"
  shows "only_cells v (foldl f v rs) \<and>
    (\<forall>r c. c < cols v \<longrightarrow> at (foldl f v rs) r c = (if r \<in> set rs then x else at v r c))"
  using assms(2,3)
proof (induction rs arbitrary: v)
  case (Cons r rs)
  have cs: "set [0..<cols v] \<subseteq> {..<cols v}" by auto
  have r: "r < rows v" using Cons.prems by simp
  note S = store_row_fold [OF Cons.prems(1) r cs, where b = x]
  note F = only_cells_fields [OF S(1)]
  have "only_cells (f v r) (foldl f (f v r) rs) \<and>
    (\<forall>r' c. c < cols (f v r) \<longrightarrow> at (foldl f (f v r) rs) r' c = (if r' \<in> set rs then x else at (f v r) r' c))"
    using Cons.prems F(1) only_cells_mem_ok [OF S(1)] by (intro Cons.IH) (simp_all add: f_def)
  then show ?case
    using S(1,3) F(2) only_cells_trans [OF S(1) _ mem_ok_active [OF Cons.prems(1)]]
    by (auto simp: f_def)
qed simp

lemma vt_screen_align_test_props:
  assumes "screen_wf v"
  shows "evolves v (vt_screen_align_test v)"
    and "r < rows v \<Longrightarrow> c < cols v \<Longrightarrow> at (vt_screen_align_test v) r c = E_cell"
proof -
  define v1 where "v1 = (mark_all (forget_last v))\<lparr>cur := (cur v)\<lparr>cpen := default_pen\<rparr>\<rparr>"
  define v2 where "v2 = foldl (\<lambda>v r. foldl (\<lambda>v c. store v (vt_cell_at v r c) E_cell) v [0..<cols v]) v1 [0..<rows v1]"
  define v3 where "v3 = v2\<lparr>cur := (cur v2)\<lparr>cpen := cpen (cur v)\<rparr>, scroll_top := 0,
      scroll_bot := u16 (int (rows v2) - 1)\<rparr>"
  note B = wf_bounds [OF assms]
  have w1: "evolves v v1" unfolding v1_def
    by (rule evolves_step [OF _ evolves_cur], intro keep_rules)
      (use assms in \<open>simp_all add: forget_last_def mark_all_def screen_wf_def cursor_wf_def\<close>)
  have d1: "dirty_all v1" by (simp add: v1_def mark_all_def)
  have m1: "mem_ok v1" using wf_mem [OF evolves_wf [OF w1]] .
  have g1: "rows v1 = rows v" "cols v1 = cols v" using evolves_geom [OF w1] by auto
  have rs: "set [0..<rows v1] \<subseteq> {..<rows v1}" by auto
  note P = fill_fold [OF m1 rs, where x = E_cell, folded v2_def]
  note F2 = only_cells_fields [OF conjunct1 [OF P]]
  have w2: "screen_wf v2" using P evolves_wf [OF w1] only_cells_wf by blast
  have e2: "evolves v1 v2" by (rule evolves_dirty_all [OF d1 w2]) (simp_all add: F2 d1)
  have e3: "evolves v2 v3" unfolding v3_def
    by (rule evolves_step [OF evolves_cur [OF w2] evolves_region])
      (use w2 B g1 F2 in \<open>simp_all add: screen_wf_def cursor_wf_def\<close>)
  have e: "vt_screen_align_test v = vt_screen_move_cursor v3 0 0"
    by (simp add: vt_screen_align_test_def Let_def v3_def v2_def v1_def mark_all_def forget_last_def)
  show "evolves v (vt_screen_align_test v)"
    unfolding e by (intro keep_rules evolves_trans [OF w1 evolves_trans [OF e2 e3]])
  have "at (vt_screen_move_cursor v3 0 0) r c = at v2 r c"
    by (simp add: vt_screen_move_cursor_def forget_last_def Let_def v3_def at_def)
  then show "r < rows v \<Longrightarrow> c < cols v \<Longrightarrow> at (vt_screen_align_test v) r c = E_cell"
    using P g1 by (simp add: e)
qed

section \<open>Printing\<close>

lemma attach_combining_evolves [wf_keep]:
  assumes "screen_wf v"
  shows "evolves v (attach_combining v cp)"
proof (cases "last_row v < rows v \<and> last_col v < cols v")
  case True
  let ?r = "last_row v" and ?c = "last_col v"
  have i: "?r * cols v + ?c < length (cells v)" using True mem_ok_at [OF wf_mem [OF assms]] by blast
  have "evolves v (mark_row (store v (Some (?r * cols v + ?c)) x) ?r)" for x
  proof -
    let ?w = "store v (Some (?r * cols v + ?c)) x"
    have o: "only_cells v ?w" using True wf_mem [OF assms] by (simp add: store_only_cells)
    have m: "mem_ok ?w" using o wf_mem [OF assms] by (rule only_cells_mem_ok)
    note F = only_cells_fields [OF o]
    have d: "vt_row_dirty (mark_row ?w ?r) r \<longleftrightarrow> vt_row_dirty v r \<or> r = ?r" for r
      using True only_cells_dirty [OF o store_dirty] by (auto simp: mark_row_dirty [OF m] F)
    show ?thesis
    proof (rule evolves_cells [OF assms])
      show "only_cells v (mark_row ?w ?r)"
        by (rule only_cells_trans [OF o mark_row_only_cells [OF m] mem_ok_active [OF wf_mem [OF assms]]])
      show "vt_row_dirty v r \<Longrightarrow> vt_row_dirty (mark_row ?w ?r) r" for r by (simp add: d)
      show "\<not> vt_row_dirty (mark_row ?w ?r) r \<Longrightarrow> c < cols v \<Longrightarrow> at (mark_row ?w ?r) r c = at v r c" for r c
        using True by (auto simp: d store_at wf_mem [OF assms])
    qed
  qed
  then show ?thesis using True i assms by (simp add: attach_combining_def vt_cell_at_in Let_def)
qed (use assms in \<open>auto simp: attach_combining_def vt_cell_at_def\<close>)

lemma unsplit_half_only_cells:
  assumes "mem_ok v"
  shows "only_cells v (unsplit_half v (vt_cell_at v r c) a)"
  using store_only_cells [OF assms, of r c] mem_ok_at [OF assms, of r c]
  by (simp add: unsplit_half_def vt_cell_at_def Let_def)

lemma unsplit_wide_only_cells:
  assumes "mem_ok v"
  shows "only_cells v (unsplit_wide v r c)"
proof (cases "r < rows v \<and> c < cols v")
  case True
  note o1 = mark_row_only_cells [OF assms, of r]
  have step: "only_cells v x \<Longrightarrow> only_cells v (if b then unsplit_half x (vt_cell_at x r k) a else x)" for x k a b
    using only_cells_trans [of v x, OF _ unsplit_half_only_cells mem_ok_active [OF assms]]
      only_cells_mem_ok [of v x, OF _ assms] by simp
  show ?thesis
    using True mem_ok_at [OF assms, of r c]
    by (simp add: unsplit_wide_def vt_cell_at_in Let_def step o1 del: if_split)
qed (auto simp: unsplit_wide_def vt_cell_at_def)

lemma unsplit_wide_marks:
  assumes "screen_wf v" "r < rows v" "c < cols v"
  shows "vt_row_dirty (unsplit_wide v r c) r"
proof -
  have step: "vt_row_dirty x r \<and> screen_wf x \<Longrightarrow>
    vt_row_dirty (if b then unsplit_half x (vt_cell_at x r k) a else x) r \<and>
    screen_wf (if b then unsplit_half x (vt_cell_at x r k) a else x)" for x k a b
    using unsplit_half_evolves [of x r k a] by (auto dest: evolves_dirty evolves_wf)
  have "vt_row_dirty (mark_row v r) r \<and> screen_wf (mark_row v r)"
    using assms mark_row_evolves [OF assms(1), of r] by (simp add: mark_row_dirty wf_mem evolves_wf)
  from step [OF step [OF this]] show ?thesis
    using assms mem_ok_at [OF wf_mem [OF assms(1)], of r c]
    by (simp add: unsplit_wide_def vt_cell_at_in Let_def del: if_split)
qed

lemma store_frame [simp]: "cur (store v p x) = cur v" "rows (store v p x) = rows v"
    "cols (store v p x) = cols v"
  by (auto simp: store_def split: option.splits)

lemma put_wrap_evolves [wf_keep]: "screen_wf v \<Longrightarrow> evolves v (put_wrap v)"
  unfolding put_wrap_def by (intro keep_intros) simp_all

lemma put_fit_evolves:
  assumes "screen_wf v" "put_fit v w = Some v'"
  shows "evolves v v'"
proof -
  have "evolves v (vt_screen_newline (vt_screen_carriage_return (clear_row v r f t)))" for r f t
    by (intro keep_intros) (simp add: assms)
  moreover have "2 \<le> cols v \<Longrightarrow> evolves v (v\<lparr>cur := (cur v)\<lparr>ccol := u16 (int (cols v) - 2)\<rparr>\<rparr>)"
    using assms(1) wf_bounds [OF assms(1)]
    by (intro evolves_cur) (auto simp: u16_id cursor_wf_def screen_wf_def)
  ultimately show ?thesis using assms by (auto simp: put_fit_def split: if_splits)
qed

text \<open>
  A cell of a wide character, written with its other half blanked: what the two writes of a
  character have in common.
\<close>

lemma unsplit_store:
  fixes x
  assumes "screen_wf v" "r < rows v" "c < cols v"
  defines "w \<equiv> store (unsplit_wide v r c) (Some (r * cols v + c)) x"
  shows "evolves v w" and "only_cells v w" and "vt_row_dirty w r" and "at w r c = x"
proof -
  let ?u = "unsplit_wide v r c"
  note o = unsplit_wide_only_cells [OF wf_mem [OF assms(1)], of r c]
  note F = only_cells_fields [OF o]
  have u: "screen_wf ?u" using unsplit_wide_evolves [OF assms(1)] evolves_wf by blast
  have rc: "r < rows ?u" "c < cols ?u" using assms F by simp_all
  have d: "vt_row_dirty ?u r" using assms by (simp add: unsplit_wide_marks)
  have w: "w = store ?u (Some (r * cols ?u + c)) x" by (simp add: w_def F)
  note E = store_evolves [OF u rc d, of x, folded w]
  show "evolves v w" by (rule evolves_trans [OF unsplit_wide_evolves [OF assms(1)] E])
  show "vt_row_dirty w r" using E d by (rule evolves_dirty)
  show "only_cells v w"
    unfolding w by (rule only_cells_trans [OF o store_only_cells [OF wf_mem [OF u] rc]])
      (use mem_ok_active [OF wf_mem [OF assms(1)]] in simp)
  show "at w r c = x" using store_at [OF wf_mem [OF u] rc rc(2), of x r] by (simp add: w)
qed

lemma put_spacer_evolves [wf_keep]:
  assumes "screen_wf v"
  shows "evolves v (put_spacer v)" and "cur (put_spacer v) = cur v"
proof -
  let ?r = "crow (cur v)" and ?c = "u16 (int (ccol (cur v)) + 1)"
  note o = unsplit_wide_only_cells [OF wf_mem [OF assms], of ?r ?c]
  note F = only_cells_fields [OF o]
  have "evolves v (put_spacer v) \<and> cur (put_spacer v) = cur v"
  proof (cases "?r < rows v \<and> ?c < cols v")
    case True
    define x where "x = \<lparr>ccp = 0, cfg = pfg (cpen (cur v)), cbg = pbg (cpen (cur v)),
      cattrs = VT_ATTR_WIDE_SPACER, ccomb = 0\<rparr>"
    note P = unsplit_store [OF assms conjunct1 [OF True] conjunct2 [OF True], of x]
    have "put_spacer v = store (unsplit_wide v ?r ?c) (Some (?r * cols v + ?c)) x"
      using True F by (simp add: put_spacer_def Let_def vt_cell_at_in x_def)
    then show ?thesis using P(1) only_cells_fields [OF P(2)] by simp
  next
    case False
    then have "put_spacer v = unsplit_wide v ?r ?c"
      using F by (auto simp: put_spacer_def Let_def vt_cell_at_def)
    then show ?thesis using unsplit_wide_evolves [OF assms] F by simp
  qed
  then show "evolves v (put_spacer v)" "cur (put_spacer v) = cur v" by simp_all
qed

lemma put_advance_evolves [wf_keep]:
  assumes "screen_wf v" "0 < w" "w \<le> 2"
  shows "evolves v (put_advance v w)"
  using assms wf_bounds [OF assms(1)] unfolding put_advance_def Let_def
  by (auto intro!: evolves_cur simp: u16_id cursor_wf_def screen_wf_def)

lemma put_write_evolves [wf_keep]:
  assumes "screen_wf v" "0 < w" "w \<le> 2"
  shows "evolves v (put_write v cp w)"
proof -
  let ?r = "crow (cur v)" and ?c = "ccol (cur v)"
  have rc: "?r < rows v" "?c < cols v" using wf_bounds [OF assms(1)] by auto
  define u where "u = unsplit_wide v ?r ?c"
  note o = unsplit_wide_only_cells [OF wf_mem [OF assms(1)], of ?r ?c, folded u_def]
  note F = only_cells_fields [OF o]
  have su: "screen_wf u" and eu: "evolves v u"
    using unsplit_wide_evolves [OF assms(1)] evolves_wf by (auto simp: u_def)
  define m where "m = mark_row u ?r"
  have om: "only_cells u m" using wf_mem [OF su] by (simp add: m_def mark_row_only_cells)
  note FM = only_cells_fields [OF om]
  have em: "evolves v m" unfolding m_def by (intro keep_rules eu)
  have dm: "vt_row_dirty m ?r" using rc F by (simp add: m_def mark_row_dirty [OF wf_mem [OF su]])
  have rm: "?r < rows m" "?c < cols m" using rc F FM by simp_all
  define x where "x = \<lparr>ccp = cp, cfg = pfg (cpen (cur v)), cbg = pbg (cpen (cur v)),
      cattrs = pattrs (cpen (cur v)) OR (if w = 2 then VT_ATTR_WIDE else 0), ccomb = 0\<rparr>"
  define s where "s = (store m (Some (?r * cols m + ?c)) x)\<lparr>last_row := ?r, last_col := ?c, last_valid := True\<rparr>"
  have es: "evolves v s" unfolding s_def
    by (rule evolves_step [OF _ evolves_last(2)])
      (rule evolves_trans [OF em store_evolves [OF evolves_wf [OF em] rm dm]])
  have "put_write v cp w = put_advance (if w = 2 then put_spacer s else s) w"
    using rc F FM
    by (simp add: put_write_def Let_def vt_cell_at_in s_def m_def [symmetric] u_def [symmetric] x_def)
  moreover have "evolves v (if w = 2 then put_spacer s else s)"
    using es evolves_step [OF es put_spacer_evolves(1)] by simp
  ultimately show ?thesis
    using evolves_step [OF _ put_advance_evolves [OF _ assms(2,3)]] by simp
qed

lemma vt_screen_put_evolves [wf_keep]:
  assumes "screen_wf v" "w \<le> 2"
  shows "evolves v (vt_screen_put v cp w)"
proof (cases "0 < w")
  case True
  have e: "evolves v (put_wrap v)" using assms(1) by (rule put_wrap_evolves)
  show ?thesis
  proof (cases "put_fit (put_wrap v) w")
    case (Some u)
    then have u: "evolves v u" using e put_fit_evolves evolves_wf evolves_trans by blast
    have "evolves v (if mode_on u VT_MODE_IRM then vt_screen_insert_chars u w else u)"
      by (intro keep_intros u)
    from evolves_step [OF this put_write_evolves [OF _ True assms(2)]]
    show ?thesis using True Some by (simp add: vt_screen_put_def Let_def)
  qed (use True e in \<open>simp add: vt_screen_put_def\<close>)
qed (use assms in \<open>simp add: vt_screen_put_def attach_combining_evolves\<close>)

section \<open>Resizing\<close>

lemma if_less_min: "(if a < b then a else b) = min a (b::nat)"
  by auto

lemma resize_grid_eq:
  "resize_grid orows ocols nrows ncols old =
    foldl (\<lambda>nc r. overwrite nc (r * ncols) (take (min ncols ocols) (drop (r * ocols) old)))
      (replicate (nrows * ncols) zero_cell) [0..<min nrows orows]"
  by (simp only: resize_grid_def Let_def if_less_min)

lemma length_resize_grid:
  assumes "length old = orows * ocols"
  shows "length (resize_grid orows ocols nrows ncols old) = nrows * ncols"
proof -
  have "length (foldl (\<lambda>nc r. overwrite nc (r * ncols) (take (min ncols ocols) (drop (r * ocols) old)))
      (replicate (nrows * ncols) zero_cell) [0..<k]) = nrows * ncols" if "k \<le> nrows" for k
    using that
  proof (induction k)
    case (Suc k)
    then show ?case using row_end [of k nrows ncols] by (simp add: min_le_iff_disj)
  qed simp
  then show ?thesis by (simp add: resize_grid_eq)
qed

lemma resize_grid_nth:
  assumes "length old = orows * ocols" "r < nrows" "c < ncols"
  shows "resize_grid orows ocols nrows ncols old ! (r * ncols + c) =
    (if r < orows \<and> c < ocols then old ! (r * ocols + c) else zero_cell)"
proof -
  let ?f = "\<lambda>nc r. overwrite nc (r * ncols) (take (min ncols ocols) (drop (r * ocols) old))"
  have "length (foldl ?f (replicate (nrows * ncols) zero_cell) [0..<k]) = nrows * ncols \<and>
    foldl ?f (replicate (nrows * ncols) zero_cell) [0..<k] ! (r * ncols + c) =
      (if r < k \<and> c < ocols then old ! (r * ocols + c) else zero_cell)" if "k \<le> nrows" "k \<le> orows" for k
    using that
  proof (induction k)
    case 0
    then show ?case using idx_less [OF assms(2,3)] by simp
  next
    case (Suc k)
    let ?p = "foldl ?f (replicate (nrows * ncols) zero_cell) [0..<k]"
    let ?src = "take (min ncols ocols) (drop (k * ocols) old)"
    have IH: "length ?p = nrows * ncols" "?p ! (r * ncols + c) =
        (if r < k \<and> c < ocols then old ! (r * ocols + c) else zero_cell)" using Suc by auto
    have src: "length ?src = min ncols ocols"
    proof -
      have "ocols \<le> orows * ocols - k * ocols" using row_end [of k orows ocols] Suc.prems by simp
      then show ?thesis by (auto simp: assms(1) min_def)
    qed
    have fit: "k * ncols + length ?src \<le> length ?p"
      using row_end [of k nrows ncols] Suc.prems by (simp add: src IH)
    have i: "r * ncols + c < length ?p" using idx_less [OF assms(2,3)] by (simp add: IH)
    have "k * ncols \<le> r * ncols + c \<and> r * ncols + c < k * ncols + length ?src \<longleftrightarrow> r = k \<and> c < ocols"
      unfolding src using assms(3) row_end [of r k ncols] row_end [of k r ncols]
      by (cases r k rule: linorder_cases) auto
    then have e: "?f ?p k ! (r * ncols + c) =
        (if r = k \<and> c < ocols then ?src ! (r * ncols + c - k * ncols) else ?p ! (r * ncols + c))"
      unfolding nth_overwrite [OF fit i] by simp
    have "k * ocols + c < length old" if "c < ocols"
      using row_end [of k orows ocols] Suc.prems assms(1) that by simp
    then have "?f ?p k ! (r * ncols + c) =
        (if r < Suc k \<and> c < ocols then old ! (r * ocols + c) else zero_cell)"
      unfolding e IH(2) using assms(3) by (auto simp: less_Suc_eq)
    then show ?case using fit IH(1) by simp
  qed
  from this [of "min nrows orows"] assms(2) show ?thesis by (auto simp: resize_grid_eq)
qed

lemma clamp_dim_range: "0 < mx \<Longrightarrow> 0 < clamp_dim mx n \<and> clamp_dim mx n \<le> mx"
  by (auto simp: clamp_dim_def Let_def)

lemma clamp_cursor_wf:
  assumes "0 < r" "r \<le> 1000" "0 < c" "c \<le> 1000" "charset_idx k < 2" "length (charset_graphics k) = 2"
  shows "cursor_wf r c (clamp_cursor r c k)"
  using assms by (auto simp: clamp_cursor_def Let_def cursor_wf_def)

lemma vt_resize_screen_wf:
  assumes "screen_wf v" "a1 \<or> \<not> a0"
  shows "screen_wf (vt_resize_screen a0 a1 v nr nc)"
proof -
  let ?r = "clamp_dim VT_ROWS_MAX nr" and ?c = "clamp_dim VT_COLS_MAX nc"
  have d: "0 < ?r" "?r \<le> 1000" "0 < ?c" "?c \<le> 1000"
    using clamp_dim_range [of 1000] by auto
  have g: "length (grid v ! i) = rows v * cols v" if "i < 2" for i
    using assms(1) that by (simp add: screen_wf_def mem_ok_def list_all_length)
  have k: "cursor_wf ?r ?c (clamp_cursor ?r ?c k)" if "k = cur v \<or> k \<in> set (saved_cur v)" for k
    using that assms(1) by (intro clamp_cursor_wf d) (auto simp: screen_wf_def cursor_wf_def list_all_iff)
  let ?v = "(no_wrap (v\<lparr>grid := [resize_grid (rows v) (cols v) ?r ?c (grid v ! 0),
        resize_grid (rows v) (cols v) ?r ?c (grid v ! 1)], rows := ?r, cols := ?c,
      scroll_top := 0, scroll_bot := u16 (int ?r - 1), cur := clamp_cursor ?r ?c (cur v),
      saved_cur := map (clamp_cursor ?r ?c) (saved_cur v)\<rparr>))"
  have "screen_wf (reset_tabstops (mark_all (forget_last ?v)))"
    using assms(1) d g [of 0] g [of 1] k
    by (simp add: screen_wf_def mem_ok_def reset_tabstops_eq mark_all_def forget_last_def no_wrap_def
        length_resize_grid list_all_iff cursor_wf_def)
  moreover have "(grid v)[0 := x, 1 := y] = [x, y]" for x y
    using assms(1) by (auto simp: screen_wf_def mem_ok_def list_update_code length_Suc_conv numeral_2_eq_2)
  ultimately show ?thesis
    using assms by (auto simp: vt_resize_screen_def Let_def)
qed

end
