(* ===== verification/Utf8.thy ===== *)
theory Utf8
  imports Prelude
begin

text \<open>
  UTF-8 in both directions: the table-driven decoder of \<open>src/vt/vt_utf8.c\<close>, which the
  parser runs on every printable byte, and the encoder of \<open>src/vt/vt_render.c\<close> that the
  snapshot writer uses. A decoder state is the pair of the DFA state and the code point
  accumulated so far.
\<close>

section \<open>Model\<close>

definition utf8d :: "nat list" where
  "utf8d = [
    0, 0, 0, 0, 0, 0, 0, 0, 0, 0, 0, 0, 0, 0, 0, 0, 0, 0, 0, 0, 0, 0, 0, 0, 0, 0, 0, 0, 0, 0, 0, 0,
    0, 0, 0, 0, 0, 0, 0, 0, 0, 0, 0, 0, 0, 0, 0, 0, 0, 0, 0, 0, 0, 0, 0, 0, 0, 0, 0, 0, 0, 0, 0, 0,
    0, 0, 0, 0, 0, 0, 0, 0, 0, 0, 0, 0, 0, 0, 0, 0, 0, 0, 0, 0, 0, 0, 0, 0, 0, 0, 0, 0, 0, 0, 0, 0,
    0, 0, 0, 0, 0, 0, 0, 0, 0, 0, 0, 0, 0, 0, 0, 0, 0, 0, 0, 0, 0, 0, 0, 0, 0, 0, 0, 0, 0, 0, 0, 0,
    1, 1, 1, 1, 1, 1, 1, 1, 1, 1, 1, 1, 1, 1, 1, 1, 9, 9, 9, 9, 9, 9, 9, 9, 9, 9, 9, 9, 9, 9, 9, 9,
    7, 7, 7, 7, 7, 7, 7, 7, 7, 7, 7, 7, 7, 7, 7, 7, 7, 7, 7, 7, 7, 7, 7, 7, 7, 7, 7, 7, 7, 7, 7, 7,
    8, 8, 2, 2, 2, 2, 2, 2, 2, 2, 2, 2, 2, 2, 2, 2, 2, 2, 2, 2, 2, 2, 2, 2, 2, 2, 2, 2, 2, 2, 2, 2,
    10, 3, 3, 3, 3, 3, 3, 3, 3, 3, 3, 3, 3, 4, 3, 3, 11, 6, 6, 6, 5, 8, 8, 8, 8, 8, 8, 8, 8, 8, 8, 8,
    0, 12, 24, 36, 60, 96, 84, 12, 12, 12, 48, 72, 12, 12, 12, 12, 12, 12, 12, 12, 12, 12, 12, 12, 12, 0, 12, 12, 12, 12, 12, 0,
    12, 0, 12, 12, 12, 24, 12, 12, 12, 12, 12, 24, 12, 24, 12, 12, 12, 12, 12, 12, 12, 12, 12, 24, 12, 12, 12, 12, 12, 24, 12, 12,
    12, 12, 12, 12, 12, 24, 12, 12, 12, 12, 12, 12, 12, 12, 12, 36, 12, 36, 12, 12, 12, 36, 12, 12, 12, 12, 12, 36, 12, 36, 12, 12,
    12, 36, 12, 12, 12, 12, 12, 12, 12, 12, 12, 12
  ]"

abbreviation (input) UTF8_ACCEPT :: nat where "UTF8_ACCEPT \<equiv> 0"
abbreviation (input) UTF8_REJECT :: nat where "UTF8_REJECT \<equiv> 12"

definition vt_utf8_step :: "nat \<Rightarrow> u32 \<Rightarrow> byte \<Rightarrow> nat \<times> u32" where
  "vt_utf8_step state cp b =
    (let type = utf8d ! unat b;
         cp' = (if state \<noteq> UTF8_ACCEPT then (ucast b AND 0x3f) OR push_bit 6 cp
                else drop_bit type 0xff AND ucast b)
     in (utf8d ! (256 + state + type), cp'))"

definition emit_utf8 :: "u32 \<Rightarrow> byte list" where
  "emit_utf8 cp =
    (if cp < 0x80 then [ucast cp]
     else if cp < 0x800 then
       [ucast (0xc0 OR drop_bit 6 cp), ucast (0x80 OR (cp AND 0x3f))]
     else if cp < 0x10000 then
       [ucast (0xe0 OR drop_bit 12 cp), ucast (0x80 OR (drop_bit 6 cp AND 0x3f)),
        ucast (0x80 OR (cp AND 0x3f))]
     else
       [ucast (0xf0 OR drop_bit 18 cp), ucast (0x80 OR (drop_bit 12 cp AND 0x3f)),
        ucast (0x80 OR (drop_bit 6 cp AND 0x3f)), ucast (0x80 OR (cp AND 0x3f))])"

text \<open>Running the decoder over bytes, and the scalar values UTF-8 can carry.\<close>

fun utf8_run :: "nat \<times> u32 \<Rightarrow> byte list \<Rightarrow> nat \<times> u32" where
  "utf8_run s [] = s"
| "utf8_run s (b # bs) = utf8_run (vt_utf8_step (fst s) (snd s) b) bs"

definition is_scalar :: "u32 \<Rightarrow> bool" where
  "is_scalar cp \<longleftrightarrow> cp \<le> 0x10FFFF \<and> \<not> (0xD800 \<le> cp \<and> cp \<le> 0xDFFF)"

section \<open>The table, by byte ranges\<close>

definition utf8_class :: "nat \<Rightarrow> nat" where
  "utf8_class n =
    (if n < 0x80 then 0 else if n < 0x90 then 1 else if n < 0xa0 then 9 else if n < 0xc0 then 7
     else if n < 0xc2 then 8 else if n < 0xe0 then 2 else if n = 0xe0 then 10
     else if n = 0xed then 4 else if n < 0xf0 then 3 else if n = 0xf0 then 11
     else if n < 0xf4 then 6 else if n = 0xf4 then 5 else 8)"

lemma utf8d_classes: "take 256 utf8d = map utf8_class [0..<256]"
  by code_simp

lemma utf8d_class: "utf8d ! unat (b :: byte) = utf8_class (unat b)"
proof -
  have "utf8d ! unat b = take 256 utf8d ! unat b" by (simp add: unat_byte_less)
  also have "\<dots> = utf8_class (unat b)" by (simp add: utf8d_classes)
  finally show ?thesis .
qed

definition utf8_next_state :: "nat \<Rightarrow> nat \<Rightarrow> nat" where
  "utf8_next_state state type =
    (if state = 0 then
       (if type = 0 then 0 else if type = 2 then 24 else if type = 3 then 36 else if type = 4 then 60
        else if type = 5 then 96 else if type = 6 then 84 else if type = 10 then 48
        else if type = 11 then 72 else 12)
     else if state = 24 then (if type \<in> {1, 7, 9} then 0 else 12)
     else if state = 36 then (if type \<in> {1, 7, 9} then 24 else 12)
     else if state = 48 then (if type = 7 then 24 else 12)
     else if state = 60 then (if type \<in> {1, 9} then 24 else 12)
     else if state = 72 then (if type \<in> {7, 9} then 36 else 12)
     else if state = 84 then (if type \<in> {1, 7, 9} then 36 else 12)
     else if state = 96 then (if type = 1 then 36 else 12)
     else 12)"

definition utf8_states :: "nat list" where
  "utf8_states = [0, 12, 24, 36, 48, 60, 72, 84, 96]"

lemma utf8d_transitions:
  "list_all (\<lambda>s. list_all (\<lambda>t. utf8d ! (256 + s + t) = utf8_next_state s t) [0..<12]) utf8_states"
  by code_simp

lemma utf8d_transition:
  "s \<in> set utf8_states \<Longrightarrow> t < 12 \<Longrightarrow> utf8d ! (256 + s + t) = utf8_next_state s t"
  using utf8d_transitions by (simp add: list_all_iff)

lemma utf8_class_less: "utf8_class n < 12"
  by (simp add: utf8_class_def)

lemma utf8_step_state:
  "s \<in> set utf8_states \<Longrightarrow>
   fst (vt_utf8_step s cp b) = utf8_next_state s (utf8_class (unat b))"
  by (simp add: vt_utf8_step_def Let_def utf8d_class utf8d_transition utf8_class_less)

lemma utf8_step_states: "s \<in> set utf8_states \<Longrightarrow> fst (vt_utf8_step s cp b) \<in> set utf8_states"
  by (subst utf8_step_state) (auto simp: utf8_next_state_def utf8_states_def)

section \<open>Code points as numbers\<close>

lemma and_3f: "(w :: 'a::len word) AND 0x3f = take_bit 6 w"
  by (simp add: take_bit_eq_mask mask_eq_exp_minus_1)

lemma utf8_step_cont:
  assumes "s \<noteq> UTF8_ACCEPT" and "unat cp < 2 ^ 26"
  shows "unat (snd (vt_utf8_step s cp b)) = 64 * unat cp + unat b mod 64"
proof -
  have lo: "unat (ucast b AND (0x3f :: u32)) = unat b mod 64"
    by (simp add: and_3f unsigned_take_bit_eq unsigned_ucast_eq) (simp add: take_bit_eq_mod)
  have hi: "unat (push_bit 6 cp) = push_bit 6 (unat cp)"
    using assms(2) by (simp only: unsigned_push_bit_eq) (simp add: push_bit_eq_mult take_bit_nat_eq_self)
  show ?thesis
    using assms(1) or_push_bit_nat [of "unat b mod 64" 6 "unat cp"]
    by (simp add: vt_utf8_step_def Let_def unsigned_or_eq lo hi)
qed

lemma utf8_step_lead:
  "unat (snd (vt_utf8_step UTF8_ACCEPT cp b)) = unat b mod 2 ^ (8 - utf8_class (unat b))"
proof -
  have "drop_bit k (mask 8 :: u32) = mask (8 - k)" for k
    by (rule bit_word_eqI) (auto simp: bit_simps)
  then have m: "drop_bit k (0xff :: u32) = mask (8 - k)" for k
    by (simp add: mask_eq_exp_minus_1)
  show ?thesis
    by (simp add: vt_utf8_step_def Let_def utf8d_class m and.commute [of "mask _"]
        take_bit_eq_mask [symmetric] unsigned_take_bit_eq unsigned_ucast_eq)
      (simp add: take_bit_eq_mod min_def)
qed

lemma unat_tag:
  fixes x :: u32
  assumes "unat x < 2 ^ k" and "2 ^ k * c + 2 ^ k \<le> 256"
  shows "unat (ucast (of_nat (2 ^ k * c) OR x) :: byte) = 2 ^ k * c + unat x"
proof -
  have c: "unat (of_nat (2 ^ k * c) :: u32) = push_bit k c"
    using assms(2) by (subst unat_of_nat) (simp add: take_bit_nat_eq_self push_bit_eq_mult mult.commute)
  have "unat (of_nat (2 ^ k * c) OR x) = 2 ^ k * c + unat x"
    using or_push_bit_nat [OF assms(1), of c] by (simp only: unsigned_or_eq c or.commute [of "push_bit _ _"])
  then show ?thesis
    using assms by (simp add: unsigned_ucast_eq take_bit_nat_eq_self)
qed

lemma unat_and_3f [simp]: "unat ((y :: u32) AND 0x3f) = unat y mod 64"
  by (simp only: and_3f unsigned_take_bit_eq) (simp add: take_bit_eq_mod)

lemma unat_cont_byte: "unat (ucast (0x80 OR ((y :: u32) AND 0x3f)) :: byte) = 0x80 + unat y mod 64"
  using unat_tag [of "y AND 0x3f" 6 2] by simp

lemma emit_utf8_nat:
  "map unat (emit_utf8 cp) =
    (let n = unat cp in
     if n < 0x80 then [n]
     else if n < 0x800 then [0xc0 + n div 64, 0x80 + n mod 64]
     else if n < 0x10000 then [0xe0 + n div 4096, 0x80 + n div 64 mod 64, 0x80 + n mod 64]
     else if n < 0x200000 then
       [0xf0 + n div 262144, 0x80 + n div 4096 mod 64, 0x80 + n div 64 mod 64, 0x80 + n mod 64]
     else map unat (emit_utf8 cp))"
proof -
  have d: "unat (drop_bit k cp) = unat cp div 2 ^ k" for k
    by (simp only: unat_drop_bit_eq) (simp add: drop_bit_eq_div)
  note lt = word_less_nat_alt
  have "unat (ucast cp :: byte) = unat cp" if "unat cp < 0x80"
    using that by (simp add: unsigned_ucast_eq take_bit_nat_eq_self)
  moreover have "unat (ucast (0xc0 OR drop_bit 6 cp) :: byte) = 0xc0 + unat cp div 64" if "unat cp < 0x800"
    using that unat_tag [of "drop_bit 6 cp" 5 6] by (simp add: d less_mult_imp_div_less)
  moreover have "unat (ucast (0xe0 OR drop_bit 12 cp) :: byte) = 0xe0 + unat cp div 4096" if "unat cp < 0x10000"
    using that unat_tag [of "drop_bit 12 cp" 4 14] by (simp add: d less_mult_imp_div_less)
  moreover have "unat (ucast (0xf0 OR drop_bit 18 cp) :: byte) = 0xf0 + unat cp div 262144" if "unat cp < 0x200000"
    using that unat_tag [of "drop_bit 18 cp" 3 30] by (simp add: d less_mult_imp_div_less)
  ultimately show ?thesis
    using unat_cont_byte [of cp] unat_cont_byte [of "drop_bit 6 cp"] unat_cont_byte [of "drop_bit 12 cp"]
    by (simp add: emit_utf8_def Let_def lt d)
qed


section \<open>Decoding what was encoded\<close>

lemma utf8_run_nat:
  "utf8_run s [] = s"
  "utf8_run s (b # bs) = utf8_run (vt_utf8_step (fst s) (snd s) b) bs"
  by simp_all

lemma is_scalar_nat:
  "is_scalar cp \<longleftrightarrow> unat cp < 0x110000 \<and> \<not> (0xD800 \<le> unat cp \<and> unat cp < 0xE000)"
  by (auto simp: is_scalar_def word_le_nat_alt)

lemma utf8_class_cont:
  "0x80 \<le> n \<Longrightarrow> n < 0xc0 \<Longrightarrow> utf8_class n = (if n < 0x90 then 1 else if n < 0xa0 then 9 else 7)"
  by (simp add: utf8_class_def)

lemma utf8_states_mem [simp]:
  "0 \<in> set utf8_states" "24 \<in> set utf8_states" "36 \<in> set utf8_states" "48 \<in> set utf8_states"
  "60 \<in> set utf8_states" "72 \<in> set utf8_states" "84 \<in> set utf8_states" "96 \<in> set utf8_states"
  by (simp_all add: utf8_states_def)

text \<open>
  One continuation byte, in numbers: from a state that admits it, the state moves down the
  chain and six bits are appended. The states 48, 60, 72 and 96 are those after a lead byte
  whose second byte is restricted (overlong forms, surrogates, values past U+10FFFF).
\<close>

definition cont_target :: "nat \<Rightarrow> nat \<Rightarrow> nat option" where
  "cont_target s m =
    (if s = 24 then Some 0 else if s = 36 then Some 24 else if s = 84 then Some 36
     else if s = 48 \<and> 32 \<le> m then Some 24 else if s = 60 \<and> m < 32 then Some 24
     else if s = 72 \<and> 16 \<le> m then Some 36 else if s = 96 \<and> m < 16 then Some 36 else None)"

lemma utf8_step_cont_nat:
  assumes "cont_target s m = Some s'" and "unat b = 0x80 + m" and "m < 64" and "unat cp < 2 ^ 26"
  shows "fst (vt_utf8_step s cp b) = s'" and "unat (snd (vt_utf8_step s cp b)) = 64 * unat cp + m"
proof -
  have s: "s \<in> set utf8_states" "s \<noteq> UTF8_ACCEPT"
    using assms(1) by (auto simp: cont_target_def split: if_splits)
  show "fst (vt_utf8_step s cp b) = s'"
    using assms s by (subst utf8_step_state)
      (auto simp: utf8_next_state_def utf8_class_cont cont_target_def split: if_splits)
  show "unat (snd (vt_utf8_step s cp b)) = 64 * unat cp + m"
    using utf8_step_cont [OF s(2) assms(4), of b] assms(2,3) by (auto simp: mod_if)
qed

text \<open>The lead byte, in numbers.\<close>

lemma utf8_step_lead_nat:
  "unat b < 0x80 \<Longrightarrow> fst (vt_utf8_step 0 cp b) = 0 \<and> unat (snd (vt_utf8_step 0 cp b)) = unat b"
  "unat b = 0xc0 + q \<Longrightarrow> 2 \<le> q \<Longrightarrow> q < 32 \<Longrightarrow>
     fst (vt_utf8_step 0 cp b) = 24 \<and> unat (snd (vt_utf8_step 0 cp b)) = q"
  "unat b = 0xe0 + q \<Longrightarrow> q < 16 \<Longrightarrow>
     fst (vt_utf8_step 0 cp b) = (if q = 0 then 48 else if q = 13 then 60 else 36) \<and>
     unat (snd (vt_utf8_step 0 cp b)) = q"
  "unat b = 0xf0 + q \<Longrightarrow> q < 5 \<Longrightarrow>
     fst (vt_utf8_step 0 cp b) = (if q = 0 then 72 else if q = 4 then 96 else 84) \<and>
     unat (snd (vt_utf8_step 0 cp b)) = q"
  by (simp_all add: utf8_step_state utf8_step_lead utf8_next_state_def utf8_class_def mod_if)

lemma split_sextets3: "4096 * (n div 4096) + 64 * (n div 64 mod 64) + n mod 64 = (n::nat)"
proof -
  have "n div 64 div 64 = n div 4096" by (simp add: div_mult2_eq [symmetric])
  then show ?thesis
    using div_mult_mod_eq [of n 64] div_mult_mod_eq [of "n div 64" 64] by linarith
qed

lemma split_sextets4:
  "262144 * (n div 262144) + 4096 * (n div 4096 mod 64) + 64 * (n div 64 mod 64) + n mod 64 = (n::nat)"
proof -
  have "n div 4096 div 64 = n div 262144" by (simp add: div_mult2_eq [symmetric])
  then show ?thesis
    using split_sextets3 [of n] div_mult_mod_eq [of "n div 4096" 64] by linarith
qed

lemma utf8_decode_emit:
  assumes "is_scalar cp"
  shows "utf8_run (UTF8_ACCEPT, c0) (emit_utf8 cp) = (UTF8_ACCEPT, cp)"
proof -
  define n where "n = unat cp"
  have n: "n < 0x110000" "\<not> (0xD800 \<le> n \<and> n < 0xE000)"
    using assms by (auto simp: is_scalar_nat n_def)
  have fin: "utf8_run (0, c0) (emit_utf8 cp) = (0, cp)"
    if "fst (utf8_run (0, c0) (emit_utf8 cp)) = 0" "unat (snd (utf8_run (0, c0) (emit_utf8 cp))) = n"
    using that by (simp add: prod_eq_iff n_def word_unat_eq_iff)
  note em = emit_utf8_nat [of cp, folded n_def, unfolded Let_def]
  consider "n < 0x80" | "0x80 \<le> n" "n < 0x800" | "0x800 \<le> n" "n < 0x10000" | "0x10000 \<le> n"
    by linarith
  then show ?thesis
  proof cases
    case 1
    then obtain b where b: "emit_utf8 cp = [b]" "unat b = n" using em by auto
    show ?thesis using fin 1 b utf8_step_lead_nat(1) [of b c0] by simp
  next
    case 2
    then obtain b0 b1 where b: "emit_utf8 cp = [b0, b1]" "unat b0 = 0xc0 + n div 64" "unat b1 = 0x80 + n mod 64"
      using em by auto
    have l: "fst (vt_utf8_step 0 c0 b0) = 24" "unat (snd (vt_utf8_step 0 c0 b0)) = n div 64"
      using utf8_step_lead_nat(2) [OF b(2), of c0] 2 by auto
    note c = utf8_step_cont_nat [of 24 "n mod 64" 0 b1 "snd (vt_utf8_step 0 c0 b0)"]
    show ?thesis using fin b l c 2 by (simp add: cont_target_def)
  next
    case 3
    then obtain b0 b1 b2 where b: "emit_utf8 cp = [b0, b1, b2]" "unat b0 = 0xe0 + n div 4096"
      "unat b1 = 0x80 + n div 64 mod 64" "unat b2 = 0x80 + n mod 64"
      using em by auto
    define s1 where "s1 = (if n div 4096 = 0 then 48 else if n div 4096 = 13 then 60 else 36 :: nat)"
    have l: "fst (vt_utf8_step 0 c0 b0) = s1" "unat (snd (vt_utf8_step 0 c0 b0)) = n div 4096"
      using utf8_step_lead_nat(3) [OF b(2), of c0] 3 by (auto simp: s1_def)
    have "n div 4096 = 13 \<Longrightarrow> n < 0xD800 \<Longrightarrow> n div 64 mod 64 < 32"
    proof -
      assume q: "n div 4096 = 13" and "n < 0xD800"
      then have "n div 64 < 864" by (simp add: less_mult_imp_div_less)
      moreover have "n div 64 div 64 = 13" using q by (simp add: div_mult2_eq [symmetric])
      ultimately show ?thesis using div_mult_mod_eq [of "n div 64" 64] by linarith
    qed
    then have t: "cont_target s1 (n div 64 mod 64) = Some 24"
      using 3 n unfolding s1_def cont_target_def by auto
    note c1 = utf8_step_cont_nat [OF t b(3), of "snd (vt_utf8_step 0 c0 b0)"]
    note c2 = utf8_step_cont_nat [of 24 "n mod 64" 0 b2
      "snd (vt_utf8_step s1 (snd (vt_utf8_step 0 c0 b0)) b1)"]
    have "n div 4096 < 16" "n div 64 mod 64 < 64" using 3 by (simp_all add: less_mult_imp_div_less)
    moreover from this have "64 * (n div 4096) + n div 64 mod 64 < 67108864" by linarith
    ultimately show ?thesis using fin b l c1 c2 split_sextets3 [of n] by (simp add: cont_target_def)
  next
    case 4
    then obtain b0 b1 b2 b3 where b: "emit_utf8 cp = [b0, b1, b2, b3]" "unat b0 = 0xf0 + n div 262144"
      "unat b1 = 0x80 + n div 4096 mod 64" "unat b2 = 0x80 + n div 64 mod 64" "unat b3 = 0x80 + n mod 64"
      using em n by auto
    define s1 where "s1 = (if n div 262144 = 0 then 72 else if n div 262144 = 4 then 96 else 84 :: nat)"
    have l: "fst (vt_utf8_step 0 c0 b0) = s1" "unat (snd (vt_utf8_step 0 c0 b0)) = n div 262144"
      using utf8_step_lead_nat(4) [OF b(2), of c0] n by (auto simp: s1_def)
    have "n div 4096 < 272" using n by (simp add: less_mult_imp_div_less)
    moreover have "n div 4096 div 64 = n div 262144" by (simp add: div_mult2_eq [symmetric])
    ultimately have "n div 262144 = 4 \<Longrightarrow> n div 4096 mod 64 < 16"
      using div_mult_mod_eq [of "n div 4096" 64] by linarith
    then have t: "cont_target s1 (n div 4096 mod 64) = Some 36"
      using 4 n unfolding s1_def cont_target_def by auto
    define r0 where "r0 = snd (vt_utf8_step 0 c0 b0)"
    define r1 where "r1 = snd (vt_utf8_step s1 r0 b1)"
    define r2 where "r2 = snd (vt_utf8_step 36 r1 b2)"
    have q: "n div 262144 < 5" "n div 4096 mod 64 < 64" "n div 64 mod 64 < 64"
      using n by (simp_all add: less_mult_imp_div_less)
    have r0: "unat r0 = n div 262144" using l by (simp add: r0_def)
    have c1: "fst (vt_utf8_step s1 r0 b1) = 36" "unat r1 = 64 * (n div 262144) + n div 4096 mod 64"
      using utf8_step_cont_nat [OF t b(3), of r0] q r0 by (simp_all add: r1_def)
    have c2: "fst (vt_utf8_step 36 r1 b2) = 24"
      "unat r2 = 4096 * (n div 262144) + 64 * (n div 4096 mod 64) + n div 64 mod 64"
      using utf8_step_cont_nat [of 36 "n div 64 mod 64" 24 b2 r1] q b(4) c1(2)
      by (simp_all add: r2_def cont_target_def)
    have c3: "fst (vt_utf8_step 24 r2 b3) = 0" "unat (snd (vt_utf8_step 24 r2 b3)) = n"
      using utf8_step_cont_nat [of 24 "n mod 64" 0 b3 r2] q b(5) c2(2) split_sextets4 [of n]
      by (simp_all add: cont_target_def)
    show ?thesis
      by (rule fin) (simp_all add: b(1) l(1) c1(1) c2(1) c3 r0_def [symmetric] r1_def [symmetric]
          r2_def [symmetric])
  qed
qed

end
