(* ===== verification/Vt_Dispatch.thy ===== *)
theory Vt_Dispatch
  imports Vt_Safe Utf8
begin

unbundle bit_operations_syntax

text \<open>
  The parser half of \<open>struct vt\<close> and the dispatch functions of \<open>src/vt/vt_dispatch.c\<close>. A
  dispatch function reads the collected sequence from the parser record and changes only
  the screen, so its type is \<open>parser \<Rightarrow> screen \<Rightarrow> byte \<Rightarrow> screen\<close>. The fixed buffers \<open>osc\<close> and
  \<open>pending\<close> are lists of the bytes they hold; their capacities are the bounds in
  \<open>parser_wf\<close>. Bytes are written in hexadecimal, with the character beside them.
\<close>

section \<open>The parser record\<close>

datatype vt_state =
    ST_GROUND | ST_ESCAPE | ST_ESCAPE_INT | ST_CSI_ENTRY | ST_CSI_PARAM | ST_CSI_INT
  | ST_CSI_IGNORE | ST_OSC_STRING | ST_DCS_ENTRY | ST_DCS_PARAM | ST_DCS_INT | ST_DCS_PASS
  | ST_DCS_IGNORE | ST_SOSPMAPC | ST_MAX

abbreviation (input) "VT_PARAMS_MAX \<equiv> (16 :: nat)"
abbreviation (input) "VT_INTER_MAX \<equiv> (2 :: nat)"
abbreviation (input) "VT_OSC_MAX \<equiv> (4096 :: nat)"
abbreviation (input) "VT_PENDING_MAX \<equiv> VT_OSC_MAX + 64"

record parser =
  state :: vt_state
  params :: "u32 list"
  param_seen :: "bool list"
  nparams :: nat
  param_overflow :: bool
  inters :: "byte list"
  ninter :: nat
  priv :: byte
  osc :: "byte list"
  osc_overflow :: bool
  u8_state :: nat
  u8_cp :: u32
  pending :: "byte list"
  pending_lost :: bool

definition vt_param :: "parser \<Rightarrow> nat \<Rightarrow> int \<Rightarrow> int" where
  "vt_param p i dflt = (if i \<ge> nparams p \<or> \<not> param_seen p ! i then dflt else sint (params p ! i))"

section \<open>Printing and control characters\<close>

definition dec_graphics :: "u32 list" where
  "dec_graphics = [
    0x25C6, 0x2592, 0x2409, 0x240C, 0x240D, 0x240A, 0x00B0, 0x00B1,
    0x2424, 0x240B, 0x2518, 0x2510, 0x250C, 0x2514, 0x253C, 0x23BA,
    0x23BB, 0x2500, 0x23BC, 0x23BD, 0x251C, 0x2524, 0x2534, 0x252C,
    0x2502, 0x2264, 0x2265, 0x03C0, 0x2260, 0x00A3, 0x00B7]"

definition vt_do_print :: "screen \<Rightarrow> u32 \<Rightarrow> screen" where
  "vt_do_print v cp =
    (let cp = (if cp > 0x10FFFF \<or> (cp \<ge> 0xD800 \<and> cp \<le> 0xDFFF) then 0xFFFD else cp)
     in if cp \<ge> 0x80 \<and> cp \<le> 0x9F then v
        else
          let cp = (if charset_graphics (cur v) ! charset_idx (cur v) \<and> cp \<ge> 0x60 \<and> cp \<le> 0x7e
                    then dec_graphics ! unat (cp - 0x60) else cp)
          in vt_screen_put v cp (vt_wcwidth cp))"

definition vt_do_execute :: "screen \<Rightarrow> byte \<Rightarrow> screen" where
  "vt_do_execute v c0 =
    (if c0 = 0x07 then if on_bell (cb v) then emit_event v Bell else v
     else if c0 = 0x08 then vt_screen_backspace v
     else if c0 = 0x09 then vt_screen_tab v
     else if c0 = 0x0a \<or> c0 = 0x0b \<or> c0 = 0x0c then vt_screen_newline v
     else if c0 = 0x0d then vt_screen_carriage_return v
     else if c0 = 0x0e then v\<lparr>cur := (cur v)\<lparr>charset_idx := 1\<rparr>\<rparr>
     else if c0 = 0x0f then v\<lparr>cur := (cur v)\<lparr>charset_idx := 0\<rparr>\<rparr>
     else v)"

definition save_cursor :: "screen \<Rightarrow> screen" where
  "save_cursor v =
    v\<lparr>saved_cur := (saved_cur v)[active v := (cur v)\<lparr>corigin := mode_on v VT_MODE_DECOM\<rparr>]\<rparr>"

definition restore_cursor :: "screen \<Rightarrow> screen" where
  "restore_cursor v =
    (let v = v\<lparr>cur := saved_cur v ! active v\<rparr>;
         v = (if crow (cur v) \<ge> rows v then v\<lparr>cur := (cur v)\<lparr>crow := u16 (int (rows v) - 1)\<rparr>\<rparr> else v);
         v = (if ccol (cur v) \<ge> cols v then v\<lparr>cur := (cur v)\<lparr>ccol := u16 (int (cols v) - 1)\<rparr>\<rparr> else v);
         v = (if corigin (cur v) then v\<lparr>modes := modes v OR VT_MODE_DECOM\<rparr>
              else v\<lparr>modes := modes v AND NOT VT_MODE_DECOM\<rparr>)
     in no_wrap v)"

definition set_tabstop :: "screen \<Rightarrow> nat \<Rightarrow> screen" where
  "set_tabstop v c =
    (if c div 32 < length (tabstops v) then v\<lparr>tabstops := bm_set (tabstops v) c\<rparr> else v\<lparr>ub := True\<rparr>)"

definition clear_tabstop :: "screen \<Rightarrow> nat \<Rightarrow> screen" where
  "clear_tabstop v c =
    (if c div 32 < length (tabstops v) then v\<lparr>tabstops := bm_clear (tabstops v) c\<rparr> else v\<lparr>ub := True\<rparr>)"

definition vt_do_esc :: "parser \<Rightarrow> screen \<Rightarrow> byte \<Rightarrow> screen" where
  "vt_do_esc p v final =
    (if ninter p = 1 then
       let i0 = inters p ! 0
       in if i0 = 0x28 \<comment> \<open>lparen\<close> \<or> i0 = 0x29 \<comment> \<open>rparen\<close> then
            v\<lparr>cur := (cur v)\<lparr>charset_graphics :=
              (charset_graphics (cur v))[(if i0 = 0x28 then 0 else 1) := (final = 0x30)]\<rparr>\<rparr>
          else if i0 = 0x23 \<comment> \<open>#\<close> \<and> final = 0x38 \<comment> \<open>8\<close> then vt_screen_align_test v
          else v
     else if ninter p \<noteq> 0 then v
     else if final = 0x37 \<comment> \<open>7\<close> then save_cursor v
     else if final = 0x38 \<comment> \<open>8\<close> then restore_cursor v
     else if final = 0x44 \<comment> \<open>D\<close> then vt_screen_newline v
     else if final = 0x45 \<comment> \<open>E\<close> then vt_screen_newline (vt_screen_carriage_return v)
     else if final = 0x4d \<comment> \<open>M\<close> then vt_screen_reverse_index v
     else if final = 0x48 \<comment> \<open>H\<close> then set_tabstop v (ccol (cur v))
     else if final = 0x63 \<comment> \<open>c\<close> then vt_screen_reset v
     else v)"

section \<open>Graphic rendition\<close>

definition sgr_one :: "int \<Rightarrow> vt_pen \<Rightarrow> vt_pen" where
  "sgr_one q pen =
    (let on = (\<lambda>a. pen\<lparr>pattrs := pattrs pen OR a\<rparr>); off = (\<lambda>a. pen\<lparr>pattrs := pattrs pen AND NOT a\<rparr>)
     in if q = 0 then default_pen
        else if q = 1 then on VT_ATTR_BOLD
        else if q = 2 then on VT_ATTR_DIM
        else if q = 3 then on VT_ATTR_ITALIC
        else if q = 4 then on VT_ATTR_UNDERLINE
        else if q = 5 \<or> q = 6 then on VT_ATTR_BLINK
        else if q = 7 then on VT_ATTR_REVERSE
        else if q = 8 then on VT_ATTR_INVISIBLE
        else if q = 9 then on VT_ATTR_STRIKE
        else if q = 21 \<or> q = 22 then off (VT_ATTR_BOLD OR VT_ATTR_DIM)
        else if q = 23 then off VT_ATTR_ITALIC
        else if q = 24 then off VT_ATTR_UNDERLINE
        else if q = 25 then off VT_ATTR_BLINK
        else if q = 27 then off VT_ATTR_REVERSE
        else if q = 28 then off VT_ATTR_INVISIBLE
        else if q = 29 then off VT_ATTR_STRIKE
        else if q = 39 then pen\<lparr>pfg := VT_COLOR_DEFAULT\<rparr>
        else if q = 49 then pen\<lparr>pbg := VT_COLOR_DEFAULT\<rparr>
        else if 30 \<le> q \<and> q \<le> 37 then pen\<lparr>pfg := VT_COLOR_IDX (word_of_int (q - 30))\<rparr>
        else if 40 \<le> q \<and> q \<le> 47 then pen\<lparr>pbg := VT_COLOR_IDX (word_of_int (q - 40))\<rparr>
        else if 90 \<le> q \<and> q \<le> 97 then pen\<lparr>pfg := VT_COLOR_IDX (word_of_int (q - 90 + 8))\<rparr>
        else if 100 \<le> q \<and> q \<le> 107 then pen\<lparr>pbg := VT_COLOR_IDX (word_of_int (q - 100 + 8))\<rparr>
        else pen)"

definition sgr_color :: "int \<Rightarrow> u32 \<Rightarrow> vt_pen \<Rightarrow> vt_pen" where
  "sgr_color q c pen = (if q = 38 then pen\<lparr>pfg := c\<rparr> else pen\<lparr>pbg := c\<rparr>)"

function sgr_loop :: "parser \<Rightarrow> nat \<Rightarrow> vt_pen \<Rightarrow> vt_pen" where
  "sgr_loop p i pen =
    (if i < nparams p then
       let q = vt_param p i 0
       in if q = 38 \<or> q = 48 then
            let kind = vt_param p (i + 1) (- 1)
            in if kind = 5 \<and> i + 2 < nparams p then
                 sgr_loop p (i + 3)
                   (sgr_color q (VT_COLOR_IDX (word_of_int (vt_param p (i + 2) 0) AND 0xff)) pen)
               else if kind = 2 \<and> i + 4 < nparams p then
                 let r = word_of_int (vt_param p (i + 2) 0) AND 0xff;
                     g = word_of_int (vt_param p (i + 3) 0) AND 0xff;
                     b = word_of_int (vt_param p (i + 4) 0) AND 0xff
                 in sgr_loop p (i + 5)
                      (sgr_color q (VT_COLOR_RGB (push_bit 16 r OR push_bit 8 g OR b)) pen)
               else pen
          else sgr_loop p (i + 1) (sgr_one q pen)
     else pen)"
  by pat_completeness auto
termination by (relation "measure (\<lambda>(p, i, pen). nparams p - i)") auto

declare sgr_loop.simps [simp del]

definition do_sgr :: "parser \<Rightarrow> screen \<Rightarrow> screen" where
  "do_sgr p v =
    (if nparams p = 0 then v\<lparr>cur := (cur v)\<lparr>cpen := default_pen\<rparr>\<rparr>
     else v\<lparr>cur := (cur v)\<lparr>cpen := sgr_loop p 0 (cpen (cur v))\<rparr>\<rparr>)"

section \<open>Modes\<close>

definition set_mode_bit :: "screen \<Rightarrow> u32 \<Rightarrow> bool \<Rightarrow> screen" where
  "set_mode_bit v m on =
    (if on then v\<lparr>modes := modes v OR m\<rparr> else v\<lparr>modes := modes v AND NOT m\<rparr>)"

definition decset_one :: "screen \<Rightarrow> int \<Rightarrow> bool \<Rightarrow> screen" where
  "decset_one v q on =
    (if q = 1 then set_mode_bit v VT_MODE_DECCKM on
     else if q = 6 then vt_screen_move_cursor (set_mode_bit v VT_MODE_DECOM on) 0 0
     else if q = 7 then set_mode_bit v VT_MODE_DECAWM on
     else if q = 25 then set_mode_bit v VT_MODE_DECTCEM on
     else if q = 47 then vt_screen_switch_alt v on False False
     else if q = 1000 then set_mode_bit v VT_MODE_MOUSE_X10 on
     else if q = 1002 then set_mode_bit v VT_MODE_MOUSE_BTN on
     else if q = 1003 then set_mode_bit v VT_MODE_MOUSE_ANY on
     else if q = 1004 then set_mode_bit v VT_MODE_FOCUS on
     else if q = 1005 then set_mode_bit v VT_MODE_MOUSE_UTF8 on
     else if q = 1006 then set_mode_bit v VT_MODE_MOUSE_SGR on
     else if q = 1047 then vt_screen_switch_alt v on False on
     else if q = 1048 then if on then save_cursor v else restore_cursor v
     else if q = 1049 then
       if on then vt_screen_switch_alt (save_cursor v) True False True
       else restore_cursor (vt_screen_switch_alt v False False False)
     else if q = 2004 then set_mode_bit v VT_MODE_PASTE on
     else v)"

definition do_decset :: "parser \<Rightarrow> screen \<Rightarrow> bool \<Rightarrow> screen" where
  "do_decset p v on = foldl (\<lambda>v i. decset_one v (vt_param p i 0) on) v [0..<nparams p]"

definition do_sm_rm :: "parser \<Rightarrow> screen \<Rightarrow> bool \<Rightarrow> screen" where
  "do_sm_rm p v on =
    foldl (\<lambda>v i. if vt_param p i 0 = 4 then set_mode_bit v VT_MODE_IRM on else v) v [0..<nparams p]"

section \<open>Responses\<close>

definition respond :: "screen \<Rightarrow> byte list \<Rightarrow> screen" where
  "respond v s = (if on_response (cb v) then emit_event v (Response s) else v)"

text \<open>The conversion \<open>%d\<close> of \<open>snprintf\<close>.\<close>

fun dec_digits :: "nat \<Rightarrow> byte list" where
  "dec_digits n = (if n < 10 then [0x30 + of_nat n] else dec_digits (n div 10) @ [0x30 + of_nat (n mod 10)])"

declare dec_digits.simps [simp del]

definition dec_int :: "int \<Rightarrow> byte list" where
  "dec_int x = (if x < 0 then 0x2d # dec_digits (nat (- x)) else dec_digits (nat x))"

text \<open>
  A response formatted into \<open>char buf[32]\<close> and sent with the length \<open>snprintf\<close> returns,
  which is past the end of the buffer when the text does not fit.
\<close>

definition respond_fmt :: "screen \<Rightarrow> byte list \<Rightarrow> screen" where
  "respond_fmt v s = (if length s < 32 then respond v s else v\<lparr>ub := True\<rparr>)"

definition do_dsr :: "parser \<Rightarrow> screen \<Rightarrow> screen" where
  "do_dsr p v =
    (let q = vt_param p 0 0
     in if q = 5 then respond v [0x1b, 0x5b, 0x30, 0x6e]
        else if q = 6 then
          let row = int (crow (cur v)) + 1; col = int (ccol (cur v)) + 1;
              row = (if mode_on v VT_MODE_DECOM then row - int (scroll_top v) else row)
          in respond_fmt v ([0x1b, 0x5b] @ dec_int row @ [0x3b] @ dec_int col @ [0x52])
        else v)"

definition decrqm_bit :: "int \<Rightarrow> u32 option" where
  "decrqm_bit ps =
    (if ps = 1 then Some VT_MODE_DECCKM
     else if ps = 6 then Some VT_MODE_DECOM
     else if ps = 7 then Some VT_MODE_DECAWM
     else if ps = 25 then Some VT_MODE_DECTCEM
     else if ps = 47 \<or> ps = 1047 \<or> ps = 1049 then Some VT_MODE_ALTSCREEN
     else if ps = 1000 then Some VT_MODE_MOUSE_X10
     else if ps = 1002 then Some VT_MODE_MOUSE_BTN
     else if ps = 1003 then Some VT_MODE_MOUSE_ANY
     else if ps = 1004 then Some VT_MODE_FOCUS
     else if ps = 1006 then Some VT_MODE_MOUSE_SGR
     else if ps = 2004 then Some VT_MODE_PASTE
     else None)"

definition do_decrqm :: "parser \<Rightarrow> screen \<Rightarrow> screen" where
  "do_decrqm p v =
    (let ps = vt_param p 0 0
     in case decrqm_bit ps of
          None \<Rightarrow> respond_fmt v ([0x1b, 0x5b, 0x3f] @ dec_int ps @ [0x3b, 0x30, 0x24, 0x79])
        | Some m \<Rightarrow> respond_fmt v ([0x1b, 0x5b, 0x3f] @ dec_int ps @ [0x3b] @
            dec_int (if mode_on v m then 1 else 2) @ [0x24, 0x79]))"

section \<open>Control sequences\<close>

fun rep_loop :: "nat \<Rightarrow> u32 \<Rightarrow> u32 \<Rightarrow> int \<Rightarrow> screen \<Rightarrow> screen" where
  "rep_loop 0 cp mark w v = v"
| "rep_loop (Suc n) cp mark w v =
    (let v = vt_screen_put v cp w;
         v = (if mark \<noteq> 0 then vt_screen_put v mark 0 else v)
     in rep_loop n cp mark w v)"

definition do_rep :: "screen \<Rightarrow> int \<Rightarrow> screen" where
  "do_rep v n =
    (let n = (if n > int VT_COLS_MAX then int VT_COLS_MAX else n);
         col = (if ccol (cur v) \<noteq> 0 then u16 (int (ccol (cur v)) - 1) else 0)
     in case vt_cell_at v (crow (cur v)) col of
          None \<Rightarrow> v
        | Some i \<Rightarrow>
            let v = load v i; prev = cells v ! i
            in if ccp prev \<noteq> 0
               then rep_loop (nat n) (ccp prev) (ucast (ccomb prev)) (vt_wcwidth (ccp prev)) v
               else v)"

text \<open>The sequences without a private marker or intermediate bytes.\<close>

definition vt_do_csi_plain :: "parser \<Rightarrow> screen \<Rightarrow> byte \<Rightarrow> screen" where
  "vt_do_csi_plain p v final =
    (let p0 = vt_param p 0 1;
         n = (if p0 \<noteq> 0 then p0 else 1);
         row = int (crow (cur v)) - (if mode_on v VT_MODE_DECOM then int (scroll_top v) else 0);
         col = int (ccol (cur v))
     in if final = 0x41 \<comment> \<open>A\<close> then vt_screen_move_cursor v (row - n) col
        else if final = 0x42 \<comment> \<open>B\<close> then vt_screen_move_cursor v (row + n) col
        else if final = 0x43 \<comment> \<open>C\<close> then vt_screen_move_cursor v row (col + n)
        else if final = 0x44 \<comment> \<open>D\<close> then vt_screen_move_cursor v row (col - n)
        else if final = 0x45 \<comment> \<open>E\<close> then vt_screen_move_cursor v (row + n) 0
        else if final = 0x46 \<comment> \<open>F\<close> then vt_screen_move_cursor v (row - n) 0
        else if final = 0x47 \<comment> \<open>G\<close> then vt_screen_move_cursor v row (n - 1)
        else if final = 0x48 \<comment> \<open>H\<close> \<or> final = 0x66 \<comment> \<open>f\<close> then
          vt_screen_move_cursor v (vt_param p 0 1 - 1) (vt_param p 1 1 - 1)
        else if final = 0x64 \<comment> \<open>d\<close> then vt_screen_move_cursor v (n - 1) col
        else if final = 0x4a \<comment> \<open>J\<close> then vt_screen_erase_display v (vt_param p 0 0)
        else if final = 0x4b \<comment> \<open>K\<close> then vt_screen_erase_line v (vt_param p 0 0)
        else if final = 0x4c \<comment> \<open>L\<close> then vt_screen_insert_lines v n
        else if final = 0x4d \<comment> \<open>M\<close> then vt_screen_delete_lines v n
        else if final = 0x40 \<comment> \<open>@\<close> then vt_screen_insert_chars v n
        else if final = 0x50 \<comment> \<open>P\<close> then vt_screen_delete_chars v n
        else if final = 0x58 \<comment> \<open>X\<close> then vt_screen_erase_chars v n
        else if final = 0x53 \<comment> \<open>S\<close> then vt_screen_scroll_up v n
        else if final = 0x54 \<comment> \<open>T\<close> then vt_screen_scroll_down v n
        else if final = 0x62 \<comment> \<open>b\<close> then do_rep v n
        else if final = 0x67 \<comment> \<open>g\<close> then
          if vt_param p 0 0 = 3 then v\<lparr>tabstops := replicate VT_TABSTOP_WORDS 0\<rparr>
          else clear_tabstop v (ccol (cur v))
        else if final = 0x68 \<comment> \<open>h\<close> then do_sm_rm p v True
        else if final = 0x6c \<comment> \<open>l\<close> then do_sm_rm p v False
        else if final = 0x6d \<comment> \<open>m\<close> then do_sgr p v
        else if final = 0x6e \<comment> \<open>n\<close> then do_dsr p v
        else if final = 0x72 \<comment> \<open>r\<close> then vt_screen_set_scroll_region v (vt_param p 0 0) (vt_param p 1 0)
        else if final = 0x63 \<comment> \<open>c\<close> then
          respond v [0x1b, 0x5b, 0x3f, 0x36, 0x32, 0x3b, 0x32, 0x32, 0x63]
        else if final = 0x73 \<comment> \<open>s\<close> then save_cursor v
        else if final = 0x75 \<comment> \<open>u\<close> then restore_cursor v
        else v)"

definition vt_do_csi :: "parser \<Rightarrow> screen \<Rightarrow> byte \<Rightarrow> screen" where
  "vt_do_csi p v final =
    (if ninter p > VT_INTER_MAX then v
     else if priv p = 0x3f \<comment> \<open>?\<close> then
       if final = 0x68 \<comment> \<open>h\<close> then do_decset p v True
       else if final = 0x6c \<comment> \<open>l\<close> then do_decset p v False
       else if final = 0x70 \<comment> \<open>p\<close> \<and> ninter p = 1 \<and> inters p ! 0 = 0x24 \<comment> \<open>$\<close> then do_decrqm p v
       else v
     else if priv p = 0x3e \<comment> \<open>>\<close> then
       if final = 0x63 \<comment> \<open>c\<close> then
         respond v [0x1b, 0x5b, 0x3e, 0x31, 0x3b, 0x31, 0x30, 0x3b, 0x30, 0x63]
       else v
     else if priv p \<noteq> 0 then v
     else if ninter p \<noteq> 0 then v
     else vt_do_csi_plain p v final)"

section \<open>Operating system commands\<close>

fun osc_number :: "int \<Rightarrow> byte list \<Rightarrow> int option" where
  "osc_number ps [] = Some ps"
| "osc_number ps (c # cs) =
    (if c = 0 then Some ps
     else if c < 0x30 \<or> c > 0x39 then None
     else osc_number (if ps > 999 then 9999 else ps * 10 + (uint c - 0x30)) cs)"

definition osc_passthrough :: "parser \<Rightarrow> screen \<Rightarrow> screen" where
  "osc_passthrough p v =
    (if on_passthrough (cb v) \<and> \<not> osc_overflow p
     then emit_event v (Passthrough ([0x1b, 0x5d] @ osc p @ [0x07])) else v)"

definition vt_do_osc :: "parser \<Rightarrow> screen \<Rightarrow> screen" where
  "vt_do_osc p v =
    (if 0x3b \<comment> \<open>;\<close> \<notin> set (osc p) then v
     else
       let ps_text = takeWhile (\<lambda>c. c \<noteq> 0x3b) (osc p);
           pt = tl (dropWhile (\<lambda>c. c \<noteq> 0x3b) (osc p))
       in case osc_number 0 ps_text of
            None \<Rightarrow> v
          | Some ps \<Rightarrow>
              if ps = 0 \<or> ps = 2 then
                osc_passthrough p (if on_title (cb v) then emit_event v (Title pt) else v)
              else if ps = 52 then osc_passthrough p v
              else v)"

section \<open>The dispatch functions keep the screen well formed\<close>

definition param_bound :: "parser \<Rightarrow> bool" where
  "param_bound p \<longleftrightarrow> list_all (\<lambda>w. w \<le> 9999999) (params p) \<and> nparams p \<le> length (params p)"

lemma list_all_update: "list_all P xs \<Longrightarrow> P x \<Longrightarrow> list_all P (xs[i := x])"
  using set_update_subset_insert [of xs i x] by (auto simp: list_all_iff)

lemma graphics_cp: "cp \<ge> 0x60 \<Longrightarrow> cp \<le> 0x7e \<Longrightarrow> unat (cp - 0x60 :: u32) < length dec_graphics"
  by (simp add: dec_graphics_def unat_sub word_le_nat_alt)

lemma vt_wcwidth_le: "vt_wcwidth cp \<le> 2"
  using vt_wcwidth_range [of cp] by auto

lemma vt_do_print_evolves [wf_keep]: "screen_wf v \<Longrightarrow> evolves v (vt_do_print v cp)"
  by (simp add: vt_do_print_def Let_def vt_screen_put_evolves vt_wcwidth_le)

lemma emit_event_evolves [wf_keep]: "screen_wf v \<Longrightarrow> evolves v (emit_event v e)"
  by (simp add: emit_event_def evolves_out)

lemma vt_do_execute_evolves [wf_keep]: "screen_wf v \<Longrightarrow> evolves v (vt_do_execute v b)"
  by (auto simp: vt_do_execute_def wf_keep cursor_wf_def wf_bounds intro!: evolves_cur)

lemma save_cursor_evolves [wf_keep]: "screen_wf v \<Longrightarrow> evolves v (save_cursor v)"
  unfolding save_cursor_def
  by (rule evolves_saved) (auto simp: screen_wf_def cursor_wf_def intro!: list_all_update)

lemma other_bit_or: "b AND VT_MODE_ALTSCREEN = 0 \<Longrightarrow> (m OR b) AND VT_MODE_ALTSCREEN = m AND VT_MODE_ALTSCREEN"
  by (simp add: bit.conj_disj_distrib2)

lemma other_bit_and: "b AND VT_MODE_ALTSCREEN = 0 \<Longrightarrow> (m AND NOT b) AND VT_MODE_ALTSCREEN = m AND VT_MODE_ALTSCREEN"
  by (rule bit_word_eqI) (auto simp: bit_simps bit_eq_iff)

lemma set_mode_bit_evolves:
  "screen_wf v \<Longrightarrow> b AND VT_MODE_ALTSCREEN = 0 \<Longrightarrow> evolves v (set_mode_bit v b on)"
  by (auto simp: set_mode_bit_def intro!: evolves_modes other_bit_or other_bit_and)

lemma restore_cursor_evolves [wf_keep]:
  assumes "screen_wf v"
  shows "evolves v (restore_cursor v)"
proof -
  let ?k = "saved_cur v ! active v"
  have k: "cursor_wf (rows v) (cols v) ?k"
    using assms by (simp add: screen_wf_def list_all_length mem_ok_def)
  have e: "restore_cursor v = no_wrap (set_mode_bit (v\<lparr>cur := ?k\<rparr>) VT_MODE_DECOM (corigin ?k))"
    using k by (simp add: restore_cursor_def Let_def cursor_wf_def set_mode_bit_def)
  show ?thesis
    unfolding e
    by (rule evolves_step [OF evolves_step [OF evolves_cur [OF assms k] set_mode_bit_evolves] no_wrap_evolves])
      simp_all
qed

lemma vt_do_esc_evolves [wf_keep]:
  assumes "screen_wf v" shows "evolves v (vt_do_esc p v b)"
proof -
  have g: "evolves v (v\<lparr>cur := (cur v)\<lparr>charset_graphics := (charset_graphics (cur v))[i := x]\<rparr>\<rparr>)" for i x
    using assms by (intro evolves_cur) (auto simp: screen_wf_def cursor_wf_def)
  have t: "evolves v (set_tabstop v (ccol (cur v)))"
    using assms wf_bounds [OF assms] by (auto simp: set_tabstop_def intro!: evolves_tabs)
  have n: "evolves v (vt_screen_newline (vt_screen_carriage_return v))" by (intro keep_rules) (simp add: assms)
  show ?thesis
    using assms g t n by (simp add: vt_do_esc_def wf_keep Let_def vt_screen_align_test_props)
qed

lemma do_sgr_evolves [wf_keep]:
  assumes "screen_wf v" shows "evolves v (do_sgr p v)"
proof -
  have "evolves v (v\<lparr>cur := (cur v)\<lparr>cpen := q\<rparr>\<rparr>)" for q
    using assms by (intro evolves_cur) (auto simp: screen_wf_def cursor_wf_def)
  then show ?thesis by (simp add: do_sgr_def)
qed

lemma decset_one_evolves [wf_keep]:
  assumes "screen_wf v" shows "evolves v (decset_one v q on)"
proof -
  note m = set_mode_bit_evolves [OF assms]
  have a: "evolves v (vt_screen_move_cursor (set_mode_bit v VT_MODE_DECOM on) 0 0)"
    by (intro keep_rules m) simp
  have b: "evolves v (vt_screen_switch_alt (save_cursor v) x y z)" for x y z
    using evolves_step [OF save_cursor_evolves [OF assms] vt_screen_switch_alt_evolves] .
  have c: "evolves v (restore_cursor (vt_screen_switch_alt v x y z))" for x y z
    using evolves_step [OF vt_screen_switch_alt_evolves [OF assms] restore_cursor_evolves] .
  show ?thesis using assms m a b c by (simp add: decset_one_def wf_keep)
qed

lemma do_decset_evolves [wf_keep]: "screen_wf v \<Longrightarrow> evolves v (do_decset p v on)"
  unfolding do_decset_def by (rule evolves_foldl) (auto intro: decset_one_evolves)

lemma do_sm_rm_evolves [wf_keep]: "screen_wf v \<Longrightarrow> evolves v (do_sm_rm p v on)"
  unfolding do_sm_rm_def by (rule evolves_foldl) (auto intro!: set_mode_bit_evolves)

lemma respond_evolves [wf_keep]: "screen_wf v \<Longrightarrow> evolves v (respond v s)"
  by (simp add: respond_def emit_event_evolves)

lemma length_dec_digits: "n < 10 ^ k \<Longrightarrow> 0 < k \<Longrightarrow> length (dec_digits n) \<le> k"
proof (induction k arbitrary: n)
  case (Suc k)
  show ?case
  proof (cases "n < 10")
    case False
    with Suc.prems have "n div 10 < 10 ^ k" "0 < k"
      by (simp_all add: less_mult_imp_div_less mult.commute) (cases k, simp_all)
    with Suc.IH have "length (dec_digits (n div 10)) \<le> k" by blast
    then show ?thesis using False by (subst dec_digits.simps) simp
  qed (subst dec_digits.simps, simp)
qed simp

lemma length_dec_int: "\<bar>x\<bar> < 10 ^ k \<Longrightarrow> 0 < k \<Longrightarrow> length (dec_int x) \<le> Suc k"
proof -
  assume k: "\<bar>x\<bar> < 10 ^ k" "0 < k"
  then have "nat x < 10 ^ k" "nat (- x) < 10 ^ k" by (auto simp: nat_less_iff)
  with length_dec_digits [OF _ k(2)] show ?thesis by (auto simp: dec_int_def le_SucI)
qed

lemma respond_fmt_evolves: "screen_wf v \<Longrightarrow> length s < 32 \<Longrightarrow> evolves v (respond_fmt v s)"
  by (simp add: respond_fmt_def respond_evolves)

lemma do_dsr_evolves [wf_keep]:
  assumes "screen_wf v" shows "evolves v (do_dsr p v)"
proof -
  note B = wf_bounds [OF assms]
  have "length (dec_int (int (crow (cur v)) + 1)) \<le> 5" "length (dec_int (int (ccol (cur v)) + 1)) \<le> 5"
    "length (dec_int (int (crow (cur v)) + 1 - int (scroll_top v))) \<le> 5"
    using B length_dec_int [of _ 4] by auto
  then show ?thesis
    using assms by (auto simp: do_dsr_def Let_def respond_evolves intro!: respond_fmt_evolves)
qed

text \<open>The parameters of a sequence, read through \<open>vt_param\<close>, are small whatever the input.\<close>

lemma sint_small: "w \<le> (9999999 :: u32) \<Longrightarrow> 0 \<le> sint w \<and> sint w \<le> 9999999"
proof -
  assume w: "w \<le> 9999999"
  then have u: "uint w \<le> 9999999" by (simp add: word_le_def)
  then have "sint w = uint w" using signed_take_bit_int_eq_self [of 31 "uint w"] uint_ge_0 [of w]
    by (auto simp: sint_uint)
  with u show ?thesis by simp
qed

lemma vt_param_range:
  assumes "param_bound p" "- 1 \<le> d" "d \<le> 9999999"
  shows "- 1 \<le> vt_param p i d \<and> vt_param p i d \<le> 9999999"
    and "0 \<le> d \<Longrightarrow> 0 \<le> vt_param p i d"
  using assms sint_small [of "params p ! i"]
  by (auto simp: vt_param_def param_bound_def list_all_length)

lemma do_decrqm_evolves [wf_keep]:
  assumes "screen_wf v" "param_bound p" shows "evolves v (do_decrqm p v)"
proof -
  have "length (dec_int (vt_param p 0 0)) \<le> 9"
    using vt_param_range(1) [OF assms(2), of 0 0] length_dec_int [of "vt_param p 0 0" 8]
    by (simp add: abs_less_iff)
  moreover have "length (dec_int 1) = 1" "length (dec_int 2) = 1"
    by (simp_all add: dec_int_def dec_digits.simps)
  ultimately show ?thesis
    using assms(1) by (auto simp: do_decrqm_def Let_def intro!: respond_fmt_evolves split: option.splits)
qed

lemma rep_loop_evolves:
  "screen_wf v \<Longrightarrow> w \<le> 2 \<Longrightarrow> evolves v (rep_loop n cp mark w v)"
proof (induction n arbitrary: v)
  case (Suc n)
  define u where "u = vt_screen_put v cp w"
  define x where "x = (if mark \<noteq> 0 then vt_screen_put u mark 0 else u)"
  have u: "evolves v u" using Suc.prems by (simp add: u_def vt_screen_put_evolves)
  have "evolves v x" unfolding x_def
    by (intro evolves_if u evolves_step [OF u vt_screen_put_evolves]) simp_all
  then have "evolves v (rep_loop n cp mark w x)" by (rule evolves_step) (rule Suc.IH [OF _ Suc.prems(2)])
  then show ?case
    unfolding rep_loop.simps Let_def u_def [symmetric] x_def [symmetric] .
qed simp

lemma do_rep_evolves [wf_keep]:
  assumes "screen_wf v" shows "evolves v (do_rep v n)"
proof -
  let ?c = "if ccol (cur v) \<noteq> 0 then u16 (int (ccol (cur v)) - 1) else 0"
  have rc: "crow (cur v) < rows v" "?c < cols v" using wf_bounds [OF assms] by auto
  show ?thesis
    unfolding do_rep_def Let_def vt_cell_at_in [OF rc] option.case
      load_ok [OF mem_ok_at [OF wf_mem [OF assms] rc]]
    by (intro evolves_if rep_loop_evolves) (simp_all add: assms vt_wcwidth_le)
qed

lemma vt_do_csi_plain_evolves [wf_keep]:
  assumes "screen_wf v" shows "evolves v (vt_do_csi_plain p v b)"
proof -
  have t: "evolves v (clear_tabstop v (ccol (cur v)))" "evolves v (v\<lparr>tabstops := replicate VT_TABSTOP_WORDS 0\<rparr>)"
    using assms wf_bounds [OF assms] by (auto simp: clear_tabstop_def intro!: evolves_tabs)
  show ?thesis
    unfolding vt_do_csi_plain_def Let_def
    by (intro evolves_if t wf_keep [OF assms]) (simp add: assms)
qed

lemma vt_do_csi_evolves [wf_keep]:
  assumes "screen_wf v" "param_bound p" shows "evolves v (vt_do_csi p v b)"
  unfolding vt_do_csi_def by (intro evolves_if wf_keep assms) (simp_all add: assms)

lemma osc_passthrough_evolves [wf_keep]: "screen_wf v \<Longrightarrow> evolves v (osc_passthrough p v)"
  by (simp add: osc_passthrough_def emit_event_evolves)

lemma vt_do_osc_evolves [wf_keep]:
  assumes "screen_wf v" shows "evolves v (vt_do_osc p v)"
proof -
  have "evolves v (osc_passthrough p (emit_event v e))" for e
    by (rule evolves_step [OF _ osc_passthrough_evolves]) (simp add: assms emit_event_evolves)
  then show ?thesis
    unfolding vt_do_osc_def Let_def
    by (intro evolves_if) (auto simp: assms osc_passthrough_evolves split: option.split)
qed

end
