(* ===== verification/Vt_Parser.thy ===== *)
theory Vt_Parser
  imports Vt_Dispatch
begin

unbundle bit_operations_syntax

text \<open>
  The state machine of \<open>src/vt/vt_parser.c\<close> and the life cycle of an engine: \<open>vt_new\<close>,
  \<open>vt_feed\<close> and \<open>vt_resize\<close>. Each case of the switch in \<open>feed_byte\<close> is a definition of its
  own; the recursive call of the pseudo-state \<open>ST_MAX\<close> re-enters with \<open>ST_ESCAPE\<close>, so the
  recursion is at most one deep.
\<close>

section \<open>Collecting parameters, intermediates and strings\<close>

definition clear_seq :: "parser \<Rightarrow> parser" where
  "clear_seq p = p\<lparr>nparams := 0, param_overflow := False,
     params := replicate VT_PARAMS_MAX 0, param_seen := replicate VT_PARAMS_MAX False,
     ninter := 0, inters := (inters p)[0 := 0], priv := 0\<rparr>"

definition collect_inter :: "parser \<Rightarrow> byte \<Rightarrow> parser" where
  "collect_inter p b =
    (if ninter p < VT_INTER_MAX then
       p\<lparr>inters := (inters p)[ninter p := b, ninter p + 1 := 0], ninter := ninter p + 1\<rparr>
     else p\<lparr>ninter := VT_INTER_MAX + 1\<rparr>)"

definition collect_param :: "parser \<Rightarrow> byte \<Rightarrow> parser" where
  "collect_param p b =
    (if b = 0x3b \<comment> \<open>;\<close> then
       if nparams p < VT_PARAMS_MAX then p\<lparr>nparams := nparams p + 1\<rparr> else p\<lparr>param_overflow := True\<rparr>
     else if nparams p \<ge> VT_PARAMS_MAX then p\<lparr>param_overflow := True\<rparr>
     else
       let d = ucast b - 0x30; c = params p ! nparams p
       in p\<lparr>params := (params p)[nparams p := (if c > 999999 then 9999999 else c * 10 + d)],
            param_seen := (param_seen p)[nparams p := True]\<rparr>)"

definition finish_params :: "parser \<Rightarrow> parser" where
  "finish_params p =
    (if nparams p < VT_PARAMS_MAX \<and> (param_seen p ! nparams p \<or> nparams p > 0 \<or> param_seen p ! 0)
     then p\<lparr>nparams := nparams p + 1\<rparr> else p)"

definition osc_start :: "parser \<Rightarrow> parser" where
  "osc_start p = p\<lparr>osc := [], osc_overflow := False\<rparr>"

definition osc_put :: "parser \<Rightarrow> byte \<Rightarrow> parser" where
  "osc_put p b =
    (if length (osc p) < VT_OSC_MAX - 1 then p\<lparr>osc := osc p @ [b]\<rparr> else p\<lparr>osc_overflow := True\<rparr>)"

section \<open>The state machine\<close>

record vt =
  scr :: screen
  par :: parser

definition anywhere :: "parser \<Rightarrow> byte \<Rightarrow> bool \<times> parser" where
  "anywhere p b =
    (if b = 0x18 \<or> b = 0x1a then (True, p\<lparr>state := ST_GROUND\<rparr>)
     else if b = 0x1b then
       if state p = ST_OSC_STRING \<or> state p = ST_DCS_PASS \<or> state p = ST_SOSPMAPC then (False, p)
       else (True, (clear_seq p)\<lparr>state := ST_ESCAPE\<rparr>)
     else (False, p))"

definition execute :: "vt \<Rightarrow> byte \<Rightarrow> vt" where
  "execute v b = v\<lparr>scr := vt_do_execute (scr v) b\<rparr>"

definition feed_ground :: "vt \<Rightarrow> byte \<Rightarrow> vt" where
  "feed_ground v b =
    (if b < 0x20 then execute v b
     else if b = 0x7f then v
     else
       let (rc, cp) = vt_utf8_step (u8_state (par v)) (u8_cp (par v)) b;
           v = v\<lparr>par := (par v)\<lparr>u8_state := rc, u8_cp := cp\<rparr>\<rparr>
       in if rc = UTF8_ACCEPT then v\<lparr>scr := vt_do_print (scr v) cp\<rparr>
          else if rc = UTF8_REJECT then
            let v = v\<lparr>par := (par v)\<lparr>u8_state := UTF8_ACCEPT\<rparr>, scr := vt_do_print (scr v) 0xFFFD\<rparr>
            in if b < 0x80 then v\<lparr>scr := vt_do_print (scr v) (ucast b)\<rparr>
               else if b \<ge> 0xc2 then
                 let (st, cp) = vt_utf8_step (u8_state (par v)) (u8_cp (par v)) b
                 in v\<lparr>par := (par v)\<lparr>u8_state := st, u8_cp := cp\<rparr>\<rparr>
               else v
          else v)"

definition feed_escape :: "vt \<Rightarrow> byte \<Rightarrow> vt" where
  "feed_escape v b =
    (let v = v\<lparr>par := (par v)\<lparr>u8_state := UTF8_ACCEPT\<rparr>\<rparr>; p = par v
     in if b < 0x20 then execute v b
        else if b \<ge> 0x20 \<and> b \<le> 0x2f then v\<lparr>par := (collect_inter p b)\<lparr>state := ST_ESCAPE_INT\<rparr>\<rparr>
        else if b = 0x5b \<comment> \<open>[\<close> then v\<lparr>par := (clear_seq p)\<lparr>state := ST_CSI_ENTRY\<rparr>\<rparr>
        else if b = 0x5d \<comment> \<open>]\<close> then v\<lparr>par := (osc_start p)\<lparr>state := ST_OSC_STRING\<rparr>\<rparr>
        else if b = 0x50 \<comment> \<open>P\<close> then v\<lparr>par := (clear_seq p)\<lparr>state := ST_DCS_ENTRY\<rparr>\<rparr>
        else if b = 0x58 \<comment> \<open>X\<close> \<or> b = 0x5e \<comment> \<open>^\<close> \<or> b = 0x5f \<comment> \<open>_\<close> then
          v\<lparr>par := p\<lparr>state := ST_SOSPMAPC\<rparr>\<rparr>
        else if b \<ge> 0x30 \<and> b \<le> 0x7e then
          v\<lparr>scr := vt_do_esc p (scr v) b, par := p\<lparr>state := ST_GROUND\<rparr>\<rparr>
        else v)"

definition feed_escape_int :: "vt \<Rightarrow> byte \<Rightarrow> vt" where
  "feed_escape_int v b =
    (let p = par v
     in if b < 0x20 then execute v b
        else if b \<ge> 0x20 \<and> b \<le> 0x2f then v\<lparr>par := collect_inter p b\<rparr>
        else if b \<ge> 0x30 \<and> b \<le> 0x7e then
          v\<lparr>scr := vt_do_esc p (scr v) b, par := p\<lparr>state := ST_GROUND\<rparr>\<rparr>
        else v)"

text \<open>The common end of the three control sequence states: the final byte dispatches.\<close>

definition csi_final :: "vt \<Rightarrow> byte \<Rightarrow> vt" where
  "csi_final v b =
    (let p = finish_params (par v)
     in v\<lparr>scr := vt_do_csi p (scr v) b, par := p\<lparr>state := ST_GROUND\<rparr>\<rparr>)"

abbreviation (input) is_param_byte :: "byte \<Rightarrow> bool" where
  "is_param_byte b \<equiv> (b \<ge> 0x30 \<and> b \<le> 0x39) \<or> b = 0x3b"

definition feed_csi_entry :: "vt \<Rightarrow> byte \<Rightarrow> vt" where
  "feed_csi_entry v b =
    (let p = par v
     in if b < 0x20 then execute v b
        else if b \<ge> 0x3c \<and> b \<le> 0x3f then v\<lparr>par := p\<lparr>priv := b, state := ST_CSI_PARAM\<rparr>\<rparr>
        else if is_param_byte b then v\<lparr>par := (collect_param p b)\<lparr>state := ST_CSI_PARAM\<rparr>\<rparr>
        else if b = 0x3a \<comment> \<open>:\<close> then v\<lparr>par := p\<lparr>state := ST_CSI_IGNORE\<rparr>\<rparr>
        else if b \<ge> 0x20 \<and> b \<le> 0x2f then v\<lparr>par := (collect_inter p b)\<lparr>state := ST_CSI_INT\<rparr>\<rparr>
        else if b \<ge> 0x40 \<and> b \<le> 0x7e then csi_final v b
        else v)"

definition feed_csi_param :: "vt \<Rightarrow> byte \<Rightarrow> vt" where
  "feed_csi_param v b =
    (let p = par v
     in if b < 0x20 then execute v b
        else if is_param_byte b then v\<lparr>par := collect_param p b\<rparr>
        else if b = 0x3a \<or> (b \<ge> 0x3c \<and> b \<le> 0x3f) then v\<lparr>par := p\<lparr>state := ST_CSI_IGNORE\<rparr>\<rparr>
        else if b \<ge> 0x20 \<and> b \<le> 0x2f then v\<lparr>par := (collect_inter p b)\<lparr>state := ST_CSI_INT\<rparr>\<rparr>
        else if b \<ge> 0x40 \<and> b \<le> 0x7e then csi_final v b
        else v)"

definition feed_csi_int :: "vt \<Rightarrow> byte \<Rightarrow> vt" where
  "feed_csi_int v b =
    (let p = par v
     in if b < 0x20 then execute v b
        else if b \<ge> 0x20 \<and> b \<le> 0x2f then v\<lparr>par := collect_inter p b\<rparr>
        else if b \<ge> 0x30 \<and> b \<le> 0x3f then v\<lparr>par := p\<lparr>state := ST_CSI_IGNORE\<rparr>\<rparr>
        else if b \<ge> 0x40 \<and> b \<le> 0x7e then csi_final v b
        else v)"

definition feed_csi_ignore :: "vt \<Rightarrow> byte \<Rightarrow> vt" where
  "feed_csi_ignore v b =
    (if b < 0x20 then execute v b
     else if b \<ge> 0x40 \<and> b \<le> 0x7e then v\<lparr>par := (par v)\<lparr>state := ST_GROUND\<rparr>\<rparr>
     else v)"

definition osc_final :: "vt \<Rightarrow> vt" where
  "osc_final v = v\<lparr>scr := vt_do_osc (par v) (scr v), par := (par v)\<lparr>state := ST_GROUND\<rparr>\<rparr>"

definition feed_osc :: "vt \<Rightarrow> byte \<Rightarrow> vt" where
  "feed_osc v b =
    (if b = 0x1b then v\<lparr>par := (par v)\<lparr>state := ST_MAX\<rparr>\<rparr>
     else if b = 0x07 then osc_final v
     else if b \<ge> 0x20 \<or> b = 0x00 then v\<lparr>par := osc_put (par v) b\<rparr>
     else v)"

definition feed_dcs :: "vt \<Rightarrow> byte \<Rightarrow> vt" where
  "feed_dcs v b =
    (if b \<ge> 0x40 \<and> b \<le> 0x7e then v\<lparr>par := (par v)\<lparr>state := ST_DCS_PASS\<rparr>\<rparr>
     else if b = 0x18 \<or> b = 0x1a then v\<lparr>par := (par v)\<lparr>state := ST_GROUND\<rparr>\<rparr>
     else v)"

definition feed_dcs_pass :: "vt \<Rightarrow> byte \<Rightarrow> vt" where
  "feed_dcs_pass v b = (if b = 0x1b then v\<lparr>par := (par v)\<lparr>state := ST_DCS_IGNORE\<rparr>\<rparr> else v)"

definition feed_dcs_ignore :: "vt \<Rightarrow> byte \<Rightarrow> vt" where
  "feed_dcs_ignore v b =
    (if b = 0x5c \<comment> \<open>backslash\<close> then v\<lparr>par := (par v)\<lparr>state := ST_GROUND\<rparr>\<rparr>
     else if b \<noteq> 0x1b then v\<lparr>par := (par v)\<lparr>state := ST_DCS_PASS\<rparr>\<rparr>
     else v)"

function feed_byte :: "vt \<Rightarrow> byte \<Rightarrow> vt" where
  "feed_byte v b =
    (case anywhere (par v) b of (consumed, p) \<Rightarrow>
     if consumed then v\<lparr>par := p\<rparr>
     else
       case state (par v) of
         ST_GROUND \<Rightarrow> feed_ground v b
       | ST_ESCAPE \<Rightarrow> feed_escape v b
       | ST_ESCAPE_INT \<Rightarrow> feed_escape_int v b
       | ST_CSI_ENTRY \<Rightarrow> feed_csi_entry v b
       | ST_CSI_PARAM \<Rightarrow> feed_csi_param v b
       | ST_CSI_INT \<Rightarrow> feed_csi_int v b
       | ST_CSI_IGNORE \<Rightarrow> feed_csi_ignore v b
       | ST_OSC_STRING \<Rightarrow> feed_osc v b
       | ST_MAX \<Rightarrow>
           if b = 0x5c then osc_final v
           else feed_byte (v\<lparr>par := (clear_seq (par v))\<lparr>state := ST_ESCAPE\<rparr>\<rparr>) b
       | ST_DCS_ENTRY \<Rightarrow> feed_dcs v b
       | ST_DCS_PARAM \<Rightarrow> feed_dcs v b
       | ST_DCS_INT \<Rightarrow> feed_dcs v b
       | ST_DCS_PASS \<Rightarrow> feed_dcs_pass v b
       | ST_DCS_IGNORE \<Rightarrow> feed_dcs_ignore v b
       | ST_SOSPMAPC \<Rightarrow> feed_dcs_pass v b)"
  by pat_completeness auto
termination
  by (relation "measure (\<lambda>(v, b). if state (par v) = ST_MAX then 1 else 0)") auto

declare feed_byte.simps [simp del]

definition record_pending :: "vt \<Rightarrow> byte \<Rightarrow> vt" where
  "record_pending v b =
    (let p = par v
     in if state p = ST_GROUND \<and> u8_state p = UTF8_ACCEPT then
          v\<lparr>par := p\<lparr>pending := [], pending_lost := False\<rparr>\<rparr>
        else if b < 0x20 \<and> b \<noteq> 0x1b \<and> b \<noteq> 0x00 then v
        else if length (pending p) < VT_PENDING_MAX then v\<lparr>par := p\<lparr>pending := pending p @ [b]\<rparr>\<rparr>
        else v\<lparr>par := p\<lparr>pending_lost := True\<rparr>\<rparr>)"

definition feed_one :: "vt \<Rightarrow> byte \<Rightarrow> vt" where
  "feed_one v b = record_pending (feed_byte v b) b"

definition vt_feed :: "vt \<Rightarrow> byte list \<Rightarrow> vt" where
  "vt_feed v bs = foldl feed_one v bs"

section \<open>Life cycle\<close>

definition zero_parser :: parser where
  "zero_parser = \<lparr>state = ST_GROUND, params = replicate VT_PARAMS_MAX 0,
    param_seen = replicate VT_PARAMS_MAX False, nparams = 0, param_overflow = False,
    inters = replicate (VT_INTER_MAX + 1) 0, ninter = 0, priv = 0, osc = [], osc_overflow = False,
    u8_state = UTF8_ACCEPT, u8_cp = 0, pending = [], pending_lost = False\<rparr>"

text \<open>The structure as \<open>calloc\<close> leaves it, with the geometry and the grids filled in.\<close>

definition zero_screen :: "nat \<Rightarrow> nat \<Rightarrow> vt_callbacks \<Rightarrow> screen" where
  "zero_screen r c callbacks = \<lparr>rows = r, cols = c,
    grid = replicate 2 (replicate (r * c) zero_cell), active = 0, cur = zero_cursor,
    saved_cur = [zero_cursor, zero_cursor], modes = 0, scroll_top = 0, scroll_bot = 0,
    tabstops = replicate VT_TABSTOP_WORDS 0, last_row = 0, last_col = 0, last_valid = False,
    dirty = replicate VT_DIRTY_WORDS 0, dirty_all = False, cb = callbacks, out = [], ub = False\<rparr>"

definition no_callbacks :: vt_callbacks where
  "no_callbacks = \<lparr>on_response = False, on_scrollback_line = False, on_title = False,
    on_bell = False, on_passthrough = False\<rparr>"

text \<open>The three flags say whether the allocations of the structure and of the two grids succeed.\<close>

definition vt_new :: "bool \<Rightarrow> bool \<Rightarrow> bool \<Rightarrow> nat \<Rightarrow> nat \<Rightarrow> vt_callbacks option \<Rightarrow> vt option" where
  "vt_new alloc alloc0 alloc1 r c callbacks =
    (let r = clamp_dim VT_ROWS_MAX r; c = clamp_dim VT_COLS_MAX c
     in if alloc \<and> alloc0 \<and> alloc1 then
          Some \<lparr>scr = vt_screen_reset (zero_screen r c
                  (case callbacks of Some k \<Rightarrow> k | None \<Rightarrow> no_callbacks)),
                par = zero_parser\<rparr>
        else None)"

definition vt_resize :: "bool \<Rightarrow> bool \<Rightarrow> vt \<Rightarrow> nat \<Rightarrow> nat \<Rightarrow> vt" where
  "vt_resize alloc0 alloc1 v r c = v\<lparr>scr := vt_resize_screen alloc0 alloc1 (scr v) r c\<rparr>"

section \<open>Well-formedness\<close>

definition parser_wf :: "parser \<Rightarrow> bool" where
  "parser_wf p \<longleftrightarrow> length (params p) = VT_PARAMS_MAX \<and> length (param_seen p) = VT_PARAMS_MAX \<and>
    nparams p \<le> VT_PARAMS_MAX \<and> list_all (\<lambda>w. w \<le> 9999999) (params p) \<and>
    length (inters p) = VT_INTER_MAX + 1 \<and> ninter p \<le> VT_INTER_MAX + 1 \<and>
    length (osc p) \<le> VT_OSC_MAX - 1 \<and> u8_state p \<in> set utf8_states \<and>
    length (pending p) \<le> VT_PENDING_MAX"

definition vt_wf :: "vt \<Rightarrow> bool" where
  "vt_wf v \<longleftrightarrow> screen_wf (scr v) \<and> parser_wf (par v)"

definition vt_evolves :: "vt \<Rightarrow> vt \<Rightarrow> bool" where
  "vt_evolves v v' \<longleftrightarrow> evolves (scr v) (scr v') \<and> parser_wf (par v')"

lemma vt_evolves_par:
  "vt_wf v \<Longrightarrow> parser_wf p \<Longrightarrow> vt_evolves v (v\<lparr>par := p\<rparr>)"
  by (simp add: vt_wf_def vt_evolves_def)

lemma vt_evolves_both:
  "vt_wf v \<Longrightarrow> evolves (scr v) s \<Longrightarrow> parser_wf p \<Longrightarrow> vt_evolves v (v\<lparr>scr := s, par := p\<rparr>)"
  by (simp add: vt_evolves_def)

lemma vt_evolves_self: "vt_wf v \<Longrightarrow> vt_evolves v v"
  by (simp add: vt_wf_def vt_evolves_def)

lemma vt_evolves_if: "(b \<Longrightarrow> vt_evolves u x) \<Longrightarrow> (\<not> b \<Longrightarrow> vt_evolves u y) \<Longrightarrow> vt_evolves u (if b then x else y)"
  by simp

lemma vt_evolves_trans: "vt_evolves u v \<Longrightarrow> vt_evolves v w \<Longrightarrow> vt_evolves u w"
  unfolding vt_evolves_def using evolves_trans by blast

lemma vt_evolves_wf: "vt_evolves u v \<Longrightarrow> vt_wf v"
  unfolding vt_evolves_def vt_wf_def using evolves_wf by blast

lemma vt_wf_parts: "vt_wf v \<Longrightarrow> screen_wf (scr v)" "vt_wf v \<Longrightarrow> parser_wf (par v)"
  by (simp_all add: vt_wf_def)

lemma parser_wf_fields [simp]:
  "parser_wf (p\<lparr>state := s\<rparr>) = parser_wf p" "parser_wf (p\<lparr>u8_cp := c\<rparr>) = parser_wf p"
  "parser_wf (p\<lparr>priv := b\<rparr>) = parser_wf p" "parser_wf (p\<lparr>pending_lost := l\<rparr>) = parser_wf p"
  by (simp_all add: parser_wf_def)

lemma parser_wf_utf8:
  "parser_wf p \<Longrightarrow> s \<in> set utf8_states \<Longrightarrow> parser_wf (p\<lparr>u8_state := s\<rparr>)"
  "parser_wf p \<Longrightarrow> s \<in> set utf8_states \<Longrightarrow> parser_wf (p\<lparr>u8_state := s, u8_cp := c\<rparr>)"
  by (simp_all add: parser_wf_def)

lemma parser_wf_param_bound: "parser_wf p \<Longrightarrow> param_bound p"
  by (simp add: parser_wf_def param_bound_def)

lemma clear_seq_wf: "parser_wf p \<Longrightarrow> parser_wf (clear_seq p)"
  by (simp add: parser_wf_def clear_seq_def list_all_iff)

lemma collect_inter_wf: "parser_wf p \<Longrightarrow> parser_wf (collect_inter p b)"
  by (auto simp: parser_wf_def collect_inter_def)

text \<open>A parameter saturates at seven digits.\<close>

lemma unat_ucast_byte: "unat (ucast (b :: byte) :: u32) = unat b"
proof -
  have "unat b < 2 ^ 32" using unat_byte_less [of b] by (rule less_trans) simp
  then show ?thesis by (simp add: unsigned_ucast_eq take_bit_nat_eq_self)
qed

lemma param_digit:
  assumes "c \<le> (9999999 :: u32)" "b \<ge> (0x30 :: byte)" "b \<le> 0x39"
  shows "(if c > 999999 then 9999999 else c * 10 + (ucast b - 0x30)) \<le> 9999999"
proof (cases "c > 999999")
  case False
  have d: "unat (ucast b - 0x30 :: u32) \<le> 9"
    using assms(2,3) by (simp add: unat_sub word_le_nat_alt unat_ucast_byte)
  have c: "unat c \<le> 999999" using False by (simp add: word_less_nat_alt)
  have "unat (c * 10) = unat c * 10" using c by (simp add: unat_word_ariths)
  then have "unat (c * 10 + (ucast b - 0x30)) = unat c * 10 + unat (ucast b - 0x30 :: u32)"
    using c d by (simp add: unat_word_ariths)
  then show ?thesis using False c d by (simp add: word_le_nat_alt)
qed simp

lemma collect_param_wf:
  assumes "parser_wf p" "is_param_byte b"
  shows "parser_wf (collect_param p b)"
proof (cases "b = 0x3b \<or> nparams p \<ge> VT_PARAMS_MAX")
  case True
  then show ?thesis using assms by (auto simp: parser_wf_def collect_param_def)
next
  case False
  then have "params p ! nparams p \<le> 9999999" using assms by (simp add: parser_wf_def list_all_length)
  from param_digit [OF this, of b] False assms show ?thesis
    by (simp add: parser_wf_def collect_param_def Let_def list_all_update del: if_split)
qed

lemma finish_params_wf: "parser_wf p \<Longrightarrow> parser_wf (finish_params p)"
  by (auto simp: parser_wf_def finish_params_def)

lemma osc_wf: "parser_wf p \<Longrightarrow> parser_wf (osc_start p)" "parser_wf p \<Longrightarrow> parser_wf (osc_put p b)"
  by (simp_all add: parser_wf_def osc_start_def osc_put_def)

lemmas parser_keeps = clear_seq_wf collect_inter_wf collect_param_wf finish_params_wf osc_wf
  vt_wf_parts parser_wf_utf8

section \<open>Every byte in every state\<close>

lemma execute_evolves: "vt_wf v \<Longrightarrow> vt_evolves v (execute v b)"
  by (simp add: execute_def vt_evolves_def vt_wf_def vt_do_execute_evolves)

lemma u8_zero: "0 \<in> set utf8_states"
  by simp

lemma feed_ground_evolves:
  assumes "vt_wf v" shows "vt_evolves v (feed_ground v b)"
proof -
  obtain rc cp where st: "vt_utf8_step (u8_state (par v)) (u8_cp (par v)) b = (rc, cp)" by force
  obtain st2 cp2 where st2: "vt_utf8_step UTF8_ACCEPT cp b = (st2, cp2)" by force
  have rc: "rc \<in> set utf8_states"
    using utf8_step_states [of "u8_state (par v)" "u8_cp (par v)" b] st vt_wf_parts(2) [OF assms]
    by (simp add: parser_wf_def)
  have s2: "st2 \<in> set utf8_states" using utf8_step_states [OF u8_zero, of cp b] st2 by simp
  have p: "evolves (scr v) (vt_do_print (scr v) x)" for x
    using vt_wf_parts(1) [OF assms] by (rule vt_do_print_evolves)
  have pp: "evolves (scr v) (vt_do_print (vt_do_print (scr v) x) y)" for x y
    by (rule evolves_step [OF p vt_do_print_evolves])
  have P: "parser_wf ((par v)\<lparr>u8_state := s, u8_cp := c\<rparr>)" if "s \<in> set utf8_states" for s c
    using vt_wf_parts(2) [OF assms] that by (rule parser_wf_utf8)
  have P2: "parser_wf ((par v)\<lparr>u8_state := s, u8_cp := c, u8_state := t\<rparr>)" if "t \<in> set utf8_states" for s c t
    using P [OF that, of c] by (simp add: parser_wf_def)
  show ?thesis
    using assms execute_evolves [OF assms] rc s2 P P2 p pp
    by (simp add: feed_ground_def st st2 Let_def vt_evolves_def vt_wf_def)
qed

lemma feed_escape_evolves:
  assumes "vt_wf v" shows "vt_evolves v (feed_escape v b)"
proof -
  let ?p = "(par v)\<lparr>u8_state := UTF8_ACCEPT\<rparr>"
  have p: "parser_wf ?p" by (intro parser_keeps assms u8_zero)
  have w: "vt_wf (v\<lparr>par := ?p\<rparr>)" using assms p by (simp add: vt_wf_def)
  have e: "evolves (scr v) (vt_do_esc q (scr v) b)" for q
    by (intro vt_do_esc_evolves vt_wf_parts assms)
  show ?thesis
    using assms w p e execute_evolves [OF w, of b] parser_keeps(1) [OF p] parser_keeps(2) [OF p, of b]
      osc_wf(1) [OF p]
    by (simp add: feed_escape_def Let_def vt_evolves_def vt_wf_def)
qed

lemma feed_escape_int_evolves:
  assumes "vt_wf v" shows "vt_evolves v (feed_escape_int v b)"
  unfolding feed_escape_int_def Let_def
  by (intro vt_evolves_if execute_evolves vt_evolves_par vt_evolves_both vt_evolves_self
      vt_do_esc_evolves) (simp_all add: assms parser_keeps)

lemma csi_final_evolves:
  assumes "vt_wf v" shows "vt_evolves v (csi_final v b)"
  unfolding csi_final_def Let_def
  by (intro vt_evolves_both vt_do_csi_evolves parser_wf_param_bound) (simp_all add: assms parser_keeps)

lemma feed_csi_evolves:
  assumes "vt_wf v"
  shows "vt_evolves v (feed_csi_entry v b)" "vt_evolves v (feed_csi_param v b)"
    "vt_evolves v (feed_csi_int v b)" "vt_evolves v (feed_csi_ignore v b)"
  unfolding feed_csi_entry_def feed_csi_param_def feed_csi_int_def feed_csi_ignore_def Let_def
  by (intro vt_evolves_if execute_evolves csi_final_evolves vt_evolves_par vt_evolves_self;
      simp add: assms parser_keeps)+

lemma osc_final_evolves:
  assumes "vt_wf v" shows "vt_evolves v (osc_final v)"
  unfolding osc_final_def
  by (intro vt_evolves_both vt_do_osc_evolves) (simp_all add: assms parser_keeps)

lemma feed_string_evolves:
  assumes "vt_wf v"
  shows "vt_evolves v (feed_osc v b)" "vt_evolves v (feed_dcs v b)"
    "vt_evolves v (feed_dcs_pass v b)" "vt_evolves v (feed_dcs_ignore v b)"
  unfolding feed_osc_def feed_dcs_def feed_dcs_pass_def feed_dcs_ignore_def
  by (intro vt_evolves_if osc_final_evolves vt_evolves_par vt_evolves_self;
      simp add: assms parser_keeps)+

lemma anywhere_wf: "parser_wf p \<Longrightarrow> parser_wf (snd (anywhere p b))"
  by (simp add: anywhere_def clear_seq_wf)

text \<open>The equations of the machine with the pseudo-state unfolded once.\<close>

lemma feed_byte_consumed: "fst (anywhere (par v) b) \<Longrightarrow> feed_byte v b = v\<lparr>par := snd (anywhere (par v) b)\<rparr>"
  by (subst feed_byte.simps) (auto split: prod.splits)

lemma feed_byte_evolves_not_max:
  assumes "vt_wf v" "state (par v) \<noteq> ST_MAX"
  shows "vt_evolves v (feed_byte v b)"
proof (cases "fst (anywhere (par v) b)")
  case True
  then show ?thesis
    using vt_evolves_par [OF assms(1) anywhere_wf [OF vt_wf_parts(2) [OF assms(1)]]]
    by (simp add: feed_byte_consumed)
next
  case False
  note E = feed_ground_evolves [OF assms(1), of b] feed_escape_evolves [OF assms(1), of b]
    feed_escape_int_evolves [OF assms(1), of b] feed_csi_evolves [OF assms(1), of b]
    feed_string_evolves [OF assms(1), of b]
  obtain p where "anywhere (par v) b = (False, p)" using False by (cases "anywhere (par v) b") auto
  then show ?thesis
    using assms(2) E by (subst feed_byte.simps) (cases "state (par v)"; simp)
qed

lemma feed_byte_max:
  assumes "state (par v) = ST_MAX"
  shows "feed_byte v b = (if fst (anywhere (par v) b) then v\<lparr>par := snd (anywhere (par v) b)\<rparr>
    else if b = 0x5c then osc_final v
    else feed_byte (v\<lparr>par := (clear_seq (par v))\<lparr>state := ST_ESCAPE\<rparr>\<rparr>) b)"
  using assms by (subst feed_byte.simps) (simp split: prod.split)

lemma feed_byte_evolves:
  assumes "vt_wf v"
  shows "vt_evolves v (feed_byte v b)"
proof (cases "state (par v) = ST_MAX")
  case True
  let ?v = "v\<lparr>par := (clear_seq (par v))\<lparr>state := ST_ESCAPE\<rparr>\<rparr>"
  have e: "vt_evolves v ?v" by (intro vt_evolves_par) (simp_all add: assms parser_keeps)
  have "vt_evolves ?v (feed_byte ?v b)" by (rule feed_byte_evolves_not_max [OF vt_evolves_wf [OF e]]) simp
  then show ?thesis
    using vt_evolves_trans [OF e] osc_final_evolves [OF assms]
      vt_evolves_par [OF assms anywhere_wf [OF vt_wf_parts(2) [OF assms]]]
    by (simp add: feed_byte_max [OF True])
qed (rule feed_byte_evolves_not_max [OF assms])

lemma record_pending_evolves: "vt_wf v \<Longrightarrow> vt_evolves v (record_pending v b)"
  by (simp add: record_pending_def Let_def vt_evolves_def vt_wf_def parser_wf_def)

lemma feed_one_evolves: "vt_wf v \<Longrightarrow> vt_evolves v (feed_one v b)"
  unfolding feed_one_def
  by (blast intro: vt_evolves_trans feed_byte_evolves record_pending_evolves vt_evolves_wf)

text \<open>The engine as a machine over bytes that keeps its invariant and its geometry.\<close>

interpretation engine: framed_machine feed_one vt_wf "\<lambda>v. (rows (scr v), cols (scr v), cb (scr v))"
proof
  show "vt_wf v \<Longrightarrow> vt_wf (feed_one v b)" for v b by (rule vt_evolves_wf [OF feed_one_evolves])
  show "vt_wf v \<Longrightarrow> (rows (scr (feed_one v b)), cols (scr (feed_one v b)), cb (scr (feed_one v b)))
      = (rows (scr v), cols (scr v), cb (scr v))" for v b
    using feed_one_evolves [of v b] by (simp add: vt_evolves_def evolves_def)
qed

lemma vt_feed_evolves: "vt_wf v \<Longrightarrow> vt_evolves v (vt_feed v bs)"
  unfolding vt_feed_def
proof (induction bs arbitrary: v)
  case (Cons b bs)
  note e = feed_one_evolves [OF Cons.prems, of b]
  show ?case using vt_evolves_trans [OF e Cons.IH [OF vt_evolves_wf [OF e]]] by simp
qed (simp add: vt_evolves_self)

lemma vt_new_wf: "vt_new a a0 a1 r c k = Some v \<Longrightarrow> vt_wf v"
proof -
  assume "vt_new a a0 a1 r c k = Some v"
  then obtain k' where v: "v = \<lparr>scr = vt_screen_reset (zero_screen (clamp_dim VT_ROWS_MAX r) (clamp_dim VT_COLS_MAX c) k'),
      par = zero_parser\<rparr>"
    by (auto simp: vt_new_def Let_def split: if_splits)
  have m: "mem_ok (zero_screen (clamp_dim VT_ROWS_MAX r) (clamp_dim VT_COLS_MAX c) k')"
    using clamp_dim_range [of 1000 r] clamp_dim_range [of 1000 c]
    by (simp add: mem_ok_def zero_screen_def list_all_length)
  then have "screen_wf (scr v)"
    by (simp add: v vt_screen_reset_eq screen_wf_def mem_ok_def cursor_wf_def zero_cursor_def)
  moreover have "parser_wf (par v)"
    by (simp add: v zero_parser_def parser_wf_def list_all_length)
  ultimately show ?thesis by (simp add: vt_wf_def)
qed

text \<open>What the daemon does to an engine between its creation and its destruction.\<close>

datatype vt_op = Feed "byte list" | Resize nat nat | Damage_Clear

fun vt_apply :: "vt \<Rightarrow> vt_op \<Rightarrow> vt" where
  "vt_apply v (Feed bs) = vt_feed v bs"
| "vt_apply v (Resize r c) = vt_resize True True v r c"
| "vt_apply v Damage_Clear = v\<lparr>scr := vt_damage_clear (scr v)\<rparr>"

lemma vt_damage_clear_wf: "screen_wf v \<Longrightarrow> screen_wf (vt_damage_clear v)"
  by (simp add: vt_damage_clear_def screen_wf_def mem_ok_def)

interpretation session_engine: inv_machine vt_apply vt_wf
proof
  fix v e assume "vt_wf v"
  then show "vt_wf (vt_apply v e)"
    using vt_evolves_wf [OF vt_feed_evolves] vt_resize_screen_wf vt_damage_clear_wf
    by (cases e) (auto simp: vt_wf_def vt_resize_def)
qed

end
