(* ===== verification/Vt_Engine.thy ===== *)
theory Vt_Engine
  imports Vt_Parser
begin

unbundle bit_operations_syntax

text \<open>
  What the terminal engine promises its callers, stated over the functions of
  \<open>src/vt/vt.h\<close>: safety for every input, completeness of the damage report, and the exact
  effect of scrolling, erasing, shifting and resizing on the visible lines.
\<close>

section \<open>Concrete engines for the examples\<close>

definition demo :: "nat \<Rightarrow> nat \<Rightarrow> vt" where
  "demo r c = \<lparr>scr = vt_screen_reset (zero_screen r c no_callbacks), par = zero_parser\<rparr>"

lemma demo_new: "0 < r \<Longrightarrow> r \<le> 1000 \<Longrightarrow> 0 < c \<Longrightarrow> c \<le> 1000 \<Longrightarrow>
    vt_new True True True r c None = Some (demo r c)"
  by (simp add: vt_new_def demo_def clamp_dim_def Let_def)

lemma demo_wf: "0 < r \<Longrightarrow> r \<le> 1000 \<Longrightarrow> 0 < c \<Longrightarrow> c \<le> 1000 \<Longrightarrow> vt_wf (demo r c)"
  by (rule vt_new_wf [OF demo_new])

section \<open>Safety\<close>


text \<open>
  Feeding never changes the geometry or the callbacks, and the events a feed
  reports are appended to those reported before, so output to the application and to the
  scrollback is never lost or reordered by later input.
\<close>

theorem feed_frame:
  assumes "vt_wf v"
  shows "vt_get_size (scr (vt_feed v bs)) = vt_get_size (scr v) \<and>
    cb (scr (vt_feed v bs)) = cb (scr v) \<and>
    (\<exists>es. out (scr (vt_feed v bs)) = out (scr v) @ es)"
  using engine.run_obs [OF assms, of bs] vt_feed_evolves [OF assms, of bs]
  by (auto simp: vt_feed_def vt_get_size_def vt_evolves_def evolves_def prefix_def)

theorem feed_frame_witness:
  "vt_get_size (scr (vt_feed (demo 2 3) [0x41, 0x0a])) = (2, 3)"
proof -
  have "vt_get_size (scr (demo 2 3)) = (2, 3)" by code_simp
  then show ?thesis using feed_frame [OF demo_wf [of 2 3], of "[0x41, 0x0a]"] by simp
qed

section \<open>Damage\<close>

text \<open>
  Claim C2. The damage report is complete: after the damage has been acknowledged, feeding
  any bytes leaves every row that is not reported dirty exactly as it was, so a compositor
  that repaints only the dirty rows shows the same picture as one that repaints everything.
\<close>

theorem damage_complete:
  assumes "vt_wf v" and "\<not> vt_row_dirty (scr (vt_feed (v\<lparr>scr := vt_damage_clear (scr v)\<rparr>) bs)) row"
  shows "vt_line (scr (vt_feed (v\<lparr>scr := vt_damage_clear (scr v)\<rparr>) bs)) row = vt_line (scr v) row"
proof -
  define u where "u = v\<lparr>scr := vt_damage_clear (scr v)\<rparr>"
  define w where "w = vt_feed u bs"
  have "vt_wf u" using assms(1) by (simp add: u_def vt_wf_def vt_damage_clear_wf)
  then have e: "evolves (scr u) (scr w)" using vt_feed_evolves [of u bs] by (simp add: vt_evolves_def w_def)
  have c: "rows (scr u) = rows (scr v)" "cols (scr u) = cols (scr v)" "at (scr u) r c = at (scr v) r c"
    "mem_ok (scr u)" for r c
    using wf_mem [OF vt_wf_parts(1) [OF assms(1)]]
    by (auto simp: u_def vt_damage_clear_def at_def mem_ok_def)
  show ?thesis
  proof (cases "row < rows (scr v)")
    case True
    have "at (scr w) row c = at (scr v) row c" if "c < cols (scr v)" for c
      using e that assms(2) True c by (auto simp: evolves_def w_def u_def)
    then have "line (scr w) row = line (scr v) row"
      using True c evolves_geom [OF e] wf_mem [OF evolves_wf [OF e]] wf_mem [OF vt_wf_parts(1) [OF assms(1)]]
      by (simp add: line_at)
    then show ?thesis
      using True c evolves_geom [OF e] by (simp add: vt_line_def line_def flip: w_def u_def)
  next
    case False
    then show ?thesis using c evolves_geom [OF e] by (simp add: vt_line_def flip: w_def u_def)
  qed
qed

theorem damage_complete_witness:
  "\<not> vt_row_dirty (scr (vt_feed ((demo 2 3)\<lparr>scr := vt_damage_clear (scr (demo 2 3))\<rparr>) [0x41, 0x42])) 1 \<and>
   vt_line (scr (vt_feed ((demo 2 3)\<lparr>scr := vt_damage_clear (scr (demo 2 3))\<rparr>) [0x41, 0x42])) 1 =
     vt_line (scr (demo 2 3)) 1"
proof -
  have d: "\<not> vt_row_dirty (scr (vt_feed ((demo 2 3)\<lparr>scr := vt_damage_clear (scr (demo 2 3))\<rparr>) [0x41, 0x42])) 1"
    by code_simp
  show ?thesis using d damage_complete [OF demo_wf d] by simp
qed

section \<open>Scrolling\<close>

text \<open>
  Claim C21. Scrolling up by \<open>n\<close> moves every line of the scroll region up by the clamped
  amount, fills the region's end with blanks in the current background colour, leaves the
  lines outside the region and the cursor alone, and hands exactly the lines that leave the
  top of the primary screen to the scrollback callback, first line first.
\<close>

theorem scroll_up_lines:
  fixes n :: int
  assumes "screen_wf v" and "0 < n"
  defines "k \<equiv> min (nat n) (scroll_bot v - scroll_top v + 1)"
  defines "v' \<equiv> vt_screen_scroll_up v n"
  shows "(\<forall>r<rows v. line v' r =
      (if scroll_top v \<le> r \<and> r + k \<le> scroll_bot v then line v (r + k)
       else if scroll_top v \<le> r \<and> r \<le> scroll_bot v then replicate (cols v) (blank_cell v)
       else line v r)) \<and>
    cur v' = cur v \<and>
    out v' = out v @ (if active v = 0 \<and> scroll_top v = 0 \<and> on_scrollback_line (cb v)
                      then map (\<lambda>i. ScrollbackLine (line v i)) [0..<k] else [])"
proof -
  note B = wf_bounds [OF assms(1)]
  note P = scroll_region_up_props [OF wf_mem [OF assms(1)] B(7,8) assms(2), folded k_def,
      folded vt_screen_scroll_up_def v'_def]
  note F = only_cells_fields [OF P(1)]
  have m': "mem_ok v'" using only_cells_mem_ok [OF P(1)] wf_mem [OF assms(1)] by simp
  have g: "rows v' = rows v" "cols v' = cols v" using F by simp_all
  have "line v' r =
      (if scroll_top v \<le> r \<and> r + k \<le> scroll_bot v then line v (r + k)
       else if scroll_top v \<le> r \<and> r \<le> scroll_bot v then replicate (cols v) (blank_cell v)
       else line v r)" if r: "r < rows v" for r
    using r B(8)
    by (auto intro!: nth_equalityI simp: line_at [OF m'] line_at [OF wf_mem [OF assms(1)]] g P(2))
  then show ?thesis using F by (simp add: leaving_def)
qed

theorem scroll_up_lines_witness:
  "line (vt_screen_scroll_up (scr (demo 2 3)) 1) 1 = replicate 3 (blank_cell (scr (demo 2 3)))"
proof -
  have w: "screen_wf (scr (demo 2 3))" using demo_wf [of 2 3] by (simp add: vt_wf_def)
  have g: "rows (scr (demo 2 3)) = 2" "cols (scr (demo 2 3)) = 3" "scroll_top (scr (demo 2 3)) = 0"
    "scroll_bot (scr (demo 2 3)) = 1" by code_simp+
  show ?thesis using scroll_up_lines [OF w, of 1] by (simp add: g)
qed

text \<open>
  Inserting blank lines (the reverse of scrolling up, used by reverse index,
  insert line and scroll down): inside the region the lines move down, the opened gap is
  blank, and nothing reaches the scrollback.
\<close>

theorem insert_lines_lines:
  fixes n :: int
  assumes "screen_wf v" and "0 < n" and "scroll_top v \<le> crow (cur v)" and "crow (cur v) \<le> scroll_bot v"
  defines "k \<equiv> min (nat n) (scroll_bot v - crow (cur v) + 1)"
  defines "v' \<equiv> vt_screen_insert_lines v n"
  shows "(\<forall>r<rows v. line v' r =
      (if crow (cur v) + k \<le> r \<and> r \<le> scroll_bot v then line v (r - k)
       else if crow (cur v) \<le> r \<and> r \<le> scroll_bot v then replicate (cols v) (blank_cell v)
       else line v r)) \<and>
    crow (cur v') = crow (cur v) \<and> ccol (cur v') = ccol (cur v) \<and> out v' = out v"
proof -
  note B = wf_bounds [OF assms(1)]
  define w where "w = scroll_region_down v (crow (cur v)) (scroll_bot v) n"
  note P = scroll_region_down_props [OF wf_mem [OF assms(1)] assms(4) B(8) assms(2), folded k_def w_def]
  note F = only_cells_fields [OF P(1)]
  have v': "v' = no_wrap w" using assms(3,4) by (simp add: v'_def vt_screen_insert_lines_def w_def)
  have m': "mem_ok w" using only_cells_mem_ok [OF P(1)] wf_mem [OF assms(1)] by simp
  have g: "rows w = rows v" "cols w = cols v" using F by simp_all
  have l: "line v' r = line w r" for r by (simp add: v' no_wrap_def line_def)
  have "line w r =
      (if crow (cur v) + k \<le> r \<and> r \<le> scroll_bot v then line v (r - k)
       else if crow (cur v) \<le> r \<and> r \<le> scroll_bot v then replicate (cols v) (blank_cell v)
       else line v r)" if r: "r < rows v" for r
    using r B(8)
    by (auto intro!: nth_equalityI simp: line_at [OF m'] line_at [OF wf_mem [OF assms(1)]] g P(2))
  then show ?thesis using F by (simp add: l) (simp add: v' no_wrap_def)
qed

theorem insert_lines_lines_witness:
  "line (vt_screen_insert_lines (scr (demo 2 3)) 1) 1 = line (scr (demo 2 3)) 0"
proof -
  have w: "screen_wf (scr (demo 2 3))" using demo_wf [of 2 3] by (simp add: vt_wf_def)
  have g: "rows (scr (demo 2 3)) = 2" "cols (scr (demo 2 3)) = 3" "scroll_top (scr (demo 2 3)) = 0"
    "scroll_bot (scr (demo 2 3)) = 1" "crow (cur (scr (demo 2 3))) = 0" by code_simp+
  show ?thesis using insert_lines_lines [OF w, of 1] by (simp add: g)
qed

section \<open>Erasing and shifting\<close>

lemma clear_rows_props:
  assumes "mem_ok v" "t \<le> rows v"
  shows "only_cells v (clear_rows v f t)"
    and "c < cols v \<Longrightarrow> at (clear_rows v f t) r c = (if f \<le> r \<and> r < t then blank_cell v else at v r c)"
proof -
  have "set [f..<t] \<subseteq> {..<rows v}" using assms(2) by auto
  note P = clear_fold [OF assms(1) this]
  show "only_cells v (clear_rows v f t)" unfolding clear_rows_def by (rule P(1))
  show "c < cols v \<Longrightarrow> at (clear_rows v f t) r c = (if f \<le> r \<and> r < t then blank_cell v else at v r c)"
    unfolding clear_rows_def by (simp add: P(2))
qed

text \<open>The cells that \<open>ED\<close> with the given mode erases, for a cursor at row \<open>y\<close> and column \<open>x\<close>.\<close>

definition ed_region :: "int \<Rightarrow> nat \<Rightarrow> nat \<Rightarrow> nat \<Rightarrow> nat \<Rightarrow> bool" where
  "ed_region mode y x r c =
    (if mode = 0 then y < r \<or> (r = y \<and> x \<le> c)
     else if mode = 1 then r < y \<or> (r = y \<and> c \<le> x)
     else mode = 2 \<or> mode = 3)"

text \<open>
  Erase in display blanks exactly the cells its mode names, from the cursor to the
  end, from the start up to and including the cursor, or all of them, and no others; an
  unknown mode erases nothing. The cursor does not move.
\<close>

theorem erase_display_cells:
  assumes "screen_wf v" and "r < rows v" and "c < cols v"
  shows "at (vt_screen_erase_display v mode) r c =
      (if ed_region mode (crow (cur v)) (ccol (cur v)) r c then blank_cell v else at v r c)"
proof -
  note B = wf_bounds [OF assms(1)]
  define w where "w = no_wrap (forget_last v)"
  have w: "rows w = rows v" "cols w = cols v" "crow (cur w) = crow (cur v)" "ccol (cur w) = ccol (cur v)"
    "blank_cell w = blank_cell v" "at w r c = at v r c" "mem_ok w" for r c
    using wf_mem [OF assms(1)] by (simp_all add: w_def no_wrap_def forget_last_def blank_cell_def)
  let ?y = "crow (cur v)" and ?x = "ccol (cur v)"
  note C0 = clear_row_props [OF w(7), where row = ?y and f = ?x and t = "cols v"]
  note F0 = only_cells_fields [OF C0(1)]
  have m0: "mem_ok (clear_row w ?y ?x (cols v))" using C0(1) w(7) by (rule only_cells_mem_ok)
  have yr: "?y \<le> rows w" using B w by simp
  note C1 = clear_rows_props [OF w(7) yr, where f = 0]
  note F1 = only_cells_fields [OF C1(1)]
  have m1: "mem_ok (clear_rows w 0 ?y)" using C1(1) w(7) by (rule only_cells_mem_ok)
  have u: "u16 (int ?x + 1) = ?x + 1" using B by (simp add: u16_id)
  have e: "vt_screen_erase_display v mode =
      (if mode = 0 then clear_rows (clear_row w ?y ?x (cols v)) (?y + 1) (rows v)
       else if mode = 1 then clear_row (clear_rows w 0 ?y) ?y 0 (?x + 1)
       else if mode = 2 \<or> mode = 3 then clear_rows w 0 (rows v) else w)"
    by (simp add: vt_screen_erase_display_def Let_def w u flip: w_def)
  consider "mode = 0" | "mode = 1" | "mode = 2 \<or> mode = 3" | "mode \<notin> {0, 1, 2, 3}" by auto
  then show ?thesis
  proof cases
    case 1
    have b: "blank_cell (clear_row w ?y ?x (cols v)) = blank_cell v" using blank_only_cells [OF C0(1)] w by simp
    show ?thesis
      unfolding e using 1 assms B clear_rows_props(2) [OF m0, of "rows v" c "?y + 1" r] C0(2) [of c r] F0(1,2)
      by (auto simp: ed_region_def b w)
  next
    case 2
    have b: "blank_cell (clear_rows w 0 ?y) = blank_cell v" using blank_only_cells [OF C1(1)] w by simp
    show ?thesis
      unfolding e using 2 assms B clear_row_props(2) [OF m1, where row = ?y and c' = c and r' = r and f = 0 and t = "?x + 1"] C1(2) [of c r] F1(1,2)
      by (auto simp: ed_region_def b w)
  next
    case 3
    then show ?thesis
      unfolding e using assms clear_rows_props(2) [OF w(7), of "rows v" c 0 r]
      by (auto simp: ed_region_def w)
  qed (simp add: e ed_region_def w)
qed

theorem erase_display_cells_witness:
  "at (vt_screen_erase_display (scr (demo 2 3)) 1) 1 2 = at (scr (demo 2 3)) 1 2"
proof -
  have w: "screen_wf (scr (demo 2 3))" using demo_wf [of 2 3] by (simp add: vt_wf_def)
  have g: "rows (scr (demo 2 3)) = 2" "cols (scr (demo 2 3)) = 3" "crow (cur (scr (demo 2 3))) = 0"
    "ccol (cur (scr (demo 2 3))) = 0" by code_simp+
  show ?thesis using erase_display_cells [OF w, of 1 2 1] by (simp add: g ed_region_def)
qed

text \<open>
  Inserting and deleting characters shift the rest of the cursor's row by the
  clamped count: insertion opens a blank gap at the cursor and drops what is pushed past
  the right edge, deletion pulls the tail left and blanks the end; cells left of the cursor
  and all other rows keep their contents.
\<close>

theorem shift_chars_cells:
  assumes "screen_wf v" and "0 < n" and "r < rows v" and "c < cols v"
  defines "y \<equiv> crow (cur v)" and "x \<equiv> ccol (cur v)" and "k \<equiv> min (nat n) (cols v - ccol (cur v))"
  shows "at (vt_screen_insert_chars v n) r c =
      (if r \<noteq> y \<or> c < x then at v r c else if c < x + k then blank_cell v else at v r (c - k)) \<and>
    at (vt_screen_delete_chars v n) r c =
      (if r \<noteq> y \<or> c < x then at v r c else if c < cols v - k then at v r (c + k) else blank_cell v)"
  using vt_screen_insert_chars_props(2) [OF assms(1-4)] vt_screen_delete_chars_props(2) [OF assms(1-4)]
  by (simp add: y_def x_def k_def)

theorem shift_chars_cells_witness:
  "at (vt_screen_insert_chars (scr (demo 2 3)) 1) 0 0 = blank_cell (scr (demo 2 3))"
proof -
  have w: "screen_wf (scr (demo 2 3))" using demo_wf [of 2 3] by (simp add: vt_wf_def)
  have g: "rows (scr (demo 2 3)) = 2" "cols (scr (demo 2 3)) = 3" "crow (cur (scr (demo 2 3))) = 0"
    "ccol (cur (scr (demo 2 3))) = 0" by code_simp+
  show ?thesis using shift_chars_cells [OF w, of 1 0 0] by (simp add: g)
qed

section \<open>Resizing\<close>

text \<open>
  A resize for which memory is available keeps the overlapping part of both grids
  cell for cell, fills the rest with empty cells, clamps the size to 1..1000 in both
  directions and resets the scroll region to the whole new screen.
\<close>

theorem resize_keeps_overlap:
  fixes nr nc :: nat
  assumes "screen_wf v" and "g < 2"
  defines "r' \<equiv> clamp_dim VT_ROWS_MAX nr" and "c' \<equiv> clamp_dim VT_COLS_MAX nc"
  defines "v' \<equiv> vt_resize_screen True True v nr nc"
  assumes "(r', c') \<noteq> (rows v, cols v)"
  shows "rows v' = r' \<and> cols v' = c' \<and> scroll_top v' = 0 \<and> scroll_bot v' = r' - 1 \<and>
    (\<forall>r<r'. \<forall>c<c'. grid v' ! g ! (r * c' + c) =
      (if r < rows v \<and> c < cols v then grid v ! g ! (r * cols v + c) else zero_cell))"
proof -
  have d: "0 < r'" "r' \<le> 1000" "0 < c'" "c' \<le> 1000"
    using clamp_dim_range [of 1000 nr] clamp_dim_range [of 1000 nc] by (simp_all add: r'_def c'_def)
  have l: "length (grid v ! g) = rows v * cols v" "length (grid v) = 2"
    using assms(1,2) by (auto simp: screen_wf_def mem_ok_def list_all_length)
  have g2: "g = 0 \<or> g = 1" using assms(2) by auto
  have gr: "grid v' ! g = resize_grid (rows v) (cols v) r' c' (grid v ! g)"
    using assms(6) g2 l(2) d
    by (auto simp: v'_def vt_resize_screen_def Let_def reset_tabstops_eq mark_all_def forget_last_def
        no_wrap_def nth_list_update simp flip: r'_def c'_def)
  have "rows v' = r'" "cols v' = c'" "scroll_top v' = 0" "scroll_bot v' = r' - 1"
    using assms(6) d
    by (auto simp: v'_def vt_resize_screen_def Let_def reset_tabstops_eq mark_all_def forget_last_def
        no_wrap_def simp flip: r'_def c'_def)
  then show ?thesis by (simp add: gr resize_grid_nth [OF l(1)])
qed

theorem resize_keeps_overlap_witness:
  "rows (vt_resize_screen True True (scr (demo 2 3)) 0 5000) = 1 \<and>
   cols (vt_resize_screen True True (scr (demo 2 3)) 0 5000) = 1000"
proof -
  have w: "screen_wf (scr (demo 2 3))" using demo_wf [of 2 3] by (simp add: vt_wf_def)
  have g: "rows (scr (demo 2 3)) = 2" "cols (scr (demo 2 3)) = 3" by code_simp+
  show ?thesis
    using resize_keeps_overlap [OF w, of 0 0 5000] by (simp add: g clamp_dim_def Let_def)
qed

text \<open>
  Claim C27. A resize whose second allocation fails is not the no-op its comment promises:
  the first grid has already been replaced by a smaller one while the recorded size is the
  old one, and the next erase-line sequence writes past the end of the new grid.
\<close>

theorem resize_half_failed_unsafe:
  "\<exists>v bs. vt_wf v \<and> \<not> vt_wf (vt_resize True False v 1 1) \<and>
     ub (scr (vt_feed (vt_resize True False v 1 1) bs))"
proof (intro exI conjI)
  show "vt_wf (demo 1 2)" by (rule demo_wf) simp_all
  show "ub (scr (vt_feed (vt_resize True False (demo 1 2) 1 1) [0x1b, 0x5b, 0x4b]))" by code_simp
  have "length (grid (scr (vt_resize True False (demo 1 2) 1 1)) ! 0) = 1" by code_simp
  moreover have "rows (scr (vt_resize True False (demo 1 2) 1 1)) = 1"
    "cols (scr (vt_resize True False (demo 1 2) 1 1)) = 2" by code_simp+
  ultimately show "\<not> vt_wf (vt_resize True False (demo 1 2) 1 1)"
    by (auto simp: vt_wf_def screen_wf_def mem_ok_def list_all_length)
qed

end
