(* ===== verification/Vt_Stream.thy ===== *)
theory Vt_Stream
  imports Vt_Engine
begin

unbundle bit_operations_syntax

text \<open>
  The engine as a function of its input stream: which bytes make it print, answer a query,
  report a title or keep a sequence pending, followed through the whole state machine from
  \<open>vt_feed\<close> to the screen.
\<close>

section \<open>The parser depends on the bytes alone\<close>

lemmas feed_defs = feed_ground_def feed_escape_def feed_escape_int_def feed_csi_entry_def
  feed_csi_param_def feed_csi_int_def feed_csi_ignore_def feed_osc_def feed_dcs_def feed_dcs_pass_def
  feed_dcs_ignore_def csi_final_def osc_final_def execute_def

lemma par_execute [simp]: "par (execute v b) = par v"
  by (simp add: execute_def)

lemma feed_states_par:
  assumes "par v = par w"
  shows "par (feed_ground v b) = par (feed_ground w b)" "par (feed_escape v b) = par (feed_escape w b)"
    "par (feed_escape_int v b) = par (feed_escape_int w b)"
    "par (feed_csi_entry v b) = par (feed_csi_entry w b)"
    "par (feed_csi_param v b) = par (feed_csi_param w b)"
    "par (feed_csi_int v b) = par (feed_csi_int w b)"
    "par (feed_csi_ignore v b) = par (feed_csi_ignore w b)"
    "par (feed_osc v b) = par (feed_osc w b)" "par (feed_dcs v b) = par (feed_dcs w b)"
    "par (feed_dcs_pass v b) = par (feed_dcs_pass w b)"
    "par (feed_dcs_ignore v b) = par (feed_dcs_ignore w b)" "par (osc_final v) = par (osc_final w)"
  using assms by (simp_all add: feed_defs Let_def split: prod.split)

lemma feed_byte_par_not_max:
  assumes "par v = par w" and "state (par v) \<noteq> ST_MAX"
  shows "par (feed_byte v b) = par (feed_byte w b)"
proof -
  obtain c p where a: "anywhere (par w) b = (c, p)" by force
  show ?thesis
  proof (cases c)
    case True
    then show ?thesis using a assms by (simp add: feed_byte_consumed)
  next
    case False
    then show ?thesis
      using a assms feed_states_par(1-11) [OF assms(1), of b]
      by (subst (1 2) feed_byte.simps) (cases "state (par w)"; simp)
  qed
qed

lemma feed_byte_par:
  assumes "par v = par w"
  shows "par (feed_byte v b) = par (feed_byte w b)"
proof (cases "state (par v) = ST_MAX")
  case True
  then have m: "state (par v) = ST_MAX" "state (par w) = ST_MAX" using assms by simp_all
  show ?thesis
    using assms feed_states_par(12) [OF assms]
    by (simp add: feed_byte_max [OF m(1)] feed_byte_max [OF m(2)] feed_byte_par_not_max)
qed (rule feed_byte_par_not_max [OF assms])

lemma record_pending_par: "par v = par w \<Longrightarrow> par (record_pending v b) = par (record_pending w b)"
  by (simp add: record_pending_def Let_def)

lemma feed_one_par: "par v = par w \<Longrightarrow> par (feed_one v b) = par (feed_one w b)"
  unfolding feed_one_def by (intro record_pending_par feed_byte_par)

text \<open>
  What the parser is in the middle of depends only on the bytes it was fed, never
  on the screen: two engines in the same parser state that read the same bytes end in the
  same parser state, whatever their sizes, contents and callbacks. This is what allows a
  snapshot to carry a half-read sequence to another engine as bytes.
\<close>

theorem parser_ignores_screen:
  assumes "par v = par w"
  shows "par (vt_feed v bs) = par (vt_feed w bs)"
  using assms unfolding vt_feed_def
proof (induction bs arbitrary: v w)
  case (Cons b bs)
  show ?case using Cons.IH [OF feed_one_par [OF Cons.prems, of b]] by simp
qed simp

theorem parser_ignores_screen_witness:
  "par (vt_feed (demo 1 1) [0x1b, 0x5b, 0x33]) = par (vt_feed (demo 2 3) [0x1b, 0x5b, 0x33])"
  by (rule parser_ignores_screen) (simp add: demo_def)

section \<open>Printing through UTF-8\<close>

lemma anywhere_high: "b \<ge> 0x20 \<Longrightarrow> anywhere p b = (False, p)"
proof -
  assume "b \<ge> 0x20"
  then have "b \<noteq> 0x18" "b \<noteq> 0x1a" "b \<noteq> 0x1b" by auto
  then show ?thesis by (simp add: anywhere_def)
qed

lemma feed_byte_ground:
  "state (par v) = ST_GROUND \<Longrightarrow> b \<ge> 0x20 \<Longrightarrow> feed_byte v b = feed_ground v b"
  by (subst feed_byte.simps) (simp add: anywhere_high)

text \<open>Bytes of one encoded character: the decoder rejects none and accepts at the last.\<close>

fun utf8_accepts :: "nat \<Rightarrow> u32 \<Rightarrow> byte list \<Rightarrow> u32 option" where
  "utf8_accepts s cp [] = None"
| "utf8_accepts s cp (b # bs) =
    (let (s', cp') = vt_utf8_step s cp b
     in if b < 0x20 \<or> b = 0x7f \<or> s' = UTF8_REJECT then None
        else if s' = UTF8_ACCEPT then if bs = [] then Some cp' else None
        else utf8_accepts s' cp' bs)"

lemma feed_utf8:
  "utf8_accepts (u8_state (par v)) (u8_cp (par v)) bs = Some cp \<Longrightarrow> state (par v) = ST_GROUND \<Longrightarrow>
    scr (vt_feed v bs) = vt_do_print (scr v) cp \<and> state (par (vt_feed v bs)) = ST_GROUND \<and>
    u8_state (par (vt_feed v bs)) = UTF8_ACCEPT \<and> pending (par (vt_feed v bs)) = []"
proof (induction bs arbitrary: v)
  case (Cons b bs)
  obtain s' cp' where st: "vt_utf8_step (u8_state (par v)) (u8_cp (par v)) b = (s', cp')" by force
  from Cons.prems st have b: "b \<ge> 0x20" "b \<noteq> 0x7f" and s': "s' \<noteq> UTF8_REJECT"
    by (auto split: if_splits)
  have fb: "feed_byte v b = (let v' = v\<lparr>par := (par v)\<lparr>u8_state := s', u8_cp := cp'\<rparr>\<rparr>
      in if s' = UTF8_ACCEPT then v'\<lparr>scr := vt_do_print (scr v) cp'\<rparr> else v')"
    using b s' Cons.prems(2) by (simp add: feed_byte_ground feed_ground_def st Let_def not_less)
  show ?case
  proof (cases "s' = UTF8_ACCEPT")
    case True
    then have "bs = []" "cp' = cp" using Cons.prems(1) st b s' by (auto split: if_splits)
    then show ?thesis
      using fb True Cons.prems(2) by (simp add: vt_feed_def feed_one_def record_pending_def Let_def)
  next
    case False
    define w where "w = feed_one v b"
    have w: "scr w = scr v" "state (par w) = ST_GROUND" "u8_state (par w) = s'" "u8_cp (par w) = cp'"
      using False fb Cons.prems(2) by (simp_all add: w_def feed_one_def record_pending_def Let_def)
    have "utf8_accepts s' cp' bs = Some cp" using Cons.prems(1) st b s' False by (auto split: if_splits)
    then show ?thesis using Cons.IH [of w] w by (simp add: vt_feed_def flip: w_def)
  qed
qed simp

lemma utf8_reject_absorbs: "fst (utf8_run (UTF8_REJECT, cp) bs) = UTF8_REJECT"
proof (induction bs arbitrary: cp)
  case (Cons b bs)
  have "fst (vt_utf8_step UTF8_REJECT cp b) = UTF8_REJECT"
    by (subst utf8_step_state) (auto simp: utf8_states_def utf8_next_state_def)
  then show ?case using Cons by (cases "vt_utf8_step UTF8_REJECT cp b") simp
qed simp

lemma utf8_accept_cont:
  assumes "0x80 \<le> unat b" "unat b < 0xc0"
  shows "fst (vt_utf8_step UTF8_ACCEPT cp b) = UTF8_REJECT"
  using assms by (subst utf8_step_state) (auto simp: utf8_class_cont utf8_next_state_def)

lemma utf8_run_accepts:
  assumes "utf8_run (s, c) bs = (UTF8_ACCEPT, cp)" "bs \<noteq> []"
    "\<forall>b\<in>set (tl bs). 0x80 \<le> unat b \<and> unat b < 0xc0" "hd bs \<ge> 0x20" "hd bs \<noteq> 0x7f"
  shows "utf8_accepts s c bs = Some cp"
  using assms
proof (induction bs arbitrary: s c)
  case (Cons b bs)
  obtain s' c' where st: "vt_utf8_step s c b = (s', c')" by force
  have run: "utf8_run (s', c') bs = (UTF8_ACCEPT, cp)" using Cons.prems(1) st by simp
  have r: "s' \<noteq> UTF8_REJECT" using run utf8_reject_absorbs [of c' bs] by auto
  show ?case
  proof (cases bs)
    case Nil
    then show ?thesis using run r Cons.prems st by (simp add: not_less)
  next
    case (Cons d ds)
    have d: "0x80 \<le> unat d" "unat d < 0xc0" using Cons.prems(3) Cons by auto
    have a: "s' \<noteq> UTF8_ACCEPT"
    proof
      assume "s' = UTF8_ACCEPT"
      then have "fst (utf8_run (s', c') bs) = UTF8_REJECT"
        using utf8_accept_cont [OF d, of c'] utf8_reject_absorbs [of _ ds] Cons
        by (cases "vt_utf8_step UTF8_ACCEPT c' d") simp
      with run show False by simp
    qed
    have "hd bs \<ge> 0x20" "hd bs \<noteq> 0x7f" using d Cons by (auto simp: word_le_nat_alt)
    then have "utf8_accepts s' c' bs = Some cp"
      using Cons.IH [OF run] Cons Cons.prems(3) by auto
    then show ?thesis using a r st Cons.prems by (simp add: not_less)
  qed
qed simp

lemma emit_utf8_shape:
  assumes "is_scalar cp" "cp \<ge> 0x20" "cp \<noteq> 0x7f"
  shows "emit_utf8 cp \<noteq> []" "\<forall>b\<in>set (tl (emit_utf8 cp)). 0x80 \<le> unat b \<and> unat b < 0xc0"
    "hd (emit_utf8 cp) \<ge> 0x20" "hd (emit_utf8 cp) \<noteq> 0x7f"
proof -
  have n: "unat cp < 0x200000" "0x20 \<le> unat cp"
    using assms by (auto simp: is_scalar_nat word_le_nat_alt)
  have n3: "unat cp \<noteq> 0x7f"
  proof
    assume "unat cp = 0x7f"
    then have "(of_nat (unat cp) :: u32) = 0x7f" by simp
    then show False using assms(3) by simp
  qed
  let ?e = "map unat (emit_utf8 cp)"
  have e: "?e = (let n = unat cp in
     if n < 0x80 then [n]
     else if n < 0x800 then [0xc0 + n div 64, 0x80 + n mod 64]
     else if n < 0x10000 then [0xe0 + n div 4096, 0x80 + n div 64 mod 64, 0x80 + n mod 64]
     else [0xf0 + n div 262144, 0x80 + n div 4096 mod 64, 0x80 + n div 64 mod 64, 0x80 + n mod 64])"
    using n(1) by (subst emit_utf8_nat) (simp add: Let_def)
  show ne: "emit_utf8 cp \<noteq> []" using e by (auto simp: Let_def split: if_splits)
  have "list_all (\<lambda>x. 0x80 \<le> x \<and> x < 0xc0) (tl ?e)" by (subst e) (simp add: Let_def)
  then show "\<forall>b\<in>set (tl (emit_utf8 cp)). 0x80 \<le> unat b \<and> unat b < 0xc0"
    by (simp add: list_all_iff map_tl [symmetric])
  have "0x20 \<le> hd ?e \<and> hd ?e \<noteq> 0x7f" using n n3 unfolding e by (simp add: Let_def)
  then have h: "0x20 \<le> unat (hd (emit_utf8 cp))" "unat (hd (emit_utf8 cp)) \<noteq> 0x7f"
    using ne by (simp_all add: hd_map)
  then show "hd (emit_utf8 cp) \<ge> 0x20" by (simp add: word_le_nat_alt)
  from h show "hd (emit_utf8 cp) \<noteq> 0x7f" by auto
qed

text \<open>
  Claim C20. Every printable Unicode scalar value reaches the screen whole: from the ground
  state, the bytes of its UTF-8 encoding have the same effect as printing the code point,
  print nothing else, and leave the parser idle with nothing pending, however the bytes are
  split between feeds.
\<close>

theorem utf8_feed_prints:
  assumes "state (par v) = ST_GROUND" and "u8_state (par v) = UTF8_ACCEPT"
    and "is_scalar cp" and "cp \<ge> 0x20" and "cp \<noteq> 0x7f" and "emit_utf8 cp = bs @ cs"
  shows "scr (vt_feed (vt_feed v bs) cs) = vt_do_print (scr v) cp \<and>
    state (par (vt_feed (vt_feed v bs) cs)) = ST_GROUND \<and>
    u8_state (par (vt_feed (vt_feed v bs) cs)) = UTF8_ACCEPT \<and>
    pending (par (vt_feed (vt_feed v bs) cs)) = []"
proof -
  have "vt_feed (vt_feed v bs) cs = vt_feed v (emit_utf8 cp)" by (simp add: vt_feed_def assms(6))
  moreover have "utf8_accepts (u8_state (par v)) (u8_cp (par v)) (emit_utf8 cp) = Some cp"
    using utf8_run_accepts [OF utf8_decode_emit [OF assms(3)] emit_utf8_shape [OF assms(3-5)]] assms(2)
    by simp
  ultimately show ?thesis using feed_utf8 [OF _ assms(1)] by simp
qed

theorem utf8_feed_prints_witness:
  "scr (vt_feed (vt_feed (demo 1 4) [0xe2, 0x82]) [0xac]) = vt_do_print (scr (demo 1 4)) 0x20ac"
proof -
  have "emit_utf8 0x20ac = [0xe2, 0x82] @ [0xac]" by code_simp
  moreover have "is_scalar 0x20ac" by code_simp
  ultimately show ?thesis
    using utf8_feed_prints [of "demo 1 4" "0x20ac" "[0xe2, 0x82]" "[0xac]"]
    by (simp add: demo_def zero_parser_def)
qed

text \<open>
  One byte that can never occur in UTF-8 (0xF5 to 0xFF) is shown as two
  replacement characters: the retry of the rejected byte leaves the decoder in its reject
  state, and the next byte, although valid, is rejected once more before it prints.
\<close>

theorem invalid_byte_printed_twice:
  "map ccp (line (scr (vt_feed (demo 1 4) [0xff, 0x41])) 0) = [0xfffd, 0xfffd, 0x41, 0]"
  by code_simp

section \<open>Parameters\<close>

fun decimal :: "nat \<Rightarrow> byte list \<Rightarrow> nat" where
  "decimal n [] = n"
| "decimal n (b # bs) = decimal (n * 10 + (unat b - 48)) bs"

abbreviation (input) is_digit :: "byte \<Rightarrow> bool" where
  "is_digit b \<equiv> b \<ge> 0x30 \<and> b \<le> 0x39"

lemma collect_digit:
  assumes "length (params p) = 16" "length (param_seen p) = 16" "nparams p < 16" "is_digit b"
    and "unat (params p ! nparams p) = min n 9999999"
  defines "q \<equiv> collect_param p b"
  shows "unat (params q ! nparams q) = min (n * 10 + (unat b - 48)) 9999999"
    and "param_seen q ! nparams q" and "nparams q = nparams p" and "length (params q) = 16"
    and "length (param_seen q) = 16"
proof -
  let ?c = "params p ! nparams p"
  have b: "b \<noteq> 0x3b" using assms(4) by auto
  have d: "unat (ucast b - 0x30 :: u32) = unat b - 48" "unat b - 48 \<le> 9"
    using assms(4) by (auto simp: unat_sub word_le_nat_alt unat_ucast_byte)
  have q: "q = p\<lparr>params := (params p)[nparams p := (if ?c > 999999 then 9999999 else ?c * 10 + (ucast b - 0x30))],
      param_seen := (param_seen p)[nparams p := True]\<rparr>"
    using b assms(3) by (simp add: q_def collect_param_def Let_def)
  have "unat (if ?c > 999999 then 9999999 else ?c * 10 + (ucast b - 0x30)) = min (n * 10 + (unat b - 48)) 9999999"
  proof (cases "?c > 999999")
    case True
    then have "999999 < min n 9999999" using assms(5) by (simp add: word_less_nat_alt)
    then show ?thesis using True by simp
  next
    case False
    then have c: "unat ?c = n" "n \<le> 999999" using assms(5) by (auto simp: word_less_nat_alt)
    then have "unat (?c * 10) = n * 10" by (simp add: unat_word_ariths)
    then have "unat (?c * 10 + (ucast b - 0x30)) = n * 10 + (unat b - 48)"
      using c d by (simp add: unat_word_ariths)
    then show ?thesis using False c d by simp
  qed
  then show "unat (params q ! nparams q) = min (n * 10 + (unat b - 48)) 9999999"
    using assms(1,3) by (simp add: q del: if_split)
  show "param_seen q ! nparams q" "nparams q = nparams p" "length (params q) = 16" "length (param_seen q) = 16"
    using assms(1-3) by (simp_all add: q)
qed

text \<open>What recording a byte for replay leaves alone.\<close>

lemma record_pending_frame [simp]:
  "scr (record_pending v b) = scr v" "state (par (record_pending v b)) = state (par v)"
  "params (par (record_pending v b)) = params (par v)"
  "param_seen (par (record_pending v b)) = param_seen (par v)"
  "nparams (par (record_pending v b)) = nparams (par v)"
  "ninter (par (record_pending v b)) = ninter (par v)" "priv (par (record_pending v b)) = priv (par v)"
  "inters (par (record_pending v b)) = inters (par v)" "osc (par (record_pending v b)) = osc (par v)"
  "osc_overflow (par (record_pending v b)) = osc_overflow (par v)"
  "u8_state (par (record_pending v b)) = u8_state (par v)"
  by (simp_all add: record_pending_def Let_def)

lemma feed_byte_csi:
  assumes "b \<ge> 0x20"
  shows "state (par v) = ST_CSI_ENTRY \<Longrightarrow> feed_byte v b = feed_csi_entry v b"
    and "state (par v) = ST_CSI_PARAM \<Longrightarrow> feed_byte v b = feed_csi_param v b"
    and "state (par v) = ST_ESCAPE \<Longrightarrow> feed_byte v b = feed_escape v b"
    and "state (par v) = ST_OSC_STRING \<Longrightarrow> feed_byte v b = feed_osc v b"
  using assms by (subst feed_byte.simps, simp add: anywhere_high)+

lemma digit_facts: "is_digit b \<Longrightarrow> b \<ge> 0x20 \<and> \<not> b < 0x20 \<and> \<not> (0x3c \<le> b \<and> b \<le> 0x3f) \<and> b \<noteq> 0x3b"
  by (auto simp: word_le_nat_alt word_less_nat_alt)

lemma feed_digit:
  assumes "is_digit b" "state (par v) = ST_CSI_ENTRY \<or> state (par v) = ST_CSI_PARAM"
  shows "feed_byte v b = v\<lparr>par := (collect_param (par v) b)\<lparr>state := ST_CSI_PARAM\<rparr>\<rparr>"
proof -
  have c: "state (collect_param p b) = state p" for p
    by (simp add: collect_param_def Let_def)
  have p: "p\<lparr>state := s\<rparr> = p" if "state p = s" for p s using that by simp
  from assms show ?thesis
    using digit_facts [OF assms(1)]
    by (auto simp: feed_byte_csi feed_csi_entry_def feed_csi_param_def Let_def p c)
qed

lemma feed_digits:
  assumes "list_all is_digit ds" "state (par v) = ST_CSI_ENTRY \<or> state (par v) = ST_CSI_PARAM"
    "length (params (par v)) = 16" "length (param_seen (par v)) = 16" "nparams (par v) < 16"
    "unat (params (par v) ! nparams (par v)) = min n 9999999"
  defines "w \<equiv> vt_feed v ds"
  shows "scr w = scr v \<and> nparams (par w) = nparams (par v) \<and> ninter (par w) = ninter (par v) \<and>
    priv (par w) = priv (par v) \<and> length (params (par w)) = 16 \<and> length (param_seen (par w)) = 16 \<and>
    unat (params (par w) ! nparams (par v)) = min (decimal n ds) 9999999 \<and>
    (ds \<noteq> [] \<longrightarrow> state (par w) = ST_CSI_PARAM \<and> param_seen (par w) ! nparams (par v)) \<and>
    (\<forall>i. i \<noteq> nparams (par v) \<longrightarrow> params (par w) ! i = params (par v) ! i \<and>
      param_seen (par w) ! i = param_seen (par v) ! i)"
  unfolding w_def using assms(1-6)
proof (induction ds arbitrary: v n)
  case (Cons b ds)
  then have b: "is_digit b" by simp
  define u where "u = feed_one v b"
  define q where "q = collect_param (par v) b"
  note C = collect_digit [OF Cons.prems(3-5) b Cons.prems(6), folded q_def]
  have fu: "feed_byte v b = v\<lparr>par := q\<lparr>state := ST_CSI_PARAM\<rparr>\<rparr>"
    unfolding q_def by (rule feed_digit [OF b Cons.prems(2)])
  have U: "scr u = scr v" "state (par u) = ST_CSI_PARAM" "params (par u) = params q"
    "param_seen (par u) = param_seen q" "nparams (par u) = nparams q" "ninter (par u) = ninter q"
    "priv (par u) = priv q"
    by (simp_all add: u_def feed_one_def fu)
  have o: "ninter q = ninter (par v)" "priv q = priv (par v)"
    "\<And>i. i \<noteq> nparams (par v) \<Longrightarrow> params q ! i = params (par v) ! i \<and> param_seen q ! i = param_seen (par v) ! i"
    by (auto simp: q_def collect_param_def Let_def)
  have pre: "unat (params (par u) ! nparams (par u)) = min (n * 10 + (unat b - 48)) 9999999"
    "length (params (par u)) = 16" "length (param_seen (par u)) = 16" "nparams (par u) < 16"
    using C U Cons.prems(5) by simp_all
  note IH = Cons.IH [of u, OF _ _ pre(2-4,1)]
  have seen: "ds = [] \<Longrightarrow> param_seen (par (vt_feed u ds)) ! nparams q" using C(2) U by (simp add: vt_feed_def)
  have st: "ds = [] \<Longrightarrow> state (par (vt_feed u ds)) = ST_CSI_PARAM" using U by (simp add: vt_feed_def)
  have "vt_feed v (b # ds) = vt_feed u ds" by (simp add: vt_feed_def u_def)
  then show ?case
    using IH Cons.prems(1) U C(3) o seen st by (cases "ds = []") auto
qed (simp add: vt_feed_def)

lemma decimal_snoc: "decimal n (xs @ [b]) = decimal n xs * 10 + (unat b - 48)"
  by (induction xs arbitrary: n) simp_all

lemma unat_digit: "n < 10 \<Longrightarrow> unat (0x30 + of_nat n :: byte) = 48 + n"
proof -
  assume "n < 10"
  then have "unat (of_nat n :: byte) = n" by (simp add: unat_of_nat)
  then show ?thesis using \<open>n < 10\<close> by (simp add: unat_word_ariths)
qed

lemma dec_digits_props:
  "dec_digits n \<noteq> [] \<and> list_all is_digit (dec_digits n) \<and> decimal 0 (dec_digits n) = n"
proof (induction n rule: dec_digits.induct)
  case (1 n)
  show ?case
  proof (cases "n < 10")
    case True
    then show ?thesis
      by (subst (1 2 3) dec_digits.simps) (simp add: word_le_nat_alt unat_digit)
  next
    case False
    have "n mod 10 < 10" by simp
    then show ?thesis
      using False 1 [OF False]
      by (subst (1 2 3) dec_digits.simps) (simp add: word_le_nat_alt unat_digit decimal_snoc)
  qed
qed

lemma vt_feed_Nil [simp]: "vt_feed v [] = v"
  by (simp add: vt_feed_def)

lemma vt_feed_append: "vt_feed v (xs @ ys) = vt_feed (vt_feed v xs) ys"
  by (simp add: vt_feed_def)

lemma vt_feed_Cons: "vt_feed v (b # bs) = vt_feed (feed_one v b) bs"
  by (simp add: vt_feed_def)

lemma feed_esc:
  assumes "state (par v) = ST_GROUND"
  shows "feed_byte v 0x1b = v\<lparr>par := (clear_seq (par v))\<lparr>state := ST_ESCAPE\<rparr>\<rparr>"
  using assms by (simp add: feed_byte_consumed anywhere_def)

lemma feed_csi_intro:
  assumes "state (par v) = ST_GROUND"
  defines "w \<equiv> vt_feed v [0x1b, 0x5b]"
  shows "scr w = scr v" "state (par w) = ST_CSI_ENTRY" "params (par w) = replicate 16 0"
    "param_seen (par w) = replicate 16 False" "nparams (par w) = 0" "ninter (par w) = 0" "priv (par w) = 0"
    "u8_state (par w) = UTF8_ACCEPT"
  using assms(1)
  by (simp_all add: w_def vt_feed_Cons feed_one_def feed_esc feed_byte_csi(3) feed_escape_def Let_def clear_seq_def)

lemma feed_csi_final:
  assumes "state (par v) = ST_CSI_PARAM" "0x40 \<le> b" "b \<le> 0x7e"
  shows "feed_byte v b = csi_final v b"
proof -
  have "b \<ge> 0x20" "\<not> b < 0x20" "\<not> (0x30 \<le> b \<and> b \<le> 0x39)" "b \<noteq> 0x3b" "b \<noteq> 0x3a" "\<not> (0x3c \<le> b \<and> b \<le> 0x3f)"
    "\<not> (0x20 \<le> b \<and> b \<le> 0x2f)"
    using assms(2,3) by (auto simp: word_le_nat_alt word_less_nat_alt)
  then show ?thesis using assms by (auto simp: feed_byte_csi feed_csi_param_def Let_def)
qed

lemma sint_unat: "unat (w :: u32) \<le> 9999999 \<Longrightarrow> sint w = int (unat w)"
proof -
  assume w: "unat w \<le> 9999999"
  have e: "uint w = int (unat w)" by simp
  then have "- 2147483648 \<le> uint w" "uint w \<le> 9999999" using w by linarith+
  then have "signed_take_bit 31 (uint w) = uint w" by (intro signed_take_bit_int_eq_self) auto
  then show ?thesis by (simp add: sint_uint)
qed

text \<open>A sequence with one or two decimal parameters, as the dispatch functions see it.\<close>

lemma feed_csi_one:
  assumes "state (par v) = ST_GROUND" "a \<le> 9999999" "0x40 \<le> b" "b \<le> 0x7e"
  defines "w \<equiv> vt_feed v ([0x1b, 0x5b] @ dec_digits a @ [b])"
  obtains p where "scr w = vt_do_csi p (scr v) b" "state (par w) = ST_GROUND" "nparams p = 1"
    "\<And>d. vt_param p 0 d = int a" "ninter p = 0" "priv p = 0"
proof -
  define v1 where "v1 = vt_feed v [0x1b, 0x5b]"
  note I = feed_csi_intro [OF assms(1), folded v1_def]
  define v2 where "v2 = vt_feed v1 (dec_digits a)"
  have pre: "list_all is_digit (dec_digits a)" "state (par v1) = ST_CSI_ENTRY \<or> state (par v1) = ST_CSI_PARAM"
    "length (params (par v1)) = 16" "length (param_seen (par v1)) = 16" "nparams (par v1) < 16"
    "unat (params (par v1) ! nparams (par v1)) = min 0 9999999"
    using dec_digits_props [of a] I by simp_all
  note D = feed_digits [OF pre, folded v2_def, unfolded I]
  have D0: "unat (params (par v2) ! 0) = a" "state (par v2) = ST_CSI_PARAM" "param_seen (par v2) ! 0"
    "nparams (par v2) = 0"
    using D dec_digits_props [of a] assms(2) by simp_all
  define p where "p = finish_params (par v2)"
  have w: "w = record_pending (csi_final v2 b) b"
    unfolding w_def vt_feed_append v1_def [symmetric] v2_def [symmetric]
    using D0(2) assms(3,4) by (simp add: vt_feed_Cons feed_one_def feed_csi_final)
  have P: "nparams p = 1" "params p = params (par v2)" "param_seen p = param_seen (par v2)"
    "ninter p = 0" "priv p = 0"
    using D0 D by (simp_all add: p_def finish_params_def)
  show thesis
  proof (rule that [of p])
    show "scr w = vt_do_csi p (scr v) b" using D by (simp add: w csi_final_def Let_def p_def)
    show "state (par w) = ST_GROUND" by (simp add: w csi_final_def Let_def)
    show "vt_param p 0 d = int a" for d using P D0 assms(2) by (simp add: vt_param_def sint_unat)
  qed (use P in simp_all)
qed

lemma feed_csi_two:
  assumes "state (par v) = ST_GROUND" "a \<le> 9999999" "c \<le> 9999999" "0x40 \<le> b" "b \<le> 0x7e"
  defines "w \<equiv> vt_feed v ([0x1b, 0x5b] @ dec_digits a @ [0x3b] @ dec_digits c @ [b])"
  obtains p where "scr w = vt_do_csi p (scr v) b" "state (par w) = ST_GROUND" "nparams p = 2"
    "\<And>d. vt_param p 0 d = int a" "\<And>d. vt_param p 1 d = int c" "ninter p = 0" "priv p = 0"
proof -
  define v1 where "v1 = vt_feed v [0x1b, 0x5b]"
  note I = feed_csi_intro [OF assms(1), folded v1_def]
  define v2 where "v2 = vt_feed v1 (dec_digits a)"
  have pre: "list_all is_digit (dec_digits a)" "state (par v1) = ST_CSI_ENTRY \<or> state (par v1) = ST_CSI_PARAM"
    "length (params (par v1)) = 16" "length (param_seen (par v1)) = 16" "nparams (par v1) < 16"
    "unat (params (par v1) ! nparams (par v1)) = min 0 9999999"
    using dec_digits_props [of a] I by simp_all
  note D = feed_digits [OF pre, folded v2_def, unfolded I]
  have D0: "unat (params (par v2) ! 0) = a" "state (par v2) = ST_CSI_PARAM" "param_seen (par v2) ! 0"
    "nparams (par v2) = 0" "params (par v2) ! 1 = 0"
    using D dec_digits_props [of a] assms(2) by simp_all
  define v3 where "v3 = feed_one v2 0x3b"
  have V3: "scr v3 = scr v2" "state (par v3) = ST_CSI_PARAM" "nparams (par v3) = 1"
    "params (par v3) = params (par v2)" "param_seen (par v3) = param_seen (par v2)"
    "ninter (par v3) = ninter (par v2)" "priv (par v3) = priv (par v2)"
    using D0(2,4)
    by (simp_all add: v3_def feed_one_def feed_byte_csi(2) feed_csi_param_def Let_def collect_param_def)
  define v4 where "v4 = vt_feed v3 (dec_digits c)"
  have pre2: "list_all is_digit (dec_digits c)" "state (par v3) = ST_CSI_ENTRY \<or> state (par v3) = ST_CSI_PARAM"
    "length (params (par v3)) = 16" "length (param_seen (par v3)) = 16" "nparams (par v3) < 16"
    "unat (params (par v3) ! nparams (par v3)) = min 0 9999999"
    using dec_digits_props [of c] V3 D D0 by simp_all
  note E = feed_digits [OF pre2, folded v4_def, unfolded V3]
  have E0: "unat (params (par v4) ! 1) = c" "state (par v4) = ST_CSI_PARAM" "param_seen (par v4) ! 1"
    "nparams (par v4) = 1" "params (par v4) ! 0 = params (par v2) ! 0" "param_seen (par v4) ! 0"
    using E dec_digits_props [of c] assms(3) D0 by simp_all
  define p where "p = finish_params (par v4)"
  have "w = vt_feed (vt_feed (vt_feed v2 [0x3b]) (dec_digits c)) [b]"
    unfolding w_def vt_feed_append v1_def [symmetric] v2_def [symmetric] ..
  also have "\<dots> = feed_one v4 b" by (simp add: vt_feed_Cons v4_def v3_def)
  finally have w: "w = record_pending (csi_final v4 b) b"
    using E0(2) assms(4,5) by (simp add: feed_one_def feed_csi_final)
  have P: "nparams p = 2" "params p = params (par v4)" "param_seen p = param_seen (par v4)"
    "ninter p = 0" "priv p = 0"
    using E0 E D by (simp_all add: p_def finish_params_def)
  show thesis
  proof (rule that [of p])
    show "scr w = vt_do_csi p (scr v) b" using D E by (simp add: w csi_final_def Let_def p_def)
    show "state (par w) = ST_GROUND" by (simp add: w csi_final_def Let_def)
    show "vt_param p 0 d = int a" for d using P D0 E0 assms(2) by (simp add: vt_param_def sint_unat)
    show "vt_param p 1 d = int c" for d using P E0 assms(3) by (simp add: vt_param_def sint_unat)
  qed (use P in simp_all)
qed

section \<open>Cursor addressing and the cursor report\<close>

lemma move_cursor_home:
  assumes "screen_wf v" "\<not> mode_on v VT_MODE_DECOM" "1 \<le> r" "r \<le> rows v" "1 \<le> c" "c \<le> cols v"
  shows "vt_screen_move_cursor v (int r - 1) (int c - 1) =
    v\<lparr>cur := (cur v)\<lparr>crow := r - 1, ccol := c - 1, pending_wrap := False\<rparr>, last_valid := False\<rparr>"
proof -
  have "nat (min (int (rows v) - 1) (max 0 (int r - 1))) = r - 1"
    "nat (min (int (cols v) - 1) (max 0 (int c - 1))) = c - 1"
    using assms(3-6) by auto
  then show ?thesis using assms(2) by (simp add: vt_screen_move_cursor_eq [OF assms(1)])
qed

text \<open>
  Claim C18. An application that moves the cursor with \<open>CUP\<close> and asks where it is with
  \<open>DSR 6\<close> gets back, in the same decimal form, exactly the position it asked for, as one
  response and nothing else; the cells of both grids are not touched. This follows the
  bytes through the parser, the parameter collection, the dispatch and the formatting of
  the reply.
\<close>

theorem cup_cpr_roundtrip:
  assumes "vt_wf v" and "state (par v) = ST_GROUND" and "on_response (cb (scr v))"
    and "\<not> mode_on (scr v) VT_MODE_DECOM"
    and "1 \<le> r" and "r \<le> rows (scr v)" and "1 \<le> c" and "c \<le> cols (scr v)"
  defines "w \<equiv> vt_feed v (([0x1b, 0x5b] @ dec_digits r @ [0x3b] @ dec_digits c @ [0x48])
    @ ([0x1b, 0x5b] @ dec_digits 6 @ [0x6e]))"
  shows "vt_get_cursor (scr w) = (r - 1, c - 1, mode_on (scr v) VT_MODE_DECTCEM) \<and>
    grid (scr w) = grid (scr v) \<and>
    out (scr w) = out (scr v) @ [Response ([0x1b, 0x5b] @ dec_digits r @ [0x3b] @ dec_digits c @ [0x52])]"
proof -
  note B = wf_bounds [OF vt_wf_parts(1) [OF assms(1)]]
  define u where "u = vt_feed v ([0x1b, 0x5b] @ dec_digits r @ [0x3b] @ dec_digits c @ [0x48])"
  have rc: "r \<le> 9999999" "c \<le> 9999999" using assms(6,8) B by auto
  have b: "(0x40 :: byte) \<le> 0x48" "(0x48 :: byte) \<le> 0x7e" "(0x40 :: byte) \<le> 0x6e" "(0x6e :: byte) \<le> 0x7e"
    by simp_all
  obtain p where p: "scr u = vt_do_csi p (scr v) 0x48" "state (par u) = ST_GROUND" "nparams p = 2"
    "\<And>d. vt_param p 0 d = int r" "\<And>d. vt_param p 1 d = int c" "ninter p = 0" "priv p = 0"
    by (rule feed_csi_two [OF assms(2) rc b(1,2), folded u_def]) (rule that)
  have su: "scr u = (scr v)\<lparr>cur := (cur (scr v))\<lparr>crow := r - 1, ccol := c - 1, pending_wrap := False\<rparr>,
      last_valid := False\<rparr>"
    using p assms(4-8) vt_wf_parts(1) [OF assms(1)]
    by (simp add: vt_do_csi_def vt_do_csi_plain_def Let_def move_cursor_home)
  have six: "(6 :: nat) \<le> 9999999" by simp
  have wu: "w = vt_feed u ([0x1b, 0x5b] @ dec_digits 6 @ [0x6e])"
    unfolding w_def u_def vt_feed_append [symmetric] ..
  obtain q where q: "scr w = vt_do_csi q (scr u) 0x6e" "state (par w) = ST_GROUND" "nparams q = 1"
    "\<And>d. vt_param q 0 d = int 6" "ninter q = 0" "priv q = 0"
    by (rule feed_csi_one [OF p(2) six b(3,4), folded wu]) (rule that)
  have s: "nat (int (r - Suc 0) + 1) = r" "nat (int (c - Suc 0) + 1) = c" using assms(5,7) by auto
  have l: "length (dec_digits r) \<le> 4" "length (dec_digits c) \<le> 4"
    using assms(6,8) B by (auto intro!: length_dec_digits)
  have "scr w = respond_fmt (scr u) ([0x1b, 0x5b] @ dec_digits r @ [0x3b] @ dec_digits c @ [0x52])"
    using q assms(4)
    by (simp add: vt_do_csi_def vt_do_csi_plain_def Let_def do_dsr_def su dec_int_def s)
  then show ?thesis
    using l assms(3) by (simp add: respond_fmt_def respond_def emit_event_def su vt_get_cursor_def)
qed

text \<open>An engine with every callback installed.\<close>

definition loud :: "nat \<Rightarrow> nat \<Rightarrow> vt" where
  "loud r c = \<lparr>scr = vt_screen_reset (zero_screen r c
     \<lparr>on_response = True, on_scrollback_line = True, on_title = True, on_bell = True,
      on_passthrough = True\<rparr>), par = zero_parser\<rparr>"

lemma loud_wf: "0 < r \<Longrightarrow> r \<le> 1000 \<Longrightarrow> 0 < c \<Longrightarrow> c \<le> 1000 \<Longrightarrow> vt_wf (loud r c)"
  by (rule vt_new_wf [of True True True r c "Some \<lparr>on_response = True, on_scrollback_line = True,
      on_title = True, on_bell = True, on_passthrough = True\<rparr>"])
    (simp add: vt_new_def loud_def clamp_dim_def Let_def)

theorem cup_cpr_roundtrip_witness:
  "out (scr (vt_feed (loud 24 80) (([0x1b, 0x5b] @ dec_digits 12 @ [0x3b] @ dec_digits 40 @ [0x48])
    @ ([0x1b, 0x5b] @ dec_digits 6 @ [0x6e])))) =
   [Response ([0x1b, 0x5b] @ dec_digits 12 @ [0x3b] @ dec_digits 40 @ [0x52])]"
proof -
  have w: "vt_wf (loud 24 80)" by (rule loud_wf) simp_all
  have m: "mem_ok (zero_screen 24 80 k)" for k by (simp add: mem_ok_def zero_screen_def list_all_length)
  have g: "state (par (loud 24 80)) = ST_GROUND" "on_response (cb (scr (loud 24 80)))"
    "modes (scr (loud 24 80)) AND VT_MODE_DECOM = 0" "rows (scr (loud 24 80)) = 24"
    "cols (scr (loud 24 80)) = 80" "out (scr (loud 24 80)) = []"
    by (simp_all add: loud_def vt_screen_reset_eq m) (simp_all add: zero_screen_def zero_parser_def)
  show ?thesis using cup_cpr_roundtrip [OF w g(1,2), of 12 40] by (simp add: g)
qed

text \<open>
  The cursor report can be negative: in origin mode a cursor restored to a row
  above the scroll region is reported relative to the region's top, and the reply carries a
  minus sign, which no terminal protocol parser accepts as a parameter.
\<close>

theorem cpr_negative_row:
  "\<exists>bs. out (scr (vt_feed (loud 5 5) bs)) = [Response [0x1b, 0x5b, 0x2d, 0x31, 0x3b, 0x31, 0x52]]"
proof
  show "out (scr (vt_feed (loud 5 5)
      ([0x1b, 0x5b, 0x3f, 0x36, 0x68] @ [0x1b, 0x37] @ [0x1b, 0x5b, 0x33, 0x3b, 0x35, 0x72] @
       [0x1b, 0x38] @ [0x1b, 0x5b, 0x36, 0x6e]))) =
    [Response [0x1b, 0x5b, 0x2d, 0x31, 0x3b, 0x31, 0x52]]"
    by code_simp
qed

section \<open>Titles\<close>

abbreviation (input) osc_byte :: "byte \<Rightarrow> bool" where
  "osc_byte b \<equiv> b \<ge> 0x20 \<or> b = 0"

lemma feed_osc_byte:
  assumes "osc_byte b" "state (par v) = ST_OSC_STRING"
  shows "feed_byte v b = v\<lparr>par := osc_put (par v) b\<rparr>"
proof -
  have "b \<noteq> 0x18" "b \<noteq> 0x1a" "b \<noteq> 0x1b" "b \<noteq> 0x07" using assms(1) by auto
  then have "anywhere (par v) b = (False, par v)" by (simp add: anywhere_def)
  then show ?thesis
    using assms \<open>b \<noteq> 0x1b\<close> \<open>b \<noteq> 0x07\<close> by (subst feed_byte.simps) (auto simp: feed_osc_def)
qed

lemma feed_osc_bytes:
  assumes "list_all osc_byte bs" "state (par v) = ST_OSC_STRING" "length (osc (par v)) \<le> 4095"
  defines "w \<equiv> vt_feed v bs"
  shows "scr w = scr v \<and> state (par w) = ST_OSC_STRING \<and> osc (par w) = take 4095 (osc (par v) @ bs) \<and>
    (osc_overflow (par w) \<longleftrightarrow> osc_overflow (par v) \<or> length (osc (par v)) + length bs > 4095)"
  unfolding w_def using assms(1-3)
proof (induction bs arbitrary: v)
  case (Cons b bs)
  have b: "osc_byte b" using Cons.prems(1) by simp
  define u where "u = feed_one v b"
  have U: "scr u = scr v" "state (par u) = ST_OSC_STRING" "osc (par u) = take 4095 (osc (par v) @ [b])"
    "osc_overflow (par u) \<longleftrightarrow> osc_overflow (par v) \<or> length (osc (par v)) \<ge> 4095"
    using Cons.prems(2,3)
    by (auto simp: u_def feed_one_def feed_osc_byte [OF b Cons.prems(2)] osc_put_def)
  have l: "length (osc (par u)) \<le> 4095" by (simp add: U)
  have t: "take 4095 (take 4095 (osc (par v) @ [b]) @ bs) = take 4095 (osc (par v) @ b # bs)"
    using Cons.prems(3) by (cases "length (osc (par v)) = 4095") (auto simp: min_def take_Cons')
  have n: "length (osc (par u)) = min 4095 (length (osc (par v)) + 1)" by (simp add: U)
  have "list_all osc_byte bs" using Cons.prems(1) by simp
  note IH = Cons.IH [OF this U(2) l]
  have "osc_overflow (par (vt_feed u bs)) \<longleftrightarrow> osc_overflow (par v) \<or> length (osc (par v)) + length (b # bs) > 4095"
    using IH U(4) n Cons.prems(3) by (cases "length (osc (par v)) = 4095") auto
  moreover have "osc (par (vt_feed u bs)) = take 4095 (osc (par v) @ b # bs)"
    using IH unfolding U(3) t by blast
  ultimately show ?case
    unfolding vt_feed_Cons u_def [symmetric] using IH U(1) by simp
qed simp

text \<open>
  A window title: an \<open>OSC 0\<close> or \<open>OSC 2\<close> string reports the title and forwards the
  original bytes unchanged, whatever the title contains (UTF-8, NUL), and touches nothing on
  the screen. A title longer than the buffer is truncated to its first 4093 bytes and not
  forwarded; memory use does not grow with the input.
\<close>

theorem osc_title:
  assumes "state (par v) = ST_GROUND" and "kind = 0x30 \<or> kind = 0x32" and "list_all osc_byte t"
  defines "w \<equiv> vt_feed v ([0x1b, 0x5d] @ ([kind, 0x3b] @ t) @ [0x07])"
  shows "scr w = (scr v)\<lparr>out := out (scr v) @
      (if on_title (cb (scr v)) then [Title (take 4093 t)] else []) @
      (if on_passthrough (cb (scr v)) \<and> length t \<le> 4093
       then [Passthrough ([0x1b, 0x5d] @ ([kind, 0x3b] @ t) @ [0x07])] else [])\<rparr> \<and>
    state (par w) = ST_GROUND"
proof -
  define v1 where "v1 = vt_feed v [0x1b, 0x5d]"
  have V1: "scr v1 = scr v" "state (par v1) = ST_OSC_STRING" "osc (par v1) = []" "\<not> osc_overflow (par v1)"
    using assms(1)
    by (simp_all add: v1_def vt_feed_Cons feed_one_def feed_esc feed_byte_csi(3) feed_escape_def Let_def
        osc_start_def)
  define v2 where "v2 = vt_feed v1 ([kind, 0x3b] @ t)"
  have k: "list_all osc_byte ([kind, 0x3b] @ t)" using assms(2,3) by auto
  have "length (osc (par v1)) \<le> 4095" by (simp add: V1)
  note O = feed_osc_bytes [OF k V1(2) this, folded v2_def, unfolded V1]
  have o: "osc (par v2) = kind # 0x3b # take 4093 t" "osc_overflow (par v2) \<longleftrightarrow> length t > 4093"
    using O V1 by (auto simp: take_Cons')
  have d: "vt_do_osc (par v2) (scr v) =
      osc_passthrough (par v2) (if on_title (cb (scr v)) then emit_event (scr v) (Title (take 4093 t)) else scr v)"
    using assms(2) by (auto simp: vt_do_osc_def o Let_def)
  have w: "w = record_pending (osc_final v2) 0x07"
  proof -
    have "feed_byte v2 0x07 = osc_final v2"
      using O by (subst feed_byte.simps) (simp add: anywhere_def feed_osc_def)
    then show ?thesis
      unfolding w_def vt_feed_append v1_def [symmetric]
      unfolding vt_feed_append [symmetric] v2_def [symmetric]
      by (simp add: vt_feed_Cons feed_one_def)
  qed
  have "length t \<le> 4093 \<Longrightarrow> take 4093 t = t" by simp
  then show ?thesis
    using O d by (auto simp: w osc_final_def osc_passthrough_def emit_event_def o)
qed

theorem osc_title_witness:
  "out (scr (vt_feed (loud 2 2) ([0x1b, 0x5d] @ ([0x32, 0x3b] @ [0x68, 0x69]) @ [0x07]))) =
   [Title [0x68, 0x69], Passthrough [0x1b, 0x5d, 0x32, 0x3b, 0x68, 0x69, 0x07]]"
proof -
  have g: "state (par (loud 2 2)) = ST_GROUND" "on_title (cb (scr (loud 2 2)))"
    "on_passthrough (cb (scr (loud 2 2)))" "out (scr (loud 2 2)) = []" by code_simp+
  show ?thesis using osc_title [OF g(1), of "0x32" "[0x68, 0x69]"] by (simp add: g)
qed

end
