(* ===== verification/Vt_Replay.thy ===== *)
theory Vt_Replay
  imports Vt_Stream
begin

unbundle bit_operations_syntax

text \<open>
  The bytes of an unfinished sequence that the parser keeps for snapshots
  (\<open>record_pending\<close> in \<open>src/vt/vt_parser.c\<close>). A snapshot ends with these bytes, so that the
  receiving engine re-derives the state of the parser by reading them. \<open>same_parse\<close> says
  that two parsers will treat all further input alike: it compares what the current state
  can still read and ignores leftovers of finished sequences.
\<close>

section \<open>Parsers that agree\<close>

definition same_seq :: "parser \<Rightarrow> parser \<Rightarrow> bool" where
  "same_seq p q \<longleftrightarrow> params p = params q \<and> param_seen p = param_seen q \<and> nparams p = nparams q \<and>
    param_overflow p = param_overflow q \<and> ninter p = ninter q \<and> priv p = priv q \<and>
    take (Suc (ninter p)) (inters p) = take (Suc (ninter q)) (inters q)"

definition same_parse :: "parser \<Rightarrow> parser \<Rightarrow> bool" where
  "same_parse p q \<longleftrightarrow> state p = state q \<and>
    (state p \<noteq> ST_ESCAPE \<longrightarrow> u8_state p = u8_state q \<and> (u8_state p \<noteq> UTF8_ACCEPT \<longrightarrow> u8_cp p = u8_cp q)) \<and>
    (state p \<noteq> ST_GROUND \<longrightarrow> same_seq p q) \<and>
    (state p = ST_OSC_STRING \<or> state p = ST_MAX \<longrightarrow> osc p = osc q \<and> osc_overflow p = osc_overflow q)"

definition idle :: "parser \<Rightarrow> bool" where
  "idle p \<longleftrightarrow> state p = ST_GROUND \<and> u8_state p = UTF8_ACCEPT"

definition u8_quiet :: "parser \<Rightarrow> bool" where
  "u8_quiet p \<longleftrightarrow> length (inters p) = 3 \<and>
    (state p \<noteq> ST_GROUND \<and> state p \<noteq> ST_ESCAPE \<longrightarrow> u8_state p = UTF8_ACCEPT)"

definition recorded :: "byte \<Rightarrow> bool" where
  "recorded b \<longleftrightarrow> b \<ge> 0x20 \<or> b = 0x1b \<or> b = 0x00"

text \<open>Collecting keeps two agreeing sequences in agreement.\<close>

lemma clear_seq_same: "length (inters p) = 3 \<Longrightarrow> length (inters q) = 3 \<Longrightarrow> same_seq (clear_seq p) (clear_seq q)"
  by (cases "inters p"; cases "inters q"; simp add: same_seq_def clear_seq_def)

lemma collect_inter_same:
  assumes "same_seq p q" "length (inters p) = 3" "length (inters q) = 3"
  shows "same_seq (collect_inter p b) (collect_inter q b)"
proof -
  obtain a0 a1 a2 where p: "inters p = [a0, a1, a2]"
    using assms(2) by (auto simp: numeral_3_eq_3 length_Suc_conv)
  obtain b0 b1 b2 where q: "inters q = [b0, b1, b2]"
    using assms(3) by (auto simp: numeral_3_eq_3 length_Suc_conv)
  have n: "ninter q = ninter p" using assms(1) by (simp add: same_seq_def)
  consider "ninter p = 0" | "ninter p = 1" | "ninter p \<ge> 2" by linarith
  then show ?thesis
  proof cases
    case 3
    then have "take (Suc (ninter p)) [a0, a1, a2] = [a0, a1, a2]" "take (Suc (ninter p)) [b0, b1, b2] = [b0, b1, b2]"
      by auto
    then show ?thesis using 3 assms(1) n p q by (simp add: same_seq_def collect_inter_def)
  qed (use assms(1) n p q in \<open>auto simp: same_seq_def collect_inter_def\<close>)
qed

lemma collect_param_same: "same_seq p q \<Longrightarrow> same_seq (collect_param p b) (collect_param q b)"
  by (auto simp: same_seq_def collect_param_def Let_def)

lemma finish_params_same: "same_seq p q \<Longrightarrow> same_seq (finish_params p) (finish_params q)"
  by (auto simp: same_seq_def finish_params_def)

lemma same_seq_fields [simp]:
  "same_seq (p\<lparr>state := s\<rparr>) q = same_seq p q" "same_seq p (q\<lparr>state := s\<rparr>) = same_seq p q"
  "same_seq (p\<lparr>u8_state := u\<rparr>) q = same_seq p q" "same_seq p (q\<lparr>u8_state := u\<rparr>) = same_seq p q"
  "same_seq (p\<lparr>osc := x\<rparr>) q = same_seq p q" "same_seq p (q\<lparr>osc := x\<rparr>) = same_seq p q"
  "same_seq (p\<lparr>osc_overflow := y\<rparr>) q = same_seq p q" "same_seq p (q\<lparr>osc_overflow := y\<rparr>) = same_seq p q"
  "same_seq (p\<lparr>u8_cp := c\<rparr>) q = same_seq p q" "same_seq p (q\<lparr>u8_cp := c\<rparr>) = same_seq p q"
  by (simp_all add: same_seq_def)

lemma osc_seq [simp]:
  "same_seq (osc_start p) q = same_seq p q" "same_seq p (osc_start q) = same_seq p q"
  "same_seq (osc_put p b) q = same_seq p q" "same_seq p (osc_put q b) = same_seq p q"
  by (simp_all add: same_seq_def osc_start_def osc_put_def)

lemma collect_frames [simp]:
  "state (clear_seq p) = state p" "state (collect_inter p b) = state p" "state (collect_param p b) = state p"
  "state (finish_params p) = state p" "state (osc_start p) = state p" "state (osc_put p b) = state p"
  "u8_state (clear_seq p) = u8_state p" "u8_state (collect_inter p b) = u8_state p"
  "u8_state (collect_param p b) = u8_state p" "u8_state (finish_params p) = u8_state p"
  "u8_state (osc_start p) = u8_state p" "u8_state (osc_put p b) = u8_state p"
  "u8_cp (clear_seq p) = u8_cp p" "u8_cp (collect_inter p b) = u8_cp p"
  "u8_cp (collect_param p b) = u8_cp p" "u8_cp (finish_params p) = u8_cp p"
  "u8_cp (osc_start p) = u8_cp p" "u8_cp (osc_put p b) = u8_cp p"
  by (simp_all add: clear_seq_def collect_inter_def collect_param_def finish_params_def osc_start_def
      osc_put_def Let_def)

lemma utf8_step_accept_cp: "vt_utf8_step UTF8_ACCEPT cp b = vt_utf8_step UTF8_ACCEPT cp' b"
  by (simp add: vt_utf8_step_def)

lemma par_feed_ground:
  assumes "vt_utf8_step (u8_state (par v)) (u8_cp (par v)) b = (s, c)"
    and "vt_utf8_step UTF8_ACCEPT c b = (s2, c2)"
  shows "par (feed_ground v b) =
    (if b < 0x20 \<or> b = 0x7f then par v
     else if s = UTF8_REJECT then
       if b < 0x80 \<or> \<not> b \<ge> 0xc2 then (par v)\<lparr>u8_state := UTF8_ACCEPT, u8_cp := c\<rparr>
       else (par v)\<lparr>u8_state := s2, u8_cp := c2\<rparr>
     else (par v)\<lparr>u8_state := s, u8_cp := c\<rparr>)"
  using assms by (simp add: feed_ground_def Let_def)

lemma feed_ground_same:
  assumes "same_parse (par v) (par w)" "state (par v) = ST_GROUND"
  shows "same_parse (par (feed_ground v b)) (par (feed_ground w b))"
proof -
  obtain s c where st: "vt_utf8_step (u8_state (par v)) (u8_cp (par v)) b = (s, c)" by force
  have sw: "vt_utf8_step (u8_state (par w)) (u8_cp (par w)) b = (s, c)"
    using assms st utf8_step_accept_cp [of "u8_cp (par v)" b "u8_cp (par w)"]
    by (cases "u8_state (par v) = UTF8_ACCEPT") (auto simp: same_parse_def)
  obtain s2 c2 where s2: "vt_utf8_step UTF8_ACCEPT c b = (s2, c2)" by force
  show ?thesis
    using assms by (simp add: par_feed_ground [OF st s2] par_feed_ground [OF sw s2] same_parse_def)
qed

lemma feed_escape_same:
  assumes "same_parse (par v) (par w)" "state (par v) = ST_ESCAPE"
    "length (inters (par v)) = 3" "length (inters (par w)) = 3"
  shows "same_parse (par (feed_escape v b)) (par (feed_escape w b))"
proof -
  have s: "same_seq (par v) (par w)" "state (par w) = ST_ESCAPE" using assms by (auto simp: same_parse_def)
  let ?p = "(par v)\<lparr>u8_state := UTF8_ACCEPT\<rparr>" and ?q = "(par w)\<lparr>u8_state := UTF8_ACCEPT\<rparr>"
  have c: "same_seq (clear_seq ?p) (clear_seq ?q)" "same_seq (collect_inter ?p b) (collect_inter ?q b)"
    using assms s by (auto intro!: clear_seq_same collect_inter_same)
  show ?thesis
    using assms(2) s c
    by (auto simp: feed_escape_def Let_def same_parse_def osc_start_def)
qed

lemma feed_seq_same:
  assumes "same_parse (par v) (par w)" "state (par v) \<noteq> ST_GROUND" "state (par v) \<noteq> ST_ESCAPE"
    "length (inters (par v)) = 3" "length (inters (par w)) = 3"
  shows "state (par v) = ST_ESCAPE_INT \<Longrightarrow> same_parse (par (feed_escape_int v b)) (par (feed_escape_int w b))"
    "state (par v) = ST_CSI_ENTRY \<Longrightarrow> same_parse (par (feed_csi_entry v b)) (par (feed_csi_entry w b))"
    "state (par v) = ST_CSI_PARAM \<Longrightarrow> same_parse (par (feed_csi_param v b)) (par (feed_csi_param w b))"
    "state (par v) = ST_CSI_INT \<Longrightarrow> same_parse (par (feed_csi_int v b)) (par (feed_csi_int w b))"
    "state (par v) = ST_CSI_IGNORE \<Longrightarrow> same_parse (par (feed_csi_ignore v b)) (par (feed_csi_ignore w b))"
    "same_parse (par (feed_dcs v b)) (par (feed_dcs w b))"
    "same_parse (par (feed_dcs_pass v b)) (par (feed_dcs_pass w b))"
    "same_parse (par (feed_dcs_ignore v b)) (par (feed_dcs_ignore w b))"
proof -
  have s: "same_seq (par v) (par w)" using assms by (auto simp: same_parse_def)
  have ci: "same_seq (collect_inter (par v) b) (collect_inter (par w) b)" for b
    by (rule collect_inter_same [OF s assms(4,5)])
  have cp: "same_seq (collect_param (par v) b) (collect_param (par w) b)" for b
    by (rule collect_param_same [OF s])
  have pr: "same_seq ((par v)\<lparr>priv := b\<rparr>) ((par w)\<lparr>priv := b\<rparr>)" using s by (auto simp: same_seq_def)
  note D = same_parse_def Let_def csi_final_def s ci cp pr
  show "state (par v) = ST_ESCAPE_INT \<Longrightarrow> same_parse (par (feed_escape_int v b)) (par (feed_escape_int w b))"
    using assms(1) by (simp add: feed_escape_int_def D)
  show "state (par v) = ST_CSI_ENTRY \<Longrightarrow> same_parse (par (feed_csi_entry v b)) (par (feed_csi_entry w b))"
    using assms(1) by (simp add: feed_csi_entry_def D)
  show "state (par v) = ST_CSI_PARAM \<Longrightarrow> same_parse (par (feed_csi_param v b)) (par (feed_csi_param w b))"
    using assms(1) by (simp add: feed_csi_param_def D)
  show "state (par v) = ST_CSI_INT \<Longrightarrow> same_parse (par (feed_csi_int v b)) (par (feed_csi_int w b))"
    using assms(1) by (simp add: feed_csi_int_def D)
  show "state (par v) = ST_CSI_IGNORE \<Longrightarrow> same_parse (par (feed_csi_ignore v b)) (par (feed_csi_ignore w b))"
    using assms(1) by (simp add: feed_csi_ignore_def D)
  show "same_parse (par (feed_dcs v b)) (par (feed_dcs w b))" using assms(1,3) by (simp add: feed_dcs_def D)
  show "same_parse (par (feed_dcs_pass v b)) (par (feed_dcs_pass w b))"
    using assms(1,3) by (simp add: feed_dcs_pass_def D)
  show "same_parse (par (feed_dcs_ignore v b)) (par (feed_dcs_ignore w b))"
    using assms(1,3) by (simp add: feed_dcs_ignore_def D)
qed

lemma anywhere_same:
  assumes "same_parse p q" "length (inters p) = 3" "length (inters q) = 3" "recorded b"
  shows "fst (anywhere p b) = fst (anywhere q b) \<and>
    (fst (anywhere p b) \<longrightarrow> same_parse (snd (anywhere p b)) (snd (anywhere q b)))"
proof -
  have "b \<noteq> 0x18" "b \<noteq> 0x1a" using assms(4) by (auto simp: recorded_def)
  then show ?thesis
    using assms(1) clear_seq_same [OF assms(2,3)] by (auto simp: anywhere_def same_parse_def)
qed

lemma feed_byte_same_not_max:
  assumes "same_parse (par v) (par w)" "length (inters (par v)) = 3" "length (inters (par w)) = 3" "recorded b"
    "state (par v) \<noteq> ST_MAX"
  shows "same_parse (par (feed_byte v b)) (par (feed_byte w b))"
proof -
  note A = anywhere_same [OF assms(1-4)]
  have e: "state (par w) = state (par v)" using assms(1) by (simp add: same_parse_def)
  show ?thesis
  proof (cases "fst (anywhere (par v) b)")
    case True
    then show ?thesis using A by (simp add: feed_byte_consumed)
  next
    case False
    then obtain p q where a: "anywhere (par v) b = (False, p)" "anywhere (par w) b = (False, q)"
      using A by (cases "anywhere (par v) b"; cases "anywhere (par w) b") auto
    have o: "state (par v) = ST_OSC_STRING \<Longrightarrow> same_parse (par (feed_osc v b)) (par (feed_osc w b))"
      using assms(1) by (auto simp: feed_osc_def same_parse_def osc_put_def osc_final_def same_seq_def)
    show ?thesis
      using assms(5) feed_ground_same [OF assms(1), of b] feed_escape_same [OF assms(1) _ assms(2,3), of b]
        feed_seq_same [OF assms(1) _ _ assms(2,3), of b] o
      by (subst (1 2) feed_byte.simps) (cases "state (par v)"; simp add: a e)
  qed
qed

lemma feed_byte_same:
  assumes "same_parse (par v) (par w)" "length (inters (par v)) = 3" "length (inters (par w)) = 3" "recorded b"
  shows "same_parse (par (feed_byte v b)) (par (feed_byte w b))"
proof (cases "state (par v) = ST_MAX")
  case True
  have m: "state (par w) = ST_MAX" using assms(1) True by (simp add: same_parse_def)
  let ?v = "v\<lparr>par := (clear_seq (par v))\<lparr>state := ST_ESCAPE\<rparr>\<rparr>"
  let ?w = "w\<lparr>par := (clear_seq (par w))\<lparr>state := ST_ESCAPE\<rparr>\<rparr>"
  have i: "length (inters (par ?v)) = 3" "length (inters (par ?w)) = 3"
    using assms(2,3) by (simp_all add: clear_seq_def)
  have "same_parse (par ?v) (par ?w)"
    using clear_seq_same [OF assms(2,3)] by (simp add: same_parse_def)
  then have "same_parse (par (feed_byte ?v b)) (par (feed_byte ?w b))"
    by (rule feed_byte_same_not_max [OF _ i assms(4)]) simp
  moreover have "same_parse (par (osc_final v)) (par (osc_final w))"
    using assms(1) True m by (simp add: osc_final_def same_parse_def)
  ultimately show ?thesis
    using anywhere_same [OF assms(1-4)] by (simp add: feed_byte_max [OF True] feed_byte_max [OF m])
qed (rule feed_byte_same_not_max [OF assms])

section \<open>Steps that replay\<close>

text \<open>
  \<open>replay_ok v b\<close>: the bytes whose effect on the parser the retained bytes can reproduce.
  A control character is not retained, so it must not change the state it is not recorded
  in; and a byte that the decoder rejects and retries has already printed a replacement
  character.
\<close>

definition replay_ok :: "vt \<Rightarrow> byte \<Rightarrow> bool" where
  "replay_ok v b \<longleftrightarrow>
    (let p = par v; can = (b = 0x18 \<or> b = 0x1a)
     in (if recorded b then True
         else if can then \<not> (state p = ST_ESCAPE \<and> u8_state p \<noteq> UTF8_ACCEPT)
         else state p \<noteq> ST_MAX \<and> state p \<noteq> ST_DCS_IGNORE) \<and>
        \<not> (state p = ST_GROUND \<and> b \<ge> 0xc2 \<and>
           fst (vt_utf8_step (u8_state p) (u8_cp p) b) = UTF8_REJECT))"

fun replay_safe :: "vt \<Rightarrow> byte list \<Rightarrow> bool" where
  "replay_safe v [] = True"
| "replay_safe v (b # bs) = (replay_ok v b \<and> replay_safe (feed_one v b) bs)"

lemma seq_inters [simp]:
  "length (inters (clear_seq p)) = length (inters p)" "length (inters (collect_inter p b)) = length (inters p)"
  "length (inters (collect_param p b)) = length (inters p)" "inters (finish_params p) = inters p"
  "inters (osc_start p) = inters p" "inters (osc_put p b) = inters p"
  by (simp_all add: clear_seq_def collect_inter_def collect_param_def finish_params_def osc_start_def
      osc_put_def Let_def)

lemma feed_ground_frame:
  "state (par (feed_ground v b)) = state (par v)" "inters (par (feed_ground v b)) = inters (par v)"
  by (simp_all add: feed_ground_def Let_def split: prod.split)

lemma u8_quiet_not_max:
  assumes "u8_quiet (par v)" "state (par v) \<noteq> ST_MAX"
  shows "u8_quiet (par (feed_byte v b))"
proof -
  obtain c p where a: "anywhere (par v) b = (c, p)" by force
  show ?thesis
  proof (cases c)
    case True
    then show ?thesis
      using a assms by (auto simp: feed_byte_consumed u8_quiet_def anywhere_def split: if_splits)
  next
    case False
    then show ?thesis
      using a assms feed_ground_frame [of v b]
      by (subst feed_byte.simps)
        (cases "state (par v)"; simp add: u8_quiet_def feed_escape_def feed_escape_int_def feed_csi_entry_def
          feed_csi_param_def feed_csi_int_def feed_csi_ignore_def feed_osc_def feed_dcs_def feed_dcs_pass_def
          feed_dcs_ignore_def csi_final_def osc_final_def Let_def)
  qed
qed

lemma u8_quiet_step:
  assumes "u8_quiet (par v)" shows "u8_quiet (par (feed_byte v b))"
proof (cases "state (par v) = ST_MAX")
  case True
  have "u8_quiet (par (feed_byte (v\<lparr>par := (clear_seq (par v))\<lparr>state := ST_ESCAPE\<rparr>\<rparr>) b))"
    by (rule u8_quiet_not_max) (use assms in \<open>simp_all add: u8_quiet_def\<close>)
  then show ?thesis
    using assms by (auto simp: feed_byte_max [OF True] u8_quiet_def osc_final_def anywhere_def)
qed (rule u8_quiet_not_max [OF assms])

lemma same_parse_u8: "same_parse ((par v)\<lparr>u8_state := UTF8_ACCEPT\<rparr>) (par v)" if "state (par v) = ST_ESCAPE" for v
  using that by (simp add: same_parse_def same_seq_def)

lemma same_parse_refl [simp]: "same_parse p p"
  by (simp add: same_parse_def same_seq_def)

lemma unrecorded_keeps:
  assumes "\<not> recorded b" "replay_ok v b" "u8_quiet (par v)" "\<not> idle (par (feed_byte v b))"
  shows "same_parse (par (feed_byte v b)) (par v)"
proof -
  have b: "b < 0x20" "b \<noteq> 0x1b" "b \<noteq> 0" using assms(1) by (auto simp: recorded_def)
  show ?thesis
  proof (cases "b = 0x18 \<or> b = 0x1a")
    case True
    then have "fst (anywhere (par v) b)" "snd (anywhere (par v) b) = (par v)\<lparr>state := ST_GROUND\<rparr>"
      by (auto simp: anywhere_def)
    then show ?thesis
      using assms True by (cases "state (par v)") (auto simp: feed_byte_consumed idle_def u8_quiet_def replay_ok_def
          same_parse_def same_seq_def Let_def)
  next
    case False
    then have a: "anywhere (par v) b = (False, par v)" using b by (simp add: anywhere_def)
    have ok: "state (par v) \<noteq> ST_MAX" "state (par v) \<noteq> ST_DCS_IGNORE"
      using assms(1,2) False by (auto simp: replay_ok_def Let_def)
    have c: "\<not> (0x40 \<le> b \<and> b \<le> 0x7e)" "\<not> 0x20 \<le> b" using b by (auto simp: word_le_nat_alt word_less_nat_alt)
    show ?thesis
      using ok b False c assms(3,4) same_parse_u8 [of v]
      by (subst (asm) feed_byte.simps, subst feed_byte.simps)
        (cases "state (par v)"; auto simp: a feed_defs Let_def idle_def u8_quiet_def split: if_splits)
  qed
qed

text \<open>A recorded byte after which something is still pending has not touched the screen.\<close>

lemma recorded_no_effect_not_max:
  assumes "recorded b" "replay_ok v b" "u8_quiet (par v)" "\<not> idle (par (feed_byte v b))"
    "state (par v) \<noteq> ST_MAX"
  shows "scr (feed_byte v b) = scr v"
proof -
  have b: "b \<noteq> 0x18" "b \<noteq> 0x1a" "b \<noteq> 0x07" "b < 0x20 \<Longrightarrow> b = 0x1b \<or> b = 0"
    using assms(1) by (auto simp: recorded_def)
  have x: "vt_do_execute (scr v) 0 = scr v" by (simp add: vt_do_execute_def)
  obtain c p where a: "anywhere (par v) b = (c, p)" by force
  show ?thesis
  proof (cases c)
    case True
    then show ?thesis using a by (simp add: feed_byte_consumed)
  next
    case False
    have esc: "b = 0x1b \<Longrightarrow> state (par v) = ST_OSC_STRING \<or> state (par v) = ST_DCS_PASS \<or> state (par v) = ST_SOSPMAPC"
      using a False by (auto simp: anywhere_def split: if_splits)
    have g: "scr (feed_byte v b) = scr v" if "state (par v) = ST_GROUND"
    proof -
      obtain s c where st: "vt_utf8_step (u8_state (par v)) (u8_cp (par v)) b = (s, c)" by force
      obtain s2 c2 where s2: "vt_utf8_step UTF8_ACCEPT c b = (s2, c2)" by force
      have fb: "feed_byte v b = feed_ground v b" using that a False by (subst feed_byte.simps) simp
      show ?thesis
        using that assms(2,4) b(4) esc x
        by (auto simp: fb feed_ground_def st s2 Let_def execute_def replay_ok_def idle_def split: if_splits)
    qed
    show ?thesis
    proof (cases "state (par v) = ST_GROUND")
      case ng: False
      show ?thesis
        using assms(3-5) a False b esc x ng
        by (subst (asm) feed_byte.simps, subst feed_byte.simps)
          (cases "state (par v)"; auto simp: feed_defs Let_def idle_def u8_quiet_def split: if_splits)
    qed (rule g)
  qed
qed

lemma recorded_no_effect:
  assumes "recorded b" "replay_ok v b" "u8_quiet (par v)" "\<not> idle (par (feed_byte v b))"
  shows "scr (feed_byte v b) = scr v"
proof (cases "state (par v) = ST_MAX")
  case True
  let ?v = "v\<lparr>par := (clear_seq (par v))\<lparr>state := ST_ESCAPE\<rparr>\<rparr>"
  show ?thesis
  proof (cases "fst (anywhere (par v) b)")
    case False
    have b: "b \<noteq> 0x5c"
      using False assms(3,4) True by (auto simp: feed_byte_max [OF True] osc_final_def idle_def u8_quiet_def)
    have e: "feed_byte v b = feed_byte ?v b" using False b by (simp add: feed_byte_max [OF True])
    have "scr (feed_byte ?v b) = scr ?v"
      by (rule recorded_no_effect_not_max)
        (use assms e in \<open>simp_all add: replay_ok_def u8_quiet_def Let_def\<close>)
    then show ?thesis by (simp add: e)
  qed (simp add: feed_byte_consumed)
qed (rule recorded_no_effect_not_max [OF assms])

text \<open>The screen-independent part of \<open>replay_ok\<close> carries over to an agreeing parser.\<close>

lemma replay_ok_same:
  assumes "same_parse (par v) (par w)" "recorded b" "replay_ok v b"
  shows "replay_ok w b"
proof (cases "state (par v) = ST_GROUND \<and> u8_state (par v) = UTF8_ACCEPT")
  case True
  then show ?thesis
    using assms utf8_step_accept_cp [of "u8_cp (par v)" b "u8_cp (par w)"]
    by (auto simp: replay_ok_def same_parse_def Let_def)
qed (use assms in \<open>auto simp: replay_ok_def same_parse_def Let_def\<close>)

lemma idle_same: "same_parse p q \<Longrightarrow> idle p \<longleftrightarrow> idle q"
  by (auto simp: idle_def same_parse_def)

lemma same_parse_record [simp]:
  "same_parse (par (record_pending v b)) q = same_parse (par v) q"
  "same_parse p (par (record_pending v b)) = same_parse p (par v)"
  by (simp_all add: record_pending_def Let_def same_parse_def same_seq_def)

lemma u8_quiet_record [simp]: "u8_quiet (par (record_pending v b)) = u8_quiet (par v)"
  by (simp add: record_pending_def Let_def u8_quiet_def)

lemma same_seq_trans: "same_seq p q \<Longrightarrow> same_seq q r \<Longrightarrow> same_seq p r"
  unfolding same_seq_def by (elim conjE) simp

lemma same_parse_trans:
  assumes "same_parse p q" "same_parse q r"
  shows "same_parse p r"
proof -
  note P = assms(1) [unfolded same_parse_def] and Q = assms(2) [unfolded same_parse_def]
  have s: "state p = state q" "state q = state r" using P Q by blast+
  have u: "u8_state p = u8_state r \<and> (u8_state p \<noteq> UTF8_ACCEPT \<longrightarrow> u8_cp p = u8_cp r)" if "state p \<noteq> ST_ESCAPE"
    using that P Q s by (metis (mono_tags))
  have "same_seq p r" if "state p \<noteq> ST_GROUND" using that P Q s same_seq_trans by metis
  moreover have "osc p = osc r \<and> osc_overflow p = osc_overflow r" if "state p = ST_OSC_STRING \<or> state p = ST_MAX"
    using that P Q s by metis
  ultimately show ?thesis unfolding same_parse_def using s u by simp
qed

lemma u8_quiet_feed: "u8_quiet (par v) \<Longrightarrow> u8_quiet (par (vt_feed v bs))"
proof (induction bs arbitrary: v)
  case (Cons b bs)
  then show ?case by (simp add: vt_feed_Cons feed_one_def u8_quiet_step)
qed simp

lemma pending_cases:
  "pending (par (feed_one v b)) =
    (if idle (par (feed_byte v b)) then []
     else if recorded b \<and> length (pending (par (feed_byte v b))) < 4160
          then pending (par (feed_byte v b)) @ [b] else pending (par (feed_byte v b)))"
  "pending_lost (par (feed_one v b)) =
    (\<not> idle (par (feed_byte v b)) \<and> (pending_lost (par (feed_byte v b)) \<or>
      (recorded b \<and> length (pending (par (feed_byte v b))) \<ge> 4160)))"
  by (auto simp: feed_one_def record_pending_def Let_def idle_def recorded_def)

lemma seq_pending [simp]:
  "pending (clear_seq p) = pending p" "pending (collect_inter p b) = pending p"
  "pending (collect_param p b) = pending p" "pending (finish_params p) = pending p"
  "pending (osc_start p) = pending p" "pending (osc_put p b) = pending p"
  "pending_lost (clear_seq p) = pending_lost p" "pending_lost (collect_inter p b) = pending_lost p"
  "pending_lost (collect_param p b) = pending_lost p" "pending_lost (finish_params p) = pending_lost p"
  "pending_lost (osc_start p) = pending_lost p" "pending_lost (osc_put p b) = pending_lost p"
  by (simp_all add: clear_seq_def collect_inter_def collect_param_def finish_params_def osc_start_def
      osc_put_def Let_def)

definition keeps_pending :: "vt \<Rightarrow> vt \<Rightarrow> bool" where
  "keeps_pending v w \<longleftrightarrow> pending (par w) = pending (par v) \<and> pending_lost (par w) = pending_lost (par v)"

lemma feed_byte_pending_not_max: "state (par v) \<noteq> ST_MAX \<Longrightarrow> keeps_pending v (feed_byte v b)"
proof -
  assume m: "state (par v) \<noteq> ST_MAX"
  obtain c p where a: "anywhere (par v) b = (c, p)" by force
  show ?thesis
  proof (cases c)
    case True
    then show ?thesis
      using a by (auto simp: keeps_pending_def feed_byte_consumed anywhere_def split: if_splits)
  next
    case False
    have g: "keeps_pending v (feed_ground v b)"
      by (simp add: keeps_pending_def feed_ground_def Let_def split: prod.split)
    then show ?thesis
      using a False m
      by (subst feed_byte.simps)
        (cases "state (par v)"; simp add: keeps_pending_def feed_escape_def feed_escape_int_def
          feed_csi_entry_def feed_csi_param_def feed_csi_int_def feed_csi_ignore_def feed_osc_def feed_dcs_def
          feed_dcs_pass_def feed_dcs_ignore_def csi_final_def osc_final_def Let_def)
  qed
qed

lemma feed_byte_pending:
  "pending (par (feed_byte v b)) = pending (par v)" "pending_lost (par (feed_byte v b)) = pending_lost (par v)"
proof -
  have "keeps_pending v (feed_byte v b)"
  proof (cases "state (par v) = ST_MAX")
    case True
    have "keeps_pending (v\<lparr>par := (clear_seq (par v))\<lparr>state := ST_ESCAPE\<rparr>\<rparr>)
        (feed_byte (v\<lparr>par := (clear_seq (par v))\<lparr>state := ST_ESCAPE\<rparr>\<rparr>) b)"
      by (rule feed_byte_pending_not_max) simp
    then show ?thesis
      by (auto simp: feed_byte_max [OF True] keeps_pending_def osc_final_def anywhere_def)
  qed (rule feed_byte_pending_not_max)
  then show "pending (par (feed_byte v b)) = pending (par v)"
    "pending_lost (par (feed_byte v b)) = pending_lost (par v)" by (simp_all add: keeps_pending_def)
qed

text \<open>The invariant that replay keeps, for a receiving engine \<open>w\<close>.\<close>

definition replays :: "vt \<Rightarrow> vt \<Rightarrow> bool" where
  "replays w v \<longleftrightarrow> u8_quiet (par v) \<and> (\<not> pending_lost (par v) \<longrightarrow>
    same_parse (par v) (par (vt_feed w (pending (par v)))) \<and>
    scr (vt_feed w (pending (par v))) = scr w)"

lemma replays_step:
  assumes "replays w v" "replay_ok v b" "idle (par w)" "u8_quiet (par w)"
  shows "replays w (feed_one v b)"
proof -
  have q: "u8_quiet (par v)" using assms(1) by (simp add: replays_def)
  have q': "u8_quiet (par (feed_one v b))" using u8_quiet_step [OF q] by (simp add: feed_one_def)
  show ?thesis
  proof (cases "idle (par (feed_byte v b)) \<or> pending_lost (par (feed_one v b))")
    case True
    have "same_parse (par (feed_byte v b)) (par w)" if "idle (par (feed_byte v b))"
      using that assms(3) by (simp add: idle_def same_parse_def)
    then show ?thesis
      using True q' pending_cases [of v b] by (auto simp: replays_def feed_one_def)
  next
    case False
    then have ni: "\<not> idle (par (feed_byte v b))" and nl: "\<not> pending_lost (par v)"
      using pending_cases(2) [of v b] by (auto simp: feed_byte_pending)
    define x where "x = vt_feed w (pending (par v))"
    have x: "same_parse (par v) (par x)" "scr x = scr w"
      using assms(1) nl by (auto simp: replays_def x_def)
    show ?thesis
    proof (cases "recorded b")
      case rec: True
      have p: "pending (par (feed_one v b)) = pending (par v) @ [b]"
        using pending_cases [of v b] False ni rec by (simp add: feed_byte_pending)
      have y: "vt_feed w (pending (par (feed_one v b))) = feed_one x b"
        by (simp add: p x_def vt_feed_append vt_feed_Cons)
      have li: "length (inters (par v)) = 3" "length (inters (par x)) = 3"
        using q u8_quiet_feed [OF assms(4), of "pending (par v)"] by (simp_all add: u8_quiet_def x_def)
      have s: "same_parse (par (feed_byte v b)) (par (feed_byte x b))"
        by (rule feed_byte_same [OF x(1) li rec])
      have "scr (feed_byte x b) = scr x"
        using recorded_no_effect [OF rec replay_ok_same [OF x(1) rec assms(2)]] idle_same [OF s] ni
          u8_quiet_feed [OF assms(4), of "pending (par v)"] by (simp add: x_def)
      then have "same_parse (par (feed_one v b)) (par (feed_one x b))" "scr (feed_one x b) = scr w"
        using s x by (simp_all add: feed_one_def)
      then show ?thesis using q' by (simp add: replays_def y)
    next
      case nr: False
      have p: "pending (par (feed_one v b)) = pending (par v)"
        using pending_cases [of v b] ni nr by (simp add: feed_byte_pending)
      have "same_parse (par (feed_one v b)) (par x)"
        using same_parse_trans [OF unrecorded_keeps [OF nr assms(2) q ni] x(1)] by (simp add: feed_one_def)
      then show ?thesis using q' x by (simp add: replays_def p flip: x_def)
    qed
  qed
qed




end
