(* ===== verification/Vt_Render.thy ===== *)
theory Vt_Render
  imports Vt_Replay
begin

unbundle bit_operations_syntax

text \<open>
  The snapshot writer of \<open>src/vt/vt_render.c\<close>: a terminal is serialised as the bytes that, fed
  to a fresh terminal, repaint it. Each \<open>emit\<close> function gives the pieces it appends, in order;
  \<open>sb_put\<close> appends them to the growing buffer. Whether \<open>realloc\<close> to a given size succeeds is
  a parameter.
\<close>

section \<open>The growing buffer\<close>

record sb =
  sb_buf :: "byte list"
  sb_cap :: nat
  sb_oom :: bool

text \<open>Doubling until the needed size fits. A capacity is never 0 here; the guard is for
  termination.\<close>

function sb_grow :: "nat \<Rightarrow> nat \<Rightarrow> nat" where
  "sb_grow nc need = (if nc = 0 \<or> need \<le> nc then nc else sb_grow (nc * 2) need)"
  by auto
termination by (relation "measure (\<lambda>(nc, need). need - nc)") auto

declare sb_grow.simps [simp del]

definition sb_put :: "(nat \<Rightarrow> bool) \<Rightarrow> sb \<Rightarrow> byte list \<Rightarrow> sb" where
  "sb_put mem b s =
    (if sb_oom b then b
     else let need = length (sb_buf b) + length s in
       if need > sb_cap b
       then (let nc = sb_grow (if sb_cap b \<noteq> 0 then sb_cap b * 2 else 4096) need
             in if mem nc then b\<lparr>sb_buf := sb_buf b @ s, sb_cap := nc\<rparr> else b\<lparr>sb_oom := True\<rparr>)
       else b\<lparr>sb_buf := sb_buf b @ s\<rparr>)"

text \<open>\<open>sb_fmt\<close> formats into 64 bytes.\<close>

definition sb_fmt :: "byte list \<Rightarrow> byte list" where
  "sb_fmt s = take 63 s"

section \<open>Sequences\<close>

text \<open>Parameters in decimal, separated by semicolons. \<open>csi ps b\<close> is \<open>ESC [\<close> with parameters and
  final byte; \<open>decset ps b\<close> has the private marker \<open>?\<close>.\<close>

fun param_bytes :: "nat list \<Rightarrow> byte list" where
  "param_bytes [] = []"
| "param_bytes [p] = dec_digits p"
| "param_bytes (p # q # ps) = dec_digits p @ [0x3b] @ param_bytes (q # ps)"

definition csi :: "nat list \<Rightarrow> byte \<Rightarrow> byte list" where
  "csi ps b = [0x1b, 0x5b] @ param_bytes ps @ [b]"

definition decset :: "nat list \<Rightarrow> byte \<Rightarrow> byte list" where
  "decset ps b = [0x1b, 0x5b, 0x3f] @ param_bytes ps @ [b]"

definition emit_color :: "u32 \<Rightarrow> bool \<Rightarrow> byte list" where
  "emit_color color fg =
    (if color = VT_COLOR_DEFAULT then sb_fmt (csi [if fg then 39 else 49] 0x6d)
     else if color AND 0xFF000000 = 0x01000000
     then sb_fmt (csi [if fg then 38 else 48, 5, unat (color AND 0xFF)] 0x6d)
     else sb_fmt (csi [if fg then 38 else 48, 2, unat (drop_bit 16 color AND 0xFF),
                       unat (drop_bit 8 color AND 0xFF), unat (color AND 0xFF)] 0x6d))"

definition emit_pen :: "u16 \<Rightarrow> u32 \<Rightarrow> u32 \<Rightarrow> byte list list" where
  "emit_pen attrs fg bg =
    [csi [0] 0x6d] @
    (if attrs AND VT_ATTR_BOLD \<noteq> 0 then [csi [1] 0x6d] else []) @
    (if attrs AND VT_ATTR_DIM \<noteq> 0 then [csi [2] 0x6d] else []) @
    (if attrs AND VT_ATTR_ITALIC \<noteq> 0 then [csi [3] 0x6d] else []) @
    (if attrs AND VT_ATTR_UNDERLINE \<noteq> 0 then [csi [4] 0x6d] else []) @
    (if attrs AND VT_ATTR_BLINK \<noteq> 0 then [csi [5] 0x6d] else []) @
    (if attrs AND VT_ATTR_REVERSE \<noteq> 0 then [csi [7] 0x6d] else []) @
    (if attrs AND VT_ATTR_INVISIBLE \<noteq> 0 then [csi [8] 0x6d] else []) @
    (if attrs AND VT_ATTR_STRIKE \<noteq> 0 then [csi [9] 0x6d] else []) @
    (if fg \<noteq> VT_COLOR_DEFAULT then [emit_color fg True] else []) @
    (if bg \<noteq> VT_COLOR_DEFAULT then [emit_color bg False] else [])"

definition attrs_public :: u16 where
  "attrs_public = NOT (VT_ATTR_WIDE OR VT_ATTR_WIDE_SPACER)"

section \<open>The grid\<close>

text \<open>The glyph of a cell with its combining mark.\<close>

definition emit_glyph :: "cell \<Rightarrow> byte list list" where
  "emit_glyph c = [emit_utf8 (if ccp c \<noteq> 0 then ccp c else 0x20)] @
     (if ccomb c \<noteq> 0 then [emit_utf8 (ucast (ccomb c))] else [])"

text \<open>\<open>None\<close> is a dirty pen; otherwise the attributes and colours last emitted.\<close>

type_synonym pen_state = "(u16 \<times> u32 \<times> u32) option"

fun render_cells :: "pen_state \<Rightarrow> cell list \<Rightarrow> byte list list \<times> pen_state" where
  "render_cells pen [] = ([], pen)"
| "render_cells pen (c # cs) =
    (if cattrs c AND VT_ATTR_WIDE_SPACER \<noteq> 0 then render_cells pen cs
     else let a = cattrs c AND attrs_public;
              p = (if pen \<noteq> Some (a, cfg c, cbg c) then emit_pen a (cfg c) (cbg c) else []);
              (rest, pen') = render_cells (Some (a, cfg c, cbg c)) cs
          in (p @ emit_glyph c @ rest, pen'))"

fun render_rows :: "screen \<Rightarrow> pen_state \<Rightarrow> nat list \<Rightarrow> byte list list" where
  "render_rows v pen [] = []"
| "render_rows v pen (r # rs) =
    (let (ps, pen') = render_cells pen (case vt_line v r of None \<Rightarrow> [] | Some lcs \<Rightarrow> lcs)
     in sb_fmt (csi [r + 1, 1] 0x48) # ps @ render_rows v pen' rs)"

definition render_grid :: "screen \<Rightarrow> byte list list" where
  "render_grid v = render_rows v None [0..<rows v] @ [csi [0] 0x6d]"

section \<open>The rest of the state\<close>

definition custom_tabs :: "screen \<Rightarrow> bool" where
  "custom_tabs v \<longleftrightarrow> list_ex (\<lambda>c. bm_test (tabstops v) c \<noteq> (c \<noteq> 0 \<and> c mod 8 = 0)) [0..<cols v]"

definition emit_tabs :: "screen \<Rightarrow> byte list list" where
  "emit_tabs v = (if custom_tabs v
     then csi [3] 0x67 # map (\<lambda>c. sb_fmt (csi [1, c + 1] 0x48 @ [0x1b, 0x48])) (filter (bm_test (tabstops v)) [0..<cols v])
     else [])"

definition emit_region :: "screen \<Rightarrow> byte list list" where
  "emit_region v =
    (if scroll_top v \<noteq> 0 \<or> int (scroll_bot v) \<noteq> int (rows v) - 1
     then [sb_fmt (csi [scroll_top v + 1, scroll_bot v + 1] 0x72)]
     else [csi [] 0x72])"

definition snapshot_modes :: "(u32 \<times> nat) list" where
  "snapshot_modes =
    [(VT_MODE_DECCKM, 1), (VT_MODE_DECOM, 6), (VT_MODE_MOUSE_X10, 1000), (VT_MODE_MOUSE_BTN, 1002),
     (VT_MODE_MOUSE_ANY, 1003), (VT_MODE_FOCUS, 1004), (VT_MODE_MOUSE_UTF8, 1005), (VT_MODE_MOUSE_SGR, 1006),
     (VT_MODE_PASTE, 2004)]"

definition emit_modes :: "screen \<Rightarrow> byte list list" where
  "emit_modes v =
    map (\<lambda>m. sb_fmt (decset [snd m] (if mode_on v (fst m) then 0x68 else 0x6c))) snapshot_modes @
    [decset [7] (if mode_on v VT_MODE_DECAWM then 0x68 else 0x6c)] @
    (if mode_on v VT_MODE_IRM then [csi [4] 0x68] else [])"

definition emit_charsets :: "screen \<Rightarrow> byte list list" where
  "emit_charsets v =
    [sb_fmt [0x1b, 0x28, if charset_graphics (cur v) ! 0 then 0x30 else 0x42],
     sb_fmt [0x1b, 0x29, if charset_graphics (cur v) ! 1 then 0x30 else 0x42],
     [if charset_idx (cur v) = 1 then 0x0e else 0x0f]]"

definition emit_saved :: "screen \<Rightarrow> byte list list" where
  "emit_saved v =
    (let sc = saved_cur v ! active v; pen = cpen sc in
     if crow sc \<noteq> 0 \<or> ccol sc \<noteq> 0 \<or> pattrs pen \<noteq> 0 \<or> pfg pen \<noteq> VT_COLOR_DEFAULT \<or> pbg pen \<noteq> VT_COLOR_DEFAULT
     then emit_pen (pattrs pen AND attrs_public) (pfg pen) (pbg pen) @
          [sb_fmt (csi [crow sc + 1, ccol sc + 1] 0x48), [0x1b, 0x37], csi [0] 0x6d]
     else [])"

text \<open>The row is an \<open>int\<close> printed with \<open>%u\<close>.\<close>

definition emit_cursor :: "screen \<Rightarrow> byte list" where
  "emit_cursor v =
    (let row = (if mode_on v VT_MODE_DECOM then int (crow (cur v)) - int (scroll_top v) + 1 else int (crow (cur v)) + 1)
     in sb_fmt (csi [nat (row mod 2 ^ 32), ccol (cur v) + 1] 0x48))"

definition emit_wrap :: "screen \<Rightarrow> byte list list" where
  "emit_wrap v =
    (if pending_wrap (cur v) \<and> mode_on v VT_MODE_DECAWM
     then (case vt_line v (crow (cur v)) of None \<Rightarrow> []
       | Some lcs \<Rightarrow>
          let c = lcs ! ccol (cur v); pen = cpen (cur v) in
          if cattrs c AND VT_ATTR_WIDE_SPACER \<noteq> 0 then []
          else emit_pen (cattrs c AND attrs_public) (cfg c) (cbg c) @ emit_glyph c @
               emit_pen (pattrs pen AND attrs_public) (pfg pen) (pbg pen))
     else [])"

definition emit_screens :: "screen \<Rightarrow> byte list list" where
  "emit_screens v =
    (if mode_on v VT_MODE_ALTSCREEN
     then [decset [1049] 0x6c @ csi [2] 0x4a] @ render_grid (v\<lparr>active := 0\<rparr>) @
          [decset [1049] 0x68 @ csi [2] 0x4a] @ render_grid (v\<lparr>active := 1\<rparr>)
     else [decset [1049] 0x6c @ csi [2] 0x4a] @ render_grid v)"

definition snapshot_pieces :: "vt \<Rightarrow> byte list list" where
  "snapshot_pieces t =
    (let v = scr t; pen = cpen (cur v) in
     [csi [0] 0x6d @ decset [25] 0x6c] @ emit_screens v @ emit_tabs v @ emit_region v @ emit_modes v @
     emit_charsets v @ emit_saved v @ emit_pen (pattrs pen AND attrs_public) (pfg pen) (pbg pen) @
     [emit_cursor v] @ emit_wrap v @ [decset [25] (if mode_on v VT_MODE_DECTCEM then 0x68 else 0x6c)] @
     (if pending (par t) \<noteq> [] \<and> \<not> pending_lost (par t) then [pending (par t)] else []))"

definition vt_snapshot :: "(nat \<Rightarrow> bool) \<Rightarrow> vt \<Rightarrow> byte list option" where
  "vt_snapshot mem t =
    (let b = foldl (sb_put mem) \<lparr>sb_buf = [], sb_cap = 0, sb_oom = False\<rparr> (snapshot_pieces t)
     in if sb_oom b then None else Some (sb_buf b))"

section \<open>The buffer holds everything or nothing\<close>

lemma sb_put_complete:
  "sb_oom (foldl (sb_put mem) b ps) \<or> sb_buf (foldl (sb_put mem) b ps) = sb_buf b @ concat ps"
proof (induction ps arbitrary: b)
  case (Cons p ps)
  have stuck: "sb_oom b \<Longrightarrow> sb_oom (foldl (sb_put mem) b qs)" for b qs
    by (induction qs) (simp_all add: sb_put_def)
  show ?case
  proof (cases "sb_oom (sb_put mem b p)")
    case False
    then have "sb_buf (sb_put mem b p) = sb_buf b @ p" by (auto simp: sb_put_def Let_def split: if_splits)
    with Cons.IH [of "sb_put mem b p"] show ?thesis by simp
  qed (simp add: stuck)
qed simp

lemma snapshot_bytes:
  "vt_snapshot mem t = None \<or> vt_snapshot mem t = Some (concat (snapshot_pieces t))"
  using sb_put_complete [of mem "\<lparr>sb_buf = [], sb_cap = 0, sb_oom = False\<rparr>" "snapshot_pieces t"]
  by (auto simp: vt_snapshot_def Let_def)

lemma sb_put_enough: "\<not> sb_oom b \<Longrightarrow> \<not> sb_oom (foldl (sb_put (\<lambda>_. True)) b ps)"
  by (induction ps arbitrary: b) (auto simp: sb_put_def Let_def)

lemma snapshot_enough: "vt_snapshot (\<lambda>_. True) t = Some (concat (snapshot_pieces t))"
  using snapshot_bytes [of "\<lambda>_. True" t] sb_put_enough [of _ "snapshot_pieces t"] by (auto simp: vt_snapshot_def Let_def)

end
