(* ===== verification/Layout.thy ===== *)
theory Layout
  imports Prelude "HOL-Library.Multiset"
begin

text \<open>
  The pane layout of \<open>src/daemon/layout.c\<close>: a binary split tree stored in a fixed array of
  nodes. The first part is the code, on the array; the second relates it to trees and proves
  that splitting and closing implement the tree operations, and that the rectangles derived by
  a reflow tile the view.
\<close>

section \<open>The node array\<close>

definition LAYOUT_NODES :: nat where "LAYOUT_NODES = 11"
definition PANE_MIN_COLS :: nat where "PANE_MIN_COLS = 20"
definition PANE_MIN_ROWS :: nat where "PANE_MIN_ROWS = 3"

lemmas layout_consts = LAYOUT_NODES_def PANE_MIN_COLS_def PANE_MIN_ROWS_def

record layout_node =
  in_use :: bool
  leaf :: bool
  pane_idx :: int
  stacked :: bool
  child0 :: int
  child1 :: int
  nx :: nat
  ny :: nat
  ncols :: nat
  nrows :: nat

record layout =
  nodes :: "layout_node list"
  root :: int

text \<open>Coordinates are \<open>uint16_t\<close>: every sum is cut to 16 bits as the casts of the source do.\<close>

definition cut16 :: "nat \<Rightarrow> nat" where "cut16 n = n mod 65536"

definition node_zero :: layout_node where
  "node_zero = \<lparr>in_use = False, leaf = False, pane_idx = 0, stacked = False, child0 = 0,
     child1 = 0, nx = 0, ny = 0, ncols = 0, nrows = 0\<rparr>"

definition leaf_node :: "int \<Rightarrow> layout_node" where
  "leaf_node p = node_zero\<lparr>in_use := True, leaf := True, pane_idx := p\<rparr>"

definition find_node :: "(layout_node \<Rightarrow> bool) \<Rightarrow> layout_node list \<Rightarrow> int" where
  "find_node P ns = (case filter (\<lambda>i. P (ns ! i)) [0..<LAYOUT_NODES] of [] \<Rightarrow> -1 | i # _ \<Rightarrow> int i)"

definition node_alloc :: "layout_node list \<Rightarrow> int" where
  "node_alloc ns = find_node (\<lambda>n. \<not> in_use n) ns"

definition find_leaf :: "layout_node list \<Rightarrow> int \<Rightarrow> int" where
  "find_leaf ns p = find_node (\<lambda>n. in_use n \<and> leaf n \<and> pane_idx n = p) ns"

definition find_parent :: "layout_node list \<Rightarrow> int \<Rightarrow> int" where
  "find_parent ns node =
    find_node (\<lambda>n. in_use n \<and> \<not> leaf n \<and> (child0 n = node \<or> child1 n = node)) ns"

definition layout_init :: "int \<Rightarrow> layout" where
  "layout_init p = \<lparr>nodes = (replicate LAYOUT_NODES node_zero)[0 := leaf_node p], root = 0\<rparr>"

text \<open>A store through a node pointer.\<close>

definition upd :: "layout_node list \<Rightarrow> nat \<Rightarrow> (layout_node \<Rightarrow> layout_node) \<Rightarrow> layout_node list" where
  "upd ns i f = ns[i := f (ns ! i)]"

text \<open>The stores of \<open>divide\<close> in program order: child and parent may be the same node when the
  array comes from a damaged state file.\<close>

definition divide_rect :: "layout_node list \<Rightarrow> nat \<Rightarrow> nat \<Rightarrow> nat \<Rightarrow> layout_node list" where
  "divide_rect ns p a b =
    (if stacked (ns ! p) then
       let usable = (if nrows (ns ! p) > 1 then nrows (ns ! p) - 1 else 1);
           upper = (usable + 1) div 2;
           lower = (if usable > upper then usable - upper else 1);
           ns = upd ns a (\<lambda>n. n\<lparr>nx := nx (ns ! p)\<rparr>);
           ns = upd ns a (\<lambda>n. n\<lparr>ny := ny (ns ! p)\<rparr>);
           ns = upd ns a (\<lambda>n. n\<lparr>ncols := ncols (ns ! p)\<rparr>);
           ns = upd ns a (\<lambda>n. n\<lparr>nrows := if upper \<noteq> 0 then upper else 1\<rparr>);
           ns = upd ns b (\<lambda>n. n\<lparr>nx := nx (ns ! p)\<rparr>);
           ns = upd ns b (\<lambda>n. n\<lparr>ny := cut16 (ny (ns ! p) + nrows (ns ! a) + 1)\<rparr>);
           ns = upd ns b (\<lambda>n. n\<lparr>ncols := ncols (ns ! p)\<rparr>)
       in upd ns b (\<lambda>n. n\<lparr>nrows := if lower \<noteq> 0 then lower else 1\<rparr>)
     else
       let usable = (if ncols (ns ! p) > 1 then ncols (ns ! p) - 1 else 1);
           left = (usable + 1) div 2;
           right = (if usable > left then usable - left else 1);
           ns = upd ns a (\<lambda>n. n\<lparr>nx := nx (ns ! p)\<rparr>);
           ns = upd ns a (\<lambda>n. n\<lparr>ny := ny (ns ! p)\<rparr>);
           ns = upd ns a (\<lambda>n. n\<lparr>ncols := if left \<noteq> 0 then left else 1\<rparr>);
           ns = upd ns a (\<lambda>n. n\<lparr>nrows := nrows (ns ! p)\<rparr>);
           ns = upd ns b (\<lambda>n. n\<lparr>nx := cut16 (nx (ns ! p) + ncols (ns ! a) + 1)\<rparr>);
           ns = upd ns b (\<lambda>n. n\<lparr>ny := ny (ns ! p)\<rparr>);
           ns = upd ns b (\<lambda>n. n\<lparr>ncols := if right \<noteq> 0 then right else 1\<rparr>)
       in upd ns b (\<lambda>n. n\<lparr>nrows := nrows (ns ! p)\<rparr>))"

function reflow_node :: "layout_node list \<Rightarrow> int \<Rightarrow> nat \<Rightarrow> layout_node list" where
  "reflow_node ns idx depth =
    (if idx < 0 \<or> int LAYOUT_NODES \<le> idx \<or> LAYOUT_NODES \<le> depth then ns
     else let n = ns ! nat idx in
       if leaf n then ns
       else let c0 = child0 n; c1 = child1 n in
         if c0 < 0 \<or> int LAYOUT_NODES \<le> c0 \<or> c1 < 0 \<or> int LAYOUT_NODES \<le> c1 then ns
         else reflow_node (reflow_node (divide_rect ns (nat idx) (nat c0) (nat c1)) c0 (depth + 1)) c1
                (depth + 1))"
  by pat_completeness auto

termination
  by (relation "measure (\<lambda>(ns, idx, depth). LAYOUT_NODES - depth)") auto

declare reflow_node.simps [simp del]

definition layout_reflow :: "layout \<Rightarrow> nat \<Rightarrow> nat \<Rightarrow> layout" where
  "layout_reflow lt vc vr =
    (if root lt < 0 \<or> int LAYOUT_NODES \<le> root lt then lt
     else let ns = upd (nodes lt) (nat (root lt)) (\<lambda>n. n\<lparr>nx := 0, ny := 0,
              ncols := if vc \<noteq> 0 then vc else 1, nrows := if vr \<noteq> 0 then vr else 1\<rparr>)
          in lt\<lparr>nodes := reflow_node ns (root lt) 0\<rparr>)"

definition layout_split :: "layout \<Rightarrow> nat \<Rightarrow> nat \<Rightarrow> int \<Rightarrow> int \<Rightarrow> bool \<Rightarrow> bool \<times> layout" where
  "layout_split lt vc vr p q st =
    (let l = find_leaf (nodes lt) p in
     if l < 0 then (False, lt)
     else let n = nodes lt ! nat l in
       if (if st then nrows n < 2 * PANE_MIN_ROWS + 1 else ncols n < 2 * PANE_MIN_COLS + 1)
       then (False, lt)
       else let a = node_alloc (nodes lt) in
         if a < 0 then (False, lt)
         else let ns1 = upd (nodes lt) (nat a) (\<lambda>n. n\<lparr>in_use := True\<rparr>); b = node_alloc ns1 in
           if b < 0 then (False, lt\<lparr>nodes := upd ns1 (nat a) (\<lambda>n. n\<lparr>in_use := False\<rparr>)\<rparr>)
           else let ns2 = (ns1[nat a := leaf_node p])[nat b := leaf_node q];
                    ns3 = upd ns2 (nat l) (\<lambda>n. n\<lparr>leaf := False, pane_idx := -1, stacked := st,
                            child0 := a, child1 := b\<rparr>)
                in (True, layout_reflow (lt\<lparr>nodes := ns3\<rparr>) vc vr))"

definition layout_close :: "layout \<Rightarrow> nat \<Rightarrow> nat \<Rightarrow> int \<Rightarrow> bool \<times> layout" where
  "layout_close lt vc vr p =
    (let ns = nodes lt; l = find_leaf ns p in
     if l < 0 then (False, lt)
     else let parent = find_parent ns l in
       if parent < 0 then (False, lt)
       else let pn = ns ! nat parent;
                sibling = (if child0 pn = l then child1 pn else child0 pn);
                ns1 = ns[nat parent := ns ! nat sibling];
                ns2 = upd ns1 (nat parent) (\<lambda>n. n\<lparr>in_use := True\<rparr>);
                ns3 = upd ns2 (nat l) (\<lambda>n. n\<lparr>in_use := False\<rparr>);
                ns4 = upd ns3 (nat sibling) (\<lambda>n. n\<lparr>in_use := False\<rparr>)
            in (True, layout_reflow (lt\<lparr>nodes := ns4\<rparr>) vc vr))"

definition layout_pane_rect :: "layout \<Rightarrow> int \<Rightarrow> (nat \<times> nat \<times> nat \<times> nat) option" where
  "layout_pane_rect lt p =
    (let l = find_leaf (nodes lt) p in
     if l < 0 then None
     else let n = nodes lt ! nat l in Some (nx n, ny n, ncols n, nrows n))"

definition layout_leaf_count :: "layout \<Rightarrow> nat" where
  "layout_leaf_count lt =
    length (filter (\<lambda>i. in_use (nodes lt ! i) \<and> leaf (nodes lt ! i)) [0..<LAYOUT_NODES])"

section \<open>Trees in the array\<close>

text \<open>A split tree with the array index of every node, and the tree without the indices,
  which is what the rest of the daemon sees.\<close>

datatype ltree = Pane nat int | Split nat bool ltree ltree

datatype ptree = PPane int | PSplit bool ptree ptree

fun shape :: "ltree \<Rightarrow> ptree" where
  "shape (Pane i p) = PPane p"
| "shape (Split i st a b) = PSplit st (shape a) (shape b)"

fun addr :: "ltree \<Rightarrow> nat" where
  "addr (Pane i p) = i"
| "addr (Split i st a b) = i"

fun addrs :: "ltree \<Rightarrow> nat list" where
  "addrs (Pane i p) = [i]"
| "addrs (Split i st a b) = i # addrs a @ addrs b"

fun panes :: "ptree \<Rightarrow> int list" where
  "panes (PPane p) = [p]"
| "panes (PSplit st a b) = panes a @ panes b"

fun holds :: "layout_node list \<Rightarrow> ltree \<Rightarrow> bool" where
  "holds ns (Pane i p) \<longleftrightarrow> in_use (ns ! i) \<and> leaf (ns ! i) \<and> pane_idx (ns ! i) = p"
| "holds ns (Split i st a b) \<longleftrightarrow> in_use (ns ! i) \<and> \<not> leaf (ns ! i) \<and> stacked (ns ! i) = st \<and>
     child0 (ns ! i) = int (addr a) \<and> child1 (ns ! i) = int (addr b) \<and> holds ns a \<and> holds ns b"

definition layout_ok :: "layout \<Rightarrow> ltree \<Rightarrow> bool" where
  "layout_ok lt t \<longleftrightarrow> length (nodes lt) = LAYOUT_NODES \<and> root lt = int (addr t) \<and>
     holds (nodes lt) t \<and> distinct (addrs t) \<and>
     (\<forall>i<LAYOUT_NODES. in_use (nodes lt ! i) \<longleftrightarrow> i \<in> set (addrs t)) \<and>
     list_all (\<lambda>i. i < LAYOUT_NODES) (addrs t) \<and> distinct (panes (shape t))"

lemma addr_in_addrs [simp]: "addr t \<in> set (addrs t)"
  by (cases t) auto

fun height :: "ltree \<Rightarrow> nat" where
  "height (Pane i p) = 0"
| "height (Split i st a b) = 1 + max (height a) (height b)"

lemma height_addrs: "2 * height t + 1 \<le> length (addrs t)"
  by (induction t) (auto simp: max_def)

lemma layout_ok_height:
  assumes "layout_ok lt t" shows "height t \<le> 5"
proof -
  have "set (addrs t) \<subseteq> {0..<LAYOUT_NODES}"
    using assms by (auto simp: layout_ok_def list_all_iff)
  then have "card (set (addrs t)) \<le> LAYOUT_NODES"
    using card_mono [of "{0..<LAYOUT_NODES}"] by fastforce
  then have "length (addrs t) \<le> 11"
    using assms by (simp add: layout_ok_def distinct_card LAYOUT_NODES_def)
  with height_addrs [of t] show ?thesis by simp
qed

subsection \<open>Reflow\<close>

text \<open>A reflow only writes rectangles.\<close>

definition strip :: "layout_node \<Rightarrow> layout_node" where
  "strip n = n\<lparr>nx := 0, ny := 0, ncols := 0, nrows := 0\<rparr>"

definition rect_of :: "layout_node \<Rightarrow> nat \<times> nat \<times> nat \<times> nat" where
  "rect_of n = (nx n, ny n, ncols n, nrows n)"

fun halves :: "bool \<Rightarrow> nat \<times> nat \<times> nat \<times> nat \<Rightarrow> (nat \<times> nat \<times> nat \<times> nat) \<times> (nat \<times> nat \<times> nat \<times> nat)" where
  "halves True (x, y, c, r) =
    (let usable = (if r > 1 then r - 1 else 1); upper = (usable + 1) div 2;
         lower = (if usable > upper then usable - upper else 1) in
     ((x, y, c, upper), (x, cut16 (y + upper + 1), c, lower)))"
| "halves False (x, y, c, r) =
    (let usable = (if c > 1 then c - 1 else 1); left = (usable + 1) div 2;
         right = (if usable > left then usable - left else 1) in
     ((x, y, left, r), (cut16 (x + left + 1), y, right, r)))"

fun rects_ok :: "layout_node list \<Rightarrow> ltree \<Rightarrow> nat \<times> nat \<times> nat \<times> nat \<Rightarrow> bool" where
  "rects_ok ns (Pane i p) r \<longleftrightarrow> rect_of (ns ! i) = r"
| "rects_ok ns (Split i st a b) r \<longleftrightarrow> rect_of (ns ! i) = r \<and>
     rects_ok ns a (fst (halves st r)) \<and> rects_ok ns b (snd (halves st r))"

lemma strip_eqD:
  "strip m = strip n \<Longrightarrow> in_use m = in_use n \<and> leaf m = leaf n \<and> pane_idx m = pane_idx n \<and>
     stacked m = stacked n \<and> child0 m = child0 n \<and> child1 m = child1 n"
  by (cases m; cases n) (simp add: strip_def)

lemma length_upd [simp]: "length (upd ns i f) = length ns"
  by (simp add: upd_def)

lemma nth_upd: "i < length ns \<Longrightarrow> upd ns i f ! j = (if i = j then f (ns ! i) else ns ! j)"
  by (simp add: upd_def nth_list_update)

definition set_rect :: "layout_node \<Rightarrow> nat \<times> nat \<times> nat \<times> nat \<Rightarrow> layout_node" where
  "set_rect n r = (case r of (x, y, c, h) \<Rightarrow> n\<lparr>nx := x, ny := y, ncols := c, nrows := h\<rparr>)"

lemma set_rect_simps [simp]: "strip (set_rect n r) = strip n" "rect_of (set_rect n r) = r"
  by (cases r; simp add: set_rect_def strip_def rect_of_def)+

lemma divide_rect_eq:
  assumes "p \<noteq> a" "p \<noteq> b" "a \<noteq> b" "a < length ns" "b < length ns"
  shows "divide_rect ns p a b =
    (ns[a := set_rect (ns ! a) (fst (halves (stacked (ns ! p)) (rect_of (ns ! p))))])
       [b := set_rect (ns ! b) (snd (halves (stacked (ns ! p)) (rect_of (ns ! p))))]"
proof (cases "stacked (ns ! p)")
  case True
  then show ?thesis using assms
    by (simp add: divide_rect_def Let_def upd_def rect_of_def set_rect_def)
next
  case False
  then show ?thesis using assms
    by (simp add: divide_rect_def Let_def upd_def rect_of_def set_rect_def)
qed

lemma divide_rect_effect:
  assumes "p \<noteq> a" "p \<noteq> b" "a \<noteq> b" "a < length ns" "b < length ns"
  defines "ns' \<equiv> divide_rect ns p a b"
  shows "length ns' = length ns"
    and "\<And>i. strip (ns' ! i) = strip (ns ! i)"
    and "\<And>i. i \<noteq> a \<Longrightarrow> i \<noteq> b \<Longrightarrow> ns' ! i = ns ! i"
    and "rect_of (ns' ! a) = fst (halves (stacked (ns ! p)) (rect_of (ns ! p)))"
    and "rect_of (ns' ! b) = snd (halves (stacked (ns ! p)) (rect_of (ns ! p)))"
  unfolding ns'_def divide_rect_eq [OF assms(1-5)]
  using assms(1-5) by (simp_all add: nth_list_update)

lemma holds_cong:
  "(\<And>i. i \<in> set (addrs t) \<Longrightarrow> strip (ns' ! i) = strip (ns ! i)) \<Longrightarrow> holds ns' t = holds ns t"
proof (induction t)
  case (Pane i p)
  then have "strip (ns' ! i) = strip (ns ! i)" by simp
  from strip_eqD [OF this] show ?case by simp
next
  case (Split i st a b)
  then have "strip (ns' ! i) = strip (ns ! i)" "holds ns' a = holds ns a" "holds ns' b = holds ns b"
    by simp_all
  with strip_eqD [OF this(1)] show ?case by simp
qed

lemma rects_ok_cong:
  "(\<And>i. i \<in> set (addrs t) \<Longrightarrow> ns' ! i = ns ! i) \<Longrightarrow> rects_ok ns' t r = rects_ok ns t r"
  by (induction t arbitrary: r) auto

lemma rects_ok_root: "rects_ok ns t r \<Longrightarrow> rect_of (ns ! addr t) = r"
  by (cases t) auto

text \<open>On a tree that fits the depth cap, a reflow gives every node the rectangle its parent
  assigns and writes nothing else.\<close>

lemma reflow_node_tree:
  assumes "holds ns t" and "distinct (addrs t)" and "height t + d < LAYOUT_NODES"
    and "length ns = LAYOUT_NODES" and "list_all (\<lambda>i. i < LAYOUT_NODES) (addrs t)"
  shows "rects_ok (reflow_node ns (int (addr t)) d) t (rect_of (ns ! addr t)) \<and>
    length (reflow_node ns (int (addr t)) d) = LAYOUT_NODES \<and>
    (\<forall>i. strip (reflow_node ns (int (addr t)) d ! i) = strip (ns ! i)) \<and>
    (\<forall>i. i \<notin> set (addrs t) \<or> i = addr t \<longrightarrow> reflow_node ns (int (addr t)) d ! i = ns ! i)"
  using assms
proof (induction t arbitrary: ns d)
  case (Pane i p)
  then show ?case by (subst reflow_node.simps, simp)+
next
  case (Split i st a b)
  let ?n1 = "divide_rect ns i (addr a) (addr b)"
  let ?n2 = "reflow_node ?n1 (int (addr a)) (Suc d)"
  let ?n3 = "reflow_node ?n2 (int (addr b)) (Suc d)"
  have lt: "i < length ns" "addr a < length ns" "addr b < length ns"
    using Split.prems(4,5) addr_in_addrs [of a] addr_in_addrs [of b]
    by (auto simp: list_all_iff)
  have ne: "i \<noteq> addr a" "i \<noteq> addr b" "addr a \<noteq> addr b"
    using Split.prems(2) addr_in_addrs [of a] addr_in_addrs [of b] by (auto simp del: addr_in_addrs)
  have eq: "reflow_node ns (int i) d = ?n3"
    using Split.prems lt by (subst reflow_node.simps) (auto simp: Let_def)
  note D = divide_rect_effect [OF ne lt(2,3)]
  have st: "stacked (ns ! i) = st" using Split.prems(1) by simp
  have A: "rects_ok ?n2 a (rect_of (?n1 ! addr a)) \<and> length ?n2 = LAYOUT_NODES \<and>
      (\<forall>j. strip (?n2 ! j) = strip (?n1 ! j)) \<and>
      (\<forall>j. j \<notin> set (addrs a) \<or> j = addr a \<longrightarrow> ?n2 ! j = ?n1 ! j)"
    using Split.prems D(1,2)
    by (intro Split.IH(1)) (auto simp: holds_cong [of a ?n1 ns] max_def split: if_splits)
  have B: "rects_ok ?n3 b (rect_of (?n2 ! addr b)) \<and> length ?n3 = LAYOUT_NODES \<and>
      (\<forall>j. strip (?n3 ! j) = strip (?n2 ! j)) \<and>
      (\<forall>j. j \<notin> set (addrs b) \<or> j = addr b \<longrightarrow> ?n3 ! j = ?n2 ! j)"
    using Split.prems D(1,2) A
    by (intro Split.IH(2)) (auto simp: holds_cong [of b ?n2 ns] max_def split: if_splits)
  have disj: "set (addrs a) \<inter> set (addrs b) = {}" "i \<notin> set (addrs a)" "i \<notin> set (addrs b)"
    using Split.prems(2) by auto
  have "rects_ok ?n3 a (rect_of (?n1 ! addr a))"
    using A B disj by (subst rects_ok_cong [of a ?n3 ?n2]) blast+
  moreover have "?n2 ! addr b = ?n1 ! addr b" using A disj addr_in_addrs [of b] by blast
  moreover have outside: "?n1 ! j = ns ! j" if "j \<notin> set (addrs a)" "j \<notin> set (addrs b)" for j
    using D(3) [of j] that addr_in_addrs [of a] addr_in_addrs [of b] by metis
  moreover have "?n3 ! i = ns ! i" using A B D(3) disj ne by metis
  ultimately show ?case
    using A B D(1,2,4,5) outside disj st unfolding addr.simps eq by simp
qed

lemma layout_reflow_tree:
  assumes "layout_ok lt t"
  shows "layout_ok (layout_reflow lt vc vr) t"
    and "rects_ok (nodes (layout_reflow lt vc vr)) t (0, 0, max 1 vc, max 1 vr)"
proof -
  let ?ns = "upd (nodes lt) (addr t) (\<lambda>n. n\<lparr>nx := 0, ny := 0,
      ncols := if vc \<noteq> 0 then vc else 1, nrows := if vr \<noteq> 0 then vr else 1\<rparr>)"
  have addr: "addr t < LAYOUT_NODES"
    using assms addr_in_addrs [of t] by (auto simp: layout_ok_def list_all_iff)
  have eq: "layout_reflow lt vc vr = lt\<lparr>nodes := reflow_node ?ns (int (addr t)) 0\<rparr>"
    using assms addr by (simp add: layout_reflow_def layout_ok_def Let_def)
  have st: "strip (?ns ! i) = strip (nodes lt ! i)" for i
    using assms addr by (simp add: nth_upd layout_ok_def strip_def)
  have r: "rect_of (?ns ! addr t) = (0, 0, max 1 vc, max 1 vr)"
    using assms addr by (auto simp: nth_upd layout_ok_def rect_of_def max_def)
  have "holds ?ns t" using assms holds_cong [of t ?ns "nodes lt"] st by (simp add: layout_ok_def)
  then have R: "rects_ok (reflow_node ?ns (int (addr t)) 0) t (rect_of (?ns ! addr t)) \<and>
    length (reflow_node ?ns (int (addr t)) 0) = LAYOUT_NODES \<and>
    (\<forall>i. strip (reflow_node ?ns (int (addr t)) 0 ! i) = strip (?ns ! i)) \<and>
    (\<forall>i. i \<notin> set (addrs t) \<or> i = addr t \<longrightarrow> reflow_node ?ns (int (addr t)) 0 ! i = ?ns ! i)"
    using assms layout_ok_height [OF assms]
    by (intro reflow_node_tree) (auto simp: layout_ok_def LAYOUT_NODES_def)
  then show "rects_ok (nodes (layout_reflow lt vc vr)) t (0, 0, max 1 vc, max 1 vr)"
    using r by (simp add: eq)
  have st': "strip (reflow_node ?ns (int (addr t)) 0 ! i) = strip (nodes lt ! i)" for i
    using R st by simp
  then have "in_use (reflow_node ?ns (int (addr t)) 0 ! i) = in_use (nodes lt ! i)" for i
    using strip_eqD [OF st'] by blast
  then show "layout_ok (layout_reflow lt vc vr) t"
    using assms R holds_cong [of t "reflow_node ?ns (int (addr t)) 0" "nodes lt"] st'
    by (simp add: eq layout_ok_def)
qed

lemma reflow_exists:
  assumes "layout_ok lt t" and "shape t = P"
  shows "\<exists>t'. layout_ok (layout_reflow lt vc vr) t' \<and> shape t' = P \<and>
    rects_ok (nodes (layout_reflow lt vc vr)) t' (0, 0, max 1 vc, max 1 vr)"
  using layout_reflow_tree [OF assms(1)] assms(2) by blast

subsection \<open>Searching the array\<close>

lemma find_node_cases:
  obtains "find_node P ns = -1" "\<And>i. i < LAYOUT_NODES \<Longrightarrow> \<not> P (ns ! i)"
  | i where "find_node P ns = int i" "i < LAYOUT_NODES" "P (ns ! i)"
proof (cases "filter (\<lambda>i. P (ns ! i)) [0..<LAYOUT_NODES]")
  case Nil
  then show ?thesis by (intro that(1)) (auto simp: find_node_def filter_empty_conv)
next
  case (Cons i ks)
  then have "i \<in> set (filter (\<lambda>i. P (ns ! i)) [0..<LAYOUT_NODES])" by simp
  then have "i < LAYOUT_NODES" "P (ns ! i)" unfolding set_filter by simp_all
  with Cons show ?thesis by (intro that(2)) (simp_all add: find_node_def)
qed

lemma find_node_unique:
  assumes "i < LAYOUT_NODES" and "P (ns ! i)" and "\<And>j. j < LAYOUT_NODES \<Longrightarrow> P (ns ! j) \<Longrightarrow> j = i"
  shows "find_node P ns = int i"
  using assms by (cases rule: find_node_cases [of P ns]) blast+

lemma find_node_none:
  assumes "\<And>j. j < LAYOUT_NODES \<Longrightarrow> \<not> P (ns ! j)" shows "find_node P ns = - 1"
  using assms by (cases rule: find_node_cases [of P ns]) blast+

fun leaves :: "ltree \<Rightarrow> (nat \<times> int) list" where
  "leaves (Pane i p) = [(i, p)]"
| "leaves (Split i st a b) = leaves a @ leaves b"

fun subs :: "ltree \<Rightarrow> ltree set" where
  "subs (Pane i p) = {Pane i p}"
| "subs (Split i st a b) = insert (Split i st a b) (subs a \<union> subs b)"

lemma panes_leaves: "panes (shape t) = map snd (leaves t)"
  by (induction t) auto

lemma leaves_addrs: "(i, p) \<in> set (leaves t) \<Longrightarrow> i \<in> set (addrs t)"
  by (induction t) auto

lemma leaves_subs: "(i, p) \<in> set (leaves t) \<Longrightarrow> Pane i p \<in> subs t"
  by (induction t) auto

lemma subs_addrs: "u \<in> subs t \<Longrightarrow> set (addrs u) \<subseteq> set (addrs t)"
  by (induction t) auto

lemma holds_leaf:
  "holds ns t \<Longrightarrow> (i, p) \<in> set (leaves t) \<Longrightarrow> in_use (ns ! i) \<and> leaf (ns ! i) \<and> pane_idx (ns ! i) = p"
  by (induction t) auto

lemma holds_addr:
  "holds ns t \<Longrightarrow> i \<in> set (addrs t) \<Longrightarrow> leaf (ns ! i) \<Longrightarrow> (i, pane_idx (ns ! i)) \<in> set (leaves t)"
  by (induction t) auto

lemma find_leaf_none:
  assumes "layout_ok lt t" and "p \<notin> set (panes (shape t))"
  shows "find_leaf (nodes lt) p = - 1"
  unfolding find_leaf_def
proof (rule find_node_none)
  fix j assume "j < LAYOUT_NODES"
  with assms show "\<not> (in_use (nodes lt ! j) \<and> leaf (nodes lt ! j) \<and> pane_idx (nodes lt ! j) = p)"
    using holds_addr [of "nodes lt" t j] by (force simp: layout_ok_def panes_leaves)
qed

lemma find_leaf_at:
  assumes "layout_ok lt t" and "p \<in> set (panes (shape t))"
  obtains l where "find_leaf (nodes lt) p = int l" "l < LAYOUT_NODES" "(l, p) \<in> set (leaves t)"
proof -
  obtain l where l: "(l, p) \<in> set (leaves t)" using assms(2) by (auto simp: panes_leaves)
  have lt: "l < LAYOUT_NODES"
    using assms(1) leaves_addrs [OF l] by (auto simp: layout_ok_def list_all_iff)
  have "find_leaf (nodes lt) p = int l" unfolding find_leaf_def
  proof (rule find_node_unique [OF lt])
    show "in_use (nodes lt ! l) \<and> leaf (nodes lt ! l) \<and> pane_idx (nodes lt ! l) = p"
      using assms(1) holds_leaf [OF _ l] by (simp add: layout_ok_def)
    fix j assume "j < LAYOUT_NODES" "in_use (nodes lt ! j) \<and> leaf (nodes lt ! j) \<and> pane_idx (nodes lt ! j) = p"
    then have "(j, p) \<in> set (leaves t)"
      using assms(1) holds_addr [of "nodes lt" t j] by (auto simp: layout_ok_def)
    with l assms(1) show "j = l"
      using inj_onD [of snd "set (leaves t)" "(j, p)" "(l, p)"]
      by (simp add: layout_ok_def panes_leaves distinct_map)
  qed
  with that lt l show ?thesis by blast
qed

subsection \<open>Replacing a subtree\<close>

fun graft :: "ltree \<Rightarrow> nat \<Rightarrow> ltree \<Rightarrow> ltree" where
  "graft (Pane j p) i s = (if j = i then s else Pane j p)"
| "graft (Split j st a b) i s = (if j = i then s else Split j st (graft a i s) (graft b i s))"

lemma graft_id [simp]: "i \<notin> set (addrs t) \<Longrightarrow> graft t i s = t"
  by (induction t) auto

lemma addr_graft: "addr s = i \<Longrightarrow> addr (graft t i s) = addr t"
  by (cases t) auto

lemma graft_inside:
  assumes "distinct (addrs (Split j st a b))" and "u \<in> subs (Split j st a b)" and "u \<noteq> Split j st a b"
  shows "u \<in> subs a \<and> graft (Split j st a b) (addr u) s = Split j st (graft a (addr u) s) b \<or>
    u \<in> subs b \<and> graft (Split j st a b) (addr u) s = Split j st a (graft b (addr u) s)"
proof -
  have "u \<in> subs a \<Longrightarrow> addr u \<in> set (addrs a)" "u \<in> subs b \<Longrightarrow> addr u \<in> set (addrs b)"
    using subs_addrs addr_in_addrs by blast+
  moreover have "u \<in> subs a \<or> u \<in> subs b" using assms(2,3) by simp
  ultimately show ?thesis
  proof (elim disjE)
    assume "u \<in> subs a" "u \<in> subs a \<Longrightarrow> addr u \<in> set (addrs a)"
    with assms(1) have "addr u \<noteq> j" "addr u \<notin> set (addrs b)" by auto
    with \<open>u \<in> subs a\<close> show ?thesis by simp
  next
    assume "u \<in> subs b" "u \<in> subs b \<Longrightarrow> addr u \<in> set (addrs b)"
    with assms(1) have "addr u \<noteq> j" "addr u \<notin> set (addrs a)" by auto
    with \<open>u \<in> subs b\<close> show ?thesis by simp
  qed
qed

lemma graft_whole: "graft u (addr u) s = s"
  by (cases u) auto

lemma graft_holds:
  assumes "holds ns t" and "distinct (addrs t)" and "u \<in> subs t"
    and "\<And>j. j \<in> set (addrs t) \<Longrightarrow> j \<notin> set (addrs u) \<Longrightarrow> strip (ns' ! j) = strip (ns ! j)"
    and "holds ns' s" and "addr s = addr u"
  shows "holds ns' (graft t (addr u) s)"
  using assms(1-4)
proof (induction t)
  case (Pane i p)
  with assms(5,6) show ?case by simp
next
  case (Split j st a b)
  show ?case
  proof (cases "u = Split j st a b")
    case True
    with assms(5) show ?thesis by simp
  next
    case False
    have sub: "u \<in> subs a \<Longrightarrow> set (addrs u) \<subseteq> set (addrs a)" "u \<in> subs b \<Longrightarrow> set (addrs u) \<subseteq> set (addrs b)"
      by (simp_all add: subs_addrs)
    have "j \<notin> set (addrs u)" using Split.prems(2,3) False sub by auto
    then have j: "strip (ns' ! j) = strip (ns ! j)" using Split.prems(4) by simp
    from graft_inside [OF Split.prems(2,3) False, of s] show ?thesis
    proof (elim disjE conjE)
      assume u: "u \<in> subs a" and eq: "graft (Split j st a b) (addr u) s = Split j st (graft a (addr u) s) b"
      have "holds ns' (graft a (addr u) s)"
        using Split.prems u by (intro Split.IH(1)) auto
      moreover have "holds ns' b = holds ns b"
        using Split.prems(2,4) sub(1) [OF u] by (intro holds_cong) auto
      ultimately show ?thesis
        unfolding eq using Split.prems(1) strip_eqD [OF j] by (simp add: addr_graft assms(6))
    next
      assume u: "u \<in> subs b" and eq: "graft (Split j st a b) (addr u) s = Split j st a (graft b (addr u) s)"
      have "holds ns' (graft b (addr u) s)"
        using Split.prems u by (intro Split.IH(2)) auto
      moreover have "holds ns' a = holds ns a"
        using Split.prems(2,4) sub(2) [OF u] by (intro holds_cong) auto
      ultimately show ?thesis
        unfolding eq using Split.prems(1) strip_eqD [OF j] by (simp add: addr_graft assms(6))
    qed
  qed
qed

lemma graft_addrs:
  assumes "distinct (addrs t)" and "u \<in> subs t" and "distinct (addrs s)"
    and "set (addrs s) \<inter> set (addrs t) \<subseteq> set (addrs u)"
  shows "set (addrs (graft t (addr u) s)) = set (addrs t) - set (addrs u) \<union> set (addrs s) \<and>
    distinct (addrs (graft t (addr u) s))"
  using assms
proof (induction t)
  case (Pane i p)
  then show ?case by auto
next
  case (Split j st a b)
  show ?case
  proof (cases "u = Split j st a b")
    case True
    with Split.prems show ?thesis by auto
  next
    case False
    have sub: "u \<in> subs a \<Longrightarrow> set (addrs u) \<subseteq> set (addrs a)" "u \<in> subs b \<Longrightarrow> set (addrs u) \<subseteq> set (addrs b)"
      by (simp_all add: subs_addrs)
    from graft_inside [OF Split.prems(1,2) False, of s] show ?thesis
    proof (elim disjE conjE)
      assume u: "u \<in> subs a" and eq: "graft (Split j st a b) (addr u) s = Split j st (graft a (addr u) s) b"
      have "set (addrs (graft a (addr u) s)) = set (addrs a) - set (addrs u) \<union> set (addrs s) \<and>
          distinct (addrs (graft a (addr u) s))"
        using Split.prems u sub(1) [OF u] by (intro Split.IH(1)) auto
      then show ?thesis using Split.prems sub(1) [OF u] unfolding eq by auto
    next
      assume u: "u \<in> subs b" and eq: "graft (Split j st a b) (addr u) s = Split j st a (graft b (addr u) s)"
      have "set (addrs (graft b (addr u) s)) = set (addrs b) - set (addrs u) \<union> set (addrs s) \<and>
          distinct (addrs (graft b (addr u) s))"
        using Split.prems u sub(2) [OF u] by (intro Split.IH(2)) auto
      then show ?thesis using Split.prems sub(2) [OF u] unfolding eq by auto
    qed
  qed
qed

subsection \<open>The operations on trees\<close>

fun psplit :: "ptree \<Rightarrow> int \<Rightarrow> int \<Rightarrow> bool \<Rightarrow> ptree" where
  "psplit (PPane r) p q st = (if r = p then PSplit st (PPane p) (PPane q) else PPane r)"
| "psplit (PSplit s a b) p q st = PSplit s (psplit a p q st) (psplit b p q st)"

fun pclose :: "ptree \<Rightarrow> int \<Rightarrow> ptree" where
  "pclose (PPane r) p = PPane r"
| "pclose (PSplit s a b) p =
    (if a = PPane p then b else if b = PPane p then a else PSplit s (pclose a p) (pclose b p))"

lemma psplit_id [simp]: "p \<notin> set (panes t) \<Longrightarrow> psplit t p q st = t"
  by (induction t) auto

lemma pclose_id [simp]: "p \<notin> set (panes t) \<Longrightarrow> pclose t p = t"
  by (induction t) auto

lemma set_panes_psplit: "p \<in> set (panes t) \<Longrightarrow> set (panes (psplit t p q st)) = insert q (set (panes t))"
proof (induction t)
  case (PSplit s a b)
  then show ?case by (cases "p \<in> set (panes a)"; cases "p \<in> set (panes b)") auto
qed auto

lemma distinct_psplit:
  "distinct (panes t) \<Longrightarrow> q \<notin> set (panes t) \<Longrightarrow> distinct (panes (psplit t p q st))"
proof (induction t)
  case (PSplit s a b)
  then show ?case
    by (cases "p \<in> set (panes a)"; cases "p \<in> set (panes b)") (auto simp: set_panes_psplit)
qed auto

lemma panes_nonempty: "panes t \<noteq> []"
  by (induction t) auto

lemma panes_pclose:
  "distinct (panes t) \<Longrightarrow> t \<noteq> PPane p \<Longrightarrow>
   set (panes (pclose t p)) = set (panes t) - {p} \<and> distinct (panes (pclose t p))"
proof (induction t)
  case (PSplit s a b)
  then have A: "a \<noteq> PPane p \<Longrightarrow> set (panes (pclose a p)) = set (panes a) - {p} \<and> distinct (panes (pclose a p))"
    and B: "b \<noteq> PPane p \<Longrightarrow> set (panes (pclose b p)) = set (panes b) - {p} \<and> distinct (panes (pclose b p))"
    by auto
  consider "a = PPane p" | "a \<noteq> PPane p" "b = PPane p" | "a \<noteq> PPane p" "b \<noteq> PPane p" by blast
  then show ?case using A B PSplit.prems(1) by cases auto
qed auto

lemma shape_graft_split:
  "distinct (addrs t) \<Longrightarrow> distinct (panes (shape t)) \<Longrightarrow> (l, p) \<in> set (leaves t) \<Longrightarrow>
   shape (graft t l (Split l st (Pane a p) (Pane b q))) = psplit (shape t) p q st"
proof (induction t)
  case (Split j s x y)
  have in_x: "(l, p) \<in> set (leaves x) \<Longrightarrow> l \<in> set (addrs x) \<and> p \<in> set (panes (shape x))"
    by (force simp: leaves_addrs panes_leaves)
  have in_y: "(l, p) \<in> set (leaves y) \<Longrightarrow> l \<in> set (addrs y) \<and> p \<in> set (panes (shape y))"
    by (force simp: leaves_addrs panes_leaves)
  show ?case
  proof (cases "(l, p) \<in> set (leaves x)")
    case True
    with Split in_x have "l \<noteq> j" "l \<notin> set (addrs y)" "p \<notin> set (panes (shape y))" by auto
    with True Split show ?thesis by simp
  next
    case False
    with Split in_y have "l \<noteq> j" "l \<notin> set (addrs x)" "p \<notin> set (panes (shape x))" by auto
    with False Split show ?thesis by simp
  qed
qed auto

fun readdr :: "ltree \<Rightarrow> nat \<Rightarrow> ltree" where
  "readdr (Pane j q) i = Pane i q"
| "readdr (Split j st a b) i = Split i st a b"

lemma readdr_simps [simp]:
  "shape (readdr t i) = shape t" "addr (readdr t i) = i" "addrs (readdr t i) = i # tl (addrs t)"
  by (cases t; simp)+

text \<open>The parent of a leaf that is not the root, and the sibling it is closed in favour of.\<close>

lemma parent_of_leaf:
  "(l, p) \<in> set (leaves t) \<Longrightarrow> t \<noteq> Pane l p \<Longrightarrow>
   \<exists>i st a b. Split i st a b \<in> subs t \<and> (a = Pane l p \<or> b = Pane l p)"
proof (induction t)
  case (Split j s x y)
  show ?case
  proof (cases "x = Pane l p \<or> y = Pane l p")
    case True
    then show ?thesis by (intro exI [of _ j] exI [of _ s] exI [of _ x] exI [of _ y]) simp
  next
    case False
    with Split show ?thesis by (auto; blast)
  qed
qed auto

lemma subs_panes: "u \<in> subs t \<Longrightarrow> set (panes (shape u)) \<subseteq> set (panes (shape t))"
  by (induction t) auto

lemma shape_pane [simp]: "shape t = PPane p \<longleftrightarrow> (\<exists>i. t = Pane i p)"
  by (cases t) auto

lemma shape_graft_close:
  assumes "distinct (addrs t)" and "distinct (panes (shape t))" and "Split i st a b \<in> subs t"
    and "a = Pane l p \<and> sib = b \<or> b = Pane l p \<and> sib = a"
  shows "shape (graft t i (readdr sib i)) = pclose (shape t) p"
  using assms(1-3)
proof (induction t)
  case (Split j s x y)
  let ?u = "Split i st a b"
  have p: "p \<in> set (panes (shape ?u))" using assms(4) by auto
  show ?case
  proof (cases "?u = Split j s x y")
    case True
    with assms(4) Split.prems(2) show ?thesis by auto
  next
    case False
    have no_pane: "?u \<in> subs z \<Longrightarrow> z \<noteq> Pane k q" for z k q by auto
    from graft_inside [OF Split.prems(1,3) False, of "readdr sib i"] show ?thesis
    proof (elim disjE conjE)
      assume u: "?u \<in> subs x" and eq: "graft (Split j s x y) (addr ?u) (readdr sib i) =
          Split j s (graft x (addr ?u) (readdr sib i)) y"
      have "p \<in> set (panes (shape x))" using subs_panes [OF u] p by blast
      then have "p \<notin> set (panes (shape y))" using Split.prems(2) by auto
      moreover have "\<And>k. y \<noteq> Pane k p" using calculation by auto
      ultimately show ?thesis using eq Split no_pane [OF u] u by simp
    next
      assume u: "?u \<in> subs y" and eq: "graft (Split j s x y) (addr ?u) (readdr sib i) =
          Split j s x (graft y (addr ?u) (readdr sib i))"
      have "p \<in> set (panes (shape y))" using subs_panes [OF u] p by blast
      then have "p \<notin> set (panes (shape x))" using Split.prems(2) by auto
      moreover have "\<And>k. x \<noteq> Pane k p" using calculation by auto
      ultimately show ?thesis using eq Split no_pane [OF u] u by simp
    qed
  qed
qed auto

text \<open>Child links are unique: the array search for the parent finds the tree's parent.\<close>

fun kids :: "ltree \<Rightarrow> (nat \<times> nat) list" where
  "kids (Pane i p) = []"
| "kids (Split i st a b) = (i, addr a) # (i, addr b) # kids a @ kids b"

lemma mset_kids: "mset (addrs t) = mset (addr t # map snd (kids t))"
  by (induction t) (simp_all add: union_assoc)

lemma kids_addrs: "(i, k) \<in> set (kids t) \<Longrightarrow> i \<in> set (addrs t)"
  by (induction t) auto

lemma kids_unique:
  assumes "distinct (addrs t)" and "(i, k) \<in> set (kids t)" and "(j, k) \<in> set (kids t)"
  shows "i = j"
proof -
  have "distinct (addr t # map snd (kids t))"
    using mset_eq_imp_distinct_iff [OF mset_kids] assms(1) by blast
  then have "inj_on snd (set (kids t))" by (simp add: distinct_map)
  with inj_onD [OF this, of "(i, k)" "(j, k)"] assms show ?thesis by simp
qed

lemma subs_kids: "Split i st a b \<in> subs t \<Longrightarrow> (i, addr a) \<in> set (kids t) \<and> (i, addr b) \<in> set (kids t)"
  by (induction t) auto

lemma holds_kids:
  "holds ns t \<Longrightarrow> i \<in> set (addrs t) \<Longrightarrow> \<not> leaf (ns ! i) \<Longrightarrow>
   \<exists>k0 k1. child0 (ns ! i) = int k0 \<and> child1 (ns ! i) = int k1 \<and>
     (i, k0) \<in> set (kids t) \<and> (i, k1) \<in> set (kids t)"
  by (induction t) auto

lemma holds_subs: "holds ns t \<Longrightarrow> u \<in> subs t \<Longrightarrow> holds ns u"
  by (induction t) auto

lemma find_parent_at:
  assumes "layout_ok lt t" and "Split i st a b \<in> subs t" and "l = addr a \<or> l = addr b"
  shows "find_parent (nodes lt) (int l) = int i"
  unfolding find_parent_def
proof (rule find_node_unique)
  have i: "(i, l) \<in> set (kids t)" using subs_kids [OF assms(2)] assms(3) by auto
  then show "i < LAYOUT_NODES"
    using assms(1) kids_addrs by (auto simp: layout_ok_def list_all_iff)
  have "holds (nodes lt) (Split i st a b)"
    using assms(1) holds_subs [OF _ assms(2)] by (simp add: layout_ok_def)
  then show "in_use (nodes lt ! i) \<and> \<not> leaf (nodes lt ! i) \<and>
      (child0 (nodes lt ! i) = int l \<or> child1 (nodes lt ! i) = int l)"
    using assms(3) by auto
  fix j assume "j < LAYOUT_NODES" and j: "in_use (nodes lt ! j) \<and> \<not> leaf (nodes lt ! j) \<and>
      (child0 (nodes lt ! j) = int l \<or> child1 (nodes lt ! j) = int l)"
  then have "(j, l) \<in> set (kids t)"
    using assms(1) holds_kids [of "nodes lt" t j] by (auto simp: layout_ok_def)
  with i assms(1) kids_unique show "j = i" by (auto simp: layout_ok_def)
qed

subsection \<open>Splitting and closing\<close>

lemma distinct_subs: "distinct (addrs t) \<Longrightarrow> u \<in> subs t \<Longrightarrow> distinct (addrs u)"
  by (induction t) auto

lemma addrs_hd: "addrs t = addr t # tl (addrs t)"
  by (cases t) auto

lemma holds_readdr:
  assumes "holds ms t" and "ns ! i = (ms ! addr t)\<lparr>in_use := True\<rparr>"
    and "\<And>j. j \<in> set (tl (addrs t)) \<Longrightarrow> ns ! j = ms ! j"
  shows "holds ns (readdr t i)"
proof (cases t)
  case (Pane j q)
  with assms show ?thesis by simp
next
  case (Split j s x y)
  with assms(3) have "holds ns x = holds ms x" "holds ns y = holds ms y"
    by (intro holds_cong; simp)+
  with assms(1,2) Split show ?thesis by simp
qed

lemma split_tree:
  assumes "layout_ok lt t" and l: "(l, p) \<in> set (leaves t)" and "q \<notin> set (panes (shape t))"
    and ab: "a < LAYOUT_NODES" "b < LAYOUT_NODES" "a \<noteq> b" "\<not> in_use (nodes lt ! a)" "\<not> in_use (nodes lt ! b)"
    and len: "length ns = LAYOUT_NODES"
    and na: "ns ! a = leaf_node p" and nb: "ns ! b = leaf_node q"
    and nl: "ns ! l = (nodes lt ! l)\<lparr>leaf := False, pane_idx := - 1, stacked := st,
               child0 := int a, child1 := int b\<rparr>"
    and other: "\<And>i. i \<noteq> a \<Longrightarrow> i \<noteq> b \<Longrightarrow> i \<noteq> l \<Longrightarrow> ns ! i = nodes lt ! i"
  shows "layout_ok (lt\<lparr>nodes := ns\<rparr>) (graft t l (Split l st (Pane a p) (Pane b q)))"
    and "shape (graft t l (Split l st (Pane a p) (Pane b q))) = psplit (shape t) p q st"
proof -
  let ?s = "Split l st (Pane a p) (Pane b q)"
  have ok: "holds (nodes lt) t" "distinct (addrs t)" "distinct (panes (shape t))"
    using assms(1) by (auto simp: layout_ok_def)
  have u: "Pane l p \<in> subs t" by (rule leaves_subs [OF l])
  have lu: "in_use (nodes lt ! l)" using holds_leaf [OF ok(1) l] by simp
  have fresh: "a \<notin> set (addrs t)" "b \<notin> set (addrs t)" "a \<noteq> l" "b \<noteq> l"
    using assms(1) ab lu by (auto simp: layout_ok_def)
  have hs: "holds ns ?s" using lu by (simp add: na nb nl leaf_node_def)
  have h: "holds ns (graft t l ?s)"
    using graft_holds [OF ok(1,2) u _ hs] other fresh by force
  have A: "set (addrs (graft t l ?s)) = set (addrs t) - {l} \<union> {l, a, b} \<and> distinct (addrs (graft t l ?s))"
    using graft_addrs [OF ok(2) u, of ?s] fresh ab(3) by auto
  show sh: "shape (graft t l ?s) = psplit (shape t) p q st"
    by (rule shape_graft_split [OF ok(2,3) l])
  have "in_use (ns ! i) \<longleftrightarrow> i = a \<or> i = b \<or> in_use (nodes lt ! i)" for i
  proof -
    consider "i = a" | "i = b" | "i = l" | "i \<noteq> a" "i \<noteq> b" "i \<noteq> l" by blast
    then show ?thesis using na nb nl lu other [of i] by cases (simp_all add: leaf_node_def)
  qed
  then have "\<forall>i<LAYOUT_NODES. in_use (ns ! i) \<longleftrightarrow> i \<in> set (addrs (graft t l ?s))"
    using assms(1) A ab(1,2) leaves_addrs [OF l] by (auto simp: layout_ok_def)
  moreover have "list_all (\<lambda>i. i < LAYOUT_NODES) (addrs (graft t l ?s))"
    using assms(1) A ab leaves_addrs [OF l] by (auto simp: layout_ok_def list_all_iff)
  ultimately show "layout_ok (lt\<lparr>nodes := ns\<rparr>) (graft t l ?s)"
    using assms(1,3) len h A sh distinct_psplit [OF ok(3)] addr_graft [of ?s l t]
    by (simp add: layout_ok_def)
qed

lemma sibling_addrs:
  assumes "distinct (addrs (Split i st a b))" and "a = Pane l p \<and> sib = b \<or> b = Pane l p \<and> sib = a"
  shows "set (addrs (Split i st a b)) = {i, l, addr sib} \<union> set (tl (addrs sib))"
    and "i \<noteq> l" and "i \<noteq> addr sib" and "l \<noteq> addr sib"
    and "i \<notin> set (tl (addrs sib))" and "l \<notin> set (tl (addrs sib))"
    and "addr sib \<notin> set (tl (addrs sib))" and "distinct (tl (addrs sib))"
proof -
  obtain k ks where k: "addrs sib = k # ks" "addr sib = k" by (metis addrs_hd)
  show "set (addrs (Split i st a b)) = {i, l, addr sib} \<union> set (tl (addrs sib))"
    and "i \<noteq> l" and "i \<noteq> addr sib" and "l \<noteq> addr sib"
    and "i \<notin> set (tl (addrs sib))" and "l \<notin> set (tl (addrs sib))"
    and "addr sib \<notin> set (tl (addrs sib))" and "distinct (tl (addrs sib))"
    using assms k by auto
qed

lemma close_tree:
  assumes "layout_ok lt t" and u: "Split i st a b \<in> subs t"
    and sib: "a = Pane l p \<and> sib = b \<or> b = Pane l p \<and> sib = a"
    and len: "length ns = LAYOUT_NODES"
    and ni: "ns ! i = (nodes lt ! addr sib)\<lparr>in_use := True\<rparr>"
    and free: "\<not> in_use (ns ! l)" "\<not> in_use (ns ! addr sib)"
    and other: "\<And>j. j \<noteq> i \<Longrightarrow> j \<noteq> l \<Longrightarrow> j \<noteq> addr sib \<Longrightarrow> ns ! j = nodes lt ! j"
  shows "layout_ok (lt\<lparr>nodes := ns\<rparr>) (graft t i (readdr sib i))"
    and "shape (graft t i (readdr sib i)) = pclose (shape t) p"
proof -
  let ?s = "readdr sib i" and ?u = "Split i st a b"
  have ok: "holds (nodes lt) t" "distinct (addrs t)" "distinct (panes (shape t))"
    using assms(1) by (auto simp: layout_ok_def)
  have hu: "holds (nodes lt) ?u" by (rule holds_subs [OF ok(1) u])
  have du: "distinct (addrs ?u)" by (rule distinct_subs [OF ok(2) u])
  note N = sibling_addrs [OF du sib]
  note su = N(1) and ne = N(2-4) and tl = N(5-8)
  have "holds (nodes lt) sib" using hu sib by auto
  then have hs: "holds ns ?s"
  proof (rule holds_readdr [where ms = "nodes lt"])
    fix j assume "j \<in> set (tl (addrs sib))"
    with tl show "ns ! j = nodes lt ! j" by (intro other) auto
  qed (rule ni)
  have "holds ns (graft t (addr ?u) ?s)"
  proof (rule graft_holds [OF ok(1,2) u _ hs])
    fix j assume "j \<notin> set (addrs ?u)"
    then have "j \<noteq> i" "j \<noteq> l" "j \<noteq> addr sib" unfolding su by auto
    then show "strip (ns ! j) = strip (nodes lt ! j)" by (simp add: other)
  qed simp
  then have h: "holds ns (graft t i ?s)" by simp
  have "set (addrs (graft t (addr ?u) ?s)) = set (addrs t) - set (addrs ?u) \<union> set (addrs ?s) \<and>
      distinct (addrs (graft t (addr ?u) ?s))"
    by (rule graft_addrs [OF ok(2) u]) (use tl in \<open>auto simp: su simp del: addrs.simps\<close>)
  moreover have "set (addrs ?u) \<subseteq> set (addrs t)" by (rule subs_addrs [OF u])
  ultimately have A: "set (addrs (graft t i ?s)) = set (addrs t) - {l, addr sib} \<and> distinct (addrs (graft t i ?s))"
    using ne tl unfolding su by auto
  show sh: "shape (graft t i ?s) = pclose (shape t) p"
    by (rule shape_graft_close [OF ok(2,3) u sib])
  have i: "i \<in> set (addrs t)" using subs_addrs [OF u] by simp
  have "in_use (ns ! j) \<longleftrightarrow> j = i \<or> j \<noteq> l \<and> j \<noteq> addr sib \<and> in_use (nodes lt ! j)" for j
  proof -
    consider "j = i" | "j = l" | "j = addr sib" | "j \<noteq> i" "j \<noteq> l" "j \<noteq> addr sib" by blast
    then show ?thesis using ni free other [of j] ne by cases simp_all
  qed
  then have "\<forall>j<LAYOUT_NODES. in_use (ns ! j) \<longleftrightarrow> j \<in> set (addrs (graft t i ?s))"
    using assms(1) A i ne by (auto simp: layout_ok_def)
  moreover have "list_all (\<lambda>i. i < LAYOUT_NODES) (addrs (graft t i ?s))"
    using assms(1) A by (auto simp: layout_ok_def list_all_iff)
  moreover have "distinct (panes (pclose (shape t) p))"
    using panes_pclose [OF ok(3)] u by force
  ultimately show "layout_ok (lt\<lparr>nodes := ns\<rparr>) (graft t i ?s)"
    using assms(1) len h A sh addr_graft [of ?s i t] by (simp add: layout_ok_def)
qed

text \<open>The array operations perform the tree operations, and refuse without a trace.\<close>

lemma node_alloc_cases:
  assumes "length ns = LAYOUT_NODES"
  obtains "node_alloc ns = - 1" "\<And>i. i < LAYOUT_NODES \<Longrightarrow> in_use (ns ! i)"
  | a where "node_alloc ns = int a" "a < LAYOUT_NODES" "\<not> in_use (ns ! a)"
  unfolding node_alloc_def by (cases rule: find_node_cases [of "\<lambda>n. \<not> in_use n" ns]) auto

definition roomy :: "layout \<Rightarrow> int \<Rightarrow> bool \<Rightarrow> bool" where
  "roomy lt p st \<longleftrightarrow> (case layout_pane_rect lt p of None \<Rightarrow> False
     | Some (x, y, c, r) \<Rightarrow> if st then 2 * PANE_MIN_ROWS + 1 \<le> r else 2 * PANE_MIN_COLS + 1 \<le> c)"

lemma length_addrs: "length (addrs t) + 1 = 2 * length (panes (shape t))"
  by (induction t) auto

lemma in_use_addrs:
  assumes "layout_ok lt t"
  shows "card {i. i < LAYOUT_NODES \<and> in_use (nodes lt ! i)} + 1 = 2 * length (panes (shape t))"
proof -
  have "{i. i < LAYOUT_NODES \<and> in_use (nodes lt ! i)} = set (addrs t)"
    using assms by (auto simp: layout_ok_def list_all_iff)
  then show ?thesis using assms length_addrs [of t] by (simp add: layout_ok_def distinct_card)
qed

lemma layout_split_at:
  assumes "find_leaf (nodes lt) p = int l"
  shows "layout_split lt vc vr p q st =
    (if \<not> roomy lt p st then (False, lt)
     else let a = node_alloc (nodes lt) in
       if a < 0 then (False, lt)
       else let ns1 = upd (nodes lt) (nat a) (\<lambda>n. n\<lparr>in_use := True\<rparr>); b = node_alloc ns1 in
         if b < 0 then (False, lt\<lparr>nodes := upd ns1 (nat a) (\<lambda>n. n\<lparr>in_use := False\<rparr>)\<rparr>)
         else (True, layout_reflow (lt\<lparr>nodes := upd (ns1[nat a := leaf_node p, nat b := leaf_node q]) l
                 (\<lambda>n. n\<lparr>leaf := False, pane_idx := -1, stacked := st, child0 := a, child1 := b\<rparr>)\<rparr>) vc vr))"
proof -
  have "roomy lt p st \<longleftrightarrow> \<not> (if st then nrows (nodes lt ! l) < 2 * PANE_MIN_ROWS + 1
      else ncols (nodes lt ! l) < 2 * PANE_MIN_COLS + 1)"
    using assms by (auto simp: roomy_def layout_pane_rect_def Let_def)
  then show ?thesis unfolding layout_split_def Let_def assms by simp
qed

lemma split_second_alloc:
  assumes ok: "layout_ok lt t" and a: "a < LAYOUT_NODES" "\<not> in_use (nodes lt ! a)"
  defines "ns1 \<equiv> upd (nodes lt) a (\<lambda>n. n\<lparr>in_use := True\<rparr>)"
  shows "upd ns1 a (\<lambda>n. n\<lparr>in_use := False\<rparr>) = nodes lt"
    and "node_alloc ns1 < 0 \<Longrightarrow> \<not> length (panes (shape t)) < 6"
    and "\<not> node_alloc ns1 < 0 \<Longrightarrow> length (panes (shape t)) < 6 \<and> node_alloc ns1 = int (nat (node_alloc ns1)) \<and>
      nat (node_alloc ns1) < LAYOUT_NODES \<and> a \<noteq> nat (node_alloc ns1) \<and>
      \<not> in_use (nodes lt ! nat (node_alloc ns1))"
proof -
  have len: "length (nodes lt) = LAYOUT_NODES" "length ns1 = LAYOUT_NODES"
    using ok by (auto simp: layout_ok_def ns1_def)
  show "upd ns1 a (\<lambda>n. n\<lparr>in_use := False\<rparr>) = nodes lt"
    using a len by (simp add: ns1_def upd_def list_update_same_conv)
  note card = in_use_addrs [OF ok]
  show "\<not> length (panes (shape t)) < 6" if "node_alloc ns1 < 0"
    using that
  proof (cases rule: node_alloc_cases [OF len(2)])
    case 1
    have "in_use (nodes lt ! i)" if "i < LAYOUT_NODES" "i \<noteq> a" for i
      using 1(2) [OF that(1)] that a len by (simp add: nth_upd ns1_def)
    then have "{i. i < LAYOUT_NODES \<and> in_use (nodes lt ! i)} = {0..<LAYOUT_NODES} - {a}"
      using a by auto
    then show ?thesis using card a by (simp add: LAYOUT_NODES_def) presburger
  qed simp
  show "length (panes (shape t)) < 6 \<and> node_alloc ns1 = int (nat (node_alloc ns1)) \<and>
      nat (node_alloc ns1) < LAYOUT_NODES \<and> a \<noteq> nat (node_alloc ns1) \<and>
      \<not> in_use (nodes lt ! nat (node_alloc ns1))" if "\<not> node_alloc ns1 < 0"
    using that
  proof (cases rule: node_alloc_cases [OF len(2)])
    case (2 b)
    then have b: "a \<noteq> b" "\<not> in_use (nodes lt ! b)"
      using a len by (auto simp: nth_upd ns1_def split: if_splits)
    have "{i. i < LAYOUT_NODES \<and> in_use (nodes lt ! i)} \<subseteq> {0..<LAYOUT_NODES} - {a, b}"
      using a b by auto
    from card_mono [OF _ this] have "length (panes (shape t)) < 6"
      using card a 2(2) b(1) by (simp add: LAYOUT_NODES_def)
    with 2 b show ?thesis by simp
  qed simp
qed

lemma split_writes:
  fixes st :: bool
  assumes ok: "layout_ok lt t" and l: "l < LAYOUT_NODES" "(l, p) \<in> set (leaves t)"
    and q: "q \<notin> set (panes (shape t))"
    and a: "a < LAYOUT_NODES" "\<not> in_use (nodes lt ! a)"
    and b: "b < LAYOUT_NODES" "\<not> in_use (nodes lt ! b)" "a \<noteq> b"
  defines "ns3 \<equiv> upd ((upd (nodes lt) a (\<lambda>n. n\<lparr>in_use := True\<rparr>))[a := leaf_node p, b := leaf_node q]) l
    (\<lambda>n. n\<lparr>leaf := False, pane_idx := -1, stacked := st, child0 := int a, child1 := int b\<rparr>)"
  shows "layout_ok (lt\<lparr>nodes := ns3\<rparr>) (graft t l (Split l st (Pane a p) (Pane b q)))"
    and "shape (graft t l (Split l st (Pane a p) (Pane b q))) = psplit (shape t) p q st"
proof -
  have len: "length (nodes lt) = LAYOUT_NODES" using ok by (simp add: layout_ok_def)
  have "in_use (nodes lt ! l)" using ok holds_leaf [OF _ l(2)] by (simp add: layout_ok_def)
  then have al: "a \<noteq> l" "b \<noteq> l" using a b by auto
  have W: "ns3 ! a = leaf_node p" "ns3 ! b = leaf_node q"
    "ns3 ! l = (nodes lt ! l)\<lparr>leaf := False, pane_idx := - 1, stacked := st,
         child0 := int a, child1 := int b\<rparr>"
    "\<And>i. i \<noteq> a \<Longrightarrow> i \<noteq> b \<Longrightarrow> i \<noteq> l \<Longrightarrow> ns3 ! i = nodes lt ! i"
    using len l a b al by (simp_all add: ns3_def nth_upd upd_def nth_list_update)
  have "length ns3 = LAYOUT_NODES" using len by (simp add: ns3_def)
  note T = split_tree [OF ok l(2) q a(1) b(1,3) a(2) b(2) this W]
  from T show "layout_ok (lt\<lparr>nodes := ns3\<rparr>) (graft t l (Split l st (Pane a p) (Pane b q)))"
    and "shape (graft t l (Split l st (Pane a p) (Pane b q))) = psplit (shape t) p q st" by simp_all
qed

lemma layout_split_refines:
  assumes ok: "layout_ok lt t" and q: "q \<notin> set (panes (shape t))"
  shows "case layout_split lt vc vr p q st of
     (True, lt') \<Rightarrow> p \<in> set (panes (shape t)) \<and> roomy lt p st \<and> length (panes (shape t)) < 6 \<and>
        (\<exists>t'. layout_ok lt' t' \<and> shape t' = psplit (shape t) p q st \<and>
           rects_ok (nodes lt') t' (0, 0, max 1 vc, max 1 vr))
   | (False, lt') \<Rightarrow> lt' = lt \<and>
        \<not> (p \<in> set (panes (shape t)) \<and> roomy lt p st \<and> length (panes (shape t)) < 6)"
proof (cases "p \<in> set (panes (shape t)) \<and> roomy lt p st")
  case no: False
  show ?thesis
  proof (cases "p \<in> set (panes (shape t))")
    case False
    with find_leaf_none [OF ok False] show ?thesis by (simp add: layout_split_def Let_def)
  next
    case True
    obtain l where "find_leaf (nodes lt) p = int l" using find_leaf_at [OF ok True] .
    with no True show ?thesis by (simp add: layout_split_at)
  qed
next
  case yes: True
  obtain l where l: "find_leaf (nodes lt) p = int l" "l < LAYOUT_NODES" "(l, p) \<in> set (leaves t)"
    using find_leaf_at [OF ok conjunct1 [OF yes]] .
  have len: "length (nodes lt) = LAYOUT_NODES" using ok by (simp add: layout_ok_def)
  note eq = layout_split_at [OF l(1), of vc vr q st]
  show ?thesis
  proof (cases rule: node_alloc_cases [OF len])
    case 1
    have "{i. i < LAYOUT_NODES \<and> in_use (nodes lt ! i)} = {0..<LAYOUT_NODES}" using 1(2) by auto
    then have "\<not> length (panes (shape t)) < 6"
      using in_use_addrs [OF ok] by (simp add: LAYOUT_NODES_def)
    with 1 yes eq show ?thesis by simp
  next
    case (2 a)
    let ?ns1 = "upd (nodes lt) a (\<lambda>n. n\<lparr>in_use := True\<rparr>)" and ?P = "psplit (shape t) p q st"
    note S = split_second_alloc [OF ok 2(2,3)]
    show ?thesis
    proof (cases "node_alloc ?ns1 < 0")
      case True
      with S(1,2) 2 yes eq show ?thesis by (simp add: Let_def)
    next
      case False
      then obtain b where b: "node_alloc ?ns1 = int b" "b < LAYOUT_NODES" "\<not> in_use (nodes lt ! b)"
          "a \<noteq> b" and few: "length (panes (shape t)) < 6"
        using S(3) by metis
      note W = split_writes [OF ok l(2,3) q 2(2,3) b(2,3,4), of st]
      have "layout_split lt vc vr p q st = (True, layout_reflow (lt\<lparr>nodes :=
          upd (?ns1[a := leaf_node p, b := leaf_node q]) l (\<lambda>n. n\<lparr>leaf := False, pane_idx := -1,
             stacked := st, child0 := int a, child1 := int b\<rparr>)\<rparr>) vc vr)"
        using 2(1) b(1) yes eq by (simp add: Let_def)
      with reflow_exists [OF W, of vc vr] yes few show ?thesis by simp
    qed
  qed
qed

lemma close_writes:
  assumes ok: "layout_ok lt t" and l: "(l, p) \<in> set (leaves t)"
    and u: "Split i st a b \<in> subs t" and sib: "a = Pane l p \<and> sib = b \<or> b = Pane l p \<and> sib = a"
  shows "layout_close lt vc vr p = (True, layout_reflow (lt\<lparr>nodes :=
      upd (upd ((nodes lt)[i := (nodes lt ! addr sib)\<lparr>in_use := True\<rparr>]) l (\<lambda>n. n\<lparr>in_use := False\<rparr>))
        (addr sib) (\<lambda>n. n\<lparr>in_use := False\<rparr>)\<rparr>) vc vr)"
proof -
  have p: "p \<in> set (panes (shape t))" using l by (force simp: panes_leaves)
  obtain l' where l': "find_leaf (nodes lt) p = int l'" "(l', p) \<in> set (leaves t)"
    using find_leaf_at [OF ok p] .
  have "l' = l"
    using inj_onD [of snd "set (leaves t)" "(l', p)" "(l, p)"] l l' ok
    by (simp add: layout_ok_def panes_leaves distinct_map)
  moreover have "find_parent (nodes lt) (int l) = int i"
    using find_parent_at [OF ok u] sib by auto
  moreover have h: "holds (nodes lt) (Split i st a b)" and d: "distinct (addrs (Split i st a b))"
    using ok holds_subs [OF _ u] distinct_subs [OF _ u] by (auto simp: layout_ok_def)
  moreover have "i < LAYOUT_NODES" "length (nodes lt) = LAYOUT_NODES"
    using subs_addrs [OF u] ok by (auto simp: layout_ok_def list_all_iff)
  moreover have "addr a \<noteq> addr b" using sibling_addrs(4) [OF d sib] sib by auto
  ultimately show ?thesis
    using l' sib by (auto simp: layout_close_def Let_def upd_def)
qed

lemma layout_close_refines:
  assumes ok: "layout_ok lt t"
  shows "case layout_close lt vc vr p of
     (True, lt') \<Rightarrow> p \<in> set (panes (shape t)) \<and> shape t \<noteq> PPane p \<and>
        (\<exists>t'. layout_ok lt' t' \<and> shape t' = pclose (shape t) p \<and>
           rects_ok (nodes lt') t' (0, 0, max 1 vc, max 1 vr))
   | (False, lt') \<Rightarrow> lt' = lt \<and> \<not> (p \<in> set (panes (shape t)) \<and> shape t \<noteq> PPane p)"
proof (cases "p \<in> set (panes (shape t)) \<and> shape t \<noteq> PPane p")
  case no: False
  show ?thesis
  proof (cases "p \<in> set (panes (shape t))")
    case False
    with find_leaf_none [OF ok False] show ?thesis by (simp add: layout_close_def Let_def)
  next
    case True
    with no obtain i where t: "t = Pane i p" by auto
    obtain l where l: "find_leaf (nodes lt) p = int l" using find_leaf_at [OF ok True] .
    have "find_parent (nodes lt) (int l) = - 1" unfolding find_parent_def
      using ok t by (intro find_node_none) (auto simp: layout_ok_def)
    with l no show ?thesis by (simp add: layout_close_def Let_def)
  qed
next
  case yes: True
  then obtain l where l: "(l, p) \<in> set (leaves t)" by (auto simp: panes_leaves)
  obtain i st a b where u: "Split i st a b \<in> subs t" "a = Pane l p \<or> b = Pane l p"
    using parent_of_leaf [OF l] yes by auto
  then obtain sib where sib: "a = Pane l p \<and> sib = b \<or> b = Pane l p \<and> sib = a" by blast
  let ?ns = "upd (upd ((nodes lt)[i := (nodes lt ! addr sib)\<lparr>in_use := True\<rparr>]) l (\<lambda>n. n\<lparr>in_use := False\<rparr>))
        (addr sib) (\<lambda>n. n\<lparr>in_use := False\<rparr>)"
  have "distinct (addrs (Split i st a b))" using ok distinct_subs [OF _ u(1)] by (simp add: layout_ok_def)
  note N = sibling_addrs [OF this sib]
  have len: "length (nodes lt) = LAYOUT_NODES" using ok by (simp add: layout_ok_def)
  have lt: "i < LAYOUT_NODES" "l < LAYOUT_NODES" "addr sib < LAYOUT_NODES"
    using N(1) subs_addrs [OF u(1)] ok by (auto simp: layout_ok_def list_all_iff)
  have T: "layout_ok (lt\<lparr>nodes := ?ns\<rparr>) (graft t i (readdr sib i))"
    "shape (graft t i (readdr sib i)) = pclose (shape t) p"
    using close_tree [OF ok u(1) sib, of ?ns] lt N(2-4) len by (auto simp: nth_upd upd_def nth_list_update)
  from reflow_exists [OF T, of vc vr] yes close_writes [OF ok l u(1) sib, of vc vr] show ?thesis
    by simp
qed

section \<open>Geometry\<close>

type_synonym rect = "nat \<times> nat \<times> nat \<times> nat"

text \<open>The rectangles a tree divides a view into, and the condition that no division is so small
  that the code has to clamp.\<close>

fun tiles :: "ptree \<Rightarrow> rect \<Rightarrow> (int \<times> rect) list" where
  "tiles (PPane p) r = [(p, r)]"
| "tiles (PSplit st a b) r = tiles a (fst (halves st r)) @ tiles b (snd (halves st r))"

definition inside :: "rect \<Rightarrow> rect \<Rightarrow> bool" where
  "inside s r = (case (s, r) of ((x', y', c', h'), (x, y, c, h)) \<Rightarrow>
     x \<le> x' \<and> y \<le> y' \<and> x' + c' \<le> x + c \<and> y' + h' \<le> y + h \<and> 0 < c' \<and> 0 < h')"

definition apart :: "rect \<Rightarrow> rect \<Rightarrow> bool" where
  "apart s r = (case (s, r) of ((x', y', c', h'), (x, y, c, h)) \<Rightarrow>
     x' + c' < x \<or> x + c < x' \<or> y' + h' < y \<or> y + h < y')"

definition big_enough :: "rect \<Rightarrow> bool" where
  "big_enough r = (case r of (x, y, c, h) \<Rightarrow> PANE_MIN_COLS \<le> c \<and> PANE_MIN_ROWS \<le> h)"

fun fits :: "ptree \<Rightarrow> rect \<Rightarrow> bool" where
  "fits (PPane p) r \<longleftrightarrow> 0 < fst (snd (snd r)) \<and> 0 < snd (snd (snd r))"
| "fits (PSplit st a b) r \<longleftrightarrow>
     3 \<le> (if st then snd (snd (snd r)) else fst (snd (snd r))) \<and>
     fits a (fst (halves st r)) \<and> fits b (snd (halves st r))"

lemma tiles_dom: "map fst (tiles P r) = panes P"
  by (induction P arbitrary: r) simp_all

lemma tiles_leaf:
  "rects_ok ns t r \<Longrightarrow> (i, p) \<in> set (leaves t) \<Longrightarrow> (p, rect_of (ns ! i)) \<in> set (tiles (shape t) r)"
proof (induction t arbitrary: r)
  case (Split j st a b)
  from Split.prems(2) consider "(i, p) \<in> set (leaves a)" | "(i, p) \<in> set (leaves b)" by auto
  then show ?case
    using Split.IH(1) [of "fst (halves st r)"] Split.IH(2) [of "snd (halves st r)"] Split.prems(1)
    by cases simp_all
qed simp

lemma layout_pane_rect_tiles:
  assumes ok: "layout_ok lt t" and r: "rects_ok (nodes lt) t r"
  shows "layout_pane_rect lt p = map_of (tiles (shape t) r) p"
proof -
  show ?thesis
  proof (cases "p \<in> set (panes (shape t))")
    case False
    then have "map_of (tiles (shape t) r) p = None" by (simp add: map_of_eq_None_iff flip: tiles_dom [of _ r])
    with find_leaf_none [OF ok False] show ?thesis by (simp add: layout_pane_rect_def Let_def)
  next
    case True
    obtain l where l: "find_leaf (nodes lt) p = int l" "(l, p) \<in> set (leaves t)"
      using find_leaf_at [OF ok True] .
    have "distinct (map fst (tiles (shape t) r))" using ok by (simp add: tiles_dom layout_ok_def)
    from map_of_is_SomeI [OF this tiles_leaf [OF r l(2)]] l(1) show ?thesis
      by (simp add: layout_pane_rect_def Let_def rect_of_def)
  qed
qed

lemma halves_inside:
  assumes "inside r (0, 0, 65535, 65535)"
    and "3 \<le> (if st then snd (snd (snd r)) else fst (snd (snd r)))"
  shows "inside (fst (halves st r)) r" and "inside (snd (halves st r)) r"
    and "apart (fst (halves st r)) (snd (halves st r))"
  using assms by (cases r; cases st; auto simp: inside_def apart_def Let_def cut16_def)+

lemma inside_trans: "inside q r \<Longrightarrow> inside r s \<Longrightarrow> inside q s"
  by (auto simp: inside_def split: prod.splits)

lemma apart_inside: "apart r s \<Longrightarrow> inside r' r \<Longrightarrow> inside s' s \<Longrightarrow> apart r' s'"
  by (auto simp: inside_def apart_def split: prod.splits)

lemma tiles_inside:
  "fits P r \<Longrightarrow> inside r (0, 0, 65535, 65535) \<Longrightarrow> (p, s) \<in> set (tiles P r) \<Longrightarrow> inside s r"
proof (induction P arbitrary: r)
  case (PPane q)
  then show ?case by (auto simp: inside_def split: prod.splits)
next
  case (PSplit st a b)
  note H = halves_inside [OF PSplit.prems(2), of st]
  have k: "3 \<le> (if st then snd (snd (snd r)) else fst (snd (snd r)))" using PSplit.prems(1) by simp
  from PSplit.prems(3) consider "(p, s) \<in> set (tiles a (fst (halves st r)))"
    | "(p, s) \<in> set (tiles b (snd (halves st r)))" by auto
  then show ?case
  proof cases
    case 1
    with PSplit.IH(1) [OF _ inside_trans [OF H(1) [OF k] PSplit.prems(2)]] PSplit.prems(1)
    have "inside s (fst (halves st r))" by simp
    from inside_trans [OF this H(1) [OF k]] show ?thesis .
  next
    case 2
    with PSplit.IH(2) [OF _ inside_trans [OF H(2) [OF k] PSplit.prems(2)]] PSplit.prems(1)
    have "inside s (snd (halves st r))" by simp
    from inside_trans [OF this H(2) [OF k]] show ?thesis .
  qed
qed

lemma tiles_apart:
  "fits P r \<Longrightarrow> inside r (0, 0, 65535, 65535) \<Longrightarrow>
   sorted_wrt (\<lambda>s t. apart (snd s) (snd t)) (tiles P r)"
proof (induction P arbitrary: r)
  case (PSplit st a b)
  note H = halves_inside [OF PSplit.prems(2), of st]
  have k: "3 \<le> (if st then snd (snd (snd r)) else fst (snd (snd r)))"
    and f: "fits a (fst (halves st r))" "fits b (snd (halves st r))" using PSplit.prems(1) by simp_all
  have i: "inside (fst (halves st r)) (0, 0, 65535, 65535)" "inside (snd (halves st r)) (0, 0, 65535, 65535)"
    using inside_trans [OF H(1) [OF k] PSplit.prems(2)] inside_trans [OF H(2) [OF k] PSplit.prems(2)] .
  have "apart u v" if "(p, u) \<in> set (tiles a (fst (halves st r)))"
      "(q, v) \<in> set (tiles b (snd (halves st r)))" for p q u v
    using apart_inside [OF H(3) [OF k] tiles_inside [OF f(1) i(1) that(1)] tiles_inside [OF f(2) i(2) that(2)]] .
  then show ?case
    using PSplit.IH(1) [OF f(1) i(1)] PSplit.IH(2) [OF f(2) i(2)] by (auto simp: sorted_wrt_append)
qed simp

text \<open>A split allowed by the size check leaves every pane at least the minimum size.\<close>

lemma halves_big_enough:
  assumes "big_enough (x, y, c, h)"
    and "if st then 2 * PANE_MIN_ROWS + 1 \<le> h else 2 * PANE_MIN_COLS + 1 \<le> c"
  shows "big_enough (fst (halves st (x, y, c, h)))" and "big_enough (snd (halves st (x, y, c, h)))"
  using assms by (cases st; auto simp: big_enough_def layout_consts Let_def)+

lemma psplit_big_enough:
  assumes "distinct (panes P)" and "\<forall>e\<in>set (tiles P r). big_enough (snd e)"
    and "(p, (x, y, c, h)) \<in> set (tiles P r)"
    and st: "if st then 2 * PANE_MIN_ROWS + 1 \<le> h else 2 * PANE_MIN_COLS + 1 \<le> c"
  shows "\<forall>e\<in>set (tiles (psplit P p q st) r). big_enough (snd e)"
  using assms(1-3)
proof (induction P arbitrary: r)
  case (PPane k)
  then have r: "r = (x, y, c, h)" "k = p" by auto
  with PPane halves_big_enough [OF _ st] show ?case by simp
next
  case (PSplit s a b)
  let ?a = "fst (halves s r)" and ?b = "snd (halves s r)"
  have mem: "(k, u) \<in> set (tiles P w) \<Longrightarrow> k \<in> set (panes P)" for k u P w
    using arg_cong [OF tiles_dom [of P w], of set] by force
  have big: "\<forall>e\<in>set (tiles a ?a). big_enough (snd e)" "\<forall>e\<in>set (tiles b ?b). big_enough (snd e)"
    using PSplit.prems(2) by simp_all
  show ?case
  proof (cases "(p, (x, y, c, h)) \<in> set (tiles a ?a)")
    case True
    then have "p \<notin> set (panes b)" using mem [OF True] PSplit.prems(1) by auto
    with PSplit.IH(1) [OF _ big(1) True] PSplit.prems(1) big(2) show ?thesis by auto
  next
    case False
    then have b: "(p, (x, y, c, h)) \<in> set (tiles b ?b)" using PSplit.prems(3) by simp
    then have "p \<notin> set (panes a)" using mem [OF b] PSplit.prems(1) by auto
    with PSplit.IH(2) [OF _ big(2) b] PSplit.prems(1) big(1) show ?thesis by auto
  qed
qed

lemma tiles_bounded:
  "(p, (x, y, c, h)) \<in> set (tiles P (x', y', c', h')) \<Longrightarrow> c \<le> max 1 c' \<and> h \<le> max 1 h'"
proof (induction P arbitrary: x' y' c' h')
  case (PSplit st a b)
  obtain xa ya ca ha xb yb cb hb where
    h: "halves st (x', y', c', h') = ((xa, ya, ca, ha), (xb, yb, cb, hb))" by (metis prod.exhaust)
  then have "ca \<le> max 1 c' \<and> ha \<le> max 1 h' \<and> cb \<le> max 1 c' \<and> hb \<le> max 1 h'"
    by (cases st) (auto simp: Let_def max_def split: if_splits)
  with PSplit h show ?case by fastforce
qed auto

lemma big_enough_fits: "\<forall>e\<in>set (tiles P r). big_enough (snd e) \<Longrightarrow> fits P r"
proof (induction P arbitrary: r)
  case (PPane p)
  then show ?case by (auto simp: big_enough_def layout_consts split: prod.splits)
next
  case (PSplit st a b)
  obtain x y c h where r: "r = (x, y, c, h)" by (metis prod.exhaust)
  have "tiles (PSplit st a b) r \<noteq> []"
    using arg_cong [OF tiles_dom [of "PSplit st a b" r], of length] panes_nonempty [of "PSplit st a b"] by auto
  then obtain q x' y' c' h' where e: "(q, (x', y', c', h')) \<in> set (tiles (PSplit st a b) r)"
    by (metis list.set_intros(1) neq_Nil_conv prod.exhaust)
  then have "big_enough (x', y', c', h')" using PSplit.prems by force
  with tiles_bounded [OF e [unfolded r]] have "3 \<le> c \<and> 3 \<le> h"
    by (auto simp: big_enough_def layout_consts max_def split: if_splits)
  moreover have "fits a (fst (halves st r))" "fits b (snd (halves st r))"
    using PSplit.prems by (auto intro: PSplit.IH)
  ultimately show ?case by (simp add: r)
qed

section \<open>Main results\<close>

lemma layout_init_ok: "layout_ok (layout_init p) (Pane 0 p)"
proof -
  have "in_use (nodes (layout_init p) ! i) \<longleftrightarrow> i = 0" if "i < LAYOUT_NODES" for i
    using that by (simp add: layout_init_def nth_list_update leaf_node_def node_zero_def)
  then show ?thesis by (auto simp: layout_ok_def layout_init_def leaf_node_def LAYOUT_NODES_def)
qed


definition demo_layout :: layout where
  "demo_layout = layout_reflow (layout_init 0) 80 24"

lemma demo_layout_ok: "layout_ok demo_layout (Pane 0 0)"
  unfolding demo_layout_def by (intro layout_reflow_tree(1) layout_init_ok)

lemma demo_layout_rect: "layout_pane_rect demo_layout 0 = Some (0, 0, 80, 24)"
  using layout_pane_rect_tiles [OF layout_reflow_tree [OF layout_init_ok [of 0]], of 80 24 0]
  by (simp add: demo_layout_def)

lemma demo_roomy: "roomy demo_layout 0 True"
  by (simp add: roomy_def demo_layout_rect layout_consts)

lemma demo_split:
  "\<exists>lt' t'. layout_split demo_layout 80 24 0 1 True = (True, lt') \<and> layout_ok lt' t' \<and>
     shape t' = PSplit True (PPane 0) (PPane 1)"
  using layout_split_refines [OF demo_layout_ok, where q = 1 and vc = 80 and vr = 24 and p = 0 and st = True] demo_roomy
  by (cases "layout_split demo_layout 80 24 0 1 True"; cases "fst (layout_split demo_layout 80 24 0 1 True)") auto


text \<open>
  Claim C32. After a reflow to a view in which every split still has room for two panes and
  their divider, the panes' rectangles lie inside the view and any two of them are separated by
  at least one row or column: no pane draws over another one or over a divider.
\<close>

theorem layout_panes_apart:
  assumes "layout_ok lt t" and "fits (shape t) (0, 0, vc, vr)" and "vc < 65536" and "vr < 65536"
    and "0 < vc" and "0 < vr"
  shows "list_all (\<lambda>p. \<exists>s. layout_pane_rect (layout_reflow lt vc vr) p = Some s \<and> inside s (0, 0, vc, vr))
      (panes (shape t)) \<and>
    sorted_wrt (\<lambda>p q. apart (the (layout_pane_rect (layout_reflow lt vc vr) p))
                          (the (layout_pane_rect (layout_reflow lt vc vr) q))) (panes (shape t))"
proof -
  let ?v = "(0, 0, vc, vr)" and ?P = "shape t"
  note R = layout_reflow_tree [OF assms(1), of vc vr]
  have rect: "layout_pane_rect (layout_reflow lt vc vr) p = map_of (tiles ?P ?v) p" for p
    using layout_pane_rect_tiles [OF R] assms(5,6) by (simp add: max_def)
  have v: "inside ?v (0, 0, 65535, 65535)" using assms by (simp add: inside_def)
  have d: "distinct (map fst (tiles ?P ?v))" using assms(1) by (simp add: tiles_dom layout_ok_def)
  have at: "map_of (tiles ?P ?v) (fst e) = Some (snd e)" if "e \<in> set (tiles ?P ?v)" for e
    using map_of_is_SomeI [OF d, of "fst e" "snd e"] that by simp
  have "list_all (\<lambda>e. \<exists>s. map_of (tiles ?P ?v) (fst e) = Some s \<and> inside s ?v) (tiles ?P ?v)"
    using at tiles_inside [OF assms(2) v] by (force simp: list_all_iff)
  moreover have "sorted_wrt (\<lambda>e f. apart (the (map_of (tiles ?P ?v) (fst e))) (the (map_of (tiles ?P ?v) (fst f))))
      (tiles ?P ?v)"
    by (rule sorted_wrt_mono_rel [OF _ tiles_apart [OF assms(2) v]]) (simp add: at)
  ultimately show ?thesis
    unfolding rect by (simp add: list_all_length sorted_wrt_map flip: tiles_dom [of _ ?v]) 
qed

theorem layout_panes_apart_witness:
  "\<exists>lt' t'. layout_split demo_layout 80 24 0 1 True = (True, lt') \<and>
     shape t' = PSplit True (PPane 0) (PPane 1) \<and>
     apart (the (layout_pane_rect (layout_reflow lt' 80 24) 0))
           (the (layout_pane_rect (layout_reflow lt' 80 24) 1))"
proof -
  obtain lt' t' where ok: "layout_split demo_layout 80 24 0 1 True = (True, lt')"
    and t: "layout_ok lt' t'" "shape t' = PSplit True (PPane 0) (PPane 1)" using demo_split by blast
  have "fits (shape t') (0, 0, 80, 24)" by (simp add: t(2))
  from layout_panes_apart [OF t(1) this] t(2) ok show ?thesis by auto
qed

text \<open>
  Splitting never makes a pane smaller than the minimum: if the rectangles in the
  array are those of the current view and every pane is at least 20 by 3, then after an accepted
  split at that view every pane, old and new, still is.
\<close>

theorem layout_split_minimum:
  assumes "layout_ok lt t" and "rects_ok (nodes lt) t (0, 0, max 1 vc, max 1 vr)"
    and "list_all (\<lambda>p. big_enough (the (layout_pane_rect lt p))) (panes (shape t))"
    and "q \<notin> set (panes (shape t))" and "layout_split lt vc vr p q st = (True, lt')"
  shows "list_all (\<lambda>p. big_enough (the (layout_pane_rect lt' p))) (panes (psplit (shape t) p q st))"
proof -
  let ?v = "(0, 0, max 1 vc, max 1 vr)" and ?P = "shape t"
  have all: "list_all (\<lambda>p. big_enough (the (layout_pane_rect l p))) (panes (shape u)) \<longleftrightarrow>
      (\<forall>e\<in>set (tiles (shape u) ?v). big_enough (snd e))"
    if "layout_ok l u" "rects_ok (nodes l) u ?v" for l u
  proof -
    have d: "distinct (map fst (tiles (shape u) ?v))" using that(1) by (simp add: tiles_dom layout_ok_def)
    have "the (layout_pane_rect l (fst e)) = snd e" if "e \<in> set (tiles (shape u) ?v)" for e
      using map_of_is_SomeI [OF d, of "fst e" "snd e"] that
        layout_pane_rect_tiles [OF \<open>layout_ok l u\<close> \<open>rects_ok (nodes l) u ?v\<close>] by simp
    then show ?thesis by (auto simp: list_all_iff simp flip: tiles_dom [of _ ?v])
  qed
  from layout_split_refines [OF assms(1,4), where vc = vc and vr = vr and p = p and st = st] assms(5)
  obtain t' where t': "layout_ok lt' t'" "shape t' = psplit ?P p q st" "rects_ok (nodes lt') t' ?v"
    and room: "roomy lt p st" by auto
  obtain x y c h where r: "layout_pane_rect lt p = Some (x, y, c, h)"
    and st: "if st then 2 * PANE_MIN_ROWS + 1 \<le> h else 2 * PANE_MIN_COLS + 1 \<le> c"
    using room by (auto simp: roomy_def split: option.splits prod.splits)
  have m: "(p, (x, y, c, h)) \<in> set (tiles ?P ?v)"
    using r layout_pane_rect_tiles [OF assms(1,2)] map_of_SomeD by metis
  have "\<forall>e\<in>set (tiles (psplit ?P p q st) ?v). big_enough (snd e)"
    using psplit_big_enough [OF _ _ m st] assms(1,3) all [OF assms(1,2)] by (simp add: layout_ok_def)
  then show ?thesis using all [OF t'(1,3)] t'(2) by simp
qed

theorem layout_split_minimum_witness:
  "\<exists>lt'. layout_split demo_layout 80 24 0 1 True = (True, lt') \<and>
     big_enough (the (layout_pane_rect lt' 1))"
proof -
  obtain lt' where ok: "layout_split demo_layout 80 24 0 1 True = (True, lt')" using demo_split by blast
  have r: "rects_ok (nodes demo_layout) (Pane 0 0) (0, 0, max 1 80, max 1 24)"
    unfolding demo_layout_def by (intro layout_reflow_tree(2) layout_init_ok)
  have "list_all (\<lambda>p. big_enough (the (layout_pane_rect demo_layout p))) (panes (shape (Pane 0 0)))"
    by (simp add: demo_layout_rect big_enough_def layout_consts)
  from layout_split_minimum [OF demo_layout_ok r this _ ok] ok show ?thesis by simp
qed

end
