(* ===== verification/Ring.thy ===== *)
theory Ring
  imports Prelude
begin

text \<open>
  The growable byte ring of \<open>src/common/ring.c\<close>, the queue behind every client
  connection. The record keeps the C fields; \<open>ring_contents\<close> reads the queue it stands
  for, and the interface locale \<open>byte_queue\<close> states what a user of the ring relies on.
  Sizes are \<open>nat\<close>: the code adds byte counts of live buffers, which stay far
  below \<open>SIZE_MAX\<close>. Memory fresh from \<open>xmalloc\<close> is modelled as zero bytes; no theorem
  reads a byte that was not written.
\<close>

section \<open>Model\<close>

record ring =
  rbuf :: "byte list"
  rcap :: nat
  rmax_cap :: nat
  rhead :: nat
  rlen :: nat

function next_pow2_loop :: "nat \<Rightarrow> nat \<Rightarrow> nat" where
  "next_pow2_loop c n = (if 0 < c \<and> c < n then next_pow2_loop (c * 2) n else c)"
  by pat_completeness auto
termination
  by (relation "measure (\<lambda>(c, n). n - c)") auto

declare next_pow2_loop.simps [simp del]

definition next_pow2 :: "nat \<Rightarrow> nat" where
  "next_pow2 n = next_pow2_loop 16 n"

definition ring_init :: "nat \<Rightarrow> nat \<Rightarrow> ring" where
  "ring_init initial_cap max_cap =
    (let c = next_pow2 initial_cap;
         c = (if max_cap \<noteq> 0 \<and> c > max_cap then max_cap else c)
     in \<lparr>rbuf = replicate c 0, rcap = c, rmax_cap = max_cap, rhead = 0, rlen = 0\<rparr>)"

definition ring_grow :: "ring \<Rightarrow> nat \<Rightarrow> ring" where
  "ring_grow r need =
    (let newcap = next_pow2 need;
         nb = replicate newcap 0;
         first = rcap r - rhead r;
         first = (if first > rlen r then rlen r else first);
         nb = overwrite nb 0 (take first (drop (rhead r) (rbuf r)));
         nb = overwrite nb first (take (rlen r - first) (rbuf r))
     in r\<lparr>rbuf := nb, rcap := newcap, rhead := 0\<rparr>)"

definition ring_write :: "ring \<Rightarrow> byte list \<Rightarrow> bool \<times> ring" where
  "ring_write r data =
    (let n = length data in
     if n = 0 then (True, r)
     else
       let need = rlen r + n in
       if rmax_cap r \<noteq> 0 \<and> need > rmax_cap r then (False, r)
       else
         let r = (if need > rcap r then ring_grow r need else r);
             tail = (rhead r + rlen r) AND (rcap r - 1);
             first = rcap r - tail;
             first = (if first > n then n else first);
             b = overwrite (rbuf r) tail (take first data);
             b = overwrite b 0 (drop first data)
         in (True, r\<lparr>rbuf := b, rlen := need\<rparr>))"

definition ring_peek :: "ring \<Rightarrow> nat \<Rightarrow> byte list" where
  "ring_peek r n =
    (let n = (if n > rlen r then rlen r else n);
         first = rcap r - rhead r;
         first = (if first > n then n else first)
     in take first (drop (rhead r) (rbuf r)) @ take (n - first) (rbuf r))"

definition ring_consume :: "ring \<Rightarrow> nat \<Rightarrow> ring" where
  "ring_consume r n =
    (let n = (if n > rlen r then rlen r else n);
         h = (rhead r + n) AND (rcap r - 1);
         l = rlen r - n
     in r\<lparr>rhead := (if l = 0 then 0 else h), rlen := l\<rparr>)"

definition ring_read :: "ring \<Rightarrow> nat \<Rightarrow> byte list \<times> ring" where
  "ring_read r n = (let out = ring_peek r n in (out, ring_consume r (length out)))"

section \<open>The queue a ring stands for\<close>

definition ring_wf :: "ring \<Rightarrow> bool" where
  "ring_wf r \<longleftrightarrow> is_pow2 (rcap r) \<and> length (rbuf r) = rcap r \<and> rhead r < rcap r \<and> rlen r \<le> rcap r \<and>
     (rmax_cap r \<noteq> 0 \<longrightarrow> rlen r \<le> rmax_cap r)"

definition ring_contents :: "ring \<Rightarrow> byte list" where
  "ring_contents r = map (\<lambda>i. rbuf r ! ((rhead r + i) mod rcap r)) [0..<rlen r]"

lemma length_ring_contents [simp]: "length (ring_contents r) = rlen r"
  by (simp add: ring_contents_def)

lemma nth_ring_contents [simp]:
  "i < rlen r \<Longrightarrow> ring_contents r ! i = rbuf r ! ((rhead r + i) mod rcap r)"
  by (simp add: ring_contents_def)

lemma mod_wrap: "(h::nat) < c \<Longrightarrow> i \<le> c \<Longrightarrow> (h + i) mod c = (if h + i < c then h + i else h + i - c)"
  by (simp add: mod_if)

lemma next_pow2_loop_ge: "0 < c \<Longrightarrow> n \<le> next_pow2_loop c n"
proof (induction c n rule: next_pow2_loop.induct)
  case (1 c n)
  then show ?case by (cases "c < n") (simp_all add: next_pow2_loop.simps [of c n])
qed

lemma next_pow2_loop_pow2: "is_pow2 c \<Longrightarrow> is_pow2 (next_pow2_loop c n)"
proof (induction c n rule: next_pow2_loop.induct)
  case (1 c n)
  then show ?case
    by (cases "0 < c \<and> c < n") (auto simp: next_pow2_loop.simps [of c n] is_pow2_double)
qed

lemma is_pow2_16: "is_pow2 16"
  by (auto simp: is_pow2_iff intro: exI [of _ 4])

lemma next_pow2_ge: "n \<le> next_pow2 n"
  by (simp add: next_pow2_def next_pow2_loop_ge)

lemma next_pow2_pow2: "is_pow2 (next_pow2 n)"
  by (simp add: next_pow2_def next_pow2_loop_pow2 is_pow2_16)

lemma ring_peek_eq:
  assumes "ring_wf r"
  shows "ring_peek r n = take n (ring_contents r)"
proof (rule nth_equalityI)
  have wf: "length (rbuf r) = rcap r" "rhead r < rcap r" "rlen r \<le> rcap r"
    using assms by (auto simp: ring_wf_def)
  show len: "length (ring_peek r n) = length (take n (ring_contents r))"
    using wf by (auto simp: ring_peek_def Let_def)
  fix i assume "i < length (ring_peek r n)"
  then have i: "i < n" "i < rlen r" using len by auto
  then have m: "(rhead r + i) mod rcap r =
      (if rhead r + i < rcap r then rhead r + i else rhead r + i - rcap r)"
    using wf by (intro mod_wrap) auto
  show "ring_peek r n ! i = take n (ring_contents r) ! i"
    using wf i m by (auto simp: ring_peek_def Let_def nth_append add.commute)
qed

lemma ring_consume_wf: "ring_wf r \<Longrightarrow> ring_wf (ring_consume r n)"
  by (auto simp: ring_wf_def ring_consume_def Let_def and_pow2 is_pow2_pos)

lemma ring_consume_contents:
  assumes "ring_wf r"
  shows "ring_contents (ring_consume r n) = drop n (ring_contents r)"
proof (rule nth_equalityI)
  show len: "length (ring_contents (ring_consume r n)) = length (drop n (ring_contents r))"
    by (simp add: ring_consume_def Let_def)
  fix i assume "i < length (ring_contents (ring_consume r n))"
  then have i: "n + i < rlen r" by (auto simp: ring_consume_def Let_def split: if_splits)
  then show "ring_contents (ring_consume r n) ! i = drop n (ring_contents r) ! i"
    using assms by (auto simp: ring_consume_def Let_def ring_wf_def and_pow2
        mod_add_left_eq add.assoc)
qed

lemma ring_grow_props:
  assumes "ring_wf r" and "rlen r \<le> need"
  shows "ring_wf (ring_grow r need)" and "ring_contents (ring_grow r need) = ring_contents r"
    and "need \<le> rcap (ring_grow r need)" and "rlen (ring_grow r need) = rlen r"
    and "rmax_cap (ring_grow r need) = rmax_cap r"
proof -
  have wf: "length (rbuf r) = rcap r" "rhead r < rcap r" "rlen r \<le> rcap r"
    using assms by (auto simp: ring_wf_def)
  note big = next_pow2_ge [of need]
  show "need \<le> rcap (ring_grow r need)" "rlen (ring_grow r need) = rlen r"
    "rmax_cap (ring_grow r need) = rmax_cap r"
    using big by (simp_all add: ring_grow_def Let_def)
  show "ring_wf (ring_grow r need)"
    using assms wf big next_pow2_pow2 [of need] is_pow2_pos [OF next_pow2_pow2, of need]
    by (auto simp: ring_wf_def ring_grow_def Let_def)
  show "ring_contents (ring_grow r need) = ring_contents r"
  proof (rule nth_equalityI)
    show "length (ring_contents (ring_grow r need)) = length (ring_contents r)"
      by (simp add: ring_grow_def Let_def)
    fix i assume "i < length (ring_contents (ring_grow r need))"
    then have i: "i < rlen r" by (simp add: ring_grow_def Let_def)
    then have m: "(rhead r + i) mod rcap r =
        (if rhead r + i < rcap r then rhead r + i else rhead r + i - rcap r)"
      using wf by (intro mod_wrap) auto
    show "ring_contents (ring_grow r need) ! i = ring_contents r ! i"
      using wf i m assms big
      by (auto simp: ring_grow_def Let_def nth_overwrite add.commute)
  qed
qed

lemma overwrite_wrap:
  assumes "length b = c" and "h < c" and "l + length ds \<le> c" and "i < l + length ds"
    and "t = (h + l) mod c" and "f = min (c - t) (length ds)"
  shows "overwrite (overwrite b t (take f ds)) 0 (drop f ds) ! ((h + i) mod c) =
    (if i < l then b ! ((h + i) mod c) else ds ! (i - l))"
proof -
  have hl: "t = (if h + l < c then h + l else h + l - c)"
    using assms by (simp add: mod_wrap)
  have hi: "(h + i) mod c = (if h + i < c then h + i else h + i - c)"
    using assms by (intro mod_wrap) auto
  define x where "x = (h + i) mod c"
  have x: "x < c" using assms by (simp add: x_def)
  have t: "t < c" using assms by simp
  have f: "f \<le> length ds" "t + f \<le> c" using assms(6) t by auto
  have "overwrite b t (take f ds) ! x = (if t \<le> x \<and> x < t + f then ds ! (x - t) else b ! x)"
    using assms(1) x f by (subst nth_overwrite) auto
  then have "overwrite (overwrite b t (take f ds)) 0 (drop f ds) ! x =
      (if x < length ds - f then ds ! (f + x) else if t \<le> x \<and> x < t + f then ds ! (x - t) else b ! x)"
    using assms(1,3) x f by (subst nth_overwrite) auto
  moreover have "x < length ds - f \<longleftrightarrow> l \<le> i \<and> f \<le> i - l" and "l \<le> i \<Longrightarrow> f \<le> i - l \<Longrightarrow> f + x = i - l"
    using assms(2-4,6) hl hi by (auto simp: x_def min_def split: if_splits)
  moreover have "\<not> (l \<le> i \<and> f \<le> i - l) \<Longrightarrow> t \<le> x \<and> x < t + f \<longleftrightarrow> l \<le> i"
    and "\<not> (l \<le> i \<and> f \<le> i - l) \<Longrightarrow> l \<le> i \<Longrightarrow> x - t = i - l"
    using assms(2-4,6) hl hi by (auto simp: x_def min_def split: if_splits)
  ultimately show ?thesis by (auto simp: x_def [symmetric])
qed

lemma ring_write_wf_contents:
  assumes wf: "ring_wf r" and w: "ring_write r data = (ok, r')"
  shows "ring_wf r'" and "ok \<Longrightarrow> ring_contents r' = ring_contents r @ data"
    and "\<not> ok \<Longrightarrow> r' = r" and "rmax_cap r' = rmax_cap r"
    and "ok \<longleftrightarrow> data = [] \<or> rmax_cap r = 0 \<or> rlen r + length data \<le> rmax_cap r"
proof -
  define g where "g = (if rlen r + length data > rcap r then ring_grow r (rlen r + length data) else r)"
  have g: "ring_wf g" "ring_contents g = ring_contents r" "rlen r + length data \<le> rcap g"
    "rlen g = rlen r" "rmax_cap g = rmax_cap r"
    using wf ring_grow_props [OF wf, of "rlen r + length data"] by (auto simp: g_def)
  have gw: "length (rbuf g) = rcap g" "rhead g < rcap g" "is_pow2 (rcap g)" "0 < rcap g"
    using g(1) is_pow2_pos by (auto simp: ring_wf_def)
  define t where "t = (rhead g + rlen r) mod rcap g"
  define f where "f = min (rcap g - t) (length data)"
  define b where "b = overwrite (overwrite (rbuf g) t (take f data)) 0 (drop f data)"
  have t: "t < rcap g" using gw by (simp add: t_def)
  have lb: "length b = rcap g" using gw g t by (simp add: b_def f_def min_def)
  have eq: "ring_write r data =
      (if data = [] then (True, r)
       else if rmax_cap r \<noteq> 0 \<and> rlen r + length data > rmax_cap r then (False, r)
       else (True, g\<lparr>rbuf := b, rlen := rlen r + length data\<rparr>))"
    using g gw by (simp add: ring_write_def Let_def and_pow2 g_def [symmetric]
        t_def [symmetric] b_def f_def min_def)
  show "ok \<longleftrightarrow> data = [] \<or> rmax_cap r = 0 \<or> rlen r + length data \<le> rmax_cap r"
    using w eq by (auto split: if_splits)
  show "\<not> ok \<Longrightarrow> r' = r" and "rmax_cap r' = rmax_cap r"
    using w eq g by (auto split: if_splits)
  show "ring_wf r'"
    using w eq wf g gw lb by (auto simp: ring_wf_def split: if_splits)
  show "ring_contents r' = ring_contents r @ data" if ok
  proof (cases "data = []")
    case True
    then show ?thesis using w eq by simp
  next
    case False
    then have r': "r' = g\<lparr>rbuf := b, rlen := rlen r + length data\<rparr>"
      using w eq \<open>ok\<close> by (auto split: if_splits)
    have "b ! ((rhead g + i) mod rcap g) = (ring_contents g @ data) ! i"
      if "i < rlen r + length data" for i
      using that g(4) overwrite_wrap [OF gw(1,2) g(3) that t_def f_def]
      by (simp add: b_def nth_append del: nth_ring_contents add: nth_ring_contents [of _ g])
    then show ?thesis
      unfolding r' using g(2,4) by (intro nth_equalityI) (auto simp: nth_append)
  qed
qed

lemma ring_init_props:
  assumes "max_cap = 0 \<or> next_pow2 initial_cap \<le> max_cap \<or> is_pow2 max_cap"
  shows "ring_wf (ring_init initial_cap max_cap)"
    and "ring_contents (ring_init initial_cap max_cap) = []"
  using assms next_pow2_pow2 [of initial_cap] is_pow2_pos [OF next_pow2_pow2, of initial_cap]
  by (auto simp: ring_wf_def ring_init_def Let_def ring_contents_def is_pow2_pos)

section \<open>The interface of a byte queue\<close>

text \<open>
  What the protocol layer relies on: a write appends or, when a ceiling would be passed,
  changes nothing; a peek shows a prefix; a consume drops it.
\<close>

locale byte_queue =
  fixes put :: "'q \<Rightarrow> byte list \<Rightarrow> bool \<times> 'q"
    and peek :: "'q \<Rightarrow> nat \<Rightarrow> byte list"
    and consume :: "'q \<Rightarrow> nat \<Rightarrow> 'q"
    and content :: "'q \<Rightarrow> byte list"
    and ceiling :: "'q \<Rightarrow> nat"
    and invar :: "'q \<Rightarrow> bool"
  assumes write_ok: "invar q \<Longrightarrow> fst (put q xs) \<longleftrightarrow>
      xs = [] \<or> ceiling q = 0 \<or> length (content q) + length xs \<le> ceiling q"
    and write_content: "invar q \<Longrightarrow> fst (put q xs) \<Longrightarrow> content (snd (put q xs)) = content q @ xs"
    and write_refused: "invar q \<Longrightarrow> \<not> fst (put q xs) \<Longrightarrow> snd (put q xs) = q"
    and write_ceiling: "invar q \<Longrightarrow> ceiling (snd (put q xs)) = ceiling q"
    and write_invar: "invar q \<Longrightarrow> invar (snd (put q xs))"
    and peek_content: "invar q \<Longrightarrow> peek q n = take n (content q)"
    and consume_content: "invar q \<Longrightarrow> content (consume q n) = drop n (content q)"
    and consume_invar: "invar q \<Longrightarrow> invar (consume q n)"
begin

text \<open>A queue with room for a list of chunks takes all of them, in order.\<close>

lemma write_all:
  assumes "invar q"
    and "ceiling q = 0 \<or> length (content q) + length (concat xss) \<le> ceiling q"
  shows "invar (foldl (\<lambda>q xs. snd (put q xs)) q xss) \<and>
    content (foldl (\<lambda>q xs. snd (put q xs)) q xss) = content q @ concat xss"
  using assms
proof (induction xss arbitrary: q)
  case Nil
  then show ?case by simp
next
  case (Cons xs xss)
  have ok: "fst (put q xs)" using Cons.prems by (auto simp: write_ok)
  then have c: "content (snd (put q xs)) = content q @ xs"
    using Cons.prems by (intro write_content) auto
  have "invar (foldl (\<lambda>q xs. snd (put q xs)) (snd (put q xs)) xss) \<and>
    content (foldl (\<lambda>q xs. snd (put q xs)) (snd (put q xs)) xss) = (content q @ xs) @ concat xss"
    unfolding c [symmetric] using Cons.prems c
    by (intro Cons.IH) (auto simp: write_invar write_ceiling)
  then show ?case by simp
qed

text \<open>Reading back exactly what was written last, from an empty queue.\<close>

lemma write_then_peek:
  "invar q \<Longrightarrow> content q = [] \<Longrightarrow> fst (put q xs) \<Longrightarrow> peek (snd (put q xs)) (length xs) = xs"
  by (simp add: peek_content write_invar write_content)

lemma consume_consume: "invar q \<Longrightarrow> content (consume (consume q m) n) = drop (m + n) (content q)"
  by (simp add: consume_content consume_invar drop_drop add.commute)

end

interpretation rq: byte_queue ring_write ring_peek ring_consume ring_contents rmax_cap ring_wf
proof
  fix q :: ring and xs n
  assume wf: "ring_wf q"
  obtain ok q' where w: "ring_write q xs = (ok, q')" by (cases "ring_write q xs")
  note p = ring_write_wf_contents [OF wf w]
  show "fst (ring_write q xs) \<longleftrightarrow> xs = [] \<or> rmax_cap q = 0 \<or> length (ring_contents q) + length xs \<le> rmax_cap q"
    using w p(5) by simp
  show "fst (ring_write q xs) \<Longrightarrow> ring_contents (snd (ring_write q xs)) = ring_contents q @ xs"
    using w p(2) by simp
  show "\<not> fst (ring_write q xs) \<Longrightarrow> snd (ring_write q xs) = q"
    using w p(3) by simp
  show "rmax_cap (snd (ring_write q xs)) = rmax_cap q" and "ring_wf (snd (ring_write q xs))"
    using w p(1,4) by simp_all
  show "ring_peek q n = take n (ring_contents q)" using wf by (rule ring_peek_eq)
  show "ring_contents (ring_consume q n) = drop n (ring_contents q)"
    using wf by (rule ring_consume_contents)
  show "ring_wf (ring_consume q n)" using wf by (rule ring_consume_wf)
qed

section \<open>The ring refines a bounded queue\<close>

datatype queue_op = Put "byte list" | Get nat

fun ring_obs :: "ring \<Rightarrow> queue_op list \<Rightarrow> (bool \<times> byte list) list" where
  "ring_obs r [] = []"
| "ring_obs r (Put xs # ops) = (let (ok, r') = ring_write r xs in (ok, []) # ring_obs r' ops)"
| "ring_obs r (Get n # ops) = (let (bs, r') = ring_read r n in (True, bs) # ring_obs r' ops)"

fun queue_obs :: "nat \<Rightarrow> byte list \<Rightarrow> queue_op list \<Rightarrow> (bool \<times> byte list) list" where
  "queue_obs mx q [] = []"
| "queue_obs mx q (Put xs # ops) =
    (if xs = [] \<or> mx = 0 \<or> length q + length xs \<le> mx then (True, []) # queue_obs mx (q @ xs) ops
     else (False, []) # queue_obs mx q ops)"
| "queue_obs mx q (Get n # ops) = (True, take n q) # queue_obs mx (drop n q) ops"

lemma ring_obs_queue: "ring_wf r \<Longrightarrow> ring_obs r ops = queue_obs (rmax_cap r) (ring_contents r) ops"
proof (induction ops arbitrary: r)
  case (Cons op ops)
  show ?case
  proof (cases op)
    case (Put xs)
    obtain ok r' where w: "ring_write r xs = (ok, r')" by (cases "ring_write r xs")
    note p = ring_write_wf_contents [OF Cons.prems w]
    show ?thesis using Cons.IH [OF p(1)] p(2-5) w Put by (cases ok) (auto simp: Let_def)
  next
    case (Get n)
    have l: "length (take n (ring_contents r)) = min n (rlen r)" by (simp add: min.commute)
    have "drop (length (take n (ring_contents r))) (ring_contents r) = drop n (ring_contents r)"
      by (simp add: min_def)
    moreover have "rmax_cap (ring_consume r k) = rmax_cap r" for k by (simp add: ring_consume_def Let_def)
    ultimately show ?thesis
      using Cons.IH [OF rq.consume_invar [OF Cons.prems]] Get rq.peek_content [OF Cons.prems, of n]
      by (simp add: ring_read_def Let_def rq.consume_content [OF Cons.prems])
  qed
qed simp



text \<open>
  The condition on the ceiling is needed: the initial capacity is clamped to the
  ceiling itself, and with a ceiling that is not a power of two the index mask no longer
  wraps at the capacity. A ring with ceiling 20 returns bytes that were never next in line.
\<close>

theorem ring_odd_ceiling_corrupts:
  "ring_obs (ring_init 64 20) [Put [0, 1, 2, 3, 4, 5, 6, 7, 8, 9], Get 6, Get 1] =
     [(True, []), (True, [0, 1, 2, 3, 4, 5]), (True, [2])] \<and>
   queue_obs 20 [] [Put [0, 1, 2, 3, 4, 5, 6, 7, 8, 9], Get 6, Get 1] =
     [(True, []), (True, [0, 1, 2, 3, 4, 5]), (True, [6])]"
  by (intro conjI; code_simp)

end
