(* ===== verification/Proto.thy ===== *)
theory Proto
  imports Ring
begin

text \<open>
  The wire protocol of \<open>src/common/proto.c\<close>: little-endian scalars, framing over a ring,
  and the decoding of an error frame. \<open>parse_frames\<close> is the abstract reader of a byte
  stream the ring-based reader is compared with.
\<close>

section \<open>Little-endian scalars\<close>

definition put_u16 :: "u16 \<Rightarrow> byte list" where
  "put_u16 v = [ucast (v AND 0xff), ucast (drop_bit 8 v)]"

definition put_u32 :: "u32 \<Rightarrow> byte list" where
  "put_u32 v =
    [ucast (v AND 0xff), ucast (drop_bit 8 v AND 0xff), ucast (drop_bit 16 v AND 0xff),
     ucast (drop_bit 24 v)]"

definition put_u64 :: "u64 \<Rightarrow> byte list" where
  "put_u64 v = put_u32 (ucast (v AND 0xffffffff)) @ put_u32 (ucast (drop_bit 32 v))"

definition get_u16 :: "byte list \<Rightarrow> u16" where
  "get_u16 p = ucast (p ! 0) OR push_bit 8 (ucast (p ! 1))"

definition get_u32 :: "byte list \<Rightarrow> u32" where
  "get_u32 p = ucast (p ! 0) OR push_bit 8 (ucast (p ! 1)) OR push_bit 16 (ucast (p ! 2)) OR
     push_bit 24 (ucast (p ! 3))"

definition get_u64 :: "byte list \<Rightarrow> u64" where
  "get_u64 p = ucast (get_u32 p) OR push_bit 32 (ucast (get_u32 (drop 4 p)))"

lemma length_put [simp]:
  "length (put_u16 a) = 2" "length (put_u32 b) = 4" "length (put_u64 c) = 8"
  by (simp_all add: put_u16_def put_u32_def put_u64_def)

lemma and_ff: "(v :: 'a::len word) AND 0xff = take_bit 8 v"
  by (simp add: take_bit_eq_mask mask_eq_exp_minus_1)

lemma and_ffffffff: "(v :: 'a::len word) AND 0xffffffff = take_bit 32 v"
  by (simp add: take_bit_eq_mask mask_eq_exp_minus_1)

lemma get_put_u16 [simp]: "get_u16 (put_u16 v @ xs) = v"
  by (rule bit_word_eqI) (auto simp: get_u16_def put_u16_def bit_simps and_ff)

lemma get_put_u32 [simp]: "get_u32 (put_u32 v @ xs) = v"
proof (rule bit_word_eqI)
  fix n assume n: "n < LENGTH(32)"
  consider "n < 8" | "8 \<le> n" "n < 16" | "16 \<le> n" "n < 24" | "24 \<le> n" by linarith
  then show "bit (get_u32 (put_u32 v @ xs)) n = bit v n"
    using n by cases (auto simp: get_u32_def put_u32_def bit_simps and_ff)
qed

lemma get_put_u64 [simp]: "get_u64 (put_u64 v @ xs) = v"
proof (rule bit_word_eqI)
  fix n assume "n < LENGTH(64)"
  then show "bit (get_u64 (put_u64 v @ xs)) n = bit v n"
    by (cases "n < 32") (auto simp: get_u64_def put_u64_def bit_simps and_ffffffff)
qed

lemmas get_put_nil [simp] =
  get_put_u16 [where xs = "[]", simplified] get_put_u32 [where xs = "[]", simplified]
  get_put_u64 [where xs = "[]", simplified]

lemma get_u32_take [simp]: "4 \<le> n \<Longrightarrow> get_u32 (take n p) = get_u32 p"
  by (simp add: get_u32_def)

lemma get_u32_append: "4 \<le> length p \<Longrightarrow> get_u32 (p @ q) = get_u32 p"
proof -
  assume "4 \<le> length p"
  then have "(p @ q) ! i = p ! i" if "i < 4" for i using that by (simp add: nth_append)
  from this [of 0] this [of 1] this [of 2] this [of 3] show ?thesis
    by (simp add: get_u32_def)
qed

section \<open>Frames\<close>

abbreviation PROTO_HDR_SIZE :: nat where "PROTO_HDR_SIZE \<equiv> 5"
abbreviation PROTO_MAX_PAYLOAD :: nat where "PROTO_MAX_PAYLOAD \<equiv> 1048576"

type_synonym frame_t = "byte \<times> byte list"

definition frame_hdr :: "byte \<Rightarrow> nat \<Rightarrow> byte list" where
  "frame_hdr type n = put_u32 (of_nat n) @ [type]"

definition proto_write_frame :: "ring \<Rightarrow> byte \<Rightarrow> byte list \<Rightarrow> bool \<times> ring" where
  "proto_write_frame out type payload =
    (if length payload > PROTO_MAX_PAYLOAD then (False, out)
     else if rmax_cap out \<noteq> 0 \<and> rlen out + PROTO_HDR_SIZE + length payload > rmax_cap out
     then (False, out)
     else (True, snd (ring_write (snd (ring_write out (frame_hdr type (length payload)))) payload)))"

datatype read_result = NeedMore | Violation | Frame byte "byte list"

definition proto_read_frame :: "ring \<Rightarrow> read_result \<times> ring" where
  "proto_read_frame r =
    (let hdr = ring_peek r PROTO_HDR_SIZE in
     if length hdr < PROTO_HDR_SIZE then (NeedMore, r)
     else
       let plen = unat (get_u32 hdr) in
       if plen > PROTO_MAX_PAYLOAD then (Violation, r)
       else if rlen r < PROTO_HDR_SIZE + plen then (NeedMore, r)
       else
         let r = ring_consume r PROTO_HDR_SIZE; (payload, r) = ring_read r plen
         in (Frame (hdr ! 4) payload, r))"

text \<open>
  \<open>proto_err_text\<close> decodes a \<open>MSG_ERR\<close> payload: the code when there is one, and the message
  slice as an offset and a length into the payload, present only when the frame really
  carries it.
\<close>

definition proto_err_text :: "byte list \<Rightarrow> u16 \<times> (nat \<times> u16) option" where
  "proto_err_text payload =
    (let code = (if length payload \<ge> 2 then get_u16 payload else 0) in
     if length payload < 4 then (code, None)
     else
       let declared = get_u16 (drop 2 payload) in
       if declared = 0 \<or> 4 + unat declared > length payload then (code, None)
       else (code, Some (4, declared)))"

section \<open>The abstract reader of a byte stream\<close>

definition encode_frame :: "frame_t \<Rightarrow> byte list" where
  "encode_frame f = frame_hdr (fst f) (length (snd f)) @ snd f"

definition next_frame :: "byte list \<Rightarrow> read_result \<times> byte list" where
  "next_frame bs =
    (if length bs < PROTO_HDR_SIZE then (NeedMore, bs)
     else if unat (get_u32 bs) > PROTO_MAX_PAYLOAD then (Violation, bs)
     else if length bs < PROTO_HDR_SIZE + unat (get_u32 bs) then (NeedMore, bs)
     else (Frame (bs ! 4) (take (unat (get_u32 bs)) (drop PROTO_HDR_SIZE bs)),
           drop (PROTO_HDR_SIZE + unat (get_u32 bs)) bs))"

lemma next_frame_shorter: "next_frame bs = (Frame t p, rest) \<Longrightarrow> length rest < length bs"
  by (auto simp: next_frame_def split: if_splits)

function parse_frames :: "byte list \<Rightarrow> frame_t list \<times> bool \<times> byte list" where
  "parse_frames bs =
    (case next_frame bs of
       (Frame t p, rest) \<Rightarrow> (let (fs, bad, r) = parse_frames rest in ((t, p) # fs, bad, r))
     | (Violation, rest) \<Rightarrow> ([], True, rest)
     | (NeedMore, rest) \<Rightarrow> ([], False, rest))"
  by pat_completeness auto
termination
  by (relation "measure length") (auto dest: sym [THEN next_frame_shorter])

declare parse_frames.simps [simp del]

text \<open>The daemon's read loop (\<open>client_io\<close>): frames are taken off the ring until one is
  incomplete or the peer breaks the protocol.\<close>

function drain_frames :: "ring \<Rightarrow> frame_t list \<times> bool \<times> ring" where
  "drain_frames r =
    (case proto_read_frame r of
       (Frame t p, r') \<Rightarrow>
         (if rlen r' < rlen r then (let (fs, bad, s) = drain_frames r' in ((t, p) # fs, bad, s))
          else ([], False, r'))
     | (Violation, r') \<Rightarrow> ([], True, r')
     | (NeedMore, r') \<Rightarrow> ([], False, r'))"
  by pat_completeness auto
termination
  by (relation "measure rlen") auto

declare drain_frames.simps [simp del]

lemma proto_read_frame_abs:
  assumes "ring_wf r"
  shows "fst (proto_read_frame r) = fst (next_frame (ring_contents r))"
    and "ring_contents (snd (proto_read_frame r)) = snd (next_frame (ring_contents r))"
    and "ring_wf (snd (proto_read_frame r))"
    and "rmax_cap (snd (proto_read_frame r)) = rmax_cap r"
proof -
  have c: "ring_contents (ring_consume r n) = drop n (ring_contents r)" for n
    using assms by (rule rq.consume_content)
  have w: "ring_wf (ring_consume r n)" for n using assms by (rule rq.consume_invar)
  have pk: "ring_peek s n = take n (ring_contents s)" if "ring_wf s" for s n
    using that by (rule rq.peek_content)
  have m: "rmax_cap (ring_consume s n) = rmax_cap s" for s n
    by (simp add: ring_consume_def Let_def)
  note defs = proto_read_frame_def next_frame_def Let_def ring_read_def pk assms w
  show "fst (proto_read_frame r) = fst (next_frame (ring_contents r))"
    by (simp add: defs c del: nth_ring_contents)
  show "ring_contents (snd (proto_read_frame r)) = snd (next_frame (ring_contents r))"
    by (simp add: defs c rq.consume_content [OF w] min_def add.commute)
  show "ring_wf (snd (proto_read_frame r))"
    by (simp add: defs rq.consume_invar)
  show "rmax_cap (snd (proto_read_frame r)) = rmax_cap r"
    by (simp add: defs m)
qed

lemma drain_frames_abs:
  assumes "ring_wf r"
  shows "fst (drain_frames r) = fst (parse_frames (ring_contents r)) \<and>
    fst (snd (drain_frames r)) = fst (snd (parse_frames (ring_contents r))) \<and>
    ring_contents (snd (snd (drain_frames r))) = snd (snd (parse_frames (ring_contents r))) \<and>
    ring_wf (snd (snd (drain_frames r))) \<and>
    rmax_cap (snd (snd (drain_frames r))) = rmax_cap r"
  using assms
proof (induction r rule: drain_frames.induct)
  case (1 r)
  obtain res r' where p: "proto_read_frame r = (res, r')" by (cases "proto_read_frame r")
  have a: "next_frame (ring_contents r) = (res, ring_contents r')" "ring_wf r'" "rmax_cap r' = rmax_cap r"
    using proto_read_frame_abs [OF "1.prems"] p by (simp_all add: prod_eq_iff)
  show ?case
  proof (cases res)
    case (Frame t q)
    have less: "rlen r' < rlen r"
      using a(1) Frame next_frame_shorter [of "ring_contents r" t q "ring_contents r'"] by simp
    then show ?thesis
      using "1.IH" [OF p [symmetric] Frame less] a p Frame
      by (simp add: drain_frames.simps [of r] parse_frames.simps [of "ring_contents r"]
          case_prod_beta Let_def)
  qed (use a p "1.prems" in \<open>simp_all add: drain_frames.simps [of r]
        parse_frames.simps [of "ring_contents r"]\<close>)
qed

lemma length_frame_hdr [simp]: "length (frame_hdr t n) = 5"
  by (simp add: frame_hdr_def)

lemma next_frame_encode:
  assumes "length p \<le> PROTO_MAX_PAYLOAD"
  shows "next_frame (encode_frame (t, p) @ rest) = (Frame t p, rest)"
proof -
  have "unat (of_nat (length p) :: u32) = length p"
    using assms by (simp add: unat_of_nat take_bit_nat_eq_self)
  moreover have "get_u32 (frame_hdr t n @ xs) = of_nat n" for n xs
    by (simp add: frame_hdr_def)
  ultimately show ?thesis
    using assms by (simp add: next_frame_def encode_frame_def nth_append, simp add: frame_hdr_def nth_append)
qed

lemma parse_frames_encode:
  "\<forall>f\<in>set fs. length (snd f) \<le> PROTO_MAX_PAYLOAD \<Longrightarrow>
   parse_frames (concat (map encode_frame fs) @ rest) =
     (let (gs, bad, r) = parse_frames rest in (fs @ gs, bad, r))"
proof (induction fs)
  case (Cons f fs)
  then show ?case
    using next_frame_encode [of "snd f" "fst f" "concat (map encode_frame fs) @ rest"]
    by (subst parse_frames.simps) (simp split: prod.splits)
qed simp

text \<open>Framing does not depend on how the stream was cut into reads.\<close>

lemma next_frame_append:
  assumes "next_frame bs = (res, rest)"
  shows "res = Frame t p \<Longrightarrow> next_frame (bs @ cs) = (Frame t p, rest @ cs)"
    and "res = Violation \<Longrightarrow> next_frame (bs @ cs) = (Violation, bs @ cs)"
    and "res = NeedMore \<Longrightarrow> rest = bs" and "res = Violation \<Longrightarrow> rest = bs"
proof -
  have "PROTO_HDR_SIZE \<le> length bs \<Longrightarrow> get_u32 (bs @ cs) = get_u32 bs"
    by (simp add: get_u32_append)
  then show "res = Frame t p \<Longrightarrow> next_frame (bs @ cs) = (Frame t p, rest @ cs)"
    "res = Violation \<Longrightarrow> next_frame (bs @ cs) = (Violation, bs @ cs)"
    using assms by (auto simp: next_frame_def nth_append split: if_splits)
qed (use assms in \<open>auto simp: next_frame_def split: if_splits\<close>)

lemma parse_frames_append:
  assumes "parse_frames bs = (fs, False, rest)"
  shows "parse_frames (bs @ cs) =
    (let (gs, bad, r) = parse_frames (rest @ cs) in (fs @ gs, bad, r))"
  using assms
proof (induction bs arbitrary: fs rule: parse_frames.induct)
  case (1 bs)
  obtain res r where n: "next_frame bs = (res, r)" by (cases "next_frame bs")
  note app = next_frame_append [OF n]
  show ?case
  proof (cases res)
    case NeedMore
    then show ?thesis using n app(3) "1.prems" by (simp add: parse_frames.simps [of bs])
  next
    case Violation
    then show ?thesis using n "1.prems" by (simp add: parse_frames.simps [of bs])
  next
    case (Frame t p)
    then obtain gs where gs: "parse_frames r = (gs, False, rest)" "fs = (t, p) # gs"
      using n "1.prems" by (auto simp: parse_frames.simps [of bs] split: prod.splits)
    show ?thesis
      using "1.IH" [OF n [symmetric] Frame gs(1)] app(1) [OF Frame] gs(2)
      by (simp add: parse_frames.simps [of "bs @ cs"] split: prod.splits)
  qed
qed

lemma proto_write_frame_abs:
  assumes "ring_wf r" and "proto_write_frame r t p = (ok, r')"
  shows "ring_wf r'" and "ok \<Longrightarrow> ring_contents r' = ring_contents r @ encode_frame (t, p)"
    and "\<not> ok \<Longrightarrow> r' = r" and "rmax_cap r' = rmax_cap r"
    and "ok \<longleftrightarrow> length p \<le> PROTO_MAX_PAYLOAD \<and>
      (rmax_cap r = 0 \<or> rlen r + PROTO_HDR_SIZE + length p \<le> rmax_cap r)"
proof -
  show ok: "ok \<longleftrightarrow> length p \<le> PROTO_MAX_PAYLOAD \<and>
      (rmax_cap r = 0 \<or> rlen r + PROTO_HDR_SIZE + length p \<le> rmax_cap r)"
    using assms(2) by (auto simp: proto_write_frame_def split: if_splits)
  show "\<not> ok \<Longrightarrow> r' = r" using assms(2) by (auto simp: proto_write_frame_def split: if_splits)
  have eq: "r' = foldl (\<lambda>q xs. snd (ring_write q xs)) r [frame_hdr t (length p), p]" if ok
    using assms(2) that by (auto simp: proto_write_frame_def split: if_splits)
  have "rmax_cap r = 0 \<or>
      length (ring_contents r) + length (concat [frame_hdr t (length p), p]) \<le> rmax_cap r" if ok
    using ok that by auto
  note all = rq.write_all [OF assms(1) this]
  show "ring_contents r' = ring_contents r @ encode_frame (t, p)" if ok
    using all that eq by (simp add: encode_frame_def)
  show "ring_wf r'" using all eq assms(1) \<open>\<not> ok \<Longrightarrow> r' = r\<close> by (cases ok) auto
  show "rmax_cap r' = rmax_cap r"
    using eq assms(1) \<open>\<not> ok \<Longrightarrow> r' = r\<close> by (cases ok) (auto simp: rq.write_ceiling rq.write_invar)
qed

section \<open>Properties\<close>

definition write_frames :: "ring \<Rightarrow> frame_t list \<Rightarrow> ring" where
  "write_frames r fs = foldl (\<lambda>r f. snd (proto_write_frame r (fst f) (snd f))) r fs"

lemma write_frames_abs:
  assumes "ring_wf r" and "\<forall>f\<in>set fs. length (snd f) \<le> PROTO_MAX_PAYLOAD"
    and "rmax_cap r = 0 \<or> rlen r + length (concat (map encode_frame fs)) \<le> rmax_cap r"
  shows "ring_wf (write_frames r fs) \<and>
    ring_contents (write_frames r fs) = ring_contents r @ concat (map encode_frame fs)"
  using assms
proof (induction fs arbitrary: r)
  case Nil
  then show ?case by (simp add: write_frames_def)
next
  case (Cons f fs)
  obtain ok r' where w: "proto_write_frame r (fst f) (snd f) = (ok, r')" by fastforce
  note p = proto_write_frame_abs [OF Cons.prems(1) w]
  have ok: ok using p(5) Cons.prems by (auto simp: encode_frame_def)
  have "rlen r' = rlen r + length (encode_frame f)"
    using p(2) [OF ok] by (metis length_append length_ring_contents surjective_pairing)
  then have "ring_wf (write_frames r' fs) \<and>
      ring_contents (write_frames r' fs) = ring_contents r' @ concat (map encode_frame fs)"
    using Cons.prems p by (intro Cons.IH) auto
  then show ?case using w p(2) [OF ok] by (simp add: write_frames_def)
qed

text \<open>
  Claim C4. Framing round trip: frames written to a ring that has room for them come out
  of the daemon's read loop unchanged, complete and in order, and the ring is left empty
  with no protocol violation.
\<close>

theorem frames_roundtrip:
  assumes "ring_wf r" and "ring_contents r = []"
    and "\<forall>f\<in>set fs. length (snd f) \<le> PROTO_MAX_PAYLOAD"
    and "rmax_cap r = 0 \<or> length (concat (map encode_frame fs)) \<le> rmax_cap r"
  shows "fst (drain_frames (write_frames r fs)) = fs \<and>
    \<not> fst (snd (drain_frames (write_frames r fs))) \<and>
    ring_contents (snd (snd (drain_frames (write_frames r fs)))) = []"
proof -
  have "rlen r = 0" using assms(2) by (metis length_ring_contents list.size(3))
  then have w: "ring_wf (write_frames r fs)"
    "ring_contents (write_frames r fs) = concat (map encode_frame fs) @ []"
    using write_frames_abs [of r fs] assms by auto
  have "parse_frames [] = ([], False, [])"
    by (simp add: parse_frames.simps next_frame_def)
  then show ?thesis
    using drain_frames_abs [OF w(1)] parse_frames_encode [OF assms(3), of "[]"] w(2) by simp
qed

theorem frames_roundtrip_witness:
  "ring_wf (ring_init 16 64) \<and>
   fst (drain_frames (write_frames (ring_init 16 64) [(0x40, [1, 2, 3]), (0x15, [])])) =
     [(0x40, [1, 2, 3]), (0x15, [])]"
proof -
  have i: "ring_wf (ring_init 16 64)" "ring_contents (ring_init 16 64) = []"
    "rmax_cap (ring_init 16 64) = 64"
    by (simp_all add: ring_init_def next_pow2_def next_pow2_loop.simps ring_wf_def is_pow2_16
        ring_contents_def)
  show ?thesis
    using frames_roundtrip [of "ring_init 16 64" "[(0x40, [1, 2, 3]), (0x15, [])]"] i
    by (simp add: encode_frame_def)
qed

text \<open>
  Claim C22. Framing does not depend on how the stream is cut into reads: draining after a
  first chunk and again after the second yields, together, the frames (and the violation
  verdict, and the leftover bytes) of the whole stream read at once.
\<close>

theorem frames_chunking:
  assumes "ring_wf r" and "drain_frames r = (fs, False, r1)"
    and "ring_write r1 chunk = (True, r2)"
    and "ring_wf whole" and "ring_contents whole = ring_contents r @ chunk"
  shows "fst (drain_frames whole) = fs @ fst (drain_frames r2) \<and>
    fst (snd (drain_frames whole)) = fst (snd (drain_frames r2)) \<and>
    ring_contents (snd (snd (drain_frames whole))) = ring_contents (snd (snd (drain_frames r2)))"
proof -
  have p: "parse_frames (ring_contents r) = (fs, False, ring_contents r1)" and wf1: "ring_wf r1"
    using drain_frames_abs [OF assms(1)] assms(2) by (simp_all add: prod_eq_iff)
  have c2: "ring_contents r2 = ring_contents r1 @ chunk" and wf2: "ring_wf r2"
    using ring_write_wf_contents [OF wf1 assms(3)] by simp_all
  show ?thesis
    using parse_frames_append [OF p, of chunk] drain_frames_abs [OF assms(4)]
      drain_frames_abs [OF wf2] assms(5) c2
    by (simp add: case_prod_beta Let_def)
qed

theorem frames_chunking_witness:
  "\<exists>r1 r2. drain_frames (snd (ring_write (ring_init 16 64) [1, 0, 0])) = ([], False, r1) \<and>
     ring_write r1 [0, 0x40, 7] = (True, r2) \<and>
     fst (drain_frames (snd (ring_write (ring_init 16 64) [1, 0, 0, 0, 0x40, 7]))) = fst (drain_frames r2)"
proof -
  define r where "r = snd (ring_write (ring_init 16 64) [1, 0, 0])"
  define whole where "whole = snd (ring_write (ring_init 16 64) [1, 0, 0, 0, 0x40, 7])"
  have i: "ring_wf (ring_init 16 64)" "ring_contents (ring_init 16 64) = []"
    "rmax_cap (ring_init 16 64) = 64"
    by (simp_all add: ring_init_def next_pow2_def next_pow2_loop.simps ring_wf_def is_pow2_16
        ring_contents_def)
  then have len: "rlen (ring_init 16 64) = 0" by (simp add: ring_init_def Let_def)
  have ok: "fst (ring_write (ring_init 16 64) xs)" if "length xs \<le> 64" for xs
    using rq.write_ok [OF i(1), of xs] i len that by simp
  have r: "ring_wf r" "ring_contents r = [1, 0, 0]" "rmax_cap r = 64"
    using i ok by (simp_all add: r_def rq.write_invar rq.write_content rq.write_ceiling)
  have whole: "ring_wf whole" "ring_contents whole = [1, 0, 0, 0, 0x40, 7]"
    using i ok by (simp_all add: whole_def rq.write_invar rq.write_content)
  have "parse_frames (ring_contents r) = ([], False, ring_contents r)"
    by (simp add: r parse_frames.simps next_frame_def)
  then obtain r1 where d: "drain_frames r = ([], False, r1)" "ring_contents r1 = [1, 0, 0]"
    "ring_wf r1" "rmax_cap r1 = 64"
    using drain_frames_abs [OF r(1)] r by (cases "drain_frames r") auto
  have "fst (ring_write r1 [0, 0x40, 7])"
    using rq.write_ok [OF d(3), of "[0, 0x40, 7]"] d by simp
  then obtain r2 where w: "ring_write r1 [0, 0x40, 7] = (True, r2)" by (metis prod.collapse)
  show ?thesis
    using frames_chunking [OF r(1) d(1) w whole(1)] r(2) whole(2) d(1) w
    by (auto simp: r_def whole_def)
qed

text \<open>
  A refused write changes nothing: a frame that is too large, or that would pass
  the ring's ceiling together with its header, is never half-written.
\<close>

theorem write_frame_atomic:
  assumes "ring_wf r"
  shows "(length p \<le> PROTO_MAX_PAYLOAD \<and>
          (rmax_cap r = 0 \<or> rlen r + PROTO_HDR_SIZE + length p \<le> rmax_cap r) \<and>
          fst (proto_write_frame r t p) \<and>
          ring_contents (snd (proto_write_frame r t p)) = ring_contents r @ encode_frame (t, p)) \<or>
         ((length p > PROTO_MAX_PAYLOAD \<or>
           (rmax_cap r > 0 \<and> rlen r + PROTO_HDR_SIZE + length p > rmax_cap r)) \<and>
          proto_write_frame r t p = (False, r))"
proof -
  obtain ok r' where w: "proto_write_frame r t p = (ok, r')" by (cases "proto_write_frame r t p")
  show ?thesis
    using proto_write_frame_abs [OF assms w] w by (cases ok) auto
qed

theorem write_frame_atomic_witness:
  "proto_write_frame (ring_init 16 16) 1 (replicate 12 0) = (False, ring_init 16 16)"
proof -
  have "ring_wf (ring_init 16 16)" "rmax_cap (ring_init 16 16) = 16" "rlen (ring_init 16 16) = 0"
    by (simp_all add: ring_init_def next_pow2_def next_pow2_loop.simps ring_wf_def is_pow2_16)
  then show ?thesis
    using write_frame_atomic [of "ring_init 16 16" "replicate 12 0" 1]
    by (simp only: length_replicate) simp
qed

text \<open>
  The text of an error frame stays inside the frame: whatever length the peer
  declares, a message is reported only when offset and length fit the payload, and a
  declared length that does not fit is reported as no message.
\<close>

theorem err_text_inside:
  "case proto_err_text p of
     (code, Some (off, n)) \<Rightarrow> 0 < unat n \<and> off + unat n \<le> length p \<and> n = get_u16 (drop 2 p) \<and> code = get_u16 p
   | (code, None) \<Rightarrow> length p < 4 \<or> get_u16 (drop 2 p) = 0 \<or> 4 + unat (get_u16 (drop 2 p)) > length p"
  by (auto simp: proto_err_text_def Let_def unat_gt_0)

end
