(* ===== verification/Crc.thy ===== *)
theory Crc
  imports Proto
begin

text \<open>
  The checksum of the scrollback log (\<open>src/common/scrollback.c\<close>): the table-driven CRC-32, its
  agreement with the shift register it tabulates, and what it detects.
\<close>

definition CRC_POLY :: u32 where "CRC_POLY = 0xEDB88320"

text \<open>One step of the shift register, the inner loop of \<open>crc_init\<close>.\<close>

definition crc_bit :: "u32 \<Rightarrow> u32" where
  "crc_bit c = (if c AND 1 \<noteq> 0 then CRC_POLY XOR drop_bit 1 c else drop_bit 1 c)"

definition crc_init :: "u32 list" where
  "crc_init = map (\<lambda>i. (crc_bit ^^ 8) (word_of_nat i)) [0..<256]"

definition crc_step :: "u32 list \<Rightarrow> u32 \<Rightarrow> byte \<Rightarrow> u32" where
  "crc_step table c b = table ! unat ((c XOR ucast b) AND 0xFF) XOR drop_bit 8 c"

definition crc32_buf :: "byte list \<Rightarrow> u32" where
  "crc32_buf data = foldl (crc_step crc_init) 0xFFFFFFFF data XOR 0xFFFFFFFF"

section \<open>The table is the shift register\<close>

lemma byte_bit: "bit (b :: byte) n \<Longrightarrow> n < 8"
  using bit_imp_le_length [of b n] by simp

lemma u32_bit: "bit (c :: u32) (8 + n) \<Longrightarrow> n < 24"
  using bit_imp_le_length [of c "8 + n"] by simp

lemma xor_right_inj: "(a :: 'a::len word) XOR m = b XOR m \<Longrightarrow> a = b"
proof -
  assume "a XOR m = b XOR m"
  then have "(a XOR m) XOR m = (b XOR m) XOR m" by simp
  then show "a = b" by (simp only: xor.assoc xor_self_eq xor.right_neutral)
qed

definition crc_byte :: "u32 \<Rightarrow> byte \<Rightarrow> u32" where
  "crc_byte c b = (crc_bit ^^ 8) (c XOR ucast b)"

lemma crc_bit_0 [simp]: "crc_bit 0 = 0"
  by (simp add: crc_bit_def)

lemma bit_0_iff_and_1: "(c :: u32) AND 1 \<noteq> 0 \<longleftrightarrow> bit c 0"
  by (simp add: and_one_eq bit_0 even_iff_mod_2_eq_zero)

lemma crc_bit_xor: "crc_bit (a XOR b) = crc_bit a XOR crc_bit b"
  by (rule bit_word_eqI) (auto simp: crc_bit_def bit_0_iff_and_1 bit_simps)

lemma crc_bits_xor: "(crc_bit ^^ n) (a XOR b) = (crc_bit ^^ n) a XOR (crc_bit ^^ n) b"
  by (induction n arbitrary: a b) (simp_all add: crc_bit_xor)

lemma crc_bits_0 [simp]: "(crc_bit ^^ n) 0 = 0"
  by (induction n) simp_all

text \<open>The register is invertible: the top bit of a step tells whether the polynomial was added.\<close>

lemma crc_bit_eq_0: "crc_bit a = 0 \<Longrightarrow> a = 0"
proof -
  assume z: "crc_bit a = 0"
  have p: "bit CRC_POLY 31" by (simp add: CRC_POLY_def bit_numeral_rec numeral_eq_Suc) 
  have "\<not> bit a 0"
  proof
    assume "bit a 0"
    then have "bit (crc_bit a) 31" using p bit_imp_le_length [of a 32]
      by (auto simp: crc_bit_def bit_0_iff_and_1 bit_simps)
    with z show False by simp
  qed
  then have d: "drop_bit 1 a = 0" using z by (simp add: crc_bit_def bit_0_iff_and_1)
  show "a = 0"
  proof (rule bit_word_eqI)
    fix n assume "n < LENGTH(32)"
    show "bit a n = bit 0 n"
    proof (cases n)
      case 0
      with \<open>\<not> bit a 0\<close> show ?thesis by simp
    next
      case (Suc m)
      have "bit (drop_bit 1 a) m = bit a (Suc m)" by (simp only: bit_drop_bit_eq o_apply) simp
      with d Suc show ?thesis by simp
    qed
  qed
qed

lemma crc_bits_eq_0: "(crc_bit ^^ n) a = 0 \<Longrightarrow> a = 0"
  by (induction n arbitrary: a) (auto dest: crc_bit_eq_0 simp: funpow_swap1)

lemma crc_bits_high: "take_bit n c = 0 \<Longrightarrow> (crc_bit ^^ n) c = drop_bit n c"
proof (induction n arbitrary: c)
  case (Suc n)
  have b: "\<not> bit c m" if "m < Suc n" for m
    using arg_cong [OF Suc.prems, of "\<lambda>x. bit x m"] that by (simp add: bit_take_bit_iff)
  have t: "take_bit n (drop_bit 1 c) = 0"
    by (rule bit_word_eqI) (use b [of "Suc _"] in \<open>auto simp: bit_take_bit_iff bit_drop_bit_eq\<close>)
  have "\<not> bit c 0" using b by simp
  then have "crc_bit c = drop_bit 1 c" by (simp add: crc_bit_def bit_0_iff_and_1)
  with Suc.IH [OF t] show ?case by (simp add: funpow_swap1 funpow_Suc_right del: funpow.simps)
qed simp

lemma byte_index: "unat (x AND (0xFF :: u32)) < 256"
  unfolding and_ff unsigned_take_bit_eq using take_bit_nat_less_exp [of 8 "unat x"] by simp

lemma crc_step_byte: "crc_step crc_init c b = crc_byte c b"
proof -
  let ?x = "c XOR ucast b"
  have t: "crc_init ! unat (?x AND 0xFF) = (crc_bit ^^ 8) (?x AND 0xFF)"
    using byte_index [of ?x] by (simp add: crc_init_def)
  have x: "?x = (?x AND 0xFF) XOR push_bit 8 (drop_bit 8 c)"
    by (rule bit_word_eqI) (auto simp: bit_simps and_ff dest: byte_bit)
  have "(crc_bit ^^ 8) (push_bit 8 (drop_bit 8 c)) = drop_bit 8 c"
    by (subst crc_bits_high) (auto intro!: bit_word_eqI simp: bit_simps dest: u32_bit)
  then have "(crc_bit ^^ 8) ?x = (crc_bit ^^ 8) (?x AND 0xFF) XOR drop_bit 8 c"
    by (subst x) (simp only: crc_bits_xor)
  then show ?thesis by (simp only: crc_step_def crc_byte_def t)
qed

lemma crc_foldl_byte: "foldl (crc_step crc_init) c xs = foldl crc_byte c xs"
  by (induction xs arbitrary: c) (simp_all add: crc_step_byte)

section \<open>Error detection\<close>

lemma crc_byte_xor: "crc_byte a x XOR crc_byte b y = crc_byte (a XOR b) (x XOR y)"
proof -
  have "(a XOR ucast x) XOR (b XOR ucast y) = (a XOR b) XOR ucast (x XOR y)"
    by (rule bit_word_eqI) (auto simp: bit_simps)
  then show ?thesis by (simp only: crc_byte_def crc_bits_xor [symmetric])
qed

lemma crc_foldl_xor:
  "length xs = length ys \<Longrightarrow>
   foldl crc_byte a xs XOR foldl crc_byte b ys = foldl crc_byte (a XOR b) (map2 (XOR) xs ys)"
  by (induction xs ys arbitrary: a b rule: list_induct2) (simp_all add: crc_byte_xor)

lemma crc_zeros: "foldl crc_byte c (replicate n 0) = (crc_bit ^^ (8 * n)) c"
proof (induction n arbitrary: c)
  case (Suc n)
  have "foldl crc_byte c (replicate (Suc n) 0) = foldl crc_byte (crc_byte c 0) (replicate n 0)" by simp
  also have "\<dots> = (crc_bit ^^ (8 * n)) ((crc_bit ^^ 8) c)" by (simp only: Suc.IH) (simp add: crc_byte_def)
  also have "\<dots> = (crc_bit ^^ (8 * Suc n)) c" by (simp only: funpow_add [symmetric, THEN fun_cong, unfolded o_apply])
      (simp add: add.commute)
  finally show ?case .
qed simp

fun le_word :: "byte list \<Rightarrow> u32" where
  "le_word [] = 0"
| "le_word (b # bs) = ucast b XOR push_bit 8 (le_word bs)"

lemma le_word_high: "8 * length bs \<le> n \<Longrightarrow> \<not> bit (le_word bs) n"
  by (induction bs arbitrary: n) (auto simp: bit_simps dest: byte_bit)

lemma le_word_eq_0: "length bs \<le> 4 \<Longrightarrow> le_word bs = 0 \<Longrightarrow> list_all (\<lambda>b. b = 0) bs"
proof (induction bs)
  case (Cons b bs)
  have z: "\<not> bit (le_word (b # bs)) n" for n using Cons.prems by simp
  have "b = 0"
  proof (rule bit_word_eqI)
    fix n assume "n < LENGTH(8)"
    then show "bit b n = bit 0 n" using z [of n] by (simp add: bit_simps)
  qed
  moreover have "le_word bs = 0"
  proof (rule bit_word_eqI)
    fix n assume "n < LENGTH(32)"
    show "bit (le_word bs) n = bit 0 n"
    proof (cases "n < 24")
      case True
      then show ?thesis using z [of "n + 8"] \<open>b = 0\<close> by (simp add: bit_simps)
    next
      case False
      then show ?thesis using le_word_high [of bs n] Cons.prems(1) by simp
    qed
  qed
  ultimately show ?case using Cons by simp
qed simp

lemma crc_window:
  "length bs \<le> 4 \<Longrightarrow> foldl crc_byte c bs = (crc_bit ^^ (8 * length bs)) (c XOR le_word bs)"
proof (induction bs arbitrary: c)
  case (Cons b bs)
  have "(crc_bit ^^ 8) (push_bit 8 (le_word bs)) = le_word bs"
  proof -
    have "drop_bit 8 (push_bit 8 (le_word bs)) = le_word bs"
      by (rule bit_word_eqI) (use le_word_high [of bs] Cons.prems in \<open>auto simp: bit_simps not_le [symmetric]\<close>)
    then show ?thesis by (subst crc_bits_high) (auto intro!: bit_word_eqI simp: bit_simps)
  qed
  then have "crc_byte c b XOR le_word bs = (crc_bit ^^ 8) (c XOR le_word (b # bs))"
    by (simp add: crc_byte_def crc_bits_xor xor.assoc)
  then have "foldl crc_byte c (b # bs) = (crc_bit ^^ (8 * length bs)) ((crc_bit ^^ 8) (c XOR le_word (b # bs)))"
    using Cons by simp
  then show ?case by (simp only: funpow_add [symmetric, THEN fun_cong, unfolded o_apply])
      (simp add: add.commute)
qed simp

text \<open>
  Claim C35. The checksum is the CRC-32 shift register with the reflected IEEE polynomial, run
  bit by bit over the data, and it never misses damage confined to four consecutive bytes: two
  messages that differ only there have different checksums.
\<close>

theorem crc_detects_burst:
  "crc32_buf data = foldl (\<lambda>c b. (crc_bit ^^ 8) (c XOR ucast b)) 0xFFFFFFFF data XOR 0xFFFFFFFF \<and>
   (length u = length v \<and> length u \<le> 4 \<and> u \<noteq> v \<longrightarrow>
    crc32_buf (front @ u @ rear) \<noteq> crc32_buf (front @ v @ rear))"
proof -
  have "crc32_buf data = foldl (\<lambda>c b. (crc_bit ^^ 8) (c XOR ucast b)) 0xFFFFFFFF data XOR 0xFFFFFFFF"
    by (simp add: crc32_buf_def crc_foldl_byte crc_byte_def [abs_def])
  moreover have "crc32_buf (front @ u @ rear) \<noteq> crc32_buf (front @ v @ rear)"
    if uv: "length u = length v" "length u \<le> 4" "u \<noteq> v"
  proof
    let ?c = "foldl crc_byte 0xFFFFFFFF front"
    let ?d = "map2 (XOR) u v"
    assume "crc32_buf (front @ u @ rear) = crc32_buf (front @ v @ rear)"
    then have eq: "foldl crc_byte (foldl crc_byte ?c u) rear = foldl crc_byte (foldl crc_byte ?c v) rear"
      by (simp add: crc32_buf_def crc_foldl_byte xor_right_inj)
    have z: "map2 (XOR) rear rear = replicate (length rear) (0 :: byte)"
      by (rule nth_equalityI) simp_all
    have "foldl crc_byte (foldl crc_byte ?c u XOR foldl crc_byte ?c v) (replicate (length rear) 0) = 0"
      using crc_foldl_xor [of rear rear "foldl crc_byte ?c u" "foldl crc_byte ?c v"] eq z by simp
    then have "foldl crc_byte ?c u XOR foldl crc_byte ?c v = 0"
      unfolding crc_zeros by (rule crc_bits_eq_0)
    then have "foldl crc_byte 0 ?d = 0"
      using crc_foldl_xor [OF uv(1), of ?c ?c] by simp
    then have "le_word ?d = 0"
      using crc_window [of ?d 0] uv crc_bits_eq_0 by simp
    then have "list_all (\<lambda>b. b = 0) ?d" using uv by (intro le_word_eq_0) simp_all
    then have "u ! i = v ! i" if "i < length u" for i
      using that uv xor_right_inj [of "u ! i" "v ! i" "v ! i"] by (auto simp: list_all_length)
    with uv show False by (metis nth_equalityI)
  qed
  ultimately show ?thesis by blast
qed

theorem crc_detects_burst_witness:
  "length [0x62 :: byte] = length [0x63 :: byte] \<and> length [0x62 :: byte] \<le> 4 \<and> [0x62 :: byte] \<noteq> [0x63] \<and>
   crc32_buf ([0x61] @ [0x62] @ [0x64]) \<noteq> crc32_buf ([0x61] @ [0x63] @ [0x64])"
proof -
  have h: "length [0x62 :: byte] = length [0x63 :: byte] \<and> length [0x62 :: byte] \<le> 4 \<and> [0x62 :: byte] \<noteq> [0x63]"
    by simp
  with crc_detects_burst [where u = "[0x62]" and v = "[0x63]" and front = "[0x61]" and rear = "[0x64]"]
  show ?thesis by blast
qed

end
