(* ===== verification/Sb_Log.thy ===== *)
theory Sb_Log
  imports Crc "HOL-Library.Sublist"
begin

text \<open>
  The on-disk log of \<open>src/common/scrollback.c\<close>: records with length, checksum and sequence
  number, the scan that recovers a log after a crash, and the sparse index built on the way. A
  file is the list of its bytes; \<open>pread\<close> past its end returns what is there.
\<close>

section \<open>Records\<close>

definition SB_LINE_MAX :: nat where "SB_LINE_MAX = 8192"
definition SB_INDEX_STEP :: nat where "SB_INDEX_STEP = 512"

type_synonym line_rec = "u64 \<times> byte list"

definition pread :: "byte list \<Rightarrow> nat \<Rightarrow> nat \<Rightarrow> byte list" where
  "pread file off n = take n (drop off file)"

text \<open>Reading the record at an offset: its size on disk, sequence number and text. The bodies
  of the loops in \<open>scan_log\<close> and \<open>read_one_log_from\<close> do the same checks in the same order.\<close>

definition read_rec :: "byte list \<Rightarrow> nat \<Rightarrow> (nat \<times> line_rec) option" where
  "read_rec file off =
    (let hdr = pread file off 16 in
     if length hdr \<noteq> 16 then None
     else let rec_len = unat (get_u32 hdr) in
       if rec_len < 12 \<or> rec_len - 12 > SB_LINE_MAX then None
       else let plen = rec_len - 12; payload = pread file (off + 16) plen in
         if length payload \<noteq> plen then None
         else let s = get_u64 (drop 8 hdr) in
           if crc32_buf (put_u64 s @ payload) \<noteq> get_u32 (drop 4 hdr) then None
           else Some (4 + rec_len, s, payload))"

text \<open>The bytes \<open>read_rec\<close> accounts for in \<open>disk_bytes_read\<close>.\<close>

definition rec_cost :: "byte list \<Rightarrow> nat \<Rightarrow> nat" where
  "rec_cost file off =
    (let hdr = pread file off 16 in
     if length hdr \<noteq> 16 then 0
     else let rec_len = unat (get_u32 hdr) in
       if rec_len < 12 \<or> rec_len - 12 > SB_LINE_MAX then 16
       else let plen = rec_len - 12 in
         if length (pread file (off + 16) plen) \<noteq> plen then 16 else 16 + plen)"

text \<open>The record \<open>sb_push_line\<close> writes.\<close>

definition enc_rec :: "line_rec \<Rightarrow> byte list" where
  "enc_rec r = (case r of (seq, text) \<Rightarrow>
     put_u32 (word_of_nat (12 + length text)) @ put_u32 (crc32_buf (put_u64 seq @ text)) @
     put_u64 seq @ text)"

lemma read_rec_size: "read_rec file off = Some (n, r) \<Longrightarrow> 16 \<le> n \<and> off + n \<le> length file"
  by (auto simp: read_rec_def Let_def pread_def split: if_splits)

section \<open>Sequential readers\<close>

function read_one_log_from :: "byte list \<Rightarrow> nat \<Rightarrow> line_rec list" where
  "read_one_log_from file off = (case read_rec file off of None \<Rightarrow> []
     | Some (n, r) \<Rightarrow> r # read_one_log_from file (off + n))"
  by pat_completeness auto

termination
  by (relation "measure (\<lambda>(file, off). length file - off)") (auto dest!: read_rec_size)

declare read_one_log_from.simps [simp del]

record sb_index =
  ix_off :: "nat list"
  first_seq :: u64
  nrec :: nat
  have_gen :: bool

definition idx_reset :: sb_index where
  "idx_reset = \<lparr>ix_off = [], first_seq = 0, nrec = 0, have_gen = False\<rparr>"

definition idx_append :: "sb_index \<Rightarrow> nat \<Rightarrow> sb_index" where
  "idx_append ix off = ix\<lparr>ix_off := ix_off ix @ [off]\<rparr>"

text \<open>The loop of \<open>scan_log\<close>: the rolling window of offsets \<open>offs\<close> has \<open>want\<close> entries (none when
  \<open>want\<close> is 0), the index is filled on the way.\<close>

function scan_steps :: "byte list \<Rightarrow> nat \<Rightarrow> nat \<Rightarrow> nat \<Rightarrow> u64 \<Rightarrow> nat list \<Rightarrow> sb_index \<Rightarrow>
    nat \<times> nat \<times> u64 \<times> nat list \<times> sb_index" where
  "scan_steps file want off n next offs ix = (case read_rec file off of
       None \<Rightarrow> (off, n, next, offs, ix)
     | Some (len, seq, text) \<Rightarrow>
         let offs = (if want \<noteq> 0 then offs[n mod want := off] else offs);
             ix = (if n = 0 then ix\<lparr>first_seq := seq\<rparr> else ix);
             ix = (if n mod SB_INDEX_STEP = 0 then idx_append ix off else ix)
         in scan_steps file want (off + len) (n + 1) (seq + 1) offs ix)"
  by pat_completeness auto

termination
  by (relation "measure (\<lambda>(file, want, off, n, next, offs, ix). length file - off)")
     (auto dest!: read_rec_size)

declare scan_steps.simps [simp del]

text \<open>\<open>None\<close> is a file that cannot be opened. The results are the next sequence number, the
  validated size, the offset of the tail window and the index.\<close>

definition scan_log :: "byte list option \<Rightarrow> nat \<Rightarrow> u64 \<times> nat \<times> nat \<times> sb_index" where
  "scan_log fl want = (case fl of None \<Rightarrow> (0, 0, 0, idx_reset)
     | Some file \<Rightarrow> (case scan_steps file want 0 0 0 (replicate want 0) (idx_reset\<lparr>have_gen := True\<rparr>) of
         (off, n, next, offs, ix) \<Rightarrow>
           (next, off, if want \<noteq> 0 \<and> n > want then offs ! (n mod want) else 0, ix\<lparr>nrec := n\<rparr>)))"

section \<open>Reading back what was written\<close>

abbreviation short_rec :: "line_rec \<Rightarrow> bool" where "short_rec r \<equiv> length (snd r) \<le> SB_LINE_MAX"

lemma length_enc_rec: "length (enc_rec r) = 16 + length (snd r)"
  by (simp add: enc_rec_def split: prod.splits)

lemma enc_rec_header:
  assumes "short_rec (s, tx)"
  shows "get_u32 (enc_rec (s, tx)) = word_of_nat (12 + length tx)"
    and "unat (get_u32 (enc_rec (s, tx))) = 12 + length tx"
    and "drop 4 (take 16 (enc_rec (s, tx))) = put_u32 (crc32_buf (put_u64 s @ tx)) @ put_u64 s"
    and "drop 8 (take 16 (enc_rec (s, tx))) = put_u64 s"
    and "drop 16 (enc_rec (s, tx)) = tx"
proof -
  show u: "get_u32 (enc_rec (s, tx)) = word_of_nat (12 + length tx)" by (simp add: enc_rec_def)
  show "unat (get_u32 (enc_rec (s, tx))) = 12 + length tx"
    using assms unfolding u SB_LINE_MAX_def
    by (simp only: unat_of_nat) (simp add: take_bit_nat_eq_self)
  show "drop 4 (take 16 (enc_rec (s, tx))) = put_u32 (crc32_buf (put_u64 s @ tx)) @ put_u64 s"
    and "drop 8 (take 16 (enc_rec (s, tx))) = put_u64 s" and "drop 16 (enc_rec (s, tx)) = tx"
    by (simp_all add: enc_rec_def)
qed

lemma read_rec_enc:
  assumes "short_rec (s, tx)"
  shows "read_rec (front @ enc_rec (s, tx) @ rest) (length front) = Some (16 + length tx, s, tx)"
proof -
  note h = enc_rec_header [OF assms]
  let ?f = "front @ enc_rec (s, tx) @ rest"
  have hdr: "pread ?f (length front) 16 = take 16 (enc_rec (s, tx))"
    by (simp add: pread_def length_enc_rec)
  have g: "get_u32 (take 16 (enc_rec (s, tx))) = get_u32 (enc_rec (s, tx))"
    by (simp add: get_u32_def)
  have g64: "get_u64 (put_u64 s) = s" using get_put_u64 [of s "[]"] by simp
  have pay: "pread ?f (length front + 16) (length tx) = tx"
    using h(5) by (simp add: pread_def length_enc_rec)
  show ?thesis
    unfolding read_rec_def Let_def hdr g h(2-4)
    using pay assms by (simp add: length_enc_rec g64)
qed

lemma read_rec_torn:
  assumes "short_rec r" and "k < length (enc_rec r)"
  shows "read_rec (front @ take k (enc_rec r)) (length front) = None"
proof (cases "k < 16")
  case True
  with assms(2) show ?thesis by (simp add: read_rec_def pread_def Let_def)
next
  case False
  obtain s tx where r: "r = (s, tx)" by (cases r)
  let ?f = "front @ take k (enc_rec r)"
  have hdr: "pread ?f (length front) 16 = take 16 (enc_rec r)"
    using False by (simp add: pread_def min_def)
  have g: "get_u32 (take 16 (enc_rec r)) = get_u32 (enc_rec r)" by (simp add: get_u32_def)
  have "length (pread ?f (length front + 16) (length tx)) < length tx"
    using assms(2) r False by (simp add: pread_def length_enc_rec min_def)
  moreover have "unat (get_u32 (pread ?f (length front) 16)) = 12 + length tx"
    unfolding hdr g using enc_rec_header(2) [of s tx] assms(1) r by simp
  ultimately show ?thesis by (simp add: read_rec_def Let_def)
qed

text \<open>A log as the daemon leaves it: whole records, then possibly the beginning of one that a
  crash cut short.\<close>

definition log_bytes :: "line_rec list \<Rightarrow> byte list" where
  "log_bytes rs = concat (map enc_rec rs)"

definition torn :: "byte list \<Rightarrow> bool" where
  "torn tail \<longleftrightarrow> (\<exists>r k. short_rec r \<and> k < length (enc_rec r) \<and> tail = take k (enc_rec r))"

lemma torn_Nil: "torn []"
  unfolding torn_def by (rule exI [of _ "(0, [])"], rule exI [of _ 0]) (simp add: length_enc_rec)

lemma log_bytes_simps [simp]:
  "log_bytes [] = []" "log_bytes (r # rs) = enc_rec r @ log_bytes rs"
  "log_bytes (xs @ ys) = log_bytes xs @ log_bytes ys"
  by (simp_all add: log_bytes_def)

lemma read_rec_next:
  assumes "short_rec r"
  shows "read_rec (front @ log_bytes (r # rs) @ tail) (length front) = Some (length (enc_rec r), r)"
  using read_rec_enc [of "fst r" "snd r" front "log_bytes rs @ tail"] assms
  by (simp add: length_enc_rec)

lemma read_rec_end: "torn tail \<Longrightarrow> read_rec (front @ tail) (length front) = None"
  by (auto simp: torn_def read_rec_torn)

lemma read_log_bytes:
  "list_all short_rec rs \<Longrightarrow> torn tail \<Longrightarrow>
   read_one_log_from (front @ log_bytes rs @ tail) (length front) = rs"
proof (induction rs arbitrary: front)
  case Nil
  then show ?case by (subst read_one_log_from.simps) (simp add: read_rec_end)
next
  case (Cons r rs)
  have "read_one_log_from ((front @ enc_rec r) @ log_bytes rs @ tail) (length (front @ enc_rec r)) = rs"
    using Cons by (intro Cons.IH) simp_all
  with read_rec_next [of r front rs tail] Cons.prems(1) show ?case
    by (subst read_one_log_from.simps) simp
qed

text \<open>The index of a generation: the offset of every 512th record.\<close>

definition rec_off :: "line_rec list \<Rightarrow> nat \<Rightarrow> nat" where
  "rec_off rs i = length (log_bytes (take i rs))"

definition index_of :: "line_rec list \<Rightarrow> sb_index" where
  "index_of rs = \<lparr>ix_off = map (\<lambda>i. rec_off rs (SB_INDEX_STEP * i)) [0..<(length rs + 511) div SB_INDEX_STEP],
     first_seq = (case rs of [] \<Rightarrow> 0 | r # _ \<Rightarrow> fst r), nrec = length rs, have_gen = True\<rparr>"

definition scanned :: "line_rec list \<Rightarrow> nat \<Rightarrow> nat \<Rightarrow> nat \<times> nat \<times> u64 \<times> nat list \<times> sb_index \<Rightarrow> bool" where
  "scanned rs want n st = (case st of (off, n', next, offs, ix) \<Rightarrow>
     off = rec_off rs n \<and> n' = n \<and> next = (if n = 0 then 0 else fst (rs ! (n - 1)) + 1) \<and>
     length offs = want \<and> (\<forall>j<n. n \<le> j + want \<longrightarrow> offs ! (j mod want) = rec_off rs j) \<and>
     ix = \<lparr>ix_off = map (\<lambda>i. rec_off rs (SB_INDEX_STEP * i)) [0..<(n + 511) div SB_INDEX_STEP],
       first_seq = (if n = 0 then 0 else fst (rs ! 0)), nrec = 0, have_gen = True\<rparr>)"

lemma rec_off_Suc: "n < length rs \<Longrightarrow> rec_off rs (Suc n) = rec_off rs n + length (enc_rec (rs ! n))"
  by (simp add: rec_off_def take_Suc_conv_app_nth)

lemma index_count:
  "(512 + n) div SB_INDEX_STEP = (n + 511) div SB_INDEX_STEP + (if n mod SB_INDEX_STEP = 0 then 1 else 0)"
  "n mod SB_INDEX_STEP = 0 \<Longrightarrow> SB_INDEX_STEP * ((n + 511) div SB_INDEX_STEP) = n"
proof -
  define q r where "q = n div 512" and "r = n mod 512"
  have n: "n = 512 * q + r" "r < 512" by (simp_all add: q_def r_def)
  have "(n + 511) div 512 = q + (if r = 0 then 0 else 1)"
    unfolding n using n(2) by (cases "r = 0") (auto simp: div_nat_eqI)
  moreover have "(512 + n) div 512 = q + 1" unfolding n using n(2) by (auto intro!: div_nat_eqI)
  moreover have "n mod 512 = r" by (simp add: r_def)
  ultimately show "(512 + n) div SB_INDEX_STEP = (n + 511) div SB_INDEX_STEP + (if n mod SB_INDEX_STEP = 0 then 1 else 0)"
    and "n mod SB_INDEX_STEP = 0 \<Longrightarrow> SB_INDEX_STEP * ((n + 511) div SB_INDEX_STEP) = n"
    using n by (simp_all add: SB_INDEX_STEP_def)
qed

lemma window_step:
  assumes "length offs = want" and "\<forall>j<n. n \<le> j + want \<longrightarrow> offs ! (j mod want) = f j"
    and "j < Suc n" and "Suc n \<le> j + want"
  shows "(if want \<noteq> 0 then offs[n mod want := f n] else offs) ! (j mod want) = f j"
proof (cases "j = n")
  case True
  with assms(1,4) show ?thesis by simp
next
  case False
  have "n mod want \<noteq> j mod want"
  proof
    assume "n mod want = j mod want"
    then have "want dvd n - j" using False assms(3) by (metis mod_eq_dvd_iff_nat less_Suc_eq_le)
    with False assms(3,4) show False by (auto dest!: dvd_imp_le)
  qed
  with assms False show ?thesis by auto
qed

lemma scan_steps_log:
  assumes "list_all short_rec rs" and "torn tail" and "scanned rs want n st" and "n \<le> length rs"
  shows "scanned rs want (length rs) (case st of (off, n', next, offs, ix) \<Rightarrow>
    scan_steps (log_bytes rs @ tail) want off n' next offs ix)"
  using assms(3,4)
proof (induction "length rs - n" arbitrary: n st)
  case 0
  then have n: "n = length rs" by simp
  obtain off nxt offs ix where st: "st = (off, n, nxt, offs, ix)" and off: "off = length (log_bytes rs)"
    using 0 n by (cases st) (auto simp: scanned_def rec_off_def)
  have "read_rec (log_bytes rs @ tail) off = None" using read_rec_end [OF assms(2)] off by simp
  with 0 st n show ?case by (subst st) (simp add: scan_steps.simps [of _ _ off])
next
  case (Suc d)
  then have n: "n < length rs" by simp
  obtain off nxt offs ix where st: "st = (off, n, nxt, offs, ix)" and off: "off = rec_off rs n"
    using Suc.prems by (cases st) (auto simp: scanned_def)
  have split: "log_bytes rs @ tail = log_bytes (take n rs) @ log_bytes (rs ! n # drop (Suc n) rs) @ tail"
    using n by (metis append_assoc append_take_drop_id Cons_nth_drop_Suc log_bytes_simps(3))
  have r: "read_rec (log_bytes rs @ tail) off = Some (length (enc_rec (rs ! n)), rs ! n)"
    unfolding split off rec_off_def using assms(1) n by (intro read_rec_next) (simp add: list_all_length)
  let ?offs = "if want \<noteq> 0 then offs[n mod want := off] else offs"
  let ?ix1 = "if n = 0 then ix\<lparr>first_seq := fst (rs ! n)\<rparr> else ix"
  let ?ix2 = "if n mod SB_INDEX_STEP = 0 then idx_append ?ix1 off else ?ix1"
  let ?st = "(off + length (enc_rec (rs ! n)), Suc n, fst (rs ! n) + 1, ?offs, ?ix2)"
  have "scanned rs want (Suc n) ?st"
  proof -
    have "?ix2 = \<lparr>ix_off = map (\<lambda>i. rec_off rs (SB_INDEX_STEP * i)) [0..<(Suc n + 511) div SB_INDEX_STEP],
       first_seq = fst (rs ! 0), nrec = 0, have_gen = True\<rparr>"
      using Suc.prems(1) st off index_count(2) [of n]
      by (auto simp: scanned_def idx_append_def index_count(1))
    moreover have "\<forall>j<Suc n. Suc n \<le> j + want \<longrightarrow> ?offs ! (j mod want) = rec_off rs j"
      using window_step [of offs want n "rec_off rs"] Suc.prems(1) st off by (auto simp: scanned_def)
    ultimately show ?thesis
      using Suc.prems(1) st off rec_off_Suc [OF n] by (simp add: scanned_def)
  qed
  moreover have "d = length rs - Suc n" using Suc.hyps(2) by simp
  ultimately have "scanned rs want (length rs) (case ?st of (off, n', next, offs, ix) \<Rightarrow>
      scan_steps (log_bytes rs @ tail) want off n' next offs ix)"
    by (intro Suc.hyps(1)) (assumption | rule Suc_leI [OF n])+
  moreover have "scan_steps (log_bytes rs @ tail) want off n nxt offs ix =
      (case ?st of (off, n', next, offs, ix) \<Rightarrow> scan_steps (log_bytes rs @ tail) want off n' next offs ix)"
    by (subst scan_steps.simps) (simp add: r Let_def case_prod_beta)
  ultimately show ?case by (simp add: st)
qed

lemma scan_log_recovers:
  assumes "list_all short_rec rs" and "torn tail"
  shows "scan_log (Some (log_bytes rs @ tail)) want =
      (if rs = [] then 0 else fst (last rs) + 1, length (log_bytes rs),
       if want \<noteq> 0 \<and> want < length rs then rec_off rs (length rs - want) else 0, index_of rs)"
proof -
  have init: "scanned rs want 0 (0, 0, 0, replicate want 0, idx_reset\<lparr>have_gen := True\<rparr>)"
    by (simp add: scanned_def rec_off_def idx_reset_def SB_INDEX_STEP_def)
  obtain off n nxt offs ix where
    e: "scan_steps (log_bytes rs @ tail) want 0 0 0 (replicate want 0) (idx_reset\<lparr>have_gen := True\<rparr>) = (off, n, nxt, offs, ix)"
    by (metis prod_cases5)
  have S: "scanned rs want (length rs) (off, n, nxt, offs, ix)"
    using scan_steps_log [OF assms init] by (simp add: e)
  then have n: "n = length rs" "off = length (log_bytes rs)" by (auto simp: scanned_def rec_off_def)
  have "offs ! (n mod want) = rec_off rs (length rs - want)" if "want \<noteq> 0" "want < length rs"
  proof -
    have "offs ! ((length rs - want) mod want) = rec_off rs (length rs - want)"
      using S that by (auto simp: scanned_def)
    then show ?thesis using that by (simp add: n mod_if [of "length rs"] le_mod_geq)
  qed
  moreover have "ix\<lparr>nrec := n\<rparr> = index_of rs"
    using S by (cases rs) (auto simp: scanned_def index_of_def)
  moreover have "nxt = (if rs = [] then 0 else fst (last rs) + 1)"
    using S by (auto simp: scanned_def last_conv_nth)
  ultimately show ?thesis by (simp add: scan_log_def e n)
qed

text \<open>
  Claim C36. Crash recovery. If a log holds whole records followed by any beginning of a further
  record (the write a crash interrupted), opening it finds exactly the whole records: the valid
  size ends after the last of them, numbering resumes after its sequence number, the tail
  window starts at the last \<open>want\<close> records, the index names the offset of every 512th
  record, and reading the log returns the records in order with their text.
\<close>

theorem log_recovery:
  assumes "list_all short_rec rs" and "torn tail"
  shows "read_one_log_from (log_bytes rs @ tail) 0 = rs \<and>
    scan_log (Some (log_bytes rs @ tail)) want =
      (if rs = [] then 0 else fst (last rs) + 1, length (log_bytes rs),
       if want \<noteq> 0 \<and> want < length rs then rec_off rs (length rs - want) else 0, index_of rs)"
  using read_log_bytes [OF assms, of "[]"] scan_log_recovers [OF assms] by simp

theorem log_recovery_witness:
  "read_one_log_from (log_bytes [(0, [0x61]), (1, [0x62])] @ take 17 (enc_rec (2, [0x63, 0x64]))) 0 =
     [(0, [0x61]), (1, [0x62])] \<and>
   fst (scan_log (Some (log_bytes [(0, [0x61]), (1, [0x62])] @ take 17 (enc_rec (2, [0x63, 0x64])))) 1) = 2"
proof -
  have t: "torn (take 17 (enc_rec (2, [0x63, 0x64])))"
    unfolding torn_def by (rule exI [of _ "(2, [0x63, 0x64])"], rule exI [of _ 17])
      (simp add: length_enc_rec SB_LINE_MAX_def)
  have "list_all short_rec [(0, [0x61]), (1, [0x62])]" by (simp add: SB_LINE_MAX_def)
  from log_recovery [OF this t, of 1] show ?thesis by simp
qed

end
