(* ===== verification/Scan.thy ===== *)
theory Scan
  imports Proto "HOL-Library.Sublist"
begin

text \<open>
  The input-chord scanner of \<open>src/client/scan.c\<close> and the part of the attach loop
  (\<open>src/client/attach.c\<close>) that feeds it: the chord timeout and the frames a keyboard read
  sends. The clock \<open>now_ms ()\<close> is a parameter: \<open>now i\<close> is its value when byte \<open>i\<close> of a read
  is examined.
\<close>

section \<open>The scanner\<close>

definition KEY_CTRL_BACKSLASH :: byte where "KEY_CTRL_BACKSLASH = 0x1c"
definition KEY_CTRL_D :: byte where "KEY_CTRL_D = 0x04"
definition KEY_COPY_MODE :: byte where "KEY_COPY_MODE = 0x5b"
definition CHORD_TIMEOUT_MS :: u64 where "CHORD_TIMEOUT_MS = 500"

lemmas key_defs = KEY_CTRL_BACKSLASH_def KEY_CTRL_D_def KEY_COPY_MODE_def

record chord =
  armed :: int
  armed_at :: u64
  chord_pending :: "byte list"
  npending :: nat

datatype scan_result =
  SCAN_NONE | SCAN_DETACH | SCAN_COPY_MODE | SCAN_SPLIT_STACKED | SCAN_SPLIT_SIDE |
  SCAN_PANE_NEXT | SCAN_PANE_LAST | SCAN_PANE_CLOSE | SCAN_PANE_ZOOM | SCAN_PANE_UP |
  SCAN_PANE_DOWN | SCAN_PANE_RIGHT | SCAN_PANE_LEFT

text \<open>\<open>chord ch = {0}\<close> in \<open>attach.c\<close>.\<close>

definition chord_zero :: chord where
  "chord_zero = \<lparr>armed = 0, armed_at = 0, chord_pending = [0, 0, 0], npending = 0\<rparr>"

text \<open>The bytes written to \<open>fwd\<close> so far are an argument; its capacity is the subject of
  \<open>scan_conserves\<close>.\<close>

definition chord_flush :: "chord \<Rightarrow> byte list \<Rightarrow> byte list \<times> chord" where
  "chord_flush ch fwd =
    (fwd @ take (npending ch) (chord_pending ch), ch\<lparr>armed := 0, npending := 0\<rparr>)"

text \<open>The eight commands of one byte after the prefix key.\<close>

definition chord_command :: "byte \<Rightarrow> scan_result" where
  "chord_command b =
    (if b = KEY_CTRL_D then SCAN_DETACH
     else if b = KEY_COPY_MODE then SCAN_COPY_MODE
     else if b = 0x22 then SCAN_SPLIT_STACKED
     else if b = 0x25 then SCAN_SPLIT_SIDE
     else if b = 0x6f then SCAN_PANE_NEXT
     else if b = 0x3b then SCAN_PANE_LAST
     else if b = 0x78 then SCAN_PANE_CLOSE
     else if b = 0x7a then SCAN_PANE_ZOOM
     else SCAN_NONE)"

definition arrow_dir :: "byte \<Rightarrow> scan_result" where
  "arrow_dir b = [SCAN_PANE_UP, SCAN_PANE_DOWN, SCAN_PANE_RIGHT, SCAN_PANE_LEFT] ! (unat b - 0x41)"

function scan_loop :: "(nat \<Rightarrow> u64) \<Rightarrow> byte list \<Rightarrow> chord \<Rightarrow> nat \<Rightarrow> byte list \<Rightarrow>
    scan_result \<times> byte list \<times> nat \<times> chord" where
  "scan_loop now inp ch i fwd =
    (if length inp \<le> i then (SCAN_NONE, fwd, length inp, ch)
     else let b = inp ! i in
       if armed ch = 1 then
         (let ch1 = ch\<lparr>armed := 0, npending := 0\<rparr> in
          if chord_command b \<noteq> SCAN_NONE then (chord_command b, fwd, i + 1, ch1)
          else if b = 0x1b then
            scan_loop now inp
              (ch1\<lparr>armed := 2, chord_pending := (chord_pending ch1)[0 := KEY_CTRL_BACKSLASH, 1 := 0x1b],
                   npending := 2\<rparr>) (i + 1) fwd
          else scan_loop now inp ch1 (i + 1) (fwd @ [KEY_CTRL_BACKSLASH, b]))
       else if armed ch = 2 then
         (if b = 0x5b then
            scan_loop now inp
              (ch\<lparr>armed := 3, chord_pending := (chord_pending ch)[2 := 0x5b], npending := 3\<rparr>)
              (i + 1) fwd
          else scan_loop now inp (snd (chord_flush ch fwd)) i (fst (chord_flush ch fwd)))
       else if armed ch = 3 then
         (if 0x41 \<le> b \<and> b \<le> 0x44 then
            (arrow_dir b, fwd, i + 1, ch\<lparr>armed := 0, npending := 0\<rparr>)
          else scan_loop now inp (snd (chord_flush ch fwd)) i (fst (chord_flush ch fwd)))
       else if b = KEY_CTRL_BACKSLASH then
         scan_loop now inp (ch\<lparr>armed := 1, armed_at := now i\<rparr>) (i + 1) fwd
       else scan_loop now inp ch (i + 1) (fwd @ [b]))"
  by pat_completeness auto

text \<open>A byte is examined at most twice: a deviation puts the machine back to idle.\<close>

termination
  by (relation "measure (\<lambda>(now, inp, ch, i, fwd).
        2 * (length inp - i) + (if armed ch = 2 \<or> armed ch = 3 then 1 else 0))")
     (auto simp: chord_flush_def)

declare scan_loop.simps [simp del]

definition scan_input :: "(nat \<Rightarrow> u64) \<Rightarrow> chord \<Rightarrow> byte list \<Rightarrow>
    scan_result \<times> byte list \<times> nat \<times> chord" where
  "scan_input now ch inp = scan_loop now inp ch 0 []"

section \<open>The attach loop around it\<close>

text \<open>The chord timeout: what is sent to the session when the prefix has been pending for
  \<open>CHORD_TIMEOUT_MS\<close>. The subtraction is on \<open>uint64_t\<close>.\<close>

definition chord_timeout :: "u64 \<Rightarrow> chord \<Rightarrow> byte list \<times> chord" where
  "chord_timeout t ch =
    (if armed ch \<noteq> 0 \<and> CHORD_TIMEOUT_MS \<le> t - armed_at ch
     then (if npending ch \<noteq> 0 then take (npending ch) (chord_pending ch) else [KEY_CTRL_BACKSLASH],
           ch\<lparr>armed := 0, npending := 0\<rparr>)
     else ([], ch))"

definition pane_frame :: "scan_result \<Rightarrow> (nat \<times> byte list) option" where
  "pane_frame r = (case r of
      SCAN_SPLIT_STACKED \<Rightarrow> Some (0x16, [1, 255])
    | SCAN_SPLIT_SIDE \<Rightarrow> Some (0x16, [0, 255])
    | SCAN_PANE_NEXT \<Rightarrow> Some (0x18, [1, 0])
    | SCAN_PANE_LAST \<Rightarrow> Some (0x18, [3, 0])
    | SCAN_PANE_CLOSE \<Rightarrow> Some (0x17, [255])
    | SCAN_PANE_ZOOM \<Rightarrow> Some (0x18, [8, 255])
    | SCAN_PANE_UP \<Rightarrow> Some (0x18, [4, 0])
    | SCAN_PANE_DOWN \<Rightarrow> Some (0x18, [5, 0])
    | SCAN_PANE_RIGHT \<Rightarrow> Some (0x18, [6, 0])
    | SCAN_PANE_LEFT \<Rightarrow> Some (0x18, [7, 0])
    | _ \<Rightarrow> None)"

text \<open>One keyboard read outside copy mode while the connection holds: the frames sent, in
  order, and the bytes left for the pager when the chord enters copy mode.\<close>

definition stdin_read :: "(nat \<Rightarrow> u64) \<Rightarrow> chord \<Rightarrow> byte list \<Rightarrow>
    (nat \<times> byte list) list \<times> byte list option \<times> chord" where
  "stdin_read now ch buf = (case scan_input now ch buf of (sr, fwd, consumed, ch1) \<Rightarrow>
     ((if fwd \<noteq> [] then [(0x20, fwd)] else []) @
        (case pane_frame sr of Some fr \<Rightarrow> [fr] | None \<Rightarrow> []),
      if sr = SCAN_COPY_MODE then Some (drop consumed buf) else None, ch1))"

section \<open>No keystroke is lost or invented\<close>

definition chord_wf :: "chord \<Rightarrow> bool" where
  "chord_wf ch \<longleftrightarrow> length (chord_pending ch) = 3 \<and>
     (armed ch = 0 \<and> npending ch = 0 \<or> armed ch = 1 \<and> npending ch = 0 \<or>
      armed ch = 2 \<and> npending ch = 2 \<and> take 2 (chord_pending ch) = [0x1c, 0x1b] \<or>
      armed ch = 3 \<and> npending ch = 3 \<and> chord_pending ch = [0x1c, 0x1b, 0x5b])"

text \<open>The keystrokes the machine has swallowed but not yet decided about.\<close>

definition held :: "chord \<Rightarrow> byte list" where
  "held ch = (if armed ch = 0 then [] else if armed ch = 1 then [0x1c]
     else take (npending ch) (chord_pending ch))"

text \<open>The keystrokes that make up a command.\<close>

definition chord_keys :: "scan_result \<Rightarrow> byte list" where
  "chord_keys r = (case r of
      SCAN_NONE \<Rightarrow> [] | SCAN_DETACH \<Rightarrow> [0x1c, 4] | SCAN_COPY_MODE \<Rightarrow> [0x1c, 0x5b]
    | SCAN_SPLIT_STACKED \<Rightarrow> [0x1c, 0x22] | SCAN_SPLIT_SIDE \<Rightarrow> [0x1c, 0x25]
    | SCAN_PANE_NEXT \<Rightarrow> [0x1c, 0x6f] | SCAN_PANE_LAST \<Rightarrow> [0x1c, 0x3b]
    | SCAN_PANE_CLOSE \<Rightarrow> [0x1c, 0x78] | SCAN_PANE_ZOOM \<Rightarrow> [0x1c, 0x7a]
    | SCAN_PANE_UP \<Rightarrow> [0x1c, 0x1b, 0x5b, 0x41] | SCAN_PANE_DOWN \<Rightarrow> [0x1c, 0x1b, 0x5b, 0x42]
    | SCAN_PANE_RIGHT \<Rightarrow> [0x1c, 0x1b, 0x5b, 0x43] | SCAN_PANE_LEFT \<Rightarrow> [0x1c, 0x1b, 0x5b, 0x44])"

lemma chord_command_keys:
  "chord_command b \<noteq> SCAN_NONE \<Longrightarrow> chord_keys (chord_command b) = [0x1c, b]"
  by (auto simp: chord_command_def chord_keys_def key_defs split: if_splits)

lemma arrow_cases:
  assumes "0x41 \<le> b" and "b \<le> (0x44 :: byte)"
  shows "b = 0x41 \<or> b = 0x42 \<or> b = 0x43 \<or> b = 0x44"
proof -
  have "unat b = 0x41 \<or> unat b = 0x42 \<or> unat b = 0x43 \<or> unat b = 0x44"
    using assms by (auto simp: word_le_nat_alt)
  then show ?thesis
    by (auto simp: word_unat_eq_iff)
qed

lemma arrow_dir_keys:
  assumes "0x41 \<le> b" and "b \<le> (0x44 :: byte)"
  shows "chord_keys (arrow_dir b) = [0x1c, 0x1b, 0x5b, b]" and "arrow_dir b \<noteq> SCAN_NONE"
  using arrow_cases [OF assms] by (auto simp: arrow_dir_def chord_keys_def)

lemma length_held: "chord_wf ch \<Longrightarrow> length (held ch) \<le> 3"
  by (auto simp: chord_wf_def held_def)

text \<open>
  The grammar of the keyboard stream, without state: the command found, the bytes to forward
  before it, and the bytes left over (the undecided prefix when there is no command, the
  unscanned rest after one).
\<close>

definition forward :: "byte list \<Rightarrow> scan_result \<times> byte list \<times> byte list \<Rightarrow>
    scan_result \<times> byte list \<times> byte list" where
  "forward p res = (fst res, p @ fst (snd res), snd (snd res))"

fun scan_spec :: "byte list \<Rightarrow> scan_result \<times> byte list \<times> byte list" where
  "scan_spec [] = (SCAN_NONE, [], [])"
| "scan_spec (b # xs) =
    (if b \<noteq> 0x1c then forward [b] (scan_spec xs)
     else case xs of [] \<Rightarrow> (SCAN_NONE, [], [0x1c])
     | c # ys \<Rightarrow>
       if chord_command c \<noteq> SCAN_NONE then (chord_command c, [], ys)
       else if c \<noteq> 0x1b then forward [0x1c, c] (scan_spec ys)
       else case ys of [] \<Rightarrow> (SCAN_NONE, [], [0x1c, 0x1b])
       | d # zs \<Rightarrow>
         if d \<noteq> 0x5b then forward [0x1c, 0x1b] (scan_spec ys)
         else case zs of [] \<Rightarrow> (SCAN_NONE, [], [0x1c, 0x1b, 0x5b])
         | e # ws \<Rightarrow>
           if 0x41 \<le> e \<and> e \<le> 0x44 then (arrow_dir e, [], ws)
           else forward [0x1c, 0x1b, 0x5b] (scan_spec zs))"

lemma forward_simps [simp]:
  "forward p (forward q r) = forward (p @ q) r" "forward [] r = r"
  "forward p (a, b, c) = (a, p @ b, c)"
  by (simp_all add: forward_def)

lemma chord_command_esc [simp]: "chord_command 0x1b = SCAN_NONE"
  by (simp add: chord_command_def key_defs)

text \<open>No byte is lost or invented, and the grammar is decided only by complete commands.\<close>

definition conserves :: "byte list \<Rightarrow> scan_result \<times> byte list \<times> byte list \<Rightarrow> bool" where
  "conserves xs res \<longleftrightarrow> xs = fst (snd res) @ chord_keys (fst res) @ snd (snd res)"

lemma conserves_forward: "conserves xs res \<Longrightarrow> conserves (p @ xs) (forward p res)"
  by (simp add: conserves_def forward_def)

lemma conserves_now: "xs = chord_keys r @ ys \<Longrightarrow> conserves xs (r, [], ys)"
  by (simp add: conserves_def)

lemma scan_spec_conserves: "conserves xs (scan_spec xs)"
proof (induction xs rule: scan_spec.induct)
  case 1
  then show ?case by (simp add: conserves_def chord_keys_def)
next
  case (2 b xs)
  have fwd: "conserves (b # xs) (forward p (scan_spec ys))"
    if "conserves ys (scan_spec ys)" "b # xs = p @ ys" for p ys
    using conserves_forward [OF that(1), of p] that(2) by simp
  have none: "conserves (b # xs) (SCAN_NONE, [], b # xs)"
    by (simp add: conserves_def chord_keys_def)
  show ?case
  proof (cases "b = 0x1c \<and> xs \<noteq> []")
    case False
    with 2(1) fwd [of xs "[b]"] none show ?thesis by auto
  next
    case True
    then obtain c ys where [simp]: "b = 0x1c" "xs = c # ys" by (cases xs) auto
    show ?thesis
    proof (cases "chord_command c = SCAN_NONE \<and> c = 0x1b \<and> ys \<noteq> []")
      case False
      with 2(2) fwd [of ys "[0x1c, c]"] none show ?thesis
        by (auto simp: chord_command_keys intro: conserves_now)
    next
      case True
      then obtain d zs where [simp]: "c = 0x1b" "ys = d # zs" by (cases ys) auto
      show ?thesis
      proof (cases "d = 0x5b \<and> zs \<noteq> []")
        case False
        with 2(3) fwd [of ys "[0x1c, 0x1b]"] none show ?thesis by auto
      next
        case True
        then obtain e ws where [simp]: "d = 0x5b" "zs = e # ws" by (cases zs) auto
        show ?thesis using 2(4) fwd [of zs "[0x1c, 0x1b, 0x5b]"]
          by (auto simp: arrow_dir_keys intro: conserves_now)
      qed
    qed
  qed
qed

lemma scan_spec_held:
  assumes "chord_wf ch" shows "scan_spec (held ch) = (SCAN_NONE, [], held ch)"
proof -
  have "held ch \<in> {[], [0x1c], [0x1c, 0x1b], [0x1c, 0x1b, 0x5b]}"
    using assms by (auto simp: chord_wf_def held_def)
  then show ?thesis by auto
qed

text \<open>What one call guarantees: the invariant, and the result the grammar gives on the bytes
  swallowed before and the bytes read.\<close>

definition scan_view :: "byte list \<Rightarrow> scan_result \<times> byte list \<times> nat \<times> chord \<Rightarrow>
    scan_result \<times> byte list \<times> byte list" where
  "scan_view inp res = (case res of (r, out, n, ch1) \<Rightarrow>
     (r, out, if r = SCAN_NONE then held ch1 else drop n inp))"

definition scan_ok :: "chord \<Rightarrow> byte list \<Rightarrow> nat \<Rightarrow> byte list \<Rightarrow>
    scan_result \<times> byte list \<times> nat \<times> chord \<Rightarrow> bool" where
  "scan_ok ch inp i fwd res = (case res of (r, out, n, ch1) \<Rightarrow>
     chord_wf ch1 \<and> n \<le> length inp \<and>
     scan_view inp res = forward fwd (scan_spec (held ch @ drop i inp)) \<and>
     (r = SCAN_NONE \<longrightarrow> n = length inp) \<and> (r \<noteq> SCAN_NONE \<longrightarrow> armed ch1 = 0))"

lemma scan_ok_step:
  assumes "scan_ok ch1 inp (i + 1) fwd1 res" and "i < length inp"
    and "\<And>xs. forward fwd (scan_spec (held ch @ inp ! i # xs)) =
           forward fwd1 (scan_spec (held ch1 @ xs))"
  shows "scan_ok ch inp i fwd res"
  using assms unfolding scan_ok_def by (cases res) (simp add: Cons_nth_drop_Suc [symmetric])

lemma scan_ok_again:
  assumes "scan_ok ch1 inp i fwd1 res"
    and "forward fwd (scan_spec (held ch @ drop i inp)) =
         forward fwd1 (scan_spec (held ch1 @ drop i inp))"
  shows "scan_ok ch inp i fwd res"
  using assms unfolding scan_ok_def by (cases res) simp

lemma scan_ok_done:
  assumes "i < length inp" and "\<And>xs. scan_spec (held ch @ inp ! i # xs) = (r, [], xs)"
    and "chord_wf ch1" and "armed ch1 = 0" and "r \<noteq> SCAN_NONE"
  shows "scan_ok ch inp i fwd (r, fwd, i + 1, ch1)"
  using assms unfolding scan_ok_def scan_view_def by (simp add: Cons_nth_drop_Suc [symmetric])

lemma chord_flush_wf:
  assumes "chord_wf ch" and "armed ch = 2 \<or> armed ch = 3"
  shows "chord_wf (snd (chord_flush ch fwd))" and "armed (snd (chord_flush ch fwd)) = 0"
    and "fst (chord_flush ch fwd) = fwd @ held ch"
  using assms by (auto simp: chord_wf_def chord_flush_def held_def)

lemma list3: "length xs = 3 \<longleftrightarrow> (\<exists>a b c. xs = [a, b, c])"
  by (auto simp: length_Suc_conv numeral_3_eq_3)

lemmas scan_loop_step = scan_loop.simps [unfolded Let_def]

definition scan_left :: "byte list \<Rightarrow> chord \<Rightarrow> nat \<Rightarrow> nat" where
  "scan_left inp ch i = 2 * (length inp - i) + (if armed ch = 2 \<or> armed ch = 3 then 1 else 0)"

lemma scan_loop_ok:
  "chord_wf ch \<Longrightarrow> i \<le> length inp \<Longrightarrow> scan_ok ch inp i fwd (scan_loop now inp ch i fwd)"
proof (induction "scan_left inp ch i" arbitrary: ch i fwd rule: less_induct)
  case less
  note wf = less.prems(1)
  obtain x y z where p: "chord_pending ch = [x, y, z]"
    using wf by (auto simp: chord_wf_def list3)
  have next_byte: "scan_ok ch inp i fwd (scan_loop now inp ch1 (i + 1) fwd1)"
    if "chord_wf ch1" "i < length inp"
      "\<And>xs. forward fwd (scan_spec (held ch @ inp ! i # xs)) = forward fwd1 (scan_spec (held ch1 @ xs))"
    for ch1 fwd1
    using that by (intro scan_ok_step [OF less.hyps]) (auto simp: scan_left_def)
  have again: "scan_ok ch inp i fwd
      (scan_loop now inp (snd (chord_flush ch fwd)) i (fst (chord_flush ch fwd)))"
    if "armed ch = 2 \<or> armed ch = 3" "i < length inp"
      "\<And>xs. scan_spec (held ch @ inp ! i # xs) = forward (held ch) (scan_spec (inp ! i # xs))"
    using chord_flush_wf [OF wf that(1)] that less.prems
    by (intro scan_ok_again [OF less.hyps])
       (auto simp: scan_left_def held_def [of "snd _"] Cons_nth_drop_Suc [symmetric] simp del: scan_spec.simps)
  consider (e) "i = length inp" | (a) "i < length inp" "armed ch = 1"
    | (b) "i < length inp" "armed ch = 2" | (c) "i < length inp" "armed ch = 3"
    | (d) "i < length inp" "armed ch = 0"
    using wf less.prems(2) unfolding chord_wf_def by linarith
  then show ?case
  proof cases
    case e
    with wf show ?thesis by (subst scan_loop.simps) (simp add: scan_ok_def scan_view_def scan_spec_held)
  next
    case a
    with wf p show ?thesis
      by (subst scan_loop_step)
         (auto intro!: next_byte [simplified] scan_ok_done [simplified]
           simp: chord_command_keys held_def chord_wf_def key_defs)
  next
    case b
    with wf p again show ?thesis
      by (subst scan_loop_step)
         (auto intro!: next_byte [simplified] simp: held_def chord_wf_def)
  next
    case c
    with wf p again show ?thesis
      by (subst scan_loop_step)
         (auto intro!: scan_ok_done [simplified] simp: arrow_dir_keys held_def chord_wf_def)
  next
    case d
    with wf show ?thesis
      by (subst scan_loop_step)
         (auto intro!: next_byte [simplified] simp: held_def chord_wf_def key_defs)
  qed
qed


lemma scan_input_ok:
  assumes "chord_wf ch" and "scan_input now ch inp = (r, out, n, ch1)"
  shows "chord_wf ch1" and "n \<le> length inp" and "r = SCAN_NONE \<Longrightarrow> n = length inp"
    and "r \<noteq> SCAN_NONE \<Longrightarrow> held ch1 = []"
    and "scan_spec (held ch @ inp) = (r, out, if r = SCAN_NONE then held ch1 else drop n inp)"
  using scan_loop_ok [OF assms(1), of 0 inp "[]" now] assms(2)
  by (auto simp: scan_input_def scan_ok_def scan_view_def held_def)

text \<open>
  Claim C23. The scanner is a faithful reader of the keyboard grammar: with the bytes it had
  swallowed before put back in front of the bytes just read, it finds the command the grammar
  finds, forwards the bytes the grammar forwards and keeps the undecided prefix. So how the
  terminal cuts keystrokes into reads never matters. Every byte is accounted for: the bytes
  held before and the bytes consumed are the bytes forwarded, the keys of the command, and the
  bytes still held, in that order; and the forwarding buffer needs room for three bytes more
  than were read.
\<close>

theorem scan_reads_grammar:
  assumes "chord_wf ch" and "scan_input now ch inp = (r, out, n, ch1)"
  shows "scan_spec (held ch @ inp) = (r, out, if r = SCAN_NONE then held ch1 else drop n inp) \<and>
    held ch @ take n inp = out @ chord_keys r @ held ch1 \<and>
    length out \<le> length inp + 3 \<and> chord_wf ch1"
proof -
  note ok = scan_input_ok [OF assms]
  have c: "held ch @ inp = out @ chord_keys r @ (if r = SCAN_NONE then held ch1 else drop n inp)"
    using scan_spec_conserves [of "held ch @ inp"] ok(5) by (simp add: conserves_def)
  have k: "held ch @ take n inp = out @ chord_keys r @ held ch1"
  proof (cases "r = SCAN_NONE")
    case False
    have "(held ch @ take n inp) @ drop n inp = (out @ chord_keys r) @ drop n inp"
      using c False by simp
    then show ?thesis using ok(4) False by (metis append_Nil2 append_assoc append_same_eq)
  qed (use c ok(3) in simp)
  from arg_cong [OF k, of length] have "length out \<le> length inp + 3"
    using length_held [OF assms(1)] by simp
  with ok k show ?thesis by simp
qed

theorem scan_reads_grammar_witness:
  "\<exists>r out n ch1. scan_input (\<lambda>_. 7) chord_zero [0x61, 0x1c, 0x1b, 0x5b, 0x42, 0x62] = (r, out, n, ch1) \<and>
     r = SCAN_PANE_DOWN \<and> out = [0x61] \<and> n = 5 \<and>
     held chord_zero @ take n [0x61, 0x1c, 0x1b, 0x5b, 0x42, 0x62] = out @ chord_keys r @ held ch1"
proof -
  let ?in = "[0x61, 0x1c, 0x1b, 0x5b, 0x42, 0x62] :: byte list"
  obtain r out n ch1 where e: "scan_input (\<lambda>_. 7) chord_zero ?in = (r, out, n, ch1)"
    by (cases "scan_input (\<lambda>_. 7) chord_zero ?in") auto
  have "chord_wf chord_zero" by code_simp
  from scan_reads_grammar [OF this e] have
    "held chord_zero @ take n ?in = out @ chord_keys r @ held ch1" by blast
  moreover have "fst (scan_input (\<lambda>_. 7) chord_zero ?in) = SCAN_PANE_DOWN \<and>
    fst (snd (scan_input (\<lambda>_. 7) chord_zero ?in)) = [0x61] \<and>
    fst (snd (snd (scan_input (\<lambda>_. 7) chord_zero ?in))) = 5" by code_simp
  ultimately show ?thesis using e by auto
qed

text \<open>
  When the timeout fires, exactly the bytes the chord had swallowed go to the
  session and the machine is idle again; before it fires nothing changes.
\<close>

lemma chord_timeout_releases:
  assumes "chord_wf ch" and "chord_timeout t ch = (out, ch1)"
  shows "held ch = out @ held ch1 \<and> chord_wf ch1 \<and>
    (armed ch \<noteq> 0 \<and> 500 \<le> t - armed_at ch \<longrightarrow> armed ch1 = 0 \<and> out = held ch)"
proof (cases "armed ch \<noteq> 0 \<and> 500 \<le> t - armed_at ch")
  case False
  then have "out = []" "ch1 = ch" using assms(2) by (auto simp: chord_timeout_def CHORD_TIMEOUT_MS_def)
  with False assms(1) show ?thesis by simp
next
  case True
  then have ch1: "ch1 = ch\<lparr>armed := 0, npending := 0\<rparr>"
    using assms(2) by (simp add: chord_timeout_def CHORD_TIMEOUT_MS_def)
  have "out = held ch"
    using True assms by (auto simp: chord_timeout_def CHORD_TIMEOUT_MS_def chord_wf_def held_def key_defs)
  moreover have "chord_wf ch1" "held ch1 = []"
    using assms(1) unfolding ch1 by (auto simp: chord_wf_def held_def)
  ultimately show ?thesis by (simp add: ch1)
qed

text \<open>
  The documented size of the forwarding buffer, twice the bytes read, is not
  enough in general: a single byte read while three are held forwards four. And a pane command
  discards what was read after it in the same batch: typing a pane switch and the start of a
  command line in one read sends only the switch.
\<close>

lemma scan_batch_limits:
  "(let ch = \<lparr>armed = 3, armed_at = 0, chord_pending = [0x1c, 0x1b, 0x5b], npending = 3\<rparr> in
    chord_wf ch \<and> length (fst (snd (scan_input now ch [0x71]))) = 4) \<and>
   fst (stdin_read now chord_zero [0x61, 0x1c, 0x6f, 0x6c, 0x73, 0x0a]) =
     [(0x20, [0x61]), (0x18, [1, 0])] \<and>
   fst (snd (stdin_read now chord_zero [0x61, 0x1c, 0x6f, 0x6c, 0x73, 0x0a])) = None"
  by (simp add: chord_wf_def scan_input_def scan_loop.simps chord_flush_def key_defs
      stdin_read_def chord_zero_def chord_command_def pane_frame_def)

section \<open>Sending a frame\<close>

text \<open>
  \<open>send_frame\<close> writes header and payload with \<open>writev\<close> until everything is out. Each
  result of \<open>writev\<close> is a parameter: a count, an interruption or an error. The two I/O
  vectors hold what remains of the header and of the payload. A run of results that is used up
  means the call is still blocked.
\<close>

datatype io_result = Wrote nat | Interrupted | Failed

fun send_loop :: "io_result list \<Rightarrow> nat \<Rightarrow> nat \<Rightarrow> byte list \<Rightarrow> byte list \<Rightarrow> byte list \<Rightarrow>
    (int \<times> byte list) option" where
  "send_loop rs sent tot v0 v1 wire =
    (if sent \<ge> tot then Some (0, wire)
     else case rs of [] \<Rightarrow> None
     | Interrupted # rs' \<Rightarrow> send_loop rs' sent tot v0 v1 wire
     | Failed # rs' \<Rightarrow> Some (- 1, wire)
     | Wrote w # rs' \<Rightarrow>
        (let t0 = min w (length v0); t1 = min (w - t0) (length v1) in
         send_loop rs' (sent + w) tot (drop t0 v0) (drop t1 v1) (wire @ take w (v0 @ v1))))"

definition send_frame :: "io_result list \<Rightarrow> byte \<Rightarrow> byte list \<Rightarrow> (int \<times> byte list) option" where
  "send_frame rs typ payload =
    (let hdr = put_u32 (of_nat (length payload)) @ [typ] in
     send_loop rs 0 (length hdr + length payload) hdr payload [])"

declare send_loop.simps [simp del]

fun progress :: "io_result list \<Rightarrow> nat" where
  "progress [] = 0"
| "progress (Wrote w # rs) = w + progress rs"
| "progress (_ # rs) = progress rs"

lemma take_min_split:
  "take w (xs @ ys) @ drop (min w (length xs)) xs @ drop (min (w - min w (length xs)) (length ys)) ys =
   xs @ ys"
  by (cases "w \<le> length xs") (auto simp: min_def)

lemma send_loop_wire:
  "send_loop rs sent tot v0 v1 wire = Some (rc, out) \<Longrightarrow> tot = length (wire @ v0 @ v1) \<Longrightarrow>
   sent = length wire \<or> v0 @ v1 = [] \<and> tot \<le> sent \<Longrightarrow>
   rc = 0 \<and> out = wire @ v0 @ v1 \<or> rc = - 1 \<and> prefix out (wire @ v0 @ v1) \<and> length out < tot"
proof (induction rs sent tot v0 v1 wire rule: send_loop.induct)
  case (1 rs sent tot v0 v1 wire)
  show ?case
  proof (cases "sent \<ge> tot")
    case True
    with "1.prems" show ?thesis by (subst (asm) send_loop.simps) auto
  next
    case False
    then have sent: "sent = length wire" using "1.prems" by simp
    show ?thesis
    proof (cases rs)
      case Nil
      with "1.prems" False show ?thesis by (subst (asm) send_loop.simps) auto
    next
      case (Cons a rs')
      show ?thesis
      proof (cases a)
        case (Wrote w)
        define t0 t1 where t: "t0 = min w (length v0)" "t1 = min (w - t0) (length v1)"
        have eq: "(wire @ take w (v0 @ v1)) @ drop t0 v0 @ drop t1 v1 = wire @ v0 @ v1"
          using take_min_split [of w v0 v1] t by simp
        have "send_loop rs' (sent + w) tot (drop t0 v0) (drop t1 v1) (wire @ take w (v0 @ v1)) = Some (rc, out)"
          using "1.prems"(1) False Cons Wrote t
          by (subst (asm) send_loop.simps) (simp add: Let_def)
        moreover have "tot = length ((wire @ take w (v0 @ v1)) @ drop t0 v0 @ drop t1 v1)"
          unfolding eq by (rule "1.prems"(2))
        moreover have "sent + w = length (wire @ take w (v0 @ v1)) \<or>
            drop t0 v0 @ drop t1 v1 = [] \<and> tot \<le> sent + w"
          using sent "1.prems"(2) t by (auto simp: min_def split: if_splits)
        ultimately show ?thesis
          using "1.IH"(1) [OF False Cons Wrote t(1) t(2)] unfolding eq by blast
      next
        case Interrupted
        have "send_loop rs' sent tot v0 v1 wire = Some (rc, out)"
          using "1.prems"(1) False Cons Interrupted by (subst (asm) send_loop.simps) simp
        from "1.IH"(2) [OF False Cons Interrupted this] "1.prems"(2,3) show ?thesis by simp
      next
        case Failed
        have "Some (- 1, wire) = Some (rc, out)"
          using "1.prems"(1) False Cons Failed by (subst (asm) send_loop.simps) simp
        with False sent show ?thesis by auto
      qed
    qed
  qed
qed

lemma send_loop_returns:
  "Failed \<notin> set rs \<Longrightarrow> tot \<le> sent + progress rs \<Longrightarrow>
   \<exists>out. send_loop rs sent tot v0 v1 wire = Some (0, out)"
proof (induction rs arbitrary: sent v0 v1 wire)
  case Nil
  then show ?case by (subst send_loop.simps) simp
next
  case (Cons a rs)
  show ?case
  proof (cases a)
    case (Wrote w)
    with Cons.prems have "tot \<le> (sent + w) + progress rs" "Failed \<notin> set rs" by auto
    from Cons.IH [OF this(2,1)] show ?thesis
      using Wrote by (subst send_loop.simps) (simp add: Let_def)
  qed (use Cons in \<open>subst send_loop.simps, auto\<close>)+
qed

text \<open>
  Claim C24. Sending a frame is all or nothing on the wire as far as the peer can tell:
  success means the header and the whole payload were written in order, however the kernel
  cut the writes; failure leaves a strict prefix. If \<open>writev\<close> makes enough progress and
  never fails, the call returns successfully.
\<close>

theorem send_frame_complete:
  assumes "Failed \<notin> set rs \<longrightarrow> 5 + length payload \<le> progress rs"
  shows "(send_frame rs typ payload = Some (rc, wire) \<longrightarrow>
      rc = 0 \<and> wire = encode_frame (typ, payload) \<or>
      rc = - 1 \<and> prefix wire (encode_frame (typ, payload)) \<and>
        length wire < 5 + length payload) \<and>
    (Failed \<notin> set rs \<longrightarrow> (\<exists>wire. send_frame rs typ payload = Some (0, wire)))"
proof -
  let ?h = "put_u32 (of_nat (length payload)) @ [typ]"
  have eq: "send_frame rs typ payload = send_loop rs 0 (5 + length payload) ?h payload []"
    by (simp add: send_frame_def Let_def)
  have en: "encode_frame (typ, payload) = [] @ ?h @ payload"
    by (simp add: encode_frame_def frame_hdr_def)
  have "send_frame rs typ payload = Some (rc, wire) \<Longrightarrow>
      rc = 0 \<and> wire = encode_frame (typ, payload) \<or>
      rc = - 1 \<and> prefix wire (encode_frame (typ, payload)) \<and> length wire < 5 + length payload"
    unfolding eq en by (rule send_loop_wire) simp_all
  moreover have "Failed \<notin> set rs \<Longrightarrow> \<exists>wire. send_frame rs typ payload = Some (0, wire)"
    unfolding eq using assms by (intro send_loop_returns) simp_all
  ultimately show ?thesis by blast
qed

theorem send_frame_complete_witness:
  "\<exists>wire. send_frame [Wrote 2, Interrupted, Wrote 4, Wrote 1] 0x20 [0x61, 0x62] = Some (0, wire) \<and>
     wire = [2, 0, 0, 0, 0x20, 0x61, 0x62]"
proof -
  let ?rs = "[Wrote 2, Interrupted, Wrote 4, Wrote 1]"
  have h: "Failed \<notin> set ?rs \<longrightarrow> 5 + length [0x61, 0x62 :: byte] \<le> progress ?rs" by simp
  have f: "Failed \<notin> set ?rs" by simp
  obtain wire where w: "send_frame ?rs 0x20 [0x61, 0x62] = Some (0, wire)"
    using send_frame_complete [OF h, of "0x20"] f by blast
  with send_frame_complete [OF h, of "0x20" 0 wire] have "wire = encode_frame (0x20, [0x61, 0x62])"
    by force
  with w show ?thesis by (simp add: encode_frame_def frame_hdr_def put_u32_def)
qed

end
