(* ===== verification/Path.thy ===== *)
theory Path
  imports Utf8
begin

text \<open>
  Session names (\<open>src/common/path.c\<close>): the strict UTF-8 decoder, the code points that may not
  appear, and the check every name passes before it becomes a path component. A C string is
  the list of its bytes up to and including the terminator; reading past the end of that list
  is the result \<open>Overrun\<close>.
\<close>

datatype decoded = Bad | Overrun | Cp int "byte list"

definition lead_byte :: "byte \<Rightarrow> (int \<times> nat) option" where
  "lead_byte b =
    (if b < 0x80 then Some (uint b, 0)
     else if b AND 0xE0 = 0xC0 then Some (uint (b AND 0x1F), 1)
     else if b AND 0xF0 = 0xE0 then Some (uint (b AND 0x0F), 2)
     else if b AND 0xF8 = 0xF0 then Some (uint (b AND 0x07), 3)
     else None)"

fun cont_loop :: "nat \<Rightarrow> byte list \<Rightarrow> int \<Rightarrow> decoded" where
  "cont_loop 0 p cp = Cp cp p"
| "cont_loop (Suc n) [] cp = Overrun"
| "cont_loop (Suc n) (b # p) cp =
    (if b AND 0xC0 \<noteq> 0x80 then Bad else cont_loop n p (push_bit 6 cp OR uint (b AND 0x3F)))"

definition shortest :: "int list" where "shortest = [0, 0x80, 0x800, 0x10000]"

definition utf8_next :: "byte list \<Rightarrow> decoded" where
  "utf8_next p = (case p of [] \<Rightarrow> Overrun | b # q \<Rightarrow>
     (case lead_byte b of None \<Rightarrow> Bad | Some (cp, n) \<Rightarrow>
       (case cont_loop n q cp of
          Cp c rest \<Rightarrow>
            if c < shortest ! n then Bad
            else if c > 0x10FFFF then Bad
            else if 0xD800 \<le> c \<and> c \<le> 0xDFFF then Bad
            else Cp c rest
        | r \<Rightarrow> r)))"

definition cp_misrepresents :: "int \<Rightarrow> bool" where
  "cp_misrepresents cp \<longleftrightarrow>
    cp = 0x061C \<or> cp = 0x200E \<or> cp = 0x200F \<or>
    (0x202A \<le> cp \<and> cp \<le> 0x202E) \<or> (0x2066 \<le> cp \<and> cp \<le> 0x2069) \<or>
    cp = 0x00AD \<or> cp = 0x034F \<or> cp = 0x180E \<or>
    (0x200B \<le> cp \<and> cp \<le> 0x200D) \<or> (0x2028 \<le> cp \<and> cp \<le> 0x2029) \<or>
    (0x2060 \<le> cp \<and> cp \<le> 0x2064) \<or> (0xFE00 \<le> cp \<and> cp \<le> 0xFE0F) \<or> cp = 0xFEFF \<or>
    (0xFFF9 \<le> cp \<and> cp \<le> 0xFFFB) \<or> (0xE0000 \<le> cp \<and> cp \<le> 0xE007F)"

lemma cont_loop_length: "cont_loop n q cp = Cp c rest \<Longrightarrow> length rest \<le> length q"
  by (induction n q cp rule: cont_loop.induct) (auto split: if_splits)

lemma utf8_next_length: "utf8_next p = Cp c rest \<Longrightarrow> length rest < length p"
  by (auto simp: utf8_next_def less_Suc_eq_le split: list.splits option.splits decoded.splits if_splits
      dest!: cont_loop_length)

text \<open>The loop of \<open>at_valid_session_name\<close>; \<open>None\<close> means a read past the terminator.\<close>

function name_loop :: "byte list \<Rightarrow> bool option" where
  "name_loop p = (case p of [] \<Rightarrow> None | b # _ \<Rightarrow>
     if b = 0 then Some True
     else if b = 0x2f \<or> b < 0x20 \<or> b = 0x7F then Some False
     else (case utf8_next p of
        Overrun \<Rightarrow> None
      | Bad \<Rightarrow> Some False
      | Cp c rest \<Rightarrow>
          if 0x80 \<le> c \<and> c \<le> 0x9F then Some False
          else if cp_misrepresents c then Some False
          else name_loop rest))"
  by pat_completeness auto

termination
  by (relation "measure length") (auto dest: utf8_next_length)

declare name_loop.simps [simp del]

definition at_valid_session_name :: "byte list option \<Rightarrow> bool option" where
  "at_valid_session_name name = (case name of None \<Rightarrow> Some False
     | Some p \<Rightarrow> (case p of [] \<Rightarrow> None
         | b # _ \<Rightarrow> if b = 0 then Some False else if b = 0x2e then Some False else name_loop p))"

section \<open>Private directories\<close>

text \<open>
  The directories are created and checked through system calls, which are parameters:
  \<open>mkdir d\<close> is the error of creating \<open>d\<close> (\<open>EEXIST\<close> when it is already
  there) and \<open>lstat d\<close> what is found afterwards. The file mode is kept as its twelve
  permission bits. Paths are byte strings without terminator; \<open>snprintf\<close> fits when the
  text and its terminator do.
\<close>

datatype errno = EEXIST | ENOTDIR | EPERM | ENAMETOOLONG | ENOENT | EINVAL | ENOSPC | ENOMEM | EADDRINUSE | EOTHER

record stat_t =
  st_isdir :: bool
  st_uid :: nat
  st_mode :: u32

record os =
  mkdir :: "byte list \<Rightarrow> errno option"
  lstat :: "byte list \<Rightarrow> errno + stat_t"
  getuid :: nat
  env_xdg :: "byte list option"
  env_home :: "byte list option"

definition ensure_private_dir :: "os \<Rightarrow> byte list \<Rightarrow> errno option" where
  "ensure_private_dir k dir =
    (case mkdir k dir of
       Some e \<Rightarrow> if e \<noteq> EEXIST then Some e else (case lstat k dir of Inl e \<Rightarrow> Some e | Inr st \<Rightarrow>
         if \<not> st_isdir st then Some ENOTDIR
         else if st_uid st \<noteq> getuid k then Some EPERM
         else if st_mode st AND 0x3f \<noteq> 0 then Some EPERM else None)
     | None \<Rightarrow> (case lstat k dir of Inl e \<Rightarrow> Some e | Inr st \<Rightarrow>
         if \<not> st_isdir st then Some ENOTDIR
         else if st_uid st \<noteq> getuid k then Some EPERM
         else if st_mode st AND 0x3f \<noteq> 0 then Some EPERM else None))"

text \<open>\<open>/agent-terminal\<close>, \<open>/.agent-terminal\<close>, \<open>/run\<close>, \<open>/sessions\<close> and
  \<open>/default.sock\<close>.\<close>

definition ascii :: "string \<Rightarrow> byte list" where "ascii s = map (\<lambda>c. word_of_nat (of_char c)) s"

definition absolute :: "byte list \<Rightarrow> bool" where "absolute p \<longleftrightarrow> p \<noteq> [] \<and> hd p = 0x2f"

definition joined :: "byte list \<Rightarrow> string \<Rightarrow> nat \<Rightarrow> errno + byte list" where
  "joined p s sz = (if length (p @ ascii s) \<ge> sz then Inl ENAMETOOLONG else Inr (p @ ascii s))"

definition checked_dir :: "os \<Rightarrow> byte list \<Rightarrow> errno + byte list" where
  "checked_dir k d = (case ensure_private_dir k d of Some e \<Rightarrow> Inl e | None \<Rightarrow> Inr d)"

text \<open>\<open><home>/.agent-terminal\<close> and one directory below it, as in \<open>at_sessions_dir\<close> and in the
  second half of \<open>at_runtime_dir\<close>.\<close>

definition home_subdir :: "os \<Rightarrow> string \<Rightarrow> nat \<Rightarrow> errno + byte list" where
  "home_subdir k sub outsz = (case env_home k of None \<Rightarrow> Inl ENOENT | Some home \<Rightarrow>
     if \<not> absolute home then Inl ENOENT
     else (case joined home ''/.agent-terminal'' 512 of Inl e \<Rightarrow> Inl e | Inr base \<Rightarrow>
       (case ensure_private_dir k base of Some e \<Rightarrow> Inl e | None \<Rightarrow>
         (case joined base sub outsz of Inl e \<Rightarrow> Inl e | Inr out \<Rightarrow> checked_dir k out))))"

definition at_runtime_dir :: "os \<Rightarrow> nat \<Rightarrow> errno + byte list" where
  "at_runtime_dir k outsz =
    (if env_xdg k \<noteq> None \<and> absolute (the (env_xdg k)) then
       (case joined (the (env_xdg k)) ''/agent-terminal'' outsz of Inl e \<Rightarrow> Inl e
        | Inr out \<Rightarrow> checked_dir k out)
     else home_subdir k ''/run'' outsz)"

definition at_socket_path :: "os \<Rightarrow> nat \<Rightarrow> errno + byte list" where
  "at_socket_path k outsz = (case at_runtime_dir k 512 of Inl e \<Rightarrow> Inl e
     | Inr dir \<Rightarrow> joined dir ''/default.sock'' outsz)"

definition at_sessions_dir :: "os \<Rightarrow> nat \<Rightarrow> errno + byte list" where
  "at_sessions_dir k outsz = home_subdir k ''/sessions'' outsz"

section \<open>The decoder accepts exactly the encodings\<close>

lemma unat_and_high:
  fixes b :: byte
  assumes "k \<le> 8"
  shows "unat (b AND push_bit k (mask (8 - k))) = 2 ^ k * (unat b div 2 ^ k)"
proof -
  have eq: "b AND push_bit k (mask (8 - k)) = push_bit k (drop_bit k b)"
    by (rule bit_word_eqI) (use assms in \<open>auto simp: bit_simps\<close>)
  have "unat b div 2 ^ k * 2 ^ k < 2 ^ 8"
    by (rule le_less_trans [OF div_times_less_eq_dividend]) simp
  then have "take_bit 8 (unat b div 2 ^ k * 2 ^ k) = unat b div 2 ^ k * 2 ^ k"
    by (rule take_bit_nat_eq_self)
  moreover have "take_bit 8 (unat b) = unat b" by (rule take_bit_nat_eq_self) simp
  ultimately show ?thesis
    unfolding eq unsigned_push_bit_eq unsigned_drop_bit_eq
    by (simp add: push_bit_eq_mult drop_bit_eq_div mult.commute)
qed

lemma div_block: "0 < n \<Longrightarrow> n * (u div n) = n * q \<longleftrightarrow> n * q \<le> u \<and> u < n * q + (n :: nat)"
proof -
  assume n: "0 < n"
  have "u = n * (u div n) + u mod n" "u mod n < n" using n by simp_all
  then have "n * (u div n) \<le> u \<and> u < n * (u div n) + n" by linarith
  moreover have "u div n = q" if "n * q \<le> u" "u < n * q + n" using that by (intro div_nat_eqI) simp_all
  ultimately show ?thesis using n by auto
qed

lemma lead_masks:
  fixes b :: byte
  shows "b AND 0xE0 = 0xC0 \<longleftrightarrow> 0xC0 \<le> unat b \<and> unat b < 0xE0"
    and "b AND 0xF0 = 0xE0 \<longleftrightarrow> 0xE0 \<le> unat b \<and> unat b < 0xF0"
    and "b AND 0xF8 = 0xF0 \<longleftrightarrow> 0xF0 \<le> unat b \<and> unat b < 0xF8"
    and "b AND 0xC0 = 0x80 \<longleftrightarrow> 0x80 \<le> unat b \<and> unat b < 0xC0"
proof -
  have m: "(0xE0 :: byte) = push_bit 5 (mask 3)" "(0xF0 :: byte) = push_bit 4 (mask 4)"
    "(0xF8 :: byte) = push_bit 3 (mask 5)" "(0xC0 :: byte) = push_bit 6 (mask 2)"
    by (simp_all add: push_bit_eq_mult mask_eq_exp_minus_1)
  have u: "unat (b AND 0xE0) = 32 * (unat b div 32)" "unat (b AND 0xF0) = 16 * (unat b div 16)"
    "unat (b AND 0xF8) = 8 * (unat b div 8)" "unat (b AND 0xC0) = 64 * (unat b div 64)"
    using unat_and_high [of 5 b] unat_and_high [of 4 b] unat_and_high [of 3 b] unat_and_high [of 6 b]
    unfolding m by simp_all
  show "b AND 0xE0 = 0xC0 \<longleftrightarrow> 0xC0 \<le> unat b \<and> unat b < 0xE0"
    and "b AND 0xF0 = 0xE0 \<longleftrightarrow> 0xE0 \<le> unat b \<and> unat b < 0xF0"
    and "b AND 0xF8 = 0xF0 \<longleftrightarrow> 0xF0 \<le> unat b \<and> unat b < 0xF8"
    and "b AND 0xC0 = 0x80 \<longleftrightarrow> 0x80 \<le> unat b \<and> unat b < 0xC0"
    unfolding word_unat_eq_iff u
    using div_block [of 32 "unat b" 6] div_block [of 16 "unat b" 14] div_block [of 8 "unat b" 30]
      div_block [of 64 "unat b" 2] by simp_all
qed

lemma low_masks:
  fixes b :: byte
  shows "uint (b AND 0x1F) = int (unat b mod 32)" and "uint (b AND 0x0F) = int (unat b mod 16)"
    and "uint (b AND 0x07) = int (unat b mod 8)" and "uint (b AND 0x3F) = int (unat b mod 64)"
proof -
  have "uint (b AND mask k) = int (unat b mod 2 ^ k)" for k
    by (simp only: take_bit_eq_mask [symmetric] unsigned_take_bit_eq) (simp add: take_bit_eq_mod zmod_int)
  from this [of 5] this [of 4] this [of 3] this [of 6]
  show "uint (b AND 0x1F) = int (unat b mod 32)" and "uint (b AND 0x0F) = int (unat b mod 16)"
    and "uint (b AND 0x07) = int (unat b mod 8)" and "uint (b AND 0x3F) = int (unat b mod 64)"
    by (simp_all add: mask_eq_exp_minus_1)
qed

lemma shift_or: "push_bit 6 (int c) OR int (m mod 64) = int (64 * c + m mod 64)"
proof -
  have "push_bit 6 c OR (m mod 64) = push_bit 6 c + m mod 64"
    using or_push_bit_nat [of "m mod 64" 6 c] by (simp add: push_bit_eq_mult or.commute)
  then have "int (push_bit 6 c OR (m mod 64)) = int (64 * c + m mod 64)"
    by (simp add: push_bit_eq_mult)
  then show ?thesis by (simp add: of_nat_or_eq of_nat_push_bit)
qed

text \<open>The decoder in numbers.\<close>

definition cont_byte :: "byte \<Rightarrow> bool" where "cont_byte b \<longleftrightarrow> 0x80 \<le> unat b \<and> unat b < 0xC0"

fun cont_nat :: "nat \<Rightarrow> byte list \<Rightarrow> nat \<Rightarrow> decoded" where
  "cont_nat 0 p c = Cp (int c) p"
| "cont_nat (Suc n) [] c = Overrun"
| "cont_nat (Suc n) (b # p) c =
    (if cont_byte b then cont_nat n p (64 * c + unat b mod 64) else Bad)"

lemma cont_loop_nat: "cont_loop n p (int c) = cont_nat n p c"
  by (induction n p c rule: cont_nat.induct) (simp_all add: lead_masks low_masks cont_byte_def shift_or)

lemma lead_byte_nat:
  "lead_byte b = (let u = unat b in
    if u < 0x80 then Some (int u, 0) else if 0xC0 \<le> u \<and> u < 0xE0 then Some (int (u mod 32), 1)
    else if 0xE0 \<le> u \<and> u < 0xF0 then Some (int (u mod 16), 2)
    else if 0xF0 \<le> u \<and> u < 0xF8 then Some (int (u mod 8), 3) else None)"
  by (simp add: lead_byte_def lead_masks low_masks word_less_nat_alt Let_def)

lemma mod_of_range:
  fixes u :: nat
  shows "0xC0 \<le> u \<Longrightarrow> u < 0xE0 \<Longrightarrow> u mod 32 = u - 0xC0"
    and "0xE0 \<le> u \<Longrightarrow> u < 0xF0 \<Longrightarrow> u mod 16 = u - 0xE0"
    and "0xF0 \<le> u \<Longrightarrow> u < 0xF8 \<Longrightarrow> u mod 8 = u - 0xF0"
    and "0x80 \<le> u \<Longrightarrow> u < 0xC0 \<Longrightarrow> u mod 64 = u - 0x80"
  by (rule mod_nat_eqI; simp)+

lemma map_unat_inj: "map unat xs = map unat (ys :: byte list) \<Longrightarrow> xs = ys"
  by (erule map_injective) (simp add: inj_def word_unat_eq_iff)

definition checked :: "nat \<Rightarrow> nat \<Rightarrow> byte list \<Rightarrow> decoded" where
  "checked k c rest = (if c < k \<or> 0x10FFFF < c \<or> (0xD800 \<le> c \<and> c \<le> 0xDFFF) then Bad else Cp (int c) rest)"

lemma utf8_next_forms:
  "unat b0 < 0x80 \<Longrightarrow> utf8_next (b0 # r) = checked 0 (unat b0) r"
  "unat b0 = 0xC0 + q \<Longrightarrow> q < 32 \<Longrightarrow> unat b1 = 0x80 + m1 \<Longrightarrow> m1 < 64 \<Longrightarrow>
     utf8_next (b0 # b1 # r) = checked 0x80 (64 * q + m1) r"
  "unat b0 = 0xE0 + q \<Longrightarrow> q < 16 \<Longrightarrow> unat b1 = 0x80 + m1 \<Longrightarrow> m1 < 64 \<Longrightarrow>
     unat b2 = 0x80 + m2 \<Longrightarrow> m2 < 64 \<Longrightarrow>
     utf8_next (b0 # b1 # b2 # r) = checked 0x800 (4096 * q + 64 * m1 + m2) r"
  "unat b0 = 0xF0 + q \<Longrightarrow> q < 8 \<Longrightarrow> unat b1 = 0x80 + m1 \<Longrightarrow> m1 < 64 \<Longrightarrow>
     unat b2 = 0x80 + m2 \<Longrightarrow> m2 < 64 \<Longrightarrow> unat b3 = 0x80 + m3 \<Longrightarrow> m3 < 64 \<Longrightarrow>
     utf8_next (b0 # b1 # b2 # b3 # r) = checked 0x10000 (262144 * q + 4096 * m1 + 64 * m2 + m3) r"
  using of_nat_less_iff [where ?'a = int, of "unat b0" 128]
  by (auto simp: utf8_next_def lead_byte_nat Let_def mod_of_range cont_byte_def cont_loop_nat
      shortest_def checked_def numeral_2_eq_2 numeral_3_eq_3)

lemma emit_nat:
  assumes "is_scalar w"
  defines "n \<equiv> unat w"
  shows "map unat (emit_utf8 w) = (if n < 0x80 then [n]
     else if n < 0x800 then [0xC0 + n div 64, 0x80 + n mod 64]
     else if n < 0x10000 then [0xE0 + n div 4096, 0x80 + n div 64 mod 64, 0x80 + n mod 64]
     else [0xF0 + n div 262144, 0x80 + n div 4096 mod 64, 0x80 + n div 64 mod 64, 0x80 + n mod 64])"
    and "n < 0x110000" and "\<not> (0xD800 \<le> n \<and> n < 0xE000)"
  using assms by (simp_all add: emit_utf8_nat [of w] is_scalar_nat Let_def)

lemma utf8_next_emit:
  assumes "is_scalar w"
  shows "utf8_next (emit_utf8 w @ rest) = Cp (uint w) rest"
proof -
  define n where "n = unat w"
  note e = emit_nat [OF assms, folded n_def]
  have "uint w = int n" by (simp add: n_def)
  then have c: "checked k n rest = Cp (uint w) rest" if "k \<le> n" for k
    using that e(2,3) by (auto simp: checked_def)
  consider "n < 0x80" | "0x80 \<le> n" "n < 0x800" | "0x800 \<le> n" "n < 0x10000" | "0x10000 \<le> n"
    by linarith
  then show ?thesis
  proof cases
    case 1
    with e(1) obtain b0 where "emit_utf8 w = [b0]" "unat b0 = n" by auto
    with 1 c [of 0] utf8_next_forms(1) [of b0 rest] show ?thesis by simp
  next
    case 2
    with e(1) obtain b0 b1 where b: "emit_utf8 w = [b0, b1]" "unat b0 = 0xC0 + n div 64"
      "unat b1 = 0x80 + n mod 64" by auto
    with 2 c [of "0x80"] utf8_next_forms(2) [OF b(2) _ b(3)] show ?thesis by simp
  next
    case 3
    with e(1) obtain b0 b1 b2 where b: "emit_utf8 w = [b0, b1, b2]" "unat b0 = 0xE0 + n div 4096"
      "unat b1 = 0x80 + n div 64 mod 64" "unat b2 = 0x80 + n mod 64" by auto
    with 3 c [of "0x800"] split_sextets3 [of n] utf8_next_forms(3) [OF b(2) _ b(3) _ b(4)]
    show ?thesis by simp
  next
    case 4
    with e(1) obtain b0 b1 b2 b3 where b: "emit_utf8 w = [b0, b1, b2, b3]"
      "unat b0 = 0xF0 + n div 262144" "unat b1 = 0x80 + n div 4096 mod 64"
      "unat b2 = 0x80 + n div 64 mod 64" "unat b3 = 0x80 + n mod 64" by auto
    with 4 c [of "0x10000"] split_sextets4 [of n] e(2) utf8_next_forms(4) [OF b(2) _ b(3) _ b(4) _ b(5)]
    show ?thesis by simp
  qed
qed

text \<open>Conversely, whatever is accepted is the shortest encoding of a scalar value.\<close>

lemma cont_nat_Cp:
  "cont_nat n p c = Cp v rest \<Longrightarrow>
   \<exists>bs. p = bs @ rest \<and> length bs = n \<and> list_all cont_byte bs \<and>
     v = int (foldl (\<lambda>c b. 64 * c + (unat b - 0x80)) c bs)"
proof (induction n p c rule: cont_nat.induct)
  case (3 n b p c)
  then have b: "cont_byte b" "cont_nat n p (64 * c + (unat b - 0x80)) = Cp v rest"
    by (auto simp: cont_byte_def mod_of_range split: if_splits)
  with "3.IH" obtain bs where "p = bs @ rest \<and> length bs = n \<and> list_all cont_byte bs \<and>
     v = int (foldl (\<lambda>c b. 64 * c + (unat b - 0x80)) (64 * c + (unat b - 0x80)) bs)"
    by (auto simp: mod_of_range cont_byte_def [of b])
  with b(1) show ?case by (intro exI [of _ "b # bs"]) simp
qed auto

lemma utf8_next_parts:
  assumes "utf8_next p = Cp v rest"
  obtains b0 q c n where "p = b0 # q" "lead_byte b0 = Some (int c, n)" "cont_nat n q c = Cp v rest"
    "shortest ! n \<le> v" "v \<le> 0x10FFFF" "\<not> (0xD800 \<le> v \<and> v \<le> 0xDFFF)"
proof -
  have int: "lead_byte b = Some (x, n) \<Longrightarrow> x = int (nat x)" for b x n
    by (auto simp: lead_byte_nat Let_def split: if_splits)
  from assms obtain b0 q x n where l: "p = b0 # q" "lead_byte b0 = Some (x, n)" "cont_loop n q x = Cp v rest"
    "shortest ! n \<le> v" "v \<le> 0x10FFFF" "\<not> (0xD800 \<le> v \<and> v \<le> 0xDFFF)"
    by (auto simp: utf8_next_def split: list.splits option.splits decoded.splits if_splits)
  from int [OF l(2)] that [of b0 q "nat x" n] l cont_loop_nat [of n q "nat x"] show ?thesis by simp
qed

lemma sextet_divs:
  fixes m :: nat
  shows "m div 4096 = m div 64 div 64" and "m div 262144 = m div 64 div 64 div 64"
  by (simp_all add: div_mult2_eq [symmetric])

lemma sextet_split:
  fixes a z :: nat
  shows "z < 64 \<Longrightarrow> (64 * a + z) div 64 = a" and "z < 64 \<Longrightarrow> (64 * a + z) mod 64 = z"
  by simp_all

lemma emit_of_bytes:
  assumes "lead_byte b0 = Some (int c, n)" and "length bs = n" and "list_all cont_byte bs"
    and "unat w = foldl (\<lambda>c b. 64 * c + (unat b - 0x80)) c bs"
    and "nat (shortest ! n) \<le> unat w" and "is_scalar w"
  shows "emit_utf8 w = b0 # bs"
proof (rule map_unat_inj)
  note e = emit_nat [OF assms(6)]
  consider "n = 0" "unat b0 < 0x80" "c = unat b0" | "n = 1" "0xC0 \<le> unat b0" "unat b0 < 0xE0" "c = unat b0 - 0xC0"
    | "n = 2" "0xE0 \<le> unat b0" "unat b0 < 0xF0" "c = unat b0 - 0xE0"
    | "n = 3" "0xF0 \<le> unat b0" "unat b0 < 0xF8" "c = unat b0 - 0xF0"
    using assms(1) by (auto simp: lead_byte_nat Let_def mod_of_range simp del: of_nat_unat split: if_splits)
  then show "map unat (emit_utf8 w) = map unat (b0 # bs)"
  proof cases
    case 1
    with assms e show ?thesis by simp
  next
    case 2
    with assms(2) obtain b1 where bs: "bs = [b1]" by (auto simp: length_Suc_conv)
    define x y where "x = unat b0 - 0xC0" and "y = unat b1 - 0x80"
    have w: "unat w = 64 * x + y" "unat b0 = 0xC0 + x" "unat b1 = 0x80 + y" "y < 64" "x < 32" "0x80 \<le> unat w"
      using 2 assms(3-5) bs by (auto simp: x_def y_def cont_byte_def shortest_def)
    then show ?thesis using e(1) bs by simp
  next
    case 3
    with assms(2) obtain b1 b2 where bs: "bs = [b1, b2]" by (auto simp: length_Suc_conv numeral_2_eq_2)
    define x y z where "x = unat b0 - 0xE0" and "y = unat b1 - 0x80" and "z = unat b2 - 0x80"
    have w: "unat w = 64 * (64 * x + y) + z" "unat b0 = 0xE0 + x" "unat b1 = 0x80 + y" "unat b2 = 0x80 + z"
      "y < 64" "x < 16" "z < 64" "0x800 \<le> unat w"
      using 3 assms(3-5) bs by (auto simp: x_def y_def z_def cont_byte_def shortest_def)
    have "unat w div 64 = 64 * x + y" "unat w mod 64 = z" by (simp_all only: w(1) sextet_split w(7))
    then show ?thesis using e(1) bs w by (simp add: sextet_divs)
  next
    case 4
    with assms(2) obtain b1 b2 b3 where bs: "bs = [b1, b2, b3]" by (auto simp: length_Suc_conv numeral_3_eq_3)
    define x y z u where "x = unat b0 - 0xF0" and "y = unat b1 - 0x80" and "z = unat b2 - 0x80"
      and "u = unat b3 - 0x80"
    have w: "unat w = 64 * (64 * (64 * x + y) + z) + u" "unat b0 = 0xF0 + x" "unat b1 = 0x80 + y"
      "unat b2 = 0x80 + z" "unat b3 = 0x80 + u" "y < 64" "x < 8" "z < 64" "u < 64" "0x10000 \<le> unat w"
    proof -
      show "unat w = 64 * (64 * (64 * x + y) + z) + u"
        using assms(4) bs 4(4) by (simp add: x_def y_def z_def u_def)
      have "0x80 \<le> unat b1 \<and> unat b1 < 0xC0 \<and> 0x80 \<le> unat b2 \<and> unat b2 < 0xC0 \<and>
          0x80 \<le> unat b3 \<and> unat b3 < 0xC0" using assms(3) bs by (simp add: cont_byte_def)
      with 4(2,3) show "unat b0 = 0xF0 + x" "unat b1 = 0x80 + y" "unat b2 = 0x80 + z" "unat b3 = 0x80 + u"
        "y < 64" "x < 8" "z < 64" "u < 64" unfolding x_def y_def z_def u_def by linarith+
      show "0x10000 \<le> unat w" using assms(5) 4(1) by (simp add: shortest_def)
    qed
    have "unat w div 64 = 64 * (64 * x + y) + z" "unat w mod 64 = u"
      by (simp_all only: w(1) sextet_split w(9))
    moreover have "(64 * (64 * x + y) + z) div 64 = 64 * x + y" "(64 * (64 * x + y) + z) mod 64 = z"
      by (simp_all only: sextet_split w(8))
    ultimately show ?thesis using e(1) bs w by (simp add: sextet_divs)
  qed
qed

lemma utf8_next_Cp:
  assumes "utf8_next p = Cp v rest"
  shows "\<exists>w. is_scalar w \<and> v = uint w \<and> p = emit_utf8 w @ rest"
proof -
  obtain b0 q c n where p: "p = b0 # q" and l: "lead_byte b0 = Some (int c, n)"
    and k: "cont_nat n q c = Cp v rest" and v: "shortest ! n \<le> v" "v \<le> 0x10FFFF"
      "\<not> (0xD800 \<le> v \<and> v \<le> 0xDFFF)"
    using utf8_next_parts [OF assms] .
  from cont_nat_Cp [OF k] obtain bs where bs: "q = bs @ rest" "length bs = n" "list_all cont_byte bs"
    "v = int (foldl (\<lambda>c b. 64 * c + (unat b - 0x80)) c bs)" by blast
  define m where "m = foldl (\<lambda>c b. 64 * c + (unat b - 0x80)) c bs"
  have m: "v = int m" "m < 0x110000" "\<not> (0xD800 \<le> m \<and> m < 0xE000)"
    using v bs(4) by (auto simp: m_def)
  define w :: u32 where "w = of_nat m"
  have w: "unat w = m" using m(2) by (simp add: w_def unat_of_nat take_bit_nat_eq_self)
  have sc: "is_scalar w" using m w by (simp add: is_scalar_nat)
  have "emit_utf8 w = b0 # bs"
    by (rule emit_of_bytes [OF l bs(2,3) _ _ sc]) (use w m v in \<open>simp_all add: m_def\<close>)
  moreover have "v = uint w" using m(1) w by (simp add: w_def unsigned_of_nat take_bit_nat_eq_self)
  ultimately show ?thesis using sc p bs(1) by auto
qed

section \<open>The name check\<close>

text \<open>A terminated string is never read past its end.\<close>

lemma cont_loop_terminated: "cont_loop n (q @ [0]) c \<noteq> Overrun \<and>
    (\<forall>v rest. cont_loop n (q @ [0]) c = Cp v rest \<longrightarrow> (\<exists>q'. rest = q' @ [0]))"
proof (induction q arbitrary: n c)
  case Nil
  then show ?case by (cases n) auto
next
  case (Cons b q)
  show ?case
  proof (cases n)
    case 0
    have "\<exists>q'. b # q @ [0] = q' @ [0]" by (rule exI [of _ "b # q"]) simp
    with 0 show ?thesis by simp
  next
    case (Suc k)
    with Cons show ?thesis by auto
  qed
qed

lemma utf8_next_terminated:
  "utf8_next (b # q @ [0]) \<noteq> Overrun"
  "utf8_next (b # q @ [0]) = Cp v rest \<Longrightarrow> \<exists>q'. rest = q' @ [0]"
  using cont_loop_terminated [of _ q] by (auto simp: utf8_next_def split: option.splits decoded.splits if_splits)

definition allowed_cp :: "u32 \<Rightarrow> bool" where
  "allowed_cp w \<longleftrightarrow> is_scalar w \<and> 0x20 \<le> w \<and> w \<noteq> 0x2f \<and> \<not> (0x7f \<le> w \<and> w \<le> 0x9f) \<and>
     \<not> cp_misrepresents (uint w)"

lemma emit_hd:
  assumes "is_scalar w"
  shows "emit_utf8 w \<noteq> []" and "unat (hd (emit_utf8 w)) < 0x80 \<longleftrightarrow> unat w < 0x80"
    and "unat w < 0x80 \<Longrightarrow> emit_utf8 w = [ucast w]"
proof -
  note e = emit_nat [OF assms]
  obtain b bs where "emit_utf8 w = b # bs" using e(1) by (cases "emit_utf8 w") (auto split: if_splits)
  then show "emit_utf8 w \<noteq> []" "unat (hd (emit_utf8 w)) < 0x80 \<longleftrightarrow> unat w < 0x80"
    using e(1) by (auto split: if_splits)
  show "unat w < 0x80 \<Longrightarrow> emit_utf8 w = [ucast w]"
    by (simp add: emit_utf8_def word_less_nat_alt)
qed

definition spelled :: "byte list \<Rightarrow> bool" where
  "spelled q \<longleftrightarrow> (\<exists>ws. q = concat (map emit_utf8 ws) \<and> list_all allowed_cp ws)"

lemma spelled_step:
  assumes "q \<noteq> []"
  shows "spelled q \<longleftrightarrow> (\<exists>w q'. allowed_cp w \<and> q = emit_utf8 w @ q' \<and> spelled q')"
proof
  assume "spelled q"
  then obtain ws where ws: "q = concat (map emit_utf8 ws)" "list_all allowed_cp ws" by (auto simp: spelled_def)
  with assms obtain w ws' where "ws = w # ws'" by (cases ws) auto
  with ws show "\<exists>w q'. allowed_cp w \<and> q = emit_utf8 w @ q' \<and> spelled q'" by (auto simp: spelled_def)
next
  assume "\<exists>w q'. allowed_cp w \<and> q = emit_utf8 w @ q' \<and> spelled q'"
  then obtain w ws where "allowed_cp w" "q = emit_utf8 w @ concat (map emit_utf8 ws)" "list_all allowed_cp ws"
    by (auto simp: spelled_def)
  then show "spelled q" unfolding spelled_def by (intro exI [of _ "w # ws"]) simp
qed

text \<open>What the first code point says about the first byte.\<close>

lemma allowed_first_byte:
  assumes "is_scalar w" and "emit_utf8 w @ q' = b # r"
  shows "allowed_cp w \<longleftrightarrow> \<not> (b = 0x2f \<or> b < 0x20 \<or> b = 0x7F) \<and> \<not> (0x80 \<le> uint w \<and> uint w \<le> 0x9F) \<and>
    \<not> cp_misrepresents (uint w)"
proof -
  note e = emit_hd [OF assms(1)]
  have b: "b = hd (emit_utf8 w)" using assms(2) e(1) by (metis hd_append2 list.sel(1))
  have u: "uint w = int (unat w)" by simp
  show ?thesis
  proof (cases "unat w < 0x80")
    case True
    then have "b = ucast w" "unat b = unat w" using b e(3) unat_byte_less
      by (auto simp: unsigned_ucast_eq take_bit_nat_eq_self)
    moreover have "uint w < 128" using True of_nat_less_iff [where ?'a = int, of "unat w" 128] by simp
    ultimately show ?thesis using True assms(1)
      by (auto simp: allowed_cp_def word_le_nat_alt word_less_nat_alt word_unat_eq_iff)
  next
    case False
    then have "0x80 \<le> unat b" using b e(2) by simp
    with False assms(1) show ?thesis
      by (auto simp: allowed_cp_def word_le_nat_alt word_less_nat_alt word_unat_eq_iff uint_nat simp del: of_nat_unat)
  qed
qed

lemma name_loop_spec:
  "0 \<notin> set q \<Longrightarrow> name_loop (q @ [0]) = Some (spelled q)"
proof (induction "length q" arbitrary: q rule: less_induct)
  case less
  show ?case
  proof (cases q)
    case Nil
    then show ?thesis by (subst name_loop.simps) (auto simp: spelled_def intro: exI [of _ "[]"])
  next
    case (Cons b r)
    have first: "spelled q \<longleftrightarrow> (\<exists>w q'. is_scalar w \<and> q = emit_utf8 w @ q' \<and> spelled q' \<and>
        \<not> (b = 0x2f \<or> b < 0x20 \<or> b = 0x7F) \<and> \<not> (0x80 \<le> uint w \<and> uint w \<le> 0x9F) \<and>
        \<not> cp_misrepresents (uint w))"
    proof -
      have eqv: "allowed_cp w \<longleftrightarrow> is_scalar w \<and> \<not> (b = 0x2f \<or> b < 0x20 \<or> b = 0x7F) \<and>
          \<not> (0x80 \<le> uint w \<and> uint w \<le> 0x9F) \<and> \<not> cp_misrepresents (uint w)" if "q = emit_utf8 w @ q'" for w q'
      proof (cases "is_scalar w")
        case True
        with allowed_first_byte [OF True that [symmetric, unfolded Cons]] show ?thesis by blast
      qed (simp add: allowed_cp_def)
      have ne: "q \<noteq> []" using Cons by simp
      show ?thesis unfolding spelled_step [OF ne]
      proof (intro ex_cong1)
        fix w q'
        show "(allowed_cp w \<and> q = emit_utf8 w @ q' \<and> spelled q') \<longleftrightarrow> (is_scalar w \<and> q = emit_utf8 w @ q' \<and>
            spelled q' \<and> \<not> (b = 0x2f \<or> b < 0x20 \<or> b = 0x7F) \<and> \<not> (0x80 \<le> uint w \<and> uint w \<le> 0x9F) \<and>
            \<not> cp_misrepresents (uint w))"
          using eqv [of w q'] by argo
      qed
    qed
    have dec: "utf8_next (b # r @ [0]) = Cp (uint w) (q' @ [0])" if "is_scalar w" "q = emit_utf8 w @ q'" for w q'
    proof -
      have "b # r @ [0] = emit_utf8 w @ q' @ [0]" using arg_cong [OF that(2), of "\<lambda>z. z @ [0]"] Cons by simp
      then show ?thesis by (simp only: utf8_next_emit [OF that(1)])
    qed
    have b0: "b \<noteq> 0" using less.prems Cons by auto
    show ?thesis
    proof (cases "utf8_next (b # r @ [0])")
      case Overrun
      then show ?thesis using utf8_next_terminated(1) by blast
    next
      case Bad
      then have "\<not> spelled q" using first dec by auto
      with Bad b0 Cons show ?thesis by (subst name_loop.simps) simp
    next
      case (Cp v rest)
      obtain w where w: "is_scalar w" "v = uint w" "b # r @ [0] = emit_utf8 w @ rest"
        using utf8_next_Cp [OF Cp] by blast
      obtain q' where q': "rest = q' @ [0]" using utf8_next_terminated(2) [OF Cp] by blast
      have q: "q = emit_utf8 w @ q'" using w(3) q' Cons by simp
      have uniq: "w' = w \<and> q'' = q'" if "is_scalar w'" "q = emit_utf8 w' @ q''" for w' q''
        using dec [OF that] dec [OF w(1) q] by (simp add: word_uint_eq_iff)
      have "length q' < length q" using q emit_hd(1) [OF w(1)] by simp
      moreover have "0 \<notin> set q'" using less.prems q by simp
      ultimately have IH: "name_loop (q' @ [0]) = Some (spelled q')" by (rule less.hyps)
      have "spelled q \<longleftrightarrow> spelled q' \<and> \<not> (b = 0x2f \<or> b < 0x20 \<or> b = 0x7F) \<and>
          \<not> (0x80 \<le> v \<and> v \<le> 0x9F) \<and> \<not> cp_misrepresents v"
        using first uniq w(1,2) q by blast
      with Cp q' IH b0 Cons show ?thesis by (subst name_loop.simps) auto
    qed
  qed
qed

text \<open>
  Claim C33. The check of session names is exact. A terminated string is never read past its
  terminator, and it is accepted precisely when it is the shortest UTF-8 encoding of a non-empty
  sequence of Unicode scalar values that does not start with a dot and contains no slash, no
  control character (C0, DEL or C1) and none of the reordering or invisible code points. So an
  accepted name is one path component, is not hidden, and has a single spelling.
\<close>

theorem session_name_exact:
  assumes "0 \<notin> set name"
  shows "at_valid_session_name (Some (name @ [0])) =
    Some (name \<noteq> [] \<and> hd name \<noteq> 0x2e \<and>
      (\<exists>ws. name = concat (map emit_utf8 ws) \<and> list_all allowed_cp ws))"
proof (cases name)
  case Nil
  then show ?thesis by (simp add: at_valid_session_name_def)
next
  case (Cons b r)
  with assms name_loop_spec [OF assms] show ?thesis
    by (auto simp: at_valid_session_name_def spelled_def)
qed

theorem session_name_exact_witness:
  "at_valid_session_name (Some ([0x61, 0xc3, 0xa9] @ [0])) = Some True \<and>
   (\<exists>ws. [0x61, 0xc3, 0xa9] = concat (map emit_utf8 ws) \<and> list_all allowed_cp ws)"
proof -
  have "at_valid_session_name (Some ([0x61, 0xc3, 0xa9] @ [0])) = Some True" by code_simp
  with session_name_exact [of "[0x61, 0xc3, 0xa9]"] show ?thesis by simp
qed

section \<open>Directories are private\<close>

definition private_dir :: "os \<Rightarrow> byte list \<Rightarrow> bool" where
  "private_dir k d \<longleftrightarrow> (\<exists>st. lstat k d = Inr st \<and> st_isdir st \<and> st_uid st = getuid k \<and> st_mode st AND 0x3f = 0)"

lemma ensure_private_dir_private: "ensure_private_dir k d = None \<Longrightarrow> private_dir k d"
  by (auto simp: ensure_private_dir_def private_dir_def split: option.splits sum.splits if_splits)

lemma checked_dir_private: "checked_dir k d = Inr out \<Longrightarrow> private_dir k out \<and> out = d"
  by (auto simp: checked_dir_def ensure_private_dir_private split: option.splits)

lemma home_subdir_private: "home_subdir k sub n = Inr out \<Longrightarrow> private_dir k out \<and> length out < n \<and> absolute out"
  by (auto simp: home_subdir_def joined_def absolute_def hd_append
      split: option.splits sum.splits if_splits dest!: checked_dir_private)

text \<open>
  Claim C34. The daemon only ever uses directories it has checked: whatever directory is
  returned is absolute, not cut off by its buffer, and was found to be a real directory (not a
  link), owned by the user and without any permission for group or others. The socket lies
  directly inside such a directory.
\<close>

theorem runtime_paths_private:
  "(case at_runtime_dir k n of Inl e \<Rightarrow> True | Inr d \<Rightarrow> private_dir k d \<and> absolute d \<and> length d < n) \<and>
   (case at_sessions_dir k n of Inl e \<Rightarrow> True | Inr d \<Rightarrow> private_dir k d \<and> absolute d \<and> length d < n) \<and>
   (case at_socket_path k n of Inl e \<Rightarrow> True
    | Inr p \<Rightarrow> length p < n \<and> (\<exists>d. p = d @ ascii ''/default.sock'' \<and> private_dir k d \<and> absolute d))"
proof -
  have rt: "private_dir k d \<and> absolute d \<and> length d < n" if "at_runtime_dir k n = Inr d" for n d
    using that by (auto simp: at_runtime_dir_def joined_def absolute_def hd_append
        split: sum.splits if_splits dest!: checked_dir_private dest: home_subdir_private [unfolded absolute_def])
  show ?thesis
    using rt home_subdir_private [of k "''/sessions''" n]
    by (auto simp: at_sessions_dir_def at_socket_path_def joined_def split: sum.splits if_splits)
qed

end
