(* ===== verification/Scrollback.thy ===== *)
theory Scrollback
  imports Sb_Log Scan Vt_Dispatch Path
begin

unbundle bit_operations_syntax

text \<open>
  The scrollback store of \<open>src/common/scrollback.c\<close>: lines rendered to text, a ring of recent
  lines in memory, and the log with its two generations and their sparse indexes. The files of
  the pane are part of the state: \<open>file_cur\<close> is the log, \<open>file_old\<close> the rotated generation.
  The results of \<open>write\<close> are a parameter of the operations that flush; when the given results
  are used up, every further \<open>write\<close> succeeds in full. \<open>rename\<close> and \<open>open\<close> succeed.
\<close>

section \<open>Rendering a line\<close>

text \<open>\<open>PUT\<close> returns from \<open>serialize_line\<close> as soon as a piece does not fit, so the text is the
  longest run of pieces, from the start, that fits the buffer.\<close>

fun fill :: "nat \<Rightarrow> byte list \<Rightarrow> byte list list \<Rightarrow> byte list" where
  "fill cap acc [] = acc"
| "fill cap acc (p # ps) = (if length acc + length p > cap then acc else fill cap (acc @ p) ps)"

definition sgr :: "nat \<Rightarrow> byte list" where
  "sgr n = [0x1b, 0x5b] @ dec_digits n @ [0x6d]"

definition color_piece :: "nat \<Rightarrow> u32 \<Rightarrow> byte list" where
  "color_piece base c =
    (if c AND 0xFF000000 = 0x01000000
     then [0x1b, 0x5b] @ dec_digits base @ ascii '';5;'' @ dec_digits (unat (c AND 0xFF)) @ [0x6d]
     else [0x1b, 0x5b] @ dec_digits base @ ascii '';2;'' @ dec_digits (unat (drop_bit 16 c AND 0xFF)) @
          [0x3b] @ dec_digits (unat (drop_bit 8 c AND 0xFF)) @ [0x3b] @ dec_digits (unat (c AND 0xFF)) @ [0x6d])"

definition pen_pieces :: "u16 \<Rightarrow> u32 \<Rightarrow> u32 \<Rightarrow> byte list list" where
  "pen_pieces a fg bg =
    [sgr 0] @
    (if a AND VT_ATTR_BOLD \<noteq> 0 then [sgr 1] else []) @
    (if a AND VT_ATTR_DIM \<noteq> 0 then [sgr 2] else []) @
    (if a AND VT_ATTR_ITALIC \<noteq> 0 then [sgr 3] else []) @
    (if a AND VT_ATTR_UNDERLINE \<noteq> 0 then [sgr 4] else []) @
    (if a AND VT_ATTR_REVERSE \<noteq> 0 then [sgr 7] else []) @
    (if a AND VT_ATTR_STRIKE \<noteq> 0 then [sgr 9] else []) @
    (if fg \<noteq> VT_COLOR_DEFAULT then [color_piece 38 fg] else []) @
    (if bg \<noteq> VT_COLOR_DEFAULT then [color_piece 48 bg] else [])"

text \<open>The combining mark uses the two- and three-byte forms only.\<close>

definition mark_piece :: "u16 \<Rightarrow> byte list" where
  "mark_piece m =
    (if m < 0x800 then [ucast (0xc0 OR drop_bit 6 m), ucast (0x80 OR (m AND 0x3f))]
     else [ucast (0xe0 OR drop_bit 12 m), ucast (0x80 OR (drop_bit 6 m AND 0x3f)),
           ucast (0x80 OR (m AND 0x3f))])"

definition is_spacer :: "cell \<Rightarrow> bool" where
  "is_spacer c \<longleftrightarrow> cattrs c AND VT_ATTR_WIDE_SPACER \<noteq> 0"

definition public_attrs :: "u16 \<Rightarrow> u16" where
  "public_attrs a = a AND NOT (VT_ATTR_WIDE OR VT_ATTR_WIDE_SPACER)"

fun cell_pieces :: "u16 \<Rightarrow> u32 \<Rightarrow> u32 \<Rightarrow> cell list \<Rightarrow> byte list list" where
  "cell_pieces attrs fg bg [] =
    (if attrs \<noteq> 0 \<or> fg \<noteq> VT_COLOR_DEFAULT \<or> bg \<noteq> VT_COLOR_DEFAULT then [sgr 0] else [])"
| "cell_pieces attrs fg bg (c # cs) =
    (if is_spacer c then cell_pieces attrs fg bg cs
     else let a = public_attrs (cattrs c);
              pen = (if a \<noteq> attrs \<or> cfg c \<noteq> fg \<or> cbg c \<noteq> bg then pen_pieces a (cfg c) (cbg c) else []);
              cp = (if ccp c \<noteq> 0 then ccp c else 0x20)
          in pen @ [emit_utf8 cp] @ (if ccomb c \<noteq> 0 then [mark_piece (ccomb c)] else []) @
             cell_pieces a (cfg c) (cbg c) cs)"

definition trim_line :: "cell list \<Rightarrow> cell list" where
  "trim_line cs = rev (dropWhile (\<lambda>c. ccp c = 0 \<and> \<not> is_spacer c) (rev cs))"

definition serialize_line :: "cell list \<Rightarrow> nat \<Rightarrow> byte list" where
  "serialize_line cs cap = fill cap [] (cell_pieces 0 VT_COLOR_DEFAULT VT_COLOR_DEFAULT (trim_line cs))"

section \<open>The store\<close>

record mem_line =
  ml_text :: "byte list"
  ml_seq :: u64

record scrollback =
  next_seq :: u64
  file_max :: nat
  file_size :: nat
  sb_ring :: "mem_line list"
  mem_lines :: nat
  ring_head :: nat
  ring_count :: nat
  idx_cur :: sb_index
  idx_old :: sb_index
  wbuf :: "byte list"
  disk_bytes_read :: nat
  disk_recs_swept :: nat
  file_cur :: "byte list"
  file_old :: "byte list option"

definition WBUF_SIZE :: nat where "WBUF_SIZE = 65536"
definition SB_MEM_LINES_DEFAULT :: nat where "SB_MEM_LINES_DEFAULT = 10000"
definition SB_FILE_MAX_DEFAULT :: nat where "SB_FILE_MAX_DEFAULT = 33554432"

definition ring_put :: "scrollback \<Rightarrow> line_rec \<Rightarrow> scrollback" where
  "ring_put sb r =
    (let slot = \<lparr>ml_text = snd r, ml_seq = fst r\<rparr> in
     if ring_count sb = mem_lines sb
     then sb\<lparr>sb_ring := (sb_ring sb)[ring_head sb := slot],
             ring_head := (ring_head sb + 1) mod mem_lines sb\<rparr>
     else sb\<lparr>sb_ring := (sb_ring sb)[(ring_head sb + ring_count sb) mod mem_lines sb := slot],
             ring_count := ring_count sb + 1\<rparr>)"

fun drain_loop :: "io_result list \<Rightarrow> nat \<Rightarrow> nat \<Rightarrow> nat" where
  "drain_loop rs off n = (if off \<ge> n then off
     else case rs of [] \<Rightarrow> n
     | Interrupted # rs \<Rightarrow> drain_loop rs off n
     | Failed # rs \<Rightarrow> off
     | Wrote w # rs \<Rightarrow> drain_loop rs (off + min w (n - off)) n)"

definition wbuf_drain :: "io_result list \<Rightarrow> scrollback \<Rightarrow> scrollback" where
  "wbuf_drain ws sb =
    (let off = drain_loop ws 0 (length (wbuf sb)) in
     sb\<lparr>file_cur := file_cur sb @ take off (wbuf sb), file_size := file_size sb + off, wbuf := []\<rparr>)"

definition maybe_rotate :: "io_result list \<Rightarrow> scrollback \<Rightarrow> scrollback" where
  "maybe_rotate ws sb =
    (if file_size sb + length (wbuf sb) < file_max sb then sb
     else let sb = wbuf_drain ws sb in
       sb\<lparr>file_old := Some (file_cur sb), idx_old := idx_cur sb,
          idx_cur := idx_reset\<lparr>have_gen := True\<rparr>, file_cur := [], file_size := 0\<rparr>)"

text \<open>\<open>ws 0\<close> and \<open>ws 1\<close> are the results of the writes of the two flushes a push may do.\<close>

definition sb_push_line :: "(nat \<Rightarrow> io_result list) \<Rightarrow> scrollback \<Rightarrow> cell list \<Rightarrow> scrollback" where
  "sb_push_line ws sb cs =
    (let line = serialize_line cs SB_LINE_MAX; seq = next_seq sb;
         sb = ring_put (sb\<lparr>next_seq := seq + 1\<rparr>) (seq, line);
         record = enc_rec (seq, line);
         ix = idx_cur sb;
         ix = (if nrec ix mod SB_INDEX_STEP = 0
               then idx_append (if nrec ix = 0 then ix\<lparr>first_seq := seq\<rparr> else ix)
                      (file_size sb + length (wbuf sb))
               else ix);
         sb = sb\<lparr>idx_cur := ix\<lparr>nrec := nrec ix + 1\<rparr>\<rparr>;
         sb = (if length (wbuf sb) + 16 + length line > WBUF_SIZE then wbuf_drain (ws 0) sb else sb);
         sb = sb\<lparr>wbuf := wbuf sb @ record\<rparr>
     in maybe_rotate (ws 1) sb)"

definition sb_total_lines :: "scrollback \<Rightarrow> u64" where
  "sb_total_lines sb = next_seq sb"

definition sb_flush :: "io_result list \<Rightarrow> scrollback \<Rightarrow> scrollback" where
  "sb_flush ws sb = wbuf_drain ws sb"

section \<open>Fetching lines\<close>

fun ring_scan :: "mem_line list \<Rightarrow> u64 \<Rightarrow> nat \<Rightarrow> line_rec list" where
  "ring_scan [] start k = []"
| "ring_scan (l # ls) start k = (if k = 0 then []
     else if ml_seq l < start then ring_scan ls start k
     else (ml_seq l, ml_text l) # ring_scan ls start (k - 1))"

text \<open>\<open>out_cap\<close> bounds the reference array of the caller.\<close>

definition sb_fetch :: "scrollback \<Rightarrow> u64 \<Rightarrow> nat \<Rightarrow> nat \<Rightarrow> line_rec list" where
  "sb_fetch sb start max_lines out_cap =
    ring_scan (map (\<lambda>i. sb_ring sb ! ((ring_head sb + i) mod mem_lines sb)) [0..<ring_count sb])
      start (min max_lines out_cap)"

text \<open>The binary search of \<open>idx_seek\<close> on 32-bit indexes; sequence numbers are compared as
  64-bit words.\<close>

function idx_search :: "sb_index \<Rightarrow> u64 \<Rightarrow> nat \<Rightarrow> nat \<Rightarrow> nat \<Rightarrow> nat" where
  "idx_search ix want lo hi pick =
    (if lo > hi then pick
     else let mid = lo + (hi - lo) div 2 in
       if first_seq ix + word_of_nat (mid * SB_INDEX_STEP) \<le> want
       then (if mid = length (ix_off ix) - 1 then mid else idx_search ix want (mid + 1) hi mid)
       else (if mid = 0 then pick else idx_search ix want lo (mid - 1) pick))"
  by pat_completeness auto

termination
  by (relation "measure (\<lambda>(ix, want, lo, hi, pick). Suc hi - lo)") auto

declare idx_search.simps [simp del]

definition idx_seek :: "sb_index \<Rightarrow> u64 \<Rightarrow> nat" where
  "idx_seek ix want = (if ix_off ix = [] then 0
     else ix_off ix ! idx_search ix want 0 (length (ix_off ix) - 1) 0)"

text \<open>The sweep to the first record at or after \<open>start\<close>: the offset reached, the record there
  and the counters.\<close>

function sweep :: "byte list \<Rightarrow> u64 \<Rightarrow> nat \<Rightarrow> nat \<times> nat \<Rightarrow> nat \<times> (nat \<times> line_rec) option \<times> nat \<times> nat" where
  "sweep file start off st = (case read_rec file off of
       None \<Rightarrow> (off, None, fst st + rec_cost file off, snd st)
     | Some (n, seq, tx) \<Rightarrow>
         if start \<le> seq then (off, Some (n, seq, tx), fst st + rec_cost file off, snd st)
         else sweep file start (off + n) (fst st + rec_cost file off, snd st + 1))"
  by pat_completeness auto

termination
  by (relation "measure (\<lambda>(file, start, off, st). length file - off)") (auto dest!: read_rec_size)

declare sweep.simps [simp del]

function emit_loop :: "byte list \<Rightarrow> nat \<Rightarrow> (nat \<times> line_rec) option \<Rightarrow> nat \<Rightarrow> nat \<Rightarrow> nat \<Rightarrow> line_rec list \<Rightarrow>
    nat \<Rightarrow> line_rec list \<times> nat \<times> nat" where
  "emit_loop file off step lim bufsz used acc cost = (case step of
       None \<Rightarrow> (acc, used, cost)
     | Some (n, seq, tx) \<Rightarrow>
         if length acc \<ge> lim \<or> used + length tx > bufsz then (acc, used, cost)
         else emit_loop file (off + n) (read_rec file (off + n)) lim bufsz (used + length tx)
                (acc @ [(seq, tx)]) (cost + rec_cost file (off + n)))"
  by pat_completeness auto

termination
  by (relation "measure (\<lambda>(file, off, step, lim, bufsz, used, acc, cost). lim - length acc)") auto

declare emit_loop.simps [simp del]

text \<open>\<open>lim\<close> is the smaller of \<open>max_lines\<close> and \<open>out_cap\<close>, which the code tests together. A
  generation whose file does not exist serves nothing.\<close>

definition fetch_from_gen :: "byte list option \<Rightarrow> sb_index \<Rightarrow> u64 \<Rightarrow> nat \<Rightarrow> nat \<Rightarrow> nat \<Rightarrow> line_rec list \<Rightarrow>
    nat \<times> nat \<Rightarrow> line_rec list \<times> nat \<times> (nat \<times> nat)" where
  "fetch_from_gen fl ix start lim bufsz used acc st =
    (if \<not> have_gen ix \<or> nrec ix = 0 then (acc, used, st)
     else case fl of None \<Rightarrow> (acc, used, st)
     | Some file \<Rightarrow>
        let off0 = idx_seek ix start in
        (case sweep file start off0 st of (off, step, st) \<Rightarrow>
          (case (if step \<noteq> None \<or> off \<noteq> off0 \<or> off = 0 then (off, step, st) else sweep file start 0 st) of
             (off, step, st) \<Rightarrow>
               (case emit_loop file off step lim bufsz used acc (fst st) of
                  (acc, used, cost) \<Rightarrow> (acc, used, (cost, snd st))))))"

definition sb_fetch_deep :: "io_result list \<Rightarrow> scrollback \<Rightarrow> u64 \<Rightarrow> nat \<Rightarrow> nat \<Rightarrow> nat \<Rightarrow> line_rec list \<times> scrollback" where
  "sb_fetch_deep ws sb start max_lines out_cap bufsz =
    (if ring_count sb > 0 \<and> ml_seq (sb_ring sb ! ring_head sb) \<le> start
     then (sb_fetch sb start max_lines out_cap, sb)
     else let sb = sb_flush ws sb; lim = min max_lines out_cap;
              st = (disk_bytes_read sb, disk_recs_swept sb);
              (acc, used, st) =
                (if nrec (idx_old sb) > 0 \<and> start < first_seq (idx_old sb) + word_of_nat (nrec (idx_old sb))
                 then fetch_from_gen (file_old sb) (idx_old sb) start lim bufsz 0 [] st
                 else ([], 0, st));
              (acc, used, st) =
                (if length acc < lim
                 then fetch_from_gen (Some (file_cur sb)) (idx_cur sb)
                        (if acc \<noteq> [] then fst (last acc) + 1 else start) lim bufsz used acc st
                 else (acc, used, st))
          in (acc, sb\<lparr>disk_bytes_read := fst st, disk_recs_swept := snd st\<rparr>))"

section \<open>Opening and reading a log\<close>

definition sb_open_pane :: "byte list option \<Rightarrow> byte list option \<Rightarrow> nat \<Rightarrow> nat \<Rightarrow> scrollback" where
  "sb_open_pane old cur0 ml fm =
    (let ml = (if ml \<noteq> 0 then ml else SB_MEM_LINES_DEFAULT);
         fm = (if fm \<noteq> 0 then fm else SB_FILE_MAX_DEFAULT);
         (next_old, old_size, tail_old, ix_old) = scan_log old ml;
         (next_cur, valid, tail_cur, ix_cur) = scan_log cur0 ml;
         file = take valid (case cur0 of None \<Rightarrow> [] | Some f \<Rightarrow> f);
         sb = \<lparr>next_seq = (if next_old < next_cur then next_cur else next_old), file_max = fm,
               file_size = valid, sb_ring = replicate ml \<lparr>ml_text = [], ml_seq = 0\<rparr>, mem_lines = ml,
               ring_head = 0, ring_count = 0, idx_cur = ix_cur\<lparr>have_gen := True\<rparr>, idx_old = ix_old,
               wbuf = [], disk_bytes_read = 0, disk_recs_swept = 0, file_cur = file, file_old = old\<rparr>;
         sb = (case old of None \<Rightarrow> sb | Some f \<Rightarrow> foldl ring_put sb (read_one_log_from f tail_old))
     in foldl ring_put sb (read_one_log_from file tail_cur))"

definition sb_read_log_pane :: "byte list option \<Rightarrow> byte list option \<Rightarrow> int \<times> line_rec list" where
  "sb_read_log_pane old cur0 =
    (let a = (case old of None \<Rightarrow> None | Some f \<Rightarrow> Some (read_one_log_from f 0));
         b = (case cur0 of None \<Rightarrow> None | Some f \<Rightarrow> Some (read_one_log_from f 0));
         lines = (case a of None \<Rightarrow> [] | Some xs \<Rightarrow> xs) @ (case b of None \<Rightarrow> [] | Some xs \<Rightarrow> xs)
     in (if a \<noteq> None \<or> b \<noteq> None then int (length lines) else - 1, lines))"

definition sb_fetch_stats :: "scrollback \<Rightarrow> nat \<times> nat" where
  "sb_fetch_stats sb = (disk_bytes_read sb, disk_recs_swept sb)"

text \<open>What closing a store leaves on disk: the rotated and the current generation.\<close>

definition sb_close :: "io_result list \<Rightarrow> scrollback \<Rightarrow> byte list option \<times> byte list" where
  "sb_close ws sb = (let sb = wbuf_drain ws sb in (file_old sb, file_cur sb))"

text \<open>The directory of a session, and the log of a pane in it, with the truncation of
  \<open>snprintf\<close>. \<open>fs\<close> gives the contents of the files that exist.\<close>

definition session_dir :: "os \<Rightarrow> byte list \<Rightarrow> nat \<Rightarrow> errno + byte list" where
  "session_dir k name outsz =
    (if at_valid_session_name (Some (name @ [0])) \<noteq> Some True then Inl EINVAL
     else case at_sessions_dir k 512 of Inl e \<Rightarrow> Inl e
     | Inr base \<Rightarrow> let path = base @ [0x2f] @ name in
         if length path \<ge> outsz then Inl ENAMETOOLONG
         else case mkdir k path of Some e \<Rightarrow> if e \<noteq> EEXIST then Inl e else Inr path | None \<Rightarrow> Inr path)"

definition pane_log :: "byte list \<Rightarrow> byte \<Rightarrow> nat \<Rightarrow> byte list" where
  "pane_log dir pane_id sz = take (sz - 1)
    (if pane_id = 0 then dir @ ascii ''/scrollback.log''
     else dir @ ascii ''/pane'' @ dec_digits (unat pane_id) @ ascii ''.log'')"

definition sb_open_named :: "os \<Rightarrow> (byte list \<Rightarrow> byte list option) \<Rightarrow> byte list \<Rightarrow> byte \<Rightarrow> nat \<Rightarrow> nat \<Rightarrow> scrollback option" where
  "sb_open_named k fs name pane_id ml fm = (case session_dir k name 600 of Inl e \<Rightarrow> None
     | Inr dir \<Rightarrow> let path = pane_log dir pane_id 640 in
         Some (sb_open_pane (fs (take 647 (path @ ascii ''.1''))) (fs path) ml fm))"

definition sb_read_log_named :: "os \<Rightarrow> (byte list \<Rightarrow> byte list option) \<Rightarrow> byte list \<Rightarrow> byte \<Rightarrow> int \<times> line_rec list" where
  "sb_read_log_named k fs name pane_id = (case session_dir k name 600 of Inl e \<Rightarrow> (- 1, [])
     | Inr dir \<Rightarrow> let base = pane_log dir pane_id 664 in
         sb_read_log_pane (fs (take 671 (base @ ascii ''.1''))) (fs base))"

text \<open>The names of the sessions that have a log, each with its terminating 0, as far as the
  buffer reaches. \<open>entries\<close> is the directory listing, or \<open>None\<close> when it cannot be opened.\<close>

definition has_log :: "(byte list \<Rightarrow> byte list option) \<Rightarrow> byte list \<Rightarrow> byte list \<Rightarrow> bool" where
  "has_log fs base e =
    (let log = take 1199 (base @ [0x2f] @ e @ ascii ''/scrollback.log''); log1 = take 1199 (log @ ascii ''.1'')
     in fs log \<noteq> None \<or> fs log1 \<noteq> None)"

fun list_logs_loop :: "(byte list \<Rightarrow> byte list option) \<Rightarrow> byte list \<Rightarrow> byte list list \<Rightarrow> nat \<Rightarrow> byte list \<Rightarrow> nat \<Rightarrow>
    nat \<times> byte list" where
  "list_logs_loop fs base [] bufsz buf count = (count, buf)"
| "list_logs_loop fs base (e # es) bufsz buf count =
    (if e \<noteq> [] \<and> hd e = 0x2e then list_logs_loop fs base es bufsz buf count
     else if \<not> has_log fs base e then list_logs_loop fs base es bufsz buf count
     else if length buf + length e + 1 > bufsz then (count, buf)
     else list_logs_loop fs base es bufsz (buf @ e @ [0]) (count + 1))"

definition sb_list_logs :: "os \<Rightarrow> (byte list \<Rightarrow> byte list option) \<Rightarrow> byte list list option \<Rightarrow> nat \<Rightarrow> nat \<times> byte list" where
  "sb_list_logs k fs entries bufsz = (case at_sessions_dir k 512 of Inl e \<Rightarrow> (0, [])
     | Inr base \<Rightarrow> (case entries of None \<Rightarrow> (0, []) | Some es \<Rightarrow> list_logs_loop fs base es bufsz [] 0))"

section \<open>The ring\<close>

lemma length_fill: "length acc \<le> cap \<Longrightarrow> length (fill cap acc ps) \<le> cap"
  by (induction ps arbitrary: acc) simp_all

lemma length_serialize_line: "length (serialize_line cs cap) \<le> cap"
  by (simp add: serialize_line_def length_fill)

definition ring_lines :: "scrollback \<Rightarrow> line_rec list" where
  "ring_lines sb = map (\<lambda>i. let l = sb_ring sb ! ((ring_head sb + i) mod mem_lines sb) in (ml_seq l, ml_text l))
     [0..<ring_count sb]"

definition ring_ok :: "scrollback \<Rightarrow> bool" where
  "ring_ok sb \<longleftrightarrow> 0 < mem_lines sb \<and> length (sb_ring sb) = mem_lines sb \<and> ring_head sb < mem_lines sb \<and>
     ring_count sb \<le> mem_lines sb"

text \<open>The last \<open>n\<close> elements.\<close>

definition lastn :: "nat \<Rightarrow> 'a list \<Rightarrow> 'a list" where
  "lastn n xs = drop (length xs - n) xs"

lemma length_lastn [simp]: "length (lastn n xs) = min n (length xs)"
  by (simp add: lastn_def)

lemma lastn_snoc: "0 < n \<Longrightarrow> lastn n (xs @ [x]) = lastn (n - 1) xs @ [x]"
  by (cases "length xs < n") (auto simp: lastn_def)

lemma lastn_lastn: "m \<le> n \<Longrightarrow> lastn m (lastn n xs) = lastn m xs"
  by (auto simp: lastn_def intro!: arg_cong [of _ _ "\<lambda>k. drop k xs"])

lemma ring_put_lines:
  assumes "ring_ok sb"
  shows "ring_ok (ring_put sb r)" and "ring_lines (ring_put sb r) = lastn (mem_lines sb) (ring_lines sb @ [r])"
    and "mem_lines (ring_put sb r) = mem_lines sb"
proof -
  let ?m = "mem_lines sb" and ?h = "ring_head sb" and ?n = "ring_count sb"
  have ok: "0 < ?m" "length (sb_ring sb) = ?m" "?h < ?m" "?n \<le> ?m" using assms by (auto simp: ring_ok_def)
  show "ring_ok (ring_put sb r)" "mem_lines (ring_put sb r) = mem_lines sb"
    using ok by (auto simp: ring_ok_def ring_put_def Let_def)
  have ne: "(?h + i) mod ?m \<noteq> (?h + j) mod ?m" if "i < j" "j < ?m" for i j
  proof
    assume "(?h + i) mod ?m = (?h + j) mod ?m"
    then have "?m dvd (?h + j) - (?h + i)" using that by (intro mod_eq_dvd_iff_nat [THEN iffD1]) simp_all
    with that show False by (auto dest: dvd_imp_le)
  qed
  show "ring_lines (ring_put sb r) = lastn ?m (ring_lines sb @ [r])"
  proof (cases "?n = ?m")
    case False
    then have n: "?n < ?m" using ok(4) by simp
    have free: "(?h + ?n) mod ?m \<noteq> (?h + x) mod ?m" if "x < ?n" for x using ne [OF that n] by simp
    have "ring_lines (ring_put sb r) = ring_lines sb @ [r]"
      using ok False n by (auto simp: ring_lines_def ring_put_def Let_def nth_list_update dest: free)
    then show ?thesis using n by (simp add: lastn_def ring_lines_def)
  next
    case True
    have "ring_lines (ring_put sb r) = tl (ring_lines sb) @ [r]"
    proof (rule nth_equalityI)
      fix i assume i: "i < length (ring_lines (ring_put sb r))"
      then have im: "i < ?m" using True by (simp add: ring_lines_def ring_put_def Let_def)
      have at: "ring_lines (ring_put sb r) ! i =
          (let l = (sb_ring sb)[?h := \<lparr>ml_text = snd r, ml_seq = fst r\<rparr>] ! (Suc (?h + i) mod ?m) in (ml_seq l, ml_text l))"
        using True im by (simp add: ring_lines_def ring_put_def Let_def mod_simps)
      show "ring_lines (ring_put sb r) ! i = (tl (ring_lines sb) @ [r]) ! i"
      proof (cases "Suc i = ?m")
        case last: True
        then have "Suc (?h + i) mod ?m = ?h" using ok(3) by (metis add_Suc_right mod_add_self2 mod_less)
        moreover have "(tl (ring_lines sb) @ [r]) ! i = r"
          using last [symmetric] True by (simp add: nth_append ring_lines_def)
        ultimately show ?thesis using ok by (simp add: at Let_def)
      next
        case no: False
        then have ne0: "Suc (?h + i) mod ?m \<noteq> ?h" using ne [of 0 "Suc i"] im ok(3) by simp
        have "(tl (ring_lines sb) @ [r]) ! i = ring_lines sb ! Suc i"
          using Suc_lessI [OF im no] True by (simp add: nth_append ring_lines_def nth_tl less_diff_conv)
        moreover have "ring_lines sb ! Suc i = (let l = sb_ring sb ! (Suc (?h + i) mod ?m) in (ml_seq l, ml_text l))"
          using Suc_lessI [OF im no] True by (simp add: ring_lines_def Let_def)
        ultimately show ?thesis using ne0 by (simp add: at Let_def)
      qed
    qed (use True ok in \<open>simp add: ring_lines_def ring_put_def Let_def\<close>)
    also have "\<dots> = lastn ?m (ring_lines sb @ [r])"
      using True ok by (simp add: lastn_def ring_lines_def drop_Suc)
    finally show ?thesis .
  qed
qed

lemma lastn_ring_lines: "ring_ok sb \<Longrightarrow> lastn (mem_lines sb) (ring_lines sb) = ring_lines sb"
  by (simp add: lastn_def ring_lines_def ring_ok_def)

lemma lastn_suffix: "lastn m (xs @ lastn m ys) = lastn m (xs @ ys)"
  by (cases "length ys \<le> m") (simp_all add: lastn_def)

lemma lastn_absorb: "lastn m (lastn m xs @ ys) = lastn m (xs @ ys)"
  by (cases "length xs \<le> m") (simp_all add: lastn_def add.commute)

lemma ring_puts_lines:
  assumes "ring_ok sb"
  shows "ring_ok (foldl ring_put sb rs) \<and> mem_lines (foldl ring_put sb rs) = mem_lines sb \<and>
    lastn (mem_lines sb) (ring_lines (foldl ring_put sb rs)) = lastn (mem_lines sb) (ring_lines sb @ rs)"
  using assms
proof (induction rs arbitrary: sb)
  case (Cons r rs)
  note P = ring_put_lines [OF Cons.prems, of r]
  with Cons.IH [OF P(1)] show ?case by (simp add: lastn_absorb)
qed simp

lemma ring_scan_eq:
  "ring_scan ls start k = take k (filter (\<lambda>r. start \<le> fst r) (map (\<lambda>l. (ml_seq l, ml_text l)) ls))"
  by (induction ls arbitrary: k) (auto simp: not_less take_Cons' not_le)

lemma sb_fetch_eq:
  "sb_fetch sb start m c = take (min m c) (filter (\<lambda>r. start \<le> fst r) (ring_lines sb))"
  by (simp add: sb_fetch_def ring_scan_eq ring_lines_def comp_def Let_def)

section \<open>Seeking in a generation\<close>

text \<open>Sequence numbers of a generation are consecutive, which is what the sparse index relies on.\<close>

definition run_from :: "nat \<Rightarrow> line_rec list \<Rightarrow> bool" where
  "run_from b rs \<longleftrightarrow> b + length rs < 2 ^ 64 \<and> (\<forall>i<length rs. unat (fst (rs ! i)) = b + i)"

lemma run_fromD: "run_from b rs \<Longrightarrow> i < length rs \<Longrightarrow> unat (fst (rs ! i)) = b + i"
  by (simp add: run_from_def)

lemma run_filter:
  assumes "run_from b rs"
  shows "filter (\<lambda>r. start \<le> fst r) rs = drop (unat start - b) rs"
proof -
  have "filter (\<lambda>r. start \<le> fst r) rs = map ((!) rs) (filter (\<lambda>i. unat start - b \<le> i) [0..<length rs])"
  proof -
    have "filter (\<lambda>r. start \<le> fst r) rs = filter (\<lambda>r. start \<le> fst r) (map ((!) rs) [0..<length rs])"
      by (simp only: map_nth)
    also have "\<dots> = map ((!) rs) (filter (\<lambda>i. start \<le> fst (rs ! i)) [0..<length rs])"
      by (simp add: filter_map comp_def)
    also have "filter (\<lambda>i. start \<le> fst (rs ! i)) [0..<length rs] = filter (\<lambda>i. unat start - b \<le> i) [0..<length rs]"
      by (rule filter_cong [OF refl]) (auto simp: word_le_nat_alt run_fromD [OF assms])
    finally show ?thesis .
  qed
  also have "filter (\<lambda>i. unat start - b \<le> i) [0..<length rs] = [unat start - b..<length rs]"
    by (induction rs rule: rev_induct) auto
  also have "map ((!) rs) [unat start - b..<length rs] = drop (unat start - b) rs"
    by (rule nth_equalityI) simp_all
  finally show ?thesis .
qed

lemma idx_search_props:
  assumes "lo \<le> hi + 1" and "hi < n" and "pick < n" and "n = length (ix_off ix)"
    and "pick = 0 \<or> P pick"
    and "\<And>k. k < n \<Longrightarrow> P k \<longleftrightarrow> first_seq ix + word_of_nat (k * SB_INDEX_STEP) \<le> want"
  shows "idx_search ix want lo hi pick < n \<and> (idx_search ix want lo hi pick = 0 \<or> P (idx_search ix want lo hi pick))"
  using assms
proof (induction ix want lo hi pick rule: idx_search.induct)
  case (1 ix want lo hi pick)
  let ?mid = "lo + (hi - lo) div 2"
  show ?case
  proof (cases "lo > hi")
    case True
    with "1.prems" show ?thesis by (subst (1 2 3) idx_search.simps) simp
  next
    case False
    then have mid: "?mid < n" "lo \<le> ?mid" "?mid \<le> hi" using "1.prems"(2) by auto
    show ?thesis
    proof (cases "first_seq ix + word_of_nat (?mid * SB_INDEX_STEP) \<le> want")
      case True
      then have P: "P ?mid" using "1.prems"(6) [OF mid(1)] by simp
      show ?thesis
      proof (cases "?mid = length (ix_off ix) - 1")
        case last: True
        have "idx_search ix want lo hi pick = ?mid"
          using False True last by (subst idx_search.simps) (simp add: Let_def)
        with P mid show ?thesis by simp
      next
        case no: False
        have eq: "idx_search ix want lo hi pick = idx_search ix want (?mid + 1) hi ?mid"
          using False True no by (subst idx_search.simps) (simp add: Let_def)
        show ?thesis unfolding eq
          by (rule "1.IH"(1) [OF False refl True no _ "1.prems"(2) mid(1) "1.prems"(4) _ "1.prems"(6)])
             (use mid P in simp_all)
      qed
    next
      case gt: False
      show ?thesis
      proof (cases "?mid = 0")
        case True
        have "idx_search ix want lo hi pick = pick"
          using False gt True by (subst idx_search.simps) (simp add: Let_def del: add_is_0 add_eq_0_iff_both_eq_0)
        with "1.prems" show ?thesis by simp
      next
        case nz: False
        have eq: "idx_search ix want lo hi pick = idx_search ix want lo (?mid - 1) pick"
          by (subst idx_search.simps) (simp only: Let_def if_not_P [OF False] if_not_P [OF gt] if_not_P [OF nz])
        show ?thesis unfolding eq
          by (rule "1.IH"(2) [OF False refl gt nz _ _ "1.prems"(3,4,5,6)]) (use mid nz in linarith)+
      qed
    qed
  qed
qed

lemma unat_add_of_nat: "unat (w :: u64) = b \<Longrightarrow> b + x < 2 ^ 64 \<Longrightarrow> unat (w + word_of_nat x) = b + x"
proof -
  assume w: "unat w = b" and x: "b + x < 2 ^ 64"
  have "unat (word_of_nat x :: u64) = x" using x by (simp only: unat_of_nat) (simp add: take_bit_nat_eq_self)
  then show "unat (w + word_of_nat x) = b + x" using w x by (simp add: unat_plus_if')
qed

lemma index_entries: "rs \<noteq> [] \<Longrightarrow> 0 < length (ix_off (index_of rs))"
  by (cases rs) (auto simp: index_of_def SB_INDEX_STEP_def)

lemma index_entry_bound:
  assumes "k < length (ix_off (index_of rs))" shows "SB_INDEX_STEP * k < length rs"
proof -
  have "k < (length rs + 511) div 512" using assms by (simp add: index_of_def SB_INDEX_STEP_def)
  then have "Suc k * 512 \<le> length rs + 511" by (simp add: less_eq_div_iff_mult_less_eq Suc_le_eq [symmetric])
  then show ?thesis by (simp add: SB_INDEX_STEP_def)
qed

text \<open>A seek lands on a record boundary at or before the line wanted.\<close>

lemma idx_seek_run:
  assumes "run_from b rs" and "rs \<noteq> []"
  obtains i where "idx_seek (index_of rs) start = rec_off rs i" "i < length rs" "i = 0 \<or> b + i \<le> unat start"
proof -
  let ?ix = "index_of rs"
  let ?n = "length (ix_off ?ix)"
  define P where "P k \<longleftrightarrow> b + SB_INDEX_STEP * k \<le> unat start" for k
  have n: "0 < ?n" by (rule index_entries [OF assms(2)])
  have first: "unat (first_seq ?ix) = b"
    using run_fromD [OF assms(1), of 0] assms(2) by (cases rs) (simp_all add: index_of_def)
  have P: "P k \<longleftrightarrow> first_seq ?ix + word_of_nat (k * SB_INDEX_STEP) \<le> start" if "k < ?n" for k
  proof -
    have "b + k * SB_INDEX_STEP < 2 ^ 64"
      using index_entry_bound [OF that] assms(1) by (simp add: run_from_def mult.commute)
    then have "unat (first_seq ?ix + word_of_nat (k * SB_INDEX_STEP)) = b + k * SB_INDEX_STEP"
      using unat_add_of_nat [OF first] by blast
    then show ?thesis by (simp add: P_def word_le_nat_alt mult.commute)
  qed
  define k where "k = idx_search ?ix start 0 (?n - 1) 0"
  have "k < ?n \<and> (k = 0 \<or> P k)"
    unfolding k_def by (rule idx_search_props [where P = P]) (use n P in auto)
  then have k: "k < ?n" "k = 0 \<or> P k" by auto
  have "idx_seek ?ix start = ix_off ?ix ! k" using n by (auto simp: idx_seek_def k_def)
  also have "\<dots> = rec_off rs (SB_INDEX_STEP * k)" using k(1) by (simp add: index_of_def)
  finally show thesis
    using that [of "SB_INDEX_STEP * k"] index_entry_bound [OF k(1)] k(2) by (auto simp: P_def)
qed

lemma read_rec_at:
  assumes "list_all short_rec rs" and "i < length rs"
  shows "read_rec (log_bytes rs @ tail) (rec_off rs i) = Some (length (enc_rec (rs ! i)), rs ! i)"
proof -
  have "log_bytes rs @ tail = log_bytes (take i rs) @ log_bytes (rs ! i # drop (Suc i) rs) @ tail"
    using assms(2) by (metis append_assoc append_take_drop_id Cons_nth_drop_Suc log_bytes_simps(3))
  then show ?thesis
    unfolding rec_off_def using read_rec_next [of "rs ! i" "log_bytes (take i rs)" "drop (Suc i) rs" tail] assms
    by (simp add: list_all_length)
qed

lemma read_rec_past:
  assumes "torn tail"
  shows "read_rec (log_bytes rs @ tail) (rec_off rs (length rs)) = None"
  using read_rec_end [OF assms, of "log_bytes rs"] by (simp add: rec_off_def)

lemma sweep_run:
  assumes ok: "list_all short_rec rs" "torn tail" and run: "run_from b rs" and "i \<le> length rs"
    and "i = 0 \<or> b + i \<le> unat start"
  defines "m \<equiv> min (length rs) (max i (unat start - b))"
  shows "fst (sweep (log_bytes rs @ tail) start (rec_off rs i) st) = rec_off rs m \<and>
    fst (snd (sweep (log_bytes rs @ tail) start (rec_off rs i) st)) =
      (if m < length rs then Some (length (enc_rec (rs ! m)), rs ! m) else None)"
  using assms(4,5) unfolding m_def
proof (induction "length rs - i" arbitrary: i st)
  case 0
  then have "i = length rs" by simp
  with 0 show ?case by (subst (1 2) sweep.simps) (simp add: read_rec_past [OF ok(2)])
next
  case (Suc d)
  then have i: "i < length rs" by simp
  note r = read_rec_at [OF ok(1) i, of tail]
  show ?case
  proof (cases "start \<le> fst (rs ! i)")
    case True
    then have "unat start - b \<le> i" using run_fromD [OF run i] by (simp add: word_le_nat_alt)
    then have "min (length rs) (max i (unat start - b)) = i" using i by simp
    with True r i show ?thesis by (subst (1 2) sweep.simps) (simp add: case_prod_beta)
  next
    case False
    then have gt: "b + i < unat start" using run_fromD [OF run i] by (simp add: word_le_nat_alt)
    have "rec_off rs i + length (enc_rec (rs ! i)) = rec_off rs (Suc i)" by (simp add: rec_off_Suc [OF i])
    then have eq: "sweep (log_bytes rs @ tail) start (rec_off rs i) st =
        sweep (log_bytes rs @ tail) start (rec_off rs (Suc i)) (fst st + rec_cost (log_bytes rs @ tail) (rec_off rs i), snd st + 1)"
      using r False by (subst sweep.simps) (simp add: case_prod_beta)
    have "max (Suc i) (unat start - b) = max i (unat start - b)" using gt by simp
    with Suc.hyps(1) [of "Suc i"] Suc.hyps(2) i gt show ?thesis unfolding eq by simp
  qed
qed

definition text_size :: "line_rec list \<Rightarrow> nat" where
  "text_size rs = sum_list (map (length o snd) rs)"

lemma text_size_simps [simp]:
  "text_size [] = 0" "text_size (r # rs) = length (snd r) + text_size rs"
  "text_size (xs @ ys) = text_size xs + text_size ys"
  by (simp_all add: text_size_def)

text \<open>The lines a call can hand out: at most \<open>lim\<close>, from the first, as long as their texts fit.\<close>

fun fit :: "nat \<Rightarrow> nat \<Rightarrow> line_rec list \<Rightarrow> line_rec list" where
  "fit lim room [] = []"
| "fit lim room (r # rs) = (if lim = 0 \<or> room < length (snd r) then []
     else r # fit (lim - 1) (room - length (snd r)) rs)"

lemma fit_take: "text_size (take lim rs) \<le> room \<Longrightarrow> fit lim room rs = take lim rs"
  by (induction lim room rs rule: fit.induct) (auto simp: take_Cons' split: if_splits)

lemma fit_size: "text_size (fit lim room rs) \<le> room" "length (fit lim room rs) \<le> lim"
  by (induction lim room rs rule: fit.induct) auto

lemma emit_loop_run:
  assumes ok: "list_all short_rec rs" "torn tail" and "m \<le> length rs" and "used \<le> bufsz"
    and "step = (if m < length rs then Some (length (enc_rec (rs ! m)), rs ! m) else None)"
  shows "\<exists>cost'. emit_loop (log_bytes rs @ tail) (rec_off rs m) step lim bufsz used acc cost =
    (acc @ fit (lim - length acc) (bufsz - used) (drop m rs),
     used + text_size (fit (lim - length acc) (bufsz - used) (drop m rs)), cost')"
  using assms(3-5)
proof (induction "length rs - m" arbitrary: m step used acc cost)
  case 0
  then show ?case by (subst emit_loop.simps) simp
next
  case (Suc d)
  then have m: "m < length rs" by simp
  have dm: "drop m rs = rs ! m # drop (Suc m) rs" using m by (simp add: Cons_nth_drop_Suc)
  obtain s tx where r: "rs ! m = (s, tx)" by (cases "rs ! m")
  show ?case
  proof (cases "lim \<le> length acc \<or> bufsz < used + length tx")
    case True
    then show ?thesis using Suc.prems(2,3) m r unfolding dm by (subst emit_loop.simps) auto
  next
    case False
    let ?acc = "acc @ [(s, tx)]" and ?f = "log_bytes rs @ tail"
    let ?step = "read_rec ?f (rec_off rs (Suc m))"
    have off: "rec_off rs m + length (enc_rec (rs ! m)) = rec_off rs (Suc m)" by (simp add: rec_off_Suc [OF m])
    have st: "?step = (if Suc m < length rs then Some (length (enc_rec (rs ! Suc m)), rs ! Suc m) else None)"
      using read_rec_at [OF ok(1), of "Suc m" tail] read_rec_past [OF ok(2), of rs] m
      by (cases "Suc m = length rs") auto
    have eq: "emit_loop ?f (rec_off rs m) step lim bufsz used acc cost =
        emit_loop ?f (rec_off rs (Suc m)) ?step lim bufsz (used + length tx) ?acc (cost + rec_cost ?f (rec_off rs (Suc m)))"
      using Suc.prems(3) m r False off by (subst emit_loop.simps) simp
    have d: "d = length rs - Suc m" and m1: "Suc m \<le> length rs" using Suc.hyps(2) m by simp_all
    have room: "used + length tx \<le> bufsz" using False by simp
    obtain cost' where "emit_loop ?f (rec_off rs (Suc m)) ?step lim bufsz (used + length tx)
        ?acc (cost + rec_cost ?f (rec_off rs (Suc m))) =
        (?acc @ fit (lim - length ?acc) (bufsz - (used + length tx)) (drop (Suc m) rs),
         used + length tx + text_size (fit (lim - length ?acc) (bufsz - (used + length tx)) (drop (Suc m) rs)), cost')"
      using Suc.hyps(1) [OF d m1 room st] by blast
    moreover have "length tx \<le> bufsz - used" using room by simp
    ultimately show ?thesis using False unfolding eq dm r by simp
  qed
qed

lemma rec_off_mono:
  assumes "i < j" and "j \<le> length rs" shows "rec_off rs i < rec_off rs j"
  using assms
proof (induction j)
  case (Suc j)
  have step: "rec_off rs j < rec_off rs (Suc j)" using Suc.prems(2) by (simp add: rec_off_Suc length_enc_rec)
  show ?case
  proof (cases "i = j")
    case False
    then have "rec_off rs i < rec_off rs j" using Suc by simp
    with step show ?thesis by simp
  qed (use step in simp)
qed simp

lemma fetch_from_gen_fit:
  assumes ok: "list_all short_rec rs" "torn tail" and run: "run_from b rs"
    and "fl = Some (log_bytes rs @ tail)" and ix: "ix = index_of rs"
    and fits: "used \<le> bufsz"
  shows "\<exists>st'. fetch_from_gen fl ix start lim bufsz used acc st =
    (acc @ fit (lim - length acc) (bufsz - used) (filter (\<lambda>r. start \<le> fst r) rs),
     used + text_size (fit (lim - length acc) (bufsz - used) (filter (\<lambda>r. start \<le> fst r) rs)), st')"
proof (cases "rs = []")
  case True
  then show ?thesis by (simp add: fetch_from_gen_def ix index_of_def)
next
  case False
  let ?f = "log_bytes rs @ tail"
  obtain i where seek: "idx_seek ix start = rec_off rs i" and i: "i < length rs" "i = 0 \<or> b + i \<le> unat start"
    using idx_seek_run [OF run False, of start] unfolding ix by blast
  define m where "m = min (length rs) (max i (unat start - b))"
  have m: "m \<le> length rs" by (simp add: m_def)
  have F: "filter (\<lambda>r. start \<le> fst r) rs = drop m rs"
    using i run_filter [OF run, of start] by (auto simp: m_def min_def max_def)
  obtain st1 where sw: "sweep ?f start (rec_off rs i) st =
      (rec_off rs m, if m < length rs then Some (length (enc_rec (rs ! m)), rs ! m) else None, st1)"
    using sweep_run [OF ok run less_imp_le [OF i(1)] i(2), of st]
    by (cases "sweep ?f start (rec_off rs i) st") (auto simp: m_def)
  have moved: "m < length rs \<or> rec_off rs m \<noteq> rec_off rs i"
    using m rec_off_mono [of i m rs] i(1) by (cases "m = length rs") auto
  obtain cost' where em: "emit_loop ?f (rec_off rs m) (if m < length rs then Some (length (enc_rec (rs ! m)), rs ! m) else None)
      lim bufsz used acc (fst st1) =
      (acc @ fit (lim - length acc) (bufsz - used) (drop m rs), used + text_size (fit (lim - length acc) (bufsz - used) (drop m rs)), cost')"
    using emit_loop_run [OF ok m fits refl] by blast
  have "have_gen ix" "nrec ix \<noteq> 0" using False by (simp_all add: ix index_of_def)
  then show ?thesis
    using moved em by (cases "m < length rs") (simp_all add: fetch_from_gen_def assms(4) seek sw F Let_def)
qed

lemma fetch_from_gen_run:
  assumes "list_all short_rec rs" "torn tail" "run_from b rs" "fl = Some (log_bytes rs @ tail)" "ix = index_of rs"
    and fits: "used + text_size (take (lim - length acc) (filter (\<lambda>r. start \<le> fst r) rs)) \<le> bufsz"
  shows "\<exists>st'. fetch_from_gen fl ix start lim bufsz used acc st =
    (acc @ take (lim - length acc) (filter (\<lambda>r. start \<le> fst r) rs),
     used + text_size (take (lim - length acc) (filter (\<lambda>r. start \<le> fst r) rs)), st')"
proof -
  have "used \<le> bufsz" "fit (lim - length acc) (bufsz - used) (filter (\<lambda>r. start \<le> fst r) rs) =
      take (lim - length acc) (filter (\<lambda>r. start \<le> fst r) rs)"
    using fits by (auto intro!: fit_take)
  with fetch_from_gen_fit [OF assms(1-5), where used = used and bufsz = bufsz and lim = lim and acc = acc and start = start and st = st] show ?thesis by simp
qed

section \<open>The store and the lines pushed into it\<close>

text \<open>\<open>gone\<close>, \<open>old\<close> and \<open>now\<close> are the lines pushed so far, in order: those whose generation
  has been overwritten, those of the rotated generation and those of the current one. Their
  sequence numbers run from \<open>b\<close>.\<close>

definition gen_old_ok :: "line_rec list \<Rightarrow> scrollback \<Rightarrow> bool" where
  "gen_old_ok old sb = (case file_old sb of None \<Rightarrow> old = [] \<and> idx_old sb = idx_reset
     | Some f \<Rightarrow> idx_old sb = index_of old \<and> (\<exists>tail. torn tail \<and> f = log_bytes old @ tail))"

definition sb_inv :: "nat \<Rightarrow> line_rec list \<Rightarrow> line_rec list \<Rightarrow> line_rec list \<Rightarrow> scrollback \<Rightarrow> bool" where
  "sb_inv b gone old now sb \<longleftrightarrow>
    ring_ok sb \<and> ring_lines sb = lastn (mem_lines sb) (gone @ old @ now) \<and>
    file_cur sb @ wbuf sb = log_bytes now \<and> file_size sb = length (file_cur sb) \<and>
    idx_cur sb = index_of now \<and> gen_old_ok old sb \<and> length (wbuf sb) \<le> WBUF_SIZE \<and>
    list_all short_rec (gone @ old @ now) \<and> run_from b (gone @ old @ now) \<and>
    unat (next_seq sb) = b + length (gone @ old @ now)"

lemma run_from_append:
  "run_from b (xs @ ys) \<longleftrightarrow> run_from b xs \<and> run_from (b + length xs) ys"
proof (intro iffI conjI)
  assume r: "run_from b (xs @ ys)"
  show "run_from b xs" using r by (auto simp: run_from_def nth_append split: if_splits)
  have "unat (fst (ys ! i)) = b + length xs + i" if "i < length ys" for i
    using run_fromD [OF r, of "length xs + i"] that by (simp add: nth_append)
  with r show "run_from (b + length xs) ys" by (simp add: run_from_def)
next
  assume "run_from b xs \<and> run_from (b + length xs) ys"
  then show "run_from b (xs @ ys)"
    by (auto simp: run_from_def nth_append)
qed

declare drain_loop.simps [simp del]

lemma drain_loop_healthy: "Failed \<notin> set ws \<Longrightarrow> off \<le> n \<Longrightarrow> drain_loop ws off n = n"
proof (induction ws arbitrary: off)
  case (Cons w ws)
  then show ?case by (subst drain_loop.simps) (cases w; simp)
qed (simp add: drain_loop.simps)

lemma drain_healthy:
  assumes "Failed \<notin> set ws"
  shows "wbuf_drain ws sb = sb\<lparr>file_cur := file_cur sb @ wbuf sb, file_size := file_size sb + length (wbuf sb), wbuf := []\<rparr>"
  using drain_loop_healthy [OF assms, of 0] by (simp add: wbuf_drain_def)

lemma index_push:
  "(let ix = index_of now; ix = (if nrec ix mod SB_INDEX_STEP = 0
       then idx_append (if nrec ix = 0 then ix\<lparr>first_seq := fst r\<rparr> else ix) (length (log_bytes now)) else ix)
    in ix\<lparr>nrec := nrec ix + 1\<rparr>) = index_of (now @ [r])"
proof -
  let ?n = "length now"
  have old: "map (\<lambda>i. rec_off now (SB_INDEX_STEP * i)) [0..<(?n + 511) div SB_INDEX_STEP] =
      map (\<lambda>i. rec_off (now @ [r]) (SB_INDEX_STEP * i)) [0..<(?n + 511) div SB_INDEX_STEP]"
  proof (rule map_cong [OF refl])
    fix i assume "i \<in> set [0..<(?n + 511) div SB_INDEX_STEP]"
    then have "SB_INDEX_STEP * i < ?n" using index_entry_bound [of i now] by (simp add: index_of_def)
    then show "rec_off now (SB_INDEX_STEP * i) = rec_off (now @ [r]) (SB_INDEX_STEP * i)" by (simp add: rec_off_def)
  qed
  have new: "length (log_bytes now) = rec_off (now @ [r]) ?n" by (simp add: rec_off_def)
  have f: "(case now @ [r] of [] \<Rightarrow> 0 | x # _ \<Rightarrow> fst x) = (if now = [] then fst r else fst (hd now))" by (cases now) auto
  show ?thesis
    using index_count [of ?n]
    by (auto simp: index_of_def Let_def idx_append_def old new f split: list.splits)
qed

lemma length_log_bytes: "length (log_bytes rs) = 16 * length rs + text_size rs"
  by (induction rs) (simp_all add: length_enc_rec text_size_def)

lemma ring_put_fields [simp]:
  "next_seq (ring_put sb r) = next_seq sb" "file_max (ring_put sb r) = file_max sb"
  "file_size (ring_put sb r) = file_size sb" "idx_cur (ring_put sb r) = idx_cur sb"
  "idx_old (ring_put sb r) = idx_old sb" "wbuf (ring_put sb r) = wbuf sb"
  "file_cur (ring_put sb r) = file_cur sb" "file_old (ring_put sb r) = file_old sb"
  by (simp_all add: ring_put_def Let_def)

lemma ring_lines_cong:
  "sb_ring x = sb_ring y \<Longrightarrow> mem_lines x = mem_lines y \<Longrightarrow> ring_head x = ring_head y \<Longrightarrow> ring_count x = ring_count y \<Longrightarrow>
   ring_lines x = ring_lines y \<and> ring_ok x = ring_ok y"
  by (simp add: ring_lines_def ring_ok_def)

text \<open>Staging one record, without the rotation that may follow.\<close>

definition staged :: "(nat \<Rightarrow> io_result list) \<Rightarrow> scrollback \<Rightarrow> line_rec \<Rightarrow> scrollback" where
  "staged ws sb r =
    (let sb1 = ring_put (sb\<lparr>next_seq := fst r + 1\<rparr>) r;
         ix = idx_cur sb1;
         ix = (if nrec ix mod SB_INDEX_STEP = 0
               then idx_append (if nrec ix = 0 then ix\<lparr>first_seq := fst r\<rparr> else ix) (file_size sb1 + length (wbuf sb1))
               else ix);
         sb2 = sb1\<lparr>idx_cur := ix\<lparr>nrec := nrec ix + 1\<rparr>\<rparr>;
         sb3 = (if length (wbuf sb2) + 16 + length (snd r) > WBUF_SIZE then wbuf_drain (ws 0) sb2 else sb2)
     in sb3\<lparr>wbuf := wbuf sb3 @ enc_rec r\<rparr>)"

lemma sb_push_staged:
  "sb_push_line ws sb cs = maybe_rotate (ws 1) (staged ws sb (next_seq sb, serialize_line cs SB_LINE_MAX))"
  by (simp only: sb_push_line_def staged_def Let_def fst_conv snd_conv)

lemma staged_inv:
  assumes inv: "sb_inv b gone old now sb" and "Failed \<notin> set (ws 0)"
    and r: "r = (next_seq sb, tx)" "length tx \<le> SB_LINE_MAX" and room: "b + length (gone @ old @ now) + 1 < 2 ^ 64"
  shows "sb_inv b gone old (now @ [r]) (staged ws sb r)" and "file_max (staged ws sb r) = file_max sb"
proof -
  let ?s = "staged ws sb r" and ?sb1 = "ring_put (sb\<lparr>next_seq := fst r + 1\<rparr>) r"
  have I: "ring_ok sb" "ring_lines sb = lastn (mem_lines sb) (gone @ old @ now)" "file_cur sb @ wbuf sb = log_bytes now"
    "file_size sb = length (file_cur sb)" "idx_cur sb = index_of now" "gen_old_ok old sb" "length (wbuf sb) \<le> WBUF_SIZE"
    "list_all short_rec (gone @ old @ now)" "run_from b (gone @ old @ now)" "unat (next_seq sb) = b + length (gone @ old @ now)"
    using inv by (simp_all add: sb_inv_def)
  have len: "length (file_cur sb) + length (wbuf sb) = length (log_bytes now)" using I(3) by (metis length_append)
  have ok1: "ring_ok (sb\<lparr>next_seq := fst r + 1\<rparr>)" "ring_lines (sb\<lparr>next_seq := fst r + 1\<rparr>) = ring_lines sb"
    using I(1) ring_lines_cong [of "sb\<lparr>next_seq := fst r + 1\<rparr>" sb] by simp_all
  have ring: "sb_ring ?s = sb_ring ?sb1" "mem_lines ?s = mem_lines ?sb1" "ring_head ?s = ring_head ?sb1" "ring_count ?s = ring_count ?sb1"
    by (simp_all add: staged_def Let_def wbuf_drain_def)
  note put = ring_put_lines [OF ok1(1), of r]
  have "ring_ok ?s \<and> ring_lines ?s = lastn (mem_lines ?s) (gone @ old @ now @ [r])"
    using ring_lines_cong [OF ring] put I(2) ok1(2) ring(2) lastn_absorb [of "mem_lines sb" "gone @ old @ now" "[r]"] by simp
  moreover have "idx_cur ?s = index_of (now @ [r])"
  proof -
    show ?thesis
      using len I(4) index_push [of now r] I(5) by (auto simp: staged_def Let_def wbuf_drain_def split: if_splits)
  qed
  moreover have "file_cur ?s @ wbuf ?s = log_bytes (now @ [r])" "file_size ?s = length (file_cur ?s)"
    using I(3,4) len assms(2) by (auto simp: staged_def Let_def drain_healthy)
  moreover have "length (wbuf ?s) \<le> WBUF_SIZE"
    using r I(7) by (auto simp: staged_def Let_def wbuf_drain_def length_enc_rec WBUF_SIZE_def SB_LINE_MAX_def)
  moreover have "idx_old ?s = idx_old sb" "file_old ?s = file_old sb" by (simp_all add: staged_def Let_def wbuf_drain_def)
  then have "gen_old_ok old ?s" using I(6) by (simp add: gen_old_ok_def cong: option.case_cong)
  moreover have "list_all short_rec (gone @ old @ now @ [r])" using I(8) r by simp
  moreover have "unat (next_seq ?s) = b + length (gone @ old @ now @ [r])"
    using unat_add_of_nat [OF I(10), of 1] room r by (simp add: staged_def Let_def wbuf_drain_def)
  moreover have "run_from b ((gone @ old @ now) @ [r])"
  proof (rule iffD2 [OF run_from_append], rule conjI [OF I(9)])
    show "run_from (b + length (gone @ old @ now)) [r]" using I(10) r room by (simp add: run_from_def)
  qed
  ultimately show "sb_inv b gone old (now @ [r]) ?s" by (simp add: sb_inv_def)
  show "file_max ?s = file_max sb" by (simp add: staged_def Let_def wbuf_drain_def)
qed

lemma rotate_inv:
  assumes inv: "sb_inv b gone old now sb" and "Failed \<notin> set ws" and "\<not> length (log_bytes now) < file_max sb"
  shows "sb_inv b (gone @ old) now [] (maybe_rotate ws sb)"
proof -
  let ?s = "maybe_rotate ws sb"
  have len: "file_size sb + length (wbuf sb) = length (log_bytes now)"
    using inv by (simp add: sb_inv_def) (metis length_append)
  have s: "?s = sb\<lparr>wbuf := [], file_old := Some (log_bytes now), idx_old := idx_cur sb,
      idx_cur := idx_reset\<lparr>have_gen := True\<rparr>, file_cur := [], file_size := 0\<rparr>"
    using assms(2,3) len inv by (simp add: maybe_rotate_def drain_healthy Let_def sb_inv_def)
  have "ring_ok ?s = ring_ok sb \<and> ring_lines ?s = ring_lines sb" using ring_lines_cong [of ?s sb] by (simp add: s)
  moreover have "gen_old_ok now ?s" using inv torn_Nil by (auto simp: s gen_old_ok_def sb_inv_def)
  moreover have "idx_cur ?s = index_of []" by (simp add: s index_of_def idx_reset_def SB_INDEX_STEP_def)
  ultimately show ?thesis using inv by (simp add: sb_inv_def s)
qed

lemma no_rotate:
  "sb_inv b gone old now sb \<Longrightarrow> length (log_bytes now) < file_max sb \<Longrightarrow> maybe_rotate ws sb = sb"
  by (simp add: sb_inv_def maybe_rotate_def) (metis length_append)


section \<open>Fetching\<close>

lemma run_ge_first:
  assumes "run_from b rs" and "unat start \<le> b" shows "filter (\<lambda>r. start \<le> fst r) rs = rs"
  by (simp add: run_filter [OF assms(1)] assms(2))

lemma run_all_before:
  assumes "run_from b rs" and "b + length rs \<le> unat start" shows "filter (\<lambda>r. start \<le> fst r) rs = []"
  using assms by (simp add: run_filter)

lemma ring_filter:
  assumes "run_from b rs" and "lastn m rs \<noteq> []" and "fst (hd (lastn m rs)) \<le> start"
  shows "filter (\<lambda>r. start \<le> fst r) (lastn m rs) = filter (\<lambda>r. start \<le> fst r) rs"
proof -
  let ?k = "length rs - m"
  have k: "?k < length rs" using assms(2) by (simp add: lastn_def)
  have "run_from (b + ?k) (drop ?k rs)"
    using assms(1) run_from_append [of b "take ?k rs" "drop ?k rs"] by simp
  moreover have "b + ?k \<le> unat start"
    using assms(3) run_fromD [OF assms(1) k] k by (simp add: lastn_def hd_drop_conv_nth word_le_nat_alt)
  ultimately show ?thesis
    by (simp add: lastn_def run_filter [OF assms(1)] run_filter [of "b + ?k"] k)
qed

lemma hd_ring_lines:
  assumes "ring_ok sb" and "0 < ring_count sb"
  shows "ring_lines sb \<noteq> [] \<and> fst (hd (ring_lines sb)) = ml_seq (sb_ring sb ! ring_head sb)"
  using assms by (simp add: ring_lines_def hd_map ring_ok_def Let_def)

definition ring_covers :: "scrollback \<Rightarrow> u64 \<Rightarrow> bool" where
  "ring_covers sb start \<longleftrightarrow> ring_count sb > 0 \<and> ml_seq (sb_ring sb ! ring_head sb) \<le> start"

lemma flush_inv:
  assumes "sb_inv b gone old now sb" and "Failed \<notin> set ws"
  shows "sb_inv b gone old now (sb_flush ws sb)" and "file_cur (sb_flush ws sb) = log_bytes now"
proof -
  have "ring_lines (sb_flush ws sb) = ring_lines sb \<and> ring_ok (sb_flush ws sb) = ring_ok sb"
    by (rule ring_lines_cong) (simp_all add: sb_flush_def wbuf_drain_def Let_def)
  with assms show "sb_inv b gone old now (sb_flush ws sb)" "file_cur (sb_flush ws sb) = log_bytes now"
    by (auto simp: sb_inv_def sb_flush_def drain_healthy gen_old_ok_def split: option.splits dest!: arg_cong [of _ _ length])
qed

lemma old_gen_part:
  assumes inv: "sb_inv b gone old now sb" and fits: "text_size (take lim (filter (\<lambda>r. start \<le> fst r) old)) \<le> bufsz"
  shows "\<exists>st'. (if nrec (idx_old sb) > 0 \<and> start < first_seq (idx_old sb) + word_of_nat (nrec (idx_old sb))
      then fetch_from_gen (file_old sb) (idx_old sb) start lim bufsz 0 [] st else ([], 0, st)) =
    (take lim (filter (\<lambda>r. start \<le> fst r) old), text_size (take lim (filter (\<lambda>r. start \<le> fst r) old)), st')"
proof (cases "old = []")
  case True
  then have "nrec (idx_old sb) = 0"
    using inv by (auto simp: sb_inv_def gen_old_ok_def idx_reset_def index_of_def split: option.splits)
  with True show ?thesis by simp
next
  case False
  then obtain tail where t: "torn tail" "file_old sb = Some (log_bytes old @ tail)" and ix: "idx_old sb = index_of old"
    using inv by (auto simp: sb_inv_def gen_old_ok_def split: option.splits)
  have run: "run_from (b + length gone) old" and sh: "list_all short_rec old"
    using inv run_from_append by (auto simp: sb_inv_def)
  have f: "unat (first_seq (index_of old)) = b + length gone" "nrec (index_of old) = length old"
    using run_fromD [OF run, of 0] False by (cases old; simp add: index_of_def)+
  have lim: "b + length gone + length old < 2 ^ 64" using run by (simp add: run_from_def)
  have top: "unat (first_seq (idx_old sb) + word_of_nat (nrec (idx_old sb))) = b + length gone + length old"
    unfolding ix f(2) by (rule unat_add_of_nat [OF f(1) lim])
  show ?thesis
  proof (cases "start < first_seq (idx_old sb) + word_of_nat (nrec (idx_old sb))")
    case True
    with False f(2) ix show ?thesis
      using fetch_from_gen_run [OF sh t(1) run t(2) ix, where used = 0 and acc = "[]" and lim = lim and start = start and bufsz = bufsz and st = st] fits
      by simp
  next
    case no: False
    then have "filter (\<lambda>r. start \<le> fst r) old = []"
      using run_all_before [OF run] top by (simp add: word_less_nat_alt)
    with no show ?thesis by simp
  qed
qed

lemma now_gen_part:
  assumes inv: "sb_inv b gone old now sb" and cont: "file_cur sb = log_bytes now"
    and short: "length acc < lim" and acc: "acc = take lim (filter (\<lambda>r. start \<le> fst r) old)"
    and fits: "used + text_size (take (lim - length acc) (filter (\<lambda>r. start \<le> fst r) now)) \<le> bufsz"
  shows "\<exists>used' st'. fetch_from_gen (Some (file_cur sb)) (idx_cur sb)
      (if acc \<noteq> [] then fst (last acc) + 1 else start) lim bufsz used acc st =
    (take lim (filter (\<lambda>r. start \<le> fst r) (old @ now)), used', st')"
proof -
  let ?F = "filter (\<lambda>r. start \<le> fst r)" and ?next = "if acc \<noteq> [] then fst (last acc) + 1 else start"
  have runs: "run_from (b + length gone) old" "run_from (b + length gone + length old) now" and sh: "list_all short_rec now"
    and ix: "idx_cur sb = index_of now"
    using inv run_from_append by (auto simp: sb_inv_def add.assoc)
  have whole: "acc = ?F old" using acc short by (simp add: take_all min_def split: if_splits)
  have nx: "filter (\<lambda>r. ?next \<le> fst r) now = ?F now"
  proof (cases "acc = []")
    case False
    then have d: "unat start - (b + length gone) < length old" and l: "last acc = last old"
      using whole run_filter [OF runs(1), of start] by auto
    from d have ne: "old \<noteq> []" by auto
    then have "unat (fst (last acc)) = b + length gone + (length old - 1)"
      using run_fromD [OF runs(1), of "length old - 1"] l by (simp add: last_conv_nth)
    then have "unat (fst (last acc) + word_of_nat 1) = b + length gone + (length old - 1) + 1"
      using runs(1) ne by (intro unat_add_of_nat) (auto simp: run_from_def Suc_le_eq neq_Nil_conv)
    then have "unat ?next = b + length gone + length old" using False ne by (cases old) simp_all
    moreover have "unat start \<le> b + length gone + length old" using d by simp
    ultimately show ?thesis using run_ge_first [OF runs(2)] by simp
  qed simp
  have all: "take lim (?F (old @ now)) = acc @ take (lim - length acc) (?F now)" using acc whole by simp
  have fl: "Some (file_cur sb) = Some (log_bytes now @ [])" by (simp add: cont)
  obtain st' where "fetch_from_gen (Some (file_cur sb)) (idx_cur sb) ?next lim bufsz used acc st =
      (acc @ take (lim - length acc) (filter (\<lambda>r. ?next \<le> fst r) now),
       used + text_size (take (lim - length acc) (filter (\<lambda>r. ?next \<le> fst r) now)), st')"
    using fetch_from_gen_run [OF sh torn_Nil runs(2) fl ix, where start = ?next and lim = lim and bufsz = bufsz
        and used = used and acc = acc and st = st] fits unfolding nx by blast
  then show ?thesis unfolding nx all by blast
qed

lemma fetch_stats_inv:
  "sb_inv b gone old now sb \<Longrightarrow> sb_inv b gone old now (sb\<lparr>disk_bytes_read := x, disk_recs_swept := y\<rparr>)"
  using ring_lines_cong [of "sb\<lparr>disk_bytes_read := x, disk_recs_swept := y\<rparr>" sb]
  by (simp add: sb_inv_def gen_old_ok_def split: option.splits)

lemma take_filter_parts:
  "text_size (take lim (filter P (old @ now))) =
   text_size (take lim (filter P old)) + text_size (take (lim - length (take lim (filter P old))) (filter P now))"
  by (cases "length (filter P old) \<le> lim") simp_all


section \<open>Opening a log\<close>

lemma read_log_window:
  assumes "list_all short_rec rs" and "torn tail"
  shows "read_one_log_from (log_bytes rs @ tail) (if w \<noteq> 0 \<and> w < length rs then rec_off rs (length rs - w) else 0) =
    (if w = 0 then rs else lastn w rs)"
proof -
  have "read_one_log_from (log_bytes rs @ tail) (rec_off rs k) = drop k rs" for k
  proof -
    have "log_bytes rs @ tail = log_bytes (take k rs) @ log_bytes (drop k rs) @ tail"
      by (metis append_assoc append_take_drop_id log_bytes_simps(3))
    then show ?thesis
      unfolding rec_off_def using read_log_bytes [of "drop k rs" tail "log_bytes (take k rs)"] assms
      by (simp add: list_all_length)
  qed
  from this [of 0] this show ?thesis by (auto simp: lastn_def rec_off_def)
qed


text \<open>What a file may hold when it is opened: nothing, or whole records and a torn one.\<close>

definition log_file :: "line_rec list \<Rightarrow> byte list option \<Rightarrow> bool" where
  "log_file rs fl = (case fl of None \<Rightarrow> rs = [] | Some f \<Rightarrow> (\<exists>tail. torn tail \<and> f = log_bytes rs @ tail))"

lemma run_next: "run_from b rs \<Longrightarrow> rs \<noteq> [] \<Longrightarrow> unat (fst (last rs) + 1) = b + length rs"
  using unat_add_of_nat [of "fst (last rs)" "b + (length rs - 1)" 1] run_fromD [of b rs "length rs - 1"]
  by (cases "length rs") (auto simp: last_conv_nth run_from_def)

lemma scan_log_file:
  assumes "list_all short_rec rs" and "log_file rs fl"
  shows "scan_log fl want = (if rs = [] then 0 else fst (last rs) + 1, length (log_bytes rs),
       if want \<noteq> 0 \<and> want < length rs then rec_off rs (length rs - want) else 0,
       if fl = None then idx_reset else index_of rs)"
proof (cases fl)
  case None
  with assms(2) show ?thesis by (simp add: log_file_def scan_log_def)
next
  case (Some f)
  with assms(2) obtain tail where "torn tail" "f = log_bytes rs @ tail" by (auto simp: log_file_def)
  with scan_log_recovers [OF assms(1)] Some show ?thesis by (simp only: option.distinct if_False)
qed

lemma log_file_valid:
  assumes "log_file rs fl"
  shows "take (length (log_bytes rs)) (case fl of None \<Rightarrow> [] | Some f \<Rightarrow> f) = log_bytes rs"
  using assms by (auto simp: log_file_def split: option.splits)

text \<open>Opening a log gives a store in its invariant, whose lines are the whole records of the files.\<close>

lemma open_inv:
  assumes files: "log_file old old_file" "log_file now now_file"
    and sh: "list_all short_rec (old @ now)" and run: "run_from b (old @ now)" and b: "old @ now \<noteq> [] \<or> b = 0"
  shows "sb_inv b [] old now (sb_open_pane old_file now_file ml fm)"
proof -
  define m where "m = (if ml \<noteq> 0 then ml else SB_MEM_LINES_DEFAULT)"
  define f where "f = (if fm \<noteq> 0 then fm else SB_FILE_MAX_DEFAULT)"
  have m: "0 < m" by (simp add: m_def SB_MEM_LINES_DEFAULT_def)
  have sh2: "list_all short_rec old" "list_all short_rec now" using sh by simp_all
  define nxt where "nxt rs = (if rs = [] then 0 else fst (last rs) + 1 :: u64)" for rs :: "line_rec list"
  define win where "win rs = (if m \<noteq> 0 \<and> m < length rs then rec_off rs (length rs - m) else 0)" for rs
  define nx where "nx = (if nxt old < nxt now then nxt now else nxt old)"
  define s0 where "s0 = \<lparr>next_seq = nx, file_max = f,
    file_size = length (log_bytes now), sb_ring = replicate m \<lparr>ml_text = [], ml_seq = 0\<rparr>, mem_lines = m,
    ring_head = 0, ring_count = 0, idx_cur = (if now_file = None then idx_reset else index_of now)\<lparr>have_gen := True\<rparr>,
    idx_old = (if old_file = None then idx_reset else index_of old), wbuf = [], disk_bytes_read = 0, disk_recs_swept = 0,
    file_cur = log_bytes now, file_old = old_file\<rparr>"
  define s1 where "s1 = foldl ring_put s0 (lastn m old)"
  define s2 where "s2 = foldl ring_put s1 (lastn m now)"
  have "(case old_file of None \<Rightarrow> s0 | Some g \<Rightarrow> foldl ring_put s0 (read_one_log_from g (win old))) = s1"
    using files(1) m read_log_window [OF sh2(1), of _ m]
    by (auto simp: log_file_def s1_def win_def lastn_def split: option.splits)
  moreover have "read_one_log_from (log_bytes now) (win now) = lastn m now"
    using read_log_window [OF sh2(2) torn_Nil, of m] m by (simp add: win_def)
  ultimately have open_eq: "sb_open_pane old_file now_file ml fm = s2"
    unfolding sb_open_pane_def Let_def scan_log_file [OF sh2(1) files(1)] scan_log_file [OF sh2(2) files(2)]
      prod.case log_file_valid [OF files(2)] m_def [symmetric] f_def [symmetric]
    by (fold nxt_def win_def) (simp only: nx_def [symmetric] s0_def [symmetric] s2_def)
  have ok0: "ring_ok s0" "mem_lines s0 = m" "ring_lines s0 = []" using m by (simp_all add: s0_def ring_ok_def ring_lines_def)
  have puts: "next_seq (foldl ring_put s rs) = next_seq s" "file_size (foldl ring_put s rs) = file_size s"
    "idx_cur (foldl ring_put s rs) = idx_cur s" "idx_old (foldl ring_put s rs) = idx_old s" "wbuf (foldl ring_put s rs) = wbuf s"
    "file_cur (foldl ring_put s rs) = file_cur s" "file_old (foldl ring_put s rs) = file_old s" for s rs
    by (induction rs arbitrary: s) simp_all
  have r1: "ring_ok s1" "mem_lines s1 = m" "ring_lines s1 = lastn m old"
    using ring_puts_lines [OF ok0(1), of "lastn m old"] lastn_ring_lines [of s1] ok0 by (simp_all add: s1_def lastn_lastn)
  have ring: "ring_ok s2" "mem_lines s2 = m" "ring_lines s2 = lastn m (old @ now)"
    using ring_puts_lines [OF r1(1), of "lastn m now"] lastn_ring_lines [of s2] r1
    by (simp_all add: s2_def lastn_suffix lastn_absorb)
  have runs: "run_from b old" "run_from (b + length old) now" using run by (simp_all add: run_from_append)
  have "unat nx = b + length (old @ now)"
    using run_next [OF runs(1)] run_next [OF runs(2)] b by (auto simp: nx_def nxt_def word_less_nat_alt)
  moreover have "idx_cur s2 = index_of now"
    using files(2) by (auto simp: s2_def s1_def puts s0_def log_file_def index_of_def idx_reset_def SB_INDEX_STEP_def)
  moreover have "gen_old_ok old s2" using files(1)
    by (auto simp: gen_old_ok_def s2_def s1_def puts s0_def log_file_def split: option.splits)
  ultimately show ?thesis
    using ring sh run by (simp add: sb_inv_def open_eq) (simp add: s2_def s1_def puts s0_def)
qed

lemma log_prefix:
  assumes "list_all short_rec rs"
  obtains j tail where "take k (log_bytes rs) = log_bytes (take j rs) @ tail" "torn tail" "j \<le> length rs"
    "j = length rs \<or> k < rec_off rs (Suc j)"
  using assms
proof (induction rs arbitrary: k thesis)
  case Nil
  then show ?case using torn_Nil by simp
next
  case (Cons r rs)
  show ?case
  proof (cases "k < length (enc_rec r)")
    case True
    then have "torn (take k (enc_rec r))" unfolding torn_def using Cons.prems(2) by (intro exI [of _ r] exI [of _ k]) simp
    with True show ?thesis by (intro Cons.prems(1) [of 0 "take k (enc_rec r)"]) (simp_all add: rec_off_def)
  next
    case False
    have sh: "list_all short_rec rs" using Cons.prems(2) by simp
    obtain j tail where IH: "take (k - length (enc_rec r)) (log_bytes rs) = log_bytes (take j rs) @ tail" "torn tail"
      "j \<le> length rs" "j = length rs \<or> k - length (enc_rec r) < rec_off rs (Suc j)"
      using Cons.IH [OF _ sh] by blast
    have "take k (log_bytes (r # rs)) = log_bytes (take (Suc j) (r # rs)) @ tail" using False IH(1) by simp
    moreover have "Suc j = length (r # rs) \<or> k < rec_off (r # rs) (Suc (Suc j))" using False IH(4) by (auto simp: rec_off_def)
    ultimately show ?thesis using IH(2,3) by (intro Cons.prems(1) [of "Suc j" tail]) simp_all
  qed
qed

text \<open>
  Claim C39. A crash at any moment costs only the lines that were not yet completely written. Let
  the log of a store hold any first \<open>k\<close> bytes of the records it owes (a crash, or a flush cut
  short), and open the pane again: the new store is in its invariant and has the rotated
  generation's lines and the first \<open>j\<close> lines of the current one, where the record of line
  \<open>j + 1\<close> was not complete on disk. The ring holds the last of those lines and numbering
  continues after them.
\<close>

theorem crash_restart:
  assumes inv: "sb_inv b gone old now sb" and "old \<noteq> [] \<or> b + length gone = 0"
  shows "\<exists>j \<le> length now. (j = length now \<or> k < rec_off now (Suc j)) \<and>
    sb_inv (b + length gone) [] old (take j now) (sb_open_pane (file_old sb) (Some (take k (log_bytes now))) ml fm)"
proof -
  have sh: "list_all short_rec old" "list_all short_rec now" and run: "run_from (b + length gone) (old @ now)"
    and g: "gen_old_ok old sb"
    using inv run_from_append by (auto simp: sb_inv_def)
  obtain j tail where j: "take k (log_bytes now) = log_bytes (take j now) @ tail" "torn tail" "j \<le> length now"
      "j = length now \<or> k < rec_off now (Suc j)"
    using log_prefix [OF sh(2)] by blast
  have "run_from (b + length gone) (old @ take j now)"
    using run run_from_append [of "b + length gone" "old @ take j now" "drop j now"] by simp
  moreover have "log_file old (file_old sb)" using g by (auto simp: gen_old_ok_def log_file_def split: option.splits)
  moreover have "log_file (take j now) (Some (take k (log_bytes now)))" using j by (auto simp: log_file_def)
  moreover have "list_all short_rec (old @ take j now)" using sh by (auto simp: list_all_iff dest: in_set_takeD)
  moreover have "old @ take j now \<noteq> [] \<or> b + length gone = 0" using assms(2) by auto
  ultimately have "sb_inv (b + length gone) [] old (take j now) (sb_open_pane (file_old sb) (Some (take k (log_bytes now))) ml fm)"
    by (intro open_inv)
  with j show ?thesis by blast
qed

section \<open>A store at work\<close>

definition demo_cells :: "cell list" where
  "demo_cells = [\<lparr>ccp = 0x61, cfg = VT_COLOR_DEFAULT, cbg = VT_COLOR_DEFAULT, cattrs = 0, ccomb = 0\<rparr>]"

lemma demo_inv: "sb_inv 0 [] [] [] (sb_open_pane None None 2 40)"
  by (rule open_inv) (simp_all add: log_file_def run_from_def)

lemma demo_fields: "next_seq (sb_open_pane None None 2 40) = 0" "file_max (sb_open_pane None None 2 40) = 40"
  by (simp_all add: sb_open_pane_def scan_log_def Let_def read_one_log_from.simps [of "[]"] read_rec_def pread_def)

lemma demo_text: "serialize_line demo_cells SB_LINE_MAX = [0x61]"
  by (simp add: serialize_line_def demo_cells_def trim_line_def is_spacer_def public_attrs_def SB_LINE_MAX_def emit_utf8_def Let_def)


lemma demo_two: "sb_inv 0 [] [] [(0, [0x61]), (1, [0x62])] (sb_open_pane None (Some (log_bytes [(0, [0x61]), (1, [0x62])])) 1 99)"
  by (rule open_inv)
     (use torn_Nil in \<open>auto simp: log_file_def run_from_def SB_LINE_MAX_def less_Suc_eq nth_Cons'\<close>)


lemma mem_lines_open: "mem_lines (sb_open_pane x y m n) = (if m \<noteq> 0 then m else SB_MEM_LINES_DEFAULT)"
proof -
  have [simp]: "mem_lines (foldl ring_put s rs) = mem_lines s" for s rs
    by (induction rs arbitrary: s) (simp_all add: ring_put_def Let_def)
  show ?thesis by (auto simp: sb_open_pane_def Let_def split: prod.splits option.splits)
qed

lemma demo_two_old: "file_old (sb_open_pane None x m n) = None"
proof -
  have "file_old (foldl ring_put s rs) = file_old s" for s rs by (induction rs arbitrary: s) simp_all
  then show ?thesis by (simp add: sb_open_pane_def Let_def split: prod.splits)
qed

theorem crash_restart_witness:
  "\<exists>j \<le> 2. (j = 2 \<or> 20 < rec_off [(0, [0x61]), (1, [0x62])] (Suc j)) \<and>
    sb_inv 0 [] [] (take j [(0, [0x61]), (1, [0x62])])
      (sb_open_pane None (Some (take 20 (log_bytes [(0, [0x61]), (1, [0x62])]))) 5 99)"
  using crash_restart [OF demo_two, of 20 5 99]
  by (simp add: demo_two_old numeral_2_eq_2 [symmetric] del: log_bytes_simps)


text \<open>A store with two generations: lines 0 and 1 have been rotated out, line 2 is current.\<close>

definition gap_old :: "line_rec list" where "gap_old = [(0, [0x61, 0x61, 0x61]), (1, [0x62, 0x62, 0x62, 0x62])]"
definition gap_now :: "line_rec list" where "gap_now = [(2, [0x63])]"
definition gap_store :: scrollback where
  "gap_store = sb_open_pane (Some (log_bytes gap_old)) (Some (log_bytes gap_now)) 1 99"

lemma gap_inv: "sb_inv 0 [] gap_old gap_now gap_store"
  unfolding gap_store_def gap_old_def gap_now_def
  by (rule open_inv)
     (use torn_Nil in \<open>auto simp: log_file_def run_from_def SB_LINE_MAX_def less_Suc_eq nth_Cons'\<close>)

text \<open>
  Claim C40. The text buffer of a deep fetch can be too short for a line of the rotated
  generation and still take a shorter line of the current one: the reply then has a gap. Here
  lines 0, 1 and 2 are stored and a fetch from line 0 with room for 5 bytes returns lines 0 and 2.
  The header says the lines come in order from the start, and the reply on the wire numbers them
  from its first sequence number only.
\<close>

theorem fetch_deep_gap:
  "sb_inv 0 [] gap_old gap_now gap_store \<and> \<not> ring_covers gap_store 0 \<and>
   fst (sb_fetch_deep [] gap_store 0 10 10 5) = [(0, [0x61, 0x61, 0x61]), (2, [0x63])]"
proof -
  let ?s = "sb_flush [] gap_store" and ?st = "(disk_bytes_read (sb_flush [] gap_store), disk_recs_swept (sb_flush [] gap_store))"
  have f: "Failed \<notin> set []" by simp
  note fl = flush_inv [OF gap_inv f]
  have sh: "list_all short_rec gap_old" "list_all short_rec gap_now" and runs: "run_from 0 gap_old" "run_from 2 gap_now"
    by (auto simp: gap_old_def gap_now_def SB_LINE_MAX_def run_from_def less_Suc_eq nth_Cons')
  have nc: "\<not> ring_covers gap_store 0"
  proof
    assume "ring_covers gap_store 0"
    then have "ml_seq (sb_ring gap_store ! ring_head gap_store) = 0" and n: "0 < ring_count gap_store"
      by (simp_all add: ring_covers_def word_le_nat_alt unat_eq_zero)
    then have "fst (hd (ring_lines gap_store)) = 0"
      using hd_ring_lines [of gap_store] gap_inv by (simp add: sb_inv_def)
    moreover have "mem_lines gap_store = 1" by (simp add: gap_store_def mem_lines_open)
    ultimately show False using gap_inv by (simp add: sb_inv_def lastn_def gap_old_def gap_now_def)
  qed
  have ix: "idx_old ?s = index_of gap_old" "idx_cur ?s = index_of gap_now"
    using fl by (auto simp: sb_inv_def gen_old_ok_def gap_old_def split: option.splits)
  obtain tail where t: "torn tail" "file_old ?s = Some (log_bytes gap_old @ tail)"
    using fl by (auto simp: sb_inv_def gen_old_ok_def gap_old_def split: option.splits)
  obtain st1 where one: "fetch_from_gen (file_old ?s) (idx_old ?s) 0 10 5 0 [] ?st = ([(0, [0x61, 0x61, 0x61])], 3, st1)"
    using fetch_from_gen_fit [OF sh(1) t(1) runs(1) t(2) ix(1), where used = 0 and bufsz = 5 and lim = 10 and acc = "[]" and start = 0 and st = ?st]
    by (auto simp: gap_old_def)
  obtain used st2 where two: "fetch_from_gen (Some (file_cur ?s)) (idx_cur ?s) 1 10 5 3 [(0, [0x61, 0x61, 0x61])] st1 =
      ([(0, [0x61, 0x61, 0x61]), (2, [0x63])], used, st2)"
    using fetch_from_gen_fit [OF sh(2) torn_Nil runs(2) _ ix(2), where used = 3 and bufsz = 5 and lim = 10
        and acc = "[(0, [0x61, 0x61, 0x61])]" and start = 1 and st = st1 and fl = "Some (file_cur ?s)"] fl(2)
    by (auto simp: gap_now_def)
  have c: "nrec (idx_old ?s) > 0 \<and> 0 < first_seq (idx_old ?s) + word_of_nat (nrec (idx_old ?s))"
    unfolding ix by (simp add: index_of_def gap_old_def)
  have "fst (sb_fetch_deep [] gap_store 0 10 10 5) = [(0, [0x61, 0x61, 0x61]), (2, [0x63])]"
    using nc c one two unfolding sb_fetch_deep_def Let_def ring_covers_def by auto
  with nc gap_inv show ?thesis by blast
qed

lemma push_small:
  assumes "length (wbuf sb) + 17 \<le> WBUF_SIZE" and "file_size sb + length (wbuf sb) + 17 < file_max sb"
  shows "wbuf (sb_push_line ws sb demo_cells) = wbuf sb @ enc_rec (next_seq sb, [0x61])"
    and "file_cur (sb_push_line ws sb demo_cells) = file_cur sb"
    and "next_seq (sb_push_line ws sb demo_cells) = next_seq sb + 1"
    and "file_max (sb_push_line ws sb demo_cells) = file_max sb"
    and "file_size (sb_push_line ws sb demo_cells) = file_size sb"
  using assms by (simp_all add: sb_push_line_def demo_text Let_def maybe_rotate_def length_enc_rec)

text \<open>
  A write that fails part way corrupts the log for every later line. The first line's
  flush writes three bytes and then fails; the buffered rest is dropped. The second line is then
  written whole, behind those three bytes. A reader finds no record at all, and opening the pane
  again cuts the file to nothing and restarts numbering at 0, although the second line was
  stored in full and nothing failed after it.
\<close>

theorem torn_write_hides_log:
  "let a = sb_push_line (\<lambda>_. []) (sb_open_pane None None 2 99) demo_cells;
       b = sb_push_line (\<lambda>_. []) (sb_flush [Wrote 3, Failed] a) demo_cells;
       s = sb_flush [] b
   in file_cur s = take 3 (enc_rec (0, [0x61])) @ enc_rec (1, [0x61]) \<and>
      read_one_log_from (file_cur s) 0 = [] \<and>
      next_seq (sb_open_pane None (Some (file_cur s)) 2 99) = 0 \<and>
      file_cur (sb_open_pane None (Some (file_cur s)) 2 99) = []"
proof -
  let ?o = "sb_open_pane None None 2 99"
  let ?a = "sb_push_line (\<lambda>_. []) ?o demo_cells"
  let ?b = "sb_push_line (\<lambda>_. []) (sb_flush [Wrote 3, Failed] ?a) demo_cells"
  let ?f = "take 3 (enc_rec (0, [0x61])) @ enc_rec (1, [0x61])"
  have o: "next_seq ?o = 0" "file_max ?o = 99" "wbuf ?o = []" "file_cur ?o = []" "file_size ?o = 0" "nrec (idx_cur ?o) = 0"
    by (simp_all add: sb_open_pane_def scan_log_def Let_def read_one_log_from.simps [of "[]"] read_rec_def pread_def idx_reset_def)
  have a: "next_seq ?a = 1" "file_max ?a = 99" "wbuf ?a = enc_rec (0, [0x61])" "file_cur ?a = []" "file_size ?a = 0"
    using push_small [of ?o] o by (simp_all add: WBUF_SIZE_def)
  have fl: "sb_flush [Wrote 3, Failed] ?a = ?a\<lparr>file_cur := take 3 (enc_rec (0, [0x61])), file_size := 3, wbuf := []\<rparr>"
    by (simp add: sb_flush_def wbuf_drain_def a drain_loop.simps length_enc_rec)
  have b: "wbuf ?b = enc_rec (1, [0x61])" "file_cur ?b = take 3 (enc_rec (0, [0x61]))"
    unfolding fl using push_small [of "?a\<lparr>file_cur := take 3 (enc_rec (0, [0x61])), file_size := 3, wbuf := []\<rparr>"] a
    by (simp_all add: WBUF_SIZE_def)
  have "file_cur (sb_flush [] x) = file_cur x @ wbuf x" for x by (simp add: sb_flush_def drain_healthy)
  then have s: "file_cur (sb_flush [] ?b) = ?f" by (simp only: b)
  have enc: "\<exists>y. enc_rec (q, [0x61]) = [13, 0, 0, 0] @ y \<and> length y = 13" for q
    using length_enc_rec [of "(q, [0x61])"] by (simp add: enc_rec_def put_u32_def [of 13])
  obtain x y where xy: "enc_rec (0, [0x61]) = [13, 0, 0, 0] @ x" "enc_rec (1, [0x61]) = [13, 0, 0, 0] @ y" "length y = 13"
    using enc [of 0] enc [of 1] by blast
  have bad: "read_rec ?f 0 = None"
    unfolding xy by (simp add: read_rec_def pread_def get_u32_def SB_LINE_MAX_def Let_def xy(3))
  then have log: "read_one_log_from ?f 0 = []" by (subst read_one_log_from.simps) simp
  have "scan_log (Some ?f) 2 = (0, 0, 0, idx_reset\<lparr>have_gen := True\<rparr>)"
    by (simp add: scan_log_def scan_steps.simps bad idx_reset_def)
  then have "next_seq (sb_open_pane None (Some ?f) 2 99) = 0 \<and> file_cur (sb_open_pane None (Some ?f) 2 99) = []"
    by (simp add: sb_open_pane_def scan_log_def Let_def read_one_log_from.simps [of "[]"] read_rec_def pread_def)
  with log show ?thesis unfolding Let_def s by simp
qed

end
