(* ===== verification/Pager.thy ===== *)
theory Pager
  imports Scrollback
begin

unbundle bit_operations_syntax

text \<open>
  Copy mode (\<open>src/client/pager.c\<close>): the lines collected from the log and from the daemon, the
  view on them, movement, search and key decoding. What the pager writes to the terminal is
  appended to \<open>pout\<close>; a write that fails only loses output. Counts and positions are below
  \<open>PAGER_MAX_LINES\<close> and are natural numbers; sequence numbers are 64-bit words.
\<close>

section \<open>State\<close>

definition PAGER_MAX_LINES :: nat where "PAGER_MAX_LINES = 200000"
definition PAGER_PAT_MAX :: nat where "PAGER_PAT_MAX = 128"

record pager =
  plines :: "line_rec list"
  pcap :: nat
  dropped :: nat
  highest_seq :: u64
  have_any :: bool
  ptop :: nat
  pcur :: nat
  pcols :: nat
  prows :: nat
  sb_lines :: u64
  want_from :: u64
  pactive :: bool
  pesc :: bool
  pcsi :: bool
  csi_buf :: "byte list"
  searching :: bool
  pat :: "byte list"
  have_pat :: bool
  pmsg :: "byte list"
  pout :: "byte list"

definition UINT64_MAX :: u64 where "UINT64_MAX = - 1"

definition pager_new :: pager where
  "pager_new = \<lparr>plines = [], pcap = 0, dropped = 0, highest_seq = 0, have_any = False, ptop = 0, pcur = 0,
    pcols = 80, prows = 24, sb_lines = 0, want_from = UINT64_MAX, pactive = False, pesc = False, pcsi = False,
    csi_buf = [], searching = False, pat = [], have_pat = False, pmsg = [], pout = []\<rparr>"

definition wr :: "pager \<Rightarrow> byte list \<Rightarrow> pager" where
  "wr pg s = pg\<lparr>pout := pout pg @ s\<rparr>"

definition pcount :: "pager \<Rightarrow> nat" where "pcount pg = length (plines pg)"

section \<open>Lines\<close>

definition view_rows :: "pager \<Rightarrow> nat" where
  "view_rows pg = (if prows pg > 1 then prows pg - 1 else 1)"

definition max_top :: "pager \<Rightarrow> nat" where
  "max_top pg = (if pcount pg > view_rows pg then pcount pg - view_rows pg else 0)"

text \<open>Making room for one more line: grow the array, or drop the oldest line at the cap.\<close>

definition make_room :: "pager \<Rightarrow> pager" where
  "make_room pg =
    (if pcount pg = pcap pg then
       let ncap = (if pcap pg \<noteq> 0 then pcap pg * 2 else 1024);
           ncap = (if ncap > PAGER_MAX_LINES then PAGER_MAX_LINES else ncap)
       in if ncap = pcap pg
          then pg\<lparr>plines := drop 1 (plines pg), dropped := dropped pg + 1,
                  ptop := (if ptop pg > 0 then ptop pg - 1 else ptop pg)\<rparr>
          else pg\<lparr>pcap := ncap\<rparr>
     else pg)"

definition pager_add_line :: "pager \<Rightarrow> line_rec \<Rightarrow> pager" where
  "pager_add_line pg r =
    (if have_any pg \<and> fst r \<le> highest_seq pg then pg
     else let pg = pg\<lparr>have_any := True, highest_seq := fst r\<rparr>;
              follow = (ptop pg = max_top pg);
              pg = make_room pg;
              pg = pg\<lparr>plines := plines pg @ [r]\<rparr>
          in if follow then pg\<lparr>ptop := max_top pg, pcur := pcount pg - 1\<rparr> else pg)"

definition pager_load_disk_pane :: "pager \<Rightarrow> byte list option \<Rightarrow> byte list option \<Rightarrow> int \<times> pager" where
  "pager_load_disk_pane pg old_file now_file =
    (case sb_read_log_pane old_file now_file of (n, ls) \<Rightarrow> (n, foldl pager_add_line pg ls))"

definition pager_add_batch_done :: "pager \<Rightarrow> nat \<Rightarrow> pager" where
  "pager_add_batch_done pg n =
    (if n = 0 \<or> \<not> have_any pg \<or> sb_lines pg \<le> highest_seq pg + 1 then pg\<lparr>want_from := UINT64_MAX\<rparr>
     else pg\<lparr>want_from := highest_seq pg + 1\<rparr>)"

section \<open>Stripping escape sequences\<close>

fun skip_csi :: "byte list \<Rightarrow> byte list" where
  "skip_csi [] = []"
| "skip_csi (b # bs) = (if b < 0x40 \<or> b > 0x7e then skip_csi bs else bs)"

fun skip_osc :: "byte list \<Rightarrow> byte list" where
  "skip_osc [] = []"
| "skip_osc (b # bs) = (if b = 0x07 then bs
     else if b = 0x1b \<and> bs \<noteq> [] \<and> hd bs = 0x5c then drop 1 bs
     else skip_osc bs)"

lemma length_skip_csi [simp]: "length (skip_csi bs) \<le> length bs"
  by (induction bs) auto

lemma length_skip_osc [simp]: "length (skip_osc bs) \<le> length bs"
  by (induction bs rule: skip_osc.induct) auto

function strip_loop :: "nat \<Rightarrow> byte list \<Rightarrow> byte list \<Rightarrow> byte list" where
  "strip_loop cap acc bs = (case bs of [] \<Rightarrow> acc
     | b # rest \<Rightarrow>
         if b = 0x1b then
           (case rest of [] \<Rightarrow> acc
            | n # tail \<Rightarrow>
                if n = 0x5b then strip_loop cap acc (skip_csi tail)
                else if n = 0x5d then strip_loop cap acc (skip_osc tail)
                else strip_loop cap acc tail)
         else if b < 0x20 \<or> b = 0x7f then strip_loop cap acc rest
         else strip_loop cap (if length acc + 1 < cap then acc @ [b] else acc) rest)"
  by pat_completeness auto

termination
  by (relation "measure (\<lambda>(cap, acc, bs). length bs)") (auto simp: less_Suc_eq_le le_SucI)

declare strip_loop.simps [simp del]

definition pager_strip_ansi :: "byte list \<Rightarrow> nat \<Rightarrow> byte list" where
  "pager_strip_ansi bs cap = strip_loop cap [] bs"

section \<open>View and drawing\<close>

definition clamp_top :: "pager \<Rightarrow> pager" where
  "clamp_top pg = (if ptop pg > max_top pg then pg\<lparr>ptop := max_top pg\<rparr> else pg)"

definition goto_top :: "pager \<Rightarrow> pager" where
  "goto_top pg = pg\<lparr>ptop := 0, pcur := 0\<rparr>"

definition goto_bottom :: "pager \<Rightarrow> pager" where
  "goto_bottom pg = pg\<lparr>ptop := max_top pg, pcur := (if pcount pg \<noteq> 0 then pcount pg - 1 else 0)\<rparr>"

definition draw_row :: "pager \<Rightarrow> nat \<Rightarrow> byte list" where
  "draw_row pg r =
    (let i = ptop pg + r in
     sgr 0 @ (if i < pcount pg then snd (plines pg ! i) else []) @ sgr 0 @ [0x1b, 0x5b, 0x4b] @
     (if r + 1 < view_rows pg then [0x0d, 0x0a] else []))"

definition status_text :: "pager \<Rightarrow> byte list" where
  "status_text pg =
    (if searching pg then take 511 ([0x2f] @ pat pg)
     else let n = pcount pg; vr = view_rows pg;
              last = (if n \<noteq> 0 then ptop pg + (if vr < n - ptop pg then vr else n - ptop pg) else 0);
              pct = (if n \<noteq> 0 then last * 100 div n else 100)
          in take 511 (ascii ''scrollback '' @ dec_digits (if n \<noteq> 0 then ptop pg + 1 else 0) @ [0x2d] @ dec_digits last @
               [0x2f] @ dec_digits n @ ascii '' ('' @ dec_digits pct @ ascii ''%)'' @
               (if dropped pg \<noteq> 0 then ascii ''  +older dropped'' else []) @ pmsg pg @
               ascii ''  [j/k ^f/^b g/G / n q]''))"

definition pager_draw :: "pager \<Rightarrow> pager" where
  "pager_draw pg =
    (if \<not> pactive pg then pg
     else wr pg ([0x1b, 0x5b, 0x48] @ concat (map (draw_row pg) [0..<view_rows pg]) @
            [0x1b, 0x5b] @ dec_digits (prows pg) @ [0x3b, 0x31, 0x48] @ sgr 0 @ sgr 7 @
            take (pcols pg) (status_text pg) @ sgr 0 @ [0x1b, 0x5b, 0x4b] @
            [0x1b, 0x5b, 0x3f, 0x32, 0x35, if searching pg then 0x68 else 0x6c]))"

definition pager_resize :: "pager \<Rightarrow> nat \<Rightarrow> nat \<Rightarrow> pager" where
  "pager_resize pg c r =
    (if c = 0 \<or> r = 0 then pg
     else let pg = clamp_top (pg\<lparr>pcols := c, prows := r\<rparr>) in if pactive pg then pager_draw pg else pg)"

definition pager_enter :: "pager \<Rightarrow> nat \<Rightarrow> nat \<Rightarrow> u64 \<Rightarrow> pager" where
  "pager_enter pg c r total_lines =
    (let pg = pg\<lparr>pcols := (if c \<noteq> 0 then c else 80), prows := (if r \<noteq> 0 then r else 24), sb_lines := total_lines,
                 pactive := True, pesc := False, pcsi := False, searching := False, csi_buf := [], pmsg := []\<rparr>;
         pg = pg\<lparr>want_from := (if \<not> have_any pg then 0
                              else if highest_seq pg + 1 < total_lines then highest_seq pg + 1 else UINT64_MAX)\<rparr>;
         pg = wr (goto_bottom pg)
                ([0x1b, 0x5b, 0x3f, 0x31, 0x30, 0x34, 0x39, 0x68, 0x1b, 0x5b, 0x3f, 0x37, 0x6c,
                  0x1b, 0x5b, 0x3f, 0x32, 0x35, 0x6c] @ sgr 0 @ [0x1b, 0x5b, 0x32, 0x4a, 0x1b, 0x5b, 0x48])
     in pager_draw pg)"

definition pager_leave :: "pager \<Rightarrow> pager" where
  "pager_leave pg =
    (if \<not> pactive pg then pg
     else wr (pg\<lparr>pactive := False, searching := False, pesc := False, pcsi := False\<rparr>)
            ([0x1b, 0x5b, 0x3f, 0x37, 0x68] @ sgr 0 @
             [0x1b, 0x5b, 0x3f, 0x32, 0x35, 0x68, 0x1b, 0x5b, 0x3f, 0x31, 0x30, 0x34, 0x39, 0x6c]))"

section \<open>Movement and search\<close>

definition move_lines :: "pager \<Rightarrow> int \<Rightarrow> pager" where
  "move_lines pg delta =
    (let t = int (ptop pg) + delta;
         t = (if t < 0 then 0 else t);
         t = (if t > int (max_top pg) then int (max_top pg) else t)
     in pg\<lparr>ptop := nat t, pcur := nat t\<rparr>)"

text \<open>\<open>strstr\<close> on the text before the terminator.\<close>

fun strstr :: "byte list \<Rightarrow> byte list \<Rightarrow> bool" where
  "strstr [] needle \<longleftrightarrow> needle = []"
| "strstr (b # bs) needle \<longleftrightarrow> take (length needle) (b # bs) = needle \<or> strstr bs needle"

definition line_matches :: "pager \<Rightarrow> nat \<Rightarrow> bool" where
  "line_matches pg i = strstr (pager_strip_ansi (snd (plines pg ! i)) (SB_LINE_MAX + 1)) (pat pg)"

fun first_match :: "pager \<Rightarrow> nat list \<Rightarrow> nat option" where
  "first_match pg [] = None"
| "first_match pg (i # is) = (if line_matches pg i then Some i else first_match pg is)"

text \<open>The lines the loop visits, for \<open>dir\<close> 1 and -1.\<close>

definition search_order :: "pager \<Rightarrow> int \<Rightarrow> int \<Rightarrow> nat list" where
  "search_order pg i dir =
    (if i < 0 \<or> i \<ge> int (pcount pg) then []
     else if dir = 1 then [nat i..<pcount pg] else rev [0..<nat i + 1])"

definition search_step_from :: "pager \<Rightarrow> int \<Rightarrow> bool \<Rightarrow> bool \<times> pager" where
  "search_step_from pg dir from_here =
    (if \<not> have_pat pg \<or> pcount pg = 0 then (False, pg)
     else case first_match pg (search_order pg (int (pcur pg) + (if from_here then 0 else dir)) dir) of
       None \<Rightarrow> (False, pg)
     | Some i \<Rightarrow> (True, clamp_top (pg\<lparr>pcur := i, ptop := i\<rparr>)))"

definition search_step :: "pager \<Rightarrow> int \<Rightarrow> bool \<times> pager" where
  "search_step pg dir = search_step_from pg dir False"

definition set_msg :: "pager \<Rightarrow> byte list \<Rightarrow> pager" where
  "set_msg pg m = pg\<lparr>pmsg := take 95 ([0x20, 0x20] @ m)\<rparr>"

section \<open>Keys\<close>

datatype pager_action = PAGER_CONTINUE | PAGER_EXIT

definition search_key :: "pager \<Rightarrow> int \<Rightarrow> pager" where
  "search_key pg dir =
    (if \<not> have_pat pg then set_msg pg (ascii ''no pattern'')
     else case search_step pg dir of
       (False, pg) \<Rightarrow> set_msg pg (ascii ''pattern not found'')
     | (True, pg) \<Rightarrow> pg\<lparr>pmsg := []\<rparr>)"

text \<open>The action, the pager and whether to redraw.\<close>

definition key_normal :: "pager \<Rightarrow> byte \<Rightarrow> pager_action \<times> pager \<times> bool" where
  "key_normal pg b =
    (let vr = int (view_rows pg); go = (\<lambda>pg. (PAGER_CONTINUE, pg, True)) in
     if b = 0x71 then (PAGER_EXIT, pg, True)
     else if b = 0x6a then go (move_lines pg 1)
     else if b = 0x6b then go (move_lines pg (- 1))
     else if b = 0x20 \<or> b = 0x06 then go (move_lines pg vr)
     else if b = 0x02 then go (move_lines pg (- vr))
     else if b = 0x04 then go (move_lines pg (vr div 2))
     else if b = 0x15 then go (move_lines pg (- (vr div 2)))
     else if b = 0x67 then go (goto_top pg)
     else if b = 0x47 then go (goto_bottom pg)
     else if b = 0x2f then go (pg\<lparr>searching := True, pat := [], pmsg := []\<rparr>)
     else if b = 0x6e then go (search_key pg 1)
     else if b = 0x4e then go (search_key pg (- 1))
     else (PAGER_CONTINUE, pg, False))"

definition key_csi :: "pager \<Rightarrow> byte \<Rightarrow> pager" where
  "key_csi pg b =
    (let vr = int (view_rows pg); p0 = (if csi_buf pg \<noteq> [] then Some (hd (csi_buf pg)) else None) in
     if b = 0x41 then move_lines pg (- 1)
     else if b = 0x42 then move_lines pg 1
     else if b = 0x48 then goto_top pg
     else if b = 0x46 then goto_bottom pg
     else if b = 0x7e then
       (if p0 = Some 0x35 then move_lines pg (- vr)
        else if p0 = Some 0x36 then move_lines pg vr
        else if p0 = Some 0x31 \<or> p0 = Some 0x37 then goto_top pg
        else if p0 = Some 0x34 \<or> p0 = Some 0x38 then goto_bottom pg
        else pg)
     else pg)"

text \<open>One byte at the search prompt: the pager and whether to redraw.\<close>

definition key_search :: "pager \<Rightarrow> byte \<Rightarrow> pager \<times> bool" where
  "key_search pg b =
    (if b = 0x0d \<or> b = 0x0a then
       (let pg = pg\<lparr>searching := False, have_pat := pat pg \<noteq> []\<rparr> in
        if have_pat pg then
          (case search_step_from pg 1 True of
             (False, pg) \<Rightarrow> (set_msg pg (ascii ''pattern not found''), True)
           | (True, pg) \<Rightarrow> (pg\<lparr>pmsg := []\<rparr>, True))
        else (pg\<lparr>pmsg := []\<rparr>, True))
     else if b = 0x7f \<or> b = 0x08 then
       (if pat pg \<noteq> [] then (pg\<lparr>pat := butlast (pat pg)\<rparr>, True) else (pg\<lparr>searching := False\<rparr>, True))
     else if b = 0x07 \<or> b = 0x03 then (pg\<lparr>searching := False\<rparr>, True)
     else if b \<ge> 0x20 \<and> b < 0x7f \<and> length (pat pg) < PAGER_PAT_MAX then (pg\<lparr>pat := pat pg @ [b]\<rparr>, True)
     else (pg, False))"

fun input_loop :: "pager \<Rightarrow> bool \<Rightarrow> byte list \<Rightarrow> pager_action \<times> pager \<times> bool" where
  "input_loop pg redraw [] = (PAGER_CONTINUE, pg, redraw)"
| "input_loop pg redraw (b # bs) =
    (if pcsi pg then
       (if b \<ge> 0x40 \<and> b \<le> 0x7e then input_loop (key_csi (pg\<lparr>pcsi := False\<rparr>) b) True bs
        else if length (csi_buf pg) < 16 then input_loop (pg\<lparr>csi_buf := csi_buf pg @ [b]\<rparr>) redraw bs
        else input_loop pg redraw bs)
     else if pesc pg then
       (let pg = pg\<lparr>pesc := False\<rparr> in
        if b = 0x5b \<or> b = 0x4f then input_loop (pg\<lparr>pcsi := True, csi_buf := []\<rparr>) redraw bs
        else if searching pg then input_loop (pg\<lparr>searching := False\<rparr>) True bs
        else (PAGER_EXIT, pg, redraw))
     else if b = 0x1b then input_loop (pg\<lparr>pesc := True\<rparr>) redraw bs
     else if searching pg then
       (case key_search pg b of (pg, rd) \<Rightarrow> input_loop pg (redraw \<or> rd) bs)
     else (case key_normal pg b of (act, pg, rd) \<Rightarrow>
       if act = PAGER_EXIT then (PAGER_EXIT, pg, redraw \<or> rd) else input_loop pg (redraw \<or> rd) bs))"

definition pager_input :: "pager \<Rightarrow> byte list \<Rightarrow> pager_action \<times> pager" where
  "pager_input pg bs =
    (case input_loop pg False bs of (act, pg, redraw) \<Rightarrow>
       if act = PAGER_EXIT then (PAGER_EXIT, pg)
       else (PAGER_CONTINUE, if redraw then pager_draw pg else pg))"

definition pager_esc_timeout :: "pager \<Rightarrow> pager_action \<times> pager" where
  "pager_esc_timeout pg =
    (if \<not> pesc pg then (PAGER_CONTINUE, pg)
     else let pg = pg\<lparr>pesc := False\<rparr> in
       if searching pg then (PAGER_CONTINUE, pager_draw (pg\<lparr>searching := False\<rparr>))
       else (PAGER_EXIT, pg))"


section \<open>The pager stays well formed\<close>

text \<open>Sequence numbers ascend, the view and the current line are inside the collected lines, and
  every fixed buffer keeps to its size.\<close>

definition lines_ok :: "pager \<Rightarrow> bool" where
  "lines_ok pg \<longleftrightarrow> pcount pg \<le> pcap pg \<and> pcap pg \<le> PAGER_MAX_LINES \<and> sorted_wrt (<) (map fst (plines pg)) \<and>
    (if have_any pg then plines pg \<noteq> [] \<and> highest_seq pg = fst (last (plines pg)) else plines pg = [])"

definition view_ok :: "pager \<Rightarrow> bool" where
  "view_ok pg \<longleftrightarrow> ptop pg \<le> max_top pg \<and> (if pcount pg = 0 then pcur pg = 0 else pcur pg < pcount pg)"

definition bufs_ok :: "pager \<Rightarrow> bool" where
  "bufs_ok pg \<longleftrightarrow> length (pat pg) \<le> PAGER_PAT_MAX \<and> length (csi_buf pg) \<le> 16 \<and> length (pmsg pg) \<le> 95"

definition pager_ok :: "pager \<Rightarrow> bool" where
  "pager_ok pg \<longleftrightarrow> lines_ok pg \<and> view_ok pg \<and> bufs_ok pg"

named_theorems pager_defs

lemmas [pager_defs] = lines_ok_def view_ok_def bufs_ok_def pager_ok_def max_top_def view_rows_def pcount_def

lemma max_top_le: "max_top pg \<le> pcount pg"
  by (simp add: max_top_def)

lemma view_rows_pos: "0 < view_rows pg"
  by (simp add: view_rows_def)

lemma pager_new_ok: "pager_ok pager_new"
  by (simp add: pager_new_def pager_defs)

lemma sorted_snoc: "sorted_wrt (<) (xs @ [x :: 'a :: linorder]) \<longleftrightarrow> sorted_wrt (<) xs \<and> (xs = [] \<or> last xs < x)"
proof (cases xs rule: rev_cases)
  case (snoc ys y)
  then show ?thesis by (auto simp: sorted_wrt_append dest: less_trans)
qed simp

lemma make_room_props:
  assumes "pcount pg \<le> pcap pg" and "pcap pg \<le> PAGER_MAX_LINES"
  shows "length (plines (make_room pg)) < pcap (make_room pg)" "pcap (make_room pg) \<le> PAGER_MAX_LINES"
    "plines (make_room pg) = (if pcount pg = PAGER_MAX_LINES then drop 1 (plines pg) else plines pg)"
    "ptop (make_room pg) = (if pcount pg = PAGER_MAX_LINES then ptop pg - 1 else ptop pg)"
    "pcur (make_room pg) = pcur pg" "prows (make_room pg) = prows pg"
    "highest_seq (make_room pg) = highest_seq pg" "have_any (make_room pg) = have_any pg"
    "bufs_ok (make_room pg) = bufs_ok pg"
  using assms by (auto simp: make_room_def Let_def pager_defs PAGER_MAX_LINES_def)

lemma add_line_fields:
  assumes "\<not> (have_any pg \<and> fst r \<le> highest_seq pg)"
  shows "plines (pager_add_line pg r) = plines (make_room (pg\<lparr>have_any := True, highest_seq := fst r\<rparr>)) @ [r]"
    "highest_seq (pager_add_line pg r) = fst r" "have_any (pager_add_line pg r)"
    "pcap (pager_add_line pg r) = pcap (make_room (pg\<lparr>have_any := True, highest_seq := fst r\<rparr>))"
  using assms by (auto simp: pager_add_line_def Let_def make_room_def pcount_def)

lemma lines_ok_snoc:
  assumes "lines_ok pg" and "\<not> (have_any pg \<and> fst r \<le> highest_seq pg)"
  shows "sorted_wrt (<) (map fst (plines pg @ [r]))" "sorted_wrt (<) (map fst (drop k (plines pg) @ [r]))"
proof -
  have "plines pg = [] \<or> fst (last (plines pg)) < fst r"
    using assms by (auto simp: lines_ok_def split: if_splits)
  then show s: "sorted_wrt (<) (map fst (plines pg @ [r]))"
    using assms(1) by (cases "plines pg = []") (auto simp: lines_ok_def sorted_snoc last_map)
  show "sorted_wrt (<) (map fst (drop k (plines pg) @ [r]))"
    using sorted_wrt_drop [OF s, of k] by (cases "k \<le> length (plines pg)") (simp_all add: drop_map)
qed

lemma add_line_ok:
  assumes "pager_ok pg" shows "pager_ok (pager_add_line pg r)"
proof (cases "have_any pg \<and> fst r \<le> highest_seq pg")
  case True
  with assms show ?thesis by (simp add: pager_add_line_def)
next
  case False
  let ?p = "pg\<lparr>have_any := True, highest_seq := fst r\<rparr>"
  let ?q = "pager_add_line pg r"
  have ok: "lines_ok pg" "view_ok pg" "bufs_ok pg" using assms by (simp_all add: pager_ok_def)
  have "pcount ?p \<le> pcap ?p" "pcap ?p \<le> PAGER_MAX_LINES" using ok(1) by (simp_all add: lines_ok_def pcount_def)
  note R = make_room_props [OF this] and F = add_line_fields [OF False]
  have full: "pcount ?p = pcount pg" by (simp add: pcount_def)
  have lines: "plines ?q = (if pcount pg = PAGER_MAX_LINES then drop 1 (plines pg) else plines pg) @ [r]"
    using R(3) F(1) by (simp add: full)
  have "sorted_wrt (<) (map fst (plines ?q))"
    unfolding lines using lines_ok_snoc(1) [OF ok(1) False] lines_ok_snoc(2) [OF ok(1) False, of 1] by simp
  then have "lines_ok ?q"
    using R(1,2) F(1,2,3,4) by (simp add: lines_ok_def pcount_def)
  moreover have cnt: "pcount ?q = (if pcount pg = PAGER_MAX_LINES then pcount pg else pcount pg + 1)"
    using lines by (auto simp: pcount_def PAGER_MAX_LINES_def)
  have mt: "max_top ?p = max_top pg" by (simp add: max_top_def pcount_def view_rows_def)
  have view: "view_rows ?q = view_rows pg"
    using False R(6) by (auto simp: pager_add_line_def Let_def view_rows_def)
  have "view_ok ?q"
  proof (cases "ptop pg = max_top pg")
    case True
    have "?q = (let s = make_room ?p in let s = s\<lparr>plines := plines s @ [r]\<rparr> in s\<lparr>ptop := max_top s, pcur := pcount s - 1\<rparr>)"
      unfolding pager_add_line_def if_not_P [OF False] using True mt by (simp add: Let_def)
    then show ?thesis by (simp add: Let_def view_ok_def max_top_def pcount_def view_rows_def)
  next
    case no: False
    have q: "?q = (let s = make_room ?p in s\<lparr>plines := plines s @ [r]\<rparr>)"
      unfolding pager_add_line_def if_not_P [OF False] using no mt by (simp add: Let_def)
    have "ptop ?q = (if pcount pg = PAGER_MAX_LINES then ptop pg - 1 else ptop pg)" "pcur ?q = pcur pg"
      using R(4,5) by (simp_all add: q Let_def full)
    moreover have "pcount pg \<noteq> 0" using no ok(2) by (auto simp: view_ok_def max_top_def split: if_splits)
    ultimately show ?thesis
      using ok(2) no cnt view by (auto simp: view_ok_def max_top_def split: if_splits)
  qed
  moreover have "bufs_ok ?q"
    using R(9) ok(3) False by (auto simp: pager_add_line_def Let_def bufs_ok_def)
  ultimately show ?thesis by (simp add: pager_ok_def)
qed

lemma wr_ok [simp]: "pager_ok (wr pg s) = pager_ok pg"
  by (simp add: wr_def pager_defs)

lemma draw_ok [simp]: "pager_ok (pager_draw pg) = pager_ok pg"
  by (simp add: pager_draw_def)

lemma goto_ok: "pager_ok pg \<Longrightarrow> pager_ok (goto_top pg)" "pager_ok pg \<Longrightarrow> pager_ok (goto_bottom pg)"
  by (auto simp: goto_top_def goto_bottom_def pager_defs)

lemma clamp_top_ok:
  "lines_ok pg \<Longrightarrow> bufs_ok pg \<Longrightarrow> (if pcount pg = 0 then pcur pg = 0 else pcur pg < pcount pg) \<Longrightarrow> pager_ok (clamp_top pg)"
  by (auto simp: clamp_top_def pager_defs)

lemma move_lines_ok: "pager_ok pg \<Longrightarrow> pager_ok (move_lines pg d)"
  by (auto simp: move_lines_def pager_defs Let_def)

lemma set_msg_ok: "pager_ok pg \<Longrightarrow> pager_ok (set_msg pg m)"
  by (auto simp: set_msg_def pager_defs)

lemma flags_ok:
  "pager_ok pg \<Longrightarrow> pager_ok (pg\<lparr>pesc := x\<rparr>)" "pager_ok pg \<Longrightarrow> pager_ok (pg\<lparr>pcsi := x\<rparr>)"
  "pager_ok pg \<Longrightarrow> pager_ok (pg\<lparr>searching := x\<rparr>)" "pager_ok pg \<Longrightarrow> pager_ok (pg\<lparr>have_pat := x\<rparr>)"
  "pager_ok pg \<Longrightarrow> pager_ok (pg\<lparr>pmsg := []\<rparr>)" "pager_ok pg \<Longrightarrow> pager_ok (pg\<lparr>want_from := w\<rparr>)"
  "pager_ok pg \<Longrightarrow> pager_ok (pg\<lparr>pat := []\<rparr>)" "pager_ok pg \<Longrightarrow> pager_ok (pg\<lparr>csi_buf := []\<rparr>)"
  "pager_ok pg \<Longrightarrow> length (pat pg) < PAGER_PAT_MAX \<Longrightarrow> pager_ok (pg\<lparr>pat := pat pg @ [b]\<rparr>)"
  "pager_ok pg \<Longrightarrow> pager_ok (pg\<lparr>pat := butlast (pat pg)\<rparr>)" "pager_ok pg \<Longrightarrow> pager_ok (pg\<lparr>pat := [b]\<rparr>)"
  "pager_ok pg \<Longrightarrow> length (csi_buf pg) < 16 \<Longrightarrow> pager_ok (pg\<lparr>csi_buf := csi_buf pg @ [b]\<rparr>)"
  by (auto simp: pager_defs PAGER_PAT_MAX_def)

lemma first_match_in: "first_match pg is = Some i \<Longrightarrow> i \<in> set is \<and> line_matches pg i"
  by (induction "is") (auto split: if_splits)

lemma search_order_bound: "i \<in> set (search_order pg j d) \<Longrightarrow> i < pcount pg"
  by (auto simp: search_order_def split: if_splits)

lemma search_ok: "pager_ok pg \<Longrightarrow> pager_ok (snd (search_step_from pg d h))"
proof -
  assume ok: "pager_ok pg"
  show ?thesis
  proof (cases "\<not> have_pat pg \<or> pcount pg = 0")
    case False
    show ?thesis
    proof (cases "first_match pg (search_order pg (int (pcur pg) + (if h then 0 else d)) d)")
      case (Some i)
      then have "i < pcount pg" using first_match_in search_order_bound by blast
      with ok have "pager_ok (clamp_top (pg\<lparr>pcur := i, ptop := i\<rparr>))"
        by (intro clamp_top_ok) (auto simp: pager_ok_def lines_ok_def bufs_ok_def pcount_def)
      with Some False show ?thesis by (simp add: search_step_from_def)
    qed (use ok False in \<open>simp add: search_step_from_def\<close>)
  qed (use ok in \<open>auto simp: search_step_from_def\<close>)
qed

lemmas pager_ops_ok = goto_ok move_lines_ok set_msg_ok flags_ok search_ok

lemma search_key_ok: "pager_ok pg \<Longrightarrow> pager_ok (search_key pg d)"
  using search_ok [of pg d False]
  by (auto simp: search_key_def search_step_def intro!: pager_ops_ok split: prod.splits bool.splits)

lemma key_normal_ok: "pager_ok pg \<Longrightarrow> pager_ok (fst (snd (key_normal pg b)))"
  by (simp add: key_normal_def Let_def pager_ops_ok search_key_ok)

lemma key_csi_ok: "pager_ok pg \<Longrightarrow> pager_ok (key_csi pg b)"
  by (simp add: key_csi_def Let_def pager_ops_ok)

lemma search_result_ok:
  "pager_ok pg \<Longrightarrow> search_step_from pg d h = (f, pg') \<Longrightarrow> pager_ok pg'"
  using search_ok [of pg d h] by simp

lemma key_search_ok: "pager_ok pg \<Longrightarrow> pager_ok (fst (key_search pg b))"
proof -
  assume ok: "pager_ok pg"
  let ?p = "pg\<lparr>searching := False, have_pat := pat pg \<noteq> []\<rparr>"
  have p: "pager_ok ?p" using flags_ok(3,4) ok by blast
  have "pager_ok (fst (case search_step_from ?p 1 True of (False, q) \<Rightarrow> (set_msg q m, True) | (True, q) \<Rightarrow> (q\<lparr>pmsg := []\<rparr>, True)))" for m
    by (cases "search_step_from ?p 1 True")
       (auto dest!: search_result_ok [OF p] simp: set_msg_ok flags_ok split: bool.splits)
  with p ok show ?thesis by (auto simp: key_search_def Let_def flags_ok)
qed

lemma input_loop_ok: "pager_ok pg \<Longrightarrow> pager_ok (fst (snd (input_loop pg rd bs)))"
proof (induction bs arbitrary: pg rd)
  case (Cons b bs)
  note key = key_search_ok [OF Cons.prems, of b] key_normal_ok [OF Cons.prems, of b]
  show ?case
  proof (cases "pcsi pg \<or> pesc pg \<or> b = 0x1b")
    case True
    with Cons show ?thesis by (auto simp: Let_def key_csi_ok flags_ok)
  next
    case False
    obtain p1 r1 where k1: "key_search pg b = (p1, r1)" by (cases "key_search pg b")
    obtain act p2 r2 where k2: "key_normal pg b = (act, p2, r2)" by (cases "key_normal pg b")
    with k1 key Cons.IH False show ?thesis by simp
  qed
qed simp

section \<open>Everything that can happen to a pager\<close>

datatype pager_op = Add_Line line_rec | Batch_Done nat | Enter nat nat u64 | Leave | Pager_Resize nat nat
  | Input "byte list" | Esc_Timeout

fun pager_apply :: "pager \<Rightarrow> pager_op \<Rightarrow> pager" where
  "pager_apply pg (Add_Line r) = pager_add_line pg r"
| "pager_apply pg (Batch_Done n) = pager_add_batch_done pg n"
| "pager_apply pg (Enter c r n) = pager_enter pg c r n"
| "pager_apply pg Leave = pager_leave pg"
| "pager_apply pg (Pager_Resize c r) = pager_resize pg c r"
| "pager_apply pg (Input bs) = snd (pager_input pg bs)"
| "pager_apply pg Esc_Timeout = snd (pager_esc_timeout pg)"

lemma goto_bottom_fresh: "lines_ok pg \<Longrightarrow> bufs_ok pg \<Longrightarrow> pager_ok (goto_bottom pg)"
  by (simp add: goto_bottom_def pager_defs)

lemma enter_ok: "pager_ok pg \<Longrightarrow> pager_ok (pager_enter pg c r n)"
  unfolding pager_enter_def Let_def draw_ok wr_ok
  by (rule goto_bottom_fresh) (auto simp: pager_ok_def lines_ok_def bufs_ok_def pcount_def)

lemma leave_ok: "pager_ok pg \<Longrightarrow> pager_ok (pager_leave pg)"
  by (auto simp: pager_leave_def wr_def pager_defs)

lemma resize_ok: "pager_ok pg \<Longrightarrow> pager_ok (pager_resize pg c r)"
proof -
  assume ok: "pager_ok pg"
  then have "pager_ok (clamp_top (pg\<lparr>pcols := c, prows := r\<rparr>))"
    by (intro clamp_top_ok) (auto simp: pager_ok_def lines_ok_def bufs_ok_def view_ok_def pcount_def)
  with ok show ?thesis by (simp add: pager_resize_def Let_def)
qed

lemma input_ok: "pager_ok pg \<Longrightarrow> pager_ok (snd (pager_input pg bs))"
  using input_loop_ok [of pg False bs] by (auto simp: pager_input_def split: prod.splits)

lemma timeout_ok: "pager_ok pg \<Longrightarrow> pager_ok (snd (pager_esc_timeout pg))"
  by (simp add: pager_esc_timeout_def Let_def flags_ok)

lemma batch_ok: "pager_ok pg \<Longrightarrow> pager_ok (pager_add_batch_done pg n)"
  by (simp add: pager_add_batch_done_def flags_ok)

interpretation copy_mode: inv_machine pager_apply pager_ok
proof
  show "pager_ok pg \<Longrightarrow> pager_ok (pager_apply pg e)" for pg e
    by (cases e) (simp_all add: add_line_ok batch_ok enter_ok leave_ok resize_ok input_ok timeout_ok)
qed

text \<open>
  Claim C29. Whatever lines arrive and whatever keys, resizes and timeouts follow, in any order,
  the pager stays well formed: at most 200000 lines with strictly ascending sequence numbers,
  the view never past the last page, the current line one of the lines, and the pattern, the
  escape sequence and the message within their arrays.
\<close>

theorem pager_well_formed:
  "pager_ok (foldl pager_apply pager_new ops)"
  by (rule copy_mode.run_inv [OF pager_new_ok])

section \<open>The lines collected\<close>

text \<open>What two overlapping sources add up to: each line that is newer than all before it.\<close>

fun newer :: "u64 option \<Rightarrow> line_rec list \<Rightarrow> line_rec list" where
  "newer h [] = []"
| "newer h (r # rs) = (if h \<noteq> None \<and> fst r \<le> the h then newer h rs else r # newer (Some (fst r)) rs)"

definition newest :: "pager \<Rightarrow> u64 option" where
  "newest pg = (if have_any pg then Some (highest_seq pg) else None)"

lemma add_line_lines:
  assumes "lines_ok pg"
  shows "plines (pager_add_line pg r) = lastn PAGER_MAX_LINES (plines pg @ newer (newest pg) [r])"
    and "newest (pager_add_line pg r) = (if newer (newest pg) [r] = [] then newest pg else Some (fst r))"
proof -
  have short: "pcount pg \<le> PAGER_MAX_LINES" using assms by (simp add: lines_ok_def)
  have "plines (pager_add_line pg r) = lastn PAGER_MAX_LINES (plines pg @ newer (newest pg) [r]) \<and>
    newest (pager_add_line pg r) = (if newer (newest pg) [r] = [] then newest pg else Some (fst r))"
  proof (cases "have_any pg \<and> fst r \<le> highest_seq pg")
    case True
    with short show ?thesis by (simp add: pager_add_line_def newest_def lastn_def pcount_def)
  next
    case False
    let ?p = "pg\<lparr>have_any := True, highest_seq := fst r\<rparr>"
    have "pcount ?p \<le> pcap ?p" "pcap ?p \<le> PAGER_MAX_LINES" using assms by (simp_all add: lines_ok_def pcount_def)
    note R = make_room_props(3) [OF this] and F = add_line_fields [OF False]
    have n: "newer (newest pg) [r] = [r]" using False by (auto simp: newest_def)
    have "newest (pager_add_line pg r) = Some (fst r)" using F by (simp add: newest_def)
    moreover have "plines (pager_add_line pg r) = lastn PAGER_MAX_LINES (plines pg @ [r])"
      using F(1) R short by (auto simp: lastn_def pcount_def PAGER_MAX_LINES_def)
    ultimately show ?thesis unfolding n by simp
  qed
  then show "plines (pager_add_line pg r) = lastn PAGER_MAX_LINES (plines pg @ newer (newest pg) [r])"
    and "newest (pager_add_line pg r) = (if newer (newest pg) [r] = [] then newest pg else Some (fst r))"
    by blast+
qed

lemma add_lines_lines:
  assumes "pager_ok pg"
  shows "plines (foldl pager_add_line pg rs) = lastn PAGER_MAX_LINES (plines pg @ newer (newest pg) rs)"
  using assms
proof (induction rs arbitrary: pg)
  case Nil
  then show ?case by (simp add: pager_ok_def lines_ok_def lastn_def pcount_def)
next
  case (Cons r rs)
  have l: "lines_ok pg" using Cons.prems by (simp add: pager_ok_def)
  note A = add_line_lines [OF l, of r]
  have "plines (foldl pager_add_line pg (r # rs)) =
      lastn PAGER_MAX_LINES (plines (pager_add_line pg r) @ newer (newest (pager_add_line pg r)) rs)"
    using Cons.IH [OF add_line_ok [OF Cons.prems]] by simp
  also have "\<dots> = lastn PAGER_MAX_LINES (plines pg @ newer (newest pg) [r] @ newer (newest (pager_add_line pg r)) rs)"
    by (simp only: A lastn_absorb append_assoc)
  also have "newer (newest pg) [r] @ newer (newest (pager_add_line pg r)) rs = newer (newest pg) (r # rs)"
    by (simp add: A(2))
  finally show ?case .
qed

lemma newer_above:
  "(\<forall>r\<in>set rs. h = None \<or> the h < fst r) \<Longrightarrow> sorted_wrt (<) (map fst rs) \<Longrightarrow> newer h rs = rs"
  by (induction h rs rule: newer.induct) auto

lemma newer_below: "(\<forall>r\<in>set rs. fst r \<le> m) \<Longrightarrow> newer (Some m) (rs @ ts) = newer (Some m) ts"
  by (induction rs) auto

text \<open>
  Two overlapping sources make one history. When the pager is given a first list of
  lines \<open>xs @ ys\<close> (the log) and then \<open>ys @ zs\<close> (the daemon's reply, which repeats some of them),
  and \<open>xs @ ys @ zs\<close> is in ascending order, it holds exactly \<open>xs @ ys @ zs\<close>, no line twice
  and none missing, up to its limit of the newest 200000.
\<close>

theorem pager_merges_sources:
  assumes "sorted_wrt (<) (map fst (xs @ ys @ zs))"
  shows "plines (foldl pager_add_line pager_new ((xs @ ys) @ (ys @ zs))) = lastn PAGER_MAX_LINES (xs @ ys @ zs)"
proof -
  have front: "newer None (xs @ ys @ ys @ zs) = xs @ ys @ zs"
  proof (cases "xs @ ys" rule: rev_cases)
    case Nil
    with assms show ?thesis by (simp add: newer_above)
  next
    case (snoc ws w)
    have "newer h (us @ [w] @ ts) = us @ [w] @ newer (Some (fst w)) ts"
      if "sorted_wrt (<) (map fst (us @ [w]))" "\<forall>r\<in>set (us @ [w]). h = None \<or> the h < fst r" for us h ts
      using that by (induction us arbitrary: h) (auto simp: not_le)
    note pass = this
    have sorted: "sorted_wrt (<) (map fst (ws @ [w]))" "\<forall>r\<in>set (ws @ [w]). fst r \<le> fst w" "\<forall>r\<in>set zs. fst w < fst r"
      "sorted_wrt (<) (map fst zs)"
      using assms [unfolded append_assoc [symmetric] snoc] by (auto simp: sorted_wrt_append)
    have sub: "\<forall>r\<in>set ys. fst r \<le> fst w" using sorted(2) snoc [THEN arg_cong, of set] by auto
    have "newer None ((xs @ ys) @ ys @ zs) = (xs @ ys) @ newer (Some (fst w)) (ys @ zs)"
      unfolding snoc using pass [OF sorted(1), of None "ys @ zs"] by simp
    also have "newer (Some (fst w)) (ys @ zs) = newer (Some (fst w)) zs" by (rule newer_below [OF sub])
    also have "newer (Some (fst w)) zs = zs" using sorted(3,4) by (intro newer_above) auto
    finally show ?thesis by simp
  qed
  show ?thesis using add_lines_lines [OF pager_new_ok, of "(xs @ ys) @ (ys @ zs)"] front
    by (simp add: pager_new_def newest_def)
qed

theorem pager_merges_sources_witness:
  "plines (foldl pager_add_line pager_new ([(0, [0x61]), (1, [0x62])] @ [(1, [0x62]), (2, [0x63])])) =
     [(0, [0x61]), (1, [0x62]), (2, [0x63])]"
  using pager_merges_sources [of "[(0, [0x61])]" "[(1, [0x62])]" "[(2, [0x63])]"] by (simp add: lastn_def PAGER_MAX_LINES_def)

section \<open>Search\<close>

lemma first_match_least:
  "first_match pg is = None \<longleftrightarrow> (\<forall>i\<in>set is. \<not> line_matches pg i)"
  by (induction "is") auto

lemma first_match_upt:
  "first_match pg [a..<n] = Some i \<longleftrightarrow> a \<le> i \<and> i < n \<and> line_matches pg i \<and> (\<forall>j. a \<le> j \<and> j < i \<longrightarrow> \<not> line_matches pg j)"
proof (induction "n - a" arbitrary: a)
  case (Suc k)
  then have a: "[a..<n] = a # [Suc a..<n]" by (simp add: upt_rec)
  show ?case
  proof (cases "line_matches pg a")
    case True
    then show ?thesis using Suc.hyps(2) by (auto simp: a)
  next
    case False
    have "first_match pg [Suc a..<n] = Some i \<longleftrightarrow>
        Suc a \<le> i \<and> i < n \<and> line_matches pg i \<and> (\<forall>j. Suc a \<le> j \<and> j < i \<longrightarrow> \<not> line_matches pg j)"
      using Suc.hyps by simp
    with False show ?thesis by (auto simp: a Suc_le_eq) (metis le_less)+
  qed
qed auto

lemma line_matches_view [simp]:
  "line_matches (pg\<lparr>pcur := i, ptop := j\<rparr>) k = line_matches pg k"
  by (simp add: line_matches_def)

text \<open>A hit becomes the first row, or the view rests on the last page which then shows it.\<close>

lemma clamp_shows:
  assumes "i < pcount pg"
  defines "q \<equiv> clamp_top (pg\<lparr>pcur := i, ptop := i\<rparr>)"
  shows "pcur q = i \<and> ptop q \<le> i \<and> i < ptop q + view_rows q"
  using assms(1) view_rows_pos [of pg]
  by (auto simp: q_def clamp_top_def max_top_def pcount_def view_rows_def split: if_splits)

text \<open>
  Searching forward finds the nearest match. \<open>n\<close> moves to the first line after the
  current one whose visible text contains the pattern, that line is then on the screen, and
  when there is none the position does not change. Visible text is the line without its escape
  sequences.
\<close>

theorem search_forward_nearest:
  assumes "pager_ok pg" and "have_pat pg" and "search_step pg 1 = (found, pg')"
  shows "found = (\<exists>i. pcur pg < i \<and> i < pcount pg \<and> line_matches pg i) \<and>
    (if found then pcur pg < pcur pg' \<and> line_matches pg (pcur pg') \<and>
        (\<forall>j. pcur pg < j \<and> j < pcur pg' \<longrightarrow> \<not> line_matches pg j) \<and>
        ptop pg' \<le> pcur pg' \<and> pcur pg' < ptop pg' + view_rows pg'
     else pg' = pg)"
proof (cases "pcount pg = 0")
  case True
  with assms show ?thesis by (auto simp: search_step_def search_step_from_def)
next
  case False
  have cur: "pcur pg < pcount pg" using assms(1) False by (simp add: pager_ok_def view_ok_def)
  have order: "search_order pg (int (pcur pg) + 1) 1 = [Suc (pcur pg)..<pcount pg]"
    using cur by (auto simp: search_order_def nat_add_distrib)
  show ?thesis
  proof (cases "first_match pg [Suc (pcur pg)..<pcount pg]")
    case None
    then have "found = False" "pg' = pg"
      using assms(2,3) False by (simp_all add: search_step_def search_step_from_def order)
    with None show ?thesis by (auto simp: first_match_least Suc_le_eq)
  next
    case (Some i)
    have "found" "pg' = clamp_top (pg\<lparr>pcur := i, ptop := i\<rparr>)"
      using assms(2,3) False Some by (auto simp: search_step_def search_step_from_def order)
    moreover have "Suc (pcur pg) \<le> i \<and> i < pcount pg \<and> line_matches pg i \<and> (\<forall>j. Suc (pcur pg) \<le> j \<and> j < i \<longrightarrow> \<not> line_matches pg j)"
      using iffD1 [OF first_match_upt Some] .
    ultimately show ?thesis using clamp_shows [of i pg] by (auto simp: Suc_le_eq)
  qed
qed

definition demo_lines :: "line_rec list" where
  "demo_lines = [(0, [0x61]), (1, [0x62]), (2, [0x1b, 0x5b, 0x31, 0x6d, 0x63, 0x1b, 0x5b, 0x30, 0x6d])]"

definition search_demo :: "byte list \<Rightarrow> pager" where
  "search_demo p = (foldl pager_add_line pager_new demo_lines)\<lparr>pat := p, have_pat := True, pcur := 0\<rparr>"

lemma demo_pager:
  "plines (foldl pager_add_line pager_new demo_lines) = demo_lines"
  "pager_ok (foldl pager_add_line pager_new demo_lines)"
proof -
  show "plines (foldl pager_add_line pager_new demo_lines) = demo_lines"
    using add_lines_lines [OF pager_new_ok, of demo_lines]
    by (simp add: demo_lines_def pager_new_def newest_def lastn_def PAGER_MAX_LINES_def word_le_nat_alt)
  have "pager_ok (foldl pager_add_line pg rs)" if "pager_ok pg" for pg rs
    using that by (induction rs arbitrary: pg) (simp_all add: add_line_ok)
  then show "pager_ok (foldl pager_add_line pager_new demo_lines)" using pager_new_ok .
qed

lemma back_to_first_ok:
  "pager_ok pg \<Longrightarrow> length p \<le> PAGER_PAT_MAX \<Longrightarrow> pager_ok (pg\<lparr>pat := p, have_pat := h, pcur := 0\<rparr>)"
  by (auto simp: pager_defs split: if_splits)

lemma add_line_flags [simp]:
  "searching (pager_add_line pg r) = searching pg" "pesc (pager_add_line pg r) = pesc pg" "pcsi (pager_add_line pg r) = pcsi pg"
  by (simp_all add: pager_add_line_def Let_def make_room_def)

lemma search_demo_ok:
  "length p \<le> 128 \<Longrightarrow> pager_ok (search_demo p)" "plines (search_demo p) = demo_lines" "pcur (search_demo p) = 0"
  "have_pat (search_demo p)" "pat (search_demo p) = p" "pcount (search_demo p) = 3"
  "\<not> searching (search_demo p)" "\<not> pesc (search_demo p)" "\<not> pcsi (search_demo p)"
proof -
  show "length p \<le> 128 \<Longrightarrow> pager_ok (search_demo p)"
    unfolding search_demo_def by (rule back_to_first_ok [OF demo_pager(2)]) (simp add: PAGER_PAT_MAX_def)
  show "plines (search_demo p) = demo_lines" "pcount (search_demo p) = 3"
    using demo_pager(1) by (simp_all add: search_demo_def pcount_def) (simp add: demo_lines_def)
qed (simp_all add: search_demo_def demo_lines_def pager_new_def)

theorem search_forward_nearest_witness:
  "fst (search_step (search_demo [0x63]) 1) \<and> pcur (snd (search_step (search_demo [0x63]) 1)) = 2"
proof -
  let ?d = "search_demo [0x63]"
  have s: "pager_ok ?d" "have_pat ?d" "pcur ?d = 0" "pcount ?d = 3" by (simp_all add: search_demo_ok)
  have m: "line_matches ?d 2" "\<not> line_matches ?d 1"
    by (simp_all add: line_matches_def search_demo_ok demo_lines_def pager_strip_ansi_def strip_loop.simps SB_LINE_MAX_def)
  note T = search_forward_nearest [OF s(1,2) prod.collapse [symmetric]]
  have "\<exists>i. pcur ?d < i \<and> i < pcount ?d \<and> line_matches ?d i" using m(1) s(3,4) by (intro exI [of _ 2]) simp
  with T have found: "fst (search_step ?d 1)" by blast
  let ?c = "pcur (snd (search_step ?d 1))"
  have "0 < ?c" "line_matches ?d ?c" "\<forall>j. 0 < j \<and> j < ?c \<longrightarrow> \<not> line_matches ?d j"
    using T found s(3) by auto
  then have "0 < ?c" "?c \<noteq> 1" "\<not> 2 < ?c" using m by (metis, metis, metis zero_less_numeral)
  then have "?c = 2" by linarith
  with found show ?thesis by blast
qed

text \<open>
  A cancelled search destroys the pattern but keeps it armed. After a search, opening
  the prompt with \<open>/\<close>, leaving it with Ctrl-G and pressing \<open>n\<close> moves to the very next line
  whatever it contains: the pattern has been emptied, \<open>have_pat\<close> is still set, and the empty
  pattern matches everywhere.
\<close>

theorem cancelled_search_matches_all:
  assumes "pager_ok pg" and "have_pat pg" and "\<not> searching pg" and "\<not> pesc pg" and "\<not> pcsi pg"
    and "Suc (pcur pg) < pcount pg"
  shows "pcur (snd (pager_input pg [0x2f, 0x07, 0x6e])) = Suc (pcur pg)"
proof -
  have any: "strstr bs []" for bs by (cases bs) simp_all
  let ?p = "pg\<lparr>pat := [], pmsg := [], searching := False\<rparr>"
  have ok: "pager_ok ?p" using assms(1) by (simp add: flags_ok)
  have m: "line_matches ?p i" for i by (simp add: line_matches_def any)
  have "search_order ?p (int (pcur ?p) + 1) 1 = Suc (pcur pg) # [Suc (Suc (pcur pg))..<pcount pg]"
    using assms(6) by (auto simp: search_order_def nat_add_distrib pcount_def upt_conv_Cons)
  then have "search_step ?p 1 = (True, clamp_top (?p\<lparr>pcur := Suc (pcur pg), ptop := Suc (pcur pg)\<rparr>))"
    using assms(2,6) m by (auto simp: search_step_def search_step_from_def pcount_def)
  then show ?thesis
    using assms(2-5)
    by (simp add: pager_input_def key_normal_def key_search_def search_key_def Let_def clamp_top_def pager_draw_def wr_def)
qed

theorem cancelled_search_matches_all_witness:
  "pcur (snd (pager_input (search_demo [0x7a]) [0x2f, 0x07, 0x6e])) = 1"
  using cancelled_search_matches_all [of "search_demo [0x7a]"] by (simp add: search_demo_ok)

section \<open>What the pager strips is what the store added\<close>

text \<open>The visible text of a line of cells.\<close>

definition glyph :: "cell \<Rightarrow> byte list" where
  "glyph c = emit_utf8 (if ccp c \<noteq> 0 then ccp c else 0x20) @ (if ccomb c \<noteq> 0 then mark_piece (ccomb c) else [])"

definition plain_text :: "cell list \<Rightarrow> byte list" where
  "plain_text cs = concat (map glyph (filter (\<lambda>c. \<not> is_spacer c) (trim_line cs)))"

text \<open>Cells as printing leaves them: no control character, a mark outside ASCII.\<close>

definition text_cell :: "cell \<Rightarrow> bool" where
  "text_cell c \<longleftrightarrow> (ccp c = 0 \<or> (0x20 \<le> ccp c \<and> ccp c \<noteq> 0x7f \<and> ccp c \<le> 0x10FFFF)) \<and> (ccomb c = 0 \<or> 0x80 \<le> ccomb c)"

definition text_byte :: "byte \<Rightarrow> bool" where
  "text_byte b \<longleftrightarrow> 0x20 \<le> b \<and> b \<noteq> 0x7f"

text \<open>A piece is either text or an SGR sequence.\<close>

definition is_sgr :: "byte list \<Rightarrow> bool" where
  "is_sgr p \<longleftrightarrow> (\<exists>ps. p = [0x1b, 0x5b] @ ps @ [0x6d] \<and> (\<forall>b\<in>set ps. b < 0x40))"

definition shown :: "byte list list \<Rightarrow> byte list" where
  "shown ps = concat (filter (\<lambda>p. \<not> is_sgr p) ps)"

lemma strip_text:
  "(\<forall>b\<in>set p. text_byte b) \<Longrightarrow> length acc + length p < cap \<Longrightarrow> strip_loop cap acc (p @ rest) = strip_loop cap (acc @ p) rest"
proof (induction p arbitrary: acc)
  case (Cons b p)
  then have b: "b \<noteq> 0x1b" "\<not> (b < 0x20 \<or> b = 0x7f)" by (auto simp: text_byte_def)
  have "strip_loop cap acc ((b # p) @ rest) = strip_loop cap (acc @ [b]) (p @ rest)"
    using b Cons.prems(2) by (subst strip_loop.simps) simp
  with Cons show ?case by simp
qed simp

lemma skip_csi_params: "(\<forall>b\<in>set ps. b < 0x40) \<Longrightarrow> skip_csi (ps @ 0x6d # rest) = rest"
  by (induction ps) auto

lemma strip_sgr: "is_sgr p \<Longrightarrow> strip_loop cap acc (p @ rest) = strip_loop cap acc rest"
  by (auto simp: is_sgr_def strip_loop.simps [of _ _ "0x1b # _"] skip_csi_params)

lemma strip_pieces:
  assumes "\<forall>p\<in>set ps. is_sgr p \<or> (\<forall>b\<in>set p. text_byte b)" and "length acc + length (shown ps) < cap"
  shows "strip_loop cap acc (concat ps) = acc @ shown ps"
  using assms
proof (induction ps arbitrary: acc)
  case (Cons p ps)
  show ?case
  proof (cases "is_sgr p")
    case True
    with Cons show ?thesis by (simp add: strip_sgr shown_def)
  next
    case False
    then have "length acc + length p < cap" using Cons.prems(2) by (simp add: shown_def)
    with False Cons show ?thesis by (simp add: strip_text shown_def)
  qed
qed (simp add: shown_def strip_loop.simps)

text \<open>\<open>fill\<close> keeps a beginning of the pieces.\<close>

lemma fill_pieces: "\<exists>n. fill cap acc ps = acc @ concat (take n ps) \<and> (length acc + length (concat ps) \<le> cap \<longrightarrow> n = length ps)"
proof (induction ps arbitrary: acc)
  case (Cons p ps)
  show ?case
  proof (cases "cap < length acc + length p")
    case True
    then show ?thesis by (intro exI [of _ 0]) simp
  next
    case False
    obtain n where "fill cap (acc @ p) ps = (acc @ p) @ concat (take n ps)"
      "length (acc @ p) + length (concat ps) \<le> cap \<longrightarrow> n = length ps" using Cons.IH [of "acc @ p"] by blast
    with False show ?thesis by (intro exI [of _ "Suc n"]) simp
  qed
qed simp

lemma high_text: "bit (b :: byte) 7 \<Longrightarrow> text_byte b"
proof -
  assume "bit b 7"
  then have "bit (unat b) 7" by (simp add: bit_unsigned_iff)
  then have "odd (unat b div 128)" by (simp add: bit_iff_odd)
  then have "128 \<le> unat b" by (cases "unat b < 128") auto
  then show ?thesis by (auto simp: text_byte_def word_le_nat_alt)
qed

lemma emit_utf8_text:
  assumes "0x20 \<le> cp" "cp \<noteq> 0x7f"
  shows "\<forall>b\<in>set (emit_utf8 cp). text_byte b"
proof (cases "cp < 0x80")
  case True
  then have "unat cp < 128" by (simp add: word_less_nat_alt)
  then have u: "unat (ucast cp :: byte) = unat cp" by (simp add: unsigned_ucast_eq take_bit_nat_eq_self)
  moreover have "unat cp \<noteq> 127" using assms(2) by (simp add: word_unat_eq_iff)
  ultimately have "text_byte (ucast cp)"
    using assms(1) by (auto simp: text_byte_def word_le_nat_alt word_unat_eq_iff)
  with True show ?thesis by (simp add: emit_utf8_def)
next
  case False
  then show ?thesis
    by (auto simp: emit_utf8_def bit_or_iff bit_unsigned_iff intro!: high_text)
qed

lemma mark_text: "\<forall>b\<in>set (mark_piece m). text_byte b"
  by (auto simp: mark_piece_def bit_or_iff bit_unsigned_iff intro!: high_text)

lemma dec_digits_small: "\<forall>b\<in>set (dec_digits n). b < 0x40"
proof (induction n rule: dec_digits.induct)
  case (1 n)
  have d: "(0x30 + of_nat k :: byte) < 0x40" if "k < 10" for k
  proof -
    have "k = 0 \<or> k = 1 \<or> k = 2 \<or> k = 3 \<or> k = 4 \<or> k = 5 \<or> k = 6 \<or> k = 7 \<or> k = 8 \<or> k = 9" using that by arith
    then show ?thesis by (elim disjE) simp_all
  qed
  show ?case
  proof (cases "n < 10")
    case True
    then show ?thesis using d [of n] by (subst dec_digits.simps) simp
  next
    case False
    then show ?thesis using 1 d [of "n mod 10"] by (subst dec_digits.simps) auto
  qed
qed

lemma sgr_is_sgr: "is_sgr (sgr n)" "is_sgr (color_piece k c)"
proof -
  show "is_sgr (sgr n)" using dec_digits_small [of n] by (auto simp: is_sgr_def sgr_def)
  have "\<exists>ps. color_piece k c = [0x1b, 0x5b] @ ps @ [0x6d] \<and> (\<forall>b\<in>set ps. b < 0x40)"
    unfolding color_piece_def using dec_digits_small
    by (cases "c AND 0xFF000000 = 0x01000000") (force simp: ascii_def)+
  then show "is_sgr (color_piece k c)" by (simp add: is_sgr_def)
qed

lemma pen_is_sgr: "p \<in> set (pen_pieces a fg bg) \<Longrightarrow> is_sgr p"
  by (auto simp: pen_pieces_def sgr_is_sgr split: if_splits)

lemma text_not_sgr: "(\<forall>b\<in>set p. text_byte b) \<Longrightarrow> \<not> is_sgr p"
  by (auto simp: is_sgr_def text_byte_def)

lemma shown_simps [simp]:
  "shown [] = []" "shown (ps @ qs) = shown ps @ shown qs" "shown (p # ps) = (if is_sgr p then [] else p) @ shown ps"
  by (simp_all add: shown_def)

lemma shown_pen [simp]: "shown (pen_pieces a fg bg) = []"
  using pen_is_sgr by (simp add: shown_def filter_empty_conv)

lemma glyph_parts:
  assumes "text_cell c"
  shows "\<forall>b\<in>set (emit_utf8 (if ccp c \<noteq> 0 then ccp c else 0x20)). text_byte b"
  using assms by (intro emit_utf8_text) (auto simp: text_cell_def)

lemma cell_pieces_shown:
  assumes "\<forall>c\<in>set cs. text_cell c"
  shows "shown (cell_pieces a fg bg cs) = concat (map glyph (filter (\<lambda>c. \<not> is_spacer c) cs)) \<and>
    (\<forall>p\<in>set (cell_pieces a fg bg cs). is_sgr p \<or> (\<forall>b\<in>set p. text_byte b))"
  using assms
proof (induction cs arbitrary: a fg bg)
  case Nil
  then show ?case by (simp add: sgr_is_sgr)
next
  case (Cons c cs)
  define u where "u = emit_utf8 (if ccp c \<noteq> 0 then ccp c else 0x20)"
  have g: "\<forall>b\<in>set u. text_byte b" unfolding u_def by (rule glyph_parts) (use Cons.prems in simp)
  note n = text_not_sgr [OF g] text_not_sgr [OF mark_text [of "ccomb c"]]
  have IH: "shown (cell_pieces a' fg' bg' cs) = concat (map glyph (filter (\<lambda>c. \<not> is_spacer c) cs)) \<and>
    (\<forall>p\<in>set (cell_pieces a' fg' bg' cs). is_sgr p \<or> (\<forall>b\<in>set p. text_byte b))" for a' fg' bg'
    using Cons by simp
  show ?case
  proof (cases "is_spacer c")
    case False
    let ?pen = "if public_attrs (cattrs c) \<noteq> a \<or> cfg c \<noteq> fg \<or> cbg c \<noteq> bg then pen_pieces (public_attrs (cattrs c)) (cfg c) (cbg c) else []"
    have pen: "shown ?pen = []" "\<forall>p\<in>set ?pen. is_sgr p" using pen_is_sgr by auto
    have eq: "cell_pieces a fg bg (c # cs) = ?pen @ [u] @
        (if ccomb c \<noteq> 0 then [mark_piece (ccomb c)] else []) @ cell_pieces (public_attrs (cattrs c)) (cfg c) (cbg c) cs"
      using False by (simp add: Let_def u_def)
    have gl: "glyph c = u @ (if ccomb c \<noteq> 0 then mark_piece (ccomb c) else [])" by (simp add: glyph_def u_def)
    note rest = IH [of "public_attrs (cattrs c)" "cfg c" "cbg c"]
    have "shown (cell_pieces a fg bg (c # cs)) = concat (map glyph (filter (\<lambda>c. \<not> is_spacer c) (c # cs)))"
      unfolding eq shown_simps pen(1) using rest n False by (simp add: gl)
    moreover have "\<forall>p\<in>set (cell_pieces a fg bg (c # cs)). is_sgr p \<or> (\<forall>b\<in>set p. text_byte b)"
      unfolding eq set_append using rest pen(2) g mark_text [of "ccomb c"] by (simp add: ball_Un)
    ultimately show ?thesis by blast
  qed (use IH in simp)
qed

lemma shown_take: "shown ps = shown (take n ps) @ shown (drop n ps)"
  using shown_simps(2) [of "take n ps" "drop n ps"] by simp

lemma length_shown: "length (shown ps) \<le> length (concat ps)"
  by (induction ps) (simp_all add: shown_def)

text \<open>
  Claim C30. Search looks at exactly the text of a line. Whatever colours and attributes a line
  has, stripping the bytes the store wrote for it gives a beginning of the line's visible
  text, and all of it when the line was not cut at 8192 bytes.
\<close>

theorem strip_recovers_text:
  assumes "\<forall>c\<in>set cs. text_cell c"
  shows "let t = pager_strip_ansi (serialize_line cs SB_LINE_MAX) (SB_LINE_MAX + 1) in
    take (length t) (plain_text cs) = t \<and>
    (length (concat (cell_pieces 0 VT_COLOR_DEFAULT VT_COLOR_DEFAULT (trim_line cs))) \<le> SB_LINE_MAX \<longrightarrow> t = plain_text cs)"
proof -
  let ?ps = "cell_pieces 0 VT_COLOR_DEFAULT VT_COLOR_DEFAULT (trim_line cs)"
  have "set (trim_line cs) \<subseteq> set cs" by (auto simp: trim_line_def dest: set_dropWhileD)
  then have C: "shown ?ps = plain_text cs" "\<forall>p\<in>set ?ps. is_sgr p \<or> (\<forall>b\<in>set p. text_byte b)"
    using cell_pieces_shown [of "trim_line cs" 0 VT_COLOR_DEFAULT VT_COLOR_DEFAULT] assms by (auto simp: plain_text_def)
  obtain n where n: "serialize_line cs SB_LINE_MAX = concat (take n ?ps)"
    "length (concat ?ps) \<le> SB_LINE_MAX \<longrightarrow> n = length ?ps"
    using fill_pieces [of SB_LINE_MAX "[]" ?ps] by (auto simp: serialize_line_def)
  have "length (concat (take n ?ps)) \<le> SB_LINE_MAX" using length_serialize_line [of cs SB_LINE_MAX] n(1) by simp
  then have "length (shown (take n ?ps)) \<le> SB_LINE_MAX" using length_shown le_trans by blast
  then have t: "pager_strip_ansi (serialize_line cs SB_LINE_MAX) (SB_LINE_MAX + 1) = shown (take n ?ps)"
    unfolding pager_strip_ansi_def n(1) using strip_pieces [of "take n ?ps" "[]" "SB_LINE_MAX + 1"] C(2)
    by (auto dest: in_set_takeD)
  have "plain_text cs = shown (take n ?ps) @ shown (drop n ?ps)" unfolding C(1) [symmetric] by (rule shown_take)
  then have "take (length (shown (take n ?ps))) (plain_text cs) = shown (take n ?ps)" by (metis append_eq_conv_conj)
  moreover have "shown (take n ?ps) = plain_text cs" if "length (concat ?ps) \<le> SB_LINE_MAX"
    using n(2) that C(1) by (metis take_all order_refl)
  ultimately show ?thesis unfolding t Let_def by blast
qed

theorem strip_recovers_text_witness:
  "pager_strip_ansi (serialize_line demo_cells SB_LINE_MAX) (SB_LINE_MAX + 1) = [0x61]"
proof -
  have "\<forall>c\<in>set demo_cells. text_cell c" by (simp add: demo_cells_def text_cell_def)
  moreover have "length (concat (cell_pieces 0 VT_COLOR_DEFAULT VT_COLOR_DEFAULT (trim_line demo_cells))) \<le> SB_LINE_MAX"
    by (simp add: demo_cells_def trim_line_def is_spacer_def public_attrs_def emit_utf8_def SB_LINE_MAX_def)
  ultimately have "pager_strip_ansi (serialize_line demo_cells SB_LINE_MAX) (SB_LINE_MAX + 1) = plain_text demo_cells"
    using strip_recovers_text [of demo_cells] unfolding Let_def by blast
  then show ?thesis
    by (simp add: plain_text_def demo_cells_def trim_line_def is_spacer_def glyph_def emit_utf8_def)
qed

end
