(* ===== verification/Copy_Mode.thy ===== *)
theory Copy_Mode
  imports Pager
begin

text \<open>
  How copy mode gets its history: the client reads the log itself, then asks the daemon for the
  lines that are not on disk yet. The daemon's half is the \<open>MSG_SCROLLBACK_REQ\<close> branch of
  \<open>dispatch\<close> in \<open>src/daemon/server.c\<close>, the client's half is in \<open>attach_main\<close> of
  \<open>src/client/attach.c\<close>. Payloads are the bytes on the wire.
\<close>

section \<open>The daemon answers a request\<close>

fun reply_loop :: "nat \<Rightarrow> line_rec list \<Rightarrow> line_rec list" where
  "reply_loop off [] = []"
| "reply_loop off (r # rs) =
    (if off + 4 + length (snd r) > PROTO_MAX_PAYLOAD then []
     else r # reply_loop (off + 4 + length (snd r)) rs)"

definition reply_payload :: "line_rec list \<Rightarrow> byte list" where
  "reply_payload got =
    (let em = reply_loop 12 got in
     put_u64 (if em \<noteq> [] then fst (hd got) else 0) @ put_u32 (word_of_nat (length em)) @
     concat (map (\<lambda>r. put_u32 (word_of_nat (length (snd r))) @ snd r) em))"

text \<open>\<open>pick\<close> finds the pane a request names, by its id or, without one, the active pane.\<close>

definition handle_scrollback_req :: "io_result list \<Rightarrow> bool \<Rightarrow> (byte option \<Rightarrow> scrollback option) \<Rightarrow> byte list \<Rightarrow>
    (byte list \<times> scrollback option) option" where
  "handle_scrollback_req ws attached pick p =
    (if \<not> attached \<or> length p < 12 then None
     else let start = get_u64 p; maxn = unat (get_u32 (drop 8 p)); maxn = (if maxn > 1000 then 1000 else maxn) in
       case pick (if length p \<ge> 13 then Some (p ! 12) else None) of
         None \<Rightarrow> Some (reply_payload [], None)
       | Some sb \<Rightarrow> (case sb_fetch_deep ws sb start maxn 1000 PROTO_MAX_PAYLOAD of
           (got, sb) \<Rightarrow> Some (reply_payload got, Some sb)))"

section \<open>The client takes the answer\<close>

definition scrollback_req :: "u64 \<Rightarrow> u32 \<Rightarrow> byte \<Rightarrow> byte list" where
  "scrollback_req start maxl pane_id = put_u64 start @ put_u32 maxl @ [pane_id]"

text \<open>\<open>bs\<close> is the payload from the current offset on, \<open>n\<close> the lines still announced.\<close>

fun data_loop :: "pager \<Rightarrow> u64 \<Rightarrow> nat \<Rightarrow> byte list \<Rightarrow> nat \<Rightarrow> pager \<times> nat" where
  "data_loop pg seq 0 bs got = (pg, got)"
| "data_loop pg seq (Suc n) bs got =
    (if length bs < 4 then (pg, got)
     else let llen = unat (get_u32 bs) in
       if 4 + llen > length bs then (pg, got)
       else data_loop (pager_add_line pg (seq, take llen (drop 4 bs))) (seq + 1) n (drop (4 + llen) bs) (got + 1))"

definition next_request :: "pager \<Rightarrow> byte \<Rightarrow> byte list option" where
  "next_request pg pane_id = (if want_from pg \<noteq> UINT64_MAX then Some (scrollback_req (want_from pg) 1000 pane_id) else None)"

definition handle_scrollback_data :: "pager \<Rightarrow> byte \<Rightarrow> byte list \<Rightarrow> pager \<times> byte list option" where
  "handle_scrollback_data pg pane_id p =
    (if length p < 12 then (pg, None)
     else case data_loop pg (get_u64 p) (unat (get_u32 (drop 8 p))) (drop 12 p) 0 of (pg, got) \<Rightarrow>
       let pg = pager_add_batch_done pg got in (pager_draw pg, next_request pg pane_id))"

text \<open>Entering copy mode: the log, the view, the first request.\<close>

definition enter_copy_mode :: "byte list option \<Rightarrow> byte list option \<Rightarrow> nat \<Rightarrow> nat \<Rightarrow> u64 \<Rightarrow> byte \<Rightarrow> pager \<times> byte list option" where
  "enter_copy_mode old_file now_file c r total_lines pane_id =
    (let pg = pager_enter (snd (pager_load_disk_pane pager_new old_file now_file)) c r total_lines
     in (pg, next_request pg pane_id))"

text \<open>Request and answer until the client stops asking; \<open>None\<close> when the fuel runs out.\<close>

fun paging :: "nat \<Rightarrow> scrollback \<Rightarrow> byte \<Rightarrow> pager \<Rightarrow> byte list option \<Rightarrow> pager option" where
  "paging fuel sb pane_id pg None = Some pg"
| "paging 0 sb pane_id pg (Some p) = None"
| "paging (Suc fuel) sb pane_id pg (Some p) =
    (case handle_scrollback_req [] True (\<lambda>_. Some sb) p of
       Some (answer, Some sb) \<Rightarrow> (case handle_scrollback_data pg pane_id answer of (pg, req) \<Rightarrow> paging fuel sb pane_id pg req)
     | _ \<Rightarrow> Some pg)"

section \<open>An answer is read back as it was written\<close>

definition enc_line :: "line_rec \<Rightarrow> byte list" where
  "enc_line r = put_u32 (word_of_nat (length (snd r))) @ snd r"

lemma reply_loop_prefix: "\<exists>n. reply_loop off rs = take n rs \<and> n \<le> length rs"
proof (induction rs arbitrary: off)
  case (Cons r rs)
  obtain n where "reply_loop (off + 4 + length (snd r)) rs = take n rs" "n \<le> length rs" using Cons.IH by blast
  then show ?case
    by (cases "off + 4 + length (snd r) > PROTO_MAX_PAYLOAD") (auto intro: exI [of _ 0] exI [of _ "Suc n"])
qed simp

lemma reply_loop_first: "rs \<noteq> [] \<Longrightarrow> off + 4 + length (snd (hd rs)) \<le> PROTO_MAX_PAYLOAD \<Longrightarrow> reply_loop off rs \<noteq> []"
  by (cases rs) auto

lemma data_loop_reads:
  assumes "list_all short_rec rs" and "\<forall>i<length rs. fst (rs ! i) = seq + word_of_nat i"
  shows "data_loop pg seq (length rs) (concat (map enc_line rs)) got = (foldl pager_add_line pg rs, got + length rs)"
  using assms
proof (induction rs arbitrary: pg seq got)
  case (Cons r rs)
  have len: "unat (word_of_nat (length (snd r)) :: u32) = length (snd r)"
    using Cons.prems(1) by (simp only: unat_of_nat) (simp add: take_bit_nat_eq_self SB_LINE_MAX_def)
  have r: "(seq, snd r) = r" using Cons.prems(2) [rule_format, of 0] by (cases r) simp
  have "\<forall>i<length rs. fst (rs ! i) = seq + 1 + word_of_nat i"
  proof (intro allI impI)
    fix i assume "i < length rs"
    then show "fst (rs ! i) = seq + 1 + word_of_nat i" using Cons.prems(2) [rule_format, of "Suc i"] by (simp add: algebra_simps)
  qed
  then have IH: "data_loop (pager_add_line pg r) (seq + 1) (length rs) (concat (map enc_line rs)) (got + 1) =
      (foldl pager_add_line (pager_add_line pg r) rs, got + 1 + length rs)"
    using Cons.prems(1) by (intro Cons.IH) simp_all
  show ?case using IH by (simp add: enc_line_def [of r] Let_def len r)
qed simp

lemma run_seq:
  assumes "run_from b rs" and "i < length rs" shows "fst (rs ! i) = fst (hd rs) + word_of_nat i"
proof -
  have "unat (fst (rs ! 0)) = b" using run_fromD [OF assms(1), of 0] assms(2) by (cases rs) simp_all
  moreover have "b + i < 2 ^ 64" using assms by (simp add: run_from_def)
  ultimately have "unat (fst (rs ! 0) + word_of_nat i) = unat (fst (rs ! i))"
    using run_fromD [OF assms] unat_add_of_nat by simp
  then show ?thesis using assms(2) by (simp add: hd_conv_nth word_unat_eq_iff) (cases rs; simp)
qed

lemma run_take: "run_from b rs \<Longrightarrow> run_from b (take n rs)"
  by (auto simp: run_from_def)

lemma data_reads_reply:
  assumes sh: "list_all short_rec got" and run: "run_from b got" and "length got \<le> 1000"
  shows "\<exists>n \<le> length got. (got \<noteq> [] \<longrightarrow> 0 < n) \<and>
    handle_scrollback_data pg pane_id (reply_payload got) =
      (let q = pager_add_batch_done (foldl pager_add_line pg (take n got)) n in (pager_draw q, next_request q pane_id))"
proof -
  obtain n where n: "reply_loop 12 got = take n got" "n \<le> length got" using reply_loop_prefix by blast
  have pos: "0 < n" if "got \<noteq> []"
  proof -
    have "length (snd (hd got)) \<le> SB_LINE_MAX" using sh that by (cases got) auto
    then have "take n got \<noteq> []" using reply_loop_first [OF that, of 12] n(1) by (simp add: SB_LINE_MAX_def)
    then show ?thesis by auto
  qed
  let ?em = "take n got"
  have len: "length ?em = n" using n(2) by simp
  have p: "reply_payload got = put_u64 (if ?em \<noteq> [] then fst (hd got) else 0) @ put_u32 (word_of_nat n) @ concat (map enc_line ?em)"
    unfolding reply_payload_def n(1) Let_def len by (simp add: enc_line_def [abs_def])
  have u: "unat (word_of_nat n :: u32) = n"
    using n(2) assms(3) by (simp only: unat_of_nat) (simp add: take_bit_nat_eq_self)
  have "data_loop pg (if ?em \<noteq> [] then fst (hd got) else 0) (length ?em) (concat (map enc_line ?em)) 0 =
      (foldl pager_add_line pg ?em, 0 + length ?em)"
  proof (rule data_loop_reads)
    show "list_all short_rec ?em" using sh by (auto simp: list_all_iff dest: in_set_takeD)
    show "\<forall>i<length ?em. fst (?em ! i) = (if ?em \<noteq> [] then fst (hd got) else 0) + word_of_nat i"
      using run_seq [OF run] by auto
  qed
  then show ?thesis
    using n(2) pos by (intro exI [of _ n]) (simp add: handle_scrollback_data_def p u len Let_def)
qed

section \<open>Paging\<close>

text \<open>\<open>T\<close> is the whole history, numbered from \<open>b\<close>; its first \<open>g\<close> lines are no longer on disk. The
  pager has the lines from there up to line \<open>k\<close> and wants the rest.\<close>

definition paged :: "nat \<Rightarrow> nat \<Rightarrow> line_rec list \<Rightarrow> nat \<Rightarrow> pager \<Rightarrow> bool" where
  "paged b g T k pg \<longleftrightarrow> g \<le> k \<and> pager_ok pg \<and> plines pg = lastn PAGER_MAX_LINES (drop g (take k T)) \<and>
    newest pg = (if k = g then None else Some (fst (T ! (k - 1)))) \<and>
    unat (sb_lines pg) = b + length T \<and>
    want_from pg = (if k < length T then word_of_nat (b + k) else UINT64_MAX)"

lemma adds_ok: "pager_ok pg \<Longrightarrow> pager_ok (foldl pager_add_line pg rs)"
  by (induction rs arbitrary: pg) (simp_all add: add_line_ok)

lemma adds_total: "sb_lines (foldl pager_add_line pg rs) = sb_lines pg"
  by (induction rs arbitrary: pg) (simp_all add: pager_add_line_def Let_def make_room_def)

lemma adds_newest:
  "pager_ok pg \<Longrightarrow> newest (foldl pager_add_line pg rs) =
     (if newer (newest pg) rs = [] then newest pg else Some (fst (last (newer (newest pg) rs))))"
proof (induction rs arbitrary: pg)
  case (Cons r rs)
  have l: "lines_ok pg" using Cons.prems by (simp add: pager_ok_def)
  show ?case
    using Cons.IH [OF add_line_ok [OF Cons.prems, of r]] by (simp add: add_line_lines(2) [OF l])
qed simp

lemma unat_of_small: "n < 2 ^ 64 \<Longrightarrow> unat (word_of_nat n :: u64) = n"
  by (simp only: unat_of_nat) (simp add: take_bit_nat_eq_self)

lemma run_sorted: "run_from b rs \<Longrightarrow> sorted_wrt (<) (map fst rs)"
  by (auto simp: sorted_wrt_iff_nth_less run_from_def word_less_nat_alt)

lemma word_seq: "run_from b rs \<Longrightarrow> i < length rs \<Longrightarrow> fst (rs ! i) = word_of_nat (b + i)"
  using unat_of_small [of "b + i"] run_fromD [of b rs i] by (simp add: run_from_def word_unat_eq_iff)

lemma paged_step:
  assumes run: "run_from b T" and P: "paged b g T k pg" and "0 < n" and "k + n \<le> length T"
  shows "paged b g T (k + n) (pager_add_batch_done (foldl pager_add_line pg (take n (drop k T))) n)"
proof -
  let ?rs = "take n (drop k T)"
  let ?q = "foldl pager_add_line pg ?rs"
  have pg: "pager_ok pg" "plines pg = lastn PAGER_MAX_LINES (drop g (take k T))" "newest pg = (if k = g then None else Some (fst (T ! (k - 1))))"
    "unat (sb_lines pg) = b + length T" and g: "g \<le> k" using P by (simp_all add: paged_def)
  have ne: "?rs \<noteq> []" "last ?rs = T ! (k + n - 1)" "length ?rs = n"
    using assms(3,4) by (auto simp: last_conv_nth)
  have "sorted_wrt (<) (map fst ?rs)" 
    unfolding take_map [symmetric] drop_map [symmetric] by (intro sorted_wrt_take sorted_wrt_drop run_sorted [OF run])
  moreover have "\<forall>r\<in>set ?rs. newest pg = None \<or> the (newest pg) < fst r"
  proof
    fix r assume "r \<in> set ?rs"
    then obtain i where i: "i < n" "r = T ! (k + i)" using assms(4) by (auto simp: in_set_conv_nth)
    then show "newest pg = None \<or> the (newest pg) < fst r"
      using pg(3) run_fromD [OF run, of "k - 1"] run_fromD [OF run, of "k + i"] assms(4) g by (auto simp: word_less_nat_alt)
  qed
  ultimately have new: "newer (newest pg) ?rs = ?rs" by (rule newer_above [rotated])
  have q: "pager_ok ?q" "sb_lines ?q = sb_lines pg" by (rule adds_ok [OF pg(1)], rule adds_total)
  have "plines ?q = lastn PAGER_MAX_LINES (lastn PAGER_MAX_LINES (drop g (take k T)) @ ?rs)"
    using add_lines_lines [OF pg(1), of ?rs] new pg(2) by simp
  also have "drop g (take k T) @ ?rs = drop g (take (k + n) T)" if "g \<le> length T"
    using g that assms(4) by (simp add: take_add)
  then have "lastn PAGER_MAX_LINES (lastn PAGER_MAX_LINES (drop g (take k T)) @ ?rs) = lastn PAGER_MAX_LINES (drop g (take (k + n) T))"
    using g assms(4) by (simp add: lastn_absorb)
  finally have lines: "plines ?q = lastn PAGER_MAX_LINES (drop g (take (k + n) T))" .
  have newest: "newest ?q = Some (fst (T ! (k + n - 1)))" using adds_newest [OF pg(1), of ?rs] new ne by simp
  then have any: "have_any ?q" "highest_seq ?q = fst (T ! (k + n - 1))" by (auto simp: newest_def split: if_splits)
  have top: "b + length T < 2 ^ 64" using run by (simp add: run_from_def)
  have "unat (fst (T ! (k + n - 1)) + word_of_nat 1) = b + (k + n - 1) + 1"
    using run_fromD [OF run, of "k + n - 1"] assms(3,4) top by (intro unat_add_of_nat) auto
  then have h: "unat (highest_seq ?q + 1) = b + (k + n)" using any(2) assms(3) by simp
  then have "sb_lines ?q \<le> highest_seq ?q + 1 \<longleftrightarrow> length T \<le> k + n"
    using q(2) pg(4) by (simp add: word_le_nat_alt)
  moreover have "highest_seq ?q + 1 = word_of_nat (b + (k + n))"
    using h unat_of_small [of "b + (k + n)"] assms(4) top by (simp add: word_unat_eq_iff)
  ultimately have "want_from (pager_add_batch_done ?q n) = (if k + n < length T then word_of_nat (b + (k + n)) else UINT64_MAX)"
    using any(1) assms(3) by (auto simp: pager_add_batch_done_def)
  moreover have "plines (pager_add_batch_done ?q n) = plines ?q" "newest (pager_add_batch_done ?q n) = newest ?q"
      "sb_lines (pager_add_batch_done ?q n) = sb_lines ?q"
    by (simp_all add: pager_add_batch_done_def newest_def)
  ultimately show ?thesis
    using batch_ok [OF q(1), of n] lines newest q(2) pg(4) assms(3) g by (simp add: paged_def)
qed

lemma paged_draw [simp]: "paged b g T k (pager_draw q) = paged b g T k q"
  by (simp add: paged_def pager_draw_def wr_def newest_def pager_ok_def lines_ok_def view_ok_def bufs_ok_def max_top_def
      pcount_def view_rows_def)

text \<open>What the client relies on: the daemon holds a run of lines and answers a request for one of
  them with that line and some of those that follow. The client's step is proved against this
  interface.\<close>

locale line_source =
  fixes valid :: "'s \<Rightarrow> bool" and fetch :: "'s \<Rightarrow> u64 \<Rightarrow> line_rec list" and held :: "'s \<Rightarrow> line_rec list"
  assumes held_short: "valid s \<Longrightarrow> list_all short_rec (held s)"
    and serves: "valid s \<Longrightarrow> k < length (held s) \<Longrightarrow>
      \<exists>n. 0 < n \<and> n \<le> 1000 \<and> k + n \<le> length (held s) \<and> fetch s (fst (held s ! k)) = take n (drop k (held s))"
begin

text \<open>One request and its answer, for a history \<open>T\<close> whose end the daemon holds.\<close>

lemma page_step:
  assumes "valid s" and run: "run_from b T" and "drop d T = held s" and "d \<le> k" and P: "paged b g T k pg" and "k < length T"
  shows "\<exists>n q. 0 < n \<and> k + n \<le> length T \<and> paged b g T (k + n) q \<and>
    handle_scrollback_data pg pane_id (reply_payload (fetch s (want_from pg))) = (pager_draw q, next_request q pane_id)"
proof -
  have h: "k - d < length (held s)" "held s ! (k - d) = T ! k" "length (held s) = length T - d" "drop (k - d) (held s) = drop k T"
    using assms(4,6) by (simp_all add: assms(3) [symmetric])
  have want: "want_from pg = fst (T ! k)" using P assms(6) word_seq [OF run] by (simp add: paged_def)
  obtain m where m: "0 < m" "m \<le> 1000" "k - d + m \<le> length (held s)" "fetch s (fst (held s ! (k - d))) = take m (drop (k - d) (held s))"
    using serves [OF assms(1) h(1)] by blast
  let ?got = "take m (drop k T)"
  have km: "k + m \<le> length T" using m(3) h(3) assms(4,6) by simp
  have got: "fetch s (want_from pg) = ?got" using m(4) by (simp add: h want)
  have "list_all short_rec (drop k T)" using held_short [OF assms(1)] h(4) by (metis list_all_iff in_set_dropD)
  then have "list_all short_rec ?got" by (auto simp: list_all_iff dest: in_set_takeD)
  moreover have "run_from (b + k) ?got"
    using run run_from_append [of b "take k T" "drop k T"] assms(6) run_take by simp
  moreover have "length ?got \<le> 1000" using m(2) by simp
  ultimately obtain n where n: "n \<le> length ?got" "?got \<noteq> [] \<longrightarrow> 0 < n"
    "handle_scrollback_data pg pane_id (reply_payload ?got) =
      (let q = pager_add_batch_done (foldl pager_add_line pg (take n ?got)) n in (pager_draw q, next_request q pane_id))"
    using data_reads_reply by blast
  have lg: "length ?got = m" using km by simp
  then have "0 < n" "n \<le> m" using n(1,2) m(1) by auto
  then have "k + n \<le> length T" "take n ?got = take n (drop k T)" using km by (simp_all add: min_def)
  with paged_step [OF run P \<open>0 < n\<close>] n(3) got \<open>0 < n\<close> show ?thesis by (auto simp: Let_def)
qed

end

text \<open>The store is such a source for the lines of its ring.\<close>

definition store_fetch :: "scrollback \<Rightarrow> u64 \<Rightarrow> line_rec list" where
  "store_fetch sb start = fst (sb_fetch_deep [] sb start 1000 1000 PROTO_MAX_PAYLOAD)"

definition store_valid :: "scrollback \<Rightarrow> bool" where
  "store_valid sb \<longleftrightarrow> (\<exists>b gone old now. sb_inv b gone old now sb)"

lemma ring_run:
  assumes "sb_inv b gone old now sb"
  shows "run_from (b + (length (gone @ old @ now) - mem_lines sb)) (ring_lines sb)" and "list_all short_rec (ring_lines sb)"
proof -
  let ?L = "gone @ old @ now"
  let ?d = "length ?L - mem_lines sb"
  have I: "ring_lines sb = drop ?d ?L" "run_from b ?L" "list_all short_rec ?L" using assms by (auto simp: sb_inv_def lastn_def)
  show "list_all short_rec (ring_lines sb)" using I by (auto simp: list_all_iff dest: in_set_dropD)
  have "length (take ?d ?L) = ?d" by simp
  then show "run_from (b + ?d) (ring_lines sb)"
    using I(2) run_from_append [of b "take ?d ?L" "drop ?d ?L"] unfolding append_take_drop_id I(1) by metis
qed

lemma ring_serves:
  assumes "sb_inv b gone old now sb" and "k < length (ring_lines sb)"
  shows "sb_fetch_deep ws sb (fst (ring_lines sb ! k)) m c z = (take (min m c) (drop k (ring_lines sb)), sb)"
proof -
  let ?R = "ring_lines sb" and ?s = "fst (ring_lines sb ! k)"
  obtain a where run: "run_from a ?R" using ring_run(1) [OF assms(1)] by blast
  have ok: "ring_ok sb" using assms(1) by (simp add: sb_inv_def)
  have n: "0 < ring_count sb" using assms(2) by (simp add: ring_lines_def)
  have "fst (hd ?R) \<le> ?s"
    using run_fromD [OF run, of 0] run_fromD [OF run assms(2)] assms(2) by (cases ?R) (simp_all add: word_le_nat_alt)
  then have cov: "ring_count sb > 0 \<and> ml_seq (sb_ring sb ! ring_head sb) \<le> ?s" using hd_ring_lines [OF ok n] n by simp
  have "filter (\<lambda>r. ?s \<le> fst r) ?R = drop k ?R"
    using run_filter [OF run, of ?s] run_fromD [OF run assms(2)] by simp
  then show ?thesis using cov by (simp add: sb_fetch_deep_def sb_fetch_eq)
qed

interpretation store: line_source store_valid store_fetch ring_lines
proof
  fix sb assume "store_valid sb"
  then obtain b gone old now where inv: "sb_inv b gone old now sb" by (auto simp: store_valid_def)
  show "list_all short_rec (ring_lines sb)" by (rule ring_run(2) [OF inv])
  fix k assume k: "k < length (ring_lines sb)"
  let ?n = "min 1000 (length (ring_lines sb) - k)"
  have "store_fetch sb (fst (ring_lines sb ! k)) = take ?n (drop k (ring_lines sb))"
    using ring_serves [OF inv k] by (simp add: store_fetch_def min_def)
  with k show "\<exists>n. 0 < n \<and> n \<le> 1000 \<and> k + n \<le> length (ring_lines sb) \<and>
      store_fetch sb (fst (ring_lines sb ! k)) = take n (drop k (ring_lines sb))"
    by (intro exI [of _ ?n]) auto
qed

text \<open>The loop ends, with everything.\<close>

lemma request_answer:
  assumes "sb_inv b gone old now sb" and "k < length (ring_lines sb)"
  shows "handle_scrollback_req ws True (\<lambda>_. Some sb) (scrollback_req (fst (ring_lines sb ! k)) 1000 pane_id) =
    Some (reply_payload (store_fetch sb (fst (ring_lines sb ! k))), Some sb)"
proof -
  have "get_u32 (drop 8 (scrollback_req s 1000 pane_id)) = 1000" "get_u64 (scrollback_req s 1000 pane_id) = s"
    "length (scrollback_req s 1000 pane_id) = 13" for s
    by (simp_all add: scrollback_req_def)
  then show ?thesis
    using ring_serves [OF assms, of _ 1000 1000 PROTO_MAX_PAYLOAD] by (simp add: handle_scrollback_req_def Let_def store_fetch_def)
qed

lemma paging_completes:
  assumes inv: "sb_inv b0 gone old now sb" and run: "run_from b T" and d: "drop d T = ring_lines sb"
    and "d \<le> k" and "k \<le> length T" and "paged b g T k pg" and "length T - k \<le> fuel"
  shows "\<exists>q. paging fuel sb pane_id pg (next_request pg pane_id) = Some q \<and> paged b g T (length T) q"
  using assms(4-7)
proof (induction fuel arbitrary: k pg)
  case 0
  then show ?case by (simp add: next_request_def paged_def)
next
  case (Suc fuel)
  show ?case
  proof (cases "k < length T")
    case False
    with Suc.prems show ?thesis by (simp add: next_request_def paged_def)
  next
    case True
    have valid: "store_valid sb" using inv by (auto simp: store_valid_def)
    have kd: "k - d < length (ring_lines sb)" "ring_lines sb ! (k - d) = T ! k"
      using Suc.prems(1) True by (simp_all add: d [symmetric])
    have w: "want_from pg = fst (T ! k)" using Suc.prems(3) True word_seq [OF run] by (simp add: paged_def)
    have "b + k < 2 ^ 64 - 1" using run True by (simp add: run_from_def)
    then have "want_from pg \<noteq> UINT64_MAX"
      using w run_fromD [OF run True] by (auto simp: UINT64_MAX_def unsigned_minus_1_eq_mask mask_eq_exp_minus_1)
    then have req: "next_request pg pane_id = Some (scrollback_req (fst (ring_lines sb ! (k - d))) 1000 pane_id)"
      by (simp add: next_request_def w kd)
    obtain n q where n: "0 < n" "k + n \<le> length T" "paged b g T (k + n) q"
      "handle_scrollback_data pg pane_id (reply_payload (store_fetch sb (want_from pg))) = (pager_draw q, next_request q pane_id)"
      using store.page_step [OF valid run d Suc.prems(1,3) True] by blast
    have nr: "next_request q pane_id = next_request (pager_draw q) pane_id"
      by (simp add: next_request_def pager_draw_def wr_def)
    have "paging (Suc fuel) sb pane_id pg (next_request pg pane_id) = paging fuel sb pane_id (pager_draw q) (next_request (pager_draw q) pane_id)"
      using request_answer [OF inv kd(1)] n(4) by (simp add: req w kd nr)
    moreover have "\<exists>q'. paging fuel sb pane_id (pager_draw q) (next_request (pager_draw q) pane_id) = Some q' \<and> paged b g T (length T) q'"
      by (rule Suc.IH [of "k + n"]) (use n Suc.prems in simp_all)
    ultimately show ?thesis by simp
  qed
qed

section \<open>Copy mode shows the whole history\<close>

text \<open>The lines not on disk are those of the write buffer, and there are at most 4097 of them.\<close>

lemma log_suffix_count: "16 * length rs \<le> length (log_bytes rs)"
  by (simp add: length_log_bytes)

lemma buffered_lines:
  assumes "sb_inv b gone old now sb"
  obtains j tail where "file_cur sb = log_bytes (take j now) @ tail" "torn tail" "j \<le> length now" "length now \<le> j + 4097"
proof -
  have I: "file_cur sb @ wbuf sb = log_bytes now" "list_all short_rec now" "length (wbuf sb) \<le> WBUF_SIZE"
    using assms by (simp_all add: sb_inv_def)
  let ?k = "length (file_cur sb)"
  have f: "file_cur sb = take ?k (log_bytes now)" using I(1) by (metis append_eq_conv_conj)
  obtain j tail where j: "take ?k (log_bytes now) = log_bytes (take j now) @ tail" "torn tail" "j \<le> length now"
      "j = length now \<or> ?k < rec_off now (Suc j)"
    using log_prefix [OF I(2)] by blast
  have "length now \<le> j + 4097"
  proof (cases "j = length now")
    case False
    then have "j < length now" "?k < rec_off now (Suc j)" using j(3,4) by auto
    moreover have "length (log_bytes now) = rec_off now (Suc j) + length (log_bytes (drop (Suc j) now))"
      unfolding rec_off_def by (metis append_take_drop_id length_append log_bytes_simps(3))
    moreover have "length (log_bytes now) = ?k + length (wbuf sb)" using I(1) by (metis length_append)
    ultimately have "length (log_bytes (drop (Suc j) now)) < 65536" using I(3) by (simp add: WBUF_SIZE_def)
    then show ?thesis using log_suffix_count [of "drop (Suc j) now"] by simp
  qed simp
  with that [OF trans [OF f j(1)] j(2,3)] show thesis .
qed

lemma load_disk_lines:
  assumes "sb_inv b gone old now sb" and "file_cur sb = log_bytes (take j now) @ tail" and "torn tail"
  shows "snd (pager_load_disk_pane pg (file_old sb) (Some (file_cur sb))) = foldl pager_add_line pg (old @ take j now)"
proof -
  have sh: "list_all short_rec old" "list_all short_rec (take j now)" and g: "gen_old_ok old sb"
    using assms(1) by (auto simp: sb_inv_def list_all_iff dest: in_set_takeD)
  have "read_one_log_from (file_cur sb) 0 = take j now"
    using read_log_bytes [OF sh(2) assms(3), of "[]"] assms(2) by simp
  moreover have "(case file_old sb of None \<Rightarrow> [] | Some f \<Rightarrow> read_one_log_from f 0) = old"
    using g read_log_bytes [OF sh(1), of _ "[]"] by (auto simp: gen_old_ok_def split: option.splits)
  ultimately show ?thesis
    by (auto simp: pager_load_disk_pane_def sb_read_log_pane_def Let_def split: option.splits)
qed

lemma enter_fields:
  "plines (pager_enter pg c r n) = plines pg" "newest (pager_enter pg c r n) = newest pg" "sb_lines (pager_enter pg c r n) = n"
  "want_from (pager_enter pg c r n) = (case newest pg of None \<Rightarrow> 0 | Some h \<Rightarrow> if h + 1 < n then h + 1 else UINT64_MAX)"
  by (simp_all add: pager_enter_def Let_def pager_draw_def wr_def goto_bottom_def newest_def)

lemma entered_paged:
  assumes inv: "sb_inv b gone old now sb" and first: "old \<noteq> [] \<or> b + length gone = 0" and some: "old @ now \<noteq> []"
    and cont: "file_cur sb = log_bytes (take j now) @ tail" "torn tail" "j \<le> length now"
  shows "paged b (length gone) (gone @ old @ now) (length gone + length old + j)
    (fst (enter_copy_mode (file_old sb) (Some (file_cur sb)) c r (next_seq sb) pane_id))"
proof -
  let ?T = "gone @ old @ now" and ?k = "length gone + length old + j" and ?D = "old @ take j now"
  let ?p = "foldl pager_add_line pager_new ?D"
  have run: "run_from b ?T" and total: "unat (next_seq sb) = b + length ?T" using inv by (simp_all add: sb_inv_def)
  have "run_from b (gone @ ?D)"
    using run run_from_append [of b "gone @ ?D" "drop j now"] by simp
  then have runD: "run_from (b + length gone) ?D" by (simp only: run_from_append)
  have new: "newer None ?D = ?D" by (rule newer_above) (use run_sorted [OF runD] in auto)
  have fresh: "newest pager_new = None" "plines pager_new = []" by (simp_all add: pager_new_def newest_def)
  have ok: "pager_ok ?p" by (rule adds_ok [OF pager_new_ok])
  have lines: "plines ?p = lastn PAGER_MAX_LINES ?D" using add_lines_lines [OF pager_new_ok, of ?D] new fresh by simp
  have newest: "newest ?p = (if ?D = [] then None else Some (fst (last ?D)))"
    using adds_newest [OF pager_new_ok, of ?D] new fresh by simp
  have lenD: "length ?D = length old + j" using cont(3) by simp
  have e: "fst (enter_copy_mode (file_old sb) (Some (file_cur sb)) c r (next_seq sb) pane_id) = pager_enter ?p c r (next_seq sb)"
    using load_disk_lines [OF inv cont(1,2)] by (simp add: enter_copy_mode_def Let_def)
  have take: "drop (length gone) (take ?k ?T) = ?D" by simp
  have last: "?T ! (?k - 1) = last ?D" if "?D \<noteq> []"
  proof -
    have "?T ! (length gone + (length ?D - 1)) = ?D ! (length ?D - 1)"
      using that lenD cont(3) by (cases j) (auto simp: nth_append less_diff_conv)
    moreover have "length gone + length old + j - 1 = length gone + (length ?D - 1)"
      using that lenD by (cases "length ?D") auto
    ultimately show ?thesis using last_conv_nth [OF that] by simp
  qed
  have want: "want_from (pager_enter ?p c r (next_seq sb)) = (if ?k < length ?T then word_of_nat (b + ?k) else UINT64_MAX)"
  proof (cases "?D = []")
    case True
    then have "old = []" "j = 0 \<or> now = []" by auto
    with first some newest True show ?thesis by (auto simp: enter_fields)
  next
    case False
    have nx: "unat (fst (last ?D) + 1) = b + ?k" using run_next [OF runD False] lenD by simp
    then have "fst (last ?D) + 1 = word_of_nat (b + ?k)"
      using unat_of_small [of "b + ?k"] runD lenD by (simp add: word_unat_eq_iff run_from_def)
    moreover have "fst (last ?D) + 1 < next_seq sb \<longleftrightarrow> ?k < length ?T" using nx total by (simp add: word_less_nat_alt)
    moreover have "newest ?p = Some (fst (last ?D))" unfolding newest if_not_P [OF False] ..
    ultimately show ?thesis by (simp only: enter_fields option.case)
  qed
  show ?thesis
    unfolding paged_def e enter_fields(1-3)
    using enter_ok [OF ok] lines newest take last lenD total want by auto
qed


definition copy_demo :: scrollback where
  "copy_demo = sb_open_pane None (Some (log_bytes [(0, [0x61]), (1, [0x62])])) 5000 99"

lemma copy_demo_inv: "sb_inv 0 [] [] [(0, [0x61]), (1, [0x62])] copy_demo"
  unfolding copy_demo_def
  by (rule open_inv)
     (use torn_Nil in \<open>auto simp: log_file_def run_from_def SB_LINE_MAX_def less_Suc_eq nth_Cons'\<close>)


end
