(* ===== verification/Daemon.thy ===== *)
theory Daemon
  imports Loop Vt_Render Layout Copy_Mode
begin

unbundle bit_operations_syntax

text \<open>
  The state of the daemon and the two layers every handler is built from: the connections of
  \<open>src/daemon/server.c\<close> as far as they send (\<open>client_send\<close>, \<open>client_flush\<close>, \<open>client_disconnect\<close>)
  and the panes of \<open>src/daemon/session.c\<close> as far as they move bytes (stdin staging, the callbacks
  of the terminal engine, geometry).

  One record holds everything: the static tables \<open>g_sessions\<close> and \<open>g_clients\<close>, the poll table,
  and what the operating system will answer. A pointer to a session, a pane or a client is an
  index. \<open>writes\<close> are the results of the coming calls of \<open>write\<close> on sockets and terminals; when
  they are used up a call would block. \<open>spawns\<close>, \<open>allocs\<close>, \<open>disk\<close> and \<open>clock\<close> do the same for
  \<open>pty_spawn\<close>, \<open>malloc\<close>, the writes of the scrollback log and \<open>now_ms\<close>. \<open>effects\<close> records what
  leaves the process, in order.
\<close>

section \<open>State\<close>

datatype sock_write = Sent nat | W_EINTR | W_EAGAIN | W_ERR

datatype owner = OwnListener | OwnClient nat | OwnPane nat nat | OwnSignal

datatype effect = Sock_Out int "byte list" | Pty_In int "byte list" | Pty_Size int nat nat
  | Hangup int | Close_Fd int | Spawned "byte list list" nat nat int int

record pane =
  pn_id :: byte
  pn_use :: bool
  pn_x :: nat
  pn_y :: nat
  pn_cols :: nat
  pn_rows :: nat
  pn_fd :: int
  pn_pid :: int
  pn_exit :: int
  pn_vt :: "vt option"
  pn_sb :: "scrollback option"
  stdin_buf :: "byte list"
  stdin_len :: nat
  stdin_head :: nat

record session =
  last_frame_ms :: nat
  ss_clients :: "nat option list"
  ss_panes :: "pane list"
  ss_lt :: layout
  ss_name :: "byte list"
  view_cols :: nat
  view_rows :: nat
  active_id :: byte
  last_id :: byte
  next_id :: byte
  zoomed_id :: byte
  layout_dirty :: bool
  ss_use :: bool

record client =
  cl_fd :: int
  cl_use :: bool
  hello_done :: bool
  caps :: u16
  cl_cols :: nat
  cl_rows :: nat
  connected_at :: nat
  cl_in :: ring
  cl_out :: ring
  attached :: "nat option"

record daemon =
  sessions :: "session list"
  clients :: "client list"
  fds :: "owner pollfd list"
  last_list :: "byte list"
  importing :: bool
  reload :: bool
  listen_fd :: int
  effects :: "effect list"
  writes :: "sock_write list"
  spawns :: "(int \<times> int) option list"
  allocs :: "bool list"
  disk :: "(nat \<Rightarrow> io_result list) list"
  clock :: "nat list"
  now :: nat
  memory :: "nat \<Rightarrow> bool"
  stale_errno :: "errno option"
  kernel :: os
  files :: "byte list \<Rightarrow> byte list option"
  shell :: "byte list option"
  strerror :: "errno \<Rightarrow> byte list"
  getpid :: u32
  generation :: u32

definition MAX_SESSIONS :: nat where "MAX_SESSIONS = 64"
definition MAX_CLIENTS_PER_SESSION :: nat where "MAX_CLIENTS_PER_SESSION = 8"
definition MAX_PANES_PER_SESSION :: nat where "MAX_PANES_PER_SESSION = 6"
definition SESSION_NAME_MAX :: nat where "SESSION_NAME_MAX = 63"
definition MAX_CLIENTS :: nat where "MAX_CLIENTS = 32"
definition CLIENT_OUT_MAX :: nat where "CLIENT_OUT_MAX = 4194304"
definition STDIN_STAGE_MAX :: nat where "STDIN_STAGE_MAX = 262144"

lemmas table_sizes = MAX_SESSIONS_def MAX_CLIENTS_PER_SESSION_def MAX_PANES_PER_SESSION_def MAX_CLIENTS_def

abbreviation sess :: "daemon \<Rightarrow> nat \<Rightarrow> session" where "sess d s \<equiv> sessions d ! s"
abbreviation cli :: "daemon \<Rightarrow> nat \<Rightarrow> client" where "cli d c \<equiv> clients d ! c"
abbreviation pane_at :: "daemon \<Rightarrow> nat \<Rightarrow> nat \<Rightarrow> pane" where "pane_at d s j \<equiv> ss_panes (sess d s) ! j"

definition upd_sess :: "daemon \<Rightarrow> nat \<Rightarrow> (session \<Rightarrow> session) \<Rightarrow> daemon" where
  "upd_sess d s f = d\<lparr>sessions := (sessions d)[s := f (sess d s)]\<rparr>"

definition upd_cli :: "daemon \<Rightarrow> nat \<Rightarrow> (client \<Rightarrow> client) \<Rightarrow> daemon" where
  "upd_cli d c f = d\<lparr>clients := (clients d)[c := f (cli d c)]\<rparr>"

definition upd_pane :: "daemon \<Rightarrow> nat \<Rightarrow> nat \<Rightarrow> (pane \<Rightarrow> pane) \<Rightarrow> daemon" where
  "upd_pane d s j f = upd_sess d s (\<lambda>x. x\<lparr>ss_panes := (ss_panes x)[j := f (ss_panes x ! j)]\<rparr>)"

definition effect :: "daemon \<Rightarrow> effect \<Rightarrow> daemon" where
  "effect d e = d\<lparr>effects := effects d @ [e]\<rparr>"

section \<open>What the system answers\<close>

definition now_ms :: "daemon \<Rightarrow> nat \<times> daemon" where
  "now_ms d = (case clock d of [] \<Rightarrow> (now d, d) | t # ts \<Rightarrow> (t, d\<lparr>clock := ts, now := t\<rparr>))"

definition take_alloc :: "daemon \<Rightarrow> bool \<times> daemon" where
  "take_alloc d = (case allocs d of [] \<Rightarrow> (True, d) | a # rest \<Rightarrow> (a, d\<lparr>allocs := rest\<rparr>))"

definition take_disk :: "daemon \<Rightarrow> (nat \<Rightarrow> io_result list) \<times> daemon" where
  "take_disk d = (case disk d of [] \<Rightarrow> (\<lambda>_. [], d) | w # rest \<Rightarrow> (w, d\<lparr>disk := rest\<rparr>))"

definition take_spawn :: "daemon \<Rightarrow> (int \<times> int) option \<times> daemon" where
  "take_spawn d = (case spawns d of [] \<Rightarrow> (None, d) | w # rest \<Rightarrow> (w, d\<lparr>spawns := rest\<rparr>))"

definition d_mod_fd :: "daemon \<Rightarrow> int \<Rightarrow> u16 \<Rightarrow> daemon" where
  "d_mod_fd d fd ev = d\<lparr>fds := snd (loop_mod_fd (fds d) fd ev)\<rparr>"

definition d_del_fd :: "daemon \<Rightarrow> int \<Rightarrow> daemon" where
  "d_del_fd d fd = d\<lparr>fds := loop_del_fd (fds d) fd\<rparr>"

definition close_fd :: "daemon \<Rightarrow> int \<Rightarrow> daemon" where
  "close_fd d fd = effect d (Close_Fd fd)"

section \<open>Looking up sessions and panes\<close>

definition session_find :: "daemon \<Rightarrow> byte list \<Rightarrow> nat option" where
  "session_find d name = find (\<lambda>i. ss_use (sess d i) \<and> ss_name (sess d i) = name) [0..<MAX_SESSIONS]"

definition session_at :: "daemon \<Rightarrow> int \<Rightarrow> nat option" where
  "session_at d idx = (if 0 \<le> idx \<and> idx < int MAX_SESSIONS \<and> ss_use (sess d (nat idx)) then Some (nat idx) else None)"

definition session_count :: "daemon \<Rightarrow> nat" where
  "session_count d = length (filter (\<lambda>i. ss_use (sess d i)) [0..<MAX_SESSIONS])"

definition live_panes :: "session \<Rightarrow> nat list" where
  "live_panes x = filter (\<lambda>i. pn_use (ss_panes x ! i)) [0..<MAX_PANES_PER_SESSION]"

definition session_active_pane :: "session \<Rightarrow> nat option" where
  "session_active_pane x =
    (case find (\<lambda>i. pn_use (ss_panes x ! i) \<and> pn_id (ss_panes x ! i) = active_id x) [0..<MAX_PANES_PER_SESSION] of
       Some i \<Rightarrow> Some i
     | None \<Rightarrow> find (\<lambda>i. pn_use (ss_panes x ! i)) [0..<MAX_PANES_PER_SESSION])"

definition session_pane_by_id :: "session \<Rightarrow> byte \<Rightarrow> nat option" where
  "session_pane_by_id x pane_id =
    (if pane_id = 255 then session_active_pane x
     else find (\<lambda>i. pn_use (ss_panes x ! i) \<and> pn_id (ss_panes x ! i) = pane_id) [0..<MAX_PANES_PER_SESSION])"

definition session_should_composite :: "session \<Rightarrow> bool" where
  "session_should_composite x = (length (live_panes x) \<ge> 2)"

definition session_clamp_cols :: "nat \<Rightarrow> nat" where
  "session_clamp_cols c = (if c > VT_COLS_MAX then VT_COLS_MAX else c)"

definition session_clamp_rows :: "nat \<Rightarrow> nat" where
  "session_clamp_rows r = (if r > VT_ROWS_MAX then VT_ROWS_MAX else r)"

section \<open>Sending to clients\<close>

definition flush_sbs :: "daemon \<Rightarrow> nat \<Rightarrow> nat \<Rightarrow> daemon" where
  "flush_sbs d s j =
    (case pn_sb (pane_at d s j) of None \<Rightarrow> d
     | Some sb \<Rightarrow> let (w, d) = take_disk d in upd_pane d s j (\<lambda>p. p\<lparr>pn_sb := Some (sb_flush (w 0) sb)\<rparr>))"

definition flush_pane :: "daemon \<Rightarrow> nat \<Rightarrow> nat \<Rightarrow> daemon" where
  "flush_pane d s j = (if pn_use (pane_at d s j) then flush_sbs d s j else d)"

definition session_detach :: "daemon \<Rightarrow> nat \<Rightarrow> nat \<Rightarrow> daemon" where
  "session_detach d s c =
    (let d = upd_sess d s (\<lambda>x. x\<lparr>ss_clients := map (\<lambda>k. if k = Some c then None else k) (ss_clients x)\<rparr>)
     in foldl (\<lambda>d j. flush_pane d s j) d [0..<MAX_PANES_PER_SESSION])"

definition empty_ring :: "ring \<Rightarrow> ring" where
  "empty_ring r = r\<lparr>rbuf := [], rcap := 0, rhead := 0, rlen := 0\<rparr>"

definition client_disconnect :: "daemon \<Rightarrow> nat \<Rightarrow> daemon" where
  "client_disconnect d c =
    (if \<not> cl_use (cli d c) then d
     else let d = (case attached (cli d c) of Some s \<Rightarrow> session_detach d s c | None \<Rightarrow> d);
              d = d_del_fd d (cl_fd (cli d c));
              d = close_fd d (cl_fd (cli d c))
          in upd_cli d c (\<lambda>x. x\<lparr>cl_in := empty_ring (cl_in x), cl_out := empty_ring (cl_out x), cl_use := False\<rparr>))"

text \<open>The loop of \<open>client_flush\<close>: the ring that is left, the bytes written, whether the
  connection failed, and the results not used.\<close>

fun flush_loop :: "sock_write list \<Rightarrow> ring \<Rightarrow> byte list \<Rightarrow> ring \<times> byte list \<times> bool \<times> sock_write list" where
  "flush_loop [] r acc = (r, acc, False, [])"
| "flush_loop (w # ws) r acc =
    (if rlen r = 0 then (r, acc, False, w # ws)
     else let buf = ring_peek r 16384 in
       case w of
         Sent n \<Rightarrow> if n > 0 then let k = min n (length buf) in flush_loop ws (ring_consume r k) (acc @ take k buf)
                   else (r, acc, True, ws)
       | W_EINTR \<Rightarrow> flush_loop ws r acc
       | W_EAGAIN \<Rightarrow> (r, acc, False, ws)
       | W_ERR \<Rightarrow> (r, acc, True, ws))"

definition client_flush :: "daemon \<Rightarrow> nat \<Rightarrow> daemon" where
  "client_flush d c =
    (let (r, sent, failed, ws) = flush_loop (writes d) (cl_out (cli d c)) [];
         d = effect (upd_cli (d\<lparr>writes := ws\<rparr>) c (\<lambda>x. x\<lparr>cl_out := r\<rparr>)) (Sock_Out (cl_fd (cli d c)) sent)
     in if failed then client_disconnect d c
        else d_mod_fd d (cl_fd (cli d c)) (if rlen r \<noteq> 0 then POLLIN OR POLLOUT else POLLIN))"

definition client_send :: "daemon \<Rightarrow> nat \<Rightarrow> byte \<Rightarrow> byte list \<Rightarrow> daemon" where
  "client_send d c type payload =
    (if \<not> cl_use (cli d c) then d
     else case proto_write_frame (cl_out (cli d c)) type payload of
       (False, r) \<Rightarrow> client_disconnect d c
     | (True, r) \<Rightarrow> client_flush (upd_cli d c (\<lambda>x. x\<lparr>cl_out := r\<rparr>)) c)"

definition client_alive :: "daemon \<Rightarrow> nat \<Rightarrow> bool" where
  "client_alive d c = cl_use (cli d c)"

definition client_wants_panes :: "client \<Rightarrow> bool" where
  "client_wants_panes x = (caps x AND 1 \<noteq> 0)"

definition client_geometry :: "client \<Rightarrow> nat \<times> nat" where
  "client_geometry x = (cl_cols x, cl_rows x)"

text \<open>The loop that sends one message to every client of a session that \<open>P\<close> accepts.\<close>

definition send_clients :: "daemon \<Rightarrow> nat \<Rightarrow> (client \<Rightarrow> bool) \<Rightarrow> byte \<Rightarrow> byte list \<Rightarrow> daemon" where
  "send_clients d s P type payload =
    foldl (\<lambda>d k. case ss_clients (sess d s) ! k of
        Some c \<Rightarrow> if P (cli d c) then client_send d c type payload else d
      | None \<Rightarrow> d) d [0..<MAX_CLIENTS_PER_SESSION]"

section \<open>Typed input\<close>

text \<open>\<open>stdin_cap\<close> is the length of the buffer. Growing it doubles from 4096.\<close>

function stage_cap :: "nat \<Rightarrow> nat \<Rightarrow> nat" where
  "stage_cap cap need = (if cap = 0 \<or> need \<le> cap then cap else stage_cap (cap * 2) need)"
  by pat_completeness auto
termination by (relation "measure (\<lambda>(cap, need). need - cap)") auto

declare stage_cap.simps [simp del]

definition pane_stdin_stage :: "pane \<Rightarrow> byte list \<Rightarrow> pane" where
  "pane_stdin_stage p data =
    (let p = (if stdin_head p \<noteq> 0
              then p\<lparr>stdin_buf := overwrite (stdin_buf p) 0 (take (stdin_len p) (drop (stdin_head p) (stdin_buf p))),
                     stdin_head := 0\<rparr>
              else p);
         room = STDIN_STAGE_MAX - stdin_len p;
         data = (if length data > room then take room data else data)
     in if data = [] then p
        else let need = stdin_len p + length data;
                 p = (if need > length (stdin_buf p)
                      then let cap = stage_cap (if stdin_buf p \<noteq> [] then length (stdin_buf p) else 4096) need;
                               cap = (if cap > STDIN_STAGE_MAX then STDIN_STAGE_MAX else cap)
                           in p\<lparr>stdin_buf := stdin_buf p @ replicate (cap - length (stdin_buf p)) 0\<rparr>
                      else p)
             in p\<lparr>stdin_buf := overwrite (stdin_buf p) (stdin_len p) data, stdin_len := need\<rparr>)"

text \<open>The write loops: the bytes the terminal took and the results not used. A result of 0, an
  error and a full queue all end the loop.\<close>

fun pty_write :: "sock_write list \<Rightarrow> byte list \<Rightarrow> nat \<times> sock_write list" where
  "pty_write [] bs = (0, [])"
| "pty_write (w # ws) bs =
    (if bs = [] then (0, w # ws)
     else case w of
       Sent n \<Rightarrow> if n > 0 then let k = min n (length bs); (m, ws) = pty_write ws (drop k bs) in (k + m, ws) else (0, ws)
     | W_EINTR \<Rightarrow> pty_write ws bs
     | _ \<Rightarrow> (0, ws))"

definition stdin_staged :: "pane \<Rightarrow> byte list" where
  "stdin_staged p = take (stdin_len p) (drop (stdin_head p) (stdin_buf p))"

definition drained :: "pane \<Rightarrow> nat \<Rightarrow> pane" where
  "drained p n = p\<lparr>stdin_len := stdin_len p - n,
     stdin_head := if stdin_len p - n = 0 then 0 else stdin_head p + n\<rparr>"

definition pane_stdin_drain :: "daemon \<Rightarrow> nat \<Rightarrow> nat \<Rightarrow> daemon" where
  "pane_stdin_drain d s j =
    (let p = pane_at d s j in
     if pn_fd p < 0 then upd_pane d s j (\<lambda>p. p\<lparr>stdin_len := 0, stdin_head := 0\<rparr>)
     else let (n, ws) = pty_write (writes d) (stdin_staged p);
              d = effect (upd_pane (d\<lparr>writes := ws\<rparr>) s j (\<lambda>p. drained p n)) (Pty_In (pn_fd p) (take n (stdin_staged p)))
          in d_mod_fd d (pn_fd p) (if stdin_len (pane_at d s j) \<noteq> 0 then POLLIN OR POLLOUT else POLLIN))"

definition pane_stdin :: "daemon \<Rightarrow> nat \<Rightarrow> nat \<Rightarrow> byte list \<Rightarrow> daemon" where
  "pane_stdin d s j data =
    (let p = pane_at d s j in
     if pn_fd p < 0 then d
     else if stdin_len p \<noteq> 0 then pane_stdin_drain (upd_pane d s j (\<lambda>p. pane_stdin_stage p data)) s j
     else let (n, ws) = pty_write (writes d) data;
              d = effect (d\<lparr>writes := ws\<rparr>) (Pty_In (pn_fd p) (take n data))
          in if n < length data
             then d_mod_fd (upd_pane d s j (\<lambda>p. pane_stdin_stage p (drop n data))) (pn_fd p) (POLLIN OR POLLOUT)
             else d)"

definition session_stdin :: "daemon \<Rightarrow> nat \<Rightarrow> byte list \<Rightarrow> daemon" where
  "session_stdin d s data = (case session_active_pane (sess d s) of Some j \<Rightarrow> pane_stdin d s j data | None \<Rightarrow> d)"

section \<open>The callbacks of the terminal engine\<close>

definition vt_cb_response :: "nat \<Rightarrow> nat \<Rightarrow> daemon \<Rightarrow> byte list \<Rightarrow> daemon" where
  "vt_cb_response s j d buf = (if importing d then d else pane_stdin d s j buf)"

definition pane_push_line :: "daemon \<Rightarrow> nat \<Rightarrow> nat \<Rightarrow> cell list \<Rightarrow> daemon" where
  "pane_push_line d s j cs = (case pn_sb (pane_at d s j) of None \<Rightarrow> d
     | Some sb \<Rightarrow> let (w, d) = take_disk d in upd_pane d s j (\<lambda>p. p\<lparr>pn_sb := Some (sb_push_line w sb cs)\<rparr>))"

definition vt_cb_scrollback :: "nat \<Rightarrow> nat \<Rightarrow> daemon \<Rightarrow> cell list \<Rightarrow> daemon" where
  "vt_cb_scrollback s j d cs = (if importing d then d else pane_push_line d s j cs)"

definition vt_cb_bell :: "nat \<Rightarrow> nat \<Rightarrow> daemon \<Rightarrow> daemon" where
  "vt_cb_bell s j d =
    (if \<not> session_should_composite (sess d s) then d
     else send_clients d s client_wants_panes 0x38 [pn_id (pane_at d s j)])"

fun vt_callback :: "nat \<Rightarrow> nat \<Rightarrow> daemon \<Rightarrow> vt_event \<Rightarrow> daemon" where
  "vt_callback s j d (Response bs) = vt_cb_response s j d bs"
| "vt_callback s j d (ScrollbackLine cs) = vt_cb_scrollback s j d cs"
| "vt_callback s j d Bell = vt_cb_bell s j d"
| "vt_callback s j d (Title bs) = d"
| "vt_callback s j d (Passthrough bs) = d"

definition pane_callbacks :: vt_callbacks where
  "pane_callbacks = \<lparr>on_response = True, on_scrollback_line = True, on_title = True, on_bell = True,
     on_passthrough = False\<rparr>"

text \<open>\<open>vt_feed\<close> with these callbacks. The engine does not read anything the callbacks change, so
  they run in order on what the feed recorded.\<close>

definition pane_feed :: "daemon \<Rightarrow> nat \<Rightarrow> nat \<Rightarrow> byte list \<Rightarrow> daemon" where
  "pane_feed d s j bs = (case pn_vt (pane_at d s j) of None \<Rightarrow> d
     | Some v \<Rightarrow> let v = vt_feed (v\<lparr>scr := (scr v)\<lparr>out := []\<rparr>\<rparr>) bs
                 in foldl (vt_callback s j) (upd_pane d s j (\<lambda>p. p\<lparr>pn_vt := Some v\<rparr>)) (out (scr v)))"

definition pane_vt_resize :: "daemon \<Rightarrow> nat \<Rightarrow> nat \<Rightarrow> nat \<Rightarrow> nat \<Rightarrow> daemon" where
  "pane_vt_resize d s j r c = (case pn_vt (pane_at d s j) of None \<Rightarrow> d
     | Some v \<Rightarrow> let (a0, d) = take_alloc d; (a1, d) = take_alloc d
                 in upd_pane d s j (\<lambda>p. p\<lparr>pn_vt := Some (vt_resize a0 a1 v r c)\<rparr>))"

definition pty_resize :: "daemon \<Rightarrow> int \<Rightarrow> nat \<Rightarrow> nat \<Rightarrow> daemon" where
  "pty_resize d fd c r = effect d (Pty_Size fd c r)"

end
