(* ===== verification/Composite.thy ===== *)
theory Composite
  imports Daemon
begin

unbundle bit_operations_syntax

text \<open>
  The compositor of \<open>src/daemon/composite.c\<close>: a session with several panes is drawn as one frame
  of terminal output. As in \<open>Vt_Render\<close>, every function gives the pieces it appends; the pen
  that was last emitted is threaded through. The writers of colours, pens and glyphs are the same
  code as in the snapshot writer.
\<close>

definition cb_put :: "(nat \<Rightarrow> bool) \<Rightarrow> sb \<Rightarrow> byte list \<Rightarrow> sb" where
  "cb_put mem b s =
    (if sb_oom b then b
     else let need = length (sb_buf b) + length s in
       if need > sb_cap b
       then (let nc = sb_grow (if sb_cap b \<noteq> 0 then sb_cap b * 2 else 8192) need
             in if mem nc then b\<lparr>sb_buf := sb_buf b @ s, sb_cap := nc\<rparr> else b\<lparr>sb_oom := True\<rparr>)
       else b\<lparr>sb_buf := sb_buf b @ s\<rparr>)"

definition comp_pen :: "pen_state \<Rightarrow> u16 \<Rightarrow> u32 \<Rightarrow> u32 \<Rightarrow> byte list list \<times> pen_state" where
  "comp_pen pen attrs fg bg =
    (let a = attrs AND attrs_public in
     if pen = Some (a, fg, bg) then ([], pen) else (emit_pen a fg bg, Some (a, fg, bg)))"

text \<open>The cells of one row from column \<open>c\<close> on. A wide glyph whose second half would be clipped
  is drawn as a space.\<close>

fun pane_cells :: "pen_state \<Rightarrow> nat \<Rightarrow> nat \<Rightarrow> cell list \<Rightarrow> byte list list \<times> pen_state" where
  "pane_cells pen draw c [] = ([], pen)"
| "pane_cells pen draw c (x # xs) =
    (if cattrs x AND VT_ATTR_WIDE_SPACER \<noteq> 0 then pane_cells pen draw (c + 1) xs
     else let (p, pen) = comp_pen pen (cattrs x) (cfg x) (cbg x);
              g = (if cattrs x AND VT_ATTR_WIDE \<noteq> 0 \<and> c + 1 \<ge> draw then [[0x20]] else emit_glyph x);
              (rest, pen) = pane_cells pen draw (c + 1) xs
          in (p @ g @ rest, pen))"

definition emit_pane_row :: "pen_state \<Rightarrow> pane \<Rightarrow> vt \<Rightarrow> nat \<Rightarrow> byte list list \<times> pen_state" where
  "emit_pane_row pen p v r = (case vt_line (scr v) r of None \<Rightarrow> ([], pen)
     | Some lcs \<Rightarrow>
        let draw = (if pn_cols p < snd (vt_get_size (scr v)) then pn_cols p else snd (vt_get_size (scr v)));
            (cs, pen) = pane_cells pen draw 0 (take draw lcs);
            (pad, pen) = (if draw < pn_cols p
                          then let (e, pen) = comp_pen pen 0 VT_COLOR_DEFAULT VT_COLOR_DEFAULT
                               in (e @ replicate (pn_cols p - draw) [0x20], pen)
                          else ([], pen))
        in (sb_fmt (csi [pn_y p + r + 1, pn_x p + 1] 0x48) # cs @ pad, pen))"

fun pane_rows :: "bool \<Rightarrow> pen_state \<Rightarrow> pane \<Rightarrow> vt \<Rightarrow> nat list \<Rightarrow> byte list list \<times> pen_state" where
  "pane_rows full pen p v [] = ([], pen)"
| "pane_rows full pen p v (r # rs) =
    (if full \<or> vt_row_dirty (scr v) r
     then let (a, pen) = emit_pane_row pen p v r; (b, pen) = pane_rows full pen p v rs in (a @ b, pen)
     else pane_rows full pen p v rs)"

fun frame_panes :: "bool \<Rightarrow> byte \<Rightarrow> pen_state \<Rightarrow> pane list \<Rightarrow> byte list list \<times> pen_state" where
  "frame_panes full zoomed pen [] = ([], pen)"
| "frame_panes full zoomed pen (p # ps) =
    (case pn_vt p of
       Some v \<Rightarrow>
         if \<not> pn_use p \<or> zoomed \<noteq> 255 \<and> pn_id p \<noteq> zoomed then frame_panes full zoomed pen ps
         else let nr = (if pn_rows p < fst (vt_get_size (scr v)) then pn_rows p else fst (vt_get_size (scr v)));
                  (a, pen) = pane_rows full pen p v [0..<nr]; (b, pen) = frame_panes full zoomed pen ps
              in (a @ b, pen)
     | None \<Rightarrow> frame_panes full zoomed pen ps)"

text \<open>The line that divides the two halves of an inner node.\<close>

definition divider :: "layout_node list \<Rightarrow> layout_node \<Rightarrow> byte list list" where
  "divider ns n =
    (let a = ns ! nat (child0 n) in
     if stacked n
     then sb_fmt (csi [cut16 (ny a + nrows a) + 1, nx n + 1] 0x48) # replicate (ncols n) (emit_utf8 0x2500)
     else concat (map (\<lambda>r. [sb_fmt (csi [ny n + r + 1, cut16 (nx a + ncols a) + 1] 0x48), emit_utf8 0x2502])
            [0..<nrows n]))"

definition emit_dividers :: "pen_state \<Rightarrow> session \<Rightarrow> byte list list" where
  "emit_dividers pen x =
    fst (comp_pen pen VT_ATTR_DIM VT_COLOR_DEFAULT VT_COLOR_DEFAULT) @
    concat (map (divider (nodes (ss_lt x))) (filter (\<lambda>n. in_use n \<and> \<not> leaf n) (nodes (ss_lt x))))"

definition frame_modes :: "(u32 \<times> nat) list" where
  "frame_modes =
    [(VT_MODE_DECCKM, 1), (VT_MODE_MOUSE_X10, 1000), (VT_MODE_MOUSE_BTN, 1002), (VT_MODE_MOUSE_ANY, 1003),
     (VT_MODE_FOCUS, 1004), (VT_MODE_MOUSE_UTF8, 1005), (VT_MODE_MOUSE_SGR, 1006), (VT_MODE_PASTE, 2004)]"

definition frame_tail :: "pane \<Rightarrow> vt \<Rightarrow> byte list list" where
  "frame_tail p v =
    map (\<lambda>m. sb_fmt (decset [snd m] (if vt_get_modes (scr v) AND fst m \<noteq> 0 then 0x68 else 0x6c))) frame_modes @
    (let (cr, cc, vis) = vt_get_cursor (scr v)
     in [csi [0] 0x6d, sb_fmt (csi [pn_y p + cr + 1, pn_x p + cc + 1] 0x48), decset [25] (if vis then 0x68 else 0x6c)])"

definition frame_body :: "session \<Rightarrow> bool \<Rightarrow> byte list list" where
  "frame_body x full =
    (let (ps, pen) = frame_panes full (zoomed_id x) None (ss_panes x)
     in ps @ (if full \<and> zoomed_id x = 255 then emit_dividers pen x else []))"

definition frame_pieces :: "session \<Rightarrow> bool \<Rightarrow> pane \<Rightarrow> vt \<Rightarrow> byte list list" where
  "frame_pieces x full p v =
    [decset [25] 0x6c @ decset [7] 0x6c @ csi [] 0x72 @ csi [0] 0x6d] @
    (if full then [csi [2] 0x4a] else []) @ frame_body x full @ frame_tail p v"

definition pane_dirty :: "pane \<Rightarrow> bool" where
  "pane_dirty p = (pn_use p \<and> (case pn_vt p of None \<Rightarrow> False | Some v \<Rightarrow> vt_any_dirty (scr v)))"

text \<open>The frame, empty when there is nothing to draw or memory runs out. A pane in use has an
  engine.\<close>

definition composite_frame :: "(nat \<Rightarrow> bool) \<Rightarrow> session \<Rightarrow> bool \<Rightarrow> byte list" where
  "composite_frame mem x full =
    (case session_active_pane x of None \<Rightarrow> []
     | Some j \<Rightarrow>
        if \<not> full \<and> \<not> list_ex pane_dirty (ss_panes x) then []
        else (case pn_vt (ss_panes x ! j) of None \<Rightarrow> []
          | Some v \<Rightarrow>
             let b = foldl (cb_put mem) \<lparr>sb_buf = [], sb_cap = 0, sb_oom = False\<rparr> (frame_pieces x full (ss_panes x ! j) v)
             in if sb_oom b then [] else sb_buf b))"

section \<open>The buffer holds the whole frame or nothing\<close>

lemma cb_put_complete:
  "sb_oom (foldl (cb_put mem) b ps) \<or> sb_buf (foldl (cb_put mem) b ps) = sb_buf b @ concat ps"
proof (induction ps arbitrary: b)
  case (Cons p ps)
  have stuck: "sb_oom b \<Longrightarrow> sb_oom (foldl (cb_put mem) b qs)" for b qs
    by (induction qs) (simp_all add: cb_put_def)
  show ?case
  proof (cases "sb_oom (cb_put mem b p)")
    case False
    then have "sb_buf (cb_put mem b p) = sb_buf b @ p" by (auto simp: cb_put_def Let_def split: if_splits)
    with Cons.IH [of "cb_put mem b p"] show ?thesis by simp
  qed (simp add: stuck)
qed simp

lemma cb_put_enough: "\<not> sb_oom b \<Longrightarrow> \<not> sb_oom (foldl (cb_put (\<lambda>_. True)) b ps)"
  by (induction ps arbitrary: b) (auto simp: cb_put_def Let_def)

lemma composite_frame_bytes:
  assumes "session_active_pane x = Some j" and "pn_vt (ss_panes x ! j) = Some v"
    and "full \<or> list_ex pane_dirty (ss_panes x)"
  shows "composite_frame (\<lambda>_. True) x full = concat (frame_pieces x full (ss_panes x ! j) v)"
    and "composite_frame mem x full = [] \<or> composite_frame mem x full = concat (frame_pieces x full (ss_panes x ! j) v)"
  using assms cb_put_complete [of mem "\<lparr>sb_buf = [], sb_cap = 0, sb_oom = False\<rparr>" "frame_pieces x full (ss_panes x ! j) v"]
    cb_put_complete [of "\<lambda>_. True" "\<lparr>sb_buf = [], sb_cap = 0, sb_oom = False\<rparr>" "frame_pieces x full (ss_panes x ! j) v"]
    cb_put_enough [of "\<lparr>sb_buf = [], sb_cap = 0, sb_oom = False\<rparr>" "frame_pieces x full (ss_panes x ! j) v"]
  by (auto simp: composite_frame_def Let_def)

end
