(* ===== verification/Session.thy ===== *)
theory Session
  imports Composite
begin

unbundle bit_operations_syntax

text \<open>
  Sessions and panes, the rest of \<open>src/daemon/session.c\<close>: creating, splitting, closing, selecting,
  attaching, resizing, reading from a child, reaping it, compositing, and rebuilding a session
  from a state file. A function that returns a pointer or sets \<open>errno\<close> returns a sum.
\<close>

section \<open>Panes\<close>

definition zero_pane :: pane where
  "zero_pane = \<lparr>pn_id = 0, pn_use = False, pn_x = 0, pn_y = 0, pn_cols = 0, pn_rows = 0, pn_fd = 0, pn_pid = 0,
     pn_exit = 0, pn_vt = None, pn_sb = None, stdin_buf = [], stdin_len = 0, stdin_head = 0\<rparr>"

definition d_add_fd :: "daemon \<Rightarrow> int \<Rightarrow> u16 \<Rightarrow> owner \<Rightarrow> bool \<times> daemon" where
  "d_add_fd d fd ev ow = (let (rc, tb) = loop_add_fd (fds d) fd ev ow in (rc = 0, d\<lparr>fds := tb\<rparr>))"

text \<open>The part of \<open>pane_alloc\<close> and \<open>session_import_pane\<close> that builds the engine and the scrollback
  in slot \<open>j\<close>.\<close>

definition pane_setup :: "daemon \<Rightarrow> nat \<Rightarrow> nat \<Rightarrow> byte \<Rightarrow> nat \<Rightarrow> nat \<Rightarrow> bool \<times> daemon" where
  "pane_setup d s j pane_id c r =
    (let d = upd_pane d s j (\<lambda>_. zero_pane\<lparr>pn_id := pane_id, pn_cols := c, pn_rows := r, pn_fd := - 1, pn_pid := - 1\<rparr>);
         (a, d) = take_alloc d; (a0, d) = take_alloc d; (a1, d) = take_alloc d
     in case vt_new a a0 a1 r c (Some pane_callbacks) of None \<Rightarrow> (False, d)
        | Some v \<Rightarrow> (True, upd_pane d s j (\<lambda>p. p\<lparr>pn_vt := Some v,
            pn_sb := sb_open_named (kernel d) (files d) (ss_name (sess d s)) pane_id 0 0\<rparr>)))"

definition free_pane_slot :: "session \<Rightarrow> nat option" where
  "free_pane_slot x = find (\<lambda>i. \<not> pn_use (ss_panes x ! i)) [0..<MAX_PANES_PER_SESSION]"

definition pane_alloc :: "daemon \<Rightarrow> nat \<Rightarrow> byte \<Rightarrow> nat \<Rightarrow> nat \<Rightarrow> (errno + nat) \<times> daemon" where
  "pane_alloc d s pane_id c r =
    (case free_pane_slot (sess d s) of None \<Rightarrow> (Inl ENOSPC, d)
     | Some j \<Rightarrow> (case pane_setup d s j pane_id c r of (ok, d) \<Rightarrow> (if ok then Inr j else Inl ENOMEM, d)))"

text \<open>Closing a store leaves its two generations in the file system.\<close>

definition store_log :: "daemon \<Rightarrow> byte list \<Rightarrow> byte \<Rightarrow> byte list option \<times> byte list \<Rightarrow> daemon" where
  "store_log d name pane_id gens = (case session_dir (kernel d) name 600 of Inl e \<Rightarrow> d
     | Inr dir \<Rightarrow> let path = pane_log dir pane_id 640; old_path = take 647 (path @ ascii ''.1'');
                      fs = (files d)(path \<mapsto> snd gens)
         in d\<lparr>files := (case fst gens of None \<Rightarrow> fs | Some g \<Rightarrow> fs(old_path \<mapsto> g))\<rparr>)"

definition pane_close_sb :: "daemon \<Rightarrow> nat \<Rightarrow> nat \<Rightarrow> daemon" where
  "pane_close_sb d s j = (case pn_sb (pane_at d s j) of None \<Rightarrow> d
     | Some sb \<Rightarrow> let (w, d) = take_disk d;
                      d = store_log d (ss_name (sess d s)) (pn_id (pane_at d s j)) (sb_close (w 0) sb)
         in upd_pane d s j (\<lambda>p. p\<lparr>pn_sb := None\<rparr>))"

definition pane_alloc_undo :: "daemon \<Rightarrow> nat \<Rightarrow> nat \<Rightarrow> daemon" where
  "pane_alloc_undo d s j =
    (let d = upd_pane d s j (\<lambda>p. p\<lparr>pn_vt := None\<rparr>); d = pane_close_sb d s j
     in upd_pane d s j (\<lambda>p. p\<lparr>pn_use := False\<rparr>))"

text \<open>One past the last row that is not blank.\<close>

definition screen_last :: "screen \<Rightarrow> nat" where
  "screen_last v =
    foldl (\<lambda>n r. case vt_line v r of None \<Rightarrow> n
      | Some lcs \<Rightarrow> if list_ex (\<lambda>c. ccp c \<noteq> 0 \<and> ccp c \<noteq> 0x20) (take (cols v) lcs) then r + 1 else n) 0 [0..<rows v]"

definition pane_flush_screen :: "daemon \<Rightarrow> nat \<Rightarrow> nat \<Rightarrow> daemon" where
  "pane_flush_screen d s j =
    (case (pn_vt (pane_at d s j), pn_sb (pane_at d s j)) of
       (Some v, Some _) \<Rightarrow>
         if vt_get_modes (scr v) AND VT_MODE_ALTSCREEN \<noteq> 0 then d
         else foldl (\<lambda>d r. case vt_line (scr v) r of None \<Rightarrow> d | Some lcs \<Rightarrow> pane_push_line d s j lcs) d
                [0..<screen_last (scr v)]
     | _ \<Rightarrow> d)"

definition pane_free_slot :: "daemon \<Rightarrow> nat \<Rightarrow> nat \<Rightarrow> daemon" where
  "pane_free_slot d s j =
    (let d = pane_flush_screen d s j; fd = pn_fd (pane_at d s j);
         d = (if fd \<ge> 0 then upd_pane (close_fd (d_del_fd d fd) fd) s j (\<lambda>p. p\<lparr>pn_fd := - 1\<rparr>) else d);
         d = upd_pane d s j (\<lambda>p. p\<lparr>stdin_buf := [], stdin_len := 0, stdin_head := 0, pn_vt := None\<rparr>);
         d = pane_close_sb d s j
     in upd_pane d s j (\<lambda>p. p\<lparr>pn_use := False\<rparr>))"

section \<open>Geometry, layout messages and frames\<close>

definition apply_pane :: "daemon \<Rightarrow> nat \<Rightarrow> nat \<Rightarrow> daemon" where
  "apply_pane d s i =
    (let x = sess d s; p = ss_panes x ! i in
     if \<not> pn_use p then d
     else case (if zoomed_id x \<noteq> 255 \<and> pn_id p = zoomed_id x then Some (0, 0, view_cols x, view_rows x)
                else layout_pane_rect (ss_lt x) (int i)) of
       None \<Rightarrow> d
     | Some (px, py, c, r) \<Rightarrow>
        let d = upd_pane d s i (\<lambda>p. p\<lparr>pn_x := px, pn_y := py\<rparr>) in
        if c \<noteq> pn_cols p \<or> r \<noteq> pn_rows p
        then let d = pane_vt_resize (upd_pane d s i (\<lambda>p. p\<lparr>pn_cols := c, pn_rows := r\<rparr>)) s i r c
             in if pn_fd p \<ge> 0 then pty_resize d (pn_fd p) c r else d
        else d)"

definition session_apply_layout :: "daemon \<Rightarrow> nat \<Rightarrow> daemon" where
  "session_apply_layout d s =
    upd_sess (foldl (\<lambda>d i. apply_pane d s i) d [0..<MAX_PANES_PER_SESSION]) s (\<lambda>x. x\<lparr>layout_dirty := True\<rparr>)"

definition n16 :: "nat \<Rightarrow> byte list" where "n16 n = put_u16 (word_of_nat n)"

definition layout_payload :: "session \<Rightarrow> byte list" where
  "layout_payload x =
    n16 (view_cols x) @ n16 (view_rows x) @ [active_id x, word_of_nat (length (live_panes x))] @
    concat (map (\<lambda>i. let p = ss_panes x ! i in pn_id p # n16 (pn_x p) @ n16 (pn_y p) @ n16 (pn_cols p) @ n16 (pn_rows p))
      (live_panes x))"

definition session_send_layout :: "daemon \<Rightarrow> nat \<Rightarrow> daemon" where
  "session_send_layout d s = send_clients d s client_wants_panes 0x35 (layout_payload (sess d s))"

definition pane_damage_clear :: "daemon \<Rightarrow> nat \<Rightarrow> nat \<Rightarrow> daemon" where
  "pane_damage_clear d s j =
    upd_pane d s j (\<lambda>p. p\<lparr>pn_vt := map_option (\<lambda>v. v\<lparr>scr := vt_damage_clear (scr v)\<rparr>) (pn_vt p)\<rparr>)"

definition session_composite_one :: "daemon \<Rightarrow> nat \<Rightarrow> daemon" where
  "session_composite_one d s =
    (let frame = composite_frame (memory d) (sess d s) (layout_dirty (sess d s));
         d = (if layout_dirty (sess d s)
              then upd_sess (session_send_layout d s) s (\<lambda>x. x\<lparr>layout_dirty := False\<rparr>) else d)
     in if frame = [] then d
        else let d = send_clients d s (\<lambda>_. True) 0x30 frame;
                 d = foldl (\<lambda>d j. if pn_use (pane_at d s j) then pane_damage_clear d s j else d) d [0..<MAX_PANES_PER_SESSION];
                 (t, d) = now_ms d
             in upd_sess d s (\<lambda>x. x\<lparr>last_frame_ms := t\<rparr>))"

definition session_composite_all :: "daemon \<Rightarrow> daemon" where
  "session_composite_all d =
    foldl (\<lambda>d s. let x = sess d s in
        if \<not> ss_use x \<or> \<not> session_should_composite x then d
        else if layout_dirty x \<or> list_ex pane_dirty (ss_panes x) then session_composite_one d s else d)
      d [0..<MAX_SESSIONS]"

definition snapshot_or_empty :: "daemon \<Rightarrow> vt \<Rightarrow> byte list" where
  "snapshot_or_empty d v = (case vt_snapshot (memory d) v of None \<Rightarrow> [] | Some b \<Rightarrow> b)"

definition send_repaint :: "byte list \<Rightarrow> daemon \<Rightarrow> nat \<Rightarrow> nat \<Rightarrow> daemon" where
  "send_repaint blob d s k = (case ss_clients (sess d s) ! k of None \<Rightarrow> d
     | Some c \<Rightarrow> let d = client_send d c 0x30 (decset [7] 0x68)
                 in if blob \<noteq> [] then client_send d c 0x30 blob else d)"

definition session_leave_composite :: "daemon \<Rightarrow> nat \<Rightarrow> daemon" where
  "session_leave_composite d s =
    (let d = upd_sess (session_send_layout d s) s (\<lambda>x. x\<lparr>layout_dirty := False\<rparr>) in
     case session_active_pane (sess d s) of None \<Rightarrow> d
     | Some j \<Rightarrow> (case pn_vt (pane_at d s j) of None \<Rightarrow> d
       | Some v \<Rightarrow> pane_damage_clear
           (foldl (\<lambda>d k. send_repaint (snapshot_or_empty d v) d s k) d [0..<MAX_CLIENTS_PER_SESSION]) s j))"

definition session_unzoom :: "daemon \<Rightarrow> nat \<Rightarrow> daemon" where
  "session_unzoom d s =
    (if zoomed_id (sess d s) = 255 then d
     else session_apply_layout (upd_sess d s (\<lambda>x. x\<lparr>zoomed_id := 255\<rparr>)) s)"

definition session_resize :: "daemon \<Rightarrow> nat \<Rightarrow> nat \<Rightarrow> nat \<Rightarrow> daemon" where
  "session_resize d s c r =
    (let c = session_clamp_cols c; r = session_clamp_rows r; x = sess d s in
     if c = 0 \<or> r = 0 \<or> c = view_cols x \<and> r = view_rows x then d
     else let d = upd_sess d s (\<lambda>x. x\<lparr>view_cols := c, view_rows := r\<rparr>) in
       if \<not> session_should_composite (sess d s)
       then (case session_active_pane (sess d s) of None \<Rightarrow> d
         | Some j \<Rightarrow> let d = pane_vt_resize (upd_pane d s j (\<lambda>p. p\<lparr>pn_cols := c, pn_rows := r\<rparr>)) s j r c
                     in if pn_fd (pane_at d s j) \<ge> 0 then pty_resize d (pn_fd (pane_at d s j)) c r else d)
       else session_apply_layout (upd_sess d s (\<lambda>x. x\<lparr>ss_lt := layout_reflow (ss_lt x) c r\<rparr>)) s)"

section \<open>Creating and ending sessions\<close>

definition zero_session :: session where
  "zero_session = \<lparr>last_frame_ms = 0, ss_clients = replicate MAX_CLIENTS_PER_SESSION None,
     ss_panes = replicate MAX_PANES_PER_SESSION zero_pane, ss_lt = layout_init 0, ss_name = [], view_cols = 0,
     view_rows = 0, active_id = 0, last_id = 0, next_id = 0, zoomed_id = 0, layout_dirty = False, ss_use = False\<rparr>"

definition session_alloc :: "daemon \<Rightarrow> byte list \<Rightarrow> nat \<Rightarrow> nat \<Rightarrow> (errno + nat) \<times> daemon" where
  "session_alloc d name c r =
    (if session_find d name \<noteq> None then (Inl EEXIST, d)
     else case find (\<lambda>i. \<not> ss_use (sess d i)) [0..<MAX_SESSIONS] of
       None \<Rightarrow> (Inl ENOSPC, d)
     | Some s \<Rightarrow>
        let vc = session_clamp_cols (if c \<noteq> 0 then c else 80); vr = session_clamp_rows (if r \<noteq> 0 then r else 24)
        in (Inr s, upd_sess d s (\<lambda>_. zero_session\<lparr>ss_name := take SESSION_NAME_MAX name, view_cols := vc,
              view_rows := vr, ss_lt := layout_reflow (layout_init 0) vc vr, next_id := 1, zoomed_id := 255\<rparr>)))"

definition drop_client :: "daemon \<Rightarrow> nat \<Rightarrow> nat \<Rightarrow> daemon" where
  "drop_client d s k = (case ss_clients (sess d s) ! k of None \<Rightarrow> d
     | Some c \<Rightarrow> client_disconnect (upd_sess d s (\<lambda>x. x\<lparr>ss_clients := (ss_clients x)[k := None]\<rparr>)) c)"

definition session_free_slot :: "daemon \<Rightarrow> nat \<Rightarrow> daemon" where
  "session_free_slot d s =
    (let d = foldl (\<lambda>d k. drop_client d s k) d [0..<MAX_CLIENTS_PER_SESSION];
         d = foldl (\<lambda>d j. if pn_use (pane_at d s j) then pane_free_slot d s j else d) d [0..<MAX_PANES_PER_SESSION]
     in upd_sess d s (\<lambda>x. x\<lparr>ss_use := False\<rparr>))"

text \<open>\<open>pty_spawn\<close> fills in the child's terminal and process id.\<close>

definition pane_spawn :: "daemon \<Rightarrow> nat \<Rightarrow> nat \<Rightarrow> byte list list \<Rightarrow> nat \<Rightarrow> nat \<Rightarrow> bool \<times> daemon" where
  "pane_spawn d s j argv c r = (case take_spawn d of
     (None, d) \<Rightarrow> (False, d)
   | (Some (fd, pid), d) \<Rightarrow> (True, effect (upd_pane d s j (\<lambda>p. p\<lparr>pn_fd := fd, pn_pid := pid\<rparr>)) (Spawned argv c r fd pid)))"

definition errno_or :: "errno \<Rightarrow> daemon \<Rightarrow> errno" where
  "errno_or e d = (case stale_errno d of None \<Rightarrow> e | Some e' \<Rightarrow> e')"

text \<open>No slot in the poll table: the child is killed and the pane undone.\<close>

definition spawn_undo :: "daemon \<Rightarrow> nat \<Rightarrow> nat \<Rightarrow> daemon" where
  "spawn_undo d s j =
    (let p = pane_at d s j;
         d = close_fd (effect d (Hangup (pn_pid p))) (pn_fd p)
     in pane_alloc_undo (upd_pane d s j (\<lambda>p. p\<lparr>pn_fd := - 1\<rparr>)) s j)"

definition session_new :: "daemon \<Rightarrow> byte list \<Rightarrow> byte list list \<Rightarrow> nat \<Rightarrow> nat \<Rightarrow> (errno + nat) \<times> daemon" where
  "session_new d name argv c r = (case session_alloc d name c r of
     (Inl e, d) \<Rightarrow> (Inl e, d)
   | (Inr s, d) \<Rightarrow> (case pane_alloc d s 0 (view_cols (sess d s)) (view_rows (sess d s)) of
       (Inl e, d) \<Rightarrow> (Inl e, d)
     | (Inr j, d) \<Rightarrow> (case pane_spawn d s j argv (pn_cols (pane_at d s j)) (pn_rows (pane_at d s j)) of
         (False, d) \<Rightarrow> (Inl (errno_or EOTHER d), pane_alloc_undo d s j)
       | (True, d) \<Rightarrow>
          let d = upd_sess (upd_pane d s j (\<lambda>p. p\<lparr>pn_use := True\<rparr>)) s (\<lambda>x. x\<lparr>ss_use := True\<rparr>) in
          (case d_add_fd d (pn_fd (pane_at d s j)) POLLIN (OwnPane s j) of
             (True, d) \<Rightarrow> (Inr s, d)
           | (False, d) \<Rightarrow> (Inl (errno_or ENOSPC d), upd_sess (spawn_undo d s j) s (\<lambda>x. x\<lparr>ss_use := False\<rparr>))))))"

definition session_kill :: "daemon \<Rightarrow> nat \<Rightarrow> daemon" where
  "session_kill d s =
    session_free_slot
      (foldl (\<lambda>d j. if pn_use (pane_at d s j) \<and> pn_pid (pane_at d s j) > 0
                    then effect d (Hangup (pn_pid (pane_at d s j))) else d) d [0..<MAX_PANES_PER_SESSION]) s"

section \<open>Ending a pane\<close>

text \<open>Closing and reaping share what happens once the slot is free: the tree loses the leaf, the
  keyboard goes to the previous pane, and the geometry is pushed out.\<close>

definition refocus :: "session \<Rightarrow> session" where
  "refocus x = (if session_pane_by_id x (active_id x) = None
     then (case session_active_pane x of Some j \<Rightarrow> x\<lparr>active_id := pn_id (ss_panes x ! j)\<rparr> | None \<Rightarrow> x) else x)"

definition pane_gone :: "daemon \<Rightarrow> nat \<Rightarrow> nat \<Rightarrow> byte \<Rightarrow> daemon" where
  "pane_gone d s j pane_id =
    (let d = pane_free_slot d s j;
         d = upd_sess d s (\<lambda>x. x\<lparr>ss_lt := snd (layout_close (ss_lt x) (view_cols x) (view_rows x) (int j))\<rparr>);
         d = upd_sess d s (\<lambda>x. if active_id x = pane_id
               then x\<lparr>active_id := if last_id x \<noteq> pane_id then last_id x else 0\<rparr> else x);
         d = upd_sess d s refocus;
         d = session_apply_layout d s
     in if \<not> session_should_composite (sess d s) then session_leave_composite d s else d)"

definition session_close_pane :: "daemon \<Rightarrow> nat \<Rightarrow> byte \<Rightarrow> bool \<times> daemon" where
  "session_close_pane d s pane_id = (case session_pane_by_id (sess d s) pane_id of None \<Rightarrow> (False, d)
     | Some j \<Rightarrow>
        let d = session_unzoom d s; real_id = pn_id (pane_at d s j); live = length (live_panes (sess d s));
            d = (if pn_pid (pane_at d s j) > 0 then effect d (Hangup (pn_pid (pane_at d s j))) else d)
        in if live \<le> 1 then (True, session_free_slot d s) else (True, pane_gone d s j real_id))"

definition n32 :: "int \<Rightarrow> byte list" where "n32 n = put_u32 (word_of_int n)"

definition session_pane_reaped :: "daemon \<Rightarrow> nat \<Rightarrow> nat \<Rightarrow> daemon" where
  "session_pane_reaped d s j =
    (let p = pane_at d s j in
     if length (live_panes (sess d s)) \<le> 1
     then session_free_slot (pane_free_slot (send_clients d s (\<lambda>_. True) 0x34 (n32 (pn_exit p))) s j) s
     else pane_gone (send_clients d s client_wants_panes 0x36 (pn_id p # n32 (pn_exit p))) s j (pn_id p))"

datatype wait_status = Exited nat | Signaled nat

fun exit_code :: "wait_status \<Rightarrow> int" where
  "exit_code (Exited n) = int n"
| "exit_code (Signaled n) = 128 + int n"

definition reap_pane :: "int \<Rightarrow> wait_status \<Rightarrow> nat \<Rightarrow> daemon \<Rightarrow> nat \<Rightarrow> daemon" where
  "reap_pane pid st s d j =
    (if \<not> pn_use (pane_at d s j) \<or> pn_pid (pane_at d s j) \<noteq> pid then d
     else session_pane_reaped (upd_pane d s j (\<lambda>p. p\<lparr>pn_pid := - 1, pn_exit := exit_code st\<rparr>)) s j)"

definition reap_session :: "int \<Rightarrow> wait_status \<Rightarrow> daemon \<Rightarrow> nat \<Rightarrow> daemon" where
  "reap_session pid st d s = (if \<not> ss_use (sess d s) then d else foldl (reap_pane pid st s) d [0..<MAX_PANES_PER_SESSION])"

text \<open>The children \<open>waitpid\<close> reports, in order.\<close>

definition session_reap_children :: "daemon \<Rightarrow> (int \<times> wait_status) list \<Rightarrow> daemon" where
  "session_reap_children d rs = foldl (\<lambda>d e. foldl (reap_session (fst e) (snd e)) d [0..<MAX_SESSIONS]) d rs"

section \<open>Splitting\<close>

text \<open>The loop that draws a wire id no live pane holds, with the cursor it leaves.\<close>

fun pick_id :: "nat \<Rightarrow> session \<Rightarrow> byte \<Rightarrow> (byte \<times> byte) option" where
  "pick_id 0 x nid = None"
| "pick_id (Suc fuel) x nid =
    (let nid' = (if nid = 254 then 1 else nid + 1)
     in if session_pane_by_id x nid = None then Some (nid, nid') else pick_id fuel x nid')"

definition the_shell :: "daemon \<Rightarrow> byte list" where
  "the_shell d = (case shell d of Some sh \<Rightarrow> if sh \<noteq> [] then sh else ascii ''/bin/sh'' | None \<Rightarrow> ascii ''/bin/sh'')"

definition drop_leaf :: "daemon \<Rightarrow> nat \<Rightarrow> nat \<Rightarrow> daemon" where
  "drop_leaf d s j = upd_sess d s (\<lambda>x. x\<lparr>ss_lt := snd (layout_close (ss_lt x) (view_cols x) (view_rows x) (int j))\<rparr>)"

definition rect_size :: "layout \<Rightarrow> nat \<Rightarrow> nat \<times> nat" where
  "rect_size lt j = (case layout_pane_rect lt (int j) of Some (_, _, c, r) \<Rightarrow> (c, r) | None \<Rightarrow> (0, 0))"

text \<open>Building the pane once the tree has its leaf.\<close>

definition split_pane :: "daemon \<Rightarrow> nat \<Rightarrow> nat \<Rightarrow> byte \<Rightarrow> (errno + nat) \<times> daemon" where
  "split_pane d s n pane_id =
    (let (c, r) = rect_size (ss_lt (sess d s)) n in
     case pane_alloc d s pane_id c r of
       (Inl e, d) \<Rightarrow> (Inl e, drop_leaf d s n)
     | (Inr j, d) \<Rightarrow> (case pane_spawn d s j [the_shell d] c r of
         (False, d) \<Rightarrow> (Inl (errno_or EOTHER d), drop_leaf (pane_alloc_undo d s j) s n)
       | (True, d) \<Rightarrow>
          let d = upd_pane d s j (\<lambda>p. p\<lparr>pn_use := True\<rparr>) in
          (case d_add_fd d (pn_fd (pane_at d s j)) POLLIN (OwnPane s j) of
             (False, d) \<Rightarrow> (Inl (errno_or ENOSPC d), drop_leaf (spawn_undo d s j) s n)
           | (True, d) \<Rightarrow> (Inr j, session_apply_layout
               (upd_sess d s (\<lambda>x. x\<lparr>last_id := active_id x, active_id := pane_id\<rparr>)) s))))"

definition session_split :: "daemon \<Rightarrow> nat \<Rightarrow> byte \<Rightarrow> bool \<Rightarrow> (errno + nat) \<times> daemon" where
  "session_split d s target st =
    (let d = session_unzoom d s in
     case session_pane_by_id (sess d s) target of None \<Rightarrow> (Inl EINVAL, d)
     | Some t \<Rightarrow> (case free_pane_slot (sess d s) of None \<Rightarrow> (Inl ENOSPC, d)
       | Some n \<Rightarrow>
          let x = sess d s; (ok, lt) = layout_split (ss_lt x) (view_cols x) (view_rows x) (int t) (int n) st;
              d = upd_sess d s (\<lambda>x. x\<lparr>ss_lt := lt\<rparr>)
          in if \<not> ok then (Inl EINVAL, d)
             else (case pick_id 256 (sess d s) (next_id (sess d s)) of None \<Rightarrow> (Inl EOTHER, d)
               | Some (pane_id, nid) \<Rightarrow> split_pane (upd_sess d s (\<lambda>x. x\<lparr>next_id := nid\<rparr>)) s n pane_id)))"

section \<open>Selecting\<close>

text \<open>Whether pane \<open>p\<close> lies beyond the edge of pane \<open>q\<close> in a direction, and how far: edge distance
  first, then the offset of the centres.\<close>

definition direction_key :: "byte \<Rightarrow> pane \<Rightarrow> pane \<Rightarrow> int option" where
  "direction_key mode q p =
    (let ccx = pn_x q + pn_cols q div 2; ccy = pn_y q + pn_rows q div 2;
         pcx = pn_x p + pn_cols p div 2; pcy = pn_y p + pn_rows p div 2;
         key = (\<lambda>a b. Some (int a * 4096 + b)) in
     if mode = 4 then if pn_y p + pn_rows p > pn_y q then None else key (pn_y q - (pn_y p + pn_rows p)) \<bar>int pcx - int ccx\<bar>
     else if mode = 5 then if pn_y p < pn_y q + pn_rows q then None else key (pn_y p - (pn_y q + pn_rows q)) \<bar>int pcx - int ccx\<bar>
     else if mode = 6 then if pn_x p < pn_x q + pn_cols q then None else key (pn_x p - (pn_x q + pn_cols q)) \<bar>int pcy - int ccy\<bar>
     else if pn_x p + pn_cols p > pn_x q then None else key (pn_x q - (pn_x p + pn_cols p)) \<bar>int pcy - int ccy\<bar>)"

fun nearest :: "session \<Rightarrow> nat \<Rightarrow> byte \<Rightarrow> (nat \<times> int) option \<Rightarrow> nat list \<Rightarrow> (nat \<times> int) option" where
  "nearest x j mode best [] = best"
| "nearest x j mode best (i # is) =
    (if \<not> pn_use (ss_panes x ! i) \<or> i = j then nearest x j mode best is
     else case direction_key mode (ss_panes x ! j) (ss_panes x ! i) of
       None \<Rightarrow> nearest x j mode best is
     | Some key \<Rightarrow> nearest x j mode
         (case best of None \<Rightarrow> Some (i, key) | Some (b, bk) \<Rightarrow> if key < bk then Some (i, key) else best) is)"

definition pane_in_direction :: "session \<Rightarrow> nat \<Rightarrow> byte \<Rightarrow> nat option" where
  "pane_in_direction x j mode = map_option fst (nearest x j mode None [0..<MAX_PANES_PER_SESSION])"

definition cycle_pane :: "session \<Rightarrow> nat \<Rightarrow> byte \<Rightarrow> nat option" where
  "cycle_pane x j mode =
    (let stp = (if mode = 1 then 1 else MAX_PANES_PER_SESSION - 1)
     in find (\<lambda>i. pn_use (ss_panes x ! i)) (map (\<lambda>k. (j + k * stp) mod MAX_PANES_PER_SESSION) [1..<MAX_PANES_PER_SESSION + 1]))"

definition toggle_zoom :: "daemon \<Rightarrow> nat \<Rightarrow> nat \<Rightarrow> daemon" where
  "toggle_zoom d s j =
    (if zoomed_id (sess d s) \<noteq> 255 then session_unzoom d s
     else if \<not> session_should_composite (sess d s) then d
     else session_apply_layout (upd_sess d s (\<lambda>x. x\<lparr>zoomed_id := pn_id (ss_panes x ! j)\<rparr>)) s)"

definition session_select_pane :: "daemon \<Rightarrow> nat \<Rightarrow> byte \<Rightarrow> byte \<Rightarrow> bool \<times> daemon" where
  "session_select_pane d s mode pane_id = (case session_active_pane (sess d s) of None \<Rightarrow> (False, d)
     | Some j \<Rightarrow>
        if mode = 8 then (True, toggle_zoom d s j)
        else let x = sess d s;
                 nxt = (if mode = 0 then session_pane_by_id x pane_id
                        else if mode = 3 then session_pane_by_id x (last_id x)
                        else if 4 \<le> mode \<and> mode \<le> 7 then pane_in_direction x j mode
                        else cycle_pane x j mode)
             in case nxt of
               None \<Rightarrow> (4 \<le> mode \<and> mode \<le> 7, d)
             | Some i \<Rightarrow>
                if i = j then (True, d)
                else let d = session_unzoom d s
                     in (True, upd_sess d s (\<lambda>x. x\<lparr>last_id := active_id x, active_id := pn_id (ss_panes x ! i),
                                                    layout_dirty := True\<rparr>)))"

section \<open>Attaching\<close>

definition SNAPSHOT_BODY_MAX :: nat where "SNAPSHOT_BODY_MAX = 786432"

text \<open>The smallest geometry among the new client and the ones already attached.\<close>

definition vote :: "daemon \<Rightarrow> nat \<Rightarrow> nat \<Rightarrow> nat \<times> nat \<Rightarrow> nat \<Rightarrow> nat \<times> nat" where
  "vote d s c m k = (case ss_clients (sess d s) ! k of None \<Rightarrow> m
     | Some o' \<Rightarrow> if o' = c then m
        else let (oc, orr) = client_geometry (cli d o')
             in (if oc \<noteq> 0 \<and> oc < fst m then oc else fst m, if orr \<noteq> 0 \<and> orr < snd m then orr else snd m))"

fun send_chunks :: "nat \<Rightarrow> daemon \<Rightarrow> nat \<Rightarrow> byte list \<Rightarrow> daemon" where
  "send_chunks 0 d c body = d"
| "send_chunks (Suc fuel) d c body =
    (if body = [] \<or> \<not> client_alive d c then d
     else send_chunks fuel (client_send d c 0x30 (take SNAPSHOT_BODY_MAX body)) c (drop SNAPSHOT_BODY_MAX body))"

definition fallback :: "byte list" where
  "fallback = csi [0] 0x6d @ csi [2] 0x4a @ csi [] 0x48"

definition attach_repaint :: "daemon \<Rightarrow> nat \<Rightarrow> nat \<Rightarrow> daemon" where
  "attach_repaint d s c =
    (let act = session_active_pane (sess d s);
         (blob, d) = (if session_should_composite (sess d s)
                      then (composite_frame (memory d) (sess d s) True, session_send_layout d s)
                      else (case act of None \<Rightarrow> [] | Some j \<Rightarrow>
                              (case pn_vt (pane_at d s j) of None \<Rightarrow> [] | Some v \<Rightarrow> snapshot_or_empty d v), d));
         body = (if blob \<noteq> [] then blob else fallback);
         total = (case act of None \<Rightarrow> 0 | Some j \<Rightarrow>
                    (case pn_sb (pane_at d s j) of None \<Rightarrow> 0 | Some sb \<Rightarrow> sb_total_lines sb));
         d = client_send d c 0x31 (n16 (view_cols (sess d s)) @ n16 (view_rows (sess d s)) @ put_u64 total @
               take SNAPSHOT_BODY_MAX body)
     in send_chunks (length body) d c (drop SNAPSHOT_BODY_MAX body))"

text \<open>The slot a client gets: \<open>Inl True\<close> when the table already has it, \<open>Inl False\<close> when the table
  is full.\<close>

fun attach_slot :: "nat option list \<Rightarrow> nat \<Rightarrow> nat \<Rightarrow> bool + nat" where
  "attach_slot [] c k = Inl False"
| "attach_slot (e # es) c k =
    (if e = Some c then Inl True else if e = None then Inr k else attach_slot es c (k + 1))"

definition session_attach :: "daemon \<Rightarrow> nat \<Rightarrow> nat \<Rightarrow> nat \<Rightarrow> nat \<Rightarrow> daemon" where
  "session_attach d s c cl r = (case attach_slot (ss_clients (sess d s)) c 0 of
     Inl True \<Rightarrow> d
   | Inl False \<Rightarrow> client_disconnect d c
   | Inr k \<Rightarrow>
      let d = upd_sess d s (\<lambda>x. x\<lparr>ss_clients := (ss_clients x)[k := Some c]\<rparr>);
          (mc, mr) = (if session_should_composite (sess d s)
                      then foldl (vote d s c) (cl, r) [0..<MAX_CLIENTS_PER_SESSION] else (cl, r))
      in attach_repaint (session_resize d s mc mr) s c)"

section \<open>Reading from a child\<close>

datatype read_call = Got "byte list" | R_EINTR | R_EAGAIN | R_EOF | R_ERR

definition elapsed :: "nat \<Rightarrow> nat \<Rightarrow> nat" where
  "elapsed t t0 = (t + 2 ^ 64 - t0) mod 2 ^ 64"

text \<open>A read returns at most 16384 bytes; a shorter one ends the loop, and so does an empty queue.\<close>

fun pty_read_loop :: "bool \<Rightarrow> nat \<Rightarrow> nat \<Rightarrow> int \<Rightarrow> daemon \<Rightarrow> read_call list \<Rightarrow> daemon" where
  "pty_read_loop multi s j fd d [] = d"
| "pty_read_loop multi s j fd d (r # rs) = (case r of
     Got buf \<Rightarrow>
       if buf = [] then d_del_fd d fd
       else let d = pane_feed d s j buf; d = (if multi then d else send_clients d s (\<lambda>_. True) 0x30 buf)
            in if length buf < 16384 then d else pty_read_loop multi s j fd d rs
   | R_EAGAIN \<Rightarrow> d
   | R_EINTR \<Rightarrow> pty_read_loop multi s j fd d rs
   | R_EOF \<Rightarrow> d_del_fd d fd
   | R_ERR \<Rightarrow> d_del_fd d fd)"

definition pane_pty_readable :: "daemon \<Rightarrow> nat \<Rightarrow> nat \<Rightarrow> int \<Rightarrow> u16 \<Rightarrow> read_call list \<Rightarrow> daemon" where
  "pane_pty_readable d s j fd revents rs =
    (let d = (if revents AND POLLOUT \<noteq> 0 \<and> stdin_len (pane_at d s j) \<noteq> 0 then pane_stdin_drain d s j else d);
         multi = session_should_composite (sess d s);
         d = pty_read_loop multi s j fd d rs
     in if multi then
          let (t, d) = now_ms d
          in if elapsed t (last_frame_ms (sess d s)) \<ge> 8 then session_composite_one d s else d
        else d)"

section \<open>All sessions\<close>

definition all_panes :: "(nat \<Rightarrow> nat \<Rightarrow> daemon \<Rightarrow> daemon) \<Rightarrow> daemon \<Rightarrow> daemon" where
  "all_panes f d =
    foldl (\<lambda>d s. if \<not> ss_use (sess d s) then d
      else foldl (\<lambda>d j. if pn_use (pane_at d s j) then f s j d else d) d [0..<MAX_PANES_PER_SESSION])
      d [0..<MAX_SESSIONS]"

definition session_flush_all :: "daemon \<Rightarrow> daemon" where
  "session_flush_all = all_panes (\<lambda>s j d. flush_sbs d s j)"

definition session_flush_screens_all :: "daemon \<Rightarrow> daemon" where
  "session_flush_screens_all = all_panes (\<lambda>s j d. flush_sbs (pane_flush_screen d s j) s j)"

definition staged_left :: "daemon \<Rightarrow> nat" where
  "staged_left d = sum_list (map (\<lambda>s. if ss_use (sess d s)
     then sum_list (map (\<lambda>p. if pn_use p then stdin_len p else 0) (ss_panes (sess d s))) else 0) [0..<MAX_SESSIONS])"

definition drain_round :: "daemon \<Rightarrow> daemon" where
  "drain_round = all_panes (\<lambda>s j d. if stdin_len (pane_at d s j) = 0 then d else pane_stdin_drain d s j)"

text \<open>Rounds until nothing is staged or the deadline has passed; \<open>None\<close> when the fuel runs out.\<close>

fun drain_rounds :: "nat \<Rightarrow> nat \<Rightarrow> daemon \<Rightarrow> daemon option" where
  "drain_rounds 0 deadline d = None"
| "drain_rounds (Suc fuel) deadline d =
    (let d = drain_round d in
     if staged_left d = 0 then Some d
     else let (t, d) = now_ms d in if t \<ge> deadline then Some d else drain_rounds fuel deadline d)"

definition session_stdin_drain_all :: "nat \<Rightarrow> daemon \<Rightarrow> nat \<Rightarrow> daemon option" where
  "session_stdin_drain_all fuel d budget_ms = (let (t, d) = now_ms d in drain_rounds fuel (t + budget_ms) d)"

section \<open>Rebuilding a session\<close>

definition session_import_begin :: "daemon \<Rightarrow> byte list \<Rightarrow> nat \<Rightarrow> nat \<Rightarrow> byte \<Rightarrow> byte \<Rightarrow> byte \<Rightarrow> layout \<Rightarrow> (errno + nat) \<times> daemon" where
  "session_import_begin d name vc vr act lst nxt lt = (case session_alloc d name vc vr of
     (Inl e, d) \<Rightarrow> (Inl e, d)
   | (Inr s, d) \<Rightarrow> (Inr s, upd_sess d s (\<lambda>x. x\<lparr>ss_lt := lt, active_id := act, last_id := lst,
       next_id := if nxt \<noteq> 0 then nxt else 1, zoomed_id := 255, ss_use := True\<rparr>)))"

definition session_import_pane :: "daemon \<Rightarrow> nat \<Rightarrow> nat \<Rightarrow> byte \<Rightarrow> int \<Rightarrow> int \<Rightarrow> nat \<Rightarrow> nat \<Rightarrow> byte list \<Rightarrow> bool \<times> daemon" where
  "session_import_pane d s slot pane_id fd pid c r blob =
    (if slot \<ge> MAX_PANES_PER_SESSION \<or> pn_use (pane_at d s slot) then (False, d)
     else let c = session_clamp_cols c; r = session_clamp_rows r in
       case pane_setup d s slot pane_id c r of
         (False, d) \<Rightarrow> (False, d)
       | (True, d) \<Rightarrow>
          let d = upd_pane d s slot (\<lambda>p. p\<lparr>pn_fd := fd, pn_pid := pid, pn_use := True\<rparr>);
              d = (if blob \<noteq> [] then pane_feed d s slot blob else d)
          in (case d_add_fd d fd POLLIN (OwnPane s slot) of
                (False, d) \<Rightarrow> (True, d)
              | (True, d) \<Rightarrow> (True, pty_resize d fd c r)))"

definition session_import_finish :: "daemon \<Rightarrow> nat \<Rightarrow> bool \<times> daemon" where
  "session_import_finish d s =
    (if live_panes (sess d s) = [] then (False, upd_sess d s (\<lambda>x. x\<lparr>ss_use := False\<rparr>))
     else let d = foldl (\<lambda>d i. if \<not> pn_use (pane_at d s i) then drop_leaf d s i else d) d [0..<MAX_PANES_PER_SESSION];
              d = upd_sess d s refocus;
              d = upd_sess d s (\<lambda>x. x\<lparr>ss_lt := layout_reflow (ss_lt x) (view_cols x) (view_rows x)\<rparr>)
          in (True, session_apply_layout d s))"

definition session_import :: "daemon \<Rightarrow> byte list \<Rightarrow> int \<Rightarrow> int \<Rightarrow> nat \<Rightarrow> nat \<Rightarrow> byte list \<Rightarrow> nat option \<times> daemon" where
  "session_import d name fd pid c r blob = (case session_import_begin d name c r 0 0 1 (layout_init 0) of
     (Inl e, d) \<Rightarrow> (None, d)
   | (Inr s, d) \<Rightarrow> (case session_import_finish (snd (session_import_pane d s 0 0 fd pid c r blob)) s of
       (ok, d) \<Rightarrow> (if ok then Some s else None, d)))"

end
