(* ===== verification/Server.thy ===== *)
theory Server
  imports Session
begin

unbundle bit_operations_syntax

text \<open>
  Requests and connections, \<open>src/daemon/server.c\<close>, and the part of \<open>src/daemon/main.c\<close> that
  drives them: the tick and the signal pipe. A request is a message type and a payload; \<open>dispatch\<close>
  is the whole of what a connection can ask for. \<open>daemon_event\<close> collects everything the event
  loop can call.
\<close>

section \<open>Lists of sessions\<close>

definition SESSION_LIST2_MAX :: nat where "SESSION_LIST2_MAX = 2 + MAX_SESSIONS * (SESSION_NAME_MAX + 19)"

definition client_count :: "session \<Rightarrow> nat" where
  "client_count x = length (filter (\<lambda>k. k \<noteq> None) (ss_clients x))"

definition active_fields :: "session \<Rightarrow> byte \<times> int \<times> int" where
  "active_fields x = (case session_active_pane x of
     None \<Rightarrow> (0, - 1, 0)
   | Some j \<Rightarrow> let p = ss_panes x ! j in (if pn_pid p > 0 then 1 else 0, pn_pid p, pn_exit p))"

definition list_entry :: "session \<Rightarrow> byte list" where
  "list_entry x = (case active_fields x of (alive, pid, ex) \<Rightarrow>
     [word_of_nat (length (ss_name x))] @ ss_name x @ n16 (view_cols x) @ n16 (view_rows x) @ [alive] @
     [word_of_nat (client_count x)] @ n32 pid @ n32 ex)"

definition list2_entry :: "session \<Rightarrow> byte list" where
  "list2_entry x = list_entry x @ [word_of_nat (length (live_panes x)), if zoomed_id x \<noteq> 255 then 1 else 0]"

definition list2_item :: "session \<Rightarrow> byte list" where
  "list2_item x = n16 (length (list2_entry x)) @ list2_entry x"

text \<open>Items are written as long as the next one fits; the count goes in front.\<close>

fun fit_items :: "nat \<Rightarrow> nat \<Rightarrow> byte list list \<Rightarrow> byte list list" where
  "fit_items cap off [] = []"
| "fit_items cap off (e # es) = (if off + length e > cap then [] else e # fit_items cap (off + length e) es)"

definition used_sessions :: "daemon \<Rightarrow> session list" where
  "used_sessions d = filter ss_use (map (sess d) [0..<MAX_SESSIONS])"

definition counted :: "byte list list \<Rightarrow> byte list" where
  "counted es = n16 (length es) @ concat es"

definition encode_session_list2 :: "daemon \<Rightarrow> nat \<Rightarrow> byte list" where
  "encode_session_list2 d cap = counted (fit_items cap 2 (map list2_item (used_sessions d)))"

definition handle_list :: "daemon \<Rightarrow> nat \<Rightarrow> daemon" where
  "handle_list d c = client_send d c 0x11 (counted (fit_items PROTO_MAX_PAYLOAD 2 (map list_entry (used_sessions d))))"

definition handle_list2 :: "daemon \<Rightarrow> nat \<Rightarrow> daemon" where
  "handle_list2 d c = client_send d c 0x37 (encode_session_list2 d SESSION_LIST2_MAX)"

definition session_changes_seed :: "daemon \<Rightarrow> daemon" where
  "session_changes_seed d = d\<lparr>last_list := encode_session_list2 d SESSION_LIST2_MAX\<rparr>"

definition client_wants_session_events :: "client \<Rightarrow> bool" where
  "client_wants_session_events x = (hello_done x \<and> caps x AND 2 \<noteq> 0)"

definition server_broadcast_session_changes :: "daemon \<Rightarrow> daemon" where
  "server_broadcast_session_changes d =
    (let nl = encode_session_list2 d SESSION_LIST2_MAX in
     if nl = last_list d then d
     else foldl (\<lambda>d c. if \<not> cl_use (cli d c) \<or> \<not> client_wants_session_events (cli d c) then d
                       else client_send d c 0x39 []) (d\<lparr>last_list := nl\<rparr>) [0..<MAX_CLIENTS])"

section \<open>Requests\<close>

abbreviation (input) ERR_VERSION :: u16 where "ERR_VERSION \<equiv> 1"
abbreviation (input) ERR_NO_SESSION :: u16 where "ERR_NO_SESSION \<equiv> 2"
abbreviation (input) ERR_NAME_TAKEN :: u16 where "ERR_NAME_TAKEN \<equiv> 3"
abbreviation (input) ERR_BAD_REQUEST :: u16 where "ERR_BAD_REQUEST \<equiv> 4"
abbreviation (input) ERR_INTERNAL :: u16 where "ERR_INTERNAL \<equiv> 5"

definition client_err :: "daemon \<Rightarrow> nat \<Rightarrow> u16 \<Rightarrow> byte list \<Rightarrow> daemon" where
  "client_err d c code msg = client_send d c 0x03 (put_u16 code @ n16 (length (take 512 msg)) @ take 512 msg)"

definition cstr :: "byte list \<Rightarrow> byte list" where "cstr bs = takeWhile (\<lambda>b. b \<noteq> 0) bs"

text \<open>The arguments of a command, each ended by a zero byte, at most \<open>n\<close> of them.\<close>

fun split_args :: "nat \<Rightarrow> byte list \<Rightarrow> byte list list" where
  "split_args 0 bs = []"
| "split_args (Suc n) bs = (if bs = [] then [] else cstr bs # split_args n (drop (length (cstr bs) + 1) bs))"

text \<open>Leaving one session for another, then attaching.\<close>

definition switch_session :: "daemon \<Rightarrow> nat \<Rightarrow> nat \<Rightarrow> daemon" where
  "switch_session d c s = (case attached (cli d c) of Some s' \<Rightarrow> if s' \<noteq> s then session_detach d s' c else d | None \<Rightarrow> d)"

definition handle_new :: "daemon \<Rightarrow> nat \<Rightarrow> byte list \<Rightarrow> daemon" where
  "handle_new d c p =
    (if length p < 7 then client_err d c ERR_BAD_REQUEST (ascii ''short NEW_SESSION'')
     else let cl = session_clamp_cols (unat (get_u16 p)); r = session_clamp_rows (unat (get_u16 (drop 2 p)));
              nlen = unat (p ! 4) in
       if 5 + nlen + 2 > length p \<or> nlen = 0 \<or> nlen > SESSION_NAME_MAX then client_err d c ERR_BAD_REQUEST (ascii ''bad name'')
       else let raw = take nlen (drop 5 p) in
         if at_valid_session_name (Some (raw @ [0])) \<noteq> Some True
         then client_err d c ERR_BAD_REQUEST (ascii ''invalid session name'')
         else let nargs = unat (get_u16 (drop (5 + nlen) p)) in
           if 7 + nlen + nargs > length p then client_err d c ERR_BAD_REQUEST (ascii ''bad argv'')
           else let args = split_args 63 (take nargs (drop (7 + nlen) p));
                    argv = (if args = [] then [the_shell d] else args);
                    d = upd_cli d c (\<lambda>x. x\<lparr>cl_cols := cl, cl_rows := r\<rparr>)
                in case session_new d (cstr raw) argv cl r of
                     (Inl e, d) \<Rightarrow> client_err d c (if e = EEXIST then ERR_NAME_TAKEN else ERR_INTERNAL) (strerror d e)
                   | (Inr s, d) \<Rightarrow> session_attach (upd_cli (switch_session d c s) c (\<lambda>x. x\<lparr>attached := Some s\<rparr>)) s c cl r)"

definition handle_attach :: "daemon \<Rightarrow> nat \<Rightarrow> byte list \<Rightarrow> daemon" where
  "handle_attach d c p =
    (if length p < 6 then client_err d c ERR_BAD_REQUEST (ascii ''short ATTACH'')
     else let cl = session_clamp_cols (unat (get_u16 p)); r = session_clamp_rows (unat (get_u16 (drop 2 p)));
              nlen = unat (p ! 5) in
       if 6 + nlen > length p \<or> nlen = 0 \<or> nlen > SESSION_NAME_MAX then client_err d c ERR_BAD_REQUEST (ascii ''bad name'')
       else case session_find d (cstr (take nlen (drop 6 p))) of
         None \<Rightarrow> client_err d c ERR_NO_SESSION (ascii ''no such session'')
       | Some s \<Rightarrow>
          let d = upd_cli (switch_session d c s) c (\<lambda>x. x\<lparr>cl_cols := cl, cl_rows := r, attached := Some s\<rparr>);
              d = session_attach d s c cl r
          in if p ! 4 \<noteq> 0 \<and> p ! 4 \<noteq> 255 \<and> client_wants_panes (cli d c)
             then snd (session_select_pane d s 0 (p ! 4)) else d)"

definition handle_kill :: "daemon \<Rightarrow> nat \<Rightarrow> byte list \<Rightarrow> daemon" where
  "handle_kill d c p =
    (if p = [] \<or> 1 + unat (p ! 0) > length p then client_err d c ERR_BAD_REQUEST (ascii ''bad name'')
     else let nlen = (if unat (p ! 0) > SESSION_NAME_MAX then SESSION_NAME_MAX else unat (p ! 0)) in
       case session_find d (cstr (take nlen (drop 1 p))) of
         None \<Rightarrow> client_err d c ERR_NO_SESSION (ascii ''no such session'')
       | Some s \<Rightarrow> handle_list (session_kill d s) c)"

definition handle_hello :: "daemon \<Rightarrow> nat \<Rightarrow> byte \<Rightarrow> byte list \<Rightarrow> daemon" where
  "handle_hello d c type p =
    (if type \<noteq> 0x01 \<or> length p < 4 then client_disconnect d c
     else if get_u16 p \<noteq> 1
     then client_disconnect (client_err d c ERR_VERSION (ascii ''daemon speaks protocol v1; upgrade your client'')) c
     else client_send (upd_cli d c (\<lambda>x. x\<lparr>caps := get_u16 (drop 2 p), hello_done := True\<rparr>)) c 0x02
            (put_u16 1 @ put_u32 (getpid d) @ put_u32 (generation d) @ put_u16 3))"

definition handle_resize :: "daemon \<Rightarrow> nat \<Rightarrow> byte list \<Rightarrow> daemon" where
  "handle_resize d c p =
    (if length p < 4 then d
     else let d = upd_cli d c (\<lambda>x. x\<lparr>cl_cols := session_clamp_cols (unat (get_u16 p)),
                                       cl_rows := session_clamp_rows (unat (get_u16 (drop 2 p)))\<rparr>)
          in case attached (cli d c) of None \<Rightarrow> d
             | Some s \<Rightarrow> session_resize d s (cl_cols (cli d c)) (cl_rows (cli d c)))"

definition handle_split :: "daemon \<Rightarrow> nat \<Rightarrow> byte list \<Rightarrow> daemon" where
  "handle_split d c p = (case attached (cli d c) of
     None \<Rightarrow> client_err d c ERR_BAD_REQUEST (ascii ''short SPLIT_PANE'')
   | Some s \<Rightarrow>
      if length p < 2 then client_err d c ERR_BAD_REQUEST (ascii ''short SPLIT_PANE'')
      else case session_split d s (p ! 1) (p ! 0 \<noteq> 0) of
        (Inr _, d) \<Rightarrow> d
      | (Inl e, d) \<Rightarrow> client_err d c (if e = ENOSPC then ERR_INTERNAL else ERR_BAD_REQUEST)
           (if e = ENOSPC then ascii ''no free pane slot'' else ascii ''pane too small to split or no such pane''))"

definition handle_close :: "daemon \<Rightarrow> nat \<Rightarrow> byte list \<Rightarrow> daemon" where
  "handle_close d c p = (case attached (cli d c) of
     None \<Rightarrow> client_err d c ERR_BAD_REQUEST (ascii ''short CLOSE_PANE'')
   | Some s \<Rightarrow>
      if p = [] then client_err d c ERR_BAD_REQUEST (ascii ''short CLOSE_PANE'')
      else case session_close_pane d s (p ! 0) of
        (True, d) \<Rightarrow> d | (False, d) \<Rightarrow> client_err d c ERR_BAD_REQUEST (ascii ''no such pane''))"

definition handle_select :: "daemon \<Rightarrow> nat \<Rightarrow> byte list \<Rightarrow> daemon" where
  "handle_select d c p = (case attached (cli d c) of
     None \<Rightarrow> client_err d c ERR_BAD_REQUEST (ascii ''short SELECT_PANE'')
   | Some s \<Rightarrow>
      if length p < 2 then client_err d c ERR_BAD_REQUEST (ascii ''short SELECT_PANE'')
      else case session_select_pane d s (p ! 0) (p ! 1) of
        (True, d) \<Rightarrow> d | (False, d) \<Rightarrow> client_err d c ERR_BAD_REQUEST (ascii ''no such pane''))"

text \<open>The pane a scrollback request names, and its store.\<close>

definition handle_scrollback :: "daemon \<Rightarrow> nat \<Rightarrow> byte list \<Rightarrow> daemon" where
  "handle_scrollback d c p = (case attached (cli d c) of None \<Rightarrow> d
   | Some s \<Rightarrow>
      let x = sess d s;
          pj = (if length p \<ge> 13 then session_pane_by_id x (p ! 12) else session_active_pane x);
          (w, d) = take_disk d in
      case handle_scrollback_req (w 0) True (\<lambda>_. case pj of None \<Rightarrow> None | Some j \<Rightarrow> pn_sb (ss_panes x ! j)) p of
        None \<Rightarrow> d
      | Some (answer, sb) \<Rightarrow>
         client_send (case pj of Some j \<Rightarrow> upd_pane d s j (\<lambda>q. q\<lparr>pn_sb := sb\<rparr>) | None \<Rightarrow> d) c 0x33 answer)"

definition dispatch :: "daemon \<Rightarrow> nat \<Rightarrow> byte \<Rightarrow> byte list \<Rightarrow> daemon" where
  "dispatch d c type p =
    (if \<not> hello_done (cli d c) then handle_hello d c type p
     else if type = 0x10 then handle_list d c
     else if type = 0x1a then handle_list2 d c
     else if type = 0x12 then handle_new d c p
     else if type = 0x14 then handle_attach d c p
     else if type = 0x13 then handle_kill d c p
     else if type = 0x19 then (client_send d c 0x41 [])\<lparr>reload := True\<rparr>
     else if type = 0x15 then (case attached (cli d c) of None \<Rightarrow> d
       | Some s \<Rightarrow> upd_cli (session_detach d s c) c (\<lambda>x. x\<lparr>attached := None\<rparr>))
     else if type = 0x20 then (case attached (cli d c) of None \<Rightarrow> d | Some s \<Rightarrow> session_stdin d s p)
     else if type = 0x21 then handle_resize d c p
     else if type = 0x16 then handle_split d c p
     else if type = 0x17 then handle_close d c p
     else if type = 0x18 then handle_select d c p
     else if type = 0x32 then handle_scrollback d c p
     else if type = 0x40 then client_send d c 0x41 p
     else d)"

section \<open>Connections\<close>

abbreviation PRE_HELLO_BUDGET :: nat where "PRE_HELLO_BUDGET \<equiv> 64"
abbreviation HELLO_DEADLINE_MS :: nat where "HELLO_DEADLINE_MS \<equiv> 5000"

text \<open>The read loop: \<open>None\<close> when the connection was dropped, otherwise whether the peer closed.\<close>

fun client_read_loop :: "nat \<Rightarrow> daemon \<Rightarrow> read_call list \<Rightarrow> bool option \<times> daemon" where
  "client_read_loop c d [] = (Some False, d)"
| "client_read_loop c d (r # rs) = (case r of
     R_EOF \<Rightarrow> (Some True, d)
   | R_EINTR \<Rightarrow> client_read_loop c d rs
   | R_EAGAIN \<Rightarrow> (Some False, d)
   | R_ERR \<Rightarrow> (None, client_disconnect d c)
   | Got buf \<Rightarrow>
      if buf = [] then (Some True, d)
      else if \<not> hello_done (cli d c) \<and> rlen (cl_in (cli d c)) + length buf > PRE_HELLO_BUDGET
      then (None, client_disconnect d c)
      else (case ring_write (cl_in (cli d c)) buf of
        (False, _) \<Rightarrow> (None, client_disconnect d c)
      | (True, r) \<Rightarrow> let d = upd_cli d c (\<lambda>x. x\<lparr>cl_in := r\<rparr>)
           in if length buf < 16384 then (Some False, d) else client_read_loop c d rs))"

text \<open>Frames are taken out and dispatched until none is complete. Each takes at least its header,
  so the length of the ring is enough fuel.\<close>

fun client_frames :: "nat \<Rightarrow> nat \<Rightarrow> daemon \<Rightarrow> daemon" where
  "client_frames 0 c d = d"
| "client_frames (Suc fuel) c d = (case proto_read_frame (cl_in (cli d c)) of
     (NeedMore, r) \<Rightarrow> d
   | (Violation, r) \<Rightarrow> client_disconnect d c
   | (Frame type p, r) \<Rightarrow>
      let d = dispatch (upd_cli d c (\<lambda>x. x\<lparr>cl_in := r\<rparr>)) c type p
      in if \<not> cl_use (cli d c) then d else client_frames fuel c d)"

definition client_io :: "daemon \<Rightarrow> nat \<Rightarrow> u16 \<Rightarrow> read_call list \<Rightarrow> daemon" where
  "client_io d c revents rs =
    (if revents AND (POLLERR OR POLLNVAL) \<noteq> 0 then client_disconnect d c
     else let d = (if revents AND POLLOUT \<noteq> 0 then client_flush d c else d) in
       if \<not> cl_use (cli d c) then d
       else if revents AND (POLLIN OR POLLHUP) = 0 then d
       else case client_read_loop c d rs of
         (None, d) \<Rightarrow> d
       | (Some eof, d) \<Rightarrow>
          let d = client_frames (Suc (rlen (cl_in (cli d c)))) c d
          in if \<not> cl_use (cli d c) then d else if eof then client_disconnect d c else d)"

text \<open>\<open>cfd\<close> is what \<open>accept\<close> returned and \<open>uid_ok\<close> whether the peer has the daemon's user id.\<close>

definition server_accept :: "daemon \<Rightarrow> int \<Rightarrow> bool \<Rightarrow> daemon" where
  "server_accept d cfd uid_ok =
    (if cfd < 0 then d
     else if \<not> uid_ok then close_fd d cfd
     else case find (\<lambda>i. \<not> cl_use (cli d i)) [0..<MAX_CLIENTS] of
       None \<Rightarrow> close_fd d cfd
     | Some c \<Rightarrow>
        let (t, d) = now_ms d;
            d = upd_cli d c (\<lambda>x. x\<lparr>cl_fd := cfd, cl_use := True, hello_done := False, connected_at := t, attached := None,
                  cl_in := ring_init 4096 (2 * PROTO_MAX_PAYLOAD), cl_out := ring_init 4096 CLIENT_OUT_MAX\<rparr>)
        in case d_add_fd d cfd POLLIN (OwnClient c) of
             (True, d) \<Rightarrow> d
           | (False, d) \<Rightarrow> upd_cli (close_fd d cfd) c (\<lambda>x. x\<lparr>cl_in := empty_ring (cl_in x), cl_out := empty_ring (cl_out x),
                 cl_use := False\<rparr>))"

definition server_reap_idle :: "daemon \<Rightarrow> daemon" where
  "server_reap_idle d =
    (let (t, d) = now_ms d in
     foldl (\<lambda>d c. if \<not> cl_use (cli d c) \<or> hello_done (cli d c) then d
                  else if elapsed t (connected_at (cli d c)) < HELLO_DEADLINE_MS then d
                  else client_disconnect d c) d [0..<MAX_CLIENTS])"

definition disconnect_all :: "daemon \<Rightarrow> daemon" where
  "disconnect_all d = foldl (\<lambda>d c. if cl_use (cli d c) then client_disconnect d c else d) d [0..<MAX_CLIENTS]"

definition server_prepare_handoff :: "daemon \<Rightarrow> int \<times> daemon" where
  "server_prepare_handoff d = (listen_fd d, disconnect_all d)"

definition server_shutdown :: "daemon \<Rightarrow> daemon" where
  "server_shutdown d =
    (let d = disconnect_all d
     in if listen_fd d \<ge> 0 then (close_fd d (listen_fd d))\<lparr>listen_fd := - 1\<rparr> else d)"

section \<open>The daemon\<close>

text \<open>The tick of \<open>main.c\<close>; \<open>last_flush\<close> is its static variable.\<close>

definition daemon_tick :: "daemon \<times> nat \<Rightarrow> daemon \<times> nat" where
  "daemon_tick = (\<lambda>(d, last_flush).
    let d = session_composite_all d; d = server_reap_idle d; d = server_broadcast_session_changes d; (t, d) = now_ms d
    in if elapsed t last_flush \<ge> 1000 then (session_flush_all d, t) else (d, last_flush))"

datatype daemon_event =
    Accept int bool
  | Client_Ready nat u16 "read_call list"
  | Pane_Ready nat nat u16 "read_call list"
  | Children "(int \<times> wait_status) list"
  | Tick nat

text \<open>What the event loop can call. A descriptor of a slot that is no longer in use is not in the
  poll table, so its callback cannot run.\<close>

fun daemon_step :: "daemon \<Rightarrow> daemon_event \<Rightarrow> daemon" where
  "daemon_step d (Accept fd ok) = server_accept d fd ok"
| "daemon_step d (Client_Ready c re rs) = (if c < MAX_CLIENTS \<and> cl_use (cli d c) then client_io d c re rs else d)"
| "daemon_step d (Pane_Ready s j re rs) =
    (if s < MAX_SESSIONS \<and> j < MAX_PANES_PER_SESSION \<and> ss_use (sess d s) \<and> pn_use (pane_at d s j)
     then pane_pty_readable d s j (pn_fd (pane_at d s j)) re rs else d)"
| "daemon_step d (Children rs) = session_reap_children d rs"
| "daemon_step d (Tick last_flush) = fst (daemon_tick (d, last_flush))"

definition zero_client :: client where
  "zero_client = \<lparr>cl_fd = 0, cl_use = False, hello_done = False, caps = 0, cl_cols = 0, cl_rows = 0, connected_at = 0,
     cl_in = \<lparr>rbuf = [], rcap = 0, rmax_cap = 0, rhead = 0, rlen = 0\<rparr>,
     cl_out = \<lparr>rbuf = [], rcap = 0, rmax_cap = 0, rhead = 0, rlen = 0\<rparr>, attached = None\<rparr>"

text \<open>The static tables at start.\<close>

definition cold_start :: "daemon \<Rightarrow> bool" where
  "cold_start d \<longleftrightarrow> sessions d = replicate MAX_SESSIONS zero_session \<and> clients d = replicate MAX_CLIENTS zero_client"

text \<open>A daemon at start whose system calls all fail.\<close>

definition blank_daemon :: daemon where
  "blank_daemon = \<lparr>sessions = replicate MAX_SESSIONS zero_session, clients = replicate MAX_CLIENTS zero_client, fds = [],
     last_list = [], importing = False, reload = False, listen_fd = 3, effects = [], writes = [], spawns = [], allocs = [],
     disk = [], clock = [], now = 0, memory = (\<lambda>_. True), stale_errno = None,
     kernel = \<lparr>mkdir = (\<lambda>_. Some EOTHER), lstat = (\<lambda>_. Inl EOTHER), getuid = 0, env_xdg = None, env_home = None\<rparr>,
     files = Map.empty, shell = None, strerror = (\<lambda>_. []), getpid = 1, generation = 0\<rparr>"

end
