(* ===== verification/Stdin.thy ===== *)
theory Stdin
  imports Server "HOL-Library.Sublist"
begin

text \<open>
  Typed input on its way to a child (\<open>pane_stdin\<close>, \<open>pane_stdin_stage\<close> and \<open>pane_stdin_drain\<close> of
  \<open>src/daemon/session.c\<close>). The terminal takes as much as its kernel queue holds; the rest is staged
  and written when the descriptor becomes writable. The theorem is that staging is a queue: what
  reached the child followed by what is staged is what was typed.
\<close>

section \<open>The staging buffer is a queue\<close>

definition stdin_wf :: "pane \<Rightarrow> bool" where
  "stdin_wf p \<longleftrightarrow> stdin_head p + stdin_len p \<le> length (stdin_buf p) \<and> length (stdin_buf p) \<le> STDIN_STAGE_MAX"

lemma stage_cap_ge: "0 < cap \<Longrightarrow> need \<le> stage_cap cap need \<and> cap \<le> stage_cap cap need"
proof (induction cap need rule: stage_cap.induct)
  case (1 cap need)
  then show ?case by (cases "need \<le> cap") (simp_all add: stage_cap.simps [of cap need], linarith?)
qed

lemma length_staged [simp]: "stdin_wf p \<Longrightarrow> length (stdin_staged p) = stdin_len p"
  by (auto simp: stdin_staged_def stdin_wf_def)

lemma stage_queue:
  assumes "stdin_wf p"
  shows "stdin_staged (pane_stdin_stage p data) = stdin_staged p @ take (STDIN_STAGE_MAX - stdin_len p) data"
    and "stdin_wf (pane_stdin_stage p data)" and "pn_fd (pane_stdin_stage p data) = pn_fd p"
proof -
  define q where "q = (if stdin_head p \<noteq> 0
     then p\<lparr>stdin_buf := overwrite (stdin_buf p) 0 (take (stdin_len p) (drop (stdin_head p) (stdin_buf p))), stdin_head := 0\<rparr> else p)"
  have q: "stdin_head q = 0" "stdin_len q = stdin_len p" "length (stdin_buf q) = length (stdin_buf p)"
    "take (stdin_len p) (stdin_buf q) = stdin_staged p" "pn_fd q = pn_fd p"
    using assms by (auto simp: q_def stdin_wf_def stdin_staged_def overwrite_def)
  define acc where "acc = (if length data > STDIN_STAGE_MAX - stdin_len q then take (STDIN_STAGE_MAX - stdin_len q) data else data)"
  have acc: "acc = take (STDIN_STAGE_MAX - stdin_len p) data" by (simp add: acc_def q)
  let ?need = "stdin_len q + length acc"
  have need: "?need \<le> STDIN_STAGE_MAX" using assms by (auto simp: acc q stdin_wf_def)
  define cap where "cap = (let cap = stage_cap (if stdin_buf q \<noteq> [] then length (stdin_buf q) else 4096) ?need in
     if cap > STDIN_STAGE_MAX then STDIN_STAGE_MAX else cap)"
  define r where "r = (if ?need > length (stdin_buf q)
     then q\<lparr>stdin_buf := stdin_buf q @ replicate (cap - length (stdin_buf q)) 0\<rparr> else q)"
  have cap: "?need \<le> cap" "cap \<le> STDIN_STAGE_MAX"
    using stage_cap_ge [of "if stdin_buf q \<noteq> [] then length (stdin_buf q) else 4096" ?need] need
    by (auto simp: cap_def Let_def)
  have r: "stdin_head r = 0" "stdin_len r = stdin_len p" "?need \<le> length (stdin_buf r)" "length (stdin_buf r) \<le> STDIN_STAGE_MAX"
    "take (stdin_len p) (stdin_buf r) = stdin_staged p" "pn_fd r = pn_fd p"
    using q cap assms by (auto simp: r_def stdin_wf_def)
  have eq: "pane_stdin_stage p data = (if acc = [] then q
      else r\<lparr>stdin_buf := overwrite (stdin_buf r) (stdin_len r) acc, stdin_len := ?need\<rparr>)"
    unfolding pane_stdin_stage_def q_def [symmetric] Let_def acc_def [symmetric] r_def cap_def by simp
  show "stdin_staged (pane_stdin_stage p data) = stdin_staged p @ take (STDIN_STAGE_MAX - stdin_len p) data"
    and "stdin_wf (pane_stdin_stage p data)" "pn_fd (pane_stdin_stage p data) = pn_fd p"
    unfolding eq using q r assms
    by (auto simp: acc [symmetric] stdin_staged_def [where p = "r\<lparr>stdin_buf := b, stdin_len := n\<rparr>" for b n]
        stdin_staged_def [where p = q] stdin_wf_def overwrite_def)
qed

lemma drain_queue:
  assumes "stdin_wf p" and "n \<le> stdin_len p"
  shows "stdin_staged (drained p n) = drop n (stdin_staged p)" and "stdin_wf (drained p n)" and "pn_fd (drained p n) = pn_fd p"
  using assms by (auto simp: drained_def stdin_staged_def stdin_wf_def drop_take add.commute)

lemma pty_write_le: "fst (pty_write ws bs) \<le> length bs"
proof (induction ws arbitrary: bs)
  case (Cons w ws)
  show ?case
  proof (cases w)
    case (Sent n)
    let ?k = "min n (length bs)"
    show ?thesis using Cons.IH [of "drop ?k bs"] Sent by (auto simp: Let_def case_prod_unfold)
  qed (use Cons in simp_all)
qed simp

section \<open>What a child receives\<close>

definition delivered :: "daemon \<Rightarrow> int \<Rightarrow> byte list" where
  "delivered d fd = concat (map (\<lambda>e. case e of Pty_In f bs \<Rightarrow> if f = fd then bs else [] | _ \<Rightarrow> []) (effects d))"

text \<open>The descriptor is polled for writing exactly while bytes are staged.\<close>

definition mask_ok :: "daemon \<Rightarrow> nat \<Rightarrow> nat \<Rightarrow> bool" where
  "mask_ok d s j \<longleftrightarrow> (\<forall>e\<in>set (fds d). pfd e = pn_fd (pane_at d s j) \<longrightarrow>
     pevents e = (if stdin_len (pane_at d s j) \<noteq> 0 then POLLIN OR POLLOUT else POLLIN))"

definition stdin_ok :: "daemon \<Rightarrow> nat \<Rightarrow> nat \<Rightarrow> bool" where
  "stdin_ok d s j \<longleftrightarrow> s < length (sessions d) \<and> j < length (ss_panes (sess d s)) \<and> stdin_wf (pane_at d s j) \<and>
     pn_fd (pane_at d s j) \<ge> 0 \<and> loop_wf (fds d) \<and> mask_ok d s j"

datatype stdin_op = Typed "sock_write list" "byte list" | Writable "sock_write list"

fun typed :: "stdin_op \<Rightarrow> byte list" where
  "typed (Typed ws bs) = bs"
| "typed (Writable ws) = []"

text \<open>Input arrives, or the descriptor is writable; each with what the coming writes return.\<close>

fun stdin_step :: "nat \<Rightarrow> nat \<Rightarrow> daemon \<Rightarrow> stdin_op \<Rightarrow> daemon" where
  "stdin_step s j d (Typed ws bs) = pane_stdin (d\<lparr>writes := ws\<rparr>) s j bs"
| "stdin_step s j d (Writable ws) = pane_stdin_drain (d\<lparr>writes := ws\<rparr>) s j"

lemma pane_at_upd [simp]:
  "s < length (sessions d) \<Longrightarrow> j < length (ss_panes (sess d s)) \<Longrightarrow> pane_at (upd_pane d s j f) s j = f (pane_at d s j)"
  by (simp add: upd_pane_def upd_sess_def)

lemma pane_at_frame [simp]:
  "sessions (effect d e) = sessions d" "sessions (d_mod_fd d fd ev) = sessions d"
  "effects (effect d e) = effects d @ [e]" "effects (d_mod_fd d fd ev) = effects d" "effects (upd_pane d s j f) = effects d"
  "fds (effect d e) = fds d" "fds (upd_pane d s j f) = fds d" "length (sessions (upd_pane d s j f)) = length (sessions d)"
  "fds (d_mod_fd d fd ev) = snd (loop_mod_fd (fds d) fd ev)"
  by (simp_all add: effect_def d_mod_fd_def upd_pane_def upd_sess_def)

lemma panes_upd [simp]: "length (ss_panes (sess (upd_pane d s j f) t)) = length (ss_panes (sess d t))"
  by (cases "s < length (sessions d)"; cases "t = s") (simp_all add: upd_pane_def upd_sess_def list_update_beyond)

lemma delivered_simps [simp]:
  "delivered (effect d e) fd = delivered d fd @ (case e of Pty_In f bs \<Rightarrow> if f = fd then bs else [] | _ \<Rightarrow> [])"
  "delivered (d_mod_fd d f ev) fd = delivered d fd" "delivered (upd_pane d s j g) fd = delivered d fd"
  "delivered (d\<lparr>writes := ws\<rparr>) fd = delivered d fd"
  by (simp_all add: delivered_def)

lemma mod_fd_mask:
  assumes "loop_wf tb" and "e \<in> set (snd (loop_mod_fd tb fd ev))" and "pfd e = fd"
  shows "pevents e = ev"
proof (cases "find_idx tb fd")
  case None
  then have "e \<in> set tb" using assms(2) by (simp add: loop_mod_fd_def)
  then show ?thesis using None assms(3) by (auto simp: find_idx_None)
next
  case (Some i)
  let ?tb = "tb[i := (tb ! i)\<lparr>pevents := ev\<rparr>]"
  have i: "i < length tb" "pfd (tb ! i) = fd" using find_idx_Some [OF Some] by auto
  have e: "e \<in> set ?tb" using assms(2) Some by (simp add: loop_mod_fd_def)
  have "distinct (map pfd ?tb)" using loop_mod_wf [OF assms(1), of fd ev] Some by (simp add: loop_mod_fd_def loop_wf_def)
  from find_idx_unique [OF this _ _ e assms(3)] i have "e = ?tb ! i" by simp
  then show ?thesis using i by simp
qed

lemma drain_step:
  assumes "stdin_ok d s j"
  shows "stdin_ok (pane_stdin_drain d s j) s j" and "pn_fd (pane_at (pane_stdin_drain d s j) s j) = pn_fd (pane_at d s j)"
    and "delivered (pane_stdin_drain d s j) (pn_fd (pane_at d s j)) @ stdin_staged (pane_at (pane_stdin_drain d s j) s j) =
      delivered d (pn_fd (pane_at d s j)) @ stdin_staged (pane_at d s j)"
    and "prefix (delivered d (pn_fd (pane_at d s j))) (delivered (pane_stdin_drain d s j) (pn_fd (pane_at d s j)))"
proof -
  let ?p = "pane_at d s j"
  have ok: "s < length (sessions d)" "j < length (ss_panes (sess d s))" "stdin_wf ?p" "pn_fd ?p \<ge> 0" "loop_wf (fds d)"
    using assms by (auto simp: stdin_ok_def)
  obtain n ws where w: "pty_write (writes d) (stdin_staged ?p) = (n, ws)" by fastforce
  have n: "n \<le> stdin_len ?p" using pty_write_le [of "writes d" "stdin_staged ?p"] ok(3) w by simp
  note q = drain_queue [OF ok(3) n]
  let ?d = "effect (upd_pane (d\<lparr>writes := ws\<rparr>) s j (\<lambda>p. drained p n)) (Pty_In (pn_fd ?p) (take n (stdin_staged ?p)))"
  have p: "pane_at ?d s j = drained ?p n" using ok(1,2) by simp
  have eq: "pane_stdin_drain d s j = d_mod_fd ?d (pn_fd ?p) (if stdin_len (drained ?p n) \<noteq> 0 then POLLIN OR POLLOUT else POLLIN)"
    using ok by (simp add: pane_stdin_drain_def Let_def w)
  have pa: "pane_at (pane_stdin_drain d s j) s j = drained ?p n" unfolding eq using p by simp
  have "mask_ok (pane_stdin_drain d s j) s j"
    unfolding mask_ok_def pa q(3) using mod_fd_mask [of "fds d" _ "pn_fd ?p"] ok(5) by (auto simp: eq p)
  then show "stdin_ok (pane_stdin_drain d s j) s j"
    using ok q loop_mod_wf [OF ok(5)] unfolding stdin_ok_def pa by (simp add: eq)
  show "pn_fd (pane_at (pane_stdin_drain d s j) s j) = pn_fd ?p" by (simp add: pa q)
  show "delivered (pane_stdin_drain d s j) (pn_fd ?p) @ stdin_staged (pane_at (pane_stdin_drain d s j) s j) =
      delivered d (pn_fd ?p) @ stdin_staged ?p" unfolding pa by (simp add: eq q)
  show "prefix (delivered d (pn_fd ?p)) (delivered (pane_stdin_drain d s j) (pn_fd ?p))" by (simp add: eq)
qed

lemma typed_step:
  assumes "stdin_ok d s j"
  shows "\<exists>acc. prefix acc data \<and> stdin_ok (pane_stdin d s j data) s j \<and>
    prefix (delivered d (pn_fd (pane_at d s j))) (delivered (pane_stdin d s j data) (pn_fd (pane_at d s j))) \<and>
    pn_fd (pane_at (pane_stdin d s j data) s j) = pn_fd (pane_at d s j) \<and>
    delivered (pane_stdin d s j data) (pn_fd (pane_at d s j)) @ stdin_staged (pane_at (pane_stdin d s j data) s j) =
      delivered d (pn_fd (pane_at d s j)) @ stdin_staged (pane_at d s j) @ acc \<and>
    (stdin_len (pane_at d s j) + length data \<le> STDIN_STAGE_MAX \<longrightarrow> acc = data)"
proof -
  let ?p = "pane_at d s j"
  have ok: "s < length (sessions d)" "j < length (ss_panes (sess d s))" "stdin_wf ?p" "pn_fd ?p \<ge> 0" "loop_wf (fds d)" "mask_ok d s j"
    using assms by (auto simp: stdin_ok_def)
  show ?thesis
  proof (cases "stdin_len ?p = 0")
    case False
    let ?e = "upd_pane d s j (\<lambda>p. pane_stdin_stage p data)" and ?acc = "take (STDIN_STAGE_MAX - stdin_len ?p) data"
    have pe: "pane_at ?e s j = pane_stdin_stage ?p data" using ok(1,2) by simp
    note st = stage_queue [OF ok(3), of data]
    have "length (stdin_staged (pane_stdin_stage ?p data)) = stdin_len ?p + length ?acc" using st(1) ok(3) by simp
    then have "stdin_len (pane_stdin_stage ?p data) \<noteq> 0" using False st(2) by simp
    then have "mask_ok ?e s j" using ok(6) False unfolding mask_ok_def pe st(3) by simp
    then have "stdin_ok ?e s j" using ok st unfolding stdin_ok_def pe by simp
    note dr = drain_step [OF this, unfolded pe st(3)]
    have "pane_stdin d s j data = pane_stdin_drain ?e s j" using ok(4) False by (simp add: pane_stdin_def Let_def)
    then show ?thesis using dr st by (intro exI [of _ ?acc]) (auto simp: take_is_prefix)
  next
    case True
    obtain n ws where w: "pty_write (writes d) data = (n, ws)" by fastforce
    have n: "n \<le> length data" using pty_write_le [of "writes d" data] w by simp
    have nil: "stdin_staged ?p = []" using True by (simp add: stdin_staged_def)
    let ?e = "effect (d\<lparr>writes := ws\<rparr>) (Pty_In (pn_fd ?p) (take n data))"
    show ?thesis
    proof (cases "n < length data")
      case False
      then have "pane_stdin d s j data = ?e" using ok(4) True by (simp add: pane_stdin_def Let_def w)
      then show ?thesis using ok nil False n by (intro exI [of _ data]) (simp add: stdin_ok_def mask_ok_def)
    next
      case less: True
      let ?g = "upd_pane ?e s j (\<lambda>p. pane_stdin_stage p (drop n data))"
      have eq: "pane_stdin d s j data = d_mod_fd ?g (pn_fd ?p) (POLLIN OR POLLOUT)"
        using ok(4) True less by (simp add: pane_stdin_def Let_def w)
      note st = stage_queue [OF ok(3), of "drop n data"]
      let ?acc = "take n data @ take STDIN_STAGE_MAX (drop n data)"
      have pe: "pane_at (pane_stdin d s j data) s j = pane_stdin_stage ?p (drop n data)" unfolding eq using ok(1,2) by simp
      have "length (stdin_staged (pane_stdin_stage ?p (drop n data))) > 0"
        using st(1) True less nil by (simp add: STDIN_STAGE_MAX_def)
      then have "stdin_len (pane_stdin_stage ?p (drop n data)) \<noteq> 0" using st(2) by simp
      then have "mask_ok (pane_stdin d s j data) s j"
        unfolding mask_ok_def pe st(3) using mod_fd_mask [OF ok(5), of _ "pn_fd ?p"] by (simp add: eq)
      then have "stdin_ok (pane_stdin d s j data) s j"
        using ok st loop_mod_wf [OF ok(5)] unfolding stdin_ok_def pe by (simp add: eq)
      moreover have "prefix ?acc data" by (metis append_take_drop_id same_prefix_prefix take_is_prefix)
      moreover have "delivered (pane_stdin d s j data) (pn_fd ?p) @ stdin_staged (pane_at (pane_stdin d s j data) s j) =
          delivered d (pn_fd ?p) @ stdin_staged ?p @ ?acc" unfolding pe using st(1) True nil by (simp add: eq)
      moreover have "prefix (delivered d (pn_fd ?p)) (delivered (pane_stdin d s j data) (pn_fd ?p))" by (simp add: eq)
      ultimately show ?thesis using pe st(3) True by (intro exI [of _ ?acc]) auto
    qed
  qed
qed

lemma stdin_steps:
  assumes "stdin_ok d s j"
  shows "\<exists>acc. list_all2 prefix acc (map typed ops) \<and> stdin_ok (foldl (stdin_step s j) d ops) s j \<and>
    pn_fd (pane_at (foldl (stdin_step s j) d ops) s j) = pn_fd (pane_at d s j) \<and>
    delivered (foldl (stdin_step s j) d ops) (pn_fd (pane_at d s j)) @ stdin_staged (pane_at (foldl (stdin_step s j) d ops) s j) =
      delivered d (pn_fd (pane_at d s j)) @ stdin_staged (pane_at d s j) @ concat acc \<and>
    (stdin_len (pane_at d s j) + length (concat (map typed ops)) \<le> STDIN_STAGE_MAX \<longrightarrow> acc = map typed ops)"
  using assms
proof (induction ops arbitrary: d)
  case (Cons op ops)
  let ?e = "stdin_step s j d op"
  have w: "stdin_ok (d\<lparr>writes := ws\<rparr>) s j" for ws using Cons.prems by (simp add: stdin_ok_def mask_ok_def)
  have "\<exists>a. prefix a (typed op) \<and> stdin_ok ?e s j \<and>
      prefix (delivered d (pn_fd (pane_at d s j))) (delivered ?e (pn_fd (pane_at d s j))) \<and> pn_fd (pane_at ?e s j) = pn_fd (pane_at d s j) \<and>
      delivered ?e (pn_fd (pane_at d s j)) @ stdin_staged (pane_at ?e s j) =
        delivered d (pn_fd (pane_at d s j)) @ stdin_staged (pane_at d s j) @ a \<and>
      (stdin_len (pane_at d s j) + length (typed op) \<le> STDIN_STAGE_MAX \<longrightarrow> a = typed op)"
  proof (cases op)
    case (Typed ws bs)
    then show ?thesis using typed_step [OF w [of ws], of bs] by simp
  next
    case (Writable ws)
    then show ?thesis using drain_step [OF w [of ws]] by simp
  qed
  then obtain a where a: "prefix a (typed op)" "stdin_ok ?e s j" "pn_fd (pane_at ?e s j) = pn_fd (pane_at d s j)"
      "delivered ?e (pn_fd (pane_at d s j)) @ stdin_staged (pane_at ?e s j) =
        delivered d (pn_fd (pane_at d s j)) @ stdin_staged (pane_at d s j) @ a"
      "stdin_len (pane_at d s j) + length (typed op) \<le> STDIN_STAGE_MAX \<longrightarrow> a = typed op"
      "prefix (delivered d (pn_fd (pane_at d s j))) (delivered ?e (pn_fd (pane_at d s j)))" by blast
  obtain acc where acc: "list_all2 prefix acc (map typed ops)" "stdin_ok (foldl (stdin_step s j) ?e ops) s j"
      "pn_fd (pane_at (foldl (stdin_step s j) ?e ops) s j) = pn_fd (pane_at ?e s j)"
      "delivered (foldl (stdin_step s j) ?e ops) (pn_fd (pane_at ?e s j)) @ stdin_staged (pane_at (foldl (stdin_step s j) ?e ops) s j) =
        delivered ?e (pn_fd (pane_at ?e s j)) @ stdin_staged (pane_at ?e s j) @ concat acc"
      "stdin_len (pane_at ?e s j) + length (concat (map typed ops)) \<le> STDIN_STAGE_MAX \<longrightarrow> acc = map typed ops"
    using Cons.IH [OF a(2)] by blast
  have le: "stdin_len (pane_at ?e s j) \<le> stdin_len (pane_at d s j) + length (typed op)"
    using arg_cong [OF a(4), of length] prefix_length_le [OF a(6)] prefix_length_le [OF a(1)] a(2) Cons.prems
    by (simp add: stdin_ok_def)
  then show ?case using a acc by (intro exI [of _ "a # acc"]) auto
qed auto

section \<open>Theorem\<close>

text \<open>Claim C17. However the terminal takes the bytes (whole, in parts, not at all, interrupted), what
  has reached a pane's child followed by what is staged for it is what was typed, in order; input
  is cut short only when a quarter of a megabyte is already waiting, and while anything waits the
  descriptor is polled for writing.\<close>

theorem stdin_in_order:
  assumes "stdin_ok d s j"
  shows "\<exists>acc. list_all2 prefix acc (map typed ops) \<and>
    (let d' = foldl (stdin_step s j) d ops; fd = pn_fd (pane_at d s j) in
     delivered d' fd @ stdin_staged (pane_at d' s j) = delivered d fd @ stdin_staged (pane_at d s j) @ concat acc \<and>
     (stdin_len (pane_at d s j) + length (concat (map typed ops)) \<le> STDIN_STAGE_MAX \<longrightarrow> acc = map typed ops) \<and>
     mask_ok d' s j)"
  using stdin_steps [OF assms, of ops] unfolding Let_def stdin_ok_def by blast

definition typing_daemon :: daemon where
  "typing_daemon = upd_pane blank_daemon 0 0 (\<lambda>p. p\<lparr>pn_use := True, pn_fd := 9\<rparr>)"

definition paste :: "stdin_op list" where
  "paste = [Typed [Sent 2, W_EAGAIN] [1, 2, 3, 4, 5], Writable [W_EINTR, Sent 1], Typed [] [6], Writable [Sent 9]]"

theorem stdin_in_order_witness:
  "stdin_ok typing_daemon 0 0 \<and> (\<exists>acc. list_all2 prefix acc (map typed paste) \<and>
    (let d' = foldl (stdin_step 0 0) typing_daemon paste; fd = pn_fd (pane_at typing_daemon 0 0) in
     delivered d' fd @ stdin_staged (pane_at d' 0 0) = delivered typing_daemon fd @ stdin_staged (pane_at typing_daemon 0 0) @ concat acc \<and>
     (stdin_len (pane_at typing_daemon 0 0) + length (concat (map typed paste)) \<le> STDIN_STAGE_MAX \<longrightarrow> acc = map typed paste) \<and>
     mask_ok d' 0 0))"
proof -
  have "stdin_ok typing_daemon 0 0"
    by (simp add: stdin_ok_def typing_daemon_def blank_daemon_def upd_pane_def upd_sess_def table_sizes zero_session_def zero_pane_def
        stdin_wf_def loop_wf_def mask_ok_def)
  then show ?thesis using stdin_in_order [of typing_daemon 0 0 paste] by blast
qed

end
