(* ===== verification/Lockfile.thy ===== *)
theory Lockfile
  imports Main
begin

text \<open>
  The single-instance lock of \<open>src/daemon/lockfile.c\<close>: a file in the runtime directory and an
  advisory lock on it. What matters is the order in which several daemons make their system calls,
  so the model is a step relation: each step is one call of \<open>open\<close>, \<open>flock\<close>, \<open>unlink\<close> or the end of
  a process, taken by any process at any time.

  A file is an inode number. The directory entry \<open>entry\<close> names at most one; a lock belongs to an
  inode and is held by at most one process. What is proved: as long as daemons only die (the case
  the file is written for), at most one of them believes that it has the lock; a daemon that
  releases the lock in the order of \<open>lock_release\<close> can leave two.
\<close>

section \<open>State\<close>

datatype phase = Idle | Opened nat | Holding nat | Releasing nat

record lock_state =
  entry :: "nat option"
  fresh :: nat
  holder :: "nat \<Rightarrow> nat option"
  proc :: "nat \<Rightarrow> phase"

definition lock_init :: lock_state where
  "lock_init = \<lparr>entry = None, fresh = 0, holder = (\<lambda>_. None), proc = (\<lambda>_. Idle)\<rparr>"

definition goto :: "lock_state \<Rightarrow> nat \<Rightarrow> phase \<Rightarrow> lock_state" where
  "goto x p ph = x\<lparr>proc := (proc x)(p := ph)\<rparr>"

section \<open>The calls\<close>

text \<open>\<open>open\<close> with \<open>O_CREAT\<close>: the file of that name, or a new one.\<close>

definition lock_open :: "lock_state \<Rightarrow> nat \<Rightarrow> lock_state" where
  "lock_open x p = (case entry x of
     Some i \<Rightarrow> goto x p (Opened i)
   | None \<Rightarrow> goto (x\<lparr>entry := Some (fresh x), fresh := fresh x + 1\<rparr>) p (Opened (fresh x)))"

text \<open>\<open>flock\<close> with \<open>LOCK_NB\<close>: on failure \<open>lock_acquire\<close> closes the file and returns.\<close>

definition lock_flock :: "lock_state \<Rightarrow> nat \<Rightarrow> nat \<Rightarrow> lock_state" where
  "lock_flock x p i =
    (if holder x i = None then goto (x\<lparr>holder := (holder x)(i := Some p)\<rparr>) p (Holding i) else goto x p Idle)"

text \<open>\<open>lock_adopt\<close> after a restart in place: the inherited descriptor must be the file the name
  leads to, and locking it again must succeed.\<close>

definition lock_adopt :: "lock_state \<Rightarrow> nat \<Rightarrow> nat \<Rightarrow> bool" where
  "lock_adopt x p i = (entry x = Some i \<and> holder x i \<in> {None, Some p})"

text \<open>\<open>lock_release\<close> first removes the name, whatever it leads to, then gives up the lock.\<close>

definition lock_unlink :: "lock_state \<Rightarrow> nat \<Rightarrow> nat \<Rightarrow> lock_state" where
  "lock_unlink x p i = goto (x\<lparr>entry := None\<rparr>) p (Releasing i)"

definition lock_drop :: "lock_state \<Rightarrow> nat \<Rightarrow> nat \<Rightarrow> lock_state" where
  "lock_drop x p i = goto (x\<lparr>holder := (holder x)(i := None)\<rparr>) p Idle"

text \<open>\<open>rel\<close> says whether daemons also release the lock, or only die.\<close>

inductive lock_step :: "bool \<Rightarrow> lock_state \<Rightarrow> lock_state \<Rightarrow> bool" for rel where
  acquire_open: "proc x p = Idle \<Longrightarrow> lock_step rel x (lock_open x p)"
| acquire_flock: "proc x p = Opened i \<Longrightarrow> lock_step rel x (lock_flock x p i)"
| die_open: "proc x p = Opened i \<Longrightarrow> lock_step rel x (goto x p Idle)"
| die_holding: "proc x p = Holding i \<Longrightarrow> lock_step rel x (lock_drop x p i)"
| release_unlink: "rel \<Longrightarrow> proc x p = Holding i \<Longrightarrow> lock_step rel x (lock_unlink x p i)"
| release_drop: "rel \<Longrightarrow> proc x p = Releasing i \<Longrightarrow> lock_step rel x (lock_drop x p i)"

abbreviation lock_run :: "bool \<Rightarrow> lock_state \<Rightarrow> lock_state \<Rightarrow> bool" where
  "lock_run rel \<equiv> (lock_step rel)\<^sup>*\<^sup>*"

lemma one_step: "lock_step rel x y \<Longrightarrow> lock_run rel x y"
  by (rule r_into_rtranclp)

lemma run_trans [trans]: "lock_run rel x y \<Longrightarrow> lock_run rel y z \<Longrightarrow> lock_run rel x z"
  by (rule rtranclp_trans)

lemmas lock_calls = lock_open_def lock_flock_def lock_unlink_def lock_drop_def goto_def lock_init_def lock_adopt_def

section \<open>Exclusion while nobody releases\<close>

definition lock_ok :: "lock_state \<Rightarrow> bool" where
  "lock_ok x \<longleftrightarrow> (\<forall>p i. proc x p = Opened i \<or> proc x p = Holding i \<longrightarrow> entry x = Some i) \<and>
     (\<forall>p i. holder x i = Some p \<longleftrightarrow> proc x p = Holding i) \<and> (\<forall>p i. proc x p \<noteq> Releasing i)"

lemma lock_okI:
  assumes "\<And>p i. proc x p = Opened i \<Longrightarrow> entry x = Some i" "\<And>p i. proc x p = Holding i \<Longrightarrow> entry x = Some i"
    and "\<And>p i. holder x i = Some p \<Longrightarrow> proc x p = Holding i" "\<And>p i. proc x p = Holding i \<Longrightarrow> holder x i = Some p"
    and "\<And>p i. proc x p \<noteq> Releasing i"
  shows "lock_ok x"
  unfolding lock_ok_def using assms by blast

lemma lock_okD:
  assumes "lock_ok x"
  shows "proc x p = Opened i \<Longrightarrow> entry x = Some i" "proc x p = Holding i \<Longrightarrow> entry x = Some i"
    "holder x i = Some p \<Longrightarrow> proc x p = Holding i" "proc x p = Holding i \<Longrightarrow> holder x i = Some p" "proc x p \<noteq> Releasing i"
  using assms unfolding lock_ok_def by blast+

lemma lock_ok_idle: "proc x p = Opened i \<Longrightarrow> lock_ok x \<Longrightarrow> lock_ok (goto x p Idle)"
proof (rule lock_okI)
  assume p: "proc x p = Opened i" and ok: "lock_ok x"
  show "entry (goto x p Idle) = Some k" if "proc (goto x p Idle) q = Opened k" for q k
    using lock_okD(1) [OF ok, of q k] that by (simp add: goto_def split: if_splits)
  show "entry (goto x p Idle) = Some k" if "proc (goto x p Idle) q = Holding k" for q k
    using lock_okD(2) [OF ok, of q k] that by (simp add: goto_def split: if_splits)
  show "proc (goto x p Idle) q = Holding k" if "holder (goto x p Idle) k = Some q" for q k
    using lock_okD(3) [OF ok, of k q] p that by (auto simp: goto_def)
  show "holder (goto x p Idle) k = Some q" if "proc (goto x p Idle) q = Holding k" for q k
    using lock_okD(4) [OF ok, of q k] that by (simp add: goto_def split: if_splits)
  show "proc (goto x p Idle) q \<noteq> Releasing k" for q k using lock_okD(5) [OF ok] by (simp add: goto_def)
qed

lemma lock_ok_open:
  assumes "proc x p = Idle" "lock_ok x" shows "lock_ok (lock_open x p)"
proof (cases "entry x")
  case None
  have idle: "proc x q = Idle" for q using lock_okD [OF assms(2), of q] None by (cases "proc x q") auto
  have "holder x i = None" for i using lock_okD(3) [OF assms(2), of i] idle by (cases "holder x i") auto
  then show ?thesis using None idle by (intro lock_okI) (auto simp: lock_open_def goto_def split: if_splits)
next
  case (Some i)
  then have y: "entry (lock_open x p) = Some i" "holder (lock_open x p) = holder x"
      "proc (lock_open x p) q = (if q = p then Opened i else proc x q)" for q by (simp_all add: lock_open_def goto_def)
  show ?thesis
  proof (rule lock_okI)
    show "entry (lock_open x p) = Some k" if "proc (lock_open x p) q = Opened k" for q k
      using lock_okD(1) [OF assms(2), of q k] that Some by (simp add: y split: if_splits)
    show "entry (lock_open x p) = Some k" if "proc (lock_open x p) q = Holding k" for q k
      using lock_okD(2) [OF assms(2), of q k] that Some by (simp add: y split: if_splits)
    show "proc (lock_open x p) q = Holding k" if "holder (lock_open x p) k = Some q" for q k
      using lock_okD(3) [OF assms(2), of k q] that assms(1) by (auto simp: y)
    show "holder (lock_open x p) k = Some q" if "proc (lock_open x p) q = Holding k" for q k
      using lock_okD(4) [OF assms(2), of q k] that by (simp add: y split: if_splits)
    show "proc (lock_open x p) q \<noteq> Releasing k" for q k using lock_okD(5) [OF assms(2)] by (simp add: y)
  qed
qed

lemma lock_ok_flock:
  assumes o: "proc x p = Opened i" and ok: "lock_ok x" shows "lock_ok (lock_flock x p i)"
proof (cases "holder x i")
  case None
  have free: "proc x q \<noteq> Holding k" for q k
    using None lock_okD(2) [OF ok, of q k] lock_okD(4) [OF ok, of q k] lock_okD(1) [OF ok o] by auto
  have "holder x k = None" for k using lock_okD(3) [OF ok, of k] free by (cases "holder x k") auto
  then show ?thesis using None free lock_okD(1,5) [OF ok] lock_okD(1) [OF ok o]
    by (intro lock_okI) (auto simp: lock_flock_def goto_def split: if_splits)
next
  case (Some q)
  then have "lock_flock x p i = goto x p Idle" by (simp add: lock_flock_def)
  then show ?thesis using lock_ok_idle [OF assms] by simp
qed

lemma lock_ok_drop:
  assumes h: "proc x p = Holding i" and ok: "lock_ok x" shows "lock_ok (lock_drop x p i)"
proof -
  have only: "proc x q = Holding i \<Longrightarrow> q = p" for q using lock_okD(4) [OF ok h] lock_okD(4) [OF ok, of q i] by simp
  have y: "entry (lock_drop x p i) = entry x" "holder (lock_drop x p i) k = (if k = i then None else holder x k)"
      "proc (lock_drop x p i) q = (if q = p then Idle else proc x q)" for k q by (simp_all add: lock_drop_def goto_def)
  show ?thesis
  proof (rule lock_okI)
    show "entry (lock_drop x p i) = Some k" if "proc (lock_drop x p i) q = Opened k" for q k
      using lock_okD(1) [OF ok, of q k] that by (simp add: y split: if_splits)
    show "entry (lock_drop x p i) = Some k" if "proc (lock_drop x p i) q = Holding k" for q k
      using lock_okD(2) [OF ok, of q k] that by (simp add: y split: if_splits)
    show "proc (lock_drop x p i) q = Holding k" if "holder (lock_drop x p i) k = Some q" for q k
      using lock_okD(3) [OF ok, of k q] that h by (auto simp: y split: if_splits)
    show "holder (lock_drop x p i) k = Some q" if "proc (lock_drop x p i) q = Holding k" for q k
      using lock_okD(4) [OF ok, of q k] that only [of q] by (auto simp: y split: if_splits)
    show "proc (lock_drop x p i) q \<noteq> Releasing k" for q k using lock_okD(5) [OF ok] by (simp add: y)
  qed
qed

lemma lock_ok_step: "lock_step False x y \<Longrightarrow> lock_ok x \<Longrightarrow> lock_ok y"
  by (induction rule: lock_step.induct) (simp_all add: lock_ok_open lock_ok_flock lock_ok_idle lock_ok_drop)

lemma lock_ok_reach: "lock_run False lock_init x \<Longrightarrow> lock_ok x"
proof (induction rule: rtranclp_induct)
  case base
  show ?case by (simp add: lock_ok_def lock_init_def)
qed (rule lock_ok_step)

text \<open>Claim C9. Whatever the order in which any number of daemons open and lock the file and die, two
  of them never hold it at the same time, and the one that holds it is the one a restart in place
  finds again: its descriptor is the file the name leads to and locking it again succeeds.\<close>

theorem lock_exclusive:
  assumes "lock_run False lock_init x"
  shows "(proc x p = Holding i \<longrightarrow> proc x q = Holding j \<longrightarrow> p = q) \<and> (proc x p = Holding i \<longrightarrow> lock_adopt x p i)"
  using lock_ok_reach [OF assms] unfolding lock_ok_def lock_adopt_def by (metis insertCI option.inject)

theorem lock_exclusive_witness:
  "let x = lock_flock (lock_open (lock_flock (lock_open lock_init 1) 1 0) 2) 2 0 in
     lock_run False lock_init x \<and> proc x 1 = Holding 0 \<and> proc x 2 = Idle \<and>
     (proc x 1 = Holding 0 \<longrightarrow> proc x 2 = Holding 0 \<longrightarrow> 1 = (2 :: nat)) \<and> (proc x 1 = Holding 0 \<longrightarrow> lock_adopt x 1 0)"
proof -
  let ?a = "lock_open lock_init 1" let ?b = "lock_flock ?a 1 0" let ?c = "lock_open ?b 2" let ?x = "lock_flock ?c 2 0"
  have "lock_run False lock_init ?a" by (rule one_step, rule acquire_open) (simp add: lock_calls)
  also have "lock_run False ?a ?b" by (rule one_step, rule acquire_flock) (simp add: lock_calls)
  also have "lock_run False ?b ?c" by (rule one_step, rule acquire_open) (simp add: lock_calls)
  also have "lock_run False ?c ?x" by (rule one_step, rule acquire_flock) (simp add: lock_calls)
  finally have r: "lock_run False lock_init ?x" .
  have p: "proc ?x 1 = Holding 0" "proc ?x 2 = Idle" by (simp_all add: lock_calls)
  show ?thesis unfolding Let_def using r p lock_exclusive [OF r, of 1 0 2 0] by blast
qed

section \<open>Releasing\<close>

text \<open>Claim C10. The order of \<open>lock_release\<close>, unlink before unlock, does not keep exclusion: a second
  daemon that opened the file before the unlink gets the lock of the file that has no name any more,
  a third one creates and locks a new file, and both run.\<close>

theorem release_lets_two_in:
  "\<exists>x. lock_run True lock_init x \<and> proc x 2 = Holding 0 \<and> proc x 3 = Holding 1 \<and> \<not> lock_adopt x 2 0"
proof -
  let ?a = "lock_open lock_init 1" let ?b = "lock_flock ?a 1 0" let ?c = "lock_open ?b 2" let ?d = "lock_unlink ?c 1 0"
  let ?e = "lock_drop ?d 1 0" let ?f = "lock_flock ?e 2 0" let ?g = "lock_open ?f 3" let ?x = "lock_flock ?g 3 1"
  have "lock_run True lock_init ?a" by (rule one_step, rule acquire_open) (simp add: lock_calls)
  also have "lock_run True ?a ?b" by (rule one_step, rule acquire_flock) (simp add: lock_calls)
  also have "lock_run True ?b ?c" by (rule one_step, rule acquire_open) (simp add: lock_calls)
  also have "lock_run True ?c ?d" by (rule one_step, rule release_unlink) (simp_all add: lock_calls)
  also have "lock_run True ?d ?e" by (rule one_step, rule release_drop) (simp_all add: lock_calls)
  also have "lock_run True ?e ?f" by (rule one_step, rule acquire_flock) (simp add: lock_calls)
  also have "lock_run True ?f ?g" by (rule one_step, rule acquire_open) (simp add: lock_calls)
  also have "lock_run True ?g ?x" by (rule one_step, rule acquire_flock) (simp add: lock_calls)
  finally have "lock_run True lock_init ?x" .
  moreover have "proc ?x 2 = Holding 0 \<and> proc ?x 3 = Holding 1 \<and> \<not> lock_adopt ?x 2 0" by (simp add: lock_calls)
  ultimately show ?thesis by blast
qed

end
