(* ===== verification/Pump.thy ===== *)
theory Pump
  imports Copy_Mode
begin

text \<open>
  The attach client, \<open>src/client/attach.c\<close> and \<open>src/client/tty.c\<close>: one turn of its poll loop over the
  keyboard, the window-size pipe and the socket, the frames it reacts to, what it leaves behind, and
  the reconnect loop around it.

  A turn carries what the system calls of one round return: whether \<open>poll\<close> failed or timed out,
  the clock readings, and what was read. \<open>sends\<close> holds the outcomes of the calls of \<open>send_frame\<close>
  (an empty list means that all further calls succeed); \<open>sent\<close> collects the frames that went out
  and \<open>tape\<close> what was written to the terminal and by whom. The files \<open>hist\<close> are the two generations
  of the scrollback log, by pane. Failing writes to the terminal are not modelled.
\<close>

section \<open>The terminal\<close>

datatype written = By_Session "byte list" | By_Pager "byte list" | By_Client "byte list"

record pump =
  ch :: chord
  pg :: "pager option"
  inb :: ring
  detached :: bool
  exited :: bool
  conn_lost :: bool
  exit_code :: int
  stdin_gone :: bool
  attached_ok :: bool
  stdin_gone_at :: u64
  hist_lines :: u64
  active_pane :: byte
  tcols :: nat
  trows :: nat
  g_raw :: bool
  sends :: "bool list"
  sent :: "(byte \<times> byte list) list"
  tape :: "written list"
  returned :: "int option"

definition RESET_SEQ :: "byte list" where
  "RESET_SEQ = concat (map (\<lambda>s. 0x1b # 0x5b # ascii s) [''?1049l'', ''?1000l'', ''?1002l'', ''?1003l'', ''?1005l'', ''?1006l'',
     ''?2004l'', ''0m'', ''?25h''])"

definition onto :: "pump \<Rightarrow> written \<Rightarrow> pump" where
  "onto a s = a\<lparr>tape := tape a @ [s]\<rparr>"

definition tty_raw_leave :: "pump \<Rightarrow> pump" where
  "tty_raw_leave a = (if \<not> g_raw a then a else onto (a\<lparr>g_raw := False\<rparr>) (By_Client RESET_SEQ))"

text \<open>\<open>tty\<close> is \<open>isatty\<close> of the standard input, \<open>attr_ok\<close> whether the terminal attributes could be read
  and set.\<close>

definition tty_raw_enter :: "bool \<Rightarrow> bool \<Rightarrow> pump \<Rightarrow> bool \<times> pump" where
  "tty_raw_enter tty attr_ok a =
    (if g_raw a then (True, a) else if \<not> tty then (True, a) else if \<not> attr_ok then (False, a) else (True, a\<lparr>g_raw := True\<rparr>))"

section \<open>Frames to the daemon\<close>

definition send :: "pump \<Rightarrow> byte \<Rightarrow> byte list \<Rightarrow> bool \<times> pump" where
  "send a t p = (let (ok, rest) = (case sends a of [] \<Rightarrow> (True, []) | b # bs \<Rightarrow> (b, bs));
                     a = a\<lparr>sends := rest\<rparr>
                 in if ok then (True, a\<lparr>sent := sent a @ [(t, p)]\<rparr>) else (False, a))"

text \<open>A send whose failure means that the connection is lost.\<close>

definition must_send :: "pump \<Rightarrow> byte \<Rightarrow> byte list \<Rightarrow> pump" where
  "must_send a t p = (case send a t p of (ok, a) \<Rightarrow> if ok then a else a\<lparr>conn_lost := True\<rparr>)"

definition attach_payload :: "byte list \<Rightarrow> nat \<Rightarrow> nat \<Rightarrow> byte list" where
  "attach_payload name c r = put_u16 (of_nat c) @ put_u16 (of_nat r) @ [0, word_of_nat (length name)] @ name"

definition send_attach :: "byte list \<Rightarrow> pump \<Rightarrow> bool \<times> pump" where
  "send_attach name a = send a 0x14 (attach_payload name (tcols a) (trows a))"

text \<open>The arguments, each with its terminator, as far as the 4096 bytes of the buffer allow.\<close>

fun pack_args :: "nat \<Rightarrow> byte list list \<Rightarrow> byte list option" where
  "pack_args room [] = Some []"
| "pack_args room (x # xs) = (if length x + 1 > room then None
     else case pack_args (room - (length x + 1)) xs of None \<Rightarrow> None | Some bs \<Rightarrow> Some (x @ [0] @ bs))"

definition new_payload :: "byte list \<Rightarrow> byte list list \<Rightarrow> nat \<Rightarrow> nat \<Rightarrow> byte list option" where
  "new_payload name argv c r = (case pack_args (4096 - (5 + length name + 2)) argv of None \<Rightarrow> None
     | Some bs \<Rightarrow> Some (put_u16 (of_nat c) @ put_u16 (of_nat r) @ [word_of_nat (length name)] @ name @ put_u16 (of_nat (length bs)) @ bs))"

definition send_new :: "byte list \<Rightarrow> byte list list \<Rightarrow> pump \<Rightarrow> bool \<times> pump" where
  "send_new name argv a = (case new_payload name argv (tcols a) (trows a) of None \<Rightarrow> (False, a) | Some p \<Rightarrow> send a 0x12 p)"

definition send_repaint_request :: "byte list \<Rightarrow> pump \<Rightarrow> bool \<times> pump" where
  "send_repaint_request name a = (case send a 0x15 [] of (False, a) \<Rightarrow> (False, a) | (True, a) \<Rightarrow> send_attach name a)"

text \<open>\<open>sz\<close> is what \<open>tty_get_size\<close> finds.\<close>

definition pump_resize :: "(nat \<times> nat) option \<Rightarrow> pump \<Rightarrow> pump" where
  "pump_resize sz a = (case sz of None \<Rightarrow> a | Some (c, r) \<Rightarrow> snd (send a 0x21 (put_u16 (of_nat c) @ put_u16 (of_nat r))))"

section \<open>Copy mode\<close>

text \<open>The pager after an operation: what it wrote goes to the terminal.\<close>

definition put_pager :: "pump \<Rightarrow> pager \<Rightarrow> pump" where
  "put_pager a p = (onto a (By_Pager (pout p)))\<lparr>pg := Some (p\<lparr>pout := []\<rparr>)\<rparr>"

definition drop_pager :: "pump \<Rightarrow> pager \<Rightarrow> pump" where
  "drop_pager a p = (onto a (By_Pager (pout (pager_leave p))))\<lparr>pg := None\<rparr>"

text \<open>Leaving copy mode while attached asks for a repaint.\<close>

definition quit_pager :: "byte list \<Rightarrow> pump \<Rightarrow> pager \<Rightarrow> pump" where
  "quit_pager name a p = (case send_repaint_request name (drop_pager a p) of (ok, a) \<Rightarrow> if ok then a else a\<lparr>conn_lost := True\<rparr>)"

definition feed_pager :: "byte list \<Rightarrow> pump \<Rightarrow> pager \<Rightarrow> byte list \<Rightarrow> pump" where
  "feed_pager name a p bs = (case pager_input p bs of (PAGER_EXIT, p) \<Rightarrow> quit_pager name a p | (PAGER_CONTINUE, p) \<Rightarrow> put_pager a p)"

type_synonym hist = "byte \<Rightarrow> byte list option \<times> byte list option"

definition start_pager :: "byte list \<Rightarrow> hist \<Rightarrow> pump \<Rightarrow> byte list \<Rightarrow> pump" where
  "start_pager name h a rest =
    (case enter_copy_mode (fst (h (active_pane a))) (snd (h (active_pane a))) (tcols a) (trows a) (hist_lines a) (active_pane a) of (p, req) \<Rightarrow>
      let a = put_pager a p;
          a = (case req of None \<Rightarrow> a | Some q \<Rightarrow> must_send a 0x32 q)
      in if rest \<noteq> [] \<and> \<not> conn_lost a then feed_pager name a (the (pg a)) rest else a)"

section \<open>The keyboard\<close>

datatype key_read = Keys "byte list" "nat \<Rightarrow> u64" | Retry | Gone u64

definition keys :: "byte list \<Rightarrow> hist \<Rightarrow> pump \<Rightarrow> byte list \<Rightarrow> (nat \<Rightarrow> u64) \<Rightarrow> pump" where
  "keys name h a buf now = (case pg a of
     Some p \<Rightarrow> feed_pager name a p buf
   | None \<Rightarrow> (case scan_input now (ch a) buf of (sr, fwd, consumed, c) \<Rightarrow>
       let a = a\<lparr>ch := c\<rparr>;
           a = (if fwd \<noteq> [] then must_send a 0x20 fwd else a)
       in if sr = SCAN_DETACH then a\<lparr>detached := True\<rparr>
          else if sr \<noteq> SCAN_NONE \<and> sr \<noteq> SCAN_COPY_MODE \<and> \<not> conn_lost a
          then (case pane_frame sr of Some (t, p) \<Rightarrow> must_send a (of_nat t) p | None \<Rightarrow> a)
          else if sr = SCAN_COPY_MODE \<and> \<not> conn_lost a then start_pager name h a (drop consumed buf)
          else a))"

text \<open>\<open>Gone t\<close> is the end of the input or a permanent error, at time \<open>t\<close>.\<close>

definition keyboard :: "byte list \<Rightarrow> hist \<Rightarrow> pump \<Rightarrow> key_read \<Rightarrow> pump" where
  "keyboard name h a k = (case k of
     Keys buf now \<Rightarrow> keys name h a buf now
   | Retry \<Rightarrow> a
   | Gone t \<Rightarrow> if attached_ok a then a\<lparr>detached := True\<rparr> else a\<lparr>stdin_gone := True, stdin_gone_at := t\<rparr>)"

section \<open>Frames from the daemon\<close>

definition on_snapshot :: "pump \<Rightarrow> byte list \<Rightarrow> pump" where
  "on_snapshot a p =
    (if length p < 12 then a
     else let a = a\<lparr>attached_ok := True\<rparr>;
              a = (if stdin_gone a then a\<lparr>detached := True\<rparr> else a);
              a = a\<lparr>hist_lines := get_u64 (drop 4 p)\<rparr>
          in case pg a of Some _ \<Rightarrow> a | None \<Rightarrow> onto a (By_Session (drop 12 p)))"

definition on_scrollback :: "pump \<Rightarrow> byte list \<Rightarrow> pump" where
  "on_scrollback a p = (case pg a of None \<Rightarrow> a
     | Some q \<Rightarrow> if length p < 12 then a
        else (case handle_scrollback_data q (active_pane a) p of (q, req) \<Rightarrow>
          put_pager (case req of None \<Rightarrow> a | Some r \<Rightarrow> must_send a 0x32 r) q))"

definition err_line :: "byte list \<Rightarrow> byte list \<Rightarrow> byte list" where
  "err_line p other = (case proto_err_text p of (code, Some (off, n)) \<Rightarrow> ascii ''agent-terminal: '' @ take (unat n) (drop off p)
     | (code, None) \<Rightarrow> ascii ''agent-terminal: '' @ other @ ascii '' (error '' @ dec_digits (unat code) @ ascii '')'')"

text \<open>An error is fatal until the daemon has confirmed the attach, and when the versions differ.\<close>

definition on_err :: "pump \<Rightarrow> byte list \<Rightarrow> pump" where
  "on_err a p =
    (let code = (if length p \<ge> 2 then get_u16 p else 0) in
     if attached_ok a \<and> code \<noteq> 1 then onto a (By_Client ([0x0d, 0x0a] @ err_line p (ascii ''request refused'') @ [0x0d, 0x0a]))
     else let a = (case pg a of Some q \<Rightarrow> drop_pager a q | None \<Rightarrow> a);
              a = onto (tty_raw_leave a) (By_Client (err_line p (ascii ''attach failed'') @ [0x0a]))
          in a\<lparr>returned := Some 1\<rparr>)"

definition on_frame :: "pump \<Rightarrow> byte \<Rightarrow> byte list \<Rightarrow> pump" where
  "on_frame a t p =
    (if t = 0x30 then (if pg a \<noteq> None then a else onto a (By_Session p))
     else if t = 0x31 then on_snapshot a p
     else if t = 0x33 then on_scrollback a p
     else if t = 0x35 then (if length p \<ge> 5 then a\<lparr>active_pane := p ! 4\<rparr> else a)
     else if t = 0x38 then (if pg a = None then onto a (By_Client [7]) else a)
     else if t = 0x34 then a\<lparr>exited := True, exit_code := (if length p \<ge> 4 then sint (get_u32 p) else 0)\<rparr>
     else if t = 0x03 then on_err a p
     else a)"

text \<open>Each frame takes at least its header out of the ring, so the ring's length is enough fuel.\<close>

fun pump_frames :: "nat \<Rightarrow> pump \<Rightarrow> pump" where
  "pump_frames 0 a = a"
| "pump_frames (Suc fuel) a = (case proto_read_frame (inb a) of
     (NeedMore, r) \<Rightarrow> a
   | (Violation, r) \<Rightarrow> a\<lparr>conn_lost := True\<rparr>
   | (Frame t p, r) \<Rightarrow> let a = on_frame (a\<lparr>inb := r\<rparr>) t p in if returned a \<noteq> None then a else pump_frames fuel a)"

datatype sock_read = Sock "byte list" | Sock_Retry | Sock_Closed

definition socket :: "pump \<Rightarrow> sock_read \<Rightarrow> pump" where
  "socket a s = (case s of
     Sock_Retry \<Rightarrow> a
   | Sock_Closed \<Rightarrow> a\<lparr>conn_lost := True\<rparr>
   | Sock buf \<Rightarrow> let a = a\<lparr>inb := snd (ring_write (inb a) buf)\<rparr> in pump_frames (Suc (rlen (inb a))) a)"

section \<open>One turn\<close>

text \<open>\<open>Woken\<close> has the results for the window-size pipe (both readings of the size), the keyboard and
  the socket, where \<open>poll\<close> reported them.\<close>

datatype poll_result = Poll_Failed | Poll_Idle
  | Woken "((nat \<times> nat) option \<times> (nat \<times> nat) option) option" "key_read option" "sock_read option"

record turn =
  poll :: poll_result
  t_gone :: u64
  t_chord :: u64
  hist :: hist

definition quoted :: "byte list \<Rightarrow> byte list" where
  "quoted name = 0x27 # name @ [0x27]"

definition no_confirmation :: "pump \<Rightarrow> turn \<Rightarrow> bool" where
  "no_confirmation a t \<longleftrightarrow> stdin_gone a \<and> \<not> attached_ok a \<and> t_gone t - stdin_gone_at a \<ge> 5000"

definition expire_chord :: "pump \<Rightarrow> u64 \<Rightarrow> pump" where
  "expire_chord a t = (case chord_timeout t (ch a) of (hb, c) \<Rightarrow>
     let a = a\<lparr>ch := c\<rparr> in if hb \<noteq> [] then snd (send a 0x20 hb) else a)"

definition idle_turn :: "byte list \<Rightarrow> pump \<Rightarrow> pump" where
  "idle_turn name a = (case pg a of
     Some p \<Rightarrow> if pesc p then (case pager_esc_timeout p of (PAGER_EXIT, p) \<Rightarrow> quit_pager name a p | (PAGER_CONTINUE, p) \<Rightarrow> put_pager a p) else a
   | None \<Rightarrow> a)"

definition winch :: "pump \<Rightarrow> (nat \<times> nat) option \<times> (nat \<times> nat) option \<Rightarrow> pump" where
  "winch a w = (let a = (case fst w of None \<Rightarrow> a
       | Some (c, r) \<Rightarrow> let a = a\<lparr>tcols := c, trows := r\<rparr> in (case pg a of Some p \<Rightarrow> put_pager a (pager_resize p c r) | None \<Rightarrow> a))
     in pump_resize (snd w) a)"

definition running :: "pump \<Rightarrow> bool" where
  "running a \<longleftrightarrow> \<not> detached a \<and> \<not> exited a \<and> \<not> conn_lost a \<and> returned a = None"

fun poll_failed :: "poll_result \<Rightarrow> bool" where
  "poll_failed Poll_Failed = True"
| "poll_failed _ = False"

definition pump_turn :: "byte list \<Rightarrow> pump \<Rightarrow> turn \<Rightarrow> pump" where
  "pump_turn name a t =
    (if \<not> running a then a
     else if poll_failed (poll t) then a\<lparr>conn_lost := True\<rparr>
     else if no_confirmation a t
     then (tty_raw_leave (onto a (By_Client (ascii ''agent-terminal: no confirmation from daemon for session '' @ quoted name @ [0x0a]))))\<lparr>returned := Some 1\<rparr>
     else let a = expire_chord a (t_chord t) in
       case poll t of
         Woken w k s \<Rightarrow>
           let a = (case w of None \<Rightarrow> a | Some w \<Rightarrow> winch a w);
               a = (case k of None \<Rightarrow> a | Some k \<Rightarrow> keyboard name (hist t) a k)
           in (case s of None \<Rightarrow> a | Some s \<Rightarrow> socket a s)
       | _ \<Rightarrow> idle_turn name a)"

text \<open>After the loop: the result is the exit status, or \<open>None\<close> to connect again.\<close>

definition goodbye :: "byte list \<Rightarrow> pump \<Rightarrow> byte list" where
  "goodbye name a =
    (if detached a then ascii ''[detached '' @ [0xe2, 0x80, 0x94] @ ascii '' session '' @ quoted name @ ascii '' keeps running]'' @ [0x0a]
     else if exited a then ascii ''[session '' @ quoted name @ ascii '' exited: '' @ dec_int (exit_code a) @ ascii '']'' @ [0x0a]
     else ascii ''[agent-terminal: connection lost, reconnecting'' @ [0xe2, 0x80, 0xa6, 0x5d, 0x0a])"

definition pump_end :: "byte list \<Rightarrow> pump \<Rightarrow> int option \<times> pump" where
  "pump_end name a = (case returned a of Some rc \<Rightarrow> (Some rc, a)
   | None \<Rightarrow> let a = (case pg a of Some p \<Rightarrow> drop_pager a p | None \<Rightarrow> a);
                 a = tty_raw_leave a
             in (if detached a then Some 0 else if exited a then Some (exit_code a) else None, onto a (By_Client (goodbye name a))))"

section \<open>Connecting again\<close>

definition pump_start :: "nat \<Rightarrow> nat \<Rightarrow> bool list \<Rightarrow> pump" where
  "pump_start c r ss = \<lparr>ch = chord_zero, pg = None, inb = ring_init 16384 0, detached = False, exited = False, conn_lost = False,
     exit_code = 0, stdin_gone = False, attached_ok = False, stdin_gone_at = 0, hist_lines = 0, active_pane = 0, tcols = c, trows = r,
     g_raw = False, sends = ss, sent = [], tape = [], returned = None\<rparr>"

record attempt =
  connects :: bool
  outcomes :: "bool list"
  is_tty :: bool
  attr_ok :: bool
  turns :: "turn list"

datatype outcome = Exits int | Attached_On

record attach_log =
  sleeps :: "nat list"
  links :: "pump list"

text \<open>\<open>argv\<close> is \<open>None\<close> for \<open>attach\<close>. A list of attempts that is used up, or turns that do not end the
  loop, mean that the client is still running.\<close>

fun attach_loop :: "byte list \<Rightarrow> byte list list option \<Rightarrow> bool \<Rightarrow> nat \<Rightarrow> nat \<Rightarrow> nat \<Rightarrow> attach_log \<Rightarrow> attempt list \<Rightarrow> outcome \<times> attach_log" where
  "attach_loop name argv first backoff c r l [] = (Attached_On, l)"
| "attach_loop name argv first backoff c r l (x # xs) =
    (if \<not> connects x
     then if first then (Exits 1, l)
          else if backoff > 4000 then (Exits 1, l)
          else attach_loop name argv first (backoff * 2) c r (l\<lparr>sleeps := sleeps l @ [backoff]\<rparr>) xs
     else let a = pump_start c r (outcomes x);
              (ok, a) = (case argv of Some av \<Rightarrow> if first then send_new name av a else send_attach name a | None \<Rightarrow> send_attach name a)
          in if \<not> ok then (Exits 1, l\<lparr>links := links l @ [a]\<rparr>)
             else case tty_raw_enter (is_tty x) (attr_ok x) a of
               (False, a) \<Rightarrow> (Exits 1, l\<lparr>links := links l @ [a]\<rparr>)
             | (True, a) \<Rightarrow>
                let a = foldl (pump_turn name) a (turns x) in
                if running a then (Attached_On, l\<lparr>links := links l @ [a]\<rparr>)
                else (case pump_end name a of (rc, a) \<Rightarrow>
                  let l = l\<lparr>links := links l @ [a]\<rparr>
                  in case rc of Some n \<Rightarrow> (Exits n, l) | None \<Rightarrow> attach_loop name argv False 250 (tcols a) (trows a) l xs))"

definition attach_run :: "byte list \<Rightarrow> byte list list option \<Rightarrow> (nat \<times> nat) option \<Rightarrow> attempt list \<Rightarrow> outcome \<times> attach_log" where
  "attach_run name argv sz xs =
    (case (case sz of None \<Rightarrow> (80, 24) | Some z \<Rightarrow> z) of (c, r) \<Rightarrow> attach_loop name argv True 250 c r \<lparr>sleeps = [], links = []\<rparr> xs)"

end
