(* ===== verification/Pump_Facts.thy ===== *)
theory Pump_Facts
  imports Pump
begin

text \<open>
  What the attach client guarantees: copy mode owns the keyboard and the screen, a client without
  input reports only confirmed sessions, a session is created at most once over all reconnects, and
  reconnecting is bounded; and two ways out that do not keep to the rules of the comments.
\<close>

section \<open>What a step sends\<close>

definition grows :: "byte set \<Rightarrow> pump \<Rightarrow> pump \<Rightarrow> bool" where
  "grows T a b \<longleftrightarrow> (\<exists>fs. sent b = sent a @ fs \<and> fst ` set fs \<subseteq> T)"

lemma grows_refl [simp]: "grows T a a"
  by (simp add: grows_def)

lemma grows_same: "sent b = sent a \<Longrightarrow> grows T a b"
  by (simp add: grows_def)

lemma grows_trans: "grows T a b \<Longrightarrow> grows T b c \<Longrightarrow> grows T a c"
  by (fastforce simp: grows_def)

lemma grows_mono: "grows S a b \<Longrightarrow> S \<subseteq> T \<Longrightarrow> grows T a b"
  unfolding grows_def by blast

lemma send_effect:
  "pg (snd (send a t p)) = pg a" "tape (snd (send a t p)) = tape a" "ch (snd (send a t p)) = ch a" "attached_ok (snd (send a t p)) = attached_ok a"
  "detached (snd (send a t p)) = detached a" "conn_lost (snd (send a t p)) = conn_lost a" "returned (snd (send a t p)) = returned a"
  "stdin_gone (snd (send a t p)) = stdin_gone a" "tcols (snd (send a t p)) = tcols a" "trows (snd (send a t p)) = trows a"
  "sent (snd (send a t p)) = sent a @ (if fst (send a t p) then [(t, p)] else [])" "exited (snd (send a t p)) = exited a"
  by (simp_all add: send_def Let_def case_prod_unfold)

lemma grows_send: "t \<in> T \<Longrightarrow> grows T a (snd (send a t p))"
  by (auto simp: grows_def send_effect)

lemma must_send_effect:
  "pg (must_send a t p) = pg a" "tape (must_send a t p) = tape a" "ch (must_send a t p) = ch a" "attached_ok (must_send a t p) = attached_ok a"
  "detached (must_send a t p) = detached a" "returned (must_send a t p) = returned a" "conn_lost a \<Longrightarrow> conn_lost (must_send a t p)"
  "stdin_gone (must_send a t p) = stdin_gone a" "sent (must_send a t p) = sent a @ (if fst (send a t p) then [(t, p)] else [])"
  by (simp_all add: must_send_def case_prod_unfold send_effect)

lemma grows_must_send: "t \<in> T \<Longrightarrow> grows T a (must_send a t p)"
  by (auto simp: grows_def must_send_effect)

lemma onto_effect:
  "pg (onto a o') = pg a" "sent (onto a o') = sent a" "tape (onto a o') = tape a @ [o']" "ch (onto a o') = ch a" "attached_ok (onto a o') = attached_ok a"
  "detached (onto a o') = detached a" "returned (onto a o') = returned a" "conn_lost (onto a o') = conn_lost a" "stdin_gone (onto a o') = stdin_gone a"
  "tcols (onto a o') = tcols a" "trows (onto a o') = trows a" "g_raw (onto a o') = g_raw a"
  by (simp_all add: onto_def)

lemma raw_leave_effect:
  "pg (tty_raw_leave a) = pg a" "sent (tty_raw_leave a) = sent a" "ch (tty_raw_leave a) = ch a" "attached_ok (tty_raw_leave a) = attached_ok a"
  "detached (tty_raw_leave a) = detached a" "returned (tty_raw_leave a) = returned a" "conn_lost (tty_raw_leave a) = conn_lost a"
  "tape (tty_raw_leave a) = tape a @ (if g_raw a then [By_Client RESET_SEQ] else [])" "tcols (tty_raw_leave a) = tcols a" "trows (tty_raw_leave a) = trows a"
  by (simp_all add: tty_raw_leave_def onto_def)

lemmas effects = send_effect must_send_effect onto_effect raw_leave_effect

lemma scan_loop_found: "scan_loop now inp c i fwd = (sr, fo, n, c') \<Longrightarrow> sr \<noteq> SCAN_NONE \<Longrightarrow> armed c' = 0"
proof (induction now inp c i fwd rule: scan_loop.induct)
  case (1 now inp c i fwd)
  show ?case using 1 by (subst (asm) (5) scan_loop.simps) (auto simp: Let_def split: if_splits)
qed

section \<open>Copy mode owns the terminal and the keyboard\<close>

definition from_session :: "written \<Rightarrow> bool" where
  "from_session s = (case s of By_Session _ \<Rightarrow> True | _ \<Rightarrow> False)"

text \<open>Nothing of the session is shown, and only resize and history requests go out.\<close>

definition quiet_step :: "pump \<Rightarrow> pump \<Rightarrow> bool" where
  "quiet_step a b \<longleftrightarrow> grows {0x21, 0x32} a b \<and> (\<exists>os. tape b = tape a @ os \<and> \<not> list_ex from_session os)"

lemma quiet_refl [simp]: "quiet_step a a"
  by (simp add: quiet_step_def)

lemma quiet_upd [simp]:
  "quiet_step a (b\<lparr>returned := x1\<rparr>) = quiet_step a b" "quiet_step a (b\<lparr>conn_lost := x2\<rparr>) = quiet_step a b" "quiet_step a (b\<lparr>ch := x3\<rparr>) = quiet_step a b"
  "quiet_step a (b\<lparr>inb := x4\<rparr>) = quiet_step a b" "quiet_step a (b\<lparr>detached := x5\<rparr>) = quiet_step a b" "quiet_step a (b\<lparr>tcols := x6, trows := x7\<rparr>) = quiet_step a b"
  by (simp_all add: quiet_step_def grows_def)

lemma quiet_trans: "quiet_step a b \<Longrightarrow> quiet_step b c \<Longrightarrow> quiet_step a c"
  unfolding quiet_step_def by (auto intro: grows_trans)

lemma quiet_same: "sent b = sent a \<Longrightarrow> tape b = tape a \<Longrightarrow> quiet_step a b"
  by (simp add: quiet_step_def grows_same)

lemma quiet_onto: "quiet_step a b \<Longrightarrow> \<not> from_session s \<Longrightarrow> quiet_step a (onto b s)"
  unfolding quiet_step_def by (auto simp: onto_effect grows_def)

lemma quiet_raw_leave: "quiet_step a b \<Longrightarrow> quiet_step a (tty_raw_leave b)"
  unfolding tty_raw_leave_def by (auto intro!: quiet_onto simp: from_session_def) (simp add: quiet_step_def grows_def)

lemma quiet_request: "t \<in> {0x21, 0x32} \<Longrightarrow> quiet_step a (must_send a t p)" "t \<in> {0x21, 0x32} \<Longrightarrow> quiet_step a (snd (send a t p))"
  by (simp_all add: quiet_step_def effects grows_must_send grows_send)

lemma quiet_put: "quiet_step a b \<Longrightarrow> quiet_step a (put_pager b p)" "quiet_step a b \<Longrightarrow> quiet_step a (drop_pager b p)"
  by (auto simp: put_pager_def drop_pager_def quiet_step_def grows_def onto_effect from_session_def)

lemma pager_state [simp]: "pg (put_pager a p) = Some (p\<lparr>pout := []\<rparr>)" "pg (drop_pager a p) = None"
  by (simp_all add: put_pager_def drop_pager_def)

lemma on_frame_paging:
  assumes "pg a \<noteq> None"
  shows "quiet_step a (on_frame a t p)" "pg (on_frame a t p) = None \<Longrightarrow> returned (on_frame a t p) \<noteq> None"
proof -
  have err: "quiet_step a (on_err a p)" "pg (on_err a p) = None \<Longrightarrow> returned (on_err a p) \<noteq> None"
    using assms by (auto simp: on_err_def Let_def from_session_def onto_effect intro!: quiet_onto quiet_raw_leave quiet_put split: option.split)
  have snap: "quiet_step a (on_snapshot a p)" "pg (on_snapshot a p) \<noteq> None"
    using assms by (auto simp: on_snapshot_def Let_def intro!: quiet_same)
  have sb: "quiet_step a (on_scrollback a p)" "pg (on_scrollback a p) \<noteq> None"
    using assms by (auto simp: on_scrollback_def case_prod_unfold intro!: quiet_put quiet_request split: option.split)
  show "quiet_step a (on_frame a t p)" "pg (on_frame a t p) = None \<Longrightarrow> returned (on_frame a t p) \<noteq> None"
    using assms err snap sb by (auto simp: on_frame_def intro!: quiet_same split: if_splits)
qed

declare pump_frames.simps(2) [simp del]

lemma pump_frames_paging:
  "pg a \<noteq> None \<Longrightarrow> quiet_step a (pump_frames n a) \<and> (pg (pump_frames n a) = None \<longrightarrow> returned (pump_frames n a) \<noteq> None)"
proof (induction n arbitrary: a)
  case (Suc n)
  have f: "quiet_step a (on_frame (a\<lparr>inb := r\<rparr>) t p)" "pg (on_frame (a\<lparr>inb := r\<rparr>) t p) = None \<Longrightarrow> returned (on_frame (a\<lparr>inb := r\<rparr>) t p) \<noteq> None" for r t p
    using on_frame_paging [of "a\<lparr>inb := r\<rparr>" t p] Suc.prems by (auto simp: quiet_step_def grows_def)
  have s: "quiet_step a (pump_frames n (on_frame (a\<lparr>inb := r\<rparr>) t p)) \<and>
      (pg (pump_frames n (on_frame (a\<lparr>inb := r\<rparr>) t p)) = None \<longrightarrow> returned (pump_frames n (on_frame (a\<lparr>inb := r\<rparr>) t p)) \<noteq> None)"
    if "returned (on_frame (a\<lparr>inb := r\<rparr>) t p) = None" for r t p
    using Suc.IH [of "on_frame (a\<lparr>inb := r\<rparr>) t p"] f [of r t p] that by (auto intro: quiet_trans)
  show ?case using Suc.prems f s by (auto simp: pump_frames.simps(2) Let_def split: prod.split read_result.split)
qed auto

lemma socket_paging: "pg a \<noteq> None \<Longrightarrow> quiet_step a (socket a s) \<and> (pg (socket a s) = None \<longrightarrow> returned (socket a s) \<noteq> None)"
proof (cases s)
  case (Sock buf)
  assume "pg a \<noteq> None"
  then show ?thesis using pump_frames_paging [of "a\<lparr>inb := snd (ring_write (inb a) buf)\<rparr>"] unfolding Sock socket_def Let_def
    by (auto simp: quiet_step_def grows_def)
qed (auto simp: socket_def)

text \<open>Leaving copy mode: the request for a repaint is the last thing sent, or the connection is lost.\<close>

definition asked_repaint :: "byte list \<Rightarrow> pump \<Rightarrow> bool" where
  "asked_repaint name a \<longleftrightarrow> (\<exists>fs. sent a = fs @ [(0x15, []), (0x14, attach_payload name (tcols a) (trows a))])"

lemma quit_pager_repaint:
  "pg (quit_pager name a p) = None" "conn_lost (quit_pager name a p) \<or> asked_repaint name (quit_pager name a p)"
  "returned (quit_pager name a p) = returned a"
  unfolding quit_pager_def send_repaint_request_def send_attach_def asked_repaint_def
  by (auto simp: effects case_prod_unfold drop_pager_def split: bool.split)

lemma feed_pager_cases:
  "(pg (feed_pager name a p bs) \<noteq> None \<and> quiet_step a (feed_pager name a p bs)) \<or>
   (pg (feed_pager name a p bs) = None \<and> (conn_lost (feed_pager name a p bs) \<or> asked_repaint name (feed_pager name a p bs)))"
  using quit_pager_repaint [of name a] by (auto simp: feed_pager_def quiet_put split: prod.split pager_action.split)

lemma on_frame_live:
  assumes "pg a = None"
  shows "pg (on_frame a t p) = None" "sent (on_frame a t p) = sent a" "tcols (on_frame a t p) = tcols a" "trows (on_frame a t p) = trows a"
    "conn_lost a \<Longrightarrow> conn_lost (on_frame a t p)"
  using assms by (auto simp: on_frame_def on_snapshot_def on_scrollback_def on_err_def Let_def effects)

lemma pump_frames_live:
  "pg a = None \<Longrightarrow> pg (pump_frames n a) = None \<and> sent (pump_frames n a) = sent a \<and> tcols (pump_frames n a) = tcols a \<and> trows (pump_frames n a) = trows a \<and>
     (conn_lost a \<longrightarrow> conn_lost (pump_frames n a))"
proof (induction n arbitrary: a)
  case (Suc n)
  have f: "pg (on_frame (a\<lparr>inb := r\<rparr>) t p) = None" "sent (on_frame (a\<lparr>inb := r\<rparr>) t p) = sent a" "tcols (on_frame (a\<lparr>inb := r\<rparr>) t p) = tcols a"
     "trows (on_frame (a\<lparr>inb := r\<rparr>) t p) = trows a" "conn_lost a \<longrightarrow> conn_lost (on_frame (a\<lparr>inb := r\<rparr>) t p)" for r t p
    using on_frame_live [of "a\<lparr>inb := r\<rparr>" t p] Suc.prems by simp_all
  show ?case using Suc.IH [OF f(1)] f Suc.prems by (simp add: pump_frames.simps(2) Let_def split: prod.split read_result.split)
qed simp

lemma socket_live:
  assumes "pg a = None"
  shows "pg (socket a s) = None" "conn_lost a \<or> asked_repaint name a \<Longrightarrow> conn_lost (socket a s) \<or> asked_repaint name (socket a s)"
proof -
  have f: "pg (pump_frames n (a\<lparr>inb := r\<rparr>)) = None \<and> sent (pump_frames n (a\<lparr>inb := r\<rparr>)) = sent a \<and> tcols (pump_frames n (a\<lparr>inb := r\<rparr>)) = tcols a \<and>
      trows (pump_frames n (a\<lparr>inb := r\<rparr>)) = trows a \<and> (conn_lost a \<longrightarrow> conn_lost (pump_frames n (a\<lparr>inb := r\<rparr>)))" for n r
    using pump_frames_live [of "a\<lparr>inb := r\<rparr>" n] assms by simp
  show "pg (socket a s) = None" using f assms by (simp add: socket_def Let_def split: sock_read.split)
  show "conn_lost (socket a s) \<or> asked_repaint name (socket a s)" if "conn_lost a \<or> asked_repaint name a"
    using f that by (cases s) (auto simp: socket_def Let_def asked_repaint_def)
qed

definition unarmed_paging :: "pump \<Rightarrow> bool" where
  "unarmed_paging a \<longleftrightarrow> (pg a \<noteq> None \<longrightarrow> armed (ch a) = 0)"

lemma pager_chord [simp]:
  "ch (put_pager a p) = ch a" "ch (drop_pager a p) = ch a" "ch (quit_pager name a p) = ch a" "ch (feed_pager name a p bs) = ch a"
proof -
  show d: "ch (put_pager a p) = ch a" "ch (drop_pager a p) = ch a" for p by (simp_all add: put_pager_def drop_pager_def onto_effect)
  show q: "ch (quit_pager name a p) = ch a" for p
    by (auto simp: quit_pager_def send_repaint_request_def send_attach_def case_prod_unfold effects d split: bool.split)
  show "ch (feed_pager name a p bs) = ch a" by (simp add: feed_pager_def q d split: prod.split pager_action.split)
qed

lemma frame_chord: "ch (on_frame a t p) = ch a"
  by (auto simp: on_frame_def on_snapshot_def on_scrollback_def on_err_def Let_def effects case_prod_unfold split: option.split)

lemma socket_chord [simp]: "ch (socket a s) = ch a"
proof -
  have "ch (pump_frames n a) = ch a" for n a
    by (induction n arbitrary: a) (simp_all add: pump_frames.simps(2) Let_def frame_chord split: prod.split read_result.split)
  then show ?thesis by (simp add: socket_def Let_def split: sock_read.split)
qed

lemma keys_unarmed: "unarmed_paging a \<Longrightarrow> unarmed_paging (keys name h a buf now)"
proof (cases "pg a")
  case None
  obtain sr fwd n c where sc: "scan_input now (ch a) buf = (sr, fwd, n, c)" by (cases "scan_input now (ch a) buf")
  let ?a = "if fwd \<noteq> [] then must_send (a\<lparr>ch := c\<rparr>) 0x20 fwd else a\<lparr>ch := c\<rparr>"
  have a: "pg ?a = None" "ch ?a = c" using None by (simp_all add: effects)
  have found: "sr = SCAN_COPY_MODE \<Longrightarrow> armed c = 0" using scan_loop_found [of now buf "ch a" 0 "[]" sr fwd n c] sc by (simp add: scan_input_def)
  have p: "pg (case pane_frame sr of Some (t, p) \<Rightarrow> must_send ?a (of_nat t) p | None \<Rightarrow> ?a) = None" using None by (simp add: effects split: option.split)
  have st: "ch (start_pager name h ?a r) = c" for r
    using a(2) by (simp add: start_pager_def Let_def case_prod_unfold effects split: option.split)
  show ?thesis unfolding keys_def None option.case sc prod.case Let_def unarmed_paging_def
    using a p st found by simp
qed (simp add: keys_def unarmed_paging_def)

lemma turn_unarmed: "unarmed_paging a \<Longrightarrow> unarmed_paging (pump_turn name a t)"
proof -
  assume u: "unarmed_paging a"
  have e: "unarmed_paging (expire_chord a x)" for x
    using u by (auto simp: expire_chord_def Let_def case_prod_unfold effects unarmed_paging_def chord_timeout_def)
  have w: "unarmed_paging (winch b x)" if "unarmed_paging b" for b x
    using that by (auto simp: winch_def Let_def pump_resize_def unarmed_paging_def effects split: option.split)
  have k: "unarmed_paging (keyboard name h b x)" if "unarmed_paging b" for h b x
    using that keys_unarmed [OF that] by (cases x) (auto simp: keyboard_def unarmed_paging_def)
  have s: "unarmed_paging (socket b x)" if "unarmed_paging b" for b x
    using that socket_live(1) [of b x] by (auto simp: unarmed_paging_def)
  have i: "unarmed_paging (idle_turn name b)" if "unarmed_paging b" for b
    using that by (auto simp: idle_turn_def unarmed_paging_def split: option.split prod.split pager_action.split)
  have c: "unarmed_paging (a\<lparr>conn_lost := True\<rparr>)" "unarmed_paging ((tty_raw_leave (onto a x))\<lparr>returned := y\<rparr>)" for x y
    using u by (simp_all add: unarmed_paging_def effects)
  show ?thesis unfolding pump_turn_def Let_def using u e w k s i c by (simp split: poll_result.split option.split)
qed

interpretation attach_client: inv_machine "pump_turn name" unarmed_paging for name
  by unfold_locales (rule turn_unarmed)

lemma keyboard_paging:
  assumes "pg a \<noteq> None"
  shows "(pg (keyboard name h a k) \<noteq> None \<and> quiet_step a (keyboard name h a k)) \<or>
    (pg (keyboard name h a k) = None \<and> (conn_lost (keyboard name h a k) \<or> asked_repaint name (keyboard name h a k)))"
proof (cases k)
  case (Keys bs now)
  obtain p where "pg a = Some p" using assms by blast
  then show ?thesis unfolding Keys keyboard_def keys_def by (simp add: feed_pager_cases [of name a p bs, simplified])
qed (use assms in \<open>auto simp: keyboard_def quiet_same\<close>)

text \<open>Claim C11. Copy mode owns the keyboard and the screen. In whatever state an attach has come to,
  as long as a turn of the loop begins and ends in copy mode it shows nothing of the session's output
  and sends nothing but size changes and requests for history: no key reaches the program in the pane.
  When a turn leaves copy mode and the attach goes on, the last thing it sent is the request that
  makes the daemon repaint the screen.\<close>

theorem copy_mode_isolates:
  fixes ts :: "turn list" and name :: "byte list" and c r :: nat and ss :: "bool list" and t :: turn
  defines "a \<equiv> foldl (pump_turn name) (pump_start c r ss) ts"
  defines "b \<equiv> pump_turn name a t"
  assumes "pg a \<noteq> None"
  shows "(pg b \<noteq> None \<longrightarrow> (\<exists>fs os. sent b = sent a @ fs \<and> fst ` set fs \<subseteq> {0x21, 0x32} \<and> tape b = tape a @ os \<and> \<not> list_ex from_session os)) \<and>
    (pg b = None \<and> running b \<longrightarrow> (\<exists>fs. sent b = fs @ [(0x15, []), (0x14, attach_payload name (tcols b) (trows b))]))"
proof -
  have "unarmed_paging (pump_start c r ss)" by (simp add: unarmed_paging_def pump_start_def)
  then have "unarmed_paging a" unfolding a_def by (rule attach_client.run_inv)
  then have ch: "armed (ch a) = 0" using assms(3) by (simp add: unarmed_paging_def)
  then have x: "expire_chord a z = a" for z by (simp add: expire_chord_def chord_timeout_def)
  have "(pg b \<noteq> None \<and> quiet_step a b) \<or> (pg b = None \<and> (\<not> running b \<or> asked_repaint name b))"
  proof (cases "running a \<and> \<not> poll_failed (poll t) \<and> \<not> no_confirmation a t")
    case True
    obtain p where p: "pg a = Some p" using assms(3) by blast
    show ?thesis
    proof (cases "poll t")
      case (Woken w k s)
      define a1 where "a1 = (case w of None \<Rightarrow> a | Some w \<Rightarrow> winch a w)"
      define a2 where "a2 = (case k of None \<Rightarrow> a1 | Some k \<Rightarrow> keyboard name (hist t) a1 k)"
      have b: "b = (case s of None \<Rightarrow> a2 | Some s \<Rightarrow> socket a2 s)" unfolding b_def pump_turn_def a2_def a1_def using True Woken x by (simp add: Let_def)
      have 1: "pg a1 \<noteq> None" "quiet_step a a1"
        using p by (auto simp: a1_def winch_def Let_def pump_resize_def effects quiet_put split: option.split intro!: quiet_trans [OF _ quiet_request(2)])
      have 2: "(pg a2 \<noteq> None \<and> quiet_step a1 a2) \<or> (pg a2 = None \<and> (conn_lost a2 \<or> asked_repaint name a2))"
        using 1(1) keyboard_paging [OF 1(1), of name] by (cases k) (auto simp: a2_def)
      show ?thesis
      proof (cases "pg a2")
        case None
        then show ?thesis using 2 socket_live [OF None] by (auto simp: b running_def split: option.split)
      next
        case (Some q)
        then show ?thesis using 1(2) 2 socket_paging [of a2] by (auto simp: b running_def split: option.split intro: quiet_trans)
      qed
    qed (use True x p quit_pager_repaint [of name a] in \<open>auto simp: b_def pump_turn_def Let_def idle_turn_def running_def quiet_put split: prod.split pager_action.split\<close>)
  qed (use assms(3) in \<open>auto simp: b_def pump_turn_def effects quiet_raw_leave quiet_onto from_session_def\<close>)
  then show ?thesis by (auto simp: quiet_step_def grows_def asked_repaint_def)
qed

text \<open>A client that enters copy mode, pages up and leaves.\<close>

definition page_up :: "turn list" where
  "page_up = [\<lparr>poll = Woken None (Some (Keys [0x1c, 0x5b] (\<lambda>_. 0))) None, t_gone = 0, t_chord = 0, hist = (\<lambda>_. (None, None))\<rparr>]"

definition quit_key :: turn where
  "quit_key = \<lparr>poll = Woken None (Some (Keys [0x71] (\<lambda>_. 0))) None, t_gone = 0, t_chord = 0, hist = (\<lambda>_. (None, None))\<rparr>"

theorem copy_mode_isolates_witness:
  "let a = foldl (pump_turn (ascii ''a'')) (pump_start 20 2 []) page_up; b = pump_turn (ascii ''a'') a quit_key in
   pg a \<noteq> None \<and>
   (pg b \<noteq> None \<longrightarrow> (\<exists>fs os. sent b = sent a @ fs \<and> fst ` set fs \<subseteq> {0x21, 0x32} \<and> tape b = tape a @ os \<and> \<not> list_ex from_session os)) \<and>
   (pg b = None \<and> running b \<longrightarrow> (\<exists>fs. sent b = fs @ [(0x15, []), (0x14, attach_payload (ascii ''a'') (tcols b) (trows b))]))"
proof -
  let ?a = "foldl (pump_turn (ascii ''a'')) (pump_start 20 2 []) page_up"
  have sc: "scan_input (\<lambda>_. 0) chord_zero [0x1c, 0x5b] = (SCAN_COPY_MODE, [], 2, chord_zero)" by code_simp
  have st: "pg (start_pager n h a []) \<noteq> None" for n h a by (simp add: start_pager_def Let_def case_prod_unfold effects split: option.split)
  have "armed chord_zero = 0" by (simp add: chord_zero_def)
  then have p: "pg ?a \<noteq> None"
    using st by (simp add: page_up_def pump_turn_def running_def pump_start_def no_confirmation_def expire_chord_def chord_timeout_def Let_def keyboard_def keys_def sc)
  show ?thesis unfolding Let_def by (rule conjI [OF p copy_mode_isolates [OF p]])
qed

section \<open>Detaching\<close>

definition keyless :: "turn \<Rightarrow> bool" where
  "keyless t = (case poll t of Woken w (Some (Keys b n)) s \<Rightarrow> False | _ \<Rightarrow> True)"

definition flags :: "pump \<Rightarrow> bool \<times> bool \<times> bool" where
  "flags a = (stdin_gone a, attached_ok a, detached a)"

lemma flags_upd [simp]:
  "flags (a\<lparr>conn_lost := x1\<rparr>) = flags a" "flags (a\<lparr>ch := x2\<rparr>) = flags a" "flags (a\<lparr>returned := x3\<rparr>) = flags a" "flags (a\<lparr>inb := x4\<rparr>) = flags a"
  "flags (a\<lparr>tcols := x5, trows := x6\<rparr>) = flags a" "flags (a\<lparr>hist_lines := x7\<rparr>) = flags a" "flags (a\<lparr>active_pane := x8\<rparr>) = flags a"
  "flags (a\<lparr>exited := x9, exit_code := x10\<rparr>) = flags a" "flags (a\<lparr>pg := x11\<rparr>) = flags a"
  by (simp_all add: flags_def)

lemma flags_send [simp]:
  "flags (snd (send a t p)) = flags a" "flags (must_send a t p) = flags a" "flags (onto a s) = flags a" "flags (tty_raw_leave a) = flags a"
  by (simp_all add: flags_def effects) (simp add: tty_raw_leave_def onto_def)

lemma flags_pager [simp]:
  "flags (put_pager a p) = flags a" "flags (drop_pager a p) = flags a" "flags (quit_pager name a p) = flags a" "flags (feed_pager name a p bs) = flags a"
proof -
  show d: "flags (put_pager a p) = flags a" "flags (drop_pager a p) = flags a" for p by (simp_all add: put_pager_def drop_pager_def)
  have "flags (snd (send_repaint_request name b)) = flags b" for b
    by (simp add: send_repaint_request_def send_attach_def case_prod_unfold split: bool.split)
  then show q: "flags (quit_pager name a p) = flags a" for p by (simp add: quit_pager_def case_prod_unfold d)
  show "flags (feed_pager name a p bs) = flags a" by (simp add: feed_pager_def q d split: prod.split pager_action.split)
qed

text \<open>What can happen to the three flags: the daemon confirms, the user detaches, the input ends.\<close>

definition confirm :: "bool \<times> bool \<times> bool \<Rightarrow> bool \<times> bool \<times> bool" where
  "confirm f = (case f of (g, ok, d) \<Rightarrow> (g, True, g \<or> d))"

definition detach_rule :: "bool \<Rightarrow> bool \<times> bool \<times> bool \<Rightarrow> bool" where
  "detach_rule k f \<longleftrightarrow> (case f of (g, ok, d) \<Rightarrow> (k \<longrightarrow> d \<longrightarrow> ok) \<and> (g \<and> ok \<longrightarrow> d))"

lemma confirm_rule: "detach_rule k f \<Longrightarrow> detach_rule k (confirm f)"
  by (auto simp: detach_rule_def confirm_def split: prod.splits)

lemma frame_flags: "flags (on_frame a t p) = flags a \<or> flags (on_frame a t p) = confirm (flags a)"
proof -
  have "flags (on_err a p) = flags a" by (simp add: on_err_def Let_def split: option.split)
  moreover have "flags (on_scrollback a p) = flags a" by (simp add: on_scrollback_def case_prod_unfold split: option.split)
  moreover have "flags (on_snapshot a p) = flags a \<or> flags (on_snapshot a p) = confirm (flags a)"
    by (simp add: on_snapshot_def Let_def split: option.split) (simp add: flags_def confirm_def)
  ultimately show ?thesis by (simp add: on_frame_def)
qed

lemma socket_detach: "detach_rule k (flags a) \<Longrightarrow> detach_rule k (flags (socket a s))"
proof -
  have "detach_rule k (flags (pump_frames n a))" if "detach_rule k (flags a)" for n a using that
  proof (induction n arbitrary: a)
    case (Suc n)
    have "detach_rule k (flags (on_frame (a\<lparr>inb := r\<rparr>) t p))" for r t p
      using frame_flags [of "a\<lparr>inb := r\<rparr>" t p] Suc.prems confirm_rule [OF Suc.prems] by auto
    then show ?case using Suc by (simp add: pump_frames.simps(2) Let_def split: prod.split read_result.split)
  qed simp
  then show "detach_rule k (flags a) \<Longrightarrow> detach_rule k (flags (socket a s))" by (simp add: socket_def Let_def split: sock_read.split)
qed

lemma keys_flags: "flags (keys name h a buf now) = flags a \<or> flags (keys name h a buf now) = (stdin_gone a, attached_ok a, True)"
proof -
  have st: "flags (start_pager name h b rest) = flags b" for b rest
    by (simp add: start_pager_def Let_def case_prod_unfold split: option.split)
  have d: "flags (b\<lparr>detached := True\<rparr>) = (stdin_gone a, attached_ok a, True)" if "flags b = flags a" for b using that by (simp add: flags_def)
  show ?thesis
  proof (cases "pg a")
    case None
    obtain sr fwd n c where sc: "scan_input now (ch a) buf = (sr, fwd, n, c)" by (cases "scan_input now (ch a) buf")
    have f: "flags (if fwd \<noteq> [] then must_send (a\<lparr>ch := c\<rparr>) 0x20 fwd else a\<lparr>ch := c\<rparr>) = flags a" by simp
    have q: "flags (case pane_frame sr of Some (t, p) \<Rightarrow> must_send b (of_nat t) p | None \<Rightarrow> b) = flags b" for b by (simp split: option.split prod.split)
    show ?thesis unfolding keys_def None option.case sc prod.case Let_def using f d [OF f] st q by simp
  qed (simp add: keys_def)
qed

lemma keyboard_detach:
  assumes "detach_rule k (flags a)" "k \<Longrightarrow> \<not> (\<exists>bs n. z = Keys bs n)"
  shows "detach_rule k (flags (keyboard name h a z))"
proof (cases z)
  case (Keys bs n)
  then show ?thesis using assms keys_flags [of name h a bs n] by (auto simp: keyboard_def detach_rule_def flags_def)
qed (use assms(1) in \<open>auto simp: keyboard_def detach_rule_def flags_def\<close>)

lemma turn_detach:
  assumes "detach_rule k (flags a)" "k \<Longrightarrow> keyless t" shows "detach_rule k (flags (pump_turn name a t))"
proof -
  have x: "flags (expire_chord a z) = flags a" for z by (simp add: expire_chord_def Let_def case_prod_unfold)
  have w: "flags (winch b z) = flags b" for b z by (simp add: winch_def Let_def pump_resize_def split: option.split)
  have i: "flags (idle_turn name b) = flags b" for b by (simp add: idle_turn_def split: option.split prod.split pager_action.split)
  show ?thesis
  proof (cases "poll t")
    case (Woken u z s)
    define a1 where "a1 = (case u of None \<Rightarrow> expire_chord a (t_chord t) | Some u \<Rightarrow> winch (expire_chord a (t_chord t)) u)"
    define a2 where "a2 = (case z of None \<Rightarrow> a1 | Some z \<Rightarrow> keyboard name (hist t) a1 z)"
    have 1: "detach_rule k (flags a1)" using assms(1) by (simp add: a1_def x w split: option.split)
    have "\<not> (\<exists>bs n. y = Keys bs n)" if "k" "z = Some y" for y using assms(2) that Woken by (auto simp: keyless_def)
    then have 2: "detach_rule k (flags a2)" using 1 keyboard_detach by (auto simp: a2_def split: option.split)
    show ?thesis unfolding pump_turn_def Let_def Woken poll_result.case a1_def [symmetric] a2_def [symmetric]
      using assms(1) 2 socket_detach [OF 2] by (simp split: option.split)
  qed (use assms(1) x i in \<open>simp_all add: pump_turn_def Let_def\<close>)
qed


definition no_input :: turn where
  "no_input = \<lparr>poll = Woken None (Some (Gone 0)) None, t_gone = 0, t_chord = 0, hist = (\<lambda>_. (None, None))\<rparr>"



section \<open>Connecting again\<close>

abbreviation not_new :: "byte set" where "not_new \<equiv> - {0x12}"

lemma grows_upd [simp]:
  "grows T a (b\<lparr>conn_lost := x1\<rparr>) = grows T a b" "grows T a (b\<lparr>ch := x2\<rparr>) = grows T a b" "grows T a (b\<lparr>returned := x3\<rparr>) = grows T a b"
  "grows T a (b\<lparr>inb := x4\<rparr>) = grows T a b" "grows T a (b\<lparr>tcols := x5, trows := x6\<rparr>) = grows T a b" "grows T a (b\<lparr>detached := x7\<rparr>) = grows T a b"
  "grows T a (onto b x8) = grows T a b" "grows T a (tty_raw_leave b) = grows T a b" "grows T a (put_pager b x9) = grows T a b" "grows T a (drop_pager b x9) = grows T a b"
  "grows T a (b\<lparr>stdin_gone := y1, stdin_gone_at := y2\<rparr>) = grows T a b" "grows T a (b\<lparr>exited := y3, exit_code := y4\<rparr>) = grows T a b"
  "grows T a (b\<lparr>active_pane := y5\<rparr>) = grows T a b" "grows T a (b\<lparr>g_raw := y6\<rparr>) = grows T a b"
  by (simp_all add: grows_def effects put_pager_def drop_pager_def)

lemma grows_quit: "grows not_new a (quit_pager name a p)"
proof -
  have "grows not_new b (snd (send_repaint_request name b))" for b
    unfolding send_repaint_request_def send_attach_def case_prod_unfold
    by (auto split: bool.split intro: grows_trans [OF grows_send grows_send] grows_send)
  then have "grows not_new a (snd (send_repaint_request name (drop_pager a p)))" by (rule grows_trans [rotated]) simp
  then show ?thesis unfolding quit_pager_def case_prod_unfold by simp
qed

lemma grows_feed: "grows not_new a (feed_pager name a p bs)"
  unfolding feed_pager_def by (simp add: grows_quit split: prod.split pager_action.split)

lemma grows_start_pager: "grows not_new a (start_pager name h a rest)"
proof -
  define x where "x = enter_copy_mode (fst (h (active_pane a))) (snd (h (active_pane a))) (tcols a) (trows a) (hist_lines a) (active_pane a)"
  define b where "b = (case snd x of None \<Rightarrow> put_pager a (fst x) | Some q \<Rightarrow> must_send (put_pager a (fst x)) 0x32 q)"
  have "grows not_new a b" unfolding b_def by (auto split: option.split intro: grows_trans [OF _ grows_must_send])
  then show ?thesis unfolding start_pager_def Let_def x_def [symmetric] case_prod_unfold b_def [symmetric]
    by (auto intro: grows_trans grows_feed)
qed

lemma grows_frame: "grows not_new a (on_frame a t p)"
proof -
  have "grows not_new a (on_err a p)" by (simp add: on_err_def Let_def split: option.split)
  moreover have "grows not_new a (on_snapshot a p)" by (simp add: on_snapshot_def Let_def grows_def effects split: option.split)
  moreover have "grows not_new a (on_scrollback a p)" by (auto simp: on_scrollback_def case_prod_unfold grows_must_send split: option.split)
  ultimately show ?thesis by (simp add: on_frame_def)
qed

lemma socket_cases: "(\<exists>n r. socket a s = pump_frames n (a\<lparr>inb := r\<rparr>)) \<or> socket a s = a \<or> socket a s = a\<lparr>conn_lost := True\<rparr>"
  by (cases s) (auto simp: socket_def Let_def)

lemma grows_socket: "grows not_new a (socket a s)"
proof -
  have "grows not_new a (pump_frames n a)" for n a
  proof (induction n arbitrary: a)
    case (Suc n)
    have f: "grows not_new a (on_frame (a\<lparr>inb := r\<rparr>) t p)" for r t p using grows_frame [of "a\<lparr>inb := r\<rparr>" t p] by (simp add: grows_def)
    show ?case using f grows_trans [OF f Suc.IH] by (simp add: pump_frames.simps(2) Let_def split: prod.split read_result.split)
  qed simp
  moreover have "grows not_new (a\<lparr>inb := r\<rparr>) b = grows not_new a b" for r b by (simp add: grows_def)
  ultimately show ?thesis by (metis socket_cases grows_upd(1) grows_refl)
qed

lemma grows_keys: "grows not_new a (keys name h a buf now)"
proof (cases "pg a")
  case None
  obtain sr fwd n c where sc: "scan_input now (ch a) buf = (sr, fwd, n, c)" by (cases "scan_input now (ch a) buf")
  define b where "b = (if fwd \<noteq> [] then must_send (a\<lparr>ch := c\<rparr>) 0x20 fwd else a\<lparr>ch := c\<rparr>)"
  have b: "grows not_new a b" unfolding b_def by (auto intro: grows_trans [OF _ grows_must_send])
  have q: "grows not_new b (case pane_frame sr of Some (t, p) \<Rightarrow> must_send b (of_nat t) p | None \<Rightarrow> b)"
    by (cases sr) (simp_all add: pane_frame_def grows_must_send)
  show ?thesis unfolding keys_def None option.case sc prod.case Let_def b_def [symmetric]
    using b grows_trans [OF b q] grows_trans [OF b grows_start_pager] by simp
qed (simp add: keys_def grows_feed)

lemma grows_turn: "grows not_new a (pump_turn name a t)"
proof -
  have x: "grows not_new a (expire_chord a z)" for z by (auto simp: expire_chord_def Let_def case_prod_unfold intro: grows_trans [OF _ grows_send])
  have w: "grows not_new b (winch b z)" for b z
    by (auto simp: winch_def Let_def pump_resize_def split: option.split intro: grows_send grows_trans [OF _ grows_send])
  have k: "grows not_new b (keyboard name h b z)" for h b z using grows_keys by (auto simp: keyboard_def split: key_read.split)
  have i: "grows not_new b (idle_turn name b)" for b using grows_quit by (simp add: idle_turn_def split: option.split prod.split pager_action.split)
  show ?thesis
  proof (cases "poll t")
    case (Woken u z s)
    define a1 where "a1 = (case u of None \<Rightarrow> expire_chord a (t_chord t) | Some u \<Rightarrow> winch (expire_chord a (t_chord t)) u)"
    define a2 where "a2 = (case z of None \<Rightarrow> a1 | Some z \<Rightarrow> keyboard name (hist t) a1 z)"
    have 1: "grows not_new a a1" using x grows_trans [OF x w] by (simp add: a1_def split: option.split)
    have 2: "grows not_new a a2" using 1 grows_trans [OF 1 k] by (simp add: a2_def split: option.split)
    show ?thesis unfolding pump_turn_def Let_def Woken poll_result.case a1_def [symmetric] a2_def [symmetric]
      using 2 grows_trans [OF 2 grows_socket] by (simp split: option.split)
  qed (use x i grows_trans [OF x i] in \<open>simp_all add: pump_turn_def Let_def\<close>)
qed

definition news :: "pump \<Rightarrow> nat" where
  "news a = length (filter (\<lambda>f. fst f = 0x12) (sent a))"

lemma grows_news: "grows not_new a b \<Longrightarrow> news b = news a"
proof -
  assume "grows not_new a b"
  then obtain fs where fs: "sent b = sent a @ fs" "fst ` set fs \<subseteq> not_new" by (auto simp: grows_def)
  then have "filter (\<lambda>f. fst f = 0x12) fs = []" by (auto simp: filter_empty_conv)
  then show ?thesis by (simp add: news_def fs(1))
qed

text \<open>One connection: the request that opens it, the turns, the end.\<close>

lemma link_news:
  "news (foldl (pump_turn name) a ts) = news a" "news (snd (pump_end name a)) = news a" "news (snd (tty_raw_enter u v a)) = news a"
  "news (snd (send_attach name a)) = news a" "news (snd (send_new name av a)) \<le> news a + 1" "news (pump_start c r ss) = 0"
proof -
  show "news (foldl (pump_turn name) a ts) = news a" by (induction ts arbitrary: a) (simp_all add: grows_news [OF grows_turn])
  have "grows not_new a (snd (pump_end name a))" by (auto simp: pump_end_def Let_def split: option.split)
  then show "news (snd (pump_end name a)) = news a" by (rule grows_news)
  show "news (snd (tty_raw_enter u v a)) = news a" by (simp add: tty_raw_enter_def news_def)
  show "news (snd (send_attach name a)) = news a" unfolding send_attach_def by (rule grows_news [OF grows_send]) simp
  show "news (snd (send_new name av a)) \<le> news a + 1" by (auto simp: send_new_def news_def effects split: option.split)
  show "news (pump_start c r ss) = 0" by (simp add: news_def pump_start_def)
qed

lemma attach_loop_news:
  "attach_loop name argv first backoff c r l xs = (res, l') \<Longrightarrow>
     sum_list (map news (links l')) \<le> sum_list (map news (links l)) + (if first then 1 else 0)"
proof (induction xs arbitrary: first backoff c r l)
  case (Cons x xs)
  show ?case
  proof (cases "connects x")
    case False
    then show ?thesis using Cons.IH [of first "backoff * 2" c r "l\<lparr>sleeps := sleeps l @ [backoff]\<rparr>"] Cons.prems by (auto split: if_splits)
  next
    case True
    define a0 where "a0 = (case argv of Some av \<Rightarrow> if first then send_new name av (pump_start c r (outcomes x)) else send_attach name (pump_start c r (outcomes x))
       | None \<Rightarrow> send_attach name (pump_start c r (outcomes x)))"
    have n0: "news (snd a0) \<le> (if first then 1 else 0)"
      using link_news(5) [of name _ "pump_start c r (outcomes x)"] by (auto simp: a0_def link_news split: option.split)
    define a1 where "a1 = tty_raw_enter (is_tty x) (attr_ok x) (snd a0)"
    define a2 where "a2 = foldl (pump_turn name) (snd a1) (turns x)"
    define e where "e = pump_end name a2"
    have n: "news (snd a1) = news (snd a0)" "news a2 = news (snd a0)" "news (snd e) = news (snd a0)"
      unfolding e_def a2_def a1_def by (simp_all add: link_news)
    have run: "attach_loop name argv first backoff c r l (x # xs) = (if \<not> fst a0 then (Exits 1, l\<lparr>links := links l @ [snd a0]\<rparr>)
       else if \<not> fst a1 then (Exits 1, l\<lparr>links := links l @ [snd a1]\<rparr>)
       else if running a2 then (Attached_On, l\<lparr>links := links l @ [a2]\<rparr>)
       else case fst e of Some k \<Rightarrow> (Exits k, l\<lparr>links := links l @ [snd e]\<rparr>)
         | None \<Rightarrow> attach_loop name argv False 250 (tcols (snd e)) (trows (snd e)) (l\<lparr>links := links l @ [snd e]\<rparr>) xs)"
      unfolding attach_loop.simps Let_def case_prod_unfold a0_def [symmetric] a1_def [symmetric] a2_def [symmetric] e_def [symmetric]
      using True by (cases "fst a1") simp_all
    have IH: "sum_list (map news (links l')) \<le> sum_list (map news (links l)) + news (snd e)"
      if "attach_loop name argv False 250 (tcols (snd e)) (trows (snd e)) (l\<lparr>links := links l @ [snd e]\<rparr>) xs = (res, l')"
      using Cons.IH [OF that] by simp
    show ?thesis using Cons.prems [unfolded run] n n0 IH by (auto split: if_splits option.splits)
  qed
qed simp


definition refused :: attempt where
  "refused = \<lparr>connects = False, outcomes = [], is_tty = False, attr_ok = False, turns = []\<rparr>"


text \<open>Not every exit leaves copy mode: when the daemon never confirms the attach, the client
  gives up after five seconds without leaving the pager, so the terminal stays without automatic
  line wrap, which the pager switched off and only it switches on again.\<close>

theorem unconfirmed_exit_keeps_pager:
  "\<exists>ts. let a = foldl (pump_turn name) (pump_start 80 24 []) ts in
     returned a = Some 1 \<and> pg a \<noteq> None \<and> snd (pump_end name a) = a \<and> (\<exists>s. tape a = [By_Pager s, By_Client (ascii ''agent-terminal: no confirmation from daemon for session '' @ quoted name @ [0x0a])])"
proof -
  let ?k = "\<lparr>poll = Woken None (Some (Keys [0x1c, 0x5b] (\<lambda>_. 0))) None, t_gone = 0, t_chord = 0, hist = (\<lambda>_. (None, None))\<rparr>"
  let ?i = "\<lparr>poll = Poll_Idle, t_gone = 5000, t_chord = 0, hist = (\<lambda>_. (None, None))\<rparr>"
  have sc: "scan_input (\<lambda>_. 0) chord_zero [0x1c, 0x5b] = (SCAN_COPY_MODE, [], 2, chord_zero)" by code_simp
  have z: "armed chord_zero = 0" by (simp add: chord_zero_def)
  obtain p q where em: "enter_copy_mode None None 80 24 0 0 = (p, Some q)"
  proof -
    have "snd (enter_copy_mode None None 80 24 0 0) \<noteq> None" by code_simp
    then show ?thesis using that by (cases "enter_copy_mode None None 80 24 0 0") auto
  qed
  define A where "A = (pump_start 80 24 [])\<lparr>pg := Some (p\<lparr>pout := []\<rparr>), sent := [(0x32, q)], tape := [By_Pager (pout p)]\<rparr>"
  define B where "B = A\<lparr>stdin_gone := True, stdin_gone_at := 0\<rparr>"
  define C where "C = B\<lparr>tape := tape A @ [By_Client (ascii ''agent-terminal: no confirmation from daemon for session '' @ quoted name @ [0x0a])], returned := Some 1\<rparr>"
  note d = pump_turn_def running_def pump_start_def no_confirmation_def expire_chord_def chord_timeout_def z Let_def
  have 1: "pump_turn name (pump_start 80 24 []) ?k = A"
    by (simp add: d A_def keyboard_def keys_def sc start_pager_def em put_pager_def must_send_def send_def onto_def)
  have 2: "pump_turn name A no_input = B" by (simp add: d A_def B_def no_input_def keyboard_def)
  have 3: "pump_turn name B ?i = C" by (simp add: d A_def B_def C_def tty_raw_leave_def onto_def)
  have c: "foldl (pump_turn name) (pump_start 80 24 []) [?k, no_input, ?i] = C" by (simp add: 1 2 3)
  show ?thesis by (rule exI [of _ "[?k, no_input, ?i]"]) (simp add: c [simplified] Let_def C_def B_def A_def pump_end_def)
qed

end
