(* ===== verification/Attach.thy ===== *)
theory Attach
  imports Server
begin

text \<open>
  Who is attached to what. A client names a session by an index into the static table, and the
  table is reused: a stale index would let a client of a dead session type into another one. The
  invariant \<open>att_ok\<close> says that the two sides agree: every entry of a session's client table is a
  live client attached to that session, every attached client is in the table of a live session,
  and the table of a free slot is empty.
\<close>

section \<open>The invariant\<close>

definition tables_ok :: "daemon \<Rightarrow> bool" where
  "tables_ok d \<longleftrightarrow> length (sessions d) = MAX_SESSIONS \<and> length (clients d) = MAX_CLIENTS \<and>
     (\<forall>x\<in>set (sessions d). length (ss_clients x) = MAX_CLIENTS_PER_SESSION \<and> length (ss_panes x) = MAX_PANES_PER_SESSION)"

text \<open>\<open>att_but C d\<close> leaves out the clients in \<open>C\<close>: they may be attached without being in a table.\<close>

definition att_but :: "nat set \<Rightarrow> daemon \<Rightarrow> bool" where
  "att_but C d \<longleftrightarrow> tables_ok d \<and>
     (\<forall>s<MAX_SESSIONS. \<forall>c. Some c \<in> set (ss_clients (sess d s)) \<longrightarrow>
        ss_use (sess d s) \<and> c < MAX_CLIENTS \<and> cl_use (cli d c) \<and> attached (cli d c) = Some s) \<and>
     (\<forall>c<MAX_CLIENTS. \<forall>s. cl_use (cli d c) \<longrightarrow> attached (cli d c) = Some s \<longrightarrow>
        s < MAX_SESSIONS \<and> (c \<in> C \<or> ss_use (sess d s) \<and> Some c \<in> set (ss_clients (sess d s))))"

abbreviation att_ok :: "daemon \<Rightarrow> bool" where "att_ok \<equiv> att_but {}"

lemma att_butI:
  assumes "tables_ok d"
    and "\<And>s c. s < MAX_SESSIONS \<Longrightarrow> Some c \<in> set (ss_clients (sess d s)) \<Longrightarrow>
        ss_use (sess d s) \<and> c < MAX_CLIENTS \<and> cl_use (cli d c) \<and> attached (cli d c) = Some s"
    and "\<And>c s. c < MAX_CLIENTS \<Longrightarrow> cl_use (cli d c) \<Longrightarrow> attached (cli d c) = Some s \<Longrightarrow>
        s < MAX_SESSIONS \<and> (c \<in> C \<or> ss_use (sess d s) \<and> Some c \<in> set (ss_clients (sess d s)))"
  shows "att_but C d"
  unfolding att_but_def using assms by blast

lemma att_entryD:
  "att_but C d \<Longrightarrow> s < MAX_SESSIONS \<Longrightarrow> Some c \<in> set (ss_clients (sess d s)) \<Longrightarrow>
     ss_use (sess d s) \<and> c < MAX_CLIENTS \<and> cl_use (cli d c) \<and> attached (cli d c) = Some s"
  unfolding att_but_def by blast

lemma att_clientD:
  "att_but C d \<Longrightarrow> c < MAX_CLIENTS \<Longrightarrow> cl_use (cli d c) \<Longrightarrow> attached (cli d c) = Some s \<Longrightarrow>
     s < MAX_SESSIONS \<and> (c \<in> C \<or> ss_use (sess d s) \<and> Some c \<in> set (ss_clients (sess d s)))"
  unfolding att_but_def by blast

lemma att_tables_ok: "att_but C d \<Longrightarrow> tables_ok d"
  unfolding att_but_def by blast

text \<open>The part of the state the invariant speaks about.\<close>

definition slot_view :: "session \<Rightarrow> byte list option \<times> nat option list \<times> nat" where
  "slot_view x = (if ss_use x then Some (ss_name x) else None, ss_clients x, length (ss_panes x))"

definition att_view :: "daemon \<Rightarrow> (byte list option \<times> nat option list \<times> nat) list \<times> (bool \<times> nat option) list" where
  "att_view d = (map slot_view (sessions d), map (\<lambda>x. (cl_use x, attached x)) (clients d))"

lemma att_view_eqD:
  assumes "att_view d' = att_view d"
  shows "length (sessions d') = length (sessions d)" "length (clients d') = length (clients d)"
    and "s < length (sessions d) \<Longrightarrow> ss_use (sess d' s) = ss_use (sess d s)"
    and "s < length (sessions d) \<Longrightarrow> ss_clients (sess d' s) = ss_clients (sess d s)"
    and "s < length (sessions d) \<Longrightarrow> length (ss_panes (sess d' s)) = length (ss_panes (sess d s))"
    and "c < length (clients d) \<Longrightarrow> cl_use (cli d' c) = cl_use (cli d c)"
    and "c < length (clients d) \<Longrightarrow> attached (cli d' c) = attached (cli d c)"
    and "s < length (sessions d) \<Longrightarrow> ss_use (sess d s) \<Longrightarrow> ss_name (sess d' s) = ss_name (sess d s)"
proof -
  have a: "map slot_view (sessions d') = map slot_view (sessions d)"
    and b: "map (\<lambda>x. (cl_use x, attached x)) (clients d') = map (\<lambda>x. (cl_use x, attached x)) (clients d)"
    using assms by (auto simp: att_view_def)
  show l: "length (sessions d') = length (sessions d)" "length (clients d') = length (clients d)"
    using arg_cong [OF a, of length] arg_cong [OF b, of length] by simp_all
  show "s < length (sessions d) \<Longrightarrow> ss_use (sess d' s) = ss_use (sess d s)"
    and "s < length (sessions d) \<Longrightarrow> ss_clients (sess d' s) = ss_clients (sess d s)"
    and "s < length (sessions d) \<Longrightarrow> length (ss_panes (sess d' s)) = length (ss_panes (sess d s))"
    and "s < length (sessions d) \<Longrightarrow> ss_use (sess d s) \<Longrightarrow> ss_name (sess d' s) = ss_name (sess d s)"
    using arg_cong [OF a, of "\<lambda>l. l ! s"] l by (simp_all add: slot_view_def split: if_splits)
  show "c < length (clients d) \<Longrightarrow> cl_use (cli d' c) = cl_use (cli d c)"
    and "c < length (clients d) \<Longrightarrow> attached (cli d' c) = attached (cli d c)"
    using arg_cong [OF b, of "\<lambda>l. l ! c"] l by simp_all
qed

lemma att_but_cong:
  assumes "att_view d' = att_view d" shows "att_but C d' = att_but C d"
proof -
  note v = att_view_eqD [OF assms]
  have t: "tables_ok d' = tables_ok d"
    by (auto simp: tables_ok_def all_set_conv_all_nth v(1,2)) (use v in auto)+
  show ?thesis
  proof (cases "tables_ok d")
    case True
    then have "length (sessions d) = MAX_SESSIONS" "length (clients d) = MAX_CLIENTS" by (auto simp: tables_ok_def)
    then show ?thesis using v(3-7) by (simp add: att_but_def t cong: conj_cong)
  qed (simp add: att_but_def t)
qed


section \<open>Operations that do not touch it\<close>

lemma view_upd_sess:
  assumes "\<And>x. ss_use (f x) = ss_use x \<and> ss_name (f x) = ss_name x \<and> ss_clients (f x) = ss_clients x \<and> length (ss_panes (f x)) = length (ss_panes x)"
  shows "att_view (upd_sess d s f) = att_view d"
proof (cases "s < length (sessions d)")
  case True
  then show ?thesis using assms by (simp add: att_view_def slot_view_def upd_sess_def map_update list_update_same_conv)
qed (simp add: att_view_def upd_sess_def list_update_beyond)

lemma view_upd_cli:
  assumes "\<And>x. cl_use (f x) = cl_use x \<and> attached (f x) = attached x"
  shows "att_view (upd_cli d c f) = att_view d"
proof (cases "c < length (clients d)")
  case True
  then show ?thesis using assms by (simp add: att_view_def upd_cli_def map_update list_update_same_conv)
qed (simp add: att_view_def upd_cli_def list_update_beyond)

lemma view_basic [simp]:
  "att_view (upd_pane d s j g) = att_view d"
  "att_view (effect d e) = att_view d"
  "att_view (d_mod_fd d fd ev) = att_view d"
  "att_view (d_del_fd d fd) = att_view d"
  "att_view (close_fd d fd) = att_view d"
  "att_view (pty_resize d fd c r) = att_view d"
  "att_view (d\<lparr>writes := ws\<rparr>) = att_view d"
  "att_view (d\<lparr>files := fs\<rparr>) = att_view d"
  "att_view (d\<lparr>fds := tb\<rparr>) = att_view d"
  "att_view (d\<lparr>last_list := nl\<rparr>) = att_view d"
  "att_view (d\<lparr>reload := b\<rparr>) = att_view d"
  "att_view (d\<lparr>listen_fd := fd\<rparr>) = att_view d"
  by (simp_all add: upd_pane_def view_upd_sess effect_def d_mod_fd_def d_del_fd_def close_fd_def pty_resize_def)
    (simp_all add: att_view_def)

lemma view_sys:
  "now_ms d = (t, d') \<Longrightarrow> att_view d' = att_view d"
  "take_alloc d = (a, d') \<Longrightarrow> att_view d' = att_view d"
  "take_disk d = (w, d') \<Longrightarrow> att_view d' = att_view d"
  "take_spawn d = (sp, d') \<Longrightarrow> att_view d' = att_view d"
  "d_add_fd d fd ev ow = (ok, d') \<Longrightarrow> att_view d' = att_view d"
  by (auto simp: now_ms_def take_alloc_def take_disk_def take_spawn_def d_add_fd_def att_view_def split: list.splits prod.splits)

lemma view_foldl: "(\<And>d k. k \<in> set ks \<Longrightarrow> att_view (f d k) = att_view d) \<Longrightarrow> att_view (foldl f d ks) = att_view d"
  by (induction ks arbitrary: d) simp_all

lemma view_panes [simp]:
  "att_view (flush_sbs d s j) = att_view d"
  "att_view (flush_pane d s j) = att_view d"
  "att_view (pane_push_line d s j cs) = att_view d"
  "att_view (pane_stdin_drain d s j) = att_view d"
  "att_view (pane_stdin d s j bs) = att_view d"
  "att_view (session_stdin d s bs) = att_view d"
  "att_view (pane_vt_resize d s j r c) = att_view d"
  "att_view (pane_damage_clear d s j) = att_view d"
proof -
  show a: "att_view (flush_sbs d s j) = att_view d" for d s j
    by (auto simp: flush_sbs_def split: option.splits prod.splits dest: view_sys)
  show "att_view (flush_pane d s j) = att_view d" by (simp add: flush_pane_def a)
  show "att_view (pane_push_line d s j cs) = att_view d"
    by (auto simp: pane_push_line_def split: option.splits prod.splits dest: view_sys)
  show b: "att_view (pane_stdin_drain d s j) = att_view d" for d s j
    by (auto simp: pane_stdin_drain_def Let_def split: prod.splits)
  show c: "att_view (pane_stdin d s j bs) = att_view d" for d s j bs
    by (auto simp: pane_stdin_def Let_def b split: prod.splits)
  show "att_view (session_stdin d s bs) = att_view d" by (auto simp: session_stdin_def c split: option.splits)
  show "att_view (pane_vt_resize d s j r c) = att_view d"
    by (auto simp: pane_vt_resize_def Let_def split: option.splits prod.splits dest!: view_sys)
  show "att_view (pane_damage_clear d s j) = att_view d" by (simp add: pane_damage_clear_def)
qed

lemma view_pane_life [simp]:
  "att_view (pane_close_sb d s j) = att_view d"
  "att_view (pane_alloc_undo d s j) = att_view d"
  "att_view (pane_flush_screen d s j) = att_view d"
  "att_view (pane_free_slot d s j) = att_view d"
  "att_view (spawn_undo d s j) = att_view d"
  "att_view (drop_leaf d s j) = att_view d"
proof -
  have st: "att_view (store_log d nm i g) = att_view d" for d nm i g
    by (auto simp: store_log_def Let_def split: sum.splits option.splits)
  show a: "att_view (pane_close_sb d s j) = att_view d" for d s j
    by (auto simp: pane_close_sb_def Let_def st split: option.splits prod.splits dest: view_sys)
  show b: "att_view (pane_alloc_undo d s j) = att_view d" for d s j by (simp add: pane_alloc_undo_def a)
  show c: "att_view (pane_flush_screen d s j) = att_view d" for d s j
    by (auto simp: pane_flush_screen_def split: option.splits intro!: view_foldl)
  show "att_view (pane_free_slot d s j) = att_view d" by (simp add: pane_free_slot_def Let_def a c)
  show "att_view (spawn_undo d s j) = att_view d" by (simp add: spawn_undo_def Let_def b)
  show "att_view (drop_leaf d s j) = att_view d" by (simp add: drop_leaf_def view_upd_sess)
qed

lemma view_geometry [simp]:
  "att_view (apply_pane d s i) = att_view d"
  "att_view (session_apply_layout d s) = att_view d"
  "att_view (session_unzoom d s) = att_view d"
  "att_view (session_resize d s c r) = att_view d"
proof -
  show a: "att_view (apply_pane d s i) = att_view d" for d s i
    by (auto simp: apply_pane_def Let_def split: option.splits)
  show b: "att_view (session_apply_layout d s) = att_view d" for d s
    by (simp add: session_apply_layout_def view_upd_sess view_foldl a)
  show "att_view (session_unzoom d s) = att_view d" by (simp add: session_unzoom_def b view_upd_sess)
  show "att_view (session_resize d s c r) = att_view d"
    by (auto simp: session_resize_def Let_def b view_upd_sess split: option.splits)
qed

lemma view_results:
  "pane_setup d s j i c r = (ok, d') \<Longrightarrow> att_view d' = att_view d"
  "pane_alloc d s i c r = (res, d') \<Longrightarrow> att_view d' = att_view d"
  "pane_spawn d s j argv c r = (ok, d') \<Longrightarrow> att_view d' = att_view d"
proof -
  show a: "att_view d' = att_view d" if "pane_setup d s j i c r = (ok, d')" for d d' ok s j i c r
    using that by (auto simp: pane_setup_def Let_def split: option.splits prod.splits dest!: view_sys)
  show "pane_alloc d s i c r = (res, d') \<Longrightarrow> att_view d' = att_view d"
    by (auto simp: pane_alloc_def split: option.splits prod.splits dest!: a)
  show "pane_spawn d s j argv c r = (ok, d') \<Longrightarrow> att_view d' = att_view d"
    by (auto simp: pane_spawn_def split: option.splits prod.splits dest!: view_sys)
qed


section \<open>Leaving a session\<close>

lemma att_mono: "att_but C d \<Longrightarrow> C \<subseteq> D \<Longrightarrow> att_but D d"
  unfolding att_but_def by blast

lemma view_session_detach:
  "att_view (session_detach d s c) =
   att_view (upd_sess d s (\<lambda>x. x\<lparr>ss_clients := map (\<lambda>k. if k = Some c then None else k) (ss_clients x)\<rparr>))"
  unfolding session_detach_def Let_def by (rule view_foldl) simp

lemma att_tables: "att_but C d \<Longrightarrow> length (sessions d) = MAX_SESSIONS \<and> length (clients d) = MAX_CLIENTS"
  using att_tables_ok [of C d] by (simp add: tables_ok_def)

lemma att_table_len:
  "att_but C d \<Longrightarrow> s < MAX_SESSIONS \<Longrightarrow> length (ss_clients (sess d s)) = MAX_CLIENTS_PER_SESSION"
  "att_but C d \<Longrightarrow> s < MAX_SESSIONS \<Longrightarrow> length (ss_panes (sess d s)) = MAX_PANES_PER_SESSION"
  using att_tables_ok [of C d] by (auto simp: tables_ok_def)

text \<open>Shrinking a client table: whoever is taken out becomes an exception.\<close>

lemma att_shrink:
  assumes "att_but C d" and "length (f (ss_clients (sess d s))) = length (ss_clients (sess d s))"
    and "\<And>k. k \<in> set (f (ss_clients (sess d s))) \<Longrightarrow> k = None \<or> k \<in> set (ss_clients (sess d s))"
    and "\<And>a. Some a \<in> set (ss_clients (sess d s)) \<Longrightarrow> Some a \<notin> set (f (ss_clients (sess d s))) \<Longrightarrow> a = c"
  shows "att_but (insert c C) (upd_sess d s (\<lambda>x. x\<lparr>ss_clients := f (ss_clients x)\<rparr>))" (is "att_but _ ?d")
proof (cases "s < MAX_SESSIONS")
  case False
  then have "?d = d" using att_tables_ok [OF assms(1)] by (simp add: upd_sess_def list_update_beyond tables_ok_def)
  then show ?thesis using att_mono [OF assms(1)] by auto
next
  case True
  have len: "length (sessions d) = MAX_SESSIONS" using att_tables [OF assms(1)] by simp
  have at: "sess ?d t = (if t = s then (sess d s)\<lparr>ss_clients := f (ss_clients (sess d s))\<rparr> else sess d t)" if "t < MAX_SESSIONS" for t
    using that len True by (simp add: upd_sess_def nth_list_update)
  have cl: "clients ?d = clients d" by (simp add: upd_sess_def)
  have "tables_ok ?d" using att_tables_ok [OF assms(1)] assms(2) True len
    by (auto simp: tables_ok_def upd_sess_def all_set_conv_all_nth nth_list_update)
  then show ?thesis
  proof (rule att_butI)
    fix t a assume t: "t < MAX_SESSIONS" and a: "Some a \<in> set (ss_clients (sess ?d t))"
    have "Some a \<in> set (ss_clients (sess d t))" using a assms(3) at [OF t] by (auto split: if_splits)
    from att_entryD [OF assms(1) t this]
    show "ss_use (sess ?d t) \<and> a < MAX_CLIENTS \<and> cl_use (cli ?d a) \<and> attached (cli ?d a) = Some t"
      using at [OF t] cl by auto
  next
    fix a t assume "a < MAX_CLIENTS" "cl_use (cli ?d a)" "attached (cli ?d a) = Some t"
    then have *: "t < MAX_SESSIONS \<and> (a \<in> C \<or> ss_use (sess d t) \<and> Some a \<in> set (ss_clients (sess d t)))"
      using att_clientD [OF assms(1)] cl by simp
    then show "t < MAX_SESSIONS \<and> (a \<in> insert c C \<or> ss_use (sess ?d t) \<and> Some a \<in> set (ss_clients (sess ?d t)))"
      using assms(4) at [of t] by auto
  qed
qed

lemma att_session_detach:
  assumes "att_but C d" shows "att_but (insert c C) (session_detach d s c)"
  unfolding att_but_cong [OF view_session_detach]
  by (rule att_shrink [OF assms]) auto

text \<open>A detached client is in no table.\<close>

lemma detach_absent:
  assumes "att_but C d" and "c < MAX_CLIENTS" and "attached (cli d c) = Some s \<or> \<not> cl_use (cli d c)" and "t < MAX_SESSIONS"
  shows "Some c \<notin> set (ss_clients (sess (session_detach d s c) t))"
proof -
  let ?u = "upd_sess d s (\<lambda>x. x\<lparr>ss_clients := map (\<lambda>k. if k = Some c then None else k) (ss_clients x)\<rparr>)"
  have "length (sessions ?u) = MAX_SESSIONS" using att_tables [OF assms(1)] by (simp add: upd_sess_def)
  then have eq: "ss_clients (sess (session_detach d s c) t) = ss_clients (sess ?u t)"
    using att_view_eqD(4) [OF view_session_detach [of d s c]] assms(4) by simp
  show ?thesis
  proof (cases "t = s")
    case True
    then show ?thesis unfolding eq using assms(4) att_tables [OF assms(1)] by (auto simp: upd_sess_def)
  next
    case False
    then have "Some c \<notin> set (ss_clients (sess d t))" using att_entryD [OF assms(1,4)] assms(3) by auto
    then show ?thesis unfolding eq using False by (simp add: upd_sess_def)
  qed
qed

lemma detach_client: "cli (session_detach d s c) a = cli d a"
proof -
  have "clients (foldl (\<lambda>d j. flush_pane d s j) d ks) = clients d" for d :: daemon and ks
    by (induction ks arbitrary: d)
      (auto simp: flush_pane_def flush_sbs_def take_disk_def upd_pane_def upd_sess_def split: option.splits list.splits)
  then show ?thesis by (simp add: session_detach_def Let_def upd_sess_def)
qed

lemma att_disconnect:
  assumes "att_but C d" and "c < MAX_CLIENTS" shows "att_but (C - {c}) (client_disconnect d c)"
proof (cases "cl_use (cli d c)")
  case False
  then have "att_but (C - {c}) d"
    using att_tables_ok [OF assms(1)] att_entryD [OF assms(1)] att_clientD [OF assms(1)] by (intro att_butI) blast+
  then show ?thesis using False by (simp add: client_disconnect_def)
next
  case True
  define e where "e = (case attached (cli d c) of Some s \<Rightarrow> session_detach d s c | None \<Rightarrow> d)"
  have e: "att_but (insert c C) e"
    using assms att_session_detach att_mono [of C d "insert c C"] by (auto simp: e_def split: option.splits)
  have ecli: "cli e a = cli d a" for a by (simp add: e_def detach_client split: option.splits)
  have none: "Some c \<notin> set (ss_clients (sess e t))" if "t < MAX_SESSIONS" for t
  proof (cases "attached (cli d c)")
    case None
    then show ?thesis using att_entryD [OF assms(1) that] by (auto simp: e_def)
  next
    case (Some s)
    then show ?thesis using detach_absent [OF assms] that by (simp add: e_def)
  qed
  let ?g = "\<lambda>x. x\<lparr>cl_in := empty_ring (cl_in x), cl_out := empty_ring (cl_out x), cl_use := False\<rparr>"
  have "att_view (client_disconnect d c) = att_view (upd_cli e c ?g)"
    using True unfolding client_disconnect_def e_def [symmetric] Let_def
    by (simp add: att_view_def upd_cli_def close_fd_def d_del_fd_def effect_def)
  moreover have "att_but (C - {c}) (upd_cli e c ?g)"
  proof (rule att_butI)
    have at: "cli (upd_cli e c ?g) a = (if a = c then ?g (cli e c) else cli e a)" for a
      using assms(2) att_tables_ok [OF e] by (simp add: upd_cli_def tables_ok_def nth_list_update)
    have se: "sessions (upd_cli e c ?g) = sessions e" by (simp add: upd_cli_def)
    show "tables_ok (upd_cli e c ?g)" using att_tables_ok [OF e] by (simp add: tables_ok_def upd_cli_def)
    fix s a assume s: "s < MAX_SESSIONS" and "Some a \<in> set (ss_clients (sess (upd_cli e c ?g) s))"
    then have a: "Some a \<in> set (ss_clients (sess e s))" by (simp add: se)
    with none [OF s] have "a \<noteq> c" by auto
    with att_entryD [OF e s a] show "ss_use (sess (upd_cli e c ?g) s) \<and> a < MAX_CLIENTS \<and>
        cl_use (cli (upd_cli e c ?g) a) \<and> attached (cli (upd_cli e c ?g) a) = Some s" by (simp add: at se)
  next
    fix a s assume a: "a < MAX_CLIENTS" and u: "cl_use (cli (upd_cli e c ?g) a)"
      and at': "attached (cli (upd_cli e c ?g) a) = Some s"
    have at: "cli (upd_cli e c ?g) a = (if a = c then ?g (cli e c) else cli e a)"
      using assms(2) att_tables_ok [OF e] by (simp add: upd_cli_def tables_ok_def nth_list_update)
    then have ne: "a \<noteq> c" using u by auto
    with att_clientD [OF e a, of s] u at' at
    show "s < MAX_SESSIONS \<and> (a \<in> C - {c} \<or> ss_use (sess (upd_cli e c ?g) s) \<and> Some a \<in> set (ss_clients (sess (upd_cli e c ?g) s)))"
      by (auto simp: upd_cli_def)
  qed
  ultimately show ?thesis by (rule att_but_cong [THEN iffD2])
qed

lemma att_disconnect_ok: "att_ok d \<Longrightarrow> c < MAX_CLIENTS \<Longrightarrow> att_ok (client_disconnect d c)"
  using att_disconnect [of "{}" d c] by simp

section \<open>Sending\<close>

lemma att_client_flush: "att_ok d \<Longrightarrow> c < MAX_CLIENTS \<Longrightarrow> att_ok (client_flush d c)"
proof -
  assume a: "att_ok d" "c < MAX_CLIENTS"
  obtain r sent failed ws where f: "flush_loop (writes d) (cl_out (cli d c)) [] = (r, sent, failed, ws)"
    by (cases "flush_loop (writes d) (cl_out (cli d c)) []")
  let ?d = "effect (upd_cli (d\<lparr>writes := ws\<rparr>) c (\<lambda>x. x\<lparr>cl_out := r\<rparr>)) (Sock_Out (cl_fd (cli d c)) sent)"
  have v: "att_view ?d = att_view d" by (simp add: view_upd_cli)
  then have "att_ok ?d" using a(1) att_but_cong by blast
  with att_disconnect_ok [OF this a(2)] have "att_ok (client_disconnect ?d c)" "att_ok (d_mod_fd ?d fd ev)" for fd ev
    using att_but_cong [OF view_basic(3)] by blast+
  then show ?thesis by (simp only: client_flush_def f Let_def prod.case split: if_split) blast
qed

lemma att_client_send: "att_ok d \<Longrightarrow> c < MAX_CLIENTS \<Longrightarrow> att_ok (client_send d c t p)"
proof -
  assume a: "att_ok d" "c < MAX_CLIENTS"
  have "att_ok (upd_cli d c (\<lambda>x. x\<lparr>cl_out := r\<rparr>))" for r
    using a(1) att_but_cong [OF view_upd_cli [of "\<lambda>x. x\<lparr>cl_out := r\<rparr>"]] by simp
  then show ?thesis using a att_disconnect_ok [OF a] att_client_flush [OF _ a(2)]
    by (auto simp: client_send_def split: prod.splits bool.splits)
qed

lemma att_foldl: "(\<And>d k. k \<in> set ks \<Longrightarrow> att_ok d \<Longrightarrow> att_ok (f d k)) \<Longrightarrow> att_ok d \<Longrightarrow> att_ok (foldl f d ks)"
  by (induction ks arbitrary: d) simp_all

lemma att_entry: "att_ok d \<Longrightarrow> s < MAX_SESSIONS \<Longrightarrow> k < MAX_CLIENTS_PER_SESSION \<Longrightarrow> ss_clients (sess d s) ! k = Some c \<Longrightarrow> c < MAX_CLIENTS"
  using att_table_len(1) [of "{}" d s] att_entryD [of "{}" d s c] nth_mem [of k "ss_clients (sess d s)"] by simp

lemma att_send_clients: "att_ok d \<Longrightarrow> s < MAX_SESSIONS \<Longrightarrow> att_ok (send_clients d s P t p)"
  unfolding send_clients_def
  by (rule att_foldl) (auto split: option.splits intro: att_client_send att_entry)


lemma att_view_ok: "att_view d' = att_view d \<Longrightarrow> att_but C d \<Longrightarrow> att_but C d'"
  using att_but_cong by blast

lemma att_upd_sess:
  assumes "att_but C d"
    and "\<And>x. ss_use (f x) = ss_use x \<and> ss_name (f x) = ss_name x \<and> ss_clients (f x) = ss_clients x \<and> length (ss_panes (f x)) = length (ss_panes x)"
  shows "att_but C (upd_sess d s f)"
  using assms by (intro att_view_ok [OF view_upd_sess])

lemma att_upd_cli:
  assumes "att_but C d" and "\<And>x. cl_use (f x) = cl_use x \<and> attached (f x) = attached x"
  shows "att_but C (upd_cli d c f)"
  using assms by (intro att_view_ok [OF view_upd_cli])

lemma att_now_ms: "att_but C d \<Longrightarrow> now_ms d = (t, d') \<Longrightarrow> att_but C d'"
  using att_view_ok [OF view_sys(1)] .

section \<open>Engine callbacks and frames\<close>

lemma att_vt_callback: "att_ok d \<Longrightarrow> s < MAX_SESSIONS \<Longrightarrow> att_ok (vt_callback s j d e)"
  by (cases e) (auto simp: vt_cb_response_def vt_cb_scrollback_def vt_cb_bell_def intro: att_view_ok att_send_clients)

lemma att_pane_feed:
  assumes "att_ok d" "s < MAX_SESSIONS" shows "att_ok (pane_feed d s j bs)"
proof (cases "pn_vt (pane_at d s j)")
  case (Some v)
  let ?v = "vt_feed (v\<lparr>scr := (scr v)\<lparr>out := []\<rparr>\<rparr>) bs"
  have "att_ok (upd_pane d s j (\<lambda>p. p\<lparr>pn_vt := Some ?v\<rparr>))" by (rule att_view_ok [OF _ assms(1)]) simp
  then show ?thesis using Some assms(2) by (simp add: pane_feed_def Let_def att_foldl att_vt_callback)
qed (use assms in \<open>simp add: pane_feed_def\<close>)

lemma att_send_layout: "att_ok d \<Longrightarrow> s < MAX_SESSIONS \<Longrightarrow> att_ok (session_send_layout d s)"
  by (simp add: session_send_layout_def att_send_clients)

lemma att_composite_one:
  assumes "att_ok d" "s < MAX_SESSIONS" shows "att_ok (session_composite_one d s)"
proof -
  let ?f = "composite_frame (memory d) (sess d s) (layout_dirty (sess d s))"
  define e where "e = (if layout_dirty (sess d s)
     then upd_sess (session_send_layout d s) s (\<lambda>x. x\<lparr>layout_dirty := False\<rparr>) else d)"
  define g where "g = foldl (\<lambda>d j. if pn_use (pane_at d s j) then pane_damage_clear d s j else d)
     (send_clients e s (\<lambda>_. True) 0x30 ?f) [0..<MAX_PANES_PER_SESSION]"
  have e: "att_ok e" using assms by (simp add: e_def att_upd_sess att_send_layout)
  have "att_view g = att_view (send_clients e s (\<lambda>_. True) 0x30 ?f)" unfolding g_def by (rule view_foldl) simp
  then have "att_ok g" using att_view_ok att_send_clients [OF e assms(2)] by blast
  then have "att_ok (upd_sess (snd (now_ms g)) s (\<lambda>x. x\<lparr>last_frame_ms := t\<rparr>))" for t
    by (intro att_upd_sess) (auto intro: att_now_ms [where d = g] simp: prod_eq_iff)
  then show ?thesis using e by (simp add: session_composite_one_def Let_def e_def [symmetric] g_def [symmetric] case_prod_unfold)
qed

lemma att_composite_all: "att_ok d \<Longrightarrow> att_ok (session_composite_all d)"
  unfolding session_composite_all_def by (rule att_foldl) (auto simp: Let_def att_composite_one)

lemma att_send_repaint: "att_ok d \<Longrightarrow> s < MAX_SESSIONS \<Longrightarrow> k < MAX_CLIENTS_PER_SESSION \<Longrightarrow> att_ok (send_repaint b d s k)"
  by (auto simp: send_repaint_def Let_def split: option.splits intro: att_client_send att_entry)

lemma att_leave_composite:
  assumes "att_ok d" "s < MAX_SESSIONS" shows "att_ok (session_leave_composite d s)"
proof -
  define e where "e = upd_sess (session_send_layout d s) s (\<lambda>x. x\<lparr>layout_dirty := False\<rparr>)"
  have e: "att_ok e" using assms by (simp add: e_def att_upd_sess att_send_layout)
  have "att_ok (foldl (\<lambda>d k. send_repaint (snapshot_or_empty d v) d s k) e [0..<MAX_CLIENTS_PER_SESSION])" for v
    by (rule att_foldl [OF _ e]) (simp add: att_send_repaint assms(2))
  then have "att_ok (pane_damage_clear (foldl (\<lambda>d k. send_repaint (snapshot_or_empty d v) d s k) e [0..<MAX_CLIENTS_PER_SESSION]) s j)" for v j
    by (rule att_view_ok [OF view_panes(8)])
  then show ?thesis using e by (simp add: session_leave_composite_def Let_def e_def [symmetric] split: option.split)
qed

section \<open>Freeing a session\<close>

lemma disconnect_none:
  assumes "s < length (sessions d)" and "k < length (ss_clients (sess d s))" and "ss_clients (sess d s) ! k = None"
  shows "ss_clients (sess (client_disconnect d c) s) ! k = None"
    and "length (ss_clients (sess (client_disconnect d c) s)) = length (ss_clients (sess d s))"
proof -
  define e where "e = (case attached (cli d c) of Some s \<Rightarrow> session_detach d s c | None \<Rightarrow> d)"
  have e: "ss_clients (sess e s) ! k = None \<and> length (ss_clients (sess e s)) = length (ss_clients (sess d s))"
  proof (cases "attached (cli d c)")
    case (Some t)
    let ?u = "upd_sess d t (\<lambda>x. x\<lparr>ss_clients := map (\<lambda>k. if k = Some c then None else k) (ss_clients x)\<rparr>)"
    have "ss_clients (sess (session_detach d t c) s) = ss_clients (sess ?u s)"
      using att_view_eqD(4) [OF view_session_detach [of d t c], of s] assms(1) by (simp add: upd_sess_def)
    then show ?thesis using assms Some by (cases "t = s") (simp_all add: e_def upd_sess_def)
  qed (simp add: e_def assms)
  have "sess (client_disconnect d c) s = sess (if cl_use (cli d c) then e else d) s"
    by (simp add: client_disconnect_def e_def [symmetric] Let_def upd_cli_def close_fd_def effect_def d_del_fd_def)
  then show "ss_clients (sess (client_disconnect d c) s) ! k = None"
    and "length (ss_clients (sess (client_disconnect d c) s)) = length (ss_clients (sess d s))"
    using e assms by (simp_all split: if_split)
qed

lemma att_drop_client:
  assumes "att_ok d" and "s < MAX_SESSIONS" and "k < MAX_CLIENTS_PER_SESSION"
  shows "att_ok (drop_client d s k)"
proof (cases "ss_clients (sess d s) ! k")
  case (Some c)
  have "att_but {c} (upd_sess d s (\<lambda>x. x\<lparr>ss_clients := (ss_clients x)[k := None]\<rparr>))"
  proof (rule att_shrink [OF assms(1), where f = "\<lambda>l. l[k := None]"])
    fix a assume "Some a \<in> set (ss_clients (sess d s))" "Some a \<notin> set ((ss_clients (sess d s))[k := None])"
    then show "a = c" using Some
      by (metis in_set_conv_nth length_list_update nth_list_update_neq option.inject)
  qed (auto dest: set_update_subset_insert [THEN subsetD])
  from att_disconnect [OF this att_entry [OF assms Some]] show ?thesis by (simp add: drop_client_def Some)
qed (simp add: drop_client_def assms)

lemma drop_client_none:
  assumes "att_ok d" and "s < MAX_SESSIONS" and "k < MAX_CLIENTS_PER_SESSION"
    and "i < MAX_CLIENTS_PER_SESSION" and "i = k \<or> ss_clients (sess d s) ! i = None"
  shows "ss_clients (sess (drop_client d s k) s) ! i = None"
proof (cases "ss_clients (sess d s) ! k")
  case None
  then show ?thesis using assms(5) by (auto simp: drop_client_def)
next
  case (Some c)
  let ?u = "upd_sess d s (\<lambda>x. x\<lparr>ss_clients := (ss_clients x)[k := None]\<rparr>)"
  have len: "length (sessions d) = MAX_SESSIONS" "length (ss_clients (sess d s)) = MAX_CLIENTS_PER_SESSION"
    using att_tables [OF assms(1)] att_table_len(1) [OF assms(1,2)] by auto
  have u: "ss_clients (sess ?u s) = (ss_clients (sess d s))[k := None]" "length (sessions ?u) = MAX_SESSIONS"
    using len assms(2) by (simp_all add: upd_sess_def)
  have "ss_clients (sess ?u s) ! i = None" using assms(3-5) len by (auto simp: u nth_list_update)
  then have "ss_clients (sess (client_disconnect ?u c) s) ! i = None"
    using disconnect_none(1) [of s ?u i c] u assms(2,4) len by simp
  then show ?thesis by (simp add: drop_client_def Some)
qed

lemma drop_clients:
  assumes "att_ok d" and "s < MAX_SESSIONS" and "n \<le> MAX_CLIENTS_PER_SESSION"
  shows "att_ok (foldl (\<lambda>d k. drop_client d s k) d [0..<n]) \<and>
    (\<forall>i<n. ss_clients (sess (foldl (\<lambda>d k. drop_client d s k) d [0..<n]) s) ! i = None)"
  using assms(3)
proof (induction n)
  case (Suc n)
  then have IH: "att_ok (foldl (\<lambda>d k. drop_client d s k) d [0..<n])"
    "\<forall>i<n. ss_clients (sess (foldl (\<lambda>d k. drop_client d s k) d [0..<n]) s) ! i = None" by auto
  from Suc.prems att_drop_client [OF IH(1) assms(2)] drop_client_none [OF IH(1) assms(2)] IH(2) show ?case
    by (auto simp: less_Suc_eq)
qed (use assms in simp)

lemma att_use:
  assumes "att_ok d" and "s < MAX_SESSIONS" and "\<forall>a. Some a \<notin> set (ss_clients (sess d s))"
  shows "att_ok (upd_sess d s (\<lambda>x. x\<lparr>ss_use := b\<rparr>))" (is "att_ok ?d")
proof (rule att_butI)
  have len: "length (sessions d) = MAX_SESSIONS" using att_tables [OF assms(1)] by simp
  have at: "sess ?d t = (if t = s then (sess d s)\<lparr>ss_use := b\<rparr> else sess d t)" if "t < MAX_SESSIONS" for t
    using that len assms(2) by (simp add: upd_sess_def nth_list_update)
  have cl: "clients ?d = clients d" by (simp add: upd_sess_def)
  show "tables_ok ?d" using att_tables_ok [OF assms(1)] assms(2)
    by (auto simp: tables_ok_def upd_sess_def all_set_conv_all_nth nth_list_update)
  show "ss_use (sess ?d t) \<and> a < MAX_CLIENTS \<and> cl_use (cli ?d a) \<and> attached (cli ?d a) = Some t"
    if t: "t < MAX_SESSIONS" and a: "Some a \<in> set (ss_clients (sess ?d t))" for t a
  proof -
    have "t \<noteq> s" using a at [OF t] assms(3) by auto
    then show ?thesis using att_entryD [OF assms(1) t] a at [OF t] cl by simp
  qed
  show "t < MAX_SESSIONS \<and> (a \<in> {} \<or> ss_use (sess ?d t) \<and> Some a \<in> set (ss_clients (sess ?d t)))"
    if "a < MAX_CLIENTS" "cl_use (cli ?d a)" "attached (cli ?d a) = Some t" for a t
  proof -
    have "t < MAX_SESSIONS \<and> ss_use (sess d t) \<and> Some a \<in> set (ss_clients (sess d t))"
      using att_clientD [OF assms(1)] that cl by simp
    then show ?thesis using assms(3) at [of t] by auto
  qed
qed

lemma att_free_slot:
  assumes "att_ok d" and "s < MAX_SESSIONS" shows "att_ok (session_free_slot d s)"
proof -
  define e where "e = foldl (\<lambda>d k. drop_client d s k) d [0..<MAX_CLIENTS_PER_SESSION]"
  define g where "g = foldl (\<lambda>d j. if pn_use (pane_at d s j) then pane_free_slot d s j else d) e [0..<MAX_PANES_PER_SESSION]"
  have e: "att_ok e" "\<forall>i<MAX_CLIENTS_PER_SESSION. ss_clients (sess e s) ! i = None"
    using drop_clients [OF assms order_refl] by (auto simp: e_def)
  have v: "att_view g = att_view e" unfolding g_def by (rule view_foldl) simp
  have g: "att_ok g" using att_view_ok [OF v e(1)] .
  have "ss_clients (sess g s) = ss_clients (sess e s)"
    using att_view_eqD(4) [OF v, of s] att_tables [OF e(1)] assms(2) by simp
  then have "\<forall>a. Some a \<notin> set (ss_clients (sess g s))"
    using e(2) att_table_len(1) [OF e(1) assms(2)] by (auto simp: in_set_conv_nth)
  from att_use [OF g assms(2) this] show ?thesis by (simp add: session_free_slot_def e_def [symmetric] g_def [symmetric] Let_def)
qed


section \<open>Sessions and panes come and go\<close>

lemma att_pane_gone:
  assumes "att_ok d" "s < MAX_SESSIONS" shows "att_ok (pane_gone d s j i)"
proof -
  have rf: "ss_use (refocus x) = ss_use x \<and> ss_name (refocus x) = ss_name x \<and> ss_clients (refocus x) = ss_clients x \<and> length (ss_panes (refocus x)) = length (ss_panes x)" for x
    by (simp add: refocus_def split: option.split)
  have "att_ok (session_apply_layout (upd_sess (upd_sess (upd_sess (pane_free_slot d s j) s
      (\<lambda>x. x\<lparr>ss_lt := snd (layout_close (ss_lt x) (view_cols x) (view_rows x) (int j))\<rparr>)) s
      (\<lambda>x. if active_id x = i then x\<lparr>active_id := if last_id x \<noteq> i then last_id x else 0\<rparr> else x)) s refocus) s)"
    by (rule att_view_ok [OF _ assms(1)]) (simp add: view_upd_sess rf)
  then show ?thesis using att_leave_composite [OF _ assms(2)] by (simp add: pane_gone_def Let_def)
qed

lemma att_close_pane: "att_ok d \<Longrightarrow> s < MAX_SESSIONS \<Longrightarrow> att_ok (snd (session_close_pane d s i))"
proof -
  assume a: "att_ok d" "s < MAX_SESSIONS"
  have u: "att_ok (session_unzoom d s)" "att_ok (effect (session_unzoom d s) e)" for e
    by (rule att_view_ok [OF _ a(1)]; simp)+
  then show ?thesis using att_free_slot [OF u(1) a(2)] att_free_slot [OF u(2) a(2)] att_pane_gone [OF u(1) a(2)]
      att_pane_gone [OF u(2) a(2)] a(1)
    by (simp add: session_close_pane_def Let_def split: option.split)
qed

lemma att_pane_reaped:
  assumes "att_ok d" "s < MAX_SESSIONS" shows "att_ok (session_pane_reaped d s j)"
proof -
  have "att_ok (pane_free_slot (send_clients d s P t p) s j)" for P t p
    by (rule att_view_ok [OF view_pane_life(4)]) (rule att_send_clients [OF assms])
  then show ?thesis using assms by (simp add: session_pane_reaped_def Let_def att_free_slot att_pane_gone att_send_clients)
qed

lemma att_reap_children:
  assumes "att_ok d" shows "att_ok (session_reap_children d rs)"
proof -
  have a: "att_ok (reap_pane pid st s d j)" if "att_ok d" "s < MAX_SESSIONS" for pid st s d j
  proof -
    have "att_ok (upd_pane d s j f)" for f by (rule att_view_ok [OF _ that(1)]) simp
    then show ?thesis using that by (simp add: reap_pane_def att_pane_reaped)
  qed
  have b: "att_ok (reap_session pid st d s)" if "att_ok d" "s < MAX_SESSIONS" for pid st s d
    unfolding reap_session_def using that by (auto intro!: att_foldl a)
  show ?thesis unfolding session_reap_children_def by (intro att_foldl assms) (simp_all add: b)
qed

lemma view_split: "att_view (snd (session_split d s t st)) = att_view d"
proof -
  have sp: "att_view (snd (split_pane d s n i)) = att_view d" for d n i
    unfolding split_pane_def Let_def
    by (auto simp: view_upd_sess split: prod.split sum.split bool.split dest!: view_results view_sys(5))
  show ?thesis unfolding session_split_def Let_def
    by (auto simp: view_upd_sess sp split: option.split prod.split)
qed

lemma view_select: "att_view (snd (session_select_pane d s m i)) = att_view d"
  unfolding session_select_pane_def toggle_zoom_def Let_def
  by (auto simp: view_upd_sess split: option.split)

lemma find_upt: "find P [0..<n] = Some i \<Longrightarrow> i < n \<and> P i"
  by (auto simp: find_Some_iff)

lemma att_session_alloc:
  assumes "att_ok d" and "session_alloc d name c r = (res, d')"
  shows "att_view d' = att_view d \<and> (\<forall>s. res = Inr s \<longrightarrow> s < MAX_SESSIONS \<and> \<not> ss_use (sess d s))"
proof (cases "session_find d name = None")
  case True
  show ?thesis
  proof (cases "find (\<lambda>i. \<not> ss_use (sess d i)) [0..<MAX_SESSIONS]")
    case None
    then show ?thesis using assms(2) True by (auto simp: session_alloc_def)
  next
    case (Some s)
    then have s: "s < MAX_SESSIONS" "\<not> ss_use (sess d s)" using find_upt by fastforce+
    have "\<forall>a. Some a \<notin> set (ss_clients (sess d s))" using att_entryD [OF assms(1) s(1)] s(2) by blast
    then have cl: "ss_clients (sess d s) = replicate MAX_CLIENTS_PER_SESSION None"
      using att_table_len(1) [OF assms(1) s(1)] by (metis not_None_eq replicate_eqI)
    have pn: "length (ss_panes (sess d s)) = MAX_PANES_PER_SESSION" using att_table_len(2) [OF assms(1) s(1)] .
    have "att_view (upd_sess d s (\<lambda>_. y)) = att_view d"
      if "ss_use y = False" "ss_clients y = replicate MAX_CLIENTS_PER_SESSION None" "length (ss_panes y) = MAX_PANES_PER_SESSION" for y
      using that s(2) cl pn s(1) att_tables [OF assms(1)]
      by (simp add: att_view_def slot_view_def upd_sess_def map_update list_update_same_conv)
    then show ?thesis using assms(2) True Some s by (auto simp: session_alloc_def zero_session_def Let_def)
  qed
qed (use assms in \<open>auto simp: session_alloc_def\<close>)

lemma empty_table:
  assumes "att_ok d" "s < MAX_SESSIONS" "\<not> ss_use (sess d s)" "att_view d' = att_view d"
  shows "\<forall>a. Some a \<notin> set (ss_clients (sess d' s))"
  using att_entryD [OF assms(1,2)] assms(3) att_view_eqD(4) [OF assms(4), of s] att_tables [OF assms(1)] assms(2) by auto

lemma upd_sess_table:
  "(\<And>x. ss_clients (f x) = ss_clients x) \<Longrightarrow> ss_clients (sess (upd_sess d s f) t) = ss_clients (sess d t)"
  by (cases "s < length (sessions d)"; cases "t = s") (simp_all add: upd_sess_def list_update_beyond)

lemma att_session_new:
  assumes ok: "att_ok d" and new: "session_new d name argv c r = (res, d')"
  shows "att_ok d' \<and> snd (att_view d') = snd (att_view d) \<and> (\<forall>s. res = Inr s \<longrightarrow> s < MAX_SESSIONS \<and> ss_use (sess d' s))"
proof -
  obtain res1 d1 where 1: "session_alloc d name c r = (res1, d1)" by fastforce
  note v1 = att_session_alloc [OF ok 1]
  show ?thesis
  proof (cases res1)
    case (Inl e)
    then show ?thesis using new 1 v1 att_view_ok [OF _ ok, of d1] by (auto simp: session_new_def)
  next
    case (Inr s)
    obtain res2 d2 where 2: "pane_alloc d1 s 0 (view_cols (sess d1 s)) (view_rows (sess d1 s)) = (res2, d2)" by fastforce
    have v2: "att_view d2 = att_view d" using view_results(2) [OF 2] v1 by simp
    show ?thesis
    proof (cases res2)
      case (Inl e)
      then show ?thesis using new 1 2 Inr v2 att_view_ok [OF v2 ok] by (auto simp: session_new_def)
    next
      case res2: (Inr j)
      obtain sp d3 where 3: "pane_spawn d2 s j argv (pn_cols (pane_at d2 s j)) (pn_rows (pane_at d2 s j)) = (sp, d3)" by fastforce
      have v3: "att_view d3 = att_view d" using view_results(3) [OF 3] v2 by simp
      show ?thesis
      proof (cases sp)
        case False
        have "att_view (pane_alloc_undo d3 s j) = att_view d" using v3 by simp
        then show ?thesis using new 1 2 3 Inr res2 False att_view_ok [OF _ ok] by (auto simp: session_new_def)
      next
        case True
        define d4 where "d4 = upd_sess (upd_pane d3 s j (\<lambda>p. p\<lparr>pn_use := True\<rparr>)) s (\<lambda>x. x\<lparr>ss_use := True\<rparr>)"
        obtain ad d5 where 5: "d_add_fd d4 (pn_fd (pane_at d4 s j)) POLLIN (OwnPane s j) = (ad, d5)" by fastforce
        have s: "s < MAX_SESSIONS" "\<not> ss_use (sess d s)" using v1 Inr by auto
        have vp: "att_view (upd_pane d3 s j f) = att_view d" for f using v3 by simp
        have ok4: "att_ok d4" unfolding d4_def using att_use [OF att_view_ok [OF vp ok] s(1) empty_table [OF ok s vp]] .
        have sn: "snd (att_view (upd_sess e s f)) = snd (att_view e)" for e f by (simp add: att_view_def upd_sess_def)
        have v5: "att_view d5 = att_view d4" using view_sys(5) [OF 5] .
        have use4: "ss_use (sess d4 s)" using s(1) att_tables [OF att_view_ok [OF vp ok]] by (simp add: d4_def upd_sess_def)
        have use5: "ss_use (sess d5 s)" using att_view_eqD(3) [OF v5, of s] use4 att_tables [OF ok4] s(1) by simp
        have tb4: "ss_clients (sess d4 s) = ss_clients (sess d s)"
          unfolding d4_def using upd_sess_table att_view_eqD(4) [OF vp, of s] att_tables [OF ok] s(1) by simp
        let ?d6 = "spawn_undo d5 s j"
        have v6: "att_view ?d6 = att_view d4" using v5 by simp
        have ok6: "att_ok ?d6" using att_view_ok [OF v6 ok4] .
        have "ss_clients (sess ?d6 s) = ss_clients (sess d s)"
          using att_view_eqD(4) [OF v6, of s] att_tables [OF ok4] s(1) tb4 by simp
        then have "\<forall>a. Some a \<notin> set (ss_clients (sess ?d6 s))" using empty_table [OF ok s refl] by simp
        from att_use [OF ok6 s(1) this] have ok7: "att_ok (upd_sess ?d6 s (\<lambda>x. x\<lparr>ss_use := False\<rparr>))" .
        have sn4: "snd (att_view d4) = snd (att_view d)" using sn vp by (simp add: d4_def)
        have "(res, d') = (if ad then (Inr s, d5) else (Inl (errno_or ENOSPC d5), upd_sess ?d6 s (\<lambda>x. x\<lparr>ss_use := False\<rparr>)))"
          using new 1 2 3 5 Inr res2 True by (cases ad) (simp_all add: session_new_def Let_def d4_def [symmetric])
        then show ?thesis using s(1) use5 ok7 att_view_ok [OF v5 ok4] v5 v6 sn4 sn by (auto split: if_splits)
      qed
    qed
  qed
qed


section \<open>Attaching\<close>

lemma attach_slot_cases:
  "attach_slot es c k = Inl True \<Longrightarrow> Some c \<in> set es"
  "attach_slot es c k = Inr i \<Longrightarrow> k \<le> i \<and> i < k + length es \<and> es ! (i - k) = None"
proof -
  show "attach_slot es c k = Inl True \<Longrightarrow> Some c \<in> set es"
    by (induction es arbitrary: k) (auto split: if_splits)
  show "attach_slot es c k = Inr i \<Longrightarrow> k \<le> i \<and> i < k + length es \<and> es ! (i - k) = None"
  proof (induction es arbitrary: k)
    case (Cons e es)
    then show ?case by (fastforce split: if_splits simp: nth_Cons')
  qed simp
qed

lemma fill_hole: "k < length l \<Longrightarrow> l ! k = None \<Longrightarrow> Some a \<in> set (l[k := Some c]) \<longleftrightarrow> a = c \<or> Some a \<in> set l"
  using arg_cong [OF id_take_nth_drop [of k l], of set] by (simp add: upd_conv_take_nth_drop)

lemma att_attach_repaint:
  assumes "att_ok d" "s < MAX_SESSIONS" "c < MAX_CLIENTS" shows "att_ok (attach_repaint d s c)"
proof -
  have chunks: "att_ok d \<Longrightarrow> att_ok (send_chunks n d c b)" for n d b
    by (induction n arbitrary: d b) (simp_all add: att_client_send assms(3))
  obtain blob d1 where b: "(if session_should_composite (sess d s)
      then (composite_frame (memory d) (sess d s) True, session_send_layout d s)
      else (case session_active_pane (sess d s) of None \<Rightarrow> [] | Some j \<Rightarrow>
              (case pn_vt (pane_at d s j) of None \<Rightarrow> [] | Some v \<Rightarrow> snapshot_or_empty d v), d)) = (blob, d1)" by fastforce
  then have "att_ok d1" using assms att_send_layout by (auto split: if_splits)
  then show ?thesis by (simp add: attach_repaint_def Let_def b chunks att_client_send assms(3))
qed

lemma att_session_attach:
  assumes ok: "att_but {c} d" and c: "c < MAX_CLIENTS" "cl_use (cli d c)" "attached (cli d c) = Some s"
    and s: "s < MAX_SESSIONS" "ss_use (sess d s)"
  shows "att_ok (session_attach d s c cl r)"
proof (cases "attach_slot (ss_clients (sess d s)) c 0")
  case (Inl b)
  show ?thesis
  proof (cases b)
    case True
    then have "Some c \<in> set (ss_clients (sess d s))" using attach_slot_cases(1) [of "ss_clients (sess d s)" c 0] Inl by simp
    then have "att_ok d"
    proof (intro att_butI att_tables_ok [OF ok] att_entryD [OF ok])
      fix a t assume m: "Some c \<in> set (ss_clients (sess d s))" and a: "a < MAX_CLIENTS" "cl_use (cli d a)" "attached (cli d a) = Some t"
      show "t < MAX_SESSIONS \<and> (a \<in> {} \<or> ss_use (sess d t) \<and> Some a \<in> set (ss_clients (sess d t)))"
        using att_clientD [OF ok a] m a(3) c(3) s(2) by (cases "a = c") simp_all
    qed
    then show ?thesis using Inl True by (simp add: session_attach_def)
  next
    case False
    then show ?thesis using Inl att_disconnect [OF ok c(1)] by (simp add: session_attach_def)
  qed
next
  case (Inr k)
  let ?d = "upd_sess d s (\<lambda>x. x\<lparr>ss_clients := (ss_clients x)[k := Some c]\<rparr>)"
  have len: "length (sessions d) = MAX_SESSIONS" "length (ss_clients (sess d s)) = MAX_CLIENTS_PER_SESSION"
    using att_tables [OF ok] att_table_len(1) [OF ok s(1)] by auto
  have k: "k < MAX_CLIENTS_PER_SESSION" "ss_clients (sess d s) ! k = None"
    using attach_slot_cases(2) [OF Inr] len by auto
  have at: "sess ?d t = (if t = s then (sess d s)\<lparr>ss_clients := (ss_clients (sess d s))[k := Some c]\<rparr> else sess d t)"
    if "t < MAX_SESSIONS" for t using that len s by (simp add: upd_sess_def nth_list_update)
  have cl: "clients ?d = clients d" by (simp add: upd_sess_def)
  have mem: "Some a \<in> set ((ss_clients (sess d s))[k := Some c]) \<longleftrightarrow> a = c \<or> Some a \<in> set (ss_clients (sess d s))" for a
    using k len fill_hole by metis
  have "att_ok ?d"
  proof (rule att_butI)
    show "tables_ok ?d" using att_tables_ok [OF ok] s(1)
      by (auto simp: tables_ok_def upd_sess_def all_set_conv_all_nth nth_list_update)
    show "ss_use (sess ?d t) \<and> a < MAX_CLIENTS \<and> cl_use (cli ?d a) \<and> attached (cli ?d a) = Some t"
      if t: "t < MAX_SESSIONS" and a: "Some a \<in> set (ss_clients (sess ?d t))" for t a
    proof (cases "t = s \<and> a = c")
      case True
      then show ?thesis using c s at [OF t] cl by simp
    next
      case False
      then have "Some a \<in> set (ss_clients (sess d t))" using a at [OF t] mem by (auto split: if_splits)
      from att_entryD [OF ok t this] show ?thesis using at [OF t] cl by auto
    qed
    show "t < MAX_SESSIONS \<and> (a \<in> {} \<or> ss_use (sess ?d t) \<and> Some a \<in> set (ss_clients (sess ?d t)))"
      if a: "a < MAX_CLIENTS" "cl_use (cli ?d a)" "attached (cli ?d a) = Some t" for a t
    proof (cases "a = c")
      case True
      then show ?thesis using a(3) c(3) s at [of t] cl mem by simp
    next
      case False
      then show ?thesis using att_clientD [OF ok] a at [of t] cl mem by auto
    qed
  qed
  then have "att_ok (session_resize ?d s mc mr)" for mc mr by (rule att_view_ok [OF view_geometry(4)])
  then show ?thesis using Inr att_attach_repaint [OF _ s(1) c(1)]
    by (simp add: session_attach_def Let_def case_prod_unfold)
qed

lemma att_join:
  assumes ok: "att_ok d" and c: "c < MAX_CLIENTS" "cl_use (cli d c)" and s: "s < MAX_SESSIONS" "ss_use (sess d s)"
    and f: "\<And>x. cl_use (f x) = cl_use x \<and> attached (f x) = Some s"
  shows "att_ok (session_attach (upd_cli (switch_session d c s) c f) s c cl r)"
proof -
  let ?e = "switch_session d c s"
  have ecli: "cli ?e a = cli d a" for a by (simp add: switch_session_def detach_client split: option.split)
  have ev: "att_but {c} ?e"
    using att_session_detach [OF ok] att_mono [OF ok] by (auto simp: switch_session_def split: option.split)
  have abs: "Some c \<notin> set (ss_clients (sess ?e t))" if "t < MAX_SESSIONS" "t \<noteq> s" for t
  proof (cases "attached (cli d c)")
    case None
    then show ?thesis using att_entryD [OF ok that(1)] by (auto simp: switch_session_def)
  next
    case (Some u)
    show ?thesis
    proof (cases "u = s")
      case True
      then show ?thesis using att_entryD [OF ok that(1)] Some that(2) by (auto simp: switch_session_def)
    next
      case False
      then show ?thesis using detach_absent [OF ok c(1) _ that(1)] Some by (simp add: switch_session_def)
    qed
  qed
  have len: "length (clients ?e) = MAX_CLIENTS" "length (sessions ?e) = MAX_SESSIONS" using att_tables [OF ev] by auto
  have at: "cli (upd_cli ?e c f) a = (if a = c then f (cli ?e c) else cli ?e a)" for a
    using len c(1) by (simp add: upd_cli_def nth_list_update)
  have se: "sessions (upd_cli ?e c f) = sessions ?e" by (simp add: upd_cli_def)
  have use: "ss_use (sess ?e s)"
  proof (cases "attached (cli d c)")
    case (Some u)
    have "ss_use (sess (session_detach d u c) s) = ss_use (sess d s)"
      using att_view_eqD(3) [OF view_session_detach [of d u c], of s] att_tables [OF ok] s(1)
      by (cases "u = s") (simp_all add: upd_sess_def)
    then show ?thesis using Some s(2) by (simp add: switch_session_def)
  qed (simp add: switch_session_def s)
  have "att_but {c} (upd_cli ?e c f)"
  proof (rule att_butI)
    show "tables_ok (upd_cli ?e c f)" using att_tables_ok [OF ev] by (simp add: tables_ok_def upd_cli_def)
    show "ss_use (sess (upd_cli ?e c f) t) \<and> a < MAX_CLIENTS \<and> cl_use (cli (upd_cli ?e c f) a) \<and> attached (cli (upd_cli ?e c f) a) = Some t"
      if t: "t < MAX_SESSIONS" and a: "Some a \<in> set (ss_clients (sess (upd_cli ?e c f) t))" for t a
      using att_entryD [OF ev t] a abs [OF t] f by (cases "t = s") (auto simp: at se)
    show "t < MAX_SESSIONS \<and> (a \<in> {c} \<or> ss_use (sess (upd_cli ?e c f) t) \<and> Some a \<in> set (ss_clients (sess (upd_cli ?e c f) t)))"
      if "a < MAX_CLIENTS" "cl_use (cli (upd_cli ?e c f) a)" "attached (cli (upd_cli ?e c f) a) = Some t" for a t
      using att_clientD [OF ev that(1)] that(2,3) f s(1) by (cases "a = c") (auto simp: at se)
  qed
  then show ?thesis using c s f use by (intro att_session_attach) (simp_all add: at se ecli)
qed

section \<open>Requests\<close>

lemma att_client_err: "att_ok d \<Longrightarrow> c < MAX_CLIENTS \<Longrightarrow> att_ok (client_err d c code msg)"
  by (simp add: client_err_def att_client_send)

lemma att_handle_new:
  assumes "att_ok d" "c < MAX_CLIENTS" "cl_use (cli d c)" shows "att_ok (handle_new d c p)"
proof -
  have "att_ok (case session_new (upd_cli d c (\<lambda>x. x\<lparr>cl_cols := cl, cl_rows := r\<rparr>)) name argv cl r of
      (Inl e, d) \<Rightarrow> client_err d c (if e = EEXIST then ERR_NAME_TAKEN else ERR_INTERNAL) (strerror d e)
    | (Inr s, d) \<Rightarrow> session_attach (upd_cli (switch_session d c s) c (\<lambda>x. x\<lparr>attached := Some s\<rparr>)) s c cl r)"
    for cl r name argv
  proof -
    let ?d = "upd_cli d c (\<lambda>x. x\<lparr>cl_cols := cl, cl_rows := r\<rparr>)"
    obtain res d' where n: "session_new ?d name argv cl r = (res, d')" by fastforce
    have ok: "att_ok ?d" using att_upd_cli [OF assms(1)] by simp
    note a = att_session_new [OF ok n]
    have "snd (att_view d') = snd (att_view d)" using a view_upd_cli [of "\<lambda>x. x\<lparr>cl_cols := cl, cl_rows := r\<rparr>" d c] by simp
    then have "map (\<lambda>x. (cl_use x, attached x)) (clients d') ! c = map (\<lambda>x. (cl_use x, attached x)) (clients d) ! c"
      by (simp add: att_view_def)
    then have "cl_use (cli d' c)" using assms att_tables [OF assms(1)] att_tables [of "{}" d'] a by simp
    then show ?thesis using n a assms(2) by (auto split: sum.splits intro!: att_client_err att_join)
  qed
  then show ?thesis using assms by (simp add: handle_new_def Let_def att_client_err)
qed

lemma att_handle_attach:
  assumes "att_ok d" "c < MAX_CLIENTS" "cl_use (cli d c)" shows "att_ok (handle_attach d c p)"
proof -
  have "att_ok (session_attach (upd_cli (switch_session d c s) c (\<lambda>x. x\<lparr>cl_cols := cl, cl_rows := r, attached := Some s\<rparr>)) s c cl r)"
    if "session_find d name = Some s" for s name cl r
    using that find_upt unfolding session_find_def by (intro att_join assms) fastforce+
  moreover from this have "att_ok (snd (session_select_pane
      (session_attach (upd_cli (switch_session d c s) c (\<lambda>x. x\<lparr>cl_cols := cl, cl_rows := r, attached := Some s\<rparr>)) s c cl r) s 0 i))"
    if "session_find d name = Some s" for s name cl r i
    using att_view_ok [OF view_select] that by blast
  ultimately show ?thesis using assms by (simp add: handle_attach_def Let_def att_client_err split: option.split)
qed

lemma att_handle_kill:
  assumes "att_ok d" "c < MAX_CLIENTS" shows "att_ok (handle_kill d c p)"
proof -
  have "att_ok (session_kill d s)" if "session_find d name = Some s" for s name
  proof -
    have "s < MAX_SESSIONS" using that find_upt by (fastforce simp: session_find_def)
    moreover have "att_view (foldl (\<lambda>d j. if pn_use (pane_at d s j) \<and> pn_pid (pane_at d s j) > 0
        then effect d (Hangup (pn_pid (pane_at d s j))) else d) d [0..<MAX_PANES_PER_SESSION]) = att_view d"
      by (rule view_foldl) simp
    ultimately show ?thesis unfolding session_kill_def by (intro att_free_slot att_view_ok [OF _ assms(1)])
  qed
  then show ?thesis using assms
    by (auto simp: handle_kill_def Let_def att_client_err handle_list_def att_client_send split: option.split)
qed

lemma att_detach_request:
  assumes ok: "att_ok d" and c: "c < MAX_CLIENTS" "attached (cli d c) = Some s"
  shows "att_ok (upd_cli (session_detach d s c) c (\<lambda>x. x\<lparr>attached := None\<rparr>))"
proof (rule att_butI)
  let ?e = "session_detach d s c" and ?f = "\<lambda>x::client. x\<lparr>attached := None\<rparr>"
  have ev: "att_but {c} ?e" using att_session_detach [OF ok] by simp
  have at: "cli (upd_cli ?e c ?f) a = (if a = c then ?f (cli ?e c) else cli ?e a)" for a
    using att_tables [OF ev] c(1) by (simp add: upd_cli_def nth_list_update)
  have se: "sessions (upd_cli ?e c ?f) = sessions ?e" by (simp add: upd_cli_def)
  show "tables_ok (upd_cli ?e c ?f)" using att_tables_ok [OF ev] by (simp add: tables_ok_def upd_cli_def)
  show "ss_use (sess (upd_cli ?e c ?f) t) \<and> a < MAX_CLIENTS \<and> cl_use (cli (upd_cli ?e c ?f) a) \<and> attached (cli (upd_cli ?e c ?f) a) = Some t"
    if t: "t < MAX_SESSIONS" and a: "Some a \<in> set (ss_clients (sess (upd_cli ?e c ?f) t))" for t a
    using att_entryD [OF ev t] a detach_absent [OF ok c(1) _ t, of s] c(2) by (auto simp: at se)
  show "t < MAX_SESSIONS \<and> (a \<in> {} \<or> ss_use (sess (upd_cli ?e c ?f) t) \<and> Some a \<in> set (ss_clients (sess (upd_cli ?e c ?f) t)))"
    if "a < MAX_CLIENTS" "cl_use (cli (upd_cli ?e c ?f) a)" "attached (cli (upd_cli ?e c ?f) a) = Some t" for a t
    using att_clientD [OF ev that(1)] that(2,3) by (cases "a = c") (auto simp: at se)
qed

text \<open>The requests of an attached client.\<close>

lemma att_attached_requests:
  assumes "att_ok d" "c < MAX_CLIENTS" "cl_use (cli d c)"
  shows "att_ok (handle_resize d c p)" "att_ok (handle_split d c p)" "att_ok (handle_close d c p)"
    "att_ok (handle_select d c p)" "att_ok (handle_scrollback d c p)"
proof -
  have s: "s < MAX_SESSIONS" if "attached (cli d c) = Some s" for s using att_clientD [OF assms that] by simp
  have "att_ok (upd_cli d c (\<lambda>x. x\<lparr>cl_cols := a, cl_rows := b\<rparr>))" for a b by (rule att_upd_cli [OF assms(1)]) simp
  then show "att_ok (handle_resize d c p)"
    using assms(1) by (auto simp: handle_resize_def Let_def split: option.split intro: att_view_ok [OF view_geometry(4)])
  have "att_ok (snd (session_split d s t st))" for s t st using att_view_ok [OF view_split assms(1)] .
  then have "att_ok (case session_split d s t st of (Inr _, d) \<Rightarrow> d | (Inl e, d) \<Rightarrow> client_err d c (g e) (h e))" for s t st g h
    using att_client_err [OF _ assms(2)] by (cases "session_split d s t st") (auto split: sum.split, (metis snd_conv)+)
  then show "att_ok (handle_split d c p)"
    using assms by (simp add: handle_split_def att_client_err split: option.split)
  have "att_ok (case session_close_pane d s i of (True, d) \<Rightarrow> d | (False, d) \<Rightarrow> client_err d c code msg)"
    if "s < MAX_SESSIONS" for s i code msg
    using att_client_err [OF _ assms(2)] att_close_pane [OF assms(1) that, of i]
    by (cases "session_close_pane d s i") (auto split: bool.split)
  then show "att_ok (handle_close d c p)"
    using assms s by (simp add: handle_close_def att_client_err split: option.split)
  have "att_ok (case session_select_pane d s m i of (True, d) \<Rightarrow> d | (False, d) \<Rightarrow> client_err d c code msg)" for s m i code msg
    using att_client_err [OF _ assms(2)] att_view_ok [OF view_select assms(1), of s m i]
    by (cases "session_select_pane d s m i") (auto split: bool.split)
  then show "att_ok (handle_select d c p)"
    using assms by (simp add: handle_select_def att_client_err split: option.split)
  have disk: "att_ok (snd (take_disk d))" "att_ok (upd_pane (snd (take_disk d)) t j f)" for t j f
    by (rule att_view_ok [OF _ assms(1)]; simp add: view_sys(3) [OF surjective_pairing])+
  then show "att_ok (handle_scrollback d c p)"
    using assms by (auto simp: handle_scrollback_def Let_def case_prod_unfold split: option.split intro!: att_client_send)
qed

lemma att_dispatch:
  assumes "att_ok d" "c < MAX_CLIENTS" "cl_use (cli d c)" shows "att_ok (dispatch d c t p)"
proof -
  have hello: "att_ok (handle_hello d c t p)"
    using assms att_upd_cli [OF assms(1)] by (simp add: handle_hello_def att_client_err att_disconnect_ok att_client_send)
  have "att_ok ((client_send d c 0x41 [])\<lparr>reload := True\<rparr>)"
    by (rule att_view_ok [OF view_basic(11)]) (rule att_client_send [OF assms(1,2)])
  moreover have "att_ok (session_stdin d s p)" for s by (rule att_view_ok [OF _ assms(1)]) simp
  ultimately show ?thesis using assms hello att_attached_requests [OF assms] att_detach_request [OF assms(1,2)]
    by (simp add: dispatch_def att_handle_new att_handle_attach att_handle_kill handle_list_def handle_list2_def att_client_send
        split: option.split)
qed

section \<open>Connections and the daemon\<close>

lemma att_client_read:
  "att_ok d \<Longrightarrow> c < MAX_CLIENTS \<Longrightarrow> client_read_loop c d rs = (res, d') \<Longrightarrow>
     att_ok d' \<and> (res \<noteq> None \<longrightarrow> cl_use (cli d' c) = cl_use (cli d c))"
proof (induction rs arbitrary: d)
  case (Cons r rs)
  show ?case
  proof (cases r)
    case (Got buf)
    let ?drop = "buf \<noteq> [] \<and> (\<not> hello_done (cli d c) \<and> rlen (cl_in (cli d c)) + length buf > PRE_HELLO_BUDGET \<or>
      \<not> fst (ring_write (cl_in (cli d c)) buf))"
    let ?d = "upd_cli d c (\<lambda>x. x\<lparr>cl_in := snd (ring_write (cl_in (cli d c)) buf)\<rparr>)"
    have eq: "client_read_loop c d (r # rs) = (if buf = [] then (Some True, d) else if ?drop then (None, client_disconnect d c)
        else if length buf < 16384 then (Some False, ?d) else client_read_loop c ?d rs)"
      by (cases "ring_write (cl_in (cli d c)) buf"; cases "fst (ring_write (cl_in (cli d c)) buf)") (simp_all add: Got Let_def)
    have ok: "att_ok ?d" using att_upd_cli [OF Cons.prems(1)] by simp
    have use: "cl_use (cli ?d c) = cl_use (cli d c)"
      using att_tables [OF Cons.prems(1)] Cons.prems(2) by (simp add: upd_cli_def)
    show ?thesis
      using Cons.prems(3) Cons.IH [OF ok Cons.prems(2)] Cons.prems(1) ok use att_disconnect_ok [OF Cons.prems(1,2)]
      unfolding eq by (auto split: if_splits)
  qed (use Cons att_disconnect_ok in auto)
qed simp

lemma att_client_frames: "att_ok d \<Longrightarrow> c < MAX_CLIENTS \<Longrightarrow> cl_use (cli d c) \<Longrightarrow> att_ok (client_frames n c d)"
proof (induction n arbitrary: d)
  case (Suc n)
  show ?case
  proof (cases "proto_read_frame (cl_in (cli d c))")
    case (Pair res r)
    show ?thesis
    proof (cases res)
      case (Frame t p)
      let ?d = "upd_cli d c (\<lambda>x. x\<lparr>cl_in := r\<rparr>)"
      have "att_ok ?d" "cl_use (cli ?d c)"
        using att_upd_cli [OF Suc.prems(1)] att_tables [OF Suc.prems(1)] Suc.prems by (simp_all add: upd_cli_def)
      then have "att_ok (dispatch ?d c t p)" using att_dispatch Suc.prems(2) by blast
      then show ?thesis using Pair Frame Suc.IH [of "dispatch ?d c t p"] Suc.prems(2) by (simp add: Let_def)
    qed (use Pair Suc.prems att_disconnect_ok in simp_all)
  qed
qed simp

lemma att_client_io:
  assumes "att_ok d" "c < MAX_CLIENTS" shows "att_ok (client_io d c re rs)"
proof -
  define e where "e = (if re AND POLLOUT \<noteq> 0 then client_flush d c else d)"
  have e: "att_ok e" using assms att_client_flush by (simp add: e_def)
  obtain res d' where r: "client_read_loop c e rs = (res, d')" by fastforce
  note a = att_client_read [OF e assms(2) r]
  have f: "att_ok (client_frames n c d')" if "cl_use (cli e c)" "res \<noteq> None" for n
    using a that att_client_frames [OF _ assms(2)] by simp
  show ?thesis unfolding client_io_def Let_def e_def [symmetric] r
    using assms e a f att_disconnect_ok [OF _ assms(2)] by (auto simp del: client_frames.simps split: option.split)
qed

lemma att_accept:
  assumes "att_ok d" shows "att_ok (server_accept d fd uid)"
proof (cases "find (\<lambda>i. \<not> cl_use (cli d i)) [0..<MAX_CLIENTS]")
  case None
  then show ?thesis using assms att_view_ok [OF view_basic(5) assms] by (simp add: server_accept_def)
next
  case (Some c)
  then have c: "c < MAX_CLIENTS" "\<not> cl_use (cli d c)" using find_upt by fastforce+
  obtain t e where n: "now_ms d = (t, e)" by fastforce
  have e: "att_ok e" using att_now_ms [OF assms n] .
  have ce: "\<not> cl_use (cli e c)" using att_view_eqD(6) [OF view_sys(1) [OF n]] att_tables [OF assms] c by simp
  have abs: "Some c \<notin> set (ss_clients (sess e s))" if "s < MAX_SESSIONS" for s using att_entryD [OF e that] ce by blast
  have upd: "att_ok (upd_cli g c f)" if v: "att_view g = att_view (upd_cli e c h)"
    and f: "\<And>x. cl_use (f x) \<Longrightarrow> attached (f x) = None" for f g h
  proof (rule att_butI)
    have g: "length (clients g) = MAX_CLIENTS" "length (sessions g) = MAX_SESSIONS"
      using att_view_eqD(1,2) [OF v] att_tables [OF e] by (simp_all add: upd_cli_def)
    have ss: "ss_use (sess g s) = ss_use (sess e s) \<and> ss_clients (sess g s) = ss_clients (sess e s) \<and>
        length (ss_panes (sess g s)) = length (ss_panes (sess e s))" if "s < MAX_SESSIONS" for s
      using att_view_eqD(3-5) [OF v, of s] that att_tables [OF e] by (simp add: upd_cli_def)
    have cs: "cl_use (cli g a) = cl_use (cli e a) \<and> attached (cli g a) = attached (cli e a)" if "a < MAX_CLIENTS" "a \<noteq> c" for a
      using att_view_eqD(6,7) [OF v, of a] that att_tables [OF e] by (simp add: upd_cli_def)
    have at: "cli (upd_cli g c f) a = (if a = c then f (cli g c) else cli g a)" for a
      using g c(1) by (simp add: upd_cli_def nth_list_update)
    have se: "sessions (upd_cli g c f) = sessions g" by (simp add: upd_cli_def)
    show "tables_ok (upd_cli g c f)" using att_tables_ok [OF e] g ss
      by (auto simp: tables_ok_def upd_cli_def all_set_conv_all_nth)
    show "ss_use (sess (upd_cli g c f) s) \<and> a < MAX_CLIENTS \<and> cl_use (cli (upd_cli g c f) a) \<and> attached (cli (upd_cli g c f) a) = Some s"
      if s: "s < MAX_SESSIONS" and a: "Some a \<in> set (ss_clients (sess (upd_cli g c f) s))" for s a
    proof -
      have m: "Some a \<in> set (ss_clients (sess e s))" using a ss [OF s] by (simp add: se)
      then have "a \<noteq> c" using abs [OF s] by auto
      then show ?thesis using att_entryD [OF e s m] ss [OF s] cs [of a] by (simp add: se at)
    qed
    show "s < MAX_SESSIONS \<and> (a \<in> {} \<or> ss_use (sess (upd_cli g c f) s) \<and> Some a \<in> set (ss_clients (sess (upd_cli g c f) s)))"
      if a: "a < MAX_CLIENTS" "cl_use (cli (upd_cli g c f) a)" "attached (cli (upd_cli g c f) a) = Some s" for a s
    proof -
      have "a \<noteq> c" using a f by (auto simp: at)
      then show ?thesis using att_clientD [OF e a(1), of s] a cs [of a] ss [of s] by (simp add: se at)
    qed
  qed
  let ?f = "\<lambda>x. x\<lparr>cl_fd := fd, cl_use := True, hello_done := False, connected_at := t, attached := None,
     cl_in := ring_init 4096 (2 * PROTO_MAX_PAYLOAD), cl_out := ring_init 4096 CLIENT_OUT_MAX\<rparr>"
  let ?g = "\<lambda>x. x\<lparr>cl_in := empty_ring (cl_in x), cl_out := empty_ring (cl_out x), cl_use := False\<rparr>"
  obtain ok h where h: "d_add_fd (upd_cli e c ?f) fd POLLIN (OwnClient c) = (ok, h)" by fastforce
  have "att_ok h" using att_view_ok [OF view_sys(5) [OF h] upd [of e "\<lambda>x. x"]] by (simp add: view_upd_cli)
  moreover have "att_ok (upd_cli (close_fd h fd) c ?g)" using view_sys(5) [OF h] by (intro upd [where h = ?f]) simp_all
  ultimately show ?thesis using assms Some n h att_view_ok [OF view_basic(5) assms]
    by (cases ok) (simp_all add: server_accept_def Let_def)
qed

lemma att_pty_read: "att_ok d \<Longrightarrow> s < MAX_SESSIONS \<Longrightarrow> att_ok (pty_read_loop m s j fd d rs)"
proof (induction rs arbitrary: d)
  case (Cons r rs)
  have del: "att_ok (d_del_fd d fd)" by (rule att_view_ok [OF _ Cons.prems(1)]) simp
  have "att_ok (pane_feed d s j b)" for b using att_pane_feed [OF Cons.prems] .
  then show ?case using Cons del by (auto simp: Let_def att_send_clients split: read_call.split)
qed simp

lemma att_pane_ready:
  assumes "att_ok d" "s < MAX_SESSIONS" shows "att_ok (pane_pty_readable d s j fd re rs)"
proof -
  define e where "e = (if re AND POLLOUT \<noteq> 0 \<and> stdin_len (pane_at d s j) \<noteq> 0 then pane_stdin_drain d s j else d)"
  have "att_ok e" by (rule att_view_ok [OF _ assms(1)]) (simp add: e_def)
  then have p: "att_ok (pty_read_loop m s j fd e rs)" for m using att_pty_read assms(2) by blast
  then have "att_ok (snd (now_ms (pty_read_loop m s j fd e rs)))" for m using att_now_ms surjective_pairing by blast
  then show ?thesis using p att_composite_one [OF _ assms(2)]
    unfolding pane_pty_readable_def Let_def e_def [symmetric] by (simp add: case_prod_unfold)
qed

lemma view_flush_all: "att_view (session_flush_all d) = att_view d"
  unfolding session_flush_all_def all_panes_def by (intro view_foldl) (simp add: view_foldl)

lemma att_tick:
  assumes "att_ok d" shows "att_ok (fst (daemon_tick (d, lf)))"
proof -
  have idle: "att_ok (server_reap_idle d)" if "att_ok d" for d
  proof -
    obtain t e where n: "now_ms d = (t, e)" by fastforce
    show ?thesis unfolding server_reap_idle_def n Let_def prod.case
      by (rule att_foldl [OF _ att_now_ms [OF that n]]) (simp add: att_disconnect_ok)
  qed
  have chg: "att_ok (server_broadcast_session_changes d)" if "att_ok d" for d
    unfolding server_broadcast_session_changes_def Let_def
    using that att_view_ok [OF view_basic(10) that] by (auto intro!: att_foldl att_client_send)
  have "att_ok (server_broadcast_session_changes (server_reap_idle (session_composite_all d)))"
    using assms by (intro chg idle att_composite_all)
  then have "att_ok (snd (now_ms (server_broadcast_session_changes (server_reap_idle (session_composite_all d)))))"
    using att_now_ms surjective_pairing by blast
  then show ?thesis by (simp add: daemon_tick_def Let_def case_prod_unfold att_view_ok [OF view_flush_all])
qed

lemma att_step: "att_ok d \<Longrightarrow> att_ok (daemon_step d e)"
  by (cases e) (simp_all add: att_accept att_client_io att_pane_ready att_reap_children att_tick)

interpretation daemon: inv_machine daemon_step att_ok
  by unfold_locales (rule att_step)

section \<open>Theorems\<close>

lemma att_cold_start: "cold_start d \<Longrightarrow> att_ok d"
  by (rule att_butI) (simp_all add: cold_start_def tables_ok_def zero_session_def zero_client_def)

text \<open>Claim C5. From a cold start, whatever connections, requests, child output, child exits and
  ticks follow, the two sides of every attachment agree: each entry of a session's client table is
  a live client attached to that session, and each attached client is in the table of a live
  session. So a request of an attached client always acts on the session it attached to, even when
  the slot of an earlier session has been reused.\<close>

theorem attachments_agree:
  assumes "cold_start d"
  shows "let d' = foldl daemon_step d es in
    (\<forall>s c. s < MAX_SESSIONS \<and> Some c \<in> set (ss_clients (sess d' s)) \<longrightarrow>
       ss_use (sess d' s) \<and> c < MAX_CLIENTS \<and> cl_use (cli d' c) \<and> attached (cli d' c) = Some s) \<and>
    (\<forall>c s. c < MAX_CLIENTS \<and> cl_use (cli d' c) \<and> attached (cli d' c) = Some s \<longrightarrow>
       s < MAX_SESSIONS \<and> ss_use (sess d' s) \<and> Some c \<in> set (ss_clients (sess d' s)))"
proof -
  let ?d = "foldl daemon_step d es"
  have ok: "att_ok ?d" by (rule daemon.run_inv [OF att_cold_start [OF assms]])
  show ?thesis unfolding Let_def using att_entryD [OF ok] att_clientD [OF ok] by blast
qed

text \<open>A client connects and says hello, creates a session \<open>a\<close>, and its child exits.\<close>

definition visit :: "daemon_event list" where
  "visit = [Accept 7 True, Client_Ready 0 POLLIN [Got (encode_frame (1, put_u16 1 @ put_u16 3))],
     Client_Ready 0 POLLIN [Got (encode_frame (0x12, n16 4 @ n16 2 @ [1, 0x61] @ n16 0))],
     Children [(42, Exited 0)], Tick 0]"

theorem attachments_agree_witness:
  "let d = blank_daemon\<lparr>spawns := [Some (9, 42)], writes := replicate 10 (Sent 1000)\<rparr>; d' = foldl daemon_step d visit in
    cold_start d \<and>
    (\<forall>s c. s < MAX_SESSIONS \<and> Some c \<in> set (ss_clients (sess d' s)) \<longrightarrow>
       ss_use (sess d' s) \<and> c < MAX_CLIENTS \<and> cl_use (cli d' c) \<and> attached (cli d' c) = Some s) \<and>
    (\<forall>c s. c < MAX_CLIENTS \<and> cl_use (cli d' c) \<and> attached (cli d' c) = Some s \<longrightarrow>
       s < MAX_SESSIONS \<and> ss_use (sess d' s) \<and> Some c \<in> set (ss_clients (sess d' s)))"
proof -
  let ?d = "blank_daemon\<lparr>spawns := [Some (9, 42)], writes := replicate 10 (Sent 1000)\<rparr>"
  have c: "cold_start ?d" by (simp add: cold_start_def blank_daemon_def)
  show ?thesis unfolding Let_def by (rule conjI [OF c attachments_agree [OF c, of visit, unfolded Let_def]])
qed

section \<open>Attaching twice\<close>

text \<open>While client \<open>c\<close> stays connected, sending keeps its entries in the table of session \<open>s\<close>.\<close>

definition kept :: "nat \<Rightarrow> nat \<Rightarrow> daemon \<Rightarrow> daemon \<Rightarrow> bool" where
  "kept c s d d' \<longleftrightarrow> length (sessions d') = length (sessions d) \<and> length (clients d') = length (clients d) \<and>
     length (ss_clients (sess d' s)) = length (ss_clients (sess d s)) \<and>
     (cl_use (cli d' c) \<longrightarrow> cl_use (cli d c) \<and>
       (\<forall>k<length (ss_clients (sess d s)). ss_clients (sess d s) ! k = Some c \<longrightarrow> ss_clients (sess d' s) ! k = Some c))"

lemma kept_trans [trans]: "kept c s d d' \<Longrightarrow> kept c s d' d'' \<Longrightarrow> kept c s d d''"
  by (auto simp only: kept_def)

lemma kept_refl [simp]: "kept c s d d"
  by (simp add: kept_def)

lemma kept_len: "kept c s d d' \<Longrightarrow> length (sessions d') = length (sessions d) \<and> length (clients d') = length (clients d)"
  by (simp add: kept_def)

lemma kept_view: "att_view d' = att_view d \<Longrightarrow> s < length (sessions d) \<Longrightarrow> c < length (clients d) \<Longrightarrow> kept c s d d'"
  using att_view_eqD [of d' d] by (simp add: kept_def)

lemma kept_foldl: "(\<And>d k. length (sessions d) = m \<Longrightarrow> length (clients d) = n \<Longrightarrow> kept c s d (f d k)) \<Longrightarrow>
    length (sessions d) = m \<Longrightarrow> length (clients d) = n \<Longrightarrow> kept c s d (foldl f d ks)"
proof (induction ks arbitrary: d)
  case (Cons k ks)
  have "kept c s d (f d k)" using Cons.prems by blast
  also from this have "kept c s (f d k) (foldl f (f d k) ks)" using Cons.IH [of "f d k"] Cons.prems kept_len [of c s d "f d k"] by simp
  finally show ?case by simp
qed simp

lemma kept_disconnect:
  assumes s: "s < length (sessions d)" and c: "c < length (clients d)"
  shows "kept c s d (client_disconnect d a)"
proof (cases "cl_use (cli d a)")
  case True
  define e where "e = (case attached (cli d a) of Some s \<Rightarrow> session_detach d s a | None \<Rightarrow> d)"
  have ecl: "cli e b = cli d b" "length (clients e) = length (clients d)" for b
    using detach_client att_view_eqD(2) [OF view_session_detach]
    by (auto simp: e_def upd_sess_def split: option.split)
  have e: "length (sessions e) = length (sessions d) \<and> length (ss_clients (sess e s)) = length (ss_clients (sess d s)) \<and>
      (a \<noteq> c \<longrightarrow> (\<forall>k<length (ss_clients (sess d s)). ss_clients (sess d s) ! k = Some c \<longrightarrow> ss_clients (sess e s) ! k = Some c))"
  proof (cases "attached (cli d a)")
    case (Some t)
    let ?u = "upd_sess d t (\<lambda>x. x\<lparr>ss_clients := map (\<lambda>k. if k = Some a then None else k) (ss_clients x)\<rparr>)"
    have "ss_clients (sess (session_detach d t a) s) = ss_clients (sess ?u s)" "length (sessions (session_detach d t a)) = length (sessions d)"
      using att_view_eqD(1,4) [OF view_session_detach [of d t a]] s by (simp_all add: upd_sess_def)
    then show ?thesis using s Some by (cases "t = s") (simp_all add: e_def upd_sess_def)
  qed (simp add: e_def)
  have "sessions (client_disconnect d a) = sessions e" "clients (client_disconnect d a) =
      (clients e)[a := (cli e a)\<lparr>cl_in := empty_ring (cl_in (cli e a)), cl_out := empty_ring (cl_out (cli e a)), cl_use := False\<rparr>]"
    using True by (simp_all add: client_disconnect_def e_def [symmetric] Let_def upd_cli_def close_fd_def effect_def d_del_fd_def)
  then show ?thesis using e ecl c by (cases "a = c") (auto simp: kept_def)
qed (simp add: client_disconnect_def kept_def)

lemma kept_client_flush:
  assumes s: "s < length (sessions d)" and c: "c < length (clients d)" shows "kept c s d (client_flush d a)"
proof -
  obtain r sent failed ws where f: "flush_loop (writes d) (cl_out (cli d a)) [] = (r, sent, failed, ws)"
    by (cases "flush_loop (writes d) (cl_out (cli d a)) []")
  let ?d = "effect (upd_cli (d\<lparr>writes := ws\<rparr>) a (\<lambda>x. x\<lparr>cl_out := r\<rparr>)) (Sock_Out (cl_fd (cli d a)) sent)"
  have v: "att_view ?d = att_view d" by (simp add: view_upd_cli)
  have k: "kept c s d ?d" using kept_view [OF v s c] .
  have len: "s < length (sessions ?d)" "c < length (clients ?d)" using att_view_eqD(1,2) [OF v] s c by simp_all
  have "kept c s d (client_disconnect ?d a)" using kept_trans [OF k kept_disconnect [OF len]] .
  moreover have "kept c s d (d_mod_fd ?d fd ev)" for fd ev
    using kept_trans [OF k kept_view [OF view_basic(3) len]] .
  ultimately show ?thesis unfolding client_flush_def f Let_def prod.case by (cases failed) simp_all
qed

lemma kept_client_send:
  assumes s: "s < length (sessions d)" and c: "c < length (clients d)" shows "kept c s d (client_send d a t p)"
proof -
  have "kept c s d (client_flush (upd_cli d a (\<lambda>x. x\<lparr>cl_out := r\<rparr>)) a)" for r
  proof (rule kept_trans)
    have v: "att_view (upd_cli d a (\<lambda>x. x\<lparr>cl_out := r\<rparr>)) = att_view d" by (simp add: view_upd_cli)
    show "kept c s d (upd_cli d a (\<lambda>x. x\<lparr>cl_out := r\<rparr>))" using kept_view [OF v s c] .
    show "kept c s (upd_cli d a (\<lambda>x. x\<lparr>cl_out := r\<rparr>)) (client_flush (upd_cli d a (\<lambda>x. x\<lparr>cl_out := r\<rparr>)) a)"
      by (rule kept_client_flush) (use att_view_eqD(1,2) [OF v] s c in simp_all)
  qed
  then show ?thesis using kept_disconnect [OF s c] by (auto simp: client_send_def split: prod.split bool.split)
qed

lemma kept_send_clients:
  assumes "s < length (sessions d)" and "c < length (clients d)" shows "kept c s d (send_clients d t P ty p)"
  unfolding send_clients_def
  by (rule kept_foldl [OF _ refl refl]) (use assms kept_client_send in \<open>simp split: option.split\<close>)

lemma kept_attach_repaint:
  assumes "s < length (sessions d)" and "c < length (clients d)" shows "kept c s d (attach_repaint d s c)"
proof -
  have chunks: "kept c s d (send_chunks n d c b)" if "s < length (sessions d)" "c < length (clients d)" for n d b
    using that
  proof (induction n arbitrary: d b)
    case (Suc n)
    let ?e = "client_send d c 0x30 (take SNAPSHOT_BODY_MAX b)"
    have k: "kept c s d ?e" using kept_client_send Suc.prems .
    then have "kept c s ?e (send_chunks n ?e c (drop SNAPSHOT_BODY_MAX b))" using Suc kept_len [OF k] by simp
    from kept_trans [OF k this] show ?case by simp
  qed simp
  obtain blob d1 where b: "(if session_should_composite (sess d s)
      then (composite_frame (memory d) (sess d s) True, session_send_layout d s)
      else (case session_active_pane (sess d s) of None \<Rightarrow> [] | Some j \<Rightarrow>
              (case pn_vt (pane_at d s j) of None \<Rightarrow> [] | Some v \<Rightarrow> snapshot_or_empty d v), d)) = (blob, d1)" by fastforce
  have d1: "kept c s d d1"
    using b kept_send_clients [OF assms] by (auto simp: session_send_layout_def split: if_splits)
  have step: "kept c s d (send_chunks n (client_send d1 c ty p) c body)" for n ty p body
  proof (rule kept_trans [OF d1], rule kept_trans)
    show k: "kept c s d1 (client_send d1 c ty p)" using kept_client_send kept_len [OF d1] assms by simp
    show "kept c s (client_send d1 c ty p) (send_chunks n (client_send d1 c ty p) c body)"
      using chunks kept_len [OF k] kept_len [OF d1] assms by simp
  qed
  show ?thesis unfolding attach_repaint_def Let_def b prod.case by (rule step)
qed

lemma attach_slot_first:
  "i < length es \<Longrightarrow> es ! i = None \<Longrightarrow> (\<forall>j<i. es ! j \<noteq> None \<and> es ! j \<noteq> Some c) \<Longrightarrow> attach_slot es c n = Inr (n + i)"
proof (induction es arbitrary: i n)
  case (Cons e es)
  show ?case
  proof (cases i)
    case (Suc i')
    have "e \<noteq> None \<and> e \<noteq> Some c" using Cons.prems(3) [rule_format, of 0] Suc by simp
    moreover have "attach_slot es c (Suc n) = Inr (Suc n + i')" using Cons.prems Suc by (intro Cons.IH) fastforce+
    ultimately show ?thesis using Suc by simp
  qed (use Cons in simp)
qed simp


text \<open>Session \<open>a\<close> with one client in its second slot; the first slot has been left.\<close>

definition gap_daemon :: daemon where
  "gap_daemon = blank_daemon\<lparr>
     sessions := (replicate MAX_SESSIONS zero_session)[0 := zero_session\<lparr>ss_use := True, ss_name := [0x61],
       ss_clients := [None, Some 0, None, None, None, None, None, None]\<rparr>],
     clients := (replicate MAX_CLIENTS zero_client)[0 := zero_client\<lparr>cl_use := True, hello_done := True, attached := Some 0,
       cl_out := ring_init 4096 CLIENT_OUT_MAX\<rparr>]\<rparr>"

lemma gap_daemon_ok: "att_ok gap_daemon"
proof (rule att_butI)
  have cl: "cli gap_daemon c = (if c = 0 then zero_client\<lparr>cl_use := True, hello_done := True, attached := Some 0,
       cl_out := ring_init 4096 CLIENT_OUT_MAX\<rparr> else zero_client)" if "c < MAX_CLIENTS" for c
    using that by (simp add: gap_daemon_def nth_list_update)
  have se: "sess gap_daemon s = (if s = 0 then zero_session\<lparr>ss_use := True, ss_name := [0x61],
       ss_clients := [None, Some 0, None, None, None, None, None, None]\<rparr> else zero_session)" if "s < MAX_SESSIONS" for s
    using that by (simp add: gap_daemon_def nth_list_update)
  show "tables_ok gap_daemon"
    by (auto simp: tables_ok_def gap_daemon_def zero_session_def table_sizes dest!: set_update_subset_insert [THEN subsetD])
  show "ss_use (sess gap_daemon s) \<and> c < MAX_CLIENTS \<and> cl_use (cli gap_daemon c) \<and> attached (cli gap_daemon c) = Some s"
    if "s < MAX_SESSIONS" "Some c \<in> set (ss_clients (sess gap_daemon s))" for s c
    using that by (auto simp: se cl zero_session_def table_sizes split: if_splits)
  show "s < MAX_SESSIONS \<and> (c \<in> {} \<or> ss_use (sess gap_daemon s) \<and> Some c \<in> set (ss_clients (sess gap_daemon s)))"
    if "c < MAX_CLIENTS" "cl_use (cli gap_daemon c)" "attached (cli gap_daemon c) = Some s" for c s
    using that by (auto simp: se cl zero_client_def table_sizes split: if_splits)
qed


end
