(* ===== verification/Pane_Tree.thy ===== *)
theory Pane_Tree
  imports Attach
begin

text \<open>
  The shape of a session: the leaves of its layout tree are exactly its live panes, every live pane
  has an engine, wire ids are distinct and never the reserved 255, the keyboard belongs to a live
  pane, and the view is within the engine's limits. \<open>sess_ok\<close> is kept by every operation of
  \<open>src/daemon/session.c\<close> and hence by every event of the daemon.
\<close>

section \<open>The invariant\<close>

text \<open>\<open>sess_but J\<close> allows leaves \<open>J\<close> that have no live pane (yet or any more) and does not say who
  has the keyboard.\<close>

definition sess_but :: "nat set \<Rightarrow> session \<Rightarrow> bool" where
  "sess_but J x \<longleftrightarrow> length (ss_panes x) = MAX_PANES_PER_SESSION \<and>
     (\<exists>t. layout_ok (ss_lt x) t \<and> set (panes (shape t)) = int ` (set (live_panes x) \<union> J)) \<and>
     (\<forall>i\<in>set (live_panes x). pn_vt (ss_panes x ! i) \<noteq> None \<and> pn_id (ss_panes x ! i) \<noteq> 255) \<and>
     inj_on (\<lambda>i. pn_id (ss_panes x ! i)) (set (live_panes x)) \<and> last_id x \<noteq> 255 \<and> 1 \<le> next_id x \<and> next_id x \<le> 254 \<and>
     1 \<le> view_cols x \<and> view_cols x \<le> VT_COLS_MAX \<and> 1 \<le> view_rows x \<and> view_rows x \<le> VT_ROWS_MAX"

definition live_ids :: "session \<Rightarrow> byte set" where
  "live_ids x = (\<lambda>i. pn_id (ss_panes x ! i)) ` set (live_panes x)"

definition sess_ok :: "session \<Rightarrow> bool" where
  "sess_ok x \<longleftrightarrow> sess_but {} x \<and> active_id x \<in> live_ids x"

text \<open>What the invariant depends on.\<close>

definition pane_core :: "pane \<Rightarrow> (byte \<times> bool) option" where
  "pane_core p = (if pn_use p then Some (pn_id p, pn_vt p = None) else None)"

definition sess_core :: "session \<Rightarrow> bool \<times> layout \<times> nat \<times> nat \<times> byte \<times> byte \<times> byte \<times> (byte \<times> bool) option list" where
  "sess_core x = (ss_use x, ss_lt x, view_cols x, view_rows x, active_id x, last_id x, next_id x, map pane_core (ss_panes x))"

definition core :: "daemon \<Rightarrow> (bool \<times> layout \<times> nat \<times> nat \<times> byte \<times> byte \<times> byte \<times> (byte \<times> bool) option list) list" where
  "core d = map sess_core (sessions d)"

lemma live_core:
  "length (ss_panes x) = MAX_PANES_PER_SESSION \<Longrightarrow>
     live_panes x = filter (\<lambda>i. map pane_core (ss_panes x) ! i \<noteq> None) [0..<MAX_PANES_PER_SESSION]"
  unfolding live_panes_def by (rule filter_cong) (auto simp: pane_core_def)

lemma in_live: "i \<in> set (live_panes x) \<longleftrightarrow> i < MAX_PANES_PER_SESSION \<and> pn_use (ss_panes x ! i)"
  by (auto simp: live_panes_def)

lemma sess_core_eqD:
  assumes "sess_core x = sess_core y" and "length (ss_panes y) = MAX_PANES_PER_SESSION"
  shows "length (ss_panes x) = MAX_PANES_PER_SESSION" "live_panes x = live_panes y" "ss_use x = ss_use y" "ss_lt x = ss_lt y"
    and "view_cols x = view_cols y" "view_rows x = view_rows y" "active_id x = active_id y" "last_id x = last_id y" "next_id x = next_id y"
    and "i \<in> set (live_panes y) \<Longrightarrow> pn_id (ss_panes x ! i) = pn_id (ss_panes y ! i) \<and> (pn_vt (ss_panes x ! i) = None) = (pn_vt (ss_panes y ! i) = None)"
proof -
  have m: "map pane_core (ss_panes x) = map pane_core (ss_panes y)" using assms(1) by (simp add: sess_core_def)
  show l: "length (ss_panes x) = MAX_PANES_PER_SESSION" using arg_cong [OF m, of length] assms(2) by simp
  show lv: "live_panes x = live_panes y" unfolding live_core [OF l] live_core [OF assms(2)] m ..
  show "ss_use x = ss_use y" "ss_lt x = ss_lt y" "view_cols x = view_cols y" "view_rows x = view_rows y" "active_id x = active_id y"
    "last_id x = last_id y" "next_id x = next_id y" using assms(1) by (auto simp: sess_core_def)
  show "pn_id (ss_panes x ! i) = pn_id (ss_panes y ! i) \<and> (pn_vt (ss_panes x ! i) = None) = (pn_vt (ss_panes y ! i) = None)"
    if i: "i \<in> set (live_panes y)"
  proof -
    have u: "pn_use (ss_panes x ! i)" "pn_use (ss_panes y ! i)" "i < MAX_PANES_PER_SESSION" using i lv by (metis in_live)+
    have "pane_core (ss_panes x ! i) = pane_core (ss_panes y ! i)" using arg_cong [OF m, of "\<lambda>l. l ! i"] u(3) l assms(2) by simp
    then show ?thesis using u by (simp add: pane_core_def)
  qed
qed

lemma sess_but_cong: "sess_core x = sess_core y \<Longrightarrow> sess_but J x = sess_but J y"
proof -
  have imp: "sess_but J x" if c: "sess_core x = sess_core y" and ok: "sess_but J y" for x y
  proof -
    have l: "length (ss_panes y) = MAX_PANES_PER_SESSION" using ok by (simp add: sess_but_def)
    note e = sess_core_eqD [OF c l]
    have "inj_on (\<lambda>i. pn_id (ss_panes x ! i)) (set (live_panes y)) = inj_on (\<lambda>i. pn_id (ss_panes y ! i)) (set (live_panes y))"
      using e(10) by (auto intro!: inj_on_cong)
    then show ?thesis using ok e unfolding sess_but_def by simp
  qed
  show "sess_core x = sess_core y \<Longrightarrow> sess_but J x = sess_but J y" using imp [of x y] imp [of y x] by auto
qed

lemma live_ids_cong:
  "sess_core x = sess_core y \<Longrightarrow> length (ss_panes y) = MAX_PANES_PER_SESSION \<Longrightarrow> live_ids x = live_ids y"
  using sess_core_eqD(2,10) [of x y] by (auto simp: live_ids_def)

lemma sess_ok_cong:
  assumes "sess_core x = sess_core y" shows "sess_ok x = sess_ok y"
proof (cases "sess_but {} y")
  case True
  then have l: "length (ss_panes y) = MAX_PANES_PER_SESSION" by (simp add: sess_but_def)
  show ?thesis using sess_but_cong [OF assms] live_ids_cong [OF assms l] sess_core_eqD(7) [OF assms l] by (simp add: sess_ok_def)
qed (use sess_but_cong [OF assms] in \<open>simp add: sess_ok_def\<close>)

definition tree_ok :: "daemon \<Rightarrow> bool" where
  "tree_ok d \<longleftrightarrow> length (sessions d) = MAX_SESSIONS \<and> (\<forall>s<MAX_SESSIONS. ss_use (sess d s) \<longrightarrow> sess_ok (sess d s))"

lemma core_nth: "core d' = core d \<Longrightarrow> length (sessions d') = length (sessions d) \<and> (s < length (sessions d) \<longrightarrow> sess_core (sess d' s) = sess_core (sess d s))"
proof -
  assume c: "core d' = core d"
  have l: "length (sessions d') = length (sessions d)" using arg_cong [OF c, of length] by (simp add: core_def)
  then show ?thesis using arg_cong [OF c, of "\<lambda>l. l ! s"] by (cases "s < length (sessions d)") (simp_all add: core_def)
qed

lemma tree_ok_core: "core d' = core d \<Longrightarrow> tree_ok d \<Longrightarrow> tree_ok d'"
proof -
  assume c: "core d' = core d" and t: "tree_ok d"
  have "ss_use (sess d' s) = ss_use (sess d s) \<and> sess_ok (sess d' s) = sess_ok (sess d s)" if "s < MAX_SESSIONS" for s
  proof -
    have "sess_core (sess d' s) = sess_core (sess d s)" using core_nth [OF c, of s] t that by (simp add: tree_ok_def)
    from sess_ok_cong [OF this] this show ?thesis by (simp add: sess_core_def)
  qed
  then show "tree_ok d'" using t core_nth [OF c] by (simp add: tree_ok_def)
qed

lemma core_upd_sess: "core (upd_sess d s f) = (core d)[s := sess_core (f (sess d s))]"
  by (simp add: core_def upd_sess_def map_update)

lemma core_upd_same: "(\<And>x. sess_core (f x) = sess_core x) \<Longrightarrow> core (upd_sess d s f) = core d"
  by (cases "s < length (sessions d)") (simp_all add: core_def upd_sess_def map_update list_update_same_conv list_update_beyond)

lemma tree_upd:
  assumes "tree_ok d" "s < MAX_SESSIONS" "ss_use (f (sess d s)) \<Longrightarrow> sess_ok (f (sess d s))"
  shows "tree_ok (upd_sess d s f)"
  using assms by (auto simp: tree_ok_def upd_sess_def nth_list_update)

section \<open>Operations that keep the core\<close>

lemma core_upd_at: "sess_core (f (sess d s)) = sess_core (sess d s) \<Longrightarrow> core (upd_sess d s f) = core d"
  by (cases "s < length (sessions d)") (simp_all add: core_def upd_sess_def map_update list_update_same_conv list_update_beyond)

lemma core_upd_pane_at:
  assumes "pane_core (f (pane_at d s j)) = pane_core (pane_at d s j)" shows "core (upd_pane d s j f) = core d"
  unfolding upd_pane_def
  by (rule core_upd_at, cases "j < length (ss_panes (sess d s))")
    (simp_all add: sess_core_def map_update list_update_same_conv list_update_beyond assms)

lemma core_upd_pane: "(\<And>p. pane_core (f p) = pane_core p) \<Longrightarrow> core (upd_pane d s j f) = core d"
  by (rule core_upd_pane_at) simp

lemma core_basic [simp]:
  "core (effect d e) = core d" "core (d_mod_fd d fd ev) = core d" "core (d_del_fd d fd) = core d" "core (close_fd d fd) = core d"
  "core (pty_resize d fd c r) = core d" "core (upd_cli d c f) = core d" "core (d\<lparr>writes := ws\<rparr>) = core d" "core (d\<lparr>files := fs\<rparr>) = core d"
  "core (d\<lparr>last_list := nl\<rparr>) = core d" "core (d\<lparr>reload := b\<rparr>) = core d"
  by (simp_all add: core_def effect_def d_mod_fd_def d_del_fd_def close_fd_def pty_resize_def upd_cli_def)

lemma core_sys:
  "now_ms d = (t, d') \<Longrightarrow> core d' = core d" "take_alloc d = (a, d') \<Longrightarrow> core d' = core d" "take_disk d = (w, d') \<Longrightarrow> core d' = core d"
  "take_spawn d = (sp, d') \<Longrightarrow> core d' = core d" "d_add_fd d fd ev ow = (ok, d') \<Longrightarrow> core d' = core d"
  by (auto simp: now_ms_def take_alloc_def take_disk_def take_spawn_def d_add_fd_def core_def split: list.splits prod.splits)

lemma core_foldl: "(\<And>d k. k \<in> set ks \<Longrightarrow> core (f d k) = core d) \<Longrightarrow> core (foldl f d ks) = core d"
  by (induction ks arbitrary: d) simp_all

lemma core_panes [simp]:
  "core (flush_sbs d s j) = core d" "core (flush_pane d s j) = core d" "core (pane_push_line d s j cs) = core d"
  "core (pane_stdin_drain d s j) = core d" "core (pane_stdin d s j bs) = core d" "core (session_stdin d s bs) = core d"
  "core (pane_damage_clear d s j) = core d" "core (pane_close_sb d s j) = core d" "core (pane_flush_screen d s j) = core d"
proof -
  have sb: "core (upd_pane d s j (\<lambda>p. p\<lparr>pn_sb := b\<rparr>)) = core d" for d s j b by (rule core_upd_pane) (simp add: pane_core_def)
  show a: "core (flush_sbs d s j) = core d" for d s j by (auto simp: flush_sbs_def sb split: option.splits prod.splits dest: core_sys)
  show "core (flush_pane d s j) = core d" by (simp add: flush_pane_def a)
  show b: "core (pane_push_line d s j cs) = core d" for d s j cs
    by (auto simp: pane_push_line_def sb split: option.splits prod.splits dest: core_sys)
  have dr: "core (upd_pane d s j (\<lambda>p. drained p n)) = core d" "core (upd_pane d s j (\<lambda>p. p\<lparr>stdin_len := 0, stdin_head := 0\<rparr>)) = core d" for d s j n
    by (rule core_upd_pane; simp add: pane_core_def drained_def)+
  have st: "core (upd_pane d s j (\<lambda>p. pane_stdin_stage p bs)) = core d" for d s j bs
    by (rule core_upd_pane) (simp add: pane_core_def pane_stdin_stage_def Let_def)
  show c: "core (pane_stdin_drain d s j) = core d" for d s j by (auto simp: pane_stdin_drain_def Let_def dr split: prod.splits)
  show e: "core (pane_stdin d s j bs) = core d" for d s j bs by (auto simp: pane_stdin_def Let_def c st split: prod.splits)
  show "core (session_stdin d s bs) = core d" by (auto simp: session_stdin_def e split: option.splits)
  show "core (pane_damage_clear d s j) = core d"
    unfolding pane_damage_clear_def by (rule core_upd_pane) (simp add: pane_core_def)
  have log: "core (store_log d nm i g) = core d" for d nm i g by (auto simp: store_log_def Let_def split: sum.splits option.splits)
  show "core (pane_close_sb d s j) = core d" for d s j
    by (auto simp: pane_close_sb_def Let_def log sb split: option.splits prod.splits dest: core_sys)
  show "core (pane_flush_screen d s j) = core d" for d s j
    by (auto simp: pane_flush_screen_def b split: option.splits intro!: core_foldl)
qed

lemma core_geometry [simp]:
  "core (pane_vt_resize d s j r c) = core d" "core (apply_pane d s i) = core d" "core (session_apply_layout d s) = core d"
  "core (session_unzoom d s) = core d"
proof -
  show a: "core (pane_vt_resize d s j r c) = core d" for d s j r c
  proof (cases "pn_vt (pane_at d s j)")
    case (Some v)
    obtain a0 d0 where 0: "take_alloc d = (a0, d0)" by fastforce
    obtain a1 d1 where 1: "take_alloc d0 = (a1, d1)" by fastforce
    have se: "sessions d1 = sessions d" using 0 1 by (auto simp: take_alloc_def split: list.splits)
    have "core (upd_pane d1 s j (\<lambda>p. p\<lparr>pn_vt := Some w\<rparr>)) = core d1" for w
      by (rule core_upd_pane_at) (simp add: pane_core_def se Some)
    then show ?thesis using core_sys(2) [OF 0] core_sys(2) [OF 1] by (simp add: pane_vt_resize_def Some 0 1)
  qed (simp add: pane_vt_resize_def)
  have xy: "core (upd_pane d s j (\<lambda>p. p\<lparr>pn_x := x, pn_y := y\<rparr>)) = core d"
    "core (upd_pane d s j (\<lambda>p. p\<lparr>pn_cols := x, pn_rows := y\<rparr>)) = core d" for d s j x y
    by (rule core_upd_pane; simp add: pane_core_def)+
  show b: "core (apply_pane d s i) = core d" for d s i
    by (auto simp: apply_pane_def Let_def a xy split: option.splits)
  show c: "core (session_apply_layout d s) = core d" for d s
    unfolding session_apply_layout_def by (subst core_upd_same) (simp_all add: sess_core_def core_foldl b)
  show "core (session_unzoom d s) = core d"
    unfolding session_unzoom_def using c core_upd_same [of "\<lambda>x. x\<lparr>zoomed_id := 255\<rparr>" d s] by (simp add: sess_core_def)
qed

lemma core_detach: "core (session_detach d s c) = core d"
proof -
  have "core (session_detach d s c) = core (upd_sess d s (\<lambda>x. x\<lparr>ss_clients := map (\<lambda>k. if k = Some c then None else k) (ss_clients x)\<rparr>))"
    unfolding session_detach_def Let_def by (rule core_foldl) simp
  then show ?thesis by (simp add: core_upd_same sess_core_def)
qed

lemma core_send [simp]:
  "core (client_disconnect d c) = core d" "core (client_flush d c) = core d" "core (client_send d c t p) = core d"
  "core (send_clients d s P t p) = core d" "core (session_send_layout d s) = core d" "core (client_err d c code msg) = core d"
  "core (drop_client d s k) = core d" "core (send_repaint b d s k) = core d" "core (send_chunks n d c body) = core d"
proof -
  show a: "core (client_disconnect d c) = core d" for d c
    by (auto simp: client_disconnect_def Let_def core_detach split: option.splits)
  show b: "core (client_flush d c) = core d" for d c
    by (auto simp: client_flush_def Let_def a split: prod.splits)
  show c: "core (client_send d c t p) = core d" for d c t p
    by (auto simp: client_send_def a b split: prod.splits bool.splits)
  show e: "core (send_clients d s P t p) = core d" for d s P t p
    unfolding send_clients_def by (rule core_foldl) (simp add: c split: option.split)
  show "core (session_send_layout d s) = core d" by (simp add: session_send_layout_def e)
  show "core (client_err d c code msg) = core d" by (simp add: client_err_def c)
  show "core (drop_client d s k) = core d" by (simp add: drop_client_def a core_upd_same sess_core_def split: option.split)
  show "core (send_repaint b d s k) = core d" by (simp add: send_repaint_def Let_def c split: option.split)
  show "core (send_chunks n d c body) = core d" for d c body by (induction n arbitrary: d body) (simp_all add: c)
qed

lemma core_frames [simp]:
  "core (vt_callback s j d e) = core d" "core (pane_feed d s j bs) = core d" "core (session_composite_one d s) = core d"
  "core (session_leave_composite d s) = core d" "core (attach_repaint d s c) = core d"
proof -
  show a: "core (vt_callback s j d e) = core d" for d e
    by (cases e) (simp_all add: vt_cb_response_def vt_cb_scrollback_def vt_cb_bell_def)
  show "core (pane_feed d s j bs) = core d"
  proof (cases "pn_vt (pane_at d s j)")
    case (Some v)
    have "core (upd_pane d s j (\<lambda>p. p\<lparr>pn_vt := Some w\<rparr>)) = core d" for w by (rule core_upd_pane_at) (simp add: pane_core_def Some)
    then show ?thesis by (simp add: pane_feed_def Some Let_def core_foldl a)
  qed (simp add: pane_feed_def)
  have ld: "core (upd_sess d s (\<lambda>x. x\<lparr>layout_dirty := b\<rparr>)) = core d" "core (upd_sess d s (\<lambda>x. x\<lparr>last_frame_ms := t\<rparr>)) = core d" for d s b t
    by (rule core_upd_same; simp add: sess_core_def)+
  have nw: "core (snd (now_ms d)) = core d" for d using core_sys(1) surjective_pairing by blast
  show "core (session_composite_one d s) = core d"
    by (simp add: session_composite_one_def Let_def case_prod_unfold ld nw core_foldl)
  show "core (session_leave_composite d s) = core d"
    by (simp add: session_leave_composite_def Let_def ld core_foldl split: option.split)
  show "core (attach_repaint d s c) = core d"
    by (simp add: attach_repaint_def Let_def case_prod_unfold)
qed

lemma upd_pane_cases:
  "pane_at (upd_pane d s j f) s j = f (pane_at d s j) \<or> upd_pane d s j f = d"
  by (cases "s < length (sessions d)"; cases "j < length (ss_panes (sess d s))")
    (simp_all add: upd_pane_def upd_sess_def list_update_beyond)

lemma core_dead:
  "\<not> pn_use (pane_at d s j) \<Longrightarrow> \<not> pn_use (f (pane_at d s j)) \<Longrightarrow> core (upd_pane d s j f) = core d \<and> \<not> pn_use (pane_at (upd_pane d s j f) s j)"
  using upd_pane_cases [of d s j f] core_upd_pane_at [of f d s j] by (auto simp: pane_core_def)

lemma alloc_sessions: "sessions (snd (take_alloc d)) = sessions d"
  by (simp add: take_alloc_def split: list.split)

lemma core_pane_setup:
  assumes "pane_setup d s j i c r = (ok, d')" and nu: "\<not> pn_use (pane_at d s j)"
  shows "core d' = core d \<and> \<not> pn_use (pane_at d' s j)"
proof -
  define e where "e = upd_pane d s j (\<lambda>_. zero_pane\<lparr>pn_id := i, pn_cols := c, pn_rows := r, pn_fd := - 1, pn_pid := - 1\<rparr>)"
  have e: "core e = core d" "\<not> pn_use (pane_at e s j)" using core_dead [OF nu] by (simp_all add: e_def zero_pane_def)
  let ?g = "snd (take_alloc (snd (take_alloc (snd (take_alloc e)))))"
  have g: "core ?g = core d" "\<not> pn_use (pane_at ?g s j)" using e by (simp_all add: alloc_sessions core_def)
  have h: "core (upd_pane ?g s j (\<lambda>p. p\<lparr>pn_vt := v, pn_sb := b\<rparr>)) = core d \<and> \<not> pn_use (pane_at (upd_pane ?g s j (\<lambda>p. p\<lparr>pn_vt := v, pn_sb := b\<rparr>)) s j)" for v b
    using core_dead [OF g(2), of "\<lambda>p. p\<lparr>pn_vt := v, pn_sb := b\<rparr>"] g by simp
  show ?thesis using assms(1) g h unfolding pane_setup_def Let_def e_def [symmetric] case_prod_unfold
    by (auto split: option.splits)
qed

lemma core_pane_spawn: "pane_spawn d s j argv c r = (ok, d') \<Longrightarrow> core d' = core d \<and> pn_use (pane_at d' s j) = pn_use (pane_at d s j)"
proof -
  assume sp: "pane_spawn d s j argv c r = (ok, d')"
  let ?e = "snd (take_spawn d)"
  have e: "sessions ?e = sessions d" by (simp add: take_spawn_def split: list.split)
  have "core (upd_pane ?e s j (\<lambda>p. p\<lparr>pn_fd := fd, pn_pid := pid\<rparr>)) = core ?e" for fd pid
    by (rule core_upd_pane) (simp add: pane_core_def)
  moreover have "pn_use (pane_at (upd_pane ?e s j (\<lambda>p. p\<lparr>pn_fd := fd, pn_pid := pid\<rparr>)) s j) = pn_use (pane_at ?e s j)" for fd pid
    using upd_pane_cases [of ?e s j "\<lambda>p. p\<lparr>pn_fd := fd, pn_pid := pid\<rparr>"] by auto
  ultimately show ?thesis using sp e unfolding pane_spawn_def
    by (auto simp: core_def effect_def split: option.splits prod.splits)
qed

lemma core_pane_alloc:
  assumes "pane_alloc d s i c r = (res, d')"
  shows "core d' = core d \<and> (\<forall>j. res = Inr j \<longrightarrow> j < MAX_PANES_PER_SESSION \<and> free_pane_slot (sess d s) = Some j \<and> \<not> pn_use (pane_at d' s j))"
proof (cases "free_pane_slot (sess d s)")
  case (Some j)
  then have j: "j < MAX_PANES_PER_SESSION" "\<not> pn_use (pane_at d s j)" using find_upt by (fastforce simp: free_pane_slot_def)+
  obtain ok e where e: "pane_setup d s j i c r = (ok, e)" by fastforce
  show ?thesis using assms core_pane_setup [OF e j(2)] j Some e by (auto simp: pane_alloc_def split: if_splits)
qed (use assms in \<open>auto simp: pane_alloc_def\<close>)

text \<open>Undoing a pane that never became live, and freeing one that was.\<close>

definition bury :: "pane \<Rightarrow> pane" where "bury p = p\<lparr>pn_use := False\<rparr>"

lemma core_bury_after: "core (upd_pane (upd_pane d s j f) s j bury) = core (upd_pane d s j bury)"
  by (cases "s < length (sessions d)"; cases "j < length (ss_panes (sess d s))")
    (simp_all add: upd_pane_def upd_sess_def core_def sess_core_def map_update pane_core_def bury_def list_update_beyond)

lemma core_bury_cong: "core d' = core d \<Longrightarrow> core (upd_pane d' s j bury) = core (upd_pane d s j bury)"
proof -
  assume c: "core d' = core d"
  have b: "pane_core (bury p) = None" for p by (simp add: bury_def pane_core_def)
  note n = core_nth [OF c, of s]
  show ?thesis
  proof (cases "s < length (sessions d)")
    case True
    then have "sess_core (sess d' s) = sess_core (sess d s)" using n by simp
    then show ?thesis unfolding upd_pane_def core_upd_sess c by (simp add: sess_core_def map_update b)
  next
    case False
    then show ?thesis using c n by (simp add: upd_pane_def upd_sess_def list_update_beyond core_def)
  qed
qed

lemma core_free:
  "core (pane_free_slot d s j) = core (upd_pane d s j bury)" "core (pane_alloc_undo d s j) = core (upd_pane d s j bury)"
  "core (spawn_undo d s j) = core (upd_pane d s j bury)"
proof -
  have b: "(\<lambda>p. p\<lparr>pn_use := False\<rparr>) = bury" by (simp add: bury_def fun_eq_iff)
  have fd: "core (upd_pane d s j (\<lambda>p. p\<lparr>pn_fd := n\<rparr>)) = core d" for d s j n by (rule core_upd_pane) (simp add: pane_core_def)
  define e where "e = (let d = pane_flush_screen d s j; fd = pn_fd (pane_at d s j)
     in if fd \<ge> 0 then upd_pane (close_fd (d_del_fd d fd) fd) s j (\<lambda>p. p\<lparr>pn_fd := - 1\<rparr>) else d)"
  have e: "core e = core d" by (simp add: e_def Let_def fd)
  define g where "g = upd_pane e s j (\<lambda>p. p\<lparr>stdin_buf := [], stdin_len := 0, stdin_head := 0, pn_vt := None\<rparr>)"
  have "pane_free_slot d s j = upd_pane (pane_close_sb g s j) s j bury" unfolding pane_free_slot_def g_def e_def Let_def b ..
  moreover have "core (upd_pane (pane_close_sb g s j) s j bury) = core (upd_pane g s j bury)" by (rule core_bury_cong) simp
  moreover have "core (upd_pane g s j bury) = core (upd_pane e s j bury)" unfolding g_def by (rule core_bury_after)
  moreover have "core (upd_pane e s j bury) = core (upd_pane d s j bury)" by (rule core_bury_cong [OF e])
  ultimately show "core (pane_free_slot d s j) = core (upd_pane d s j bury)" by simp
  show u: "core (pane_alloc_undo d s j) = core (upd_pane d s j bury)" for d
    using core_bury_cong [of "pane_close_sb (upd_pane d s j (\<lambda>p. p\<lparr>pn_vt := None\<rparr>)) s j" "upd_pane d s j (\<lambda>p. p\<lparr>pn_vt := None\<rparr>)" s j]
    by (simp add: pane_alloc_undo_def Let_def b core_bury_after)
  show "core (spawn_undo d s j) = core (upd_pane d s j bury)"
    unfolding spawn_undo_def Let_def u by (rule core_bury_cong) (simp add: fd)
qed

section \<open>Closing a pane\<close>

lemma live_upd:
  assumes "length (ss_panes x) = MAX_PANES_PER_SESSION" "j < MAX_PANES_PER_SESSION"
  shows "set (live_panes (x\<lparr>ss_panes := (ss_panes x)[j := p]\<rparr>)) = (if pn_use p then insert j (set (live_panes x)) else set (live_panes x) - {j})"
  using assms by (auto simp: in_live nth_list_update split: if_splits)

lemma live_other: "live_panes (x\<lparr>ss_lt := a\<rparr>) = live_panes x" "live_panes (x\<lparr>active_id := b\<rparr>) = live_panes x"
  "live_panes (x\<lparr>last_id := b, active_id := b'\<rparr>) = live_panes x" "live_panes (x\<lparr>next_id := b\<rparr>) = live_panes x"
  "live_panes (x\<lparr>view_cols := n, view_rows := m\<rparr>) = live_panes x" "live_panes (x\<lparr>ss_use := u\<rparr>) = live_panes x"
  "live_panes (x\<lparr>last_id := b\<rparr>) = live_panes x"
  by (simp_all add: live_panes_def)

lemma sess_but_bury:
  assumes "sess_but {} x" and "j \<in> set (live_panes x)"
  shows "sess_but {j} (x\<lparr>ss_panes := (ss_panes x)[j := bury (ss_panes x ! j)]\<rparr>)"
proof -
  let ?y = "x\<lparr>ss_panes := (ss_panes x)[j := bury (ss_panes x ! j)]\<rparr>"
  have l: "length (ss_panes x) = MAX_PANES_PER_SESSION" "j < MAX_PANES_PER_SESSION" using assms by (auto simp: sess_but_def in_live)
  have lv: "set (live_panes ?y) = set (live_panes x) - {j}" using live_upd [OF l, of "bury (ss_panes x ! j)"] by (simp add: bury_def)
  have eq: "ss_panes ?y ! i = ss_panes x ! i" if "i \<in> set (live_panes x) - {j}" for i using that by simp
  have "inj_on (\<lambda>i. pn_id (ss_panes ?y ! i)) (set (live_panes x) - {j}) = inj_on (\<lambda>i. pn_id (ss_panes x ! i)) (set (live_panes x) - {j})"
    by (rule inj_on_cong) simp
  then have "inj_on (\<lambda>i. pn_id (ss_panes ?y ! i)) (set (live_panes x) - {j})"
    using assms(1) by (auto simp: sess_but_def intro: inj_on_subset)
  then show ?thesis using assms(1) l assms(2) eq unfolding sess_but_def lv by (simp add: insert_absorb)
qed

lemma sess_but_close:
  assumes but: "sess_but {j} x" and j: "j \<notin> set (live_panes x)" "live_panes x \<noteq> []"
  shows "sess_but {} (x\<lparr>ss_lt := snd (layout_close (ss_lt x) vc vr (int j))\<rparr>)"
proof -
  obtain t where t: "layout_ok (ss_lt x) t" "set (panes (shape t)) = int ` (set (live_panes x) \<union> {j})"
    using but by (auto simp: sess_but_def)
  obtain i where i: "i \<in> set (live_panes x)" using j(2) by (cases "live_panes x") auto
  have in_t: "int j \<in> set (panes (shape t))" "int i \<in> set (panes (shape t))" "int i \<noteq> int j" using t(2) i j(1) by auto
  then have ne: "shape t \<noteq> PPane (int j)" by auto
  obtain ok lt where c: "layout_close (ss_lt x) vc vr (int j) = (ok, lt)" by fastforce
  obtain t' where t': "layout_ok lt t'" "shape t' = pclose (shape t) (int j)"
    using layout_close_refines [OF t(1), where vc = vc and vr = vr and p = "int j"] in_t ne c by (cases ok) auto
  have "set (panes (shape t')) = int ` set (live_panes x)"
    using panes_pclose [of "shape t" "int j"] t ne t'(2) j(1) by (auto simp: layout_ok_def)
  then show ?thesis using but t'(1) c unfolding sess_but_def by (auto simp: live_other)
qed

lemma find_none: "find P [0..<n] = None \<longleftrightarrow> (\<forall>i<n. \<not> P i)"
  by (auto simp: find_None_iff)

lemma pane_by_id:
  assumes "i \<noteq> 255"
  shows "session_pane_by_id x i = None \<longleftrightarrow> i \<notin> live_ids x"
    and "session_pane_by_id x i = Some j \<Longrightarrow> j \<in> set (live_panes x) \<and> pn_id (ss_panes x ! j) = i"
  using assms find_upt [of _ MAX_PANES_PER_SESSION j] by (auto simp: session_pane_by_id_def find_none live_ids_def in_live)

lemma active_pane:
  "session_active_pane x = Some j \<Longrightarrow> j \<in> set (live_panes x)" "session_active_pane x = None \<Longrightarrow> live_panes x = []"
proof -
  show "session_active_pane x = Some j \<Longrightarrow> j \<in> set (live_panes x)"
    unfolding session_active_pane_def in_live by (auto split: option.splits dest: find_upt)
  assume "session_active_pane x = None"
  then have "find (\<lambda>i. pn_use (ss_panes x ! i)) [0..<MAX_PANES_PER_SESSION] = None"
    by (simp add: session_active_pane_def split: option.splits)
  then show "live_panes x = []" by (simp add: find_none live_panes_def)
qed

lemma pane_by_id_live: "session_pane_by_id x i = Some j \<Longrightarrow> j \<in> set (live_panes x)"
proof (cases "i = 255")
  case True
  assume "session_pane_by_id x i = Some j"
  then show ?thesis using True active_pane(1) by (simp add: session_pane_by_id_def)
qed (use pane_by_id(2) in blast)

lemma sess_but_more:
  "sess_but J (x\<lparr>active_id := b\<rparr>) = sess_but J x" "sess_but J (x\<lparr>ss_use := u\<rparr>) = sess_but J x"
  "b \<noteq> 255 \<Longrightarrow> sess_but J x \<Longrightarrow> sess_but J (x\<lparr>last_id := b, active_id := b'\<rparr>)"
  by (simp_all add: sess_but_def live_other)

lemma sess_ok_refocus:
  assumes "sess_but {} x" and "live_panes x \<noteq> []" and "active_id x \<noteq> 255"
  shows "sess_ok (refocus x)"
proof (cases "active_id x \<in> live_ids x")
  case True
  then have "session_pane_by_id x (active_id x) \<noteq> None" using pane_by_id(1) [OF assms(3)] by simp
  then have "refocus x = x" by (auto simp: refocus_def)
  then show ?thesis using True assms(1) by (simp add: sess_ok_def)
next
  case False
  then have n: "session_pane_by_id x (active_id x) = None" using pane_by_id(1) [OF assms(3)] by simp
  obtain j where j: "session_active_pane x = Some j" using active_pane(2) assms(2) by fastforce
  have "live_ids (x\<lparr>active_id := pn_id (ss_panes x ! j)\<rparr>) = live_ids x" by (simp add: live_ids_def live_other)
  then show ?thesis using active_pane(1) [OF j] assms(1) n j by (simp add: refocus_def sess_ok_def sess_but_more live_ids_def)
qed

lemma refocus_use: "ss_use (refocus x) = ss_use x"
  by (simp add: refocus_def split: option.split)

definition tree_but :: "nat \<Rightarrow> daemon \<Rightarrow> bool" where
  "tree_but s d \<longleftrightarrow> length (sessions d) = MAX_SESSIONS \<and> (\<forall>t<MAX_SESSIONS. t \<noteq> s \<longrightarrow> ss_use (sess d t) \<longrightarrow> sess_ok (sess d t))"

lemma tree_butI: "tree_ok d \<Longrightarrow> tree_but s d"
  by (simp add: tree_but_def tree_ok_def)

lemma tree_but_others:
  assumes "tree_but s d" and "length (sessions e) = MAX_SESSIONS"
    and "\<And>t. t < MAX_SESSIONS \<Longrightarrow> t \<noteq> s \<Longrightarrow> sess_core (sess e t) = sess_core (sess d t)"
  shows "tree_but s e"
  unfolding tree_but_def
proof (intro conjI allI impI assms(2))
  fix t assume t: "t < MAX_SESSIONS" "t \<noteq> s" and u: "ss_use (sess e t)"
  have c: "sess_core (sess e t) = sess_core (sess d t)" using assms(3) t .
  then have "ss_use (sess d t)" using u by (simp add: sess_core_def)
  then show "sess_ok (sess e t)" using assms(1) t sess_ok_cong [OF c] by (simp add: tree_but_def)
qed

lemma tree_replace:
  assumes "tree_but s d" and "length (sessions e) = MAX_SESSIONS"
    and "\<And>t. t < MAX_SESSIONS \<Longrightarrow> t \<noteq> s \<Longrightarrow> sess_core (sess e t) = sess_core (sess d t)"
    and "ss_use (f (sess e s)) \<Longrightarrow> sess_ok (f (sess e s))"
  shows "tree_ok (upd_sess e s f)"
  unfolding tree_ok_def
proof (intro conjI allI impI)
  show "length (sessions (upd_sess e s f)) = MAX_SESSIONS" using assms(2) by (simp add: upd_sess_def)
  fix t assume t: "t < MAX_SESSIONS" and u: "ss_use (sess (upd_sess e s f) t)"
  show "sess_ok (sess (upd_sess e s f) t)"
  proof (cases "t = s")
    case True
    then show ?thesis using assms(2,4) t u by (simp add: upd_sess_def)
  next
    case False
    then have eq: "sess (upd_sess e s f) t = sess e t" by (simp add: upd_sess_def)
    have c: "sess_core (sess e t) = sess_core (sess d t)" using assms(3) t False .
    then have "ss_use (sess d t)" using u by (simp add: eq sess_core_def)
    then show ?thesis using assms(1) t False sess_ok_cong [OF c] by (simp add: eq tree_but_def)
  qed
qed

lemma tree_pane_gone:
  assumes ok: "tree_ok d" and s: "s < MAX_SESSIONS" "ss_use (sess d s)" and j: "j \<in> set (live_panes (sess d s))"
    and two: "length (live_panes (sess d s)) \<ge> 2" and i: "i = pn_id (pane_at d s j)"
  shows "tree_ok (pane_gone d s j i)"
proof -
  let ?x = "sess d s"
  define x1 where "x1 = ?x\<lparr>ss_panes := (ss_panes ?x)[j := bury (ss_panes ?x ! j)]\<rparr>"
  define e where "e = pane_free_slot d s j"
  have xok: "sess_ok ?x" using ok s by (simp add: tree_ok_def)
  have len: "length (sessions d) = MAX_SESSIONS" using ok by (simp add: tree_ok_def)
  have ce: "core e = core (upd_pane d s j bury)" unfolding e_def by (rule core_free(1))
  have sx: "sess (upd_pane d s j bury) s = x1" using len s(1) by (simp add: upd_pane_def upd_sess_def x1_def)
  have c1: "sess_core (sess e s) = sess_core x1" using core_nth [OF ce, of s] len s(1) sx by (simp add: upd_pane_def upd_sess_def)
  have b1: "sess_but {j} x1" unfolding x1_def using sess_but_bury [OF _ j] xok by (simp add: sess_ok_def)
  have l1: "length (ss_panes x1) = MAX_PANES_PER_SESSION" using b1 by (simp add: sess_but_def)
  have y: "sess_but {j} (sess e s)" "active_id (sess e s) = active_id ?x" "last_id (sess e s) = last_id ?x"
      "live_panes (sess e s) = live_panes x1"
    using sess_but_cong [OF c1] b1 sess_core_eqD(2,7,8) [OF c1 l1] by (simp_all add: x1_def)
  have lv: "set (live_panes x1) = set (live_panes ?x) - {j}"
    using xok j live_upd [of ?x j "bury (ss_panes ?x ! j)"] by (simp add: x1_def bury_def sess_ok_def sess_but_def in_live)
  have "\<not> set (live_panes ?x) \<subseteq> {j}"
  proof
    assume "set (live_panes ?x) \<subseteq> {j}"
    then have "card (set (live_panes ?x)) \<le> card {j}" by (intro card_mono) simp_all
    moreover have "distinct (live_panes ?x)" by (simp add: live_panes_def)
    ultimately show False using two by (simp add: distinct_card)
  qed
  then have "set (live_panes x1) \<noteq> {}" unfolding lv by blast
  then have ne: "live_panes (sess e s) \<noteq> []" unfolding y(4) by simp
  define f where "f x = refocus ((\<lambda>x. if active_id x = i then x\<lparr>active_id := if last_id x \<noteq> i then last_id x else 0\<rparr> else x)
      (x\<lparr>ss_lt := snd (layout_close (ss_lt x) (view_cols x) (view_rows x) (int j))\<rparr>))" for x :: session
  have act: "active_id ?x \<noteq> 255" using xok by (auto simp: sess_ok_def sess_but_def live_ids_def)
  have fok: "sess_ok (f (sess e s))"
  proof -
    let ?z = "(sess e s)\<lparr>ss_lt := snd (layout_close (ss_lt (sess e s)) (view_cols (sess e s)) (view_rows (sess e s)) (int j))\<rparr>"
    have z: "sess_but {} ?z" using sess_but_close [OF y(1) _ ne] lv y(4) by simp
    have l255: "last_id ?z \<noteq> 255" using z by (simp add: sess_but_def)
    show ?thesis unfolding f_def using z ne act y l255
      by (intro sess_ok_refocus) (auto simp: sess_but_more live_other)
  qed
  have fuse: "upd_sess (upd_sess d s g) s h = upd_sess d s (\<lambda>x. h (g x))" for d g h
    by (cases "s < length (sessions d)") (simp_all add: upd_sess_def list_update_beyond)
  have te: "tree_ok (upd_sess e s f)"
  proof -
    have le: "length (sessions e) = MAX_SESSIONS" using core_nth [OF ce] len by (simp add: upd_pane_def upd_sess_def)
    show ?thesis
      by (rule tree_replace [OF tree_butI [OF ok] le]) (use core_nth [OF ce] len fok in \<open>simp_all add: upd_pane_def upd_sess_def\<close>)
  qed
  have "core (pane_gone d s j i) = core (session_apply_layout (upd_sess e s f) s)"
    unfolding pane_gone_def Let_def e_def [symmetric] fuse f_def [symmetric, abs_def] by simp
  then show ?thesis using te tree_ok_core core_geometry(3) by metis
qed

lemma tree_free_slot:
  assumes ok: "tree_but s d" and s: "s < MAX_SESSIONS" shows "tree_ok (session_free_slot d s)"
proof -
  define e where "e = foldl (\<lambda>d k. drop_client d s k) d [0..<MAX_CLIENTS_PER_SESSION]"
  define g where "g = foldl (\<lambda>d j. if pn_use (pane_at d s j) then pane_free_slot d s j else d) e [0..<MAX_PANES_PER_SESSION]"
  have c: "core e = core d" unfolding e_def by (rule core_foldl) simp
  have l: "length (sessions d) = MAX_SESSIONS" using ok by (simp add: tree_but_def)
  have e: "tree_but s e" by (rule tree_but_others [OF ok]) (simp_all add: core_nth [OF c] l)
  have others: "length (sessions (foldl (\<lambda>d j. if pn_use (pane_at d s j) then pane_free_slot d s j else d) d ks)) = length (sessions d) \<and>
      (\<forall>t<length (sessions d). t \<noteq> s \<longrightarrow> sess_core (sess (foldl (\<lambda>d j. if pn_use (pane_at d s j) then pane_free_slot d s j else d) d ks) t) = sess_core (sess d t))"
    for d ks
  proof (induction ks arbitrary: d)
    case (Cons j ks)
    have "length (sessions (pane_free_slot d s j)) = length (sessions d) \<and>
        (\<forall>t<length (sessions d). t \<noteq> s \<longrightarrow> sess_core (sess (pane_free_slot d s j) t) = sess_core (sess d t))"
      using core_nth [OF core_free(1) [of d s j]] by (auto simp: upd_pane_def upd_sess_def)
    then show ?case using Cons.IH [of d] Cons.IH [of "pane_free_slot d s j"] by simp
  qed simp
  have "tree_ok (upd_sess g s (\<lambda>x. x\<lparr>ss_use := False\<rparr>))"
    by (rule tree_replace [OF e]) (use others [of e "[0..<MAX_PANES_PER_SESSION]"] e in \<open>simp_all add: g_def tree_but_def\<close>)
  then show ?thesis by (simp add: session_free_slot_def Let_def e_def [symmetric] g_def [symmetric])
qed

lemma unzoom_live:
  assumes "tree_ok d" "s < MAX_SESSIONS" "ss_use (sess d s)"
  shows "live_panes (sess (session_unzoom d s) s) = live_panes (sess d s)" "ss_use (sess (session_unzoom d s) s)"
    "i \<in> set (live_panes (sess d s)) \<Longrightarrow> pn_id (pane_at (session_unzoom d s) s i) = pn_id (pane_at d s i)"
proof -
  have ok: "sess_ok (sess d s)" "length (sessions d) = MAX_SESSIONS" using assms by (auto simp: tree_ok_def)
  have c: "sess_core (sess (session_unzoom d s) s) = sess_core (sess d s)" using core_nth [OF core_geometry(4)] ok(2) assms(2) by simp
  have l: "length (ss_panes (sess d s)) = MAX_PANES_PER_SESSION" using ok(1) by (simp add: sess_ok_def sess_but_def)
  show "live_panes (sess (session_unzoom d s) s) = live_panes (sess d s)" "ss_use (sess (session_unzoom d s) s)"
    "i \<in> set (live_panes (sess d s)) \<Longrightarrow> pn_id (pane_at (session_unzoom d s) s i) = pn_id (pane_at d s i)"
    using sess_core_eqD(2,3,10) [OF c l] assms(3) by simp_all
qed

lemma tree_close_pane:
  assumes ok: "tree_ok d" and s: "s < MAX_SESSIONS" "ss_use (sess d s)"
  shows "tree_ok (snd (session_close_pane d s i))"
proof (cases "session_pane_by_id (sess d s) i")
  case (Some j)
  have j: "j \<in> set (live_panes (sess d s))" using pane_by_id_live [OF Some] .
  let ?u = "session_unzoom d s"
  define e where "e = (if pn_pid (pane_at ?u s j) > 0 then effect ?u (Hangup (pn_pid (pane_at ?u s j))) else ?u)"
  have se: "sessions e = sessions ?u" by (simp add: e_def effect_def)
  have e: "tree_ok e" by (rule tree_ok_core [OF _ ok]) (simp add: e_def)
  note u = unzoom_live [OF ok s]
  have "tree_ok (pane_gone e s j (pn_id (pane_at ?u s j)))" if "\<not> length (live_panes (sess ?u s)) \<le> 1"
    using that j u by (intro tree_pane_gone [OF e s(1)]) (simp_all add: se)
  then show ?thesis using tree_free_slot [OF tree_butI [OF e] s(1)] by (simp add: session_close_pane_def Some Let_def e_def [symmetric])
qed (simp add: session_close_pane_def ok)

lemma tree_pane_reaped:
  assumes ok: "tree_ok d" and s: "s < MAX_SESSIONS" "ss_use (sess d s)" and j: "j \<in> set (live_panes (sess d s))"
  shows "tree_ok (session_pane_reaped d s j)"
proof -
  have sent: "tree_ok (send_clients d s P t p)" "ss_use (sess (send_clients d s P t p) s)"
      "live_panes (sess (send_clients d s P t p) s) = live_panes (sess d s)"
      "pn_id (pane_at (send_clients d s P t p) s j) = pn_id (pane_at d s j)" for P t p
  proof -
    have o: "sess_ok (sess d s)" "length (sessions d) = MAX_SESSIONS" using ok s by (auto simp: tree_ok_def)
    have l: "length (ss_panes (sess d s)) = MAX_PANES_PER_SESSION" using o(1) by (simp add: sess_ok_def sess_but_def)
    have c: "sess_core (sess (send_clients d s P t p) s) = sess_core (sess d s)" using core_nth [OF core_send(4)] o(2) s(1) by simp
    show "tree_ok (send_clients d s P t p)" by (rule tree_ok_core [OF core_send(4) ok])
    show "ss_use (sess (send_clients d s P t p) s)" "live_panes (sess (send_clients d s P t p) s) = live_panes (sess d s)"
      "pn_id (pane_at (send_clients d s P t p) s j) = pn_id (pane_at d s j)" using sess_core_eqD(2,3,10) [OF c l] s(2) j by simp_all
  qed
  have fr: "tree_ok (session_free_slot (pane_free_slot e s j) s)" if e: "tree_ok e" for e
  proof -
    have le: "length (sessions e) = MAX_SESSIONS" using e by (simp add: tree_ok_def)
    have "tree_but s (pane_free_slot e s j)"
      by (rule tree_but_others [OF tree_butI [OF e]]) (use core_nth [OF core_free(1) [of e s j]] le in \<open>simp_all add: upd_pane_def upd_sess_def\<close>)
    then show ?thesis using tree_free_slot s(1) by blast
  qed
  have "tree_ok (pane_gone (send_clients d s P t p) s j (pn_id (pane_at d s j)))" if "\<not> length (live_panes (sess d s)) \<le> 1" for P t p
    using that sent j s by (intro tree_pane_gone) simp_all
  then show ?thesis using fr sent(1) by (simp add: session_pane_reaped_def Let_def)
qed

section \<open>Selecting, resizing, attaching\<close>

lemma tree_select:
  assumes ok: "tree_ok d" and s: "s < MAX_SESSIONS" "ss_use (sess d s)"
  shows "tree_ok (snd (session_select_pane d s m i))"
proof -
  have xok: "sess_ok (sess d s)" using ok s by (simp add: tree_ok_def)
  have l: "length (ss_panes (sess d s)) = MAX_PANES_PER_SESSION" "length (sessions d) = MAX_SESSIONS"
    using xok ok by (auto simp: sess_ok_def sess_but_def tree_ok_def)
  have near: "nearest x j m b is = Some (k, key) \<Longrightarrow> set is \<subseteq> {..<MAX_PANES_PER_SESSION} \<Longrightarrow>
      (\<forall>k' key'. b = Some (k', key') \<longrightarrow> k' \<in> set (live_panes x)) \<Longrightarrow> k \<in> set (live_panes x)" for x j m b "is" k key
  proof (induction x j m b "is" rule: nearest.induct)
    case (2 x j m b i "is")
    then show ?case by (auto simp: in_live split: if_splits option.splits)
  qed auto
  have dir: "k \<in> set (live_panes x)" if "pane_in_direction x j m = Some k" for x j k
    using that near [of x j m None "[0..<MAX_PANES_PER_SESSION]" k] by (auto simp: pane_in_direction_def lessThan_atLeast0)
  have cyc: "k \<in> set (live_panes x)" if "cycle_pane x j m = Some k" for x j k
    using that by (auto simp: cycle_pane_def Let_def find_Some_iff in_live table_sizes simp del: upt_Suc)
  have tz: "tree_ok (toggle_zoom d s j)" for j
    by (rule tree_ok_core [OF _ ok]) (simp add: toggle_zoom_def core_upd_same sess_core_def)
  have go: "tree_ok (upd_sess (session_unzoom d s) s (\<lambda>x. x\<lparr>last_id := active_id x, active_id := pn_id (ss_panes x ! k), layout_dirty := True\<rparr>))"
    if k: "k \<in> set (live_panes (sess d s))" for k
  proof (rule tree_upd)
    show u: "tree_ok (session_unzoom d s)" by (rule tree_ok_core [OF core_geometry(4) ok])
    show "s < MAX_SESSIONS" using s(1) .
    let ?y = "sess (session_unzoom d s) s"
    have y: "sess_ok ?y" "k \<in> set (live_panes ?y)" using u s unzoom_live [OF ok s] k by (auto simp: tree_ok_def)
    have "active_id ?y \<noteq> 255" using y(1) by (auto simp: sess_ok_def sess_but_def live_ids_def)
    then have "sess_but {} (?y\<lparr>last_id := active_id ?y, active_id := pn_id (ss_panes ?y ! k)\<rparr>)"
      using y(1) by (intro sess_but_more(3)) (simp_all add: sess_ok_def)
    moreover have "live_ids (?y\<lparr>last_id := b, active_id := b'\<rparr>) = live_ids ?y" for b b' by (simp add: live_ids_def live_other)
    ultimately have "sess_ok (?y\<lparr>last_id := active_id ?y, active_id := pn_id (ss_panes ?y ! k)\<rparr>)"
      using y(2) by (simp add: sess_ok_def live_ids_def)
    then show "sess_ok (?y\<lparr>last_id := active_id ?y, active_id := pn_id (ss_panes ?y ! k), layout_dirty := True\<rparr>)"
      by (rule sess_ok_cong [THEN iffD2, rotated]) (simp add: sess_core_def)
  qed
  show ?thesis using ok tz go pane_by_id_live dir cyc
    by (auto simp: session_select_pane_def Let_def split: option.split)
qed

lemma core_resize_cong: "core (upd_sess d s (\<lambda>x. x\<lparr>ss_lt := f x\<rparr>)) = core (upd_sess d s (\<lambda>x. x\<lparr>ss_lt := f (sess d s)\<rparr>))"
  by (simp add: core_upd_sess)

lemma tree_resize:
  assumes ok: "tree_ok d" and s: "s < MAX_SESSIONS" "ss_use (sess d s)"
  shows "tree_ok (session_resize d s c r)"
proof -
  let ?c = "session_clamp_cols c" and ?r = "session_clamp_rows r"
  define d1 where "d1 = upd_sess d s (\<lambda>x. x\<lparr>view_cols := ?c, view_rows := ?r\<rparr>)"
  have xok: "sess_ok (sess d s)" and l: "length (sessions d) = MAX_SESSIONS" using ok s by (auto simp: tree_ok_def)
  have dims: "sess_ok (x\<lparr>view_cols := ?c, view_rows := ?r\<rparr>)" if "sess_ok x" "?c \<noteq> 0" "?r \<noteq> 0" for x
    using that by (auto simp: sess_ok_def sess_but_def live_other live_ids_def session_clamp_cols_def session_clamp_rows_def)
  have d1: "tree_ok d1" if "?c \<noteq> 0" "?r \<noteq> 0" unfolding d1_def using dims [OF xok that] by (intro tree_upd [OF ok s(1)])
  have lt: "sess_ok (x\<lparr>ss_lt := layout_reflow (ss_lt x) vc vr\<rparr>)" if x: "sess_ok x" for x vc vr
  proof -
    obtain t where "layout_ok (ss_lt x) t" "set (panes (shape t)) = int ` (set (live_panes x) \<union> {})"
      using x by (auto simp: sess_ok_def sess_but_def)
    with layout_reflow_tree(1) have "\<exists>t. layout_ok (layout_reflow (ss_lt x) vc vr) t \<and> set (panes (shape t)) = int ` (set (live_panes x) \<union> {})"
      by blast
    then show ?thesis using x unfolding sess_ok_def sess_but_def live_ids_def live_other by simp
  qed
  have xy: "core (upd_pane e s j (\<lambda>p. p\<lparr>pn_cols := a, pn_rows := b\<rparr>)) = core e" for e j a b
    by (rule core_upd_pane) (simp add: pane_core_def)
  have one: "tree_ok (if pn_fd (pane_at e s j) \<ge> 0 then pty_resize e (pn_fd (pane_at e s j)) ?c ?r else e)"
    if "?c \<noteq> 0" "?r \<noteq> 0" "e = pane_vt_resize (upd_pane d1 s j (\<lambda>p. p\<lparr>pn_cols := ?c, pn_rows := ?r\<rparr>)) s j ?r ?c" for e j
    by (rule tree_ok_core [OF _ d1 [OF that(1,2)]]) (simp add: that(3) xy)
  have two: "tree_ok (session_apply_layout (upd_sess d1 s (\<lambda>x. x\<lparr>ss_lt := layout_reflow (ss_lt x) ?c ?r\<rparr>)) s)" if "?c \<noteq> 0" "?r \<noteq> 0"
  proof (rule tree_ok_core [OF core_geometry(3)], rule tree_upd [OF d1 [OF that] s(1)])
    have "ss_use (sess d1 s)" using s l by (simp add: d1_def upd_sess_def)
    then show "sess_ok ((sess d1 s)\<lparr>ss_lt := layout_reflow (ss_lt (sess d1 s)) ?c ?r\<rparr>)"
      using d1 [OF that] s(1) by (intro lt) (simp add: tree_ok_def)
  qed
  show ?thesis unfolding session_resize_def Let_def d1_def [symmetric] using ok one two d1
    by (auto split: option.split)
qed

lemma tree_attach:
  assumes ok: "tree_ok d" and s: "s < MAX_SESSIONS" "ss_use (sess d s)"
  shows "tree_ok (session_attach d s c a b)"
proof -
  have "tree_ok (attach_repaint (session_resize (upd_sess d s (\<lambda>x. x\<lparr>ss_clients := g x\<rparr>)) s m n) s c)" for g m n
  proof -
    let ?e = "upd_sess d s (\<lambda>x. x\<lparr>ss_clients := g x\<rparr>)"
    have "core ?e = core d" by (rule core_upd_same) (simp add: sess_core_def)
    then have "tree_ok ?e" using tree_ok_core ok by blast
    moreover have "ss_use (sess ?e s)" using ok s by (simp add: upd_sess_def tree_ok_def)
    ultimately show ?thesis using tree_ok_core [OF core_frames(5) tree_resize] s(1) by blast
  qed
  moreover have "tree_ok (client_disconnect d c)" by (rule tree_ok_core [OF core_send(1) ok])
  ultimately show ?thesis using ok by (auto simp: session_attach_def Let_def case_prod_unfold split: sum.split bool.split)
qed

section \<open>Creating and splitting\<close>

lemma core_upd_cong:
  assumes c: "core d' = core d" and p: "pane_core (f (pane_at d' s j)) = pane_core (g (pane_at d s j))"
  shows "core (upd_pane d' s j f) = core (upd_pane d s j g)"
proof -
  note n = core_nth [OF c, of s]
  show ?thesis
  proof (cases "s < length (sessions d)")
    case True
    then have "sess_core (sess d' s) = sess_core (sess d s)" using n by simp
    then show ?thesis unfolding upd_pane_def core_upd_sess c by (simp add: sess_core_def map_update p)
  next
    case False
    then show ?thesis using c n by (simp add: upd_pane_def upd_sess_def list_update_beyond core_def)
  qed
qed

lemma pane_setup_live:
  assumes "pane_setup d s j i c r = (True, d')" "s < length (sessions d)" "j < length (ss_panes (sess d s))"
  shows "pn_id (pane_at d' s j) = i \<and> pn_vt (pane_at d' s j) \<noteq> None"
  using assms unfolding pane_setup_def Let_def case_prod_unfold
  by (auto simp: alloc_sessions upd_pane_def upd_sess_def zero_pane_def split: option.splits)

lemma pane_spawn_live:
  "pane_spawn d s j argv c r = (ok, d') \<Longrightarrow> pn_id (pane_at d' s j) = pn_id (pane_at d s j) \<and> pn_vt (pane_at d' s j) = pn_vt (pane_at d s j)"
proof -
  assume sp: "pane_spawn d s j argv c r = (ok, d')"
  let ?e = "snd (take_spawn d)"
  have e: "sessions ?e = sessions d" by (simp add: take_spawn_def split: list.split)
  have "pn_id (pane_at (upd_pane ?e s j (\<lambda>p. p\<lparr>pn_fd := fd, pn_pid := pid\<rparr>)) s j) = pn_id (pane_at ?e s j) \<and>
      pn_vt (pane_at (upd_pane ?e s j (\<lambda>p. p\<lparr>pn_fd := fd, pn_pid := pid\<rparr>)) s j) = pn_vt (pane_at ?e s j)" for fd pid
    using upd_pane_cases [of ?e s j "\<lambda>p. p\<lparr>pn_fd := fd, pn_pid := pid\<rparr>"] by auto
  then show ?thesis using sp e unfolding pane_spawn_def by (auto simp: effect_def split: option.splits prod.splits)
qed

text \<open>The pane a successful allocation and spawn leave behind, once it is marked in use.\<close>

definition arise :: "byte \<Rightarrow> vt \<Rightarrow> pane \<Rightarrow> pane" where
  "arise i v p = p\<lparr>pn_use := True, pn_id := i, pn_vt := Some v\<rparr>"

lemma core_new_pane:
  assumes al: "pane_alloc d s i c r = (Inr j, d2)" and sp: "pane_spawn d2 s j argv c' r' = (True, d3)"
    and s: "s < length (sessions d)" "length (ss_panes (sess d s)) = MAX_PANES_PER_SESSION"
  shows "\<exists>v. core (upd_pane d3 s j (\<lambda>p. p\<lparr>pn_use := True\<rparr>)) = core (upd_pane d s j (arise i v))"
proof -
  note a = core_pane_alloc [OF al]
  have j: "j < length (ss_panes (sess d s))" using a s by simp
  obtain e where e: "pane_setup d s j i c r = (True, e)" "d2 = e"
    using al a by (auto simp: pane_alloc_def split: option.splits prod.splits if_splits)
  obtain v where v: "pn_id (pane_at d2 s j) = i" "pn_vt (pane_at d2 s j) = Some v"
    using pane_setup_live [OF e(1) s(1) j] e(2) by auto
  have "core d3 = core d" using core_pane_spawn [OF sp] a by simp
  then have "core (upd_pane d3 s j (\<lambda>p. p\<lparr>pn_use := True\<rparr>)) = core (upd_pane d s j (arise i v))"
    using pane_spawn_live [OF sp] v by (intro core_upd_cong) (simp_all add: pane_core_def arise_def)
  then show ?thesis ..
qed

lemma sess_but_arise:
  assumes but: "sess_but {j} x" and j: "j < MAX_PANES_PER_SESSION" "j \<notin> set (live_panes x)" and i: "i \<notin> live_ids x" "i \<noteq> 255"
  shows "sess_but {} (x\<lparr>ss_panes := (ss_panes x)[j := arise i v (ss_panes x ! j)]\<rparr>)" (is "sess_but {} ?y")
    and "i \<in> live_ids (x\<lparr>ss_panes := (ss_panes x)[j := arise i v (ss_panes x ! j)]\<rparr>)"
proof -
  have l: "length (ss_panes x) = MAX_PANES_PER_SESSION" using but by (simp add: sess_but_def)
  have lv: "set (live_panes ?y) = insert j (set (live_panes x))" using live_upd [OF l j(1), of "arise i v (ss_panes x ! j)"] by (simp add: arise_def)
  have at: "ss_panes ?y ! k = (if k = j then arise i v (ss_panes x ! j) else ss_panes x ! k)" if "k < MAX_PANES_PER_SESSION" for k
    using l that by (simp add: nth_list_update)
  have k: "k < MAX_PANES_PER_SESSION \<and> k \<noteq> j" if "k \<in> set (live_panes x)" for k using that j(2) by (auto simp: in_live)
  have "inj_on (\<lambda>k. pn_id (ss_panes ?y ! k)) (set (live_panes x)) = inj_on (\<lambda>k. pn_id (ss_panes x ! k)) (set (live_panes x))"
    by (rule inj_on_cong) (use k at in auto)
  moreover have "(\<lambda>k. pn_id (ss_panes ?y ! k)) ` set (live_panes x) = live_ids x"
    unfolding live_ids_def by (rule image_cong) (use k at in auto)
  ultimately have "inj_on (\<lambda>k. pn_id (ss_panes ?y ! k)) (insert j (set (live_panes x)))"
    using but i(1) j at [OF j(1)] by (simp add: sess_but_def arise_def)
  moreover have "\<forall>k\<in>set (live_panes ?y). pn_vt (ss_panes ?y ! k) \<noteq> None \<and> pn_id (ss_panes ?y ! k) \<noteq> 255"
  proof
    fix m assume "m \<in> set (live_panes ?y)"
    then have "m = j \<or> m \<in> set (live_panes x)" using lv by simp
    then show "pn_vt (ss_panes ?y ! m) \<noteq> None \<and> pn_id (ss_panes ?y ! m) \<noteq> 255"
    proof
      assume "m = j" then show ?thesis using at [OF j(1)] i(2) by (simp add: arise_def)
    next
      assume m: "m \<in> set (live_panes x)"
      then have "ss_panes ?y ! m = ss_panes x ! m" using at [of m] k [OF m] by simp
      then show ?thesis using but m unfolding sess_but_def by simp
    qed
  qed
  ultimately show "sess_but {} ?y" using but l lv unfolding sess_but_def by auto
  show "i \<in> live_ids ?y" unfolding live_ids_def lv using at [OF j(1)] by (simp add: arise_def)
qed

lemma tree_session_new:
  assumes ok: "tree_ok d" and new: "session_new d name argv c r = (res, d')"
  shows "tree_ok d'"
proof -
  have l: "length (sessions d) = MAX_SESSIONS" using ok by (simp add: tree_ok_def)
  obtain res1 d1 where 1: "session_alloc d name c r = (res1, d1)" by fastforce
  show ?thesis
  proof (cases res1)
    case (Inl e)
    then have "d1 = d" using 1 by (auto simp: session_alloc_def Let_def split: option.splits if_splits)
    then show ?thesis using new ok 1 Inl by (simp add: session_new_def)
  next
    case (Inr s)
    let ?vc = "session_clamp_cols (if c \<noteq> 0 then c else 80)" and ?vr = "session_clamp_rows (if r \<noteq> 0 then r else 24)"
    let ?x = "zero_session\<lparr>ss_name := take SESSION_NAME_MAX name, view_cols := ?vc, view_rows := ?vr,
       ss_lt := layout_reflow (layout_init 0) ?vc ?vr, next_id := 1, zoomed_id := 255\<rparr>"
    have s: "s < MAX_SESSIONS" and d1: "d1 = upd_sess d s (\<lambda>_. ?x)"
      using 1 Inr find_upt [of _ MAX_SESSIONS s] by (auto simp: session_alloc_def Let_def split: option.splits if_splits)
    have x: "sess d1 s = ?x" using s l by (simp add: d1 upd_sess_def)
    have nolive: "live_panes ?x = []" by (auto simp: live_panes_def zero_session_def zero_pane_def filter_empty_conv)
    have bx: "sess_but {0} ?x"
    proof -
      have "layout_ok (layout_reflow (layout_init 0) ?vc ?vr) (Pane 0 0)" using layout_reflow_tree(1) [OF layout_init_ok] .
      then have "\<exists>t. layout_ok (ss_lt ?x) t \<and> set (panes (shape t)) = int ` (set (live_panes ?x) \<union> {0})"
        using nolive by (intro exI [of _ "Pane 0 0"]) simp
      then show ?thesis unfolding sess_but_def nolive
        by (simp add: zero_session_def session_clamp_cols_def session_clamp_rows_def word_le_nat_alt)
    qed
    have t1: "tree_but s d1" using ok l by (auto simp: tree_but_def tree_ok_def d1 upd_sess_def)
    have tok: "tree_ok e" if "core e = core d1" for e
    proof -
      have "tree_ok d1" using t1 s x by (auto simp: tree_but_def tree_ok_def zero_session_def)
      then show ?thesis using tree_ok_core that by blast
    qed
    obtain res2 d2 where 2: "pane_alloc d1 s 0 (view_cols (sess d1 s)) (view_rows (sess d1 s)) = (res2, d2)" by fastforce
    note a = core_pane_alloc [OF 2]
    show ?thesis
    proof (cases res2)
      case (Inl e)
      then show ?thesis using new 1 2 Inr a tok by (simp add: session_new_def)
    next
      case res2: (Inr j)
      obtain sp d3 where 3: "pane_spawn d2 s j argv (pn_cols (pane_at d2 s j)) (pn_rows (pane_at d2 s j)) = (sp, d3)" by fastforce
      have c3: "core d3 = core d1" "\<not> pn_use (pane_at d3 s j)" using core_pane_spawn [OF 3] a res2 by auto
      show ?thesis
      proof (cases sp)
        case False
        have "core (pane_alloc_undo d3 s j) = core d1"
          unfolding core_free(2) using core_dead [OF c3(2), of bury] c3(1) by (simp add: bury_def)
        then show ?thesis using new 1 2 3 Inr res2 False tok by (simp add: session_new_def)
      next
        case True
        have j: "j = 0"
          using a res2 x by (simp add: free_pane_slot_def zero_session_def zero_pane_def MAX_PANES_PER_SESSION_def upt_rec)
        define e where "e = upd_pane d3 s j (\<lambda>p. p\<lparr>pn_use := True\<rparr>)"
        have 23: "pane_alloc d1 s 0 (view_cols (sess d1 s)) (view_rows (sess d1 s)) = (Inr j, d2)"
          "pane_spawn d2 s j argv (pn_cols (pane_at d2 s j)) (pn_rows (pane_at d2 s j)) = (True, d3)" using 2 3 res2 True by simp_all
        obtain v where v: "core e = core (upd_pane d1 s j (arise 0 v))"
          using core_new_pane [OF 23] s l x unfolding e_def by (auto simp: d1 upd_sess_def zero_session_def)
        let ?y = "?x\<lparr>ss_panes := (ss_panes ?x)[j := arise 0 v (ss_panes ?x ! j)]\<rparr>"
        have le: "length (sessions e) = MAX_SESSIONS" using core_nth [OF v] l by (simp add: d1 upd_pane_def upd_sess_def)
        have ce: "sess_core (sess e s) = sess_core ?y"
          using core_nth [OF v, of s] s l x by (simp add: upd_pane_def upd_sess_def d1)
        have yok: "sess_ok ?y"
          using sess_but_arise [of 0 ?x 0 v] bx nolive j unfolding sess_ok_def
          by (simp add: live_ids_def MAX_PANES_PER_SESSION_def zero_session_def)
        define d4 where "d4 = upd_sess e s (\<lambda>x. x\<lparr>ss_use := True\<rparr>)"
        have others: "tree_but s e"
          by (rule tree_but_others [OF t1 le]) (use core_nth [OF v] l in \<open>simp add: upd_pane_def upd_sess_def d1\<close>)
        have t4: "tree_ok d4" unfolding d4_def
        proof (rule tree_replace [OF others le refl])
          have "sess_ok (sess e s)" using sess_ok_cong [OF ce] yok by simp
          then show "sess_ok ((sess e s)\<lparr>ss_use := True\<rparr>)" by (simp add: sess_ok_def sess_but_more live_ids_def live_other)
        qed
        obtain ad d5 where 5: "d_add_fd d4 (pn_fd (pane_at d4 s j)) POLLIN (OwnPane s j) = (ad, d5)" by fastforce
        have t5: "tree_ok d5" using tree_ok_core [OF core_sys(5) [OF 5] t4] .
        have l5: "length (sessions d5) = MAX_SESSIONS" using t5 by (simp add: tree_ok_def)
        have "tree_but s (spawn_undo d5 s j)"
          by (rule tree_but_others [OF tree_butI [OF t5]])
            (use core_nth [OF core_free(3) [of d5 s j]] l5 in \<open>simp_all add: upd_pane_def upd_sess_def\<close>)
        then have "tree_ok (upd_sess (spawn_undo d5 s j) s (\<lambda>x. x\<lparr>ss_use := False\<rparr>))"
          by (intro tree_replace [of s "spawn_undo d5 s j" "spawn_undo d5 s j"]) (simp_all add: tree_but_def)
        then show ?thesis using new 1 2 3 5 Inr res2 True t5
          by (cases ad) (simp_all add: session_new_def Let_def e_def [symmetric] d4_def [symmetric])
      qed
    qed
  qed
qed

text \<open>The search for a wire id: within six tries it meets one that no live pane holds, so the 256 the
  model allows it never run out.\<close>

lemma byte_254: "(nid = (254 :: byte)) = (unat nid = 254)"
  by (simp add: word_unat_eq_iff)

lemma after_id:
  assumes "1 \<le> (nid :: byte)" "nid \<le> 254"
  shows "unat (if nid = 254 then 1 else nid + 1) = (if unat nid = 254 then 1 else unat nid + 1)"
    and "1 \<le> (if nid = 254 then 1 else nid + 1)" "(if nid = 254 then 1 else nid + 1) \<le> 254"
proof -
  have b: "1 \<le> unat nid" "unat nid \<le> 254" using assms by (simp_all add: word_le_nat_alt)
  show u: "unat (if nid = 254 then 1 else nid + 1) = (if unat nid = 254 then 1 else unat nid + 1)"
    using b by (simp add: byte_254 unat_plus_if_size word_size)
  show "1 \<le> (if nid = 254 then 1 else nid + 1)" "(if nid = 254 then 1 else nid + 1) \<le> 254"
    using b unfolding word_le_nat_alt u by simp_all
qed

lemma pick_id_some:
  "pick_id f x nid = Some (i, nid') \<Longrightarrow> 1 \<le> nid \<Longrightarrow> nid \<le> 254 \<Longrightarrow>
     i \<notin> live_ids x \<and> 1 \<le> i \<and> i \<le> 254 \<and> 1 \<le> nid' \<and> nid' \<le> 254"
proof (induction f x nid rule: pick_id.induct)
  case (2 f x nid)
  define n where "n = (if nid = 254 then 1 else nid + 1)"
  have n: "1 \<le> n \<and> n \<le> 254" unfolding n_def using after_id(2,3) 2(3,4) by blast
  show ?case
  proof (cases "session_pane_by_id x nid")
    case None
    have "nid \<noteq> 255" using 2(4) by auto
    moreover have "nid = i \<and> n = nid'" using 2(2) None by (auto simp: n_def Let_def)
    ultimately show ?thesis using None 2(3,4) n pane_by_id(1) [of nid x] by auto
  next
    case (Some j)
    then have "pick_id f x n = Some (i, nid')" using 2(2) by (simp add: n_def Let_def)
    then show ?thesis using 2(1) [OF n_def] Some n by simp
  qed
qed simp

definition id_at :: "byte \<Rightarrow> nat \<Rightarrow> byte" where
  "id_at nid k = word_of_nat ((unat nid - 1 + k) mod 254 + 1)"

lemma id_at_inj: "inj_on (id_at nid) {..<7}"
proof (rule inj_onI)
  fix a b assume ab: "a \<in> {..<7::nat}" "b \<in> {..<7}" and e: "id_at nid a = id_at nid b"
  define u where "u = unat nid - 1"
  have small: "unat (word_of_nat m :: byte) = m" if "m < 256" for m :: nat using that by (simp add: unat_of_nat)
  have "unat (word_of_nat (n mod 254 + 1) :: byte) = n mod 254 + 1" for n :: nat by (rule small) simp
  then have "(u + a) mod 254 = (u + b) mod 254" using arg_cong [OF e, of unat] by (simp add: id_at_def u_def)
  moreover have "p = q" if "p \<le> q" "q < 7" "(u + q) mod 254 = (u + p) mod 254" for p q
  proof -
    have "254 dvd (u + q) - (u + p)" using that by (intro mod_eq_dvd_iff_nat [THEN iffD1]) simp_all
    then have "254 dvd q - p" by simp
    then show ?thesis using that(1,2) by (cases "q - p = 0") (auto dest: dvd_imp_le)
  qed
  ultimately show "a = b" using ab by (metis lessThan_iff nat_le_linear)
qed

lemma pick_id_none:
  "pick_id f x nid = None \<Longrightarrow> 1 \<le> nid \<Longrightarrow> nid \<le> 254 \<Longrightarrow> k < f \<Longrightarrow> id_at nid k \<in> live_ids x"
proof (induction f arbitrary: nid k)
  case (Suc f)
  define n where "n = (if nid = 254 then 1 else nid + 1)"
  have held: "session_pane_by_id x nid \<noteq> None" "pick_id f x n = None" using Suc.prems(1) by (simp_all add: n_def Let_def split: if_splits)
  have b: "1 \<le> unat nid" "unat nid \<le> 254" using Suc.prems(2,3) by (simp_all add: word_le_nat_alt)
  have un: "unat n = (if unat nid = 254 then 1 else unat nid + 1)" unfolding n_def using after_id(1) Suc.prems(2,3) .
  show ?case
  proof (cases k)
    case 0
    have "id_at nid 0 = nid" using b by (simp add: id_at_def)
    moreover have "nid \<noteq> 255" using Suc.prems(3) by auto
    ultimately show ?thesis using held(1) pane_by_id(1) 0 by simp
  next
    case (Suc k')
    have n: "1 \<le> n" "n \<le> 254" using un b by (auto simp: word_le_nat_alt split: if_splits)
    have "id_at nid k = id_at n k'" using un b Suc by (auto simp: id_at_def split: if_splits)
    then show ?thesis using Suc.IH [OF held(2) n, of k'] Suc.prems(4) Suc by simp
  qed
qed simp

lemma pick_id_total:
  assumes "1 \<le> nid" "nid \<le> 254" shows "pick_id 256 x nid \<noteq> None"
proof
  assume n: "pick_id 256 x nid = None"
  have "id_at nid ` {..<7} \<subseteq> live_ids x" using pick_id_none [OF n assms] by auto
  then have "card (id_at nid ` {..<7}) \<le> card (live_ids x)" by (intro card_mono) (simp_all add: live_ids_def)
  also have "\<dots> \<le> card (set (live_panes x))" unfolding live_ids_def by (rule card_image_le) simp
  also have "\<dots> \<le> card {..<MAX_PANES_PER_SESSION}" by (rule card_mono) (auto simp: in_live)
  finally show False using card_image [OF id_at_inj [of nid]] by (simp add: MAX_PANES_PER_SESSION_def)
qed

lemma tree_split_pane:
  assumes but: "tree_but s d" and s: "s < MAX_SESSIONS" and x: "sess_but {n} (sess d s)" "active_id (sess d s) \<in> live_ids (sess d s)"
    and n: "free_pane_slot (sess d s) = Some n" and i: "i \<notin> live_ids (sess d s)" "i \<noteq> 255"
  shows "tree_ok (snd (split_pane d s n i))"
proof -
  have l: "length (sessions d) = MAX_SESSIONS" "length (ss_panes (sess d s)) = MAX_PANES_PER_SESSION"
    using but x by (simp_all add: tree_but_def sess_but_def)
  have dead: "n < MAX_PANES_PER_SESSION" "\<not> pn_use (pane_at d s n)" "n \<notin> set (live_panes (sess d s))"
    using n find_upt by (fastforce simp: free_pane_slot_def in_live)+
  have ne: "live_panes (sess d s) \<noteq> []" using x(2) by (auto simp: live_ids_def)
  have act: "active_id (sess d s) \<noteq> 255" using x by (auto simp: live_ids_def sess_but_def)
  have undo: "tree_ok (drop_leaf e s n)" if c: "core e = core d" for e
  proof -
    have se: "sess_core (sess e s) = sess_core (sess d s)" and le: "length (sessions e) = MAX_SESSIONS"
      using core_nth [OF c] l s by simp_all
    note q = sess_core_eqD [OF se l(2)]
    have "sess_but {n} (sess e s)" using sess_but_cong [OF se] x(1) by simp
    then have "sess_but {} ((sess e s)\<lparr>ss_lt := snd (layout_close (ss_lt (sess e s)) (view_cols (sess e s)) (view_rows (sess e s)) (int n))\<rparr>)"
      using dead(3) ne q(2) by (intro sess_but_close) simp_all
    moreover have "active_id (sess e s) \<in> live_ids (sess e s)" using live_ids_cong [OF se l(2)] q(7) x(2) by simp
    ultimately show ?thesis unfolding drop_leaf_def
      by (intro tree_replace [OF but le]) (use core_nth [OF c] l in \<open>simp_all add: sess_ok_def live_ids_def live_other\<close>)
  qed
  obtain cc rr where cr: "rect_size (ss_lt (sess d s)) n = (cc, rr)" by fastforce
  obtain res2 d2 where 2: "pane_alloc d s i cc rr = (res2, d2)" by fastforce
  note a = core_pane_alloc [OF 2]
  show ?thesis
  proof (cases res2)
    case (Inl e)
    then show ?thesis using 2 a undo cr by (simp add: split_pane_def)
  next
    case (Inr j)
    then have j: "j = n" using a n by simp
    obtain sp d3 where 3: "pane_spawn d2 s n [the_shell d2] cc rr = (sp, d3)" by fastforce
    have c3: "core d3 = core d" "\<not> pn_use (pane_at d3 s n)" using core_pane_spawn [OF 3] a Inr j by auto
    show ?thesis
    proof (cases sp)
      case False
      have "core (pane_alloc_undo d3 s n) = core d"
        unfolding core_free(2) using core_dead [OF c3(2), of bury] c3(1) by (simp add: bury_def)
      then show ?thesis using 2 3 Inr j False undo cr by (simp add: split_pane_def)
    next
      case True
      define e where "e = upd_pane d3 s n (\<lambda>p. p\<lparr>pn_use := True\<rparr>)"
      have 23: "pane_alloc d s i cc rr = (Inr n, d2)" "pane_spawn d2 s n [the_shell d2] cc rr = (True, d3)" using 2 3 Inr j True by simp_all
      obtain v where v: "core e = core (upd_pane d s n (arise i v))" using core_new_pane [OF 23] s l unfolding e_def by auto
      obtain ad d5 where 5: "d_add_fd e (pn_fd (pane_at e s n)) POLLIN (OwnPane s n) = (ad, d5)" by fastforce
      have c5: "core d5 = core (upd_pane d s n (arise i v))" using core_sys(5) [OF 5] v by simp
      have "core (spawn_undo d5 s n) = core d"
        unfolding core_free(3) core_bury_cong [OF c5] core_bury_after using core_dead [OF dead(2), of bury] by (simp add: bury_def)
      note failed = undo [OF this]
      let ?y = "(sess d s)\<lparr>ss_panes := (ss_panes (sess d s))[n := arise i v (ss_panes (sess d s) ! n)]\<rparr>"
      have y: "sess_but {} ?y" "i \<in> live_ids ?y" using sess_but_arise [OF x(1) dead(1,3) i] by simp_all
      have ly: "length (ss_panes ?y) = MAX_PANES_PER_SESSION" using l by simp
      have s5: "sess_core (sess d5 s) = sess_core ?y" and l5: "length (sessions d5) = MAX_SESSIONS"
        using core_nth [OF c5, of s] s l by (simp_all add: upd_pane_def upd_sess_def)
      have "active_id (sess d5 s) \<noteq> 255" using sess_core_eqD(7) [OF s5 ly] act by simp
      then have "sess_but {} ((sess d5 s)\<lparr>last_id := active_id (sess d5 s), active_id := i\<rparr>)"
        using sess_but_cong [OF s5] y(1) by (intro sess_but_more(3)) simp_all
      moreover have "live_ids (x\<lparr>last_id := b, active_id := b'\<rparr>) = live_ids x" for x b b' by (simp add: live_ids_def live_other)
      ultimately have "sess_ok ((sess d5 s)\<lparr>last_id := active_id (sess d5 s), active_id := i\<rparr>)"
        using live_ids_cong [OF s5 ly] y(2) by (simp add: sess_ok_def)
      then have "tree_ok (upd_sess d5 s (\<lambda>x. x\<lparr>last_id := active_id x, active_id := i\<rparr>))"
        by (intro tree_replace [OF but l5]) (use core_nth [OF c5] l in \<open>simp_all add: upd_pane_def upd_sess_def\<close>)
      then have "tree_ok (session_apply_layout (upd_sess d5 s (\<lambda>x. x\<lparr>last_id := active_id x, active_id := i\<rparr>)) s)"
        using tree_ok_core [OF core_geometry(3)] by blast
      then show ?thesis using 23 5 failed cr by (cases ad) (simp_all add: split_pane_def Let_def e_def [symmetric])
    qed
  qed
qed

lemma tree_session_split:
  assumes ok: "tree_ok d" and s: "s < MAX_SESSIONS" "ss_use (sess d s)"
  shows "tree_ok (snd (session_split d s target st))"
proof -
  define d0 where "d0 = session_unzoom d s"
  have ok0: "tree_ok d0" unfolding d0_def by (rule tree_ok_core [OF core_geometry(4) ok])
  have u0: "ss_use (sess d0 s)" unfolding d0_def using unzoom_live(2) [OF ok s] .
  let ?x = "sess d0 s"
  have x: "sess_but {} ?x" "active_id ?x \<in> live_ids ?x" and l: "length (sessions d0) = MAX_SESSIONS"
    using ok0 u0 s(1) by (auto simp: tree_ok_def sess_ok_def)
  show ?thesis
  proof (cases "session_pane_by_id ?x target")
    case None
    then show ?thesis using ok0 by (simp add: session_split_def d0_def [symmetric])
  next
    case t: (Some t)
    show ?thesis
    proof (cases "free_pane_slot ?x")
      case None
      then show ?thesis using ok0 t by (simp add: session_split_def d0_def [symmetric])
    next
      case n: (Some n)
      then have dead: "n \<notin> set (live_panes ?x)" using find_upt by (fastforce simp: free_pane_slot_def in_live)
      obtain t0 where t0: "layout_ok (ss_lt ?x) t0" "set (panes (shape t0)) = int ` set (live_panes ?x)"
        using x(1) by (auto simp: sess_but_def)
      obtain ok' lt where sp: "layout_split (ss_lt ?x) (view_cols ?x) (view_rows ?x) (int t) (int n) st = (ok', lt)" by fastforce
      have q: "int n \<notin> set (panes (shape t0))" using t0(2) dead by auto
      note r = layout_split_refines [OF t0(1) q, where vc = "view_cols ?x" and vr = "view_rows ?x" and p = "int t" and st = st, unfolded sp]
      define d1 where "d1 = upd_sess d0 s (\<lambda>x. x\<lparr>ss_lt := lt\<rparr>)"
      have s1: "sess d1 s = ?x\<lparr>ss_lt := lt\<rparr>" using s l by (simp add: d1_def upd_sess_def)
      have n1: "next_id ?x \<ge> 1" "next_id ?x \<le> 254" using x(1) by (simp_all add: sess_but_def)
      show ?thesis
      proof (cases ok')
        case False
        then have "d1 = d0" using r s l by (simp add: d1_def upd_sess_def)
        then show ?thesis using ok0 t n sp False by (simp add: session_split_def d0_def [symmetric] d1_def [symmetric] Let_def)
      next
        case True
        obtain i nid where id: "pick_id 256 (sess d1 s) (next_id (sess d1 s)) = Some (i, nid)"
          using pick_id_total [of "next_id (sess d1 s)" "sess d1 s"] n1 s1 by auto
        define d2 where "d2 = upd_sess d1 s (\<lambda>x. x\<lparr>next_id := nid\<rparr>)"
        have s2: "sess d2 s = ?x\<lparr>ss_lt := lt, next_id := nid\<rparr>" using s l by (simp add: d2_def d1_def upd_sess_def)
        have ids: "live_ids (?x\<lparr>ss_lt := lt\<rparr>) = live_ids ?x" "live_ids (sess d2 s) = live_ids ?x" "live_panes (sess d2 s) = live_panes ?x"
          unfolding s2 by (simp_all add: live_ids_def live_panes_def)
        have i: "i \<notin> live_ids ?x" "i \<le> 254" "1 \<le> nid" "nid \<le> 254" using pick_id_some [OF id] n1 s1 ids by simp_all
        obtain t' where t': "layout_ok lt t'" "shape t' = psplit (shape t0) (int t) (int n) st" and p: "int t \<in> set (panes (shape t0))"
          using r True by auto
        have "set (panes (shape t')) = int ` (set (live_panes (sess d2 s)) \<union> {n})"
          unfolding t'(2) set_panes_psplit [OF p] t0(2) ids by auto
        then have b2: "sess_but {n} (sess d2 s)" using x(1) t'(1) i ids(3) s2 unfolding sess_but_def by auto
        have "tree_but s d2"
          by (rule tree_but_others [OF tree_butI [OF ok0]]) (simp_all add: d2_def d1_def upd_sess_def l)
        moreover have "free_pane_slot (sess d2 s) = Some n" using n unfolding s2 free_pane_slot_def by simp
        moreover have "i \<noteq> 255" using i(2) by auto
        ultimately have "tree_ok (snd (split_pane d2 s n i))" using tree_split_pane [OF _ s(1) b2] x(2) i(1) ids s2 by simp
        then show ?thesis using t n sp True id by (simp add: session_split_def d0_def [symmetric] d1_def [symmetric] d2_def [symmetric] Let_def)
      qed
    qed
  qed
qed

section \<open>Requests and the daemon\<close>

lemma attach_use:
  assumes "tree_ok d" "s < MAX_SESSIONS" "ss_use (sess d s)"
  shows "ss_use (sess (session_attach d s c a b) s)"
proof -
  have l: "length (sessions d) = MAX_SESSIONS" using assms by (simp add: tree_ok_def)
  have keep: "ss_use (sess d' s) = ss_use (sess d s)" if "core d' = core d" "length (sessions d) = MAX_SESSIONS" for d d'
    using core_nth [OF that(1), of s] that(2) assms(2) by (simp add: sess_core_def)
  have "ss_use (sess (attach_repaint (session_resize (upd_sess d s (\<lambda>x. x\<lparr>ss_clients := g x\<rparr>)) s m n) s c) s)" for g m n
  proof -
    let ?e = "upd_sess d s (\<lambda>x. x\<lparr>ss_clients := g x\<rparr>)"
    have v: "length (sessions (session_resize ?e s m n)) = MAX_SESSIONS" "ss_use (sess (session_resize ?e s m n) s) = ss_use (sess ?e s)"
      using att_view_eqD(1,3) [OF view_geometry(4) [of ?e s m n]] l assms(2) by (simp_all add: upd_sess_def)
    then show ?thesis using keep [OF core_frames(5) v(1)] l assms(2,3) by (simp add: upd_sess_def)
  qed
  then show ?thesis using assms keep [OF core_send(1) l]
    by (auto simp: session_attach_def Let_def case_prod_unfold split: sum.split bool.split)
qed

lemma tree_join:
  assumes "tree_ok d" "s < MAX_SESSIONS" "ss_use (sess d s)"
  shows "tree_ok (session_attach (upd_cli (switch_session d c s) c f) s c cl r)"
    "ss_use (sess (session_attach (upd_cli (switch_session d c s) c f) s c cl r) s)"
proof -
  let ?e = "upd_cli (switch_session d c s) c f"
  have c: "core ?e = core d" by (simp add: switch_session_def core_detach split: option.split)
  have e: "tree_ok ?e" using tree_ok_core [OF c assms(1)] .
  have u: "ss_use (sess ?e s)" using core_nth [OF c, of s] assms by (simp add: tree_ok_def sess_core_def)
  show "tree_ok (session_attach ?e s c cl r)" by (rule tree_attach [OF e assms(2) u])
  show "ss_use (sess (session_attach ?e s c cl r) s)" by (rule attach_use [OF e assms(2) u])
qed

lemma tree_handle_new:
  assumes "tree_ok d" "att_ok d" "c < MAX_CLIENTS" shows "tree_ok (handle_new d c p)"
proof -
  have "tree_ok (case session_new (upd_cli d c (\<lambda>x. x\<lparr>cl_cols := cl, cl_rows := r\<rparr>)) name argv cl r of
      (Inl e, d) \<Rightarrow> client_err d c (if e = EEXIST then ERR_NAME_TAKEN else ERR_INTERNAL) (strerror d e)
    | (Inr s, d) \<Rightarrow> session_attach (upd_cli (switch_session d c s) c (\<lambda>x. x\<lparr>attached := Some s\<rparr>)) s c cl r)"
    for cl r name argv
  proof -
    let ?d = "upd_cli d c (\<lambda>x. x\<lparr>cl_cols := cl, cl_rows := r\<rparr>)"
    obtain res d' where n: "session_new ?d name argv cl r = (res, d')" by fastforce
    have "att_ok ?d" using att_upd_cli [OF assms(2)] by simp
    note a = att_session_new [OF this n]
    have t: "tree_ok d'" by (rule tree_session_new [OF _ n]) (rule tree_ok_core [OF _ assms(1)], simp)
    show ?thesis using n a t tree_ok_core [OF core_send(6) t] by (auto split: sum.split intro!: tree_join)
  qed
  then show ?thesis using tree_ok_core [OF core_send(6) assms(1)] by (simp add: handle_new_def Let_def)
qed

lemma session_findD: "session_find d name = Some s \<Longrightarrow> s < MAX_SESSIONS \<and> ss_use (sess d s)"
  unfolding session_find_def by (auto dest: find_upt)

lemma tree_handle_attach: "tree_ok d \<Longrightarrow> tree_ok (handle_attach d c p)"
  using tree_ok_core [OF core_send(6)] tree_join session_findD tree_select
  by (simp add: handle_attach_def Let_def split: option.split)

lemma tree_session_kill:
  assumes "tree_ok d" "s < MAX_SESSIONS" shows "tree_ok (session_kill d s)"
proof -
  have "core (foldl (\<lambda>d j. if pn_use (pane_at d s j) \<and> pn_pid (pane_at d s j) > 0
      then effect d (Hangup (pn_pid (pane_at d s j))) else d) d [0..<MAX_PANES_PER_SESSION]) = core d"
    by (rule core_foldl) simp
  from tree_ok_core [OF this assms(1)] show ?thesis unfolding session_kill_def by (intro tree_free_slot tree_butI assms(2))
qed

lemma tree_handle_kill: "tree_ok d \<Longrightarrow> tree_ok (handle_kill d c p)"
  using tree_ok_core [OF core_send(6)] tree_session_kill session_findD tree_ok_core [OF core_send(3)]
  by (simp add: handle_kill_def handle_list_def Let_def split: option.split)

lemma tree_attached_requests:
  assumes t: "tree_ok d" and at: "\<And>s. attached (cli d c) = Some s \<Longrightarrow> s < MAX_SESSIONS \<and> ss_use (sess d s)"
    and c: "c < length (clients d)"
  shows "tree_ok (handle_resize d c p)" "tree_ok (handle_split d c p)" "tree_ok (handle_close d c p)"
    "tree_ok (handle_select d c p)" "tree_ok (handle_scrollback d c p)"
proof -
  note err = tree_ok_core [OF core_send(6)]
  show "tree_ok (handle_resize d c p)"
  proof (cases "length p < 4")
    case False
    define e where "e = upd_cli d c (\<lambda>x. x\<lparr>cl_cols := session_clamp_cols (unat (get_u16 p)), cl_rows := session_clamp_rows (unat (get_u16 (drop 2 p)))\<rparr>)"
    have e: "tree_ok e" "sessions e = sessions d" "attached (cli e c) = attached (cli d c)"
      using tree_ok_core [OF _ t, of e] c by (simp_all add: e_def upd_cli_def core_def)
    then show ?thesis using False at tree_resize [OF e(1)] unfolding handle_resize_def Let_def e_def [symmetric]
      by (simp split: option.split)
  qed (simp add: handle_resize_def t)
  have "tree_ok (case session_split d s i st of (Inr _, d) \<Rightarrow> d | (Inl e, d) \<Rightarrow> client_err d c (g e) (h e))"
    if "s < MAX_SESSIONS \<and> ss_use (sess d s)" for s i st g h
    using tree_session_split [OF t, of s i st] that err by (cases "session_split d s i st") (auto split: sum.split)
  then show "tree_ok (handle_split d c p)" using t err at by (simp add: handle_split_def split: option.split)
  have "tree_ok (case session_close_pane d s i of (True, d) \<Rightarrow> d | (False, d) \<Rightarrow> client_err d c code msg)"
    if "s < MAX_SESSIONS \<and> ss_use (sess d s)" for s i code msg
    using tree_close_pane [OF t, of s i] that err by (cases "session_close_pane d s i") (auto split: bool.split)
  then show "tree_ok (handle_close d c p)" using t err at by (simp add: handle_close_def split: option.split)
  have "tree_ok (case session_select_pane d s m i of (True, d) \<Rightarrow> d | (False, d) \<Rightarrow> client_err d c code msg)"
    if "s < MAX_SESSIONS \<and> ss_use (sess d s)" for s m i code msg
    using tree_select [OF t, of s m i] that err by (cases "session_select_pane d s m i") (auto split: bool.split)
  then show "tree_ok (handle_select d c p)" using t err at by (simp add: handle_select_def split: option.split)
  have "core (upd_pane d s j (\<lambda>q. q\<lparr>pn_sb := sb\<rparr>)) = core d" for d s j sb by (rule core_upd_pane) (simp add: pane_core_def)
  moreover have "core (snd (take_disk d)) = core d" using core_sys(3) surjective_pairing by blast
  ultimately have "core (handle_scrollback d c p) = core d"
    by (simp add: handle_scrollback_def Let_def case_prod_unfold split: option.split)
  then show "tree_ok (handle_scrollback d c p)" using tree_ok_core t by blast
qed

lemma tree_dispatch:
  assumes t: "tree_ok d" and a: "att_ok d" and c: "c < MAX_CLIENTS" "cl_use (cli d c)"
  shows "tree_ok (dispatch d c ty p)"
proof -
  have at: "s < MAX_SESSIONS \<and> ss_use (sess d s)" if "attached (cli d c) = Some s" for s using att_clientD [OF a c that] by simp
  have hello: "tree_ok (handle_hello d c ty p)" by (rule tree_ok_core [OF _ t]) (simp add: handle_hello_def)
  have "tree_ok (client_send d c m q)" "tree_ok ((client_send d c m q)\<lparr>reload := True\<rparr>)" "tree_ok (session_stdin d s q)"
    "tree_ok (upd_cli (session_detach d s c) c f)" for m q s f
    by (rule tree_ok_core [OF _ t]; simp add: core_detach)+
  then show ?thesis
    using t hello tree_attached_requests [OF t at] att_tables [OF a] c tree_handle_new [OF t a c(1)] tree_handle_attach [OF t] tree_handle_kill [OF t]
    by (simp add: dispatch_def handle_list_def handle_list2_def split: option.split)
qed

lemma core_client_read: "client_read_loop c d rs = (res, d') \<Longrightarrow> core d' = core d"
proof (induction rs arbitrary: d)
  case (Cons r rs)
  then show ?case by (cases r) (auto simp: Let_def split: if_splits prod.splits bool.splits dest: Cons.IH)
qed simp

lemma tree_client_frames:
  "tree_ok d \<Longrightarrow> att_ok d \<Longrightarrow> c < MAX_CLIENTS \<Longrightarrow> cl_use (cli d c) \<Longrightarrow> tree_ok (client_frames n c d)"
proof (induction n arbitrary: d)
  case (Suc n)
  show ?case
  proof (cases "proto_read_frame (cl_in (cli d c))")
    case (Pair res r)
    show ?thesis
    proof (cases res)
      case (Frame t p)
      let ?d = "upd_cli d c (\<lambda>x. x\<lparr>cl_in := r\<rparr>)"
      have d: "att_ok ?d" "cl_use (cli ?d c)" "tree_ok ?d"
        using att_upd_cli [OF Suc.prems(2)] att_tables [OF Suc.prems(2)] Suc.prems tree_ok_core [OF core_basic(6) Suc.prems(1)]
        by (simp_all add: upd_cli_def)
      have "tree_ok (dispatch ?d c t p)" "att_ok (dispatch ?d c t p)"
        using tree_dispatch [OF d(3,1)] att_dispatch [OF d(1)] d(2) Suc.prems(3) by blast+
      then show ?thesis using Pair Frame Suc.IH [of "dispatch ?d c t p"] Suc.prems(3) by (simp add: Let_def)
    qed (use Pair Suc.prems tree_ok_core [OF core_send(1)] in simp_all)
  qed
qed simp

lemma tree_client_io:
  assumes t: "tree_ok d" and a: "att_ok d" and c: "c < MAX_CLIENTS" shows "tree_ok (client_io d c re rs)"
proof -
  define e where "e = (if re AND POLLOUT \<noteq> 0 then client_flush d c else d)"
  have e: "tree_ok e" "att_ok e" using t a c att_client_flush tree_ok_core [OF core_send(2) t] by (simp_all add: e_def)
  obtain res d' where r: "client_read_loop c e rs = (res, d')" by fastforce
  have d': "tree_ok d'" using tree_ok_core [OF core_client_read [OF r] e(1)] .
  have f: "tree_ok (client_frames n c d')" if "cl_use (cli e c)" "res \<noteq> None" for n
    using att_client_read [OF e(2) c r] that tree_client_frames [OF d' _ c] by simp
  show ?thesis unfolding client_io_def Let_def e_def [symmetric] r
    using t e d' f tree_ok_core [OF core_send(1)] by (auto simp del: client_frames.simps split: option.split)
qed

lemma free_slot_dead:
  assumes "s < length (sessions d)" "length (ss_panes (sess d s)) = MAX_PANES_PER_SESSION"
  shows "live_panes (sess (session_free_slot d s) s) = []"
proof -
  let ?f = "\<lambda>d j. if pn_use (pane_at d s j) then pane_free_slot d s j else d"
  have dead: "\<not> pn_use (pane_at d' s j)" if c: "core d' = core d" and j: "\<not> pn_use (pane_at d s j)" "s < length (sessions d)"
    "j < length (ss_panes (sess d s))" for d d' j
  proof -
    have "map pane_core (ss_panes (sess d' s)) = map pane_core (ss_panes (sess d s))" using core_nth [OF c, of s] j by (simp add: sess_core_def)
    from this [THEN arg_cong, of "\<lambda>l. l ! j"] this [THEN arg_cong, of length] show ?thesis
      using j by (auto simp: pane_core_def split: if_splits)
  qed
  have step: "s < length (sessions (?f d j)) \<and> length (ss_panes (sess (?f d j) s)) = length (ss_panes (sess d s)) \<and>
      \<not> pn_use (pane_at (?f d j) s j) \<and> (\<forall>i<length (ss_panes (sess d s)). \<not> pn_use (pane_at d s i) \<longrightarrow> \<not> pn_use (pane_at (?f d j) s i))"
    if s: "s < length (sessions d)" and j: "j < length (ss_panes (sess d s))" for d j
  proof -
    let ?e = "upd_pane d s j bury"
    have c: "core (pane_free_slot d s j) = core ?e" by (rule core_free(1))
    have e: "s < length (sessions ?e)" "length (ss_panes (sess ?e s)) = length (ss_panes (sess d s))" "\<not> pn_use (pane_at ?e s j)"
      "\<And>i. \<not> pn_use (pane_at d s i) \<Longrightarrow> \<not> pn_use (pane_at ?e s i)"
      using s j by (auto simp: upd_pane_def upd_sess_def bury_def nth_list_update)
    have l: "length (ss_panes (sess (pane_free_slot d s j) s)) = length (ss_panes (sess d s))"
      using core_nth [OF c, of s] e(1,2) by (metis length_map sess_core_def snd_conv)
    show ?thesis using s j core_nth [OF c, of s] e l dead [OF c _ e(1)] by auto
  qed
  have run: "s < length (sessions d) \<Longrightarrow> set js \<subseteq> {..<length (ss_panes (sess d s))} \<Longrightarrow>
      (\<forall>i<length (ss_panes (sess d s)). \<not> pn_use (pane_at d s i) \<or> i \<in> set js \<longrightarrow> \<not> pn_use (pane_at (foldl ?f d js) s i))" for d js
  proof (induction js arbitrary: d)
    case (Cons j js)
    have st: "s < length (sessions (?f d j))" "length (ss_panes (sess (?f d j) s)) = length (ss_panes (sess d s))" "\<not> pn_use (pane_at (?f d j) s j)"
        "\<forall>i<length (ss_panes (sess d s)). \<not> pn_use (pane_at d s i) \<longrightarrow> \<not> pn_use (pane_at (?f d j) s i)"
      using step [of d j] Cons.prems by auto
    have "\<forall>i<length (ss_panes (sess d s)). \<not> pn_use (pane_at (?f d j) s i) \<or> i \<in> set js \<longrightarrow> \<not> pn_use (pane_at (foldl ?f (?f d j) js) s i)"
      using Cons.IH [OF st(1)] Cons.prems(2) unfolding st(2) by simp
    then show ?case using st(3,4) by auto
  qed simp
  define e where "e = foldl (\<lambda>d k. drop_client d s k) d [0..<MAX_CLIENTS_PER_SESSION]"
  have c: "core e = core d" unfolding e_def by (rule core_foldl) simp
  have e: "s < length (sessions e)" "length (ss_panes (sess e s)) = MAX_PANES_PER_SESSION"
    using core_nth [OF c, of s] assms by (auto simp: sess_core_def dest: map_eq_imp_length_eq)
  define g where "g = foldl ?f e [0..<MAX_PANES_PER_SESSION]"
  have "\<forall>i<MAX_PANES_PER_SESSION. \<not> pn_use (pane_at g s i)"
    using run [OF e(1), of "[0..<MAX_PANES_PER_SESSION]"] e(2) unfolding g_def by (simp add: lessThan_atLeast0)
  then have "live_panes (sess g s) = []" by (simp add: live_panes_def)
  moreover have "live_panes (sess (upd_sess g s (\<lambda>x. x\<lparr>ss_use := False\<rparr>)) s) = live_panes (sess g s)"
    by (cases "s < length (sessions g)") (simp_all add: upd_sess_def live_panes_def list_update_beyond)
  ultimately show ?thesis unfolding session_free_slot_def Let_def e_def [symmetric] g_def [symmetric] by simp
qed

lemma tree_reap_pane:
  assumes t: "tree_ok d" and s: "s < MAX_SESSIONS" and u: "ss_use (sess d s) \<or> live_panes (sess d s) = []" and j: "j < MAX_PANES_PER_SESSION"
  shows "tree_ok (reap_pane pid st s d j) \<and> (ss_use (sess (reap_pane pid st s d j) s) \<or> live_panes (sess (reap_pane pid st s d j) s) = [])"
proof (cases "pn_use (pane_at d s j) \<and> pn_pid (pane_at d s j) = pid")
  case True
  have lv: "j \<in> set (live_panes (sess d s))" using True j by (simp add: in_live)
  then have use: "ss_use (sess d s)" using u by auto
  have l: "length (sessions d) = MAX_SESSIONS" "length (ss_panes (sess d s)) = MAX_PANES_PER_SESSION"
    using t s use by (auto simp: tree_ok_def sess_ok_def sess_but_def)
  define e where "e = upd_pane d s j (\<lambda>p. p\<lparr>pn_pid := - 1, pn_exit := exit_code st\<rparr>)"
  have c: "core e = core d" unfolding e_def by (rule core_upd_pane) (simp add: pane_core_def)
  have e: "tree_ok e" using tree_ok_core [OF c t] .
  have se: "sess_core (sess e s) = sess_core (sess d s)" using core_nth [OF c, of s] l(1) s by simp
  have le: "ss_use (sess e s)" "live_panes (sess e s) = live_panes (sess d s)" "length (sessions e) = MAX_SESSIONS"
    using sess_core_eqD(2,3) [OF se l(2)] use e by (simp_all add: tree_ok_def)
  have one: "live_panes (sess (session_free_slot (pane_free_slot g s j) s) s) = []" if "core g = core d" for g
  proof (rule free_slot_dead)
    have n: "length (sessions (pane_free_slot g s j)) = length (sessions g)" "s < length (sessions g) \<Longrightarrow>
        sess_core (sess (pane_free_slot g s j) s) = sess_core (sess (upd_pane g s j bury) s)"
      using core_nth [OF core_free(1) [of g s j], of s] by (simp_all add: upd_pane_def upd_sess_def)
    have g: "s < length (sessions g)" "length (ss_panes (sess g s)) = MAX_PANES_PER_SESSION"
      using core_nth [OF that, of s] l s by (auto simp: sess_core_def dest: map_eq_imp_length_eq)
    show "s < length (sessions (pane_free_slot g s j))" using n g by simp
    show "length (ss_panes (sess (pane_free_slot g s j) s)) = MAX_PANES_PER_SESSION"
      using n(2) [OF g(1)] g by (auto simp: sess_core_def upd_pane_def upd_sess_def dest: map_eq_imp_length_eq)
  qed
  have gone: "ss_use (sess (pane_gone g s j i) s)" if "core g = core d" for g i
  proof -
    have b: "core (pane_gone g s j i) = core h" if "h = upd_sess (upd_sess (upd_sess (pane_free_slot g s j) s
        (\<lambda>x. x\<lparr>ss_lt := snd (layout_close (ss_lt x) (view_cols x) (view_rows x) (int j))\<rparr>)) s (\<lambda>x. if active_id x = i
               then x\<lparr>active_id := if last_id x \<noteq> i then last_id x else 0\<rparr> else x)) s refocus" for h
      unfolding pane_gone_def Let_def that by simp
    have "ss_use (sess (pane_free_slot g s j) s)" "s < length (sessions (pane_free_slot g s j))"
      using core_nth [OF core_free(1) [of g s j], of s] core_nth [OF that, of s] use l s
      by (auto simp: sess_core_def upd_pane_def upd_sess_def)
    then show ?thesis using core_nth [OF b [OF refl], of s]
      by (simp add: sess_core_def upd_sess_def refocus_use)
  qed
  have "tree_ok (session_pane_reaped e s j)" using tree_pane_reaped [OF e s le(1)] lv le(2) by simp
  moreover have "ss_use (sess (session_pane_reaped e s j) s) \<or> live_panes (sess (session_pane_reaped e s j) s) = []"
    using one gone c by (simp add: session_pane_reaped_def Let_def)
  ultimately show ?thesis using True by (simp add: reap_pane_def e_def [symmetric])
qed (use assms in \<open>auto simp: reap_pane_def\<close>)

lemma fold_keeps: "P d \<Longrightarrow> (\<And>d j. P d \<Longrightarrow> j \<in> set js \<Longrightarrow> P (f d j)) \<Longrightarrow> P (foldl f d js)"
  by (induction js arbitrary: d) simp_all

lemma tree_reap_children: "tree_ok d \<Longrightarrow> tree_ok (session_reap_children d rs)"
proof -
  have one: "tree_ok (reap_session pid st d s)" if "tree_ok d" "s < MAX_SESSIONS" for pid st d s
  proof (cases "ss_use (sess d s)")
    case True
    have "tree_ok (foldl (reap_pane pid st s) d [0..<MAX_PANES_PER_SESSION]) \<and> (ss_use (sess (foldl (reap_pane pid st s) d [0..<MAX_PANES_PER_SESSION]) s) \<or> live_panes (sess (foldl (reap_pane pid st s) d [0..<MAX_PANES_PER_SESSION]) s) = [])"
      by (rule fold_keeps [where P = "\<lambda>d. tree_ok d \<and> (ss_use (sess d s) \<or> live_panes (sess d s) = [])"]) (use that True tree_reap_pane in auto)
    then show ?thesis using True by (simp add: reap_session_def)
  qed (simp add: reap_session_def that)
  have "tree_ok (foldl (reap_session pid st) d [0..<MAX_SESSIONS])" if "tree_ok d" for pid st d
    by (rule fold_keeps [where P = tree_ok]) (use that one in auto)
  note all = this
  show "tree_ok d \<Longrightarrow> tree_ok (session_reap_children d rs)"
    unfolding session_reap_children_def by (rule fold_keeps [where P = tree_ok], assumption, rule all)
qed

lemma core_pty_read: "core (pty_read_loop m s j fd d rs) = core d"
  by (induction rs arbitrary: d) (auto simp: Let_def split: read_call.split)

lemma core_events:
  "core (server_accept d fd uid) = core d" "core (pane_pty_readable d s j fd re rs) = core d" "core (fst (daemon_tick (d, lf))) = core d"
proof -
  have nw: "core (snd (now_ms d)) = core d" for d using core_sys(1) surjective_pairing by blast
  have ad: "core (snd (d_add_fd d fd ev ow)) = core d" for d fd ev ow using core_sys(5) surjective_pairing by blast
  show "core (server_accept d fd uid) = core d"
  proof (cases "find (\<lambda>i. \<not> cl_use (cli d i)) [0..<MAX_CLIENTS]")
    case (Some c)
    let ?e = "upd_cli (snd (now_ms d)) c (\<lambda>x. x\<lparr>cl_fd := fd, cl_use := True, hello_done := False, connected_at := fst (now_ms d), attached := None,
       cl_in := ring_init 4096 (2 * PROTO_MAX_PAYLOAD), cl_out := ring_init 4096 CLIENT_OUT_MAX\<rparr>)"
    show ?thesis using Some ad [of ?e fd POLLIN "OwnClient c"] nw
      by (cases "d_add_fd ?e fd POLLIN (OwnClient c)"; cases "fst (d_add_fd ?e fd POLLIN (OwnClient c))")
        (simp_all add: server_accept_def Let_def case_prod_unfold)
  qed (simp add: server_accept_def)
  show "core (pane_pty_readable d s j fd re rs) = core d"
    by (simp add: pane_pty_readable_def Let_def case_prod_unfold core_pty_read nw)
  have a: "core (session_composite_all d) = core d" for d
    unfolding session_composite_all_def by (rule core_foldl) (simp add: Let_def)
  have b: "core (server_reap_idle d) = core d" for d
    by (simp add: server_reap_idle_def Let_def case_prod_unfold core_foldl nw)
  have c: "core (server_broadcast_session_changes d) = core d" for d
    by (simp add: server_broadcast_session_changes_def Let_def core_foldl)
  have e: "core (session_flush_all d) = core d" for d
    unfolding session_flush_all_def all_panes_def by (intro core_foldl) (simp add: core_foldl)
  show "core (fst (daemon_tick (d, lf))) = core d"
    by (simp add: daemon_tick_def Let_def case_prod_unfold a b c e nw)
qed

lemma tree_step:
  assumes "tree_ok d \<and> att_ok d" shows "tree_ok (daemon_step d e) \<and> att_ok (daemon_step d e)"
proof -
  have "tree_ok (daemon_step d e)"
    using assms tree_client_io [of d] tree_reap_children tree_ok_core [OF core_events(1)] tree_ok_core [OF core_events(2)] tree_ok_core [OF core_events(3)]
    by (cases e) simp_all
  then show ?thesis using assms att_step by blast
qed

interpretation session_tree: inv_machine daemon_step "\<lambda>d. tree_ok d \<and> att_ok d"
  by unfold_locales (rule tree_step)

section \<open>Theorem\<close>

lemma tree_cold_start: "cold_start d \<Longrightarrow> tree_ok d"
  by (simp add: cold_start_def tree_ok_def zero_session_def)

text \<open>Claim C6. From a cold start, whatever happens, every session in use has the shape the rest of the
  code relies on: its layout tree is well formed and its leaves are exactly the session's live
  panes, each once; every live pane has an engine; wire ids are distinct and none is the reserved
  255; the active id is the id of a live pane; and the view is between 1 and 1000 in both
  directions. This includes the paths where allocating, spawning or polling a new pane fails and
  the tree has to give up the leaf it was split for.\<close>

theorem session_panes_tree:
  assumes "cold_start d"
  shows "let d' = foldl daemon_step d es in \<forall>s<MAX_SESSIONS. ss_use (sess d' s) \<longrightarrow>
    (let x = sess d' s in
      (\<exists>t. layout_ok (ss_lt x) t \<and> distinct (panes (shape t)) \<and> set (panes (shape t)) = int ` set (live_panes x)) \<and>
      (\<forall>i\<in>set (live_panes x). pn_vt (ss_panes x ! i) \<noteq> None \<and> pn_id (ss_panes x ! i) \<noteq> 255) \<and>
      inj_on (\<lambda>i. pn_id (ss_panes x ! i)) (set (live_panes x)) \<and>
      (\<exists>i\<in>set (live_panes x). active_id x = pn_id (ss_panes x ! i)) \<and>
      1 \<le> view_cols x \<and> view_cols x \<le> VT_COLS_MAX \<and> 1 \<le> view_rows x \<and> view_rows x \<le> VT_ROWS_MAX)"
proof -
  have "tree_ok (foldl daemon_step d es)"
    using session_tree.run_inv tree_cold_start [OF assms] att_cold_start [OF assms] by blast
  then show ?thesis unfolding tree_ok_def sess_ok_def sess_but_def live_ids_def Let_def
    by (auto simp: layout_ok_def)
qed

text \<open>The client of \<open>visit\<close>, who also splits its pane.\<close>

definition visit_split :: "daemon_event list" where
  "visit_split = [Accept 7 True, Client_Ready 0 POLLIN [Got (encode_frame (1, put_u16 1 @ put_u16 3))],
     Client_Ready 0 POLLIN [Got (encode_frame (0x12, n16 40 @ n16 10 @ [1, 0x61] @ n16 0))],
     Client_Ready 0 POLLIN [Got (encode_frame (0x16, [0, 255]))]]"

theorem session_panes_tree_witness:
  "let d = blank_daemon\<lparr>spawns := [Some (9, 42), Some (10, 43)], writes := replicate 10 (Sent 1000)\<rparr>; d' = foldl daemon_step d visit_split in
   cold_start d \<and> (\<forall>s<MAX_SESSIONS. ss_use (sess d' s) \<longrightarrow>
    (let x = sess d' s in
      (\<exists>t. layout_ok (ss_lt x) t \<and> distinct (panes (shape t)) \<and> set (panes (shape t)) = int ` set (live_panes x)) \<and>
      (\<forall>i\<in>set (live_panes x). pn_vt (ss_panes x ! i) \<noteq> None \<and> pn_id (ss_panes x ! i) \<noteq> 255) \<and>
      inj_on (\<lambda>i. pn_id (ss_panes x ! i)) (set (live_panes x)) \<and>
      (\<exists>i\<in>set (live_panes x). active_id x = pn_id (ss_panes x ! i)) \<and>
      1 \<le> view_cols x \<and> view_cols x \<le> VT_COLS_MAX \<and> 1 \<le> view_rows x \<and> view_rows x \<le> VT_ROWS_MAX))"
proof -
  let ?d = "blank_daemon\<lparr>spawns := [Some (9, 42), Some (10, 43)], writes := replicate 10 (Sent 1000)\<rparr>"
  have c: "cold_start ?d" by (simp add: cold_start_def blank_daemon_def)
  show ?thesis unfolding Let_def by (rule conjI [OF c session_panes_tree [OF c, of visit_split, unfolded Let_def]])
qed

end
