(* ===== verification/Handoff.thy ===== *)
theory Handoff
  imports Pane_Tree
begin

unbundle bit_operations_syntax

text \<open>
  The restart in place of \<open>src/daemon/handoff.c\<close>: every session is written to a state file, the
  descriptors the next image needs lose their close-on-exec flag, the daemon executes its own
  binary, and the new image rebuilds the sessions from the file.

  \<open>process\<close> is what survives or is decided across the \<open>execv\<close>: the daemon's memory, the
  close-on-exec flag of every descriptor, and the state file. \<open>fcntl_ok\<close>, \<open>tty\<close> and \<open>lock_ok\<close> say
  for which descriptors \<open>fcntl\<close>, \<open>ioctl(TIOCGWINSZ)\<close> and \<open>lock_adopt\<close> succeed.
\<close>

section \<open>The state file\<close>

definition HANDOFF_BLOB_MAX :: nat where "HANDOFF_BLOB_MAX = 67108864"

record process =
  pr_daemon :: daemon
  cloexec :: "int \<Rightarrow> bool"
  state_file :: "byte list option"
  g_lock_fd :: int

text \<open>A session to be written, with the slots and the screens of its panes.\<close>

record export_rec =
  ex_s :: nat
  ex_panes :: "(nat \<times> byte list) list"

definition handoff_magic :: "byte list" where
  "handoff_magic = ascii ''ATHANDF'' @ [0]"

definition put_node :: "layout_node \<Rightarrow> byte list" where
  "put_node n =
    [(if in_use n then 1 else 0) OR (if leaf n then 2 else 0) OR (if stacked n then 4 else 0),
     word_of_int (pane_idx n), word_of_int (child0 n), word_of_int (child1 n)] @
    n16 (nx n) @ n16 (ny n) @ n16 (ncols n) @ n16 (nrows n)"

definition put_layout :: "layout \<Rightarrow> byte list" where
  "put_layout lt = word_of_int (root lt) # concat (map (\<lambda>j. put_node (nodes lt ! j)) [0..<LAYOUT_NODES])"

definition put_pane :: "session \<Rightarrow> nat \<times> byte list \<Rightarrow> byte list" where
  "put_pane x e = (let p = ss_panes x ! fst e in
    [word_of_nat (fst e), pn_id p] @ n32 (pn_fd p) @ n32 (pn_pid p) @ n16 (pn_cols p) @ n16 (pn_rows p) @
    n16 (pn_x p) @ n16 (pn_y p) @ put_u32 (word_of_nat (length (snd e))) @ snd e)"

definition put_session :: "session \<Rightarrow> (nat \<times> byte list) list \<Rightarrow> byte list" where
  "put_session x ps =
    word_of_nat (length (ss_name x)) # ss_name x @ n16 (view_cols x) @ n16 (view_rows x) @
    [active_id x, last_id x, next_id x, word_of_nat (length ps)] @ put_layout (ss_lt x) @ concat (map (put_pane x) ps)"

definition write_state :: "daemon \<Rightarrow> export_rec list \<Rightarrow> int \<Rightarrow> int \<Rightarrow> byte list" where
  "write_state d recs lfd kfd =
    handoff_magic @ n16 2 @ n16 (length recs) @ n32 lfd @ n32 kfd @ put_u32 (generation d + 1) @
    concat (map (\<lambda>r. put_session (sess d (ex_s r)) (ex_panes r)) recs)"

section \<open>Leaving\<close>

definition export_blob :: "daemon \<Rightarrow> pane \<Rightarrow> byte list" where
  "export_blob d p = (case pn_vt p of None \<Rightarrow> []
     | Some v \<Rightarrow> let b = snapshot_or_empty d v in if length b > HANDOFF_BLOB_MAX then [] else b)"

definition export_session :: "daemon \<Rightarrow> nat \<Rightarrow> export_rec" where
  "export_session d s = \<lparr>ex_s = s, ex_panes = map (\<lambda>j. (j, export_blob d (pane_at d s j)))
     (filter (\<lambda>j. pn_use (pane_at d s j) \<and> \<not> (pn_pid (pane_at d s j) \<le> 0 \<or> pn_fd (pane_at d s j) < 0))
       [0..<MAX_PANES_PER_SESSION])\<rparr>"

definition export_recs :: "daemon \<Rightarrow> export_rec list" where
  "export_recs d = filter (\<lambda>r. ex_panes r \<noteq> [])
     (map (export_session d) (filter (\<lambda>s. ss_use (sess d s)) [0..<MAX_SESSIONS]))"

definition set_cloexec :: "(int \<Rightarrow> bool) \<Rightarrow> bool \<Rightarrow> process \<Rightarrow> int \<Rightarrow> bool \<times> process" where
  "set_cloexec fcntl_ok on pr fd =
    (if fcntl_ok fd then (True, pr\<lparr>cloexec := (cloexec pr)(fd := on)\<rparr>) else (False, pr))"

text \<open>The master descriptors of the exported panes.\<close>

definition export_fds :: "daemon \<Rightarrow> export_rec list \<Rightarrow> int list" where
  "export_fds d recs = concat (map (\<lambda>r. map (\<lambda>e. pn_fd (pane_at d (ex_s r) (fst e))) (ex_panes r)) recs)"

definition set_all :: "(int \<Rightarrow> bool) \<Rightarrow> bool \<Rightarrow> process \<Rightarrow> int list \<Rightarrow> process" where
  "set_all fcntl_ok on = foldl (\<lambda>pr fd. snd (set_cloexec fcntl_ok on pr fd))"

text \<open>\<open>execv\<close> does not return when it succeeds: the new image starts from \<open>Replaced\<close>. \<open>open_ok\<close> and
  \<open>write_ok\<close> are the outcomes of creating and writing the state file, \<open>exec_ok\<close> of \<open>execv\<close>.\<close>

datatype exec_outcome = Replaced process | Returned process

definition handoff_exec :: "(int \<Rightarrow> bool) \<Rightarrow> bool \<Rightarrow> bool \<Rightarrow> bool \<Rightarrow> process \<Rightarrow> exec_outcome" where
  "handoff_exec fcntl_ok open_ok write_ok exec_ok pr =
    (let recs = export_recs (pr_daemon pr);
         d = session_flush_all (pr_daemon pr);
         (lfd, d) = server_prepare_handoff d;
         pr = pr\<lparr>pr_daemon := d\<rparr>;
         (cleared_listen, pr) = (if lfd \<ge> 0 then set_cloexec fcntl_ok False pr lfd else (False, pr));
         (cleared_lock, pr) = (if g_lock_fd pr \<ge> 0 then set_cloexec fcntl_ok False pr (g_lock_fd pr) else (False, pr));
         masters = export_fds d recs;
         pr = set_all fcntl_ok False pr masters;
         pr = pr\<lparr>state_file := None\<rparr>
     in if open_ok \<and> write_ok \<and> exec_ok
        then Replaced (pr\<lparr>state_file := Some (write_state d recs (if cleared_listen then lfd else - 1) (g_lock_fd pr))\<rparr>)
        else let pr = set_all fcntl_ok True pr masters;
                 pr = (if cleared_listen then snd (set_cloexec fcntl_ok True pr lfd) else pr);
                 pr = (if cleared_lock then snd (set_cloexec fcntl_ok True pr (g_lock_fd pr)) else pr)
             in Returned pr)"

section \<open>Arriving\<close>

definition rd :: "nat \<Rightarrow> byte list \<Rightarrow> (byte list \<times> byte list) option" where
  "rd n f = (if n \<le> length f then Some (take n f, drop n f) else None)"

definition get_node :: "byte list \<Rightarrow> layout_node" where
  "get_node q =
    (let c0 = sint (q ! 2); c1 = sint (q ! 3); pi = sint (q ! 1) in
     \<lparr>in_use = (q ! 0 AND 1 \<noteq> 0), leaf = (q ! 0 AND 2 \<noteq> 0),
      pane_idx = (if pi \<ge> int MAX_PANES_PER_SESSION then 0 else pi), stacked = (q ! 0 AND 4 \<noteq> 0),
      child0 = (if c0 < 0 \<or> c0 \<ge> int LAYOUT_NODES then 0 else c0),
      child1 = (if c1 < 0 \<or> c1 \<ge> int LAYOUT_NODES then 0 else c1),
      nx = unat (get_u16 (drop 4 q)), ny = unat (get_u16 (drop 6 q)),
      ncols = unat (get_u16 (drop 8 q)), nrows = unat (get_u16 (drop 10 q))\<rparr>)"

definition get_layout :: "byte list \<Rightarrow> layout" where
  "get_layout lrec =
    (let r = sint (lrec ! 0) in
     \<lparr>nodes = map (\<lambda>j. get_node (drop (1 + j * 12) lrec)) [0..<LAYOUT_NODES],
      root = (if r < - 1 \<or> r \<ge> int LAYOUT_NODES then 0 else r)\<rparr>)"

definition adopt_master :: "(int \<Rightarrow> bool) \<Rightarrow> (int \<Rightarrow> bool) \<Rightarrow> process \<Rightarrow> int \<Rightarrow> bool \<times> process" where
  "adopt_master fcntl_ok tty pr fd =
    (if fd \<le> 2 then (False, pr) else if \<not> tty fd then (False, pr) else (True, snd (set_cloexec fcntl_ok True pr fd)))"

text \<open>The pane records of one session; the result says whether the file could be read so far.\<close>

fun import_panes :: "(int \<Rightarrow> bool) \<Rightarrow> (int \<Rightarrow> bool) \<Rightarrow> nat option \<Rightarrow> nat \<Rightarrow> byte list \<Rightarrow> process \<Rightarrow> bool \<times> byte list \<times> process" where
  "import_panes fcntl_ok tty so 0 f pr = (True, f, pr)"
| "import_panes fcntl_ok tty so (Suc n) f pr = (case rd 22 f of
     None \<Rightarrow> (False, f, pr)
   | Some (prec, f) \<Rightarrow>
      let slot = unat (prec ! 0); pane_id = prec ! 1; fd = sint (get_u32 (drop 2 prec)); pid = sint (get_u32 (drop 6 prec));
          c = unat (get_u16 (drop 10 prec)); r = unat (get_u16 (drop 12 prec)); blob_len = unat (get_u32 (drop 18 prec))
      in if blob_len > HANDOFF_BLOB_MAX then (False, f, pr)
         else (case rd blob_len f of
           None \<Rightarrow> (False, f, pr)
         | Some (blob, f) \<Rightarrow> (case so of
             None \<Rightarrow> import_panes fcntl_ok tty so n f pr
           | Some s \<Rightarrow>
              let (ok, pr) = adopt_master fcntl_ok tty pr fd in
              if \<not> ok \<or> pid \<le> 0 then import_panes fcntl_ok tty so n f pr
              else import_panes fcntl_ok tty so n f
                     (pr\<lparr>pr_daemon := snd (session_import_pane (pr_daemon pr) s slot pane_id fd pid c r blob)\<rparr>))))"

text \<open>The session records, with the number of sessions restored so far.\<close>

fun import_sessions :: "(int \<Rightarrow> bool) \<Rightarrow> (int \<Rightarrow> bool) \<Rightarrow> nat \<Rightarrow> byte list \<Rightarrow> nat \<Rightarrow> process \<Rightarrow> nat \<times> process" where
  "import_sessions fcntl_ok tty 0 f restored pr = (restored, pr)"
| "import_sessions fcntl_ok tty (Suc n) f restored pr = (case rd 1 f of
     None \<Rightarrow> (restored, pr)
   | Some (b, f) \<Rightarrow>
      if b ! 0 = 0 \<or> unat (b ! 0) > SESSION_NAME_MAX then (restored, pr)
      else (case rd (unat (b ! 0)) f of None \<Rightarrow> (restored, pr)
      | Some (name, f) \<Rightarrow>
         let name_ok = (at_valid_session_name (Some (name @ [0])) = Some True) in
         (case rd 8 f of None \<Rightarrow> (restored, pr)
         | Some (shdr, f) \<Rightarrow>
            let npanes = unat (shdr ! 7) in
            if npanes = 0 \<or> npanes > MAX_PANES_PER_SESSION then (restored, pr)
            else (case rd (1 + LAYOUT_NODES * 12) f of None \<Rightarrow> (restored, pr)
            | Some (lrec, f) \<Rightarrow>
               let (so, pr) = (if name_ok
                     then (case session_import_begin (pr_daemon pr) (cstr name) (unat (get_u16 shdr)) (unat (get_u16 (drop 2 shdr)))
                                  (shdr ! 4) (shdr ! 5) (shdr ! 6) (get_layout lrec) of
                             (Inl e, d) \<Rightarrow> (None, pr\<lparr>pr_daemon := d\<rparr>) | (Inr s, d) \<Rightarrow> (Some s, pr\<lparr>pr_daemon := d\<rparr>))
                     else (None, pr));
                   (file_ok, f, pr) = import_panes fcntl_ok tty so npanes f pr;
                   (restored, pr) = (case so of None \<Rightarrow> (restored, pr)
                     | Some s \<Rightarrow> (case session_import_finish (pr_daemon pr) s of
                          (ok, d) \<Rightarrow> (if ok then restored + 1 else restored, pr\<lparr>pr_daemon := d\<rparr>)))
               in if \<not> file_ok then (restored, pr) else import_sessions fcntl_ok tty n f restored pr))))"

text \<open>The result is the number of sessions restored (\<open>None\<close> when the file is refused), the
  inherited listener and lock, and the process.\<close>

definition handoff_import :: "(int \<Rightarrow> bool) \<Rightarrow> (int \<Rightarrow> bool) \<Rightarrow> (int \<Rightarrow> bool) \<Rightarrow> process \<Rightarrow> nat option \<times> int \<times> int \<times> process" where
  "handoff_import fcntl_ok tty lock_ok pr = (case state_file pr of
     None \<Rightarrow> (None, - 1, - 1, pr)
   | Some f \<Rightarrow>
      let pr = pr\<lparr>state_file := None\<rparr> in
      (case rd 24 f of None \<Rightarrow> (None, - 1, - 1, pr)
      | Some (hdr, f) \<Rightarrow>
         if take 8 hdr \<noteq> handoff_magic then (None, - 1, - 1, pr)
         else if get_u16 (drop 8 hdr) \<noteq> 2 then (None, - 1, - 1, pr)
         else let want = unat (get_u16 (drop 10 hdr)); lfd = sint (get_u32 (drop 12 hdr)); kfd = sint (get_u32 (drop 16 hdr));
                  pr = pr\<lparr>pr_daemon := (pr_daemon pr)\<lparr>generation := get_u32 (drop 20 hdr)\<rparr>\<rparr>
              in if want > MAX_SESSIONS then (None, - 1, - 1, pr)
                 else let lock_fd = (if kfd \<ge> 0 \<and> lock_ok kfd then kfd else - 1);
                          pr = (if lock_fd \<ge> 0 then pr\<lparr>cloexec := (cloexec pr)(lock_fd := True)\<rparr> else pr);
                          listen_fd = (if lfd \<ge> 0 then lfd else - 1);
                          pr = pr\<lparr>pr_daemon := (pr_daemon pr)\<lparr>importing := True\<rparr>\<rparr>;
                          (restored, pr) = import_sessions fcntl_ok tty want f 0 pr
                      in (Some restored, listen_fd, lock_fd, pr\<lparr>pr_daemon := (pr_daemon pr)\<lparr>importing := False\<rparr>\<rparr>)))"

end
