(* ===== verification/Reload.thy ===== *)
theory Reload
  imports Handoff
begin

text \<open>
  What a restart in place keeps (\<open>src/daemon/handoff.c\<close>). When it fails before the new image runs,
  the daemon is as before except that its clients are gone; when it succeeds, the new image rebuilds
  every session around the same children.
\<close>

section \<open>Descriptors\<close>

lemma set_all_cloexec:
  "cloexec (set_all ok on pr ns) fd = (if fd \<in> set ns \<and> ok fd then on else cloexec pr fd)"
  "pr_daemon (set_all ok on pr ns) = pr_daemon pr" "g_lock_fd (set_all ok on pr ns) = g_lock_fd pr"
  by (induction ns arbitrary: pr) (auto simp: set_all_def set_cloexec_def)

lemma set_cloexec_simps:
  "cloexec (snd (set_cloexec ok on pr fd)) n = (if n = fd \<and> ok fd then on else cloexec pr n)"
  "pr_daemon (snd (set_cloexec ok on pr fd)) = pr_daemon pr" "g_lock_fd (snd (set_cloexec ok on pr fd)) = g_lock_fd pr"
  "fst (set_cloexec ok on pr fd) = ok fd"
  by (simp_all add: set_cloexec_def)

text \<open>The daemon as the export leaves it.\<close>

definition departed :: "daemon \<Rightarrow> daemon" where
  "departed d = disconnect_all (session_flush_all d)"

definition lock_listen :: "(int \<Rightarrow> bool) \<Rightarrow> process \<Rightarrow> int set" where
  "lock_listen ok pr = {fd. fd \<ge> 0 \<and> ok fd \<and> (fd = listen_fd (session_flush_all (pr_daemon pr)) \<or> fd = g_lock_fd pr)}"

lemma handoff_exec_cases:
  fixes pr ok
  defines "d \<equiv> departed (pr_daemon pr)"
  defines "es \<equiv> export_fds d (export_recs (pr_daemon pr))"
  defines "l \<equiv> listen_fd (session_flush_all (pr_daemon pr))"
  shows "case handoff_exec ok o' w e pr of
     Replaced pr' \<Rightarrow> o' \<and> w \<and> e \<and> pr_daemon pr' = d \<and>
       state_file pr' = Some (write_state d (export_recs (pr_daemon pr)) (if l \<ge> 0 \<and> ok l then l else - 1) (g_lock_fd pr)) \<and>
       (\<forall>fd. cloexec pr' fd \<longleftrightarrow> cloexec pr fd \<and> \<not> (ok fd \<and> fd \<in> set es) \<and> fd \<notin> lock_listen ok pr)
   | Returned pr' \<Rightarrow> \<not> (o' \<and> w \<and> e) \<and> pr_daemon pr' = d \<and> state_file pr' = None \<and> (\<forall>fd. cloexec pr fd \<longrightarrow> cloexec pr' fd)"
proof -
  define a where "a = (if listen_fd (session_flush_all (pr_daemon pr)) \<ge> 0
    then set_cloexec ok False (pr\<lparr>pr_daemon := d\<rparr>) (listen_fd (session_flush_all (pr_daemon pr))) else (False, pr\<lparr>pr_daemon := d\<rparr>))"
  define b where "b = (if g_lock_fd (snd a) \<ge> 0 then set_cloexec ok False (snd a) (g_lock_fd (snd a)) else (False, snd a))"
  define c where "c = (set_all ok False (snd b) es)\<lparr>state_file := None\<rparr>"
  have a': "cloexec (snd a) n = (cloexec pr n \<and> \<not> (n = listen_fd (session_flush_all (pr_daemon pr)) \<and> n \<ge> 0 \<and> ok n))"
    "pr_daemon (snd a) = d" "g_lock_fd (snd a) = g_lock_fd pr"
    "fst a \<longleftrightarrow> listen_fd (session_flush_all (pr_daemon pr)) \<ge> 0 \<and> ok (listen_fd (session_flush_all (pr_daemon pr)))" for n
    by (auto simp: a_def set_cloexec_simps)
  have b': "cloexec (snd b) n = (cloexec pr n \<and> n \<notin> lock_listen ok pr)" "pr_daemon (snd b) = d" "g_lock_fd (snd b) = g_lock_fd pr"
    "fst b \<longleftrightarrow> g_lock_fd pr \<ge> 0 \<and> ok (g_lock_fd pr)" for n
    using a' by (auto simp: b_def set_cloexec_simps lock_listen_def)
  have c': "cloexec c n = (cloexec pr n \<and> n \<notin> lock_listen ok pr \<and> \<not> (ok n \<and> n \<in> set es))" "pr_daemon c = d" "g_lock_fd c = g_lock_fd pr"
    "state_file c = None" for n
    using b' by (auto simp: c_def set_all_cloexec)
  have run: "handoff_exec ok o' w e pr = (if o' \<and> w \<and> e
      then Replaced (c\<lparr>state_file := Some (write_state d (export_recs (pr_daemon pr)) (if fst a then listen_fd (session_flush_all (pr_daemon pr)) else - 1) (g_lock_fd c))\<rparr>)
      else let p1 = set_all ok True c es;
               p2 = (if fst a then snd (set_cloexec ok True p1 (listen_fd (session_flush_all (pr_daemon pr)))) else p1)
           in Returned (if fst b then snd (set_cloexec ok True p2 (g_lock_fd p2)) else p2))"
    unfolding handoff_exec_def server_prepare_handoff_def Let_def case_prod_unfold fst_conv snd_conv
      d_def [unfolded departed_def, symmetric] a_def [symmetric] b_def [symmetric] es_def [symmetric] c_def [symmetric]
    by simp
  show ?thesis
  proof (cases "o' \<and> w \<and> e")
    case True
    then show ?thesis using c' a'(4) unfolding run l_def by auto
  next
    case False
    define p1 where "p1 = set_all ok True c es"
    define p2 where "p2 = (if fst a then snd (set_cloexec ok True p1 (listen_fd (session_flush_all (pr_daemon pr)))) else p1)"
    have st: "state_file (set_all ok on q l) = state_file q" "state_file (snd (set_cloexec ok on q n)) = state_file q" for on q l n
      by (induction l arbitrary: q) (simp_all add: set_all_def set_cloexec_def)
    have 1: "cloexec p1 n = (cloexec c n \<or> ok n \<and> n \<in> set es)" "pr_daemon p1 = d" "state_file p1 = None" "g_lock_fd p1 = g_lock_fd pr" for n
      using c' by (auto simp: p1_def set_all_cloexec st)
    have 2: "cloexec p2 n = (cloexec p1 n \<or> fst a \<and> ok n \<and> n = listen_fd (session_flush_all (pr_daemon pr)))"
        "pr_daemon p2 = d" "state_file p2 = None" "g_lock_fd p2 = g_lock_fd pr" for n
      using 1 by (auto simp: p2_def set_cloexec_simps st)
    have "cloexec pr n \<Longrightarrow> cloexec p2 n \<or> fst b \<and> ok n \<and> n = g_lock_fd pr" for n
      using 1 2 c' a'(4) b'(4) by (auto simp: lock_listen_def)
    then show ?thesis using False 2 unfolding run Let_def p1_def [symmetric] p2_def [symmetric]
      by (auto simp: set_cloexec_simps st)
  qed
qed


text \<open>What a restart must not change of a session: its name and, for each slot, the pane's wire id,
  terminal and child.\<close>

definition children :: "daemon \<Rightarrow> (bool \<times> byte list \<times> (bool \<times> byte \<times> int \<times> int) list) list" where
  "children d = map (\<lambda>x. (ss_use x, ss_name x, map (\<lambda>p. (pn_use p, pn_id p, pn_fd p, pn_pid p)) (ss_panes x))) (sessions d)"

lemma children_upd_sess:
  "(\<And>x. ss_use (f x) = ss_use x \<and> ss_name (f x) = ss_name x \<and> ss_panes (f x) = ss_panes x) \<Longrightarrow> children (upd_sess d s f) = children d"
  by (cases "s < length (sessions d)") (simp_all add: children_def upd_sess_def map_update list_update_same_conv list_update_beyond)

lemma children_upd_pane:
  assumes "\<And>p. pn_use (f p) = pn_use p \<and> pn_id (f p) = pn_id p \<and> pn_fd (f p) = pn_fd p \<and> pn_pid (f p) = pn_pid p"
  shows "children (upd_pane d s j f) = children d"
proof (cases "s < length (sessions d) \<and> j < length (ss_panes (sess d s))")
  case True
  then have "map (\<lambda>p. (pn_use p, pn_id p, pn_fd p, pn_pid p)) ((ss_panes (sess d s))[j := f (pane_at d s j)]) =
      map (\<lambda>p. (pn_use p, pn_id p, pn_fd p, pn_pid p)) (ss_panes (sess d s))"
    using assms by (intro nth_equalityI) (auto simp: nth_list_update)
  then show ?thesis using True
    by (intro nth_equalityI) (auto simp: children_def upd_pane_def upd_sess_def nth_list_update)
qed (auto simp: children_def upd_pane_def upd_sess_def list_update_beyond not_less)

lemma children_foldl: "(\<And>d k. children (f d k) = children d) \<Longrightarrow> children (foldl f d ks) = children d"
  by (induction ks arbitrary: d) simp_all

lemma children_departed: "children (departed d) = children d"
proof -
  have disk: "children (snd (take_disk d)) = children d" for d by (simp add: take_disk_def children_def split: list.split)
  have a: "children (flush_sbs d s j) = children d" for d s j
    by (simp add: flush_sbs_def Let_def case_prod_unfold disk children_upd_pane split: option.split)
  have b: "children (session_flush_all d) = children d" for d
    unfolding session_flush_all_def all_panes_def by (rule children_foldl) (simp add: children_foldl a)
  have c: "children (session_detach d s c) = children d" for d s c
    unfolding session_detach_def Let_def by (simp add: children_foldl flush_pane_def a children_upd_sess)
  have e: "children (client_disconnect d c) = children d" for d c
    by (simp add: client_disconnect_def Let_def c upd_cli_def close_fd_def effect_def d_del_fd_def split: option.split)
      (simp add: children_def c [unfolded children_def])
  show ?thesis unfolding departed_def disconnect_all_def by (simp add: children_foldl e b)
qed


lemma disconnect_all_clients:
  assumes "length (clients d) = MAX_CLIENTS" "c < MAX_CLIENTS" shows "\<not> cl_use (cli (departed d) c)"
proof -
  have cl: "clients (flush_sbs d s j) = clients d" for d s j
    by (simp add: flush_sbs_def Let_def case_prod_unfold take_disk_def upd_pane_def upd_sess_def split: option.split list.split)
  have fold: "clients (foldl f d ks) = clients d" if "\<And>d k. clients (f d k) = clients d" for f d and ks :: "nat list"
    using that by (induction ks arbitrary: d) simp_all
  have fl: "clients (session_flush_all d) = clients d" for d
    unfolding session_flush_all_def all_panes_def by (intro fold) (simp add: fold cl)
  have det: "clients (session_detach d s k) = clients d" for d s k
    unfolding session_detach_def Let_def by (simp add: fold flush_pane_def cl upd_sess_def)
  have upd: "\<not> cl_use (l ! i) \<Longrightarrow> \<not> cl_use x \<Longrightarrow> \<not> cl_use (l[k := x] ! i)" for l :: "client list" and x i k
    by (cases "k = i"; cases "i < length l") (simp_all add: list_update_beyond)
  have one: "length (clients (client_disconnect d k)) = length (clients d) \<and> (k < length (clients d) \<longrightarrow> \<not> cl_use (cli (client_disconnect d k) k)) \<and>
      (\<forall>i. \<not> cl_use (cli d i) \<longrightarrow> \<not> cl_use (cli (client_disconnect d k) i))" for d k
    by (auto simp: client_disconnect_def Let_def upd_cli_def close_fd_def effect_def d_del_fd_def det upd split: option.split)
  let ?f = "\<lambda>d c. if cl_use (cli d c) then client_disconnect d c else d"
  have run: "length (clients (foldl ?f d ks)) = length (clients d) \<and> (\<forall>i<length (clients d). i \<in> set ks \<or> \<not> cl_use (cli d i) \<longrightarrow> \<not> cl_use (cli (foldl ?f d ks) i))"
    if "set ks \<subseteq> {..<length (clients d)}" for d ks using that
  proof (induction ks arbitrary: d)
    case (Cons k ks)
    have st: "length (clients (?f d k)) = length (clients d)" "\<not> cl_use (cli (?f d k) k)" "\<forall>i. \<not> cl_use (cli d i) \<longrightarrow> \<not> cl_use (cli (?f d k) i)"
      using one [of d k] Cons.prems by auto
    show ?case using Cons.IH [of "?f d k"] Cons.prems st by (auto simp del: if_split)
  qed simp
  show ?thesis using run [of "[0..<MAX_CLIENTS]" "session_flush_all d"] assms
    by (simp add: departed_def disconnect_all_def fl lessThan_atLeast0)
qed

text \<open>Claim C8. A restart in place that fails (the state file cannot be created or written, or \<open>execv\<close>
  returns) leaves a daemon that can go on: every descriptor that was close-on-exec is so again, no
  state file is left behind for a later image to replay, every session has its name and its panes
  with their terminals and children, and all clients are disconnected. When it succeeds, the only
  descriptors handed to the new image besides those that were inheritable before are the listener,
  the lock and the terminals of live panes.\<close>

theorem handoff_exec_undone:
  assumes "length (clients (pr_daemon pr)) = MAX_CLIENTS"
  shows "case handoff_exec fcntl_ok open_ok write_ok exec_ok pr of
     Returned pr' \<Rightarrow> (\<forall>fd. cloexec pr fd \<longrightarrow> cloexec pr' fd) \<and> state_file pr' = None \<and>
       children (pr_daemon pr') = children (pr_daemon pr) \<and> (\<forall>c<MAX_CLIENTS. \<not> cl_use (cli (pr_daemon pr') c))
   | Replaced pr' \<Rightarrow> \<forall>fd. cloexec pr fd \<and> \<not> cloexec pr' fd \<longrightarrow>
       fd = listen_fd (session_flush_all (pr_daemon pr)) \<or> fd = g_lock_fd pr \<or>
       fd \<in> set (export_fds (pr_daemon pr') (export_recs (pr_daemon pr)))"
proof -
  have "\<not> cl_use (cli (departed (pr_daemon pr)) c)" if "c < MAX_CLIENTS" for c by (rule disconnect_all_clients [OF assms that])
  then show ?thesis
    using handoff_exec_cases [where ok = fcntl_ok and o' = open_ok and w = write_ok and e = exec_ok and pr = pr] children_departed [of "pr_daemon pr"]
    by (auto split: exec_outcome.splits simp: lock_listen_def)
qed


theorem handoff_exec_undone_witness:
  "let pr = \<lparr>pr_daemon = blank_daemon, cloexec = (\<lambda>_. True), state_file = None, g_lock_fd = 5\<rparr> in
    length (clients (pr_daemon pr)) = MAX_CLIENTS \<and>
    (case handoff_exec (\<lambda>_. True) True True False pr of
     Returned pr' \<Rightarrow> (\<forall>fd. cloexec pr fd \<longrightarrow> cloexec pr' fd) \<and> state_file pr' = None \<and>
       children (pr_daemon pr') = children (pr_daemon pr) \<and> (\<forall>c<MAX_CLIENTS. \<not> cl_use (cli (pr_daemon pr') c))
   | Replaced pr' \<Rightarrow> \<forall>fd. cloexec pr fd \<and> \<not> cloexec pr' fd \<longrightarrow>
       fd = listen_fd (session_flush_all (pr_daemon pr)) \<or> fd = g_lock_fd pr \<or>
       fd \<in> set (export_fds (pr_daemon pr') (export_recs (pr_daemon pr))))"
proof -
  let ?pr = "\<lparr>pr_daemon = blank_daemon, cloexec = (\<lambda>_. True), state_file = None, g_lock_fd = 5\<rparr>"
  have l: "length (clients (pr_daemon ?pr)) = MAX_CLIENTS" by (simp add: blank_daemon_def)
  show ?thesis unfolding Let_def
    by (rule conjI [OF l handoff_exec_undone [OF l, of "\<lambda>_. True" True True False]])
qed

end
