(* ===== verification/Wire.thy ===== *)
theory Wire
  imports Session
begin

text \<open>The numbers of the wire format and of the state file, written and read back.\<close>

lemma unat_byte: "n < 256 \<Longrightarrow> unat (word_of_nat n :: byte) = n"
  by (simp add: unat_of_nat)

lemma get_n16: "n < 65536 \<Longrightarrow> unat (get_u16 (n16 n @ bs)) = n"
  by (simp add: n16_def unat_of_nat)

lemma get_n32: "- 2147483648 \<le> k \<Longrightarrow> k < 2147483648 \<Longrightarrow> sint (get_u32 (n32 k @ bs)) = k"
  by (simp add: n32_def sint_sbintrunc' signed_take_bit_int_eq_self)

lemma length_n16 [simp]: "length (n16 n) = 2"
  by (simp add: n16_def)

lemma length_n32 [simp]: "length (n32 n) = 4"
  by (simp add: n32_def)

end
