(* ===== verification/Rebuild.thy ===== *)
theory Rebuild
  imports Reload Wire
begin

text \<open>
  How the new image rebuilds one session from the state file (\<open>handoff_import\<close> in
  \<open>src/daemon/handoff.c\<close>, \<open>session_import_*\<close> in \<open>src/daemon/session.c\<close>): reading back the numbers, the
  layout tree and the pane records that \<open>handoff_exec\<close> wrote, one pane, all panes of a session, and
  one session. \<open>arriving\<close> describes the new image after some sessions are in.
\<close>

section \<open>Reading back what was written\<close>

lemma sint_byte: "- 128 \<le> k \<Longrightarrow> k < 128 \<Longrightarrow> sint (word_of_int k :: byte) = k"
  unfolding sint_sbintrunc' by (rule signed_take_bit_int_eq_self) simp_all

lemma length_put_node [simp]: "length (put_node n) = 12"
  by (simp add: put_node_def)

lemma node_flags:
  fixes a b c :: bool
  defines "f \<equiv> (if a then 1 else 0) OR (if b then 2 else 0) OR (if c then 4 else (0 :: byte))"
  shows "(f AND 1 \<noteq> 0) = a" "(f AND 2 \<noteq> 0) = b" "(f AND 4 \<noteq> 0) = c"
  unfolding f_def by (cases a; cases b; cases c; simp)+

lemma get_put_node:
  "in_use (get_node (put_node n @ bs)) = in_use n" "leaf (get_node (put_node n @ bs)) = leaf n"
  "stacked (get_node (put_node n @ bs)) = stacked n"
  "0 \<le> pane_idx n \<Longrightarrow> pane_idx n < 6 \<Longrightarrow> pane_idx (get_node (put_node n @ bs)) = pane_idx n"
  "0 \<le> child0 n \<Longrightarrow> child0 n < 11 \<Longrightarrow> child0 (get_node (put_node n @ bs)) = child0 n"
  "0 \<le> child1 n \<Longrightarrow> child1 n < 11 \<Longrightarrow> child1 (get_node (put_node n @ bs)) = child1 n"
  by (simp_all add: get_node_def put_node_def node_flags sint_byte Let_def MAX_PANES_PER_SESSION_def LAYOUT_NODES_def)

lemma drop_records:
  "(\<And>j. length (f j) = w) \<Longrightarrow> j \<le> n \<Longrightarrow> drop (j * w) (concat (map f [0..<n])) = concat (map f [j..<n])"
proof (induction j)
  case (Suc j)
  then have "[j..<n] = j # [Suc j..<n]" by (simp add: upt_conv_Cons)
  moreover have "drop (Suc j * w) (concat (map f [0..<n])) = drop w (drop (j * w) (concat (map f [0..<n])))"
    by (simp add: add.commute)
  ultimately show ?case using Suc by simp
qed simp

lemma length_put_layout [simp]: "length (put_layout lt) = 1 + LAYOUT_NODES * 12"
  by (simp add: put_layout_def length_concat comp_def sum_list_triv)

lemma get_layout_nodes:
  "j < LAYOUT_NODES \<Longrightarrow> \<exists>bs. nodes (get_layout (put_layout lt @ rest)) ! j = get_node (put_node (nodes lt ! j) @ bs)"
proof -
  assume j: "j < LAYOUT_NODES"
  have "drop (j * 12) (concat (map (\<lambda>j. put_node (nodes lt ! j)) [0..<LAYOUT_NODES])) = concat (map (\<lambda>j. put_node (nodes lt ! j)) [j..<LAYOUT_NODES])"
    by (rule drop_records) (use j in simp_all)
  also have "\<dots> = put_node (nodes lt ! j) @ concat (map (\<lambda>j. put_node (nodes lt ! j)) [Suc j..<LAYOUT_NODES])"
    using j by (simp add: upt_conv_Cons)
  finally show ?thesis using j by (auto simp: get_layout_def put_layout_def Let_def length_concat comp_def sum_list_triv)
qed

lemma layout_survives:
  assumes ok: "layout_ok lt t" and p: "\<And>p. p \<in> set (panes (shape t)) \<Longrightarrow> 0 \<le> p \<and> p < 6"
  shows "layout_ok (get_layout (put_layout lt @ rest)) t"
proof -
  let ?g = "get_layout (put_layout lt @ rest)"
  have len: "length (nodes ?g) = LAYOUT_NODES" by (simp add: get_layout_def Let_def)
  have at: "\<exists>bs. nodes ?g ! j = get_node (put_node (nodes lt ! j) @ bs)" if "j < LAYOUT_NODES" for j
    using get_layout_nodes [OF that] .
  have h: "holds (nodes ?g) u" if "holds (nodes lt) u" "list_all (\<lambda>i. i < LAYOUT_NODES) (addrs u)" "\<And>p. p \<in> set (panes (shape u)) \<Longrightarrow> 0 \<le> p \<and> p < 6" for u
    using that
  proof (induction u)
    case (Pane i p)
    then obtain bs where bs: "nodes ?g ! i = get_node (put_node (nodes lt ! i) @ bs)" using at [of i] by auto
    show ?case using Pane by (simp add: bs get_put_node)
  next
    case (Split i st a b)
    then obtain bs where bs: "nodes ?g ! i = get_node (put_node (nodes lt ! i) @ bs)" using at [of i] by auto
    have "addr a < LAYOUT_NODES" "addr b < LAYOUT_NODES" using Split.prems(2) addr_in_addrs [of a] addr_in_addrs [of b] by (auto simp: list_all_iff)
    then show ?case using Split by (simp add: bs get_put_node LAYOUT_NODES_def)
  qed
  have "addr t < LAYOUT_NODES" using ok addr_in_addrs [of t] by (auto simp: layout_ok_def list_all_iff)
  then have r: "root ?g = int (addr t)" using ok sint_byte [of "int (addr t)"] by (simp add: get_layout_def put_layout_def Let_def layout_ok_def sint_byte LAYOUT_NODES_def)
  have u: "in_use (nodes ?g ! i) = in_use (nodes lt ! i)" if "i < LAYOUT_NODES" for i using at [OF that] get_put_node(1) by auto
  show ?thesis using ok len r u h [of t] p unfolding layout_ok_def by simp
qed


section \<open>Rebuilding panes\<close>

definition pane_ident :: "pane \<Rightarrow> (byte \<times> int \<times> int) option" where
  "pane_ident p = (if pn_use p then Some (pn_id p, pn_fd p, pn_pid p) else None)"

lemma quiet_clients:
  assumes "set (ss_clients (sess d s)) \<subseteq> {None}" "length (ss_clients (sess d s)) = MAX_CLIENTS_PER_SESSION"
  shows "send_clients d s P t p = d"
proof -
  have "foldl (\<lambda>d k. case ss_clients (sess d s) ! k of Some c \<Rightarrow> if P (cli d c) then client_send d c t p else d | None \<Rightarrow> d) d ks = d"
    if "set ks \<subseteq> {..<MAX_CLIENTS_PER_SESSION}" for ks using that
  proof (induction ks)
    case (Cons k ks)
    have "ss_clients (sess d s) ! k \<in> set (ss_clients (sess d s))" using assms(2) Cons.prems by simp
    then have "ss_clients (sess d s) ! k = None" using assms(1) by blast
    then show ?case using Cons by simp
  qed simp
  then show ?thesis unfolding send_clients_def by (simp add: lessThan_atLeast0)
qed

lemma quiet_feed:
  assumes "importing d" "set (ss_clients (sess d s)) \<subseteq> {None}" "length (ss_clients (sess d s)) = MAX_CLIENTS_PER_SESSION"
    and "pn_vt (pane_at d s j) = Some v"
  shows "\<exists>w. pane_feed d s j bs = upd_pane d s j (\<lambda>p. p\<lparr>pn_vt := Some w\<rparr>)"
proof -
  define w where "w = vt_feed (v\<lparr>scr := (scr v)\<lparr>out := []\<rparr>\<rparr>) bs"
  define e where "e = upd_pane d s j (\<lambda>p. p\<lparr>pn_vt := Some w\<rparr>)"
  have c: "importing e" "ss_clients (sess e s) = ss_clients (sess d s)"
    using assms by (simp_all add: e_def upd_pane_def upd_sess_table) (simp add: upd_sess_def)
  have "vt_callback s j e x = e" for x
    using c assms by (cases x) (simp_all add: vt_cb_response_def vt_cb_scrollback_def vt_cb_bell_def quiet_clients)
  then have "foldl (vt_callback s j) e xs = e" for xs by (induction xs) simp_all
  then have "pane_feed d s j bs = e" using assms(4) by (simp add: pane_feed_def Let_def w_def [symmetric] e_def [symmetric])
  then show ?thesis unfolding e_def by blast
qed

lemma loop_add_room:
  assumes "fd \<notin> set (map pfd tb)" "length tb < LOOP_MAX_FDS"
  shows "fst (loop_add_fd tb fd ev ow) = 0" "map pfd (snd (loop_add_fd tb fd ev ow)) = map pfd tb @ [fd]"
  using assms find_idx_None [of tb fd] by (auto simp: loop_add_fd_def)

section \<open>Rebuilding a session\<close>

text \<open>A pane that can be handed over: it has a terminal that is not a standard descriptor, a child,
  and both fit the file's fields.\<close>

definition transferable :: "pane \<Rightarrow> bool" where
  "transferable p \<longleftrightarrow> 2 < pn_fd p \<and> pn_fd p < 2147483648 \<and> 0 < pn_pid p \<and> pn_pid p < 2147483648"

text \<open>A session under reconstruction, and what has been rebuilt of it: the panes \<open>J\<close> of the written
  session \<open>x\<close>, in the slots they had.\<close>

definition ready :: "daemon \<Rightarrow> nat \<Rightarrow> bool" where
  "ready d s \<longleftrightarrow> importing d \<and> allocs d = [] \<and> s < length (sessions d) \<and> length (ss_panes (sess d s)) = MAX_PANES_PER_SESSION \<and>
     set (ss_clients (sess d s)) \<subseteq> {None} \<and> length (ss_clients (sess d s)) = MAX_CLIENTS_PER_SESSION"

definition took :: "session \<Rightarrow> nat \<Rightarrow> pane \<Rightarrow> bool" where
  "took x j q \<longleftrightarrow> pn_vt q \<noteq> None \<and> pane_ident q = Some (pn_id (ss_panes x ! j), pn_fd (ss_panes x ! j), pn_pid (ss_panes x ! j))"

definition rebuilt :: "session \<Rightarrow> nat set \<Rightarrow> nat \<Rightarrow> daemon \<Rightarrow> daemon \<Rightarrow> bool" where
  "rebuilt x J s d d' \<longleftrightarrow> importing d' = importing d \<and> allocs d' = allocs d \<and> clients d' = clients d \<and>
     (\<exists>qs. sessions d' = (sessions d)[s := (sess d s)\<lparr>ss_panes := qs\<rparr>] \<and> length qs = MAX_PANES_PER_SESSION \<and>
       (\<forall>j<MAX_PANES_PER_SESSION. if j \<in> J then took x j (qs ! j)
         else qs ! j = pane_at d s j))"

lemma rebuilt_none: "ready d s \<Longrightarrow> rebuilt x {} s d d"
  unfolding rebuilt_def ready_def by (auto intro!: exI [of _ "ss_panes (sess d s)"])

lemma rebuilt_ready: "ready d s \<Longrightarrow> rebuilt x J s d d' \<Longrightarrow> ready d' s"
  unfolding rebuilt_def ready_def by auto

lemma rebuilt_pane: "ready d s \<Longrightarrow> rebuilt x J s d d' \<Longrightarrow> j < MAX_PANES_PER_SESSION \<Longrightarrow> j \<notin> J \<Longrightarrow> pane_at d' s j = pane_at d s j"
  unfolding rebuilt_def ready_def by auto

lemma rebuilt_more:
  assumes "ready d s" "rebuilt x J s d d'" "rebuilt x K s d' d''"
  shows "rebuilt x (J \<union> K) s d d''"
proof -
  obtain qs where q: "sessions d' = (sessions d)[s := (sess d s)\<lparr>ss_panes := qs\<rparr>]"
     "\<And>j. j < MAX_PANES_PER_SESSION \<Longrightarrow> if j \<in> J then took x j (qs ! j) else qs ! j = pane_at d s j"
    using assms(2) by (auto simp: rebuilt_def)
  obtain rs where r: "sessions d'' = (sessions d')[s := (sess d' s)\<lparr>ss_panes := rs\<rparr>]" "length rs = MAX_PANES_PER_SESSION"
     "\<And>j. j < MAX_PANES_PER_SESSION \<Longrightarrow> if j \<in> K then took x j (rs ! j) else rs ! j = pane_at d' s j"
    using assms(3) by (auto simp: rebuilt_def)
  have s': "sess d' s = (sess d s)\<lparr>ss_panes := qs\<rparr>" using q(1) assms(1) by (simp add: ready_def)
  have "sessions d'' = (sessions d)[s := (sess d s)\<lparr>ss_panes := rs\<rparr>]" using r(1) s' by (simp add: q(1))
  moreover have "if j \<in> J \<union> K then took x j (rs ! j) else rs ! j = pane_at d s j"
    if "j < MAX_PANES_PER_SESSION" for j using q(2) [OF that] r(3) [OF that] s' by (auto split: if_splits)
  ultimately have "\<exists>rs. sessions d'' = (sessions d)[s := (sess d s)\<lparr>ss_panes := rs\<rparr>] \<and> length rs = MAX_PANES_PER_SESSION \<and>
      (\<forall>j<MAX_PANES_PER_SESSION. if j \<in> J \<union> K then took x j (rs ! j) else rs ! j = pane_at d s j)" using r(2) by blast
  then show ?thesis using assms(2,3) unfolding rebuilt_def by metis
qed

text \<open>Importing a pane into a free slot of a session no client is attached to.\<close>

lemma import_pane_ok:
  assumes rdy: "ready d s"
    and j: "j < MAX_PANES_PER_SESSION" "\<not> pn_use (pane_at d s j)"
    and fd: "fd \<notin> set (map pfd (fds d))" "length (fds d) < LOOP_MAX_FDS"
  shows "\<exists>p. let d' = snd (session_import_pane d s j i fd pid cc rr blob) in
     sessions d' = (sessions d)[s := (sess d s)\<lparr>ss_panes := (ss_panes (sess d s))[j := p]\<rparr>] \<and>
     pane_ident p = Some (i, fd, pid) \<and> pn_vt p \<noteq> None \<and> importing d' \<and> allocs d' = [] \<and> clients d' = clients d \<and>
     map pfd (fds d') = map pfd (fds d) @ [fd]"
proof -
  have q: "importing d" "allocs d = []" and s: "s < length (sessions d)" "length (ss_panes (sess d s)) = MAX_PANES_PER_SESSION"
    and c: "set (ss_clients (sess d s)) \<subseteq> {None}" "length (ss_clients (sess d s)) = MAX_CLIENTS_PER_SESSION"
    using rdy by (simp_all add: ready_def)
  define c' r' where "c' = session_clamp_cols cc" and "r' = session_clamp_rows rr"
  obtain v where v: "vt_new True True True r' c' (Some pane_callbacks) = Some v" by (auto simp: vt_new_def Let_def)
  define p0 where "p0 = zero_pane\<lparr>pn_id := i, pn_cols := c', pn_rows := r', pn_fd := - 1, pn_pid := - 1\<rparr>"
  have al: "take_alloc e = (True, e)" if "allocs e = []" for e using that by (simp add: take_alloc_def)
  define p1 where "p1 = p0\<lparr>pn_vt := Some v, pn_sb := sb_open_named (kernel d) (files d) (ss_name (sess d s)) i 0 0\<rparr>"
  define put where "put p = d\<lparr>sessions := (sessions d)[s := (sess d s)\<lparr>ss_panes := (ss_panes (sess d s))[j := p]\<rparr>]\<rparr>" for p
  have upd: "upd_pane (put p) s j f = put (f p)" for p f
    using s j by (simp add: put_def upd_pane_def upd_sess_def)
  have at: "pane_at (put p) s j = p" "ss_name (sess (put p) s) = ss_name (sess d s)" "ss_clients (sess (put p) s) = ss_clients (sess d s)"
    "importing (put p)" "allocs (put p) = []" "fds (put p) = fds d" "kernel (put p) = kernel d" "files (put p) = files d" for p
    using s j q by (simp_all add: put_def)
  have first: "upd_pane d s j (\<lambda>_. p) = put p" for p by (simp add: put_def upd_pane_def upd_sess_def)
  have built: "pane_setup d s j i c' r' = (True, put p1)"
    unfolding pane_setup_def Let_def p0_def [symmetric] first by (simp add: al at v upd p1_def)
  define p2 where "p2 = p1\<lparr>pn_fd := fd, pn_pid := pid, pn_use := True\<rparr>"
  have p2: "pn_vt p2 = Some v" "pane_ident p2 = Some (i, fd, pid)" by (simp_all add: p2_def p1_def p0_def pane_ident_def)
  obtain p3 where p3: "(if blob \<noteq> [] then pane_feed (put p2) s j blob else put p2) = put p3" "pane_ident p3 = Some (i, fd, pid)" "pn_vt p3 \<noteq> None"
  proof (cases "blob = []")
    case False
    obtain w where "pane_feed (put p2) s j blob = upd_pane (put p2) s j (\<lambda>p. p\<lparr>pn_vt := Some w\<rparr>)"
      using quiet_feed [of "put p2" s j v blob] at c p2 by auto
    then show ?thesis using that [of "p2\<lparr>pn_vt := Some w\<rparr>"] False p2 by (simp add: upd pane_ident_def split: if_splits)
  qed (use that [of p2] p2 in simp)
  have run: "session_import_pane d s j i fd pid cc rr blob =
      (case d_add_fd (put p3) fd POLLIN (OwnPane s j) of (False, d) \<Rightarrow> (True, d) | (True, d) \<Rightarrow> (True, pty_resize d fd c' r'))"
    using j unfolding session_import_pane_def Let_def c'_def [symmetric] r'_def [symmetric] built prod.case bool.case upd p2_def [symmetric] p3(1)
    by simp
  have add: "d_add_fd (put p3) fd POLLIN (OwnPane s j) = (True, (put p3)\<lparr>fds := snd (loop_add_fd (fds d) fd POLLIN (OwnPane s j))\<rparr>)"
    using loop_add_room [OF fd] by (simp add: d_add_fd_def Let_def case_prod_unfold at)
  have "session_import_pane d s j i fd pid cc rr blob =
      (True, pty_resize ((put p3)\<lparr>fds := snd (loop_add_fd (fds d) fd POLLIN (OwnPane s j))\<rparr>) fd c' r')"
    unfolding run add by simp
  then show ?thesis using p3 loop_add_room(2) [OF fd] q
    by (intro exI [of _ p3]) (simp add: Let_def pty_resize_def effect_def put_def)
qed


lemma import_pane_rebuilt:
  fixes x :: session and j :: nat
  defines "p \<equiv> ss_panes x ! j"
  assumes rdy: "ready d s" and j: "j < MAX_PANES_PER_SESSION" "\<not> pn_use (pane_at d s j)"
    and fd: "pn_fd p \<notin> set (map pfd (fds d))" "length (fds d) < LOOP_MAX_FDS"
  shows "rebuilt x {j} s d (snd (session_import_pane d s j (pn_id p) (pn_fd p) (pn_pid p) cc rr blob))"
    "map pfd (fds (snd (session_import_pane d s j (pn_id p) (pn_fd p) (pn_pid p) cc rr blob))) = map pfd (fds d) @ [pn_fd p]"
proof -
  define d' where "d' = snd (session_import_pane d s j (pn_id p) (pn_fd p) (pn_pid p) cc rr blob)"
  obtain q where q: "sessions d' = (sessions d)[s := (sess d s)\<lparr>ss_panes := (ss_panes (sess d s))[j := q]\<rparr>]"
      "pane_ident q = Some (pn_id p, pn_fd p, pn_pid p)" "pn_vt q \<noteq> None" "importing d'" "allocs d' = []" "clients d' = clients d"
      "map pfd (fds d') = map pfd (fds d) @ [pn_fd p]"
    using import_pane_ok [OF rdy j fd, of "pn_id p" "pn_pid p" cc rr blob] unfolding d'_def Let_def by blast
  have "rebuilt x {j} s d d'" unfolding rebuilt_def
    by (intro conjI exI [of _ "(ss_panes (sess d s))[j := q]"]) (use q rdy p_def in \<open>auto simp: ready_def took_def nth_list_update\<close>)
  then show "rebuilt x {j} s d (snd (session_import_pane d s j (pn_id p) (pn_fd p) (pn_pid p) cc rr blob))"
    "map pfd (fds (snd (session_import_pane d s j (pn_id p) (pn_fd p) (pn_pid p) cc rr blob))) = map pfd (fds d) @ [pn_fd p]"
    using q(7) by (simp_all add: d'_def)
qed

text \<open>A pane record as \<open>handoff_exec\<close> collects it, for a pane the new image can take over.\<close>

definition handed :: "(int \<Rightarrow> bool) \<Rightarrow> session \<Rightarrow> nat \<times> byte list \<Rightarrow> bool" where
  "handed tty x e \<longleftrightarrow> fst e < MAX_PANES_PER_SESSION \<and> length (snd e) \<le> HANDOFF_BLOB_MAX \<and>
     transferable (ss_panes x ! fst e) \<and> tty (pn_fd (ss_panes x ! fst e))"

lemma read_pane:
  assumes e: "j < MAX_PANES_PER_SESSION" "length blob \<le> HANDOFF_BLOB_MAX" and t: "transferable (ss_panes x ! j)"
  shows "\<exists>prec. rd 22 (put_pane x (j, blob) @ rest) = Some (prec, blob @ rest) \<and> unat (prec ! 0) = j \<and> prec ! 1 = pn_id (ss_panes x ! j) \<and>
     sint (get_u32 (drop 2 prec)) = pn_fd (ss_panes x ! j) \<and> sint (get_u32 (drop 6 prec)) = pn_pid (ss_panes x ! j) \<and>
     unat (get_u32 (drop 18 prec)) = length blob"
proof -
  let ?p = "ss_panes x ! j"
  define prec where "prec = [word_of_nat j, pn_id ?p] @ n32 (pn_fd ?p) @ n32 (pn_pid ?p) @ n16 (pn_cols ?p) @ n16 (pn_rows ?p) @
    n16 (pn_x ?p) @ n16 (pn_y ?p) @ put_u32 (word_of_nat (length blob))"
  have l: "length prec = 22" by (simp add: prec_def)
  have "put_pane x (j, blob) @ rest = prec @ blob @ rest" by (simp add: put_pane_def Let_def prec_def)
  then have r: "rd 22 (put_pane x (j, blob) @ rest) = Some (prec, blob @ rest)" using l by (simp add: rd_def)
  have d: "drop 2 prec = n32 (pn_fd ?p) @ n32 (pn_pid ?p) @ drop 10 prec" "drop 6 prec = n32 (pn_pid ?p) @ drop 10 prec"
    "drop 18 prec = put_u32 (word_of_nat (length blob))" by (simp_all add: prec_def)
  have "unat (word_of_nat (length blob) :: u32) = length blob" using e(2) by (simp add: unat_of_nat HANDOFF_BLOB_MAX_def)
  then show ?thesis using r t e unfolding transferable_def
    by (intro exI [of _ prec]) (simp add: d get_n32 prec_def unat_byte MAX_PANES_PER_SESSION_def)
qed

lemma import_panes_ok:
  assumes "ready (pr_daemon pr) s" "\<And>e. e \<in> set ps \<Longrightarrow> handed tty x e \<and> \<not> pn_use (pane_at (pr_daemon pr) s (fst e))"
    and "distinct (map fst ps)" "distinct (map pfd (fds (pr_daemon pr)) @ map (\<lambda>e. pn_fd (ss_panes x ! fst e)) ps)"
    and "length (fds (pr_daemon pr)) + length ps \<le> LOOP_MAX_FDS"
  shows "\<exists>pr'. import_panes ok tty (Some s) (length ps) (concat (map (put_pane x) ps) @ rest) pr = (True, rest, pr') \<and>
     rebuilt x (fst ` set ps) s (pr_daemon pr) (pr_daemon pr') \<and>
     map pfd (fds (pr_daemon pr')) = map pfd (fds (pr_daemon pr)) @ map (\<lambda>e. pn_fd (ss_panes x ! fst e)) ps"
  using assms
proof (induction ps arbitrary: pr)
  case Nil
  then show ?case by (auto intro: rebuilt_none)
next
  case (Cons e ps)
  obtain j blob where e: "e = (j, blob)" by (cases e)
  let ?d = "pr_daemon pr" and ?p = "ss_panes x ! j"
  have j: "j < MAX_PANES_PER_SESSION" "length blob \<le> HANDOFF_BLOB_MAX" "transferable ?p" "tty (pn_fd ?p)" "\<not> pn_use (pane_at ?d s j)"
    using Cons.prems(2) [of e] e by (auto simp: handed_def)
  obtain prec where prec: "rd 22 (put_pane x e @ concat (map (put_pane x) ps) @ rest) = Some (prec, blob @ concat (map (put_pane x) ps) @ rest)"
     "unat (prec ! 0) = j" "prec ! 1 = pn_id ?p" "sint (get_u32 (drop 2 prec)) = pn_fd ?p" "sint (get_u32 (drop 6 prec)) = pn_pid ?p"
     "unat (get_u32 (drop 18 prec)) = length blob"
    using read_pane [OF j(1-3), where rest = "concat (map (put_pane x) ps) @ rest"] e by auto
  have fd: "pn_fd ?p \<notin> set (map pfd (fds ?d))" "length (fds ?d) < LOOP_MAX_FDS" using Cons.prems(4,5) e by auto
  define d' where "d' = snd (session_import_pane ?d s j (pn_id ?p) (pn_fd ?p) (pn_pid ?p) (unat (get_u16 (drop 10 prec))) (unat (get_u16 (drop 12 prec))) blob)"
  have rb: "rebuilt x {j} s ?d d'" and fds': "map pfd (fds d') = map pfd (fds ?d) @ [pn_fd ?p]"
    unfolding d'_def by (rule import_pane_rebuilt [OF Cons.prems(1) j(1,5) fd])+
  define q where "q = (snd (adopt_master ok tty pr (pn_fd ?p)))\<lparr>pr_daemon := d'\<rparr>"
  have ad: "fst (adopt_master ok tty pr (pn_fd ?p))" "pr_daemon (snd (adopt_master ok tty pr (pn_fd ?p))) = ?d"
    using j(3,4) by (simp_all add: adopt_master_def transferable_def set_cloexec_simps)
  have step: "import_panes ok tty (Some s) (length (e # ps)) (concat (map (put_pane x) (e # ps)) @ rest) pr =
      import_panes ok tty (Some s) (length ps) (concat (map (put_pane x) ps) @ rest) q"
    using prec j(2,3) ad by (simp add: rd_def Let_def case_prod_unfold transferable_def q_def d'_def)
  have q: "pr_daemon q = d'" by (simp add: q_def)
  have free: "handed tty x e' \<and> \<not> pn_use (pane_at d' s (fst e'))" if "e' \<in> set ps" for e'
  proof -
    have "fst e' \<noteq> j" using Cons.prems(3) that e by (auto simp: rev_image_eqI)
    then show ?thesis using Cons.prems(2) [of e'] that rebuilt_pane [OF Cons.prems(1) rb] by (simp add: handed_def)
  qed
  have dis: "distinct (map pfd (fds d') @ map (\<lambda>e. pn_fd (ss_panes x ! fst e)) ps)" using Cons.prems(4) e by (auto simp: fds')
  have len: "length (fds d') + length ps \<le> LOOP_MAX_FDS" using Cons.prems(5) arg_cong [OF fds', of length] by simp
  obtain pr' where r: "import_panes ok tty (Some s) (length ps) (concat (map (put_pane x) ps) @ rest) q = (True, rest, pr')"
     "rebuilt x (fst ` set ps) s d' (pr_daemon pr')" "map pfd (fds (pr_daemon pr')) = map pfd (fds d') @ map (\<lambda>e. pn_fd (ss_panes x ! fst e)) ps"
    using Cons.IH [of q, unfolded q, OF rebuilt_ready [OF Cons.prems(1) rb] free _ dis len] Cons.prems(3) by auto
  then show ?case using step rebuilt_more [OF Cons.prems(1) rb r(2)] fds' e by (intro exI [of _ pr']) simp
qed

text \<open>Pushing the geometry out keeps everything a restart carries over.\<close>

definition sys :: "daemon \<Rightarrow> bool \<times> bool list \<times> owner pollfd list \<times> client list" where
  "sys d = (importing d, allocs d, fds d, clients d)"

lemma apply_layout_keeps:
  assumes "allocs d = []"
  shows "children (session_apply_layout d s) = children d" "sys (session_apply_layout d s) = sys d"
proof -
  have xy: "children (upd_pane d s j (\<lambda>p. p\<lparr>pn_x := a, pn_y := b\<rparr>)) = children d" "children (upd_pane d s j (\<lambda>p. p\<lparr>pn_cols := a, pn_rows := b\<rparr>)) = children d"
    "children (upd_pane d s j (\<lambda>p. p\<lparr>pn_vt := v\<rparr>)) = children d" for d j a b v by (rule children_upd_pane, simp)+
  have su: "sys (upd_pane d s j f) = sys d" "sys (upd_sess d s g) = sys d" "sys (pty_resize d fd c r) = sys d" "children (pty_resize d fd c r) = children d" for d j f g fd c r
    by (simp_all add: sys_def upd_pane_def upd_sess_def pty_resize_def effect_def children_def)
  have rs: "children (pane_vt_resize d s j r c) = children d \<and> sys (pane_vt_resize d s j r c) = sys d" if "allocs d = []" for d j r c
    using that by (simp add: pane_vt_resize_def take_alloc_def xy su split: option.split)
  have al: "allocs d' = []" if "sys d' = sys d" "allocs d = []" for d d' using that by (simp add: sys_def)
  have one: "children (apply_pane d s i) = children d \<and> sys (apply_pane d s i) = sys d" if "allocs d = []" for d i
  proof -
    have "allocs (upd_pane (upd_pane d s i f) s i g) = []" for f g using that al su(1) by metis
    note r = rs [OF this]
    show ?thesis using r by (auto simp: apply_pane_def Let_def xy su split: option.split)
  qed
  have run: "children (foldl (\<lambda>d i. apply_pane d s i) d is) = children d \<and> sys (foldl (\<lambda>d i. apply_pane d s i) d is) = sys d" if "allocs d = []" for d "is"
    using that
  proof (induction "is" arbitrary: d)
    case (Cons i "is")
    have a: "allocs (apply_pane d s i) = []" using al one [OF Cons.prems] Cons.prems by blast
    show ?case using Cons.IH [OF a] one [OF Cons.prems] by simp
  qed simp
  show "children (session_apply_layout d s) = children d" "sys (session_apply_layout d s) = sys d"
    unfolding session_apply_layout_def using run [OF assms] by (simp_all add: children_upd_sess su)
qed

lemma import_finish_ok:
  assumes s: "s < length (sessions d)" and ok: "sess_ok (sess d s)" and al: "allocs d = []"
  shows "\<exists>d'. session_import_finish d s = (True, d') \<and> children d' = children d \<and> sys d' = sys d \<and> att_view d' = att_view d \<and>
     core d' = core (upd_sess d s (\<lambda>x. x\<lparr>ss_lt := layout_reflow (ss_lt x) (view_cols x) (view_rows x)\<rparr>))"
proof -
  let ?x = "sess d s"
  obtain t where t: "layout_ok (ss_lt ?x) t" "set (panes (shape t)) = int ` set (live_panes ?x)" and act: "active_id ?x \<in> live_ids ?x" "active_id ?x \<noteq> 255"
    using ok by (auto simp: sess_ok_def sess_but_def live_ids_def)
  have ne: "live_panes ?x \<noteq> []" using act(1) by (auto simp: live_ids_def)
  have close: "layout_close (ss_lt ?x) vc vr (int i) = (False, ss_lt ?x)" if "i \<notin> set (live_panes ?x)" for i vc vr
    using layout_close_refines [OF t(1), where vc = vc and vr = vr and p = "int i"] that t(2) by (auto split: prod.splits bool.splits)
  have leaf: "drop_leaf d s i = d" if "i < MAX_PANES_PER_SESSION" "\<not> pn_use (pane_at d s i)" for i
    using close [of i] that s by (simp add: drop_leaf_def upd_sess_def in_live)
  have fold: "foldl (\<lambda>d i. if \<not> pn_use (pane_at d s i) then drop_leaf d s i else d) d is = d" if "set is \<subseteq> {..<MAX_PANES_PER_SESSION}" for "is"
    using that by (induction "is") (simp_all add: leaf)
  have "refocus ?x = ?x" using act pane_by_id(1) [of "active_id ?x" ?x] by (auto simp: refocus_def)
  then have rf: "upd_sess d s refocus = d" using s by (simp add: upd_sess_def)
  define e where "e = upd_sess d s (\<lambda>x. x\<lparr>ss_lt := layout_reflow (ss_lt x) (view_cols x) (view_rows x)\<rparr>)"
  have run: "session_import_finish d s = (True, session_apply_layout e s)"
    using ne fold [of "[0..<MAX_PANES_PER_SESSION]"] unfolding session_import_finish_def Let_def by (simp add: rf e_def lessThan_atLeast0)
  have ale: "allocs e = []" using al by (simp add: e_def upd_sess_def)
  have "children e = children d" unfolding e_def by (rule children_upd_sess) simp
  moreover have "sys e = sys d" by (simp add: e_def sys_def upd_sess_def)
  moreover have "att_view e = att_view d" unfolding e_def by (rule view_upd_sess) simp
  ultimately show ?thesis using run apply_layout_keeps [OF ale, of s] by (auto simp: e_def [symmetric])
qed


section \<open>Sessions carried over\<close>

definition name_portable :: "byte list \<Rightarrow> bool" where
  "name_portable nm \<longleftrightarrow> 0 \<notin> set nm \<and> nm \<noteq> [] \<and> length nm \<le> SESSION_NAME_MAX \<and> at_valid_session_name (Some (nm @ [0])) = Some True"

definition carried :: "session \<Rightarrow> session \<Rightarrow> bool" where
  "carried x y \<longleftrightarrow> ss_use y \<and> ss_name y = ss_name x \<and> view_cols y = view_cols x \<and> view_rows y = view_rows x \<and>
     active_id y = active_id x \<and> last_id y = last_id x \<and> next_id y = next_id x \<and>
     map pane_ident (ss_panes y) = map pane_ident (ss_panes x) \<and> (\<exists>t. layout_ok (ss_lt x) t \<and> layout_ok (ss_lt y) t)"

definition pane_fds :: "session \<Rightarrow> int list" where
  "pane_fds x = map (\<lambda>j. pn_fd (ss_panes x ! j)) (live_panes x)"

definition arriving :: "int list \<Rightarrow> session list \<Rightarrow> daemon \<Rightarrow> bool" where
  "arriving base xs d \<longleftrightarrow> importing d \<and> allocs d = [] \<and> length (sessions d) = MAX_SESSIONS \<and>
     (\<forall>s<MAX_SESSIONS. length (ss_panes (sess d s)) = MAX_PANES_PER_SESSION \<and> set (ss_clients (sess d s)) \<subseteq> {None} \<and>
        length (ss_clients (sess d s)) = MAX_CLIENTS_PER_SESSION) \<and> length xs \<le> MAX_SESSIONS \<and>
     (\<forall>i<length xs. carried (xs ! i) (sess d i) \<and> sess_ok (sess d i)) \<and> (\<forall>i<MAX_SESSIONS. length xs \<le> i \<longrightarrow> \<not> ss_use (sess d i)) \<and>
     clients d = replicate MAX_CLIENTS zero_client \<and>
     map pfd (fds d) = base @ concat (map pane_fds xs)"

lemma live_ident: "map pane_ident (ss_panes y) = map pane_ident (ss_panes x) \<Longrightarrow> length (ss_panes x) = MAX_PANES_PER_SESSION \<Longrightarrow>
    live_panes y = live_panes x \<and> (\<forall>j\<in>set (live_panes x). pn_id (ss_panes y ! j) = pn_id (ss_panes x ! j))"
proof -
  assume m: "map pane_ident (ss_panes y) = map pane_ident (ss_panes x)" and l: "length (ss_panes x) = MAX_PANES_PER_SESSION"
  have ly: "length (ss_panes y) = MAX_PANES_PER_SESSION" using arg_cong [OF m, of length] l by simp
  have at: "pane_ident (ss_panes y ! j) = pane_ident (ss_panes x ! j)" if "j < MAX_PANES_PER_SESSION" for j
    using arg_cong [OF m, of "\<lambda>l. l ! j"] that l ly by simp
  have u: "pn_use (ss_panes y ! j) = pn_use (ss_panes x ! j)" if "j < MAX_PANES_PER_SESSION" for j
    using at [OF that] by (auto simp: pane_ident_def split: if_splits)
  have "live_panes y = live_panes x" unfolding live_panes_def by (rule filter_cong) (simp_all add: u)
  moreover have "pn_id (ss_panes y ! j) = pn_id (ss_panes x ! j)" if "j \<in> set (live_panes x)" for j
    using at [of j] that u [of j] by (auto simp: in_live pane_ident_def)
  ultimately show ?thesis by blast
qed

lemma sess_ok_ident:
  assumes ok: "sess_ok x" and m: "map pane_ident (ss_panes y) = map pane_ident (ss_panes x)"
    and vt: "\<And>j. j \<in> set (live_panes x) \<Longrightarrow> pn_vt (ss_panes y ! j) \<noteq> None"
    and same: "view_cols y = view_cols x" "view_rows y = view_rows x" "active_id y = active_id x" "last_id y = last_id x" "next_id y = next_id x"
    and lt: "\<And>t. layout_ok (ss_lt x) t \<Longrightarrow> set (panes (shape t)) = int ` set (live_panes x) \<Longrightarrow> layout_ok (ss_lt y) t"
  shows "sess_ok y"
proof -
  have l: "length (ss_panes x) = MAX_PANES_PER_SESSION" using ok by (simp add: sess_ok_def sess_but_def)
  have ly: "length (ss_panes y) = MAX_PANES_PER_SESSION" using arg_cong [OF m, of length] l by simp
  note i = live_ident [OF m l]
  have ids: "live_ids y = live_ids x" using i by (auto simp: live_ids_def)
  have "inj_on (\<lambda>j. pn_id (ss_panes y ! j)) (set (live_panes x)) = inj_on (\<lambda>j. pn_id (ss_panes x ! j)) (set (live_panes x))"
    by (rule inj_on_cong) (use i in auto)
  moreover have "\<exists>t. layout_ok (ss_lt y) t \<and> set (panes (shape t)) = int ` (set (live_panes x) \<union> {})"
    using ok lt by (auto simp: sess_ok_def sess_but_def)
  ultimately show ?thesis using ok i ids ly same vt unfolding sess_ok_def sess_but_def by simp
qed

text \<open>What \<open>carried\<close> reads of the new session.\<close>

definition sess_children :: "session \<Rightarrow> bool \<times> byte list \<times> (bool \<times> byte \<times> int \<times> int) list" where
  "sess_children x = (ss_use x, ss_name x, map (\<lambda>p. (pn_use p, pn_id p, pn_fd p, pn_pid p)) (ss_panes x))"

lemma idents_alike: "sess_children y' = sess_children y \<Longrightarrow> map pane_ident (ss_panes y') = map pane_ident (ss_panes y)"
proof -
  let ?g = "\<lambda>(u, e). if u then Some e else None" and ?v = "\<lambda>p. (pn_use p, pn_id p, pn_fd p, pn_pid p)"
  assume "sess_children y' = sess_children y"
  then have m: "map ?v (ss_panes y') = map ?v (ss_panes y)" by (simp add: sess_children_def)
  have p: "pane_ident = ?g \<circ> ?v" by (simp add: fun_eq_iff pane_ident_def)
  show ?thesis unfolding p map_map [symmetric] m ..
qed

lemma carried_cong:
  "sess_children y' = sess_children y \<Longrightarrow> sess_core y' = sess_core y \<Longrightarrow> carried x y' = carried x y"
  "sess_children y' = sess_children y \<Longrightarrow> sess_core y' = sess_core y \<Longrightarrow> carried y' x = carried y x"
  using idents_alike [of y' y] by (simp_all add: carried_def sess_children_def sess_core_def)

lemma children_nth: "children d' = children d \<Longrightarrow> s < length (sessions d) \<Longrightarrow> sess_children (sess d' s) = sess_children (sess d s)"
proof -
  assume c: "children d' = children d" and s: "s < length (sessions d)"
  have m: "map sess_children (sessions d') = map sess_children (sessions d)" using c by (simp add: children_def sess_children_def [abs_def])
  have "length (sessions d') = length (sessions d)" using arg_cong [OF m, of length] by simp
  then show ?thesis using arg_cong [OF m, of "\<lambda>l. l ! s"] s by simp
qed

lemma read_session:
  assumes "length (ss_name x) \<le> 63" "length ps \<le> 6" "view_cols x \<le> 1000" "view_rows x \<le> 1000"
  shows "\<exists>b shdr f1 f2 f3. rd 1 (put_session x ps @ rest) = Some (b, f1) \<and> b ! 0 = word_of_nat (length (ss_name x)) \<and>
     rd (length (ss_name x)) f1 = Some (ss_name x, f2) \<and> rd 8 f2 = Some (shdr, f3) \<and>
     rd (1 + LAYOUT_NODES * 12) f3 = Some (put_layout (ss_lt x), concat (map (put_pane x) ps) @ rest) \<and>
     unat (get_u16 shdr) = view_cols x \<and> unat (get_u16 (drop 2 shdr)) = view_rows x \<and> shdr ! 4 = active_id x \<and> shdr ! 5 = last_id x \<and>
     shdr ! 6 = next_id x \<and> unat (shdr ! 7) = length ps"
proof -
  define shdr where "shdr = n16 (view_cols x) @ n16 (view_rows x) @ [active_id x, last_id x, next_id x, word_of_nat (length ps)]"
  define f3 where "f3 = put_layout (ss_lt x) @ concat (map (put_pane x) ps) @ rest"
  have l: "length shdr = 8" by (simp add: shdr_def)
  have e: "put_session x ps @ rest = word_of_nat (length (ss_name x)) # ss_name x @ shdr @ f3" by (simp add: put_session_def shdr_def f3_def)
  have g: "unat (get_u16 shdr) = view_cols x" "unat (get_u16 (drop 2 shdr)) = view_rows x" "shdr ! 4 = active_id x" "shdr ! 5 = last_id x"
      "shdr ! 6 = next_id x" "unat (shdr ! 7) = length ps"
    using assms(2-4) by (simp_all add: shdr_def get_n16 nth_append unat_byte)
  have "rd (1 + LAYOUT_NODES * 12) f3 = Some (put_layout (ss_lt x), concat (map (put_pane x) ps) @ rest)" by (simp add: rd_def f3_def)
  then show ?thesis using g l unfolding e
    by (intro exI [of _ "[word_of_nat (length (ss_name x))]"] exI [of _ shdr] exI [of _ "ss_name x @ shdr @ f3"] exI [of _ "shdr @ f3"] exI [of _ f3])
      (simp add: rd_def)
qed

text \<open>The record of a session before its panes arrive.\<close>

definition imported :: "session \<Rightarrow> session" where
  "imported x = zero_session\<lparr>ss_name := ss_name x, view_cols := view_cols x, view_rows := view_rows x, ss_lt := get_layout (put_layout (ss_lt x)),
     active_id := active_id x, last_id := last_id x, next_id := next_id x, zoomed_id := 255, ss_use := True\<rparr>"

definition with_record :: "daemon \<Rightarrow> nat \<Rightarrow> session \<Rightarrow> daemon" where
  "with_record d k x = d\<lparr>sessions := (sessions d)[k := imported x]\<rparr>"

lemma sess_okD:
  assumes "sess_ok x"
  shows "length (ss_panes x) = MAX_PANES_PER_SESSION" "1 \<le> view_cols x" "view_cols x \<le> 1000" "1 \<le> view_rows x" "view_rows x \<le> 1000"
    "next_id x \<noteq> 0" "live_panes x \<noteq> []"
    "\<exists>t. layout_ok (ss_lt x) t \<and> set (panes (shape t)) = int ` set (live_panes x)"
  using assms by (auto simp: sess_ok_def sess_but_def live_ids_def)

lemma session_begins:
  assumes a: "arriving base xs d" and x: "sess_ok x" "name_portable (ss_name x)" "ss_name x \<notin> ss_name ` set xs" and k: "length xs < MAX_SESSIONS"
  shows "session_import_begin d (ss_name x) (view_cols x) (view_rows x) (active_id x) (last_id x) (next_id x) (get_layout (put_layout (ss_lt x))) =
    (Inr (length xs), with_record d (length xs) x)"
proof -
  have free: "\<not> (ss_use (sess d i) \<and> ss_name (sess d i) = ss_name x)" if "i < MAX_SESSIONS" for i
  proof (cases "i < length xs")
    case True
    then have "ss_name (sess d i) = ss_name (xs ! i)" "ss_name (xs ! i) \<in> ss_name ` set xs" using a by (simp_all add: arriving_def carried_def)
    then show ?thesis using x(3) by metis
  qed (use a that in \<open>simp add: arriving_def\<close>)
  then have find: "session_find d (ss_name x) = None" by (auto simp: session_find_def find_None_iff)
  have slot: "find (\<lambda>i. \<not> ss_use (sess d i)) [0..<MAX_SESSIONS] = Some (length xs)"
    using a k by (auto simp: find_Some_iff arriving_def carried_def intro!: exI [of _ "length xs"])
  show ?thesis
    using find slot sess_okD [OF x(1)] x(2) k a
    by (simp add: session_import_begin_def session_alloc_def Let_def with_record_def imported_def upd_sess_def session_clamp_cols_def
        session_clamp_rows_def name_portable_def arriving_def)
qed

lemma record_ready:
  assumes "arriving base xs d" "length xs < MAX_SESSIONS"
  shows "ready (with_record d (length xs) x) (length xs)" "sess (with_record d (length xs) x) (length xs) = imported x"
    "map pfd (fds (with_record d (length xs) x)) = base @ concat (map pane_fds xs)"
  using assms by (simp_all add: arriving_def ready_def with_record_def imported_def zero_session_def set_replicate_conv_if)

lemma record_panes:
  assumes a: "arriving base xs d" "length xs < MAX_SESSIONS" and x: "sess_ok x" and d: "pr_daemon pr = with_record d (length xs) x"
    and ps: "map fst ps = live_panes x" "\<And>e. e \<in> set ps \<Longrightarrow> handed tty x e"
    and fd: "distinct (base @ concat (map pane_fds (xs @ [x])))" "length (base @ concat (map pane_fds (xs @ [x]))) \<le> LOOP_MAX_FDS"
  shows "\<exists>pr'. import_panes ok tty (Some (length xs)) (length ps) (concat (map (put_pane x) ps) @ rest) pr = (True, rest, pr') \<and>
     rebuilt x (set (live_panes x)) (length xs) (pr_daemon pr) (pr_daemon pr') \<and>
     map pfd (fds (pr_daemon pr')) = base @ concat (map pane_fds (xs @ [x]))"
proof -
  note r = record_ready [OF a, of x, folded d]
  have pf: "map (\<lambda>e. pn_fd (ss_panes x ! fst e)) ps = pane_fds x" unfolding pane_fds_def ps(1) [symmetric] by simp
  have fs: "fst ` set ps = set (live_panes x)" using arg_cong [OF ps(1), of set] by simp
  have free: "handed tty x e \<and> \<not> pn_use (pane_at (pr_daemon pr) (length xs) (fst e))" if "e \<in> set ps" for e
    using ps(2) [OF that] by (simp add: r(2) handed_def imported_def zero_session_def zero_pane_def)
  have "distinct (live_panes x)" by (simp add: live_panes_def)
  then have d1: "distinct (map fst ps)" by (simp only: ps(1))
  have d2: "distinct (map pfd (fds (pr_daemon pr)) @ map (\<lambda>e. pn_fd (ss_panes x ! fst e)) ps)" unfolding pf r(3) using fd(1) by simp
  have len: "length (fds (pr_daemon pr)) + length ps \<le> LOOP_MAX_FDS"
    using fd(2) arg_cong [OF r(3), of length] arg_cong [OF pf, of length] by simp
  show ?thesis using import_panes_ok [OF r(1) free d1 d2 len, where ok = ok and rest = rest] unfolding pf fs r(3) by simp
qed

text \<open>Once its panes are in, the session satisfies the session invariant again and is the one written.\<close>

lemma rebuilt_session:
  assumes x: "sess_ok x" and d: "ready d k" "sess d k = imported x" and r: "rebuilt x (set (live_panes x)) k d d'"
  shows "sess d' k = (imported x)\<lparr>ss_panes := ss_panes (sess d' k)\<rparr>" "map pane_ident (ss_panes (sess d' k)) = map pane_ident (ss_panes x)" "sess_ok (sess d' k)"
    "layout_ok (ss_lt x) t \<Longrightarrow> set (panes (shape t)) = int ` set (live_panes x) \<Longrightarrow> layout_ok (get_layout (put_layout (ss_lt x))) t"
proof -
  obtain qs where q: "sess d' k = (imported x)\<lparr>ss_panes := qs\<rparr>" "length qs = MAX_PANES_PER_SESSION"
     "\<And>j. j < MAX_PANES_PER_SESSION \<Longrightarrow> if j \<in> set (live_panes x) then took x j (qs ! j) else qs ! j = pane_at d k j"
    using r d by (auto simp: rebuilt_def ready_def)
  have zero: "\<not> pn_use (pane_at d k j)" if "j < MAX_PANES_PER_SESSION" for j using d(2) that by (simp add: imported_def zero_session_def zero_pane_def)
  have at: "pane_ident (qs ! j) = pane_ident (ss_panes x ! j)" if "j < MAX_PANES_PER_SESSION" for j
    using q(3) [OF that] zero [OF that] that by (auto simp: in_live took_def pane_ident_def split: if_splits)
  show s: "sess d' k = (imported x)\<lparr>ss_panes := ss_panes (sess d' k)\<rparr>" using q(1) by simp
  show id: "map pane_ident (ss_panes (sess d' k)) = map pane_ident (ss_panes x)"
    using q(1,2) sess_okD(1) [OF x] by (intro nth_equalityI) (simp_all add: at)
  show lt: "layout_ok (ss_lt x) t \<Longrightarrow> set (panes (shape t)) = int ` set (live_panes x) \<Longrightarrow> layout_ok (get_layout (put_layout (ss_lt x))) t" for t
    using layout_survives [of "ss_lt x" t "[]"] by (force simp: in_live MAX_PANES_PER_SESSION_def)
  have vt: "pn_vt (pane_at d' k j) \<noteq> None" if "j \<in> set (live_panes x)" for j
    using q(3) [of j] that by (auto simp: q(1) in_live took_def)
  show "sess_ok (sess d' k)"
    by (rule sess_ok_ident [OF x id vt]) (use q(1) lt in \<open>auto simp: imported_def\<close>)
qed

lemma arriving_next:
  assumes a: "arriving base xs d" "length xs < MAX_SESSIONS" and x: "sess_ok x"
    and r: "rebuilt x (set (live_panes x)) (length xs) (with_record d (length xs) x) d2" and fd: "map pfd (fds d2) = base @ concat (map pane_fds (xs @ [x]))"
    and fin: "children d3 = children d2" "sys d3 = sys d2" "att_view d3 = att_view d2"
      "core d3 = core (upd_sess d2 (length xs) (\<lambda>x. x\<lparr>ss_lt := layout_reflow (ss_lt x) (view_cols x) (view_rows x)\<rparr>))"
  shows "arriving base (xs @ [x]) d3"
proof -
  let ?k = "length xs" and ?y = "sess d2 (length xs)"
  note rdy = record_ready [OF a, of x]
  note y = rebuilt_session [OF x rdy(1,2) r] and r2 = rebuilt_ready [OF rdy(1) r]
  have l2: "length (sessions d2) = MAX_SESSIONS" "importing d2" "allocs d2 = []" "clients d2 = replicate MAX_CLIENTS zero_client" using r a by (auto simp: rebuilt_def arriving_def with_record_def)
  have at: "sess d2 s = sess d s" if "s < MAX_SESSIONS" "s \<noteq> ?k" for s using r that by (auto simp: rebuilt_def with_record_def)
  have v: "ss_use (sess d3 s) = ss_use (sess d2 s)" "ss_clients (sess d3 s) = ss_clients (sess d2 s)"
      "length (ss_panes (sess d3 s)) = length (ss_panes (sess d2 s))" if "s < MAX_SESSIONS" for s
    using att_view_eqD(3-5) [OF fin(3), of s] l2 that by simp_all
  have shape: "length (ss_panes (sess d3 s)) = MAX_PANES_PER_SESSION \<and> set (ss_clients (sess d3 s)) \<subseteq> {None} \<and>
      length (ss_clients (sess d3 s)) = MAX_CLIENTS_PER_SESSION" if s: "s < MAX_SESSIONS" for s
    using v [OF s] at [OF s] a(1) s r2 by (cases "s = ?k") (simp_all add: arriving_def ready_def)
  obtain t where t: "layout_ok (ss_lt x) t" "set (panes (shape t)) = int ` set (live_panes x)" using sess_okD(8) [OF x] by blast
  have fit: "sess_ok (?y\<lparr>ss_lt := layout_reflow (ss_lt ?y) (view_cols ?y) (view_rows ?y)\<rparr>)"
    by (rule sess_ok_ident [OF y(3)]) (use y(3) layout_reflow_tree(1) in \<open>auto simp: sess_ok_def sess_but_def\<close>)
  have mine: "carried x (?y\<lparr>ss_lt := layout_reflow (ss_lt ?y) (view_cols ?y) (view_rows ?y)\<rparr>)"
    using t y(2) layout_reflow_tree(1) [OF y(4) [OF t]] by (subst (1 2 3 4) y(1)) (auto simp: carried_def imported_def)
  have "carried ((xs @ [x]) ! i) (sess d3 i) \<and> sess_ok (sess d3 i)" if i: "i < length (xs @ [x])" for i
  proof -
    have im: "i < MAX_SESSIONS" using i a(2) by simp
    let ?z = "if i = ?k then ?y\<lparr>ss_lt := layout_reflow (ss_lt ?y) (view_cols ?y) (view_rows ?y)\<rparr> else sess d2 i"
    have "sess_children (sess d3 i) = sess_children ?z" using children_nth [OF fin(1), of i] l2 im by (simp add: sess_children_def)
    moreover have co: "sess_core (sess d3 i) = sess_core ?z" using core_nth [OF fin(4), of i] l2 im by (simp add: upd_sess_def nth_list_update)
    ultimately have c: "carried u (sess d3 i) = carried u ?z" for u by (rule carried_cong(1))
    have k: "sess_ok (sess d3 i) = sess_ok ?z" using co by (rule sess_ok_cong)
    show ?thesis
    proof (cases "i = ?k")
      case False
      then show ?thesis using c k i a(1) at [OF im] by (simp add: nth_append arriving_def)
    qed (use c k mine fit in simp)
  qed
  moreover have "\<not> ss_use (sess d3 i)" if "i < MAX_SESSIONS" "length (xs @ [x]) \<le> i" for i
    using v(1) [of i] at [of i] a that by (simp add: arriving_def)
  moreover have "importing d3" "allocs d3 = []" "clients d3 = replicate MAX_CLIENTS zero_client" "map pfd (fds d3) = base @ concat (map pane_fds (xs @ [x]))" "length (sessions d3) = MAX_SESSIONS"
    using fin(2) l2 fd att_view_eqD(1) [OF fin(3)] by (simp_all add: sys_def)
  ultimately show ?thesis unfolding arriving_def using shape a(2) by simp
qed

lemma import_session_step:
  assumes a: "arriving base xs (pr_daemon pr)" and x: "sess_ok x" "name_portable (ss_name x)" "ss_name x \<notin> ss_name ` set xs" "length xs < MAX_SESSIONS"
    and ps: "map fst ps = live_panes x" "\<And>e. e \<in> set ps \<Longrightarrow> handed tty x e"
    and fd: "distinct (base @ concat (map pane_fds (xs @ [x])))" "length (base @ concat (map pane_fds (xs @ [x]))) \<le> LOOP_MAX_FDS"
  shows "\<exists>pr'. import_sessions ok tty (Suc n) (put_session x ps @ rest) r pr = import_sessions ok tty n rest (Suc r) pr' \<and> arriving base (xs @ [x]) (pr_daemon pr')"
proof -
  let ?k = "length xs" and ?d = "pr_daemon pr"
  note so = sess_okD [OF x(1)]
  have nm: "0 \<notin> set (ss_name x)" "ss_name x \<noteq> []" "length (ss_name x) \<le> 63" "at_valid_session_name (Some (ss_name x @ [0])) = Some True"
    using x(2) by (auto simp: name_portable_def SESSION_NAME_MAX_def)
  have cs: "cstr (ss_name x) = ss_name x" using nm(1) by (auto simp: cstr_def takeWhile_eq_all_conv)
  have "length (live_panes x) \<le> length [0..<MAX_PANES_PER_SESSION]" unfolding live_panes_def by (rule length_filter_le)
  then have np: "length ps \<noteq> 0" "length ps \<le> 6" using arg_cong [OF ps(1), of length] so(7) by (auto simp: MAX_PANES_PER_SESSION_def)
  obtain b shdr f1 f2 f3 where rd: "rd 1 (put_session x ps @ rest) = Some (b, f1)" "b ! 0 = word_of_nat (length (ss_name x))"
     "rd (length (ss_name x)) f1 = Some (ss_name x, f2)" "rd 8 f2 = Some (shdr, f3)"
     "rd (1 + LAYOUT_NODES * 12) f3 = Some (put_layout (ss_lt x), concat (map (put_pane x) ps) @ rest)"
     "unat (get_u16 shdr) = view_cols x" "unat (get_u16 (drop 2 shdr)) = view_rows x" "shdr ! 4 = active_id x" "shdr ! 5 = last_id x"
     "shdr ! 6 = next_id x" "unat (shdr ! 7) = length ps"
    using read_session [OF nm(3) np(2) so(3,5), where rest = rest] by (elim exE conjE) (rule that; assumption)
  have u: "unat (b ! 0) = length (ss_name x)" using rd(2) nm(3) by (simp add: unat_byte)
  have b0: "b ! 0 \<noteq> 0" using u nm(2) by (metis length_0_conv unat_0)
  define pr1 where "pr1 = pr\<lparr>pr_daemon := with_record ?d ?k x\<rparr>"
  have p1: "pr_daemon pr1 = with_record ?d ?k x" by (simp add: pr1_def)
  obtain pr2 where im: "import_panes ok tty (Some ?k) (length ps) (concat (map (put_pane x) ps) @ rest) pr1 = (True, rest, pr2)"
     "rebuilt x (set (live_panes x)) ?k (with_record ?d ?k x) (pr_daemon pr2)" "map pfd (fds (pr_daemon pr2)) = base @ concat (map pane_fds (xs @ [x]))"
    using record_panes [OF a x(4,1) p1 ps fd, where ok = ok and rest = rest] unfolding p1 by blast
  note rdy = record_ready [OF a x(4), of x]
  have r2: "ready (pr_daemon pr2) ?k" by (rule rebuilt_ready [OF rdy(1) im(2)])
  obtain d3 where fin: "session_import_finish (pr_daemon pr2) ?k = (True, d3)" "children d3 = children (pr_daemon pr2)" "sys d3 = sys (pr_daemon pr2)"
     "att_view d3 = att_view (pr_daemon pr2)"
     "core d3 = core (upd_sess (pr_daemon pr2) ?k (\<lambda>x. x\<lparr>ss_lt := layout_reflow (ss_lt x) (view_cols x) (view_rows x)\<rparr>))"
    using import_finish_ok [of ?k "pr_daemon pr2"] r2 rebuilt_session(3) [OF x(1) rdy(1,2) im(2)] unfolding ready_def by (elim impE exE conjE) auto
  have "import_sessions ok tty (Suc n) (put_session x ps @ rest) r pr = import_sessions ok tty n rest (Suc r) (pr2\<lparr>pr_daemon := d3\<rparr>)"
    using rd u b0 np nm(3,4) cs session_begins [OF a x] im(1) fin(1)
    by (simp add: Let_def MAX_PANES_PER_SESSION_def SESSION_NAME_MAX_def pr1_def)
  moreover have "arriving base (xs @ [x]) d3" by (rule arriving_next [OF a x(4,1) im(2,3) fin(2-5)])
  ultimately show ?thesis by (intro exI [of _ "pr2\<lparr>pr_daemon := d3\<rparr>"]) simp
qed

end
