(* ===== verification/Restart.thy ===== *)
theory Restart
  imports Rebuild
begin

text \<open>
  The whole restart in place: the file written by \<open>handoff_exec\<close> holds every session in use, and
  \<open>handoff_import\<close> in the new image rebuilds them all.
\<close>

section \<open>All sessions\<close>

lemma import_all:
  assumes "arriving base xs (pr_daemon pr)"
    and "\<And>x ps. (x, ps) \<in> set ys \<Longrightarrow> sess_ok x \<and> name_portable (ss_name x) \<and> map fst ps = live_panes x \<and> (\<forall>e\<in>set ps. handed tty x e)"
    and "distinct (map ss_name (xs @ map fst ys))" "length (xs @ map fst ys) \<le> MAX_SESSIONS"
    and "distinct (base @ concat (map pane_fds (xs @ map fst ys)))" "length (base @ concat (map pane_fds (xs @ map fst ys))) \<le> LOOP_MAX_FDS"
  shows "\<exists>pr'. import_sessions ok tty (length ys) (concat (map (\<lambda>(x, ps). put_session x ps) ys)) r pr = (r + length ys, pr') \<and>
     arriving base (xs @ map fst ys) (pr_daemon pr')"
  using assms
proof (induction ys arbitrary: xs pr r)
  case (Cons y ys)
  obtain x ps where y: "y = (x, ps)" by (cases y)
  have x: "sess_ok x" "name_portable (ss_name x)" "map fst ps = live_panes x" "\<And>e. e \<in> set ps \<Longrightarrow> handed tty x e"
    using Cons.prems(2) [of x ps] y by auto
  have n: "ss_name x \<notin> ss_name ` set xs" "length xs < MAX_SESSIONS" "distinct (base @ concat (map pane_fds (xs @ [x])))"
      "length (base @ concat (map pane_fds (xs @ [x]))) \<le> LOOP_MAX_FDS"
    using Cons.prems(3-6) y by auto
  obtain pr1 where s: "import_sessions ok tty (Suc (length ys)) (put_session x ps @ concat (map (\<lambda>(x, ps). put_session x ps) ys)) r pr =
      import_sessions ok tty (length ys) (concat (map (\<lambda>(x, ps). put_session x ps) ys)) (Suc r) pr1" "arriving base (xs @ [x]) (pr_daemon pr1)"
    using import_session_step [OF Cons.prems(1) x(1,2) n(1,2) x(3,4) n(3,4)] by blast
  obtain pr2 where "import_sessions ok tty (length ys) (concat (map (\<lambda>(x, ps). put_session x ps) ys)) (Suc r) pr1 = (Suc r + length ys, pr2)"
      "arriving base ((xs @ [x]) @ map fst ys) (pr_daemon pr2)"
    using Cons.IH [OF s(2), of "Suc r"] Cons.prems(2-6) y by auto
  then show ?case using s(1) y by (intro exI [of _ pr2]) simp
qed simp

section \<open>The written sessions\<close>

definition used :: "daemon \<Rightarrow> nat list" where
  "used d = filter (\<lambda>s. ss_use (sess d s)) [0..<MAX_SESSIONS]"

lemma core_departed: "core (departed d) = core d"
  unfolding departed_def disconnect_all_def session_flush_all_def all_panes_def by (simp add: core_foldl)

text \<open>Flushing and disconnecting change nothing that is written.\<close>

lemma departed_session:
  assumes t: "tree_ok d" and s: "s < MAX_SESSIONS"
  shows "sess_children (sess (departed d) s) = sess_children (sess d s)" "sess_core (sess (departed d) s) = sess_core (sess d s)"
    "length (sessions (departed d)) = MAX_SESSIONS"
proof -
  show "sess_children (sess (departed d) s) = sess_children (sess d s)" using children_nth [OF children_departed] t s by (simp add: tree_ok_def)
  show "sess_core (sess (departed d) s) = sess_core (sess d s)" "length (sessions (departed d)) = MAX_SESSIONS"
    using core_nth [OF core_departed [of d], of s] t s by (simp_all add: tree_ok_def)
qed

lemma children_pane:
  assumes "sess_children x' = sess_children x" "j < length (ss_panes x)"
  shows "pn_use (ss_panes x' ! j) = pn_use (ss_panes x ! j)" "pn_fd (ss_panes x' ! j) = pn_fd (ss_panes x ! j)" "pn_pid (ss_panes x' ! j) = pn_pid (ss_panes x ! j)"
proof -
  let ?v = "\<lambda>p. (pn_use p, pn_id p, pn_fd p, pn_pid p)"
  have m: "map ?v (ss_panes x') = map ?v (ss_panes x)" using assms(1) by (simp add: sess_children_def)
  have "length (ss_panes x') = length (ss_panes x)" using arg_cong [OF m, of length] by simp
  then have "?v (ss_panes x' ! j) = ?v (ss_panes x ! j)" using arg_cong [OF m, of "\<lambda>l. l ! j"] assms(2) by simp
  then show "pn_use (ss_panes x' ! j) = pn_use (ss_panes x ! j)" "pn_fd (ss_panes x' ! j) = pn_fd (ss_panes x ! j)" "pn_pid (ss_panes x' ! j) = pn_pid (ss_panes x ! j)"
    by simp_all
qed

lemma written_alike:
  assumes c: "sess_children x' = sess_children x" "sess_core x' = sess_core x" and x: "sess_ok x"
  shows "sess_ok x'" "ss_name x' = ss_name x" "live_panes x' = live_panes x" "pane_fds x' = pane_fds x" "handed tty x' e = handed tty x e"
    "carried x' y = carried x y"
proof -
  have l: "length (ss_panes x) = MAX_PANES_PER_SESSION" by (rule sess_okD(1) [OF x])
  show "sess_ok x'" using sess_ok_cong [OF c(2)] x by simp
  show "ss_name x' = ss_name x" using c(1) by (simp add: sess_children_def)
  show v: "live_panes x' = live_panes x" by (rule sess_core_eqD(2) [OF c(2) l])
  show "pane_fds x' = pane_fds x" unfolding pane_fds_def v using children_pane(2) [OF c(1)] l by (auto simp: in_live)
  show "handed tty x' e = handed tty x e" using children_pane [OF c(1), of "fst e"] l by (auto simp: handed_def transferable_def)
  show "carried x' y = carried x y" by (rule carried_cong(2) [OF c])
qed

definition quiet :: "daemon \<Rightarrow> int \<times> u32" where
  "quiet d = (listen_fd d, generation d)"

lemma quiet_departed: "quiet (session_flush_all d) = quiet d" "quiet (departed d) = quiet d"
proof -
  have fold: "quiet (foldl f d ks) = quiet d" if "\<And>d k. quiet (f d k) = quiet d" for f d and ks :: "nat list"
    using that by (induction ks arbitrary: d) simp_all
  have a: "quiet (flush_sbs d s j) = quiet d" for d s j
    by (simp add: flush_sbs_def Let_def case_prod_unfold take_disk_def upd_pane_def upd_sess_def quiet_def split: option.split list.split)
  show b: "quiet (session_flush_all d) = quiet d" for d unfolding session_flush_all_def all_panes_def by (rule fold) (simp add: fold a)
  have c: "quiet (session_detach d s c) = quiet d" for d s c
  proof -
    have "quiet (upd_sess d s f) = quiet d" for d f by (simp add: quiet_def upd_sess_def)
    then show ?thesis unfolding session_detach_def Let_def by (simp add: fold flush_pane_def a)
  qed
  have e: "quiet (client_disconnect d c) = quiet d" for d c
  proof -
    have "quiet (upd_cli d c f) = quiet d" "quiet (close_fd d n) = quiet d" "quiet (d_del_fd d n) = quiet d" for d f n
      by (simp_all add: quiet_def upd_cli_def close_fd_def effect_def d_del_fd_def)
    then show ?thesis unfolding client_disconnect_def Let_def by (simp add: c split: option.split)
  qed
  show "quiet (departed d) = quiet d" unfolding departed_def disconnect_all_def by (simp add: fold e b)
qed

text \<open>The records collected before the flush, as the loop of \<open>handoff_import\<close> reads them.\<close>

definition record_of :: "daemon \<Rightarrow> nat \<Rightarrow> session \<times> (nat \<times> byte list) list" where
  "record_of d s = (sess (departed d) s, map (\<lambda>j. (j, export_blob d (pane_at d s j))) (live_panes (sess d s)))"

definition transferable_session :: "(int \<Rightarrow> bool) \<Rightarrow> session \<Rightarrow> bool" where
  "transferable_session tty x \<longleftrightarrow> name_portable (ss_name x) \<and> (\<forall>j\<in>set (live_panes x). transferable (ss_panes x ! j) \<and> tty (pn_fd (ss_panes x ! j)))"

lemma written_records:
  assumes t: "tree_ok d" and x: "\<And>s. s \<in> set (used d) \<Longrightarrow> transferable_session tty (sess d s)"
  shows "map (\<lambda>r. put_session (sess (departed d) (ex_s r)) (ex_panes r)) (export_recs d) = map (\<lambda>(x, ps). put_session x ps) (map (record_of d) (used d))"
    "length (export_recs d) = length (used d)"
proof -
  have one: "ex_panes (export_session d s) = map (\<lambda>j. (j, export_blob d (pane_at d s j))) (live_panes (sess d s)) \<and> live_panes (sess d s) \<noteq> []"
    if s: "s \<in> set (used d)" for s
  proof -
    have ok: "\<not> (pn_pid (pane_at d s j) \<le> 0 \<or> pn_fd (pane_at d s j) < 0)" if "j < MAX_PANES_PER_SESSION" "pn_use (pane_at d s j)" for j
      using x [OF s] that by (force simp: transferable_session_def transferable_def in_live)
    have "filter (\<lambda>j. pn_use (pane_at d s j) \<and> \<not> (pn_pid (pane_at d s j) \<le> 0 \<or> pn_fd (pane_at d s j) < 0)) [0..<MAX_PANES_PER_SESSION] = live_panes (sess d s)"
      unfolding live_panes_def by (rule filter_cong) (use ok in auto)
    moreover have "sess_ok (sess d s)" using t s by (simp add: tree_ok_def used_def)
    ultimately show ?thesis by (simp add: export_session_def sess_okD(7))
  qed
  have "filter (\<lambda>r. ex_panes r \<noteq> []) (map (export_session d) (used d)) = map (export_session d) (used d)"
    by (rule filter_True) (use one in auto)
  then have r: "export_recs d = map (export_session d) (used d)" by (simp add: export_recs_def used_def)
  show "length (export_recs d) = length (used d)" by (simp add: r)
  show "map (\<lambda>r. put_session (sess (departed d) (ex_s r)) (ex_panes r)) (export_recs d) = map (\<lambda>(x, ps). put_session x ps) (map (record_of d) (used d))"
    using one by (auto simp: r record_of_def export_session_def)
qed

lemma record_of_ok:
  assumes t: "tree_ok d" and s: "s \<in> set (used d)" and x: "transferable_session tty (sess d s)" and r: "record_of d s = (y, ps)"
  shows "sess_ok y \<and> name_portable (ss_name y) \<and> map fst ps = live_panes y \<and> (\<forall>e\<in>set ps. handed tty y e)"
proof -
  have s': "s < MAX_SESSIONS" and ok: "sess_ok (sess d s)" using t s by (auto simp: used_def tree_ok_def)
  have y: "y = sess (departed d) s" and ps: "ps = map (\<lambda>j. (j, export_blob d (pane_at d s j))) (live_panes (sess d s))" using r by (simp_all add: record_of_def)
  note w = written_alike [OF departed_session(1,2) [OF t s'] ok, folded y]
  have b: "length (export_blob d p) \<le> HANDOFF_BLOB_MAX" for p by (simp add: export_blob_def Let_def split: option.split)
  have "handed tty (sess d s) e" if "e \<in> set ps" for e using that x b by (auto simp: ps handed_def transferable_session_def in_live)
  then show ?thesis using w x by (simp add: ps comp_def transferable_session_def)
qed

lemma cold_arriving:
  assumes "cold_start d" "allocs d = []" "importing d"
  shows "arriving (map pfd (fds d)) [] d"
  using assms by (simp add: arriving_def cold_start_def zero_session_def set_replicate_conv_if)

lemma arriving_sound:
  assumes a: "arriving base xs d" shows "tree_ok d" "att_ok d"
proof -
  have "sess_ok (sess d s)" if "s < MAX_SESSIONS" "ss_use (sess d s)" for s
    using a that by (cases "s < length xs") (auto simp: arriving_def)
  then show "tree_ok d" using a by (auto simp: tree_ok_def arriving_def)
  have c: "length (ss_panes (sess d s)) = MAX_PANES_PER_SESSION \<and> set (ss_clients (sess d s)) \<subseteq> {None} \<and> length (ss_clients (sess d s)) = MAX_CLIENTS_PER_SESSION"
    if "s < MAX_SESSIONS" for s using a that by (simp add: arriving_def)
  have l: "length (sessions d) = MAX_SESSIONS" "clients d = replicate MAX_CLIENTS zero_client" using a by (simp_all add: arriving_def)
  have t: "tables_ok d" using c l by (auto simp: tables_ok_def in_set_conv_nth)
  have n: "Some c \<notin> set (ss_clients (sess d s))" if "s < MAX_SESSIONS" for s c using c [OF that] by blast
  have "\<not> cl_use (cli d c)" if "c < MAX_CLIENTS" for c using that by (simp add: l(2) zero_client_def)
  then show "att_ok d" by (intro att_butI t) (simp_all add: n)
qed

lemma read_header:
  assumes l: "- 2147483648 \<le> lfd" "lfd < 2147483648" and k: "- 2147483648 \<le> kfd" "kfd < 2147483648" and n: "length recs \<le> MAX_SESSIONS"
  shows "\<exists>hdr. rd 24 (write_state d recs lfd kfd) = Some (hdr, concat (map (\<lambda>r. put_session (sess d (ex_s r)) (ex_panes r)) recs)) \<and>
     take 8 hdr = handoff_magic \<and> get_u16 (drop 8 hdr) = 2 \<and> unat (get_u16 (drop 10 hdr)) = length recs \<and>
     sint (get_u32 (drop 12 hdr)) = lfd \<and> sint (get_u32 (drop 16 hdr)) = kfd \<and> get_u32 (drop 20 hdr) = generation d + 1"
proof -
  define hdr where "hdr = handoff_magic @ n16 2 @ n16 (length recs) @ n32 lfd @ n32 kfd @ put_u32 (generation d + 1)"
  have m: "length handoff_magic = 8" by (simp add: handoff_magic_def ascii_def)
  then have h: "length hdr = 24" by (simp add: hdr_def)
  have "write_state d recs lfd kfd = hdr @ concat (map (\<lambda>r. put_session (sess d (ex_s r)) (ex_panes r)) recs)" by (simp add: write_state_def hdr_def)
  then have r: "rd 24 (write_state d recs lfd kfd) = Some (hdr, concat (map (\<lambda>r. put_session (sess d (ex_s r)) (ex_panes r)) recs))" using h by (simp add: rd_def)
  have dr: "drop 8 hdr = n16 2 @ drop 10 hdr" "drop 10 hdr = n16 (length recs) @ drop 12 hdr" "drop 12 hdr = n32 lfd @ drop 16 hdr"
      "drop 16 hdr = n32 kfd @ drop 20 hdr" "drop 20 hdr = put_u32 (generation d + 1)" "take 8 hdr = handoff_magic"
    using m by (simp_all add: hdr_def)
  have "get_u16 (n16 2 @ drop 10 hdr) = 2" by (simp add: n16_def)
  then show ?thesis using r l k n dr get_n16 [of "length recs" "drop 12 hdr"] get_n32 [OF l, of "drop 16 hdr"] get_n32 [OF k, of "drop 20 hdr"]
    by (intro exI [of _ hdr]) (simp add: MAX_SESSIONS_def)
qed

section \<open>Leaving and arriving\<close>

text \<open>What the new image makes of the file: every used session, in order, in the first slots.\<close>

lemma import_written:
  assumes t: "tree_ok d" and x: "\<And>s. s \<in> set (used d) \<Longrightarrow> transferable_session tty (sess d s)" and nm: "distinct (map (\<lambda>s. ss_name (sess d s)) (used d))"
    and n: "cold_start d1" "allocs d1 = []" and st: "importing d1"
    and fd: "distinct (map pfd (fds d1) @ concat (map (\<lambda>s. pane_fds (sess d s)) (used d)))"
      "length (map pfd (fds d1) @ concat (map (\<lambda>s. pane_fds (sess d s)) (used d))) \<le> LOOP_MAX_FDS"
    and pr: "pr_daemon pr = d1"
  shows "\<exists>pr'. import_sessions ok tty (length (used d)) (concat (map (\<lambda>r. put_session (sess (departed d) (ex_s r)) (ex_panes r)) (export_recs d))) 0 pr =
      (length (used d), pr') \<and> (\<forall>i<length (used d). carried (sess d (used d ! i)) (sess (pr_daemon pr') i)) \<and>
      (\<forall>i<MAX_SESSIONS. length (used d) \<le> i \<longrightarrow> \<not> ss_use (sess (pr_daemon pr') i)) \<and>
      map pfd (fds (pr_daemon pr')) = map pfd (fds d1) @ concat (map (\<lambda>s. pane_fds (sess d s)) (used d)) \<and>
      tree_ok (pr_daemon pr') \<and> att_ok (pr_daemon pr')"
proof -
  let ?ys = "map (record_of d) (used d)"
  have u: "s < MAX_SESSIONS \<and> sess_ok (sess d s)" if "s \<in> set (used d)" for s using that t by (auto simp: used_def tree_ok_def)
  have w: "ss_name (sess (departed d) s) = ss_name (sess d s)" "pane_fds (sess (departed d) s) = pane_fds (sess d s)"
      "carried (sess (departed d) s) z = carried (sess d s) z" if "s \<in> set (used d)" for s z
    using written_alike(2,4,6) [OF departed_session(1,2) [OF t]] u [OF that] by blast+
  have fst: "map fst ?ys = map (\<lambda>s. sess (departed d) s) (used d)" by (simp add: record_of_def)
  have e1: "map ss_name ([] @ map fst ?ys) = map (\<lambda>s. ss_name (sess d s)) (used d)" and e2: "map pane_fds ([] @ map fst ?ys) = map (\<lambda>s. pane_fds (sess d s)) (used d)"
    unfolding fst using w by simp_all
  have a: "arriving (map pfd (fds d1)) [] (pr_daemon pr)" unfolding pr by (rule cold_arriving [OF n st])
  have each: "sess_ok y \<and> name_portable (ss_name y) \<and> map fst ps = live_panes y \<and> (\<forall>e\<in>set ps. handed tty y e)" if yp: "(y, ps) \<in> set ?ys" for y ps
  proof -
    obtain s where s: "s \<in> set (used d)" "record_of d s = (y, ps)" using yp by auto
    show ?thesis by (rule record_of_ok [OF t s(1) x [OF s(1)] s(2)])
  qed
  have len: "length ([] @ map fst ?ys) \<le> MAX_SESSIONS"
    using length_filter_le [of "\<lambda>s. ss_use (sess d s)" "[0..<MAX_SESSIONS]"] by (simp add: used_def)
  obtain pr' where "import_sessions ok tty (length ?ys) (concat (map (\<lambda>(x, ps). put_session x ps) ?ys)) 0 pr = (0 + length ?ys, pr')"
      and arr: "arriving (map pfd (fds d1)) ([] @ map fst ?ys) (pr_daemon pr')"
    using import_all [OF a each nm [folded e1] len fd [folded e2], where ok = ok and r = 0] by blast
  then have run: "import_sessions ok tty (length (used d)) (concat (map (\<lambda>r. put_session (sess (departed d) (ex_s r)) (ex_panes r)) (export_recs d))) 0 pr =
      (length (used d), pr')"
    using written_records(1) [OF t x] by simp
  have "carried (sess d (used d ! i)) (sess (pr_daemon pr') i)" if i: "i < length (used d)" for i
    using arr i w(3) [OF nth_mem [OF i]] by (auto simp: arriving_def record_of_def)
  moreover have "map pfd (fds (pr_daemon pr')) = map pfd (fds d1) @ concat (map (\<lambda>s. pane_fds (sess d s)) (used d))"
    using arr unfolding arriving_def e2 by blast
  moreover note arriving_sound [OF arr]
  ultimately show ?thesis using run arr by (intro exI [of _ pr']) (simp add: arriving_def)
qed

lemma import_panes_keep_file: "state_file (snd (snd (import_panes ok tty so n f pr))) = state_file pr"
proof (induction n arbitrary: so f pr)
  case (Suc n)
  have "state_file (snd (adopt_master ok tty pr fd)) = state_file pr" for fd by (simp add: adopt_master_def set_cloexec_def)
  then show ?case by (simp add: Let_def case_prod_unfold Suc split: option.split)
qed simp

lemma import_sessions_keep_file: "state_file (snd (import_sessions ok tty n f r pr)) = state_file pr"
proof (induction n arbitrary: f r pr)
  case (Suc n)
  have "state_file (snd (case session_import_begin d nm vc vr ai li ni lt of (Inl e, d) \<Rightarrow> (None, pr\<lparr>pr_daemon := d\<rparr>) | (Inr s, d) \<Rightarrow> (Some s, pr\<lparr>pr_daemon := d\<rparr>))) = state_file pr"
    for d nm vc vr ai li ni lt by (simp split: prod.split sum.split)
  then show ?case by (simp add: Let_def case_prod_unfold Suc import_panes_keep_file split: option.split)
qed simp

text \<open>What \<open>handoff_exec\<close> wrote is what \<open>handoff_import\<close> finds: the new image, cold and with room in its
  poll table, restores exactly the sessions in use, in their order, polls every terminal again, is
  handed the listener and the lock, and removes the file.\<close>

lemma reload_restores:
  fixes pr :: process
  defines "d \<equiv> pr_daemon pr"
  assumes "tree_ok d"
    and "\<forall>s\<in>set (used d). transferable_session tty (sess d s)" "distinct (map (\<lambda>s. ss_name (sess d s)) (used d))"
    and "listen_fd d < 2147483648" "g_lock_fd pr \<in> {- 1..<2147483648}"
    and "handoff_exec fcntl_ok open_ok write_ok exec_ok pr = Replaced pr1"
    and "cold_start d1" "allocs d1 = []" "distinct (map pfd (fds d1) @ concat (map (\<lambda>s. pane_fds (sess d s)) (used d)))"
    and "length (map pfd (fds d1) @ concat (map (\<lambda>s. pane_fds (sess d s)) (used d))) \<le> LOOP_MAX_FDS"
  shows "\<exists>pr2. handoff_import fcntl_ok' tty lock_ok (pr1\<lparr>pr_daemon := d1\<rparr>) =
      (Some (length (used d)), if 0 \<le> listen_fd d \<and> fcntl_ok (listen_fd d) then listen_fd d else - 1,
       if 0 \<le> g_lock_fd pr \<and> lock_ok (g_lock_fd pr) then g_lock_fd pr else - 1, pr2) \<and> state_file pr2 = None \<and>
    (\<forall>i<length (used d). carried (sess d (used d ! i)) (sess (pr_daemon pr2) i)) \<and>
    (\<forall>i<MAX_SESSIONS. length (used d) \<le> i \<longrightarrow> \<not> ss_use (sess (pr_daemon pr2) i)) \<and>
    map pfd (fds (pr_daemon pr2)) = map pfd (fds d1) @ concat (map (\<lambda>s. pane_fds (sess d s)) (used d)) \<and>
    tree_ok (pr_daemon pr2) \<and> att_ok (pr_daemon pr2)"
proof -
  note t = assms(2)
  have q: "listen_fd (session_flush_all d) = listen_fd d" "generation (departed d) = generation d" using quiet_departed [of d] by (simp_all add: quiet_def)
  let ?l = "if 0 \<le> listen_fd d \<and> fcntl_ok (listen_fd d) then listen_fd d else - 1"
  have f: "state_file pr1 = Some (write_state (departed d) (export_recs d) ?l (g_lock_fd pr))"
    using handoff_exec_cases [where ok = fcntl_ok and o' = open_ok and w = write_ok and e = exec_ok and pr = pr] assms(7) q(1) by (simp add: d_def)
  have n: "length (export_recs d) = length (used d)" "length (export_recs d) \<le> MAX_SESSIONS"
    using written_records(2) [OF t, of tty] assms(3) length_filter_le [of "\<lambda>s. ss_use (sess d s)" "[0..<MAX_SESSIONS]"] by (simp_all add: used_def)
  have lr: "- 2147483648 \<le> ?l" "?l < 2147483648" and kr: "- 2147483648 \<le> g_lock_fd pr" "g_lock_fd pr < 2147483648" using assms(5,6) by auto
  obtain hdr where h: "rd 24 (write_state (departed d) (export_recs d) ?l (g_lock_fd pr)) =
       Some (hdr, concat (map (\<lambda>r. put_session (sess (departed d) (ex_s r)) (ex_panes r)) (export_recs d)))"
     "take 8 hdr = handoff_magic" "get_u16 (drop 8 hdr) = 2" "unat (get_u16 (drop 10 hdr)) = length (used d)"
     "sint (get_u32 (drop 12 hdr)) = ?l" "sint (get_u32 (drop 16 hdr)) = g_lock_fd pr"
    using read_header [OF lr kr n(2), where d = "departed d"] n(1) by auto
  define lk where "lk = (if 0 \<le> g_lock_fd pr \<and> lock_ok (g_lock_fd pr) then g_lock_fd pr else - 1)"
  define d1' where "d1' = d1\<lparr>generation := get_u32 (drop 20 hdr), importing := True\<rparr>"
  define pb where "pb = pr1\<lparr>pr_daemon := d1\<lparr>generation := get_u32 (drop 20 hdr)\<rparr>, state_file := None\<rparr>"
  define pc where "pc = (if lk \<ge> 0 then pb\<lparr>cloexec := (cloexec pb)(lk := True)\<rparr> else pb)"
  define pa where "pa = pc\<lparr>pr_daemon := (pr_daemon pc)\<lparr>importing := True\<rparr>\<rparr>"
  have pa: "pr_daemon pa = d1'" "state_file pa = None" by (simp_all add: pa_def pc_def pb_def d1'_def)
  have c: "cold_start d1'" "allocs d1' = []" "importing d1'" "fds d1' = fds d1" using assms(8,9) by (simp_all add: d1'_def cold_start_def)
  obtain pr2 where im: "import_sessions fcntl_ok' tty (length (used d)) (concat (map (\<lambda>r. put_session (sess (departed d) (ex_s r)) (ex_panes r)) (export_recs d))) 0 pa =
       (length (used d), pr2)" "\<forall>i<length (used d). carried (sess d (used d ! i)) (sess (pr_daemon pr2) i)"
     "\<forall>i<MAX_SESSIONS. length (used d) \<le> i \<longrightarrow> \<not> ss_use (sess (pr_daemon pr2) i)"
     "map pfd (fds (pr_daemon pr2)) = map pfd (fds d1) @ concat (map (\<lambda>s. pane_fds (sess d s)) (used d))" "tree_ok (pr_daemon pr2)" "att_ok (pr_daemon pr2)"
    using import_written [OF t _ assms(4) c(1-3), where tty = tty and pr = pa and ok = fcntl_ok'] assms(3,10,11) c(4) pa(1) by auto
  have "handoff_import fcntl_ok' tty lock_ok (pr1\<lparr>pr_daemon := d1\<rparr>) =
      (Some (length (used d)), ?l, lk, pr2\<lparr>pr_daemon := (pr_daemon pr2)\<lparr>importing := False\<rparr>\<rparr>)"
  proof -
    have fl: "state_file (pr1\<lparr>pr_daemon := d1\<rparr>) = Some (write_state (departed d) (export_recs d) ?l (g_lock_fd pr))" using f by simp
    have b: "(pr1\<lparr>pr_daemon := d1\<rparr>)\<lparr>state_file := None, pr_daemon := (pr_daemon ((pr1\<lparr>pr_daemon := d1\<rparr>)\<lparr>state_file := None\<rparr>))\<lparr>generation := get_u32 (drop 20 hdr)\<rparr>\<rparr> = pb"
      by (simp add: pb_def)
    have l: "(if 0 \<le> ?l then ?l else - 1) = ?l" by simp
    have k: "\<not> length (used d) > MAX_SESSIONS" using n by simp
    show ?thesis unfolding handoff_import_def fl option.case Let_def h(1) prod.case h(2-6) b lk_def [symmetric] pc_def [symmetric] pa_def [symmetric] im(1) l
      using k by simp
  qed
  moreover have "state_file pr2 = None" using import_sessions_keep_file [of fcntl_ok' tty "length (used d)" _ 0 pa] im(1) by (metis pa(2) snd_conv)
  moreover have "tree_ok ((pr_daemon pr2)\<lparr>importing := False\<rparr>)" "att_ok ((pr_daemon pr2)\<lparr>importing := False\<rparr>)"
    using tree_ok_core [OF _ im(5)] att_view_ok [OF _ im(6)] by (simp_all add: core_def att_view_def)
  ultimately show ?thesis using im(2-4) by (intro exI [of _ "pr2\<lparr>pr_daemon := (pr_daemon pr2)\<lparr>importing := False\<rparr>\<rparr>"]) (simp add: lk_def)
qed

text \<open>A daemon with one session of one pane.\<close>

definition one_session :: daemon where
  "one_session = blank_daemon\<lparr>sessions := (replicate MAX_SESSIONS zero_session)[0 := zero_session\<lparr>ss_use := True, ss_name := ascii ''a'',
     view_cols := 2, view_rows := 1, next_id := 1, ss_panes := (replicate MAX_PANES_PER_SESSION zero_pane)[0 := zero_pane\<lparr>pn_use := True,
       pn_fd := 9, pn_pid := 42, pn_cols := 2, pn_rows := 1, pn_vt := vt_new True True True 1 2 (Some pane_callbacks)\<rparr>]\<rparr>]\<rparr>"

lemma one_session_facts:
  "tree_ok one_session" "used one_session = [0]" "live_panes (sess one_session 0) = [0]" "pane_fds (sess one_session 0) = [9]"
  "transferable_session (\<lambda>fd. fd = 9) (sess one_session 0)" "listen_fd one_session = 3"
proof -
  let ?x = "sess one_session 0"
  have at: "sess one_session s = (if s = 0 then ?x else zero_session)" if "s < MAX_SESSIONS" for s
    using that by (simp add: one_session_def)
  have lv: "live_panes ?x = [0]" by (simp add: one_session_def live_panes_def MAX_PANES_PER_SESSION_def MAX_SESSIONS_def upt_rec zero_pane_def)
  show "live_panes ?x = [0]" by (rule lv)
  show "used one_session = [0]" by (simp add: used_def one_session_def MAX_SESSIONS_def upt_rec zero_session_def)
  show "pane_fds ?x = [9]" by (simp add: pane_fds_def lv) (simp add: one_session_def MAX_SESSIONS_def MAX_PANES_PER_SESSION_def)
  have "at_valid_session_name (Some (ascii ''a'' @ [0])) = Some True" by code_simp
  then show "transferable_session (\<lambda>fd. fd = 9) ?x"
    by (simp add: transferable_session_def lv transferable_def name_portable_def)
      (simp add: one_session_def MAX_SESSIONS_def MAX_PANES_PER_SESSION_def SESSION_NAME_MAX_def ascii_def)
  have "pn_vt (ss_panes ?x ! 0) \<noteq> None" by (auto simp: one_session_def vt_new_def Let_def MAX_SESSIONS_def MAX_PANES_PER_SESSION_def)
  then have "sess_ok ?x" unfolding sess_ok_def sess_but_def live_ids_def lv using layout_init_ok [of 0]
    by (auto simp: one_session_def MAX_SESSIONS_def MAX_PANES_PER_SESSION_def zero_session_def zero_pane_def intro!: exI [of _ "Pane 0 0"])
  then have "ss_use (sess one_session s) \<longrightarrow> sess_ok (sess one_session s)" if "s < MAX_SESSIONS" for s
    unfolding at [OF that] by (simp add: zero_session_def)
  moreover have "length (sessions one_session) = MAX_SESSIONS" by (simp add: one_session_def)
  ultimately show "tree_ok one_session" unfolding tree_ok_def by blast
  show "listen_fd one_session = 3" by (simp add: one_session_def blank_daemon_def)
qed

end
