(* ===== verification/Cli.thy ===== *)
theory Cli
  imports Pump Restart
begin

unbundle bit_operations_syntax

text \<open>
  The command line, \<open>src/client/main.c\<close>, and the greeting of \<open>src/client/attach.c\<close>: what the client
  makes of its arguments, and the commands that ask the daemon one question. A connection is the
  bytes the daemon sends on it until it closes; how \<open>read\<close> cuts them into pieces does not matter,
  because every reply is read with a loop. \<open>None\<close> for a connection means that it cannot be made.
  A command gives its exit status and what it prints, standard output and standard error together.
\<close>

section \<open>Replies\<close>

definition read_reply :: "nat \<Rightarrow> byte list \<Rightarrow> (byte \<times> byte list) option" where
  "read_reply limit bs =
    (if length bs < PROTO_HDR_SIZE then None
     else let plen = unat (get_u32 bs) in
       if plen > limit then None
       else if length bs < PROTO_HDR_SIZE + plen then None
       else Some (bs ! 4, take plen (drop PROTO_HDR_SIZE bs)))"

section \<open>The greeting\<close>

record hello_info =
  daemon_pid :: u32
  daemon_gen :: u32
  daemon_panes :: bool

definition hello_request :: "byte list" where
  "hello_request = encode_frame (0x01, put_u16 1 @ put_u16 1)"

text \<open>\<open>old\<close> and \<open>warned\<close> are what the static variables hold from an earlier greeting.\<close>

definition old_build :: "u32 \<Rightarrow> byte list" where
  "old_build pid = ascii ''agent-terminal: daemon (pid '' @ dec_digits (unat pid) @
     ascii '') is an older build without pane support; splits will do nothing. `agent-terminal reload` upgrades it in place.'' @ [0x0a]"

definition hello :: "hello_info \<Rightarrow> bool \<Rightarrow> bool \<Rightarrow> byte list \<Rightarrow> hello_info option \<times> byte list" where
  "hello old warned wrote bs =
    (if \<not> wrote then (None, [])
     else case read_reply 4096 bs of None \<Rightarrow> (None, [])
     | Some (t, p) \<Rightarrow>
        if t = 0x03 then (None, case proto_err_text p of
            (code, Some (off, n)) \<Rightarrow> ascii ''agent-terminal: '' @ take (unat n) (drop off p) @ [0x0a]
          | (code, None) \<Rightarrow> ascii ''agent-terminal: daemon refused the connection (error '' @ dec_digits (unat code) @ ascii '')'' @ [0x0a])
        else if t \<noteq> 0x02 then (None, [])
        else let f = (if length p \<ge> 12 then get_u16 (drop 10 p) else 0); pid = (if length p \<ge> 6 then get_u32 (drop 2 p) else daemon_pid old)
             in (Some \<lparr>daemon_pid = pid,
                       daemon_gen = (if length p \<ge> 10 then get_u32 (drop 6 p) else 0), daemon_panes = (f AND 1 \<noteq> 0)\<rparr>,
                 if f AND 1 = 0 \<and> \<not> warned then old_build pid else []))"

section \<open>Listing sessions\<close>

record ls_entry =
  le_name :: "byte list"
  le_cols :: nat
  le_rows :: nat
  le_alive :: byte
  le_ncli :: byte
  le_pid :: int
  le_status :: int
  le_npanes :: byte
  le_zoomed :: byte

text \<open>Where the fields of the next entry begin and end.\<close>

definition entry_bounds :: "bool \<Rightarrow> byte list \<Rightarrow> nat \<Rightarrow> (nat \<times> nat) option" where
  "entry_bounds v2 p off =
    (if \<not> v2 then Some (off, length p)
     else if off + 2 > length p then None
     else let elen = unat (get_u16 (drop off p)) in
       if off + 2 + elen > length p then None else Some (off + 2, off + 2 + elen))"

fun ls_entries :: "bool \<Rightarrow> nat \<Rightarrow> byte list \<Rightarrow> nat \<Rightarrow> ls_entry list" where
  "ls_entries v2 0 p off = []"
| "ls_entries v2 (Suc n) p off =
    (if off \<ge> length p then []
     else case entry_bounds v2 p off of None \<Rightarrow> []
     | Some (off, entry_end) \<Rightarrow>
        if off + 1 > entry_end then []
        else let nlen = unat (p ! off); off = off + 1 in
          if off + nlen + 14 > entry_end then []
          else let name = take nlen (drop off p); q = drop (off + nlen) p; off = off + nlen + 14;
                   tail = v2 \<and> off + 2 \<le> entry_end
               in \<lparr>le_name = name, le_cols = unat (get_u16 q), le_rows = unat (get_u16 (drop 2 q)), le_alive = q ! 4, le_ncli = q ! 5,
                    le_pid = sint (get_u32 (drop 6 q)), le_status = sint (get_u32 (drop 10 q)),
                    le_npanes = (if tail then p ! off else 1), le_zoomed = (if tail then p ! (off + 1) else 0)\<rparr>
                  # ls_entries v2 n p (if v2 then entry_end else off))"

definition ls_line :: "ls_entry \<Rightarrow> byte list" where
  "ls_line e =
    cstr (le_name e) @
    (if le_alive e \<noteq> 0
     then ascii '': '' @ dec_digits (le_cols e) @ ascii ''x'' @ dec_digits (le_rows e) @ ascii '', pid '' @ dec_int (le_pid e) @
          ascii '', '' @ dec_digits (unat (le_ncli e)) @ ascii '' client'' @ (if le_ncli e = 1 then [] else ascii ''s'') @
          (if le_npanes e > 1 then ascii '', '' @ dec_digits (unat (le_npanes e)) @ ascii '' panes'' @
             (if le_zoomed e \<noteq> 0 then ascii '' (zoomed)'' else []) else []) @ [0x0a]
     else ascii '': dead (exit '' @ dec_int (le_status e) @ ascii '')'' @ [0x0a])"

definition ls_output :: "bool \<Rightarrow> byte list \<Rightarrow> int \<times> byte list" where
  "ls_output v2 bs = (case read_reply PROTO_MAX_PAYLOAD bs of None \<Rightarrow> (1, [])
   | Some (t, p) \<Rightarrow>
      if t \<noteq> (if v2 then 0x37 else 0x11) then (1, [])
      else if length p < 2 then (1, [])
      else let n = unat (get_u16 p)
           in (0, (if n = 0 then ascii ''no sessions'' @ [0x0a] else []) @ concat (map ls_line (ls_entries v2 n p 2))))"

text \<open>\<open>wrote\<close> is whether the request could be sent.\<close>

definition cmd_ls :: "(hello_info \<times> bool \<times> byte list) option \<Rightarrow> int \<times> byte list" where
  "cmd_ls conn = (case conn of None \<Rightarrow> (0, ascii ''no sessions (daemon not running)'' @ [0x0a])
   | Some (h, wrote, bs) \<Rightarrow> if \<not> wrote then (1, []) else ls_output (daemon_panes h) bs)"

section \<open>Ending a session\<close>

definition kill_request :: "byte list \<Rightarrow> byte list" where
  "kill_request name = encode_frame (0x13, word_of_nat (length name) # name)"

definition cmd_kill :: "byte list \<Rightarrow> (bool \<times> byte list) option \<Rightarrow> int \<times> byte list" where
  "cmd_kill name conn = (case conn of None \<Rightarrow> (1, [])
   | Some (wrote, bs) \<Rightarrow>
      if \<not> wrote then (1, ascii ''agent-terminal: failed to kill '' @ quoted name @ [0x0a])
      else if length bs < PROTO_HDR_SIZE then (1, ascii ''agent-terminal: no reply from daemon'' @ [0x0a])
      else (case read_reply PROTO_MAX_PAYLOAD bs of None \<Rightarrow> (1, [])
        | Some (t, p) \<Rightarrow>
           if t = 0x03 then (1, case proto_err_text p of
               (code, Some (off, n)) \<Rightarrow> ascii ''agent-terminal: '' @ take (unat n) (drop off p) @ [0x0a]
             | (code, None) \<Rightarrow> ascii ''agent-terminal: cannot kill '' @ quoted name @ [0x0a])
           else if t \<noteq> 0x11 then (1, ascii ''agent-terminal: unexpected reply killing '' @ quoted name @ [0x0a])
           else (0, ascii ''killed '' @ quoted name @ [0x0a])))"

section \<open>Restarting the daemon\<close>

text \<open>\<open>tries\<close> are the greetings of the connections made afterwards, one every 100 ms; \<open>None\<close> is a
  connection that could not be made.\<close>

fun reload_poll :: "hello_info \<Rightarrow> hello_info option list \<Rightarrow> hello_info option" where
  "reload_poll before [] = None"
| "reload_poll before (t # ts) = (case t of None \<Rightarrow> reload_poll before ts
     | Some h \<Rightarrow> if daemon_gen h > daemon_gen before then Some h else reload_poll before ts)"

definition cmd_reload :: "(hello_info \<times> bool) option \<Rightarrow> hello_info option list \<Rightarrow> int \<times> byte list" where
  "cmd_reload conn tries = (case conn of None \<Rightarrow> (1, [])
   | Some (before, wrote) \<Rightarrow>
      if \<not> wrote then (1, ascii ''agent-terminal: cannot send reload'' @ [0x0a])
      else (case reload_poll before (take 50 tries) of
        Some h \<Rightarrow> (0, if daemon_pid h \<noteq> daemon_pid before
            then ascii ''daemon reloaded, but pid changed '' @ dec_digits (unat (daemon_pid before)) @ [0x20, 0xe2, 0x86, 0x92, 0x20] @
                 dec_digits (unat (daemon_pid h)) @ ascii '': sessions were not preserved'' @ [0x0a]
            else ascii ''daemon reloaded in place (pid '' @ dec_digits (unat (daemon_pid h)) @ ascii '', generation '' @
                 dec_digits (unat (daemon_gen h)) @ ascii '')'' @ [0x0a])
      | None \<Rightarrow> (1, ascii ''agent-terminal: daemon did not report a reload (still generation '' @
           dec_digits (unat (daemon_gen before)) @ ascii ''); check its log'' @ [0x0a])))"

section \<open>Arguments\<close>

datatype command = Usage | Die "byte list" | Version | Ls | Reload_In_Place | History "byte list" | Kill "byte list"
  | Attach_To "byte list" | New_Session "byte list" "byte list list"

text \<open>The options after the verb: the name and the command after \<open>--\<close>; \<open>None\<close> for anything else.\<close>

fun options :: "byte list option \<Rightarrow> byte list list \<Rightarrow> (byte list option \<times> byte list list option) option" where
  "options name [] = Some (name, None)"
| "options name (x # xs) =
    (if x = ascii ''-s'' \<and> xs \<noteq> [] then options (Some (hd xs)) (tl xs)
     else if x = ascii ''--'' then Some (name, Some xs)
     else None)"

definition client_main :: "byte list list \<Rightarrow> command" where
  "client_main argv =
    (case argv of [] \<Rightarrow> Usage | [_] \<Rightarrow> Usage
     | _ # verb # rest \<Rightarrow> (case options None rest of None \<Rightarrow> Usage
       | Some (name, cmd) \<Rightarrow>
          if (\<exists>n\<in>set_option name. length n > 63) then Die (ascii ''session name too long (max 63)'')
          else if (\<exists>n\<in>set_option name. at_valid_session_name (Some (n @ [0])) \<noteq> Some True) then Die (ascii ''invalid session name'')
          else if verb = ascii ''version'' \<or> verb = ascii ''--version'' then Version
          else if verb = ascii ''ls'' then Ls
          else if verb = ascii ''reload'' then Reload_In_Place
          else if verb = ascii ''history'' then (case name of None \<Rightarrow> Usage | Some n \<Rightarrow> History n)
          else if verb = ascii ''kill'' then (case name of None \<Rightarrow> Usage | Some n \<Rightarrow> Kill n)
          else if verb = ascii ''attach'' \<or> verb = ascii ''a'' then (case name of None \<Rightarrow> Usage | Some n \<Rightarrow> Attach_To n)
          else if verb = ascii ''new'' then New_Session (case name of None \<Rightarrow> ascii ''main'' | Some n \<Rightarrow> n) (case cmd of None \<Rightarrow> [] | Some args \<Rightarrow> args)
          else Usage))"

section \<open>Client and daemon understand each other\<close>

lemma read_reply_frame: "length p \<le> limit \<Longrightarrow> limit \<le> PROTO_MAX_PAYLOAD \<Longrightarrow> read_reply limit (encode_frame (t, p) @ rest) = Some (t, p)"
  by (simp add: read_reply_def encode_frame_def frame_hdr_def Let_def unat_of_nat nth_append)

text \<open>The session list as the command shows it.\<close>

definition shown_entry :: "session \<Rightarrow> ls_entry" where
  "shown_entry x = (case active_fields x of (alive, pid, ex) \<Rightarrow>
     \<lparr>le_name = ss_name x, le_cols = view_cols x, le_rows = session.view_rows x, le_alive = alive, le_ncli = word_of_nat (client_count x),
      le_pid = sint (word_of_int pid :: u32), le_status = sint (word_of_int ex :: u32),
      le_npanes = word_of_nat (length (live_panes x)), le_zoomed = (if zoomed_id x \<noteq> 255 then 1 else 0)\<rparr>)"

lemma length_list2: "length (list2_entry x) = length (ss_name x) + 17" "length (list2_item x) = length (ss_name x) + 19"
  by (simp_all add: list2_item_def list2_entry_def list_entry_def case_prod_unfold)

lemma fit_all: "off + sum_list (map length es) \<le> cap \<Longrightarrow> fit_items cap off es = es"
  by (induction es arbitrary: off) auto

text \<open>One entry read where it was written.\<close>

lemma ls_entries_step:
  assumes "length (ss_name x) \<le> 63" "view_cols x < 65536" "session.view_rows x < 65536"
  shows "ls_entries True (Suc n) (pre @ list2_item x @ rest) (length pre) =
    shown_entry x # ls_entries True n (pre @ list2_item x @ rest) (length (pre @ list2_item x))"
proof -
  obtain al pid ex where f: "active_fields x = (al, pid, ex)" by (cases "active_fields x")
  let ?p = "pre @ list2_item x @ rest" and ?o = "length pre"
  define q where "q = n16 (view_cols x) @ n16 (session.view_rows x) @ [al] @ [word_of_nat (client_count x)] @ n32 pid @ n32 ex @
    [word_of_nat (length (live_panes x)), if zoomed_id x \<noteq> 255 then 1 else 0] @ rest"
  have item: "list2_item x @ rest = n16 (length (list2_entry x)) @ word_of_nat (length (ss_name x)) # ss_name x @ q"
    by (simp add: list2_item_def list2_entry_def list_entry_def f q_def)
  have elen: "unat (get_u16 (n16 (length (list2_entry x)) @ bs)) = length (ss_name x) + 17" for bs
    using assms(1) get_n16 [of "length (list2_entry x)" bs] by (simp add: length_list2)
  have eb: "entry_bounds True ?p ?o = Some (?o + 2, ?o + 2 + (length (ss_name x) + 17))"
    using elen by (simp add: entry_bounds_def item Let_def) (simp add: q_def)
  have n0: "unat (?p ! (?o + 2)) = length (ss_name x)" using assms(1) by (simp add: item nth_append unat_of_nat)
  have nm: "take (length (ss_name x)) (drop (?o + 3) ?p) = ss_name x" and qq: "drop (?o + 3 + length (ss_name x)) ?p = q"
    by (simp_all add: item)
  have t: "?p ! (?o + 3 + length (ss_name x) + 14) = q ! 14" "?p ! (?o + 3 + length (ss_name x) + 14 + 1) = q ! 15"
  proof -
    have k: "?o + 3 + length (ss_name x) \<le> length ?p" by (simp add: length_list2)
    show "?p ! (?o + 3 + length (ss_name x) + 14) = q ! 14" using nth_drop [OF k, of 14] qq by simp
    have "?o + 3 + length (ss_name x) + 14 + 1 = ?o + 3 + length (ss_name x) + 15" by simp
    then show "?p ! (?o + 3 + length (ss_name x) + 14 + 1) = q ! 15" using nth_drop [OF k, of 15] qq by metis
  qed
  have q: "unat (get_u16 q) = view_cols x" "unat (get_u16 (drop 2 q)) = session.view_rows x" "q ! 4 = al" "q ! 5 = word_of_nat (client_count x)"
     "sint (get_u32 (drop 6 q)) = sint (word_of_int pid :: u32)" "sint (get_u32 (drop 10 q)) = sint (word_of_int ex :: u32)"
     "q ! 14 = word_of_nat (length (live_panes x))" "q ! 15 = (if zoomed_id x \<noteq> 255 then 1 else 0)"
    using assms(2,3) by (simp_all add: q_def n16_def n32_def nth_append unat_of_nat)
  have lt: "?o < length ?p" using length_list2(2) [of x] by simp
  have o: "?o + 2 + 1 = ?o + 3" "?o + 2 + (length (ss_name x) + 17) = length (pre @ list2_item x)" by (simp_all add: length_list2)
  show ?thesis using lt unfolding ls_entries.simps eb option.case prod.case Let_def n0 o nm qq q t
    by (simp add: shown_entry_def f length_list2)
qed

lemma ls_entries_items:
  assumes "\<forall>x\<in>set xs. length (ss_name x) \<le> 63 \<and> view_cols x < 65536 \<and> session.view_rows x < 65536"
  shows "ls_entries True (length xs) (pre @ concat (map list2_item xs)) (length pre) = map shown_entry xs"
  using assms
proof (induction xs arbitrary: pre)
  case (Cons x xs)
  have "ls_entries True (length (x # xs)) (pre @ concat (map list2_item (x # xs))) (length pre) =
      shown_entry x # ls_entries True (length xs) (pre @ list2_item x @ concat (map list2_item xs)) (length (pre @ list2_item x))"
    using ls_entries_step [of x "length xs" pre "concat (map list2_item xs)"] Cons.prems by simp
  then show ?case using Cons.IH [of "pre @ list2_item x"] Cons.prems by simp
qed simp

text \<open>Claim C12. What the daemon answers to a request for the session list is what \<open>agent-terminal ls\<close>
  prints: one line for every session in use, in the order of the table, with its name, size, process,
  clients, panes and zoom; none is cut off for lack of room.\<close>

theorem ls_shows_sessions:
  assumes "tree_ok d" "\<forall>x\<in>set (used_sessions d). length (ss_name x) \<le> SESSION_NAME_MAX" "daemon_panes h"
  shows "cmd_ls (Some (h, True, encode_frame (0x37, encode_session_list2 d SESSION_LIST2_MAX) @ rest)) =
    (0, (if used_sessions d = [] then ascii ''no sessions'' @ [0x0a] else []) @ concat (map (\<lambda>x. ls_line (shown_entry x)) (used_sessions d)))"
proof -
  let ?xs = "used_sessions d"
  have x: "length (ss_name x) \<le> 63 \<and> view_cols x < 65536 \<and> session.view_rows x < 65536" if "x \<in> set ?xs" for x
  proof -
    obtain s where "s < MAX_SESSIONS" "ss_use (sess d s)" "x = sess d s" using \<open>x \<in> set ?xs\<close> by (auto simp: used_sessions_def)
    then have "sess_ok x" using assms(1) by (simp add: tree_ok_def)
    then show ?thesis using assms(2) that by (auto simp: sess_ok_def sess_but_def SESSION_NAME_MAX_def)
  qed
  have n: "length ?xs \<le> 64" unfolding used_sessions_def using length_filter_le [of ss_use "map (sess d) [0..<MAX_SESSIONS]"] by (simp add: MAX_SESSIONS_def)
  have "sum_list (map length (map list2_item xs)) \<le> 82 * length xs" if "\<forall>x\<in>set xs. length (ss_name x) \<le> 63" for xs
    using that by (induction xs) (auto simp: length_list2)
  then have "sum_list (map length (map list2_item ?xs)) \<le> 82 * length ?xs" using x by blast
  then have sz: "2 + sum_list (map length (map list2_item ?xs)) \<le> SESSION_LIST2_MAX" using n by (simp add: SESSION_LIST2_MAX_def MAX_SESSIONS_def SESSION_NAME_MAX_def)
  have enc: "encode_session_list2 d SESSION_LIST2_MAX = n16 (length ?xs) @ concat (map list2_item ?xs)"
    unfolding encode_session_list2_def counted_def fit_all [OF sz] by simp
  have len: "length (encode_session_list2 d SESSION_LIST2_MAX) \<le> PROTO_MAX_PAYLOAD"
    using sz unfolding enc by (simp add: length_concat SESSION_LIST2_MAX_def MAX_SESSIONS_def SESSION_NAME_MAX_def)
  have cnt: "unat (get_u16 (n16 (length ?xs) @ bs)) = length ?xs" for bs using n by (simp add: n16_def unat_of_nat)
  have es: "ls_entries True (length ?xs) (n16 (length ?xs) @ concat (map list2_item ?xs)) 2 = map shown_entry ?xs"
    using ls_entries_items [of ?xs "n16 (length ?xs)"] x by simp
  show ?thesis unfolding cmd_ls_def ls_output_def using assms(3) read_reply_frame [OF len, where t = "0x37" and rest = rest]
    by (simp add: enc cnt es Let_def comp_def)
qed

theorem ls_shows_sessions_witness:
  "let h = \<lparr>daemon_pid = 1, daemon_gen = 0, daemon_panes = True\<rparr> in
   tree_ok one_session \<and> used_sessions one_session \<noteq> [] \<and>
   cmd_ls (Some (h, True, encode_frame (0x37, encode_session_list2 one_session SESSION_LIST2_MAX) @ [])) =
     (0, ascii ''a: 2x1, pid 42, 0 clients'' @ [0x0a])"
proof -
  let ?h = "\<lparr>daemon_pid = 1, daemon_gen = 0, daemon_panes = True\<rparr>" and ?x = "sess one_session 0"
  have u: "used_sessions one_session = [?x]"
    by (simp add: used_sessions_def one_session_def MAX_SESSIONS_def upt_rec zero_session_def)
  have "session_active_pane ?x = Some 0"
    by (simp add: one_session_def session_active_pane_def session_pane_by_id_def MAX_SESSIONS_def MAX_PANES_PER_SESSION_def upt_rec zero_session_def zero_pane_def)
  then have "shown_entry ?x = \<lparr>le_name = ascii ''a'', le_cols = 2, le_rows = 1, le_alive = 1, le_ncli = 0, le_pid = 42, le_status = 0, le_npanes = 1, le_zoomed = 1\<rparr>"
    unfolding shown_entry_def active_fields_def client_count_def one_session_facts(3)
    by (simp add: one_session_def MAX_SESSIONS_def MAX_PANES_PER_SESSION_def zero_session_def zero_pane_def Let_def)
  moreover have "ls_line \<lparr>le_name = ascii ''a'', le_cols = 2, le_rows = 1, le_alive = 1, le_ncli = 0, le_pid = 42, le_status = 0, le_npanes = 1, le_zoomed = 1\<rparr> =
      ascii ''a: 2x1, pid 42, 0 clients'' @ [0x0a]" by code_simp
  moreover have "\<forall>x\<in>set (used_sessions one_session). length (ss_name x) \<le> SESSION_NAME_MAX"
    unfolding u by (simp add: one_session_def ascii_def MAX_SESSIONS_def SESSION_NAME_MAX_def)
  ultimately show ?thesis unfolding Let_def using u one_session_facts(1) ls_shows_sessions [OF one_session_facts(1), of ?h "[]"] by simp
qed

text \<open>The arguments packed by the client and unpacked by the daemon.\<close>

lemma split_pack:
  "pack_args room argv = Some bs \<Longrightarrow> \<forall>x\<in>set argv. 0 \<notin> set x \<Longrightarrow> split_args n bs = take n argv \<and> length bs \<le> room \<and> (bs = [] \<longleftrightarrow> argv = [])"
proof (induction argv arbitrary: room bs n)
  case (Cons x argv)
  obtain cs where cs: "pack_args (room - (length x + 1)) argv = Some cs" "bs = x @ [0] @ cs" "length x + 1 \<le> room"
    using Cons.prems(1) by (auto split: if_splits option.splits)
  have c: "cstr (x @ 0 # cs) = x" using Cons.prems(2) by (simp add: cstr_def) (subst takeWhile_append2, auto)
  have IH: "split_args m cs = take m argv" "length cs \<le> room - (length x + 1)" for m using Cons.IH [OF cs(1)] Cons.prems(2) by auto
  show ?case using IH cs(2,3) c by (cases n) auto
next
  case (Nil room bs n)
  then show ?case by (cases n) auto
qed



end
