(* ===== verification/Startup.thy ===== *)
theory Startup
  imports Restart
begin

unbundle bit_operations_syntax

text \<open>
  The daemon from its start to its end: \<open>src/daemon/main.c\<close>, \<open>server_init\<close> in \<open>src/daemon/server.c\<close>
  and the loop of \<open>src/daemon/loop.c\<close>. Starting is a function of what the system calls say: \<open>boot\<close>
  has the outcomes of taking the lock and of the socket calls. Serving is a list of rounds of the
  event loop, each with the events \<open>poll\<close> reported; resource limits, daemonising, log lines and the
  installation of signal handlers are left out.
\<close>

section \<open>Arguments\<close>

record daemon_args =
  foreground :: bool
  verbose :: bool
  state_path :: "byte list option"

datatype invocation = Run daemon_args | Print_Version | Bad_Usage

fun parse_args :: "daemon_args \<Rightarrow> byte list list \<Rightarrow> invocation" where
  "parse_args a [] = Run a"
| "parse_args a (x # xs) =
    (if x = ascii ''-f'' \<or> x = ascii ''--foreground'' then parse_args (a\<lparr>foreground := True\<rparr>) xs
     else if x = ascii ''-v'' then parse_args (a\<lparr>verbose := True\<rparr>) xs
     else if x = ascii ''--handoff'' \<and> xs \<noteq> [] then parse_args (a\<lparr>state_path := Some (hd xs)\<rparr>) (tl xs)
     else if x = ascii ''--version'' then Print_Version
     else Bad_Usage)"

section \<open>Listening\<close>

record boot =
  acquired :: "errno + int"
  other_pid :: nat
  is_listener :: "int \<Rightarrow> bool"
  new_socket :: "errno + int"
  path_fits :: bool
  answers :: bool
  binds :: "errno option"

text \<open>\<open>is_listener\<close>: the descriptor is a listening socket bound to the path. \<open>answers\<close>: something accepts
  a connection there. \<open>binds\<close>: how \<open>bind\<close> and \<open>listen\<close> end. The name in the file system is not modelled,
  so neither is its removal.\<close>

definition inherited_listener_ok :: "boot \<Rightarrow> int \<Rightarrow> bool" where
  "inherited_listener_ok b fd \<longleftrightarrow> \<not> fd \<le> 2 \<and> is_listener b fd"

definition listen_on :: "process \<Rightarrow> int \<Rightarrow> errno option \<times> process" where
  "listen_on pr fd =
    (let pr = pr\<lparr>cloexec := (cloexec pr)(fd := True)\<rparr> in
     case d_add_fd (pr_daemon pr) fd POLLIN OwnListener of
       (False, d) \<Rightarrow> (Some ENOSPC, pr\<lparr>pr_daemon := close_fd d fd\<rparr>)
     | (True, d) \<Rightarrow> (None, pr\<lparr>pr_daemon := session_changes_seed (d\<lparr>listen_fd := fd\<rparr>)\<rparr>))"

definition server_init :: "boot \<Rightarrow> process \<Rightarrow> int \<Rightarrow> errno option \<times> process" where
  "server_init b pr inherited =
    (if inherited \<ge> 0 \<and> inherited_listener_ok b inherited then listen_on pr inherited
     else let pr = (if inherited \<ge> 0 then pr\<lparr>pr_daemon := close_fd (pr_daemon pr) inherited\<rparr> else pr)
          in case new_socket b of Inl e \<Rightarrow> (Some e, pr)
           | Inr fd \<Rightarrow> let closed = pr\<lparr>pr_daemon := close_fd (pr_daemon pr) fd\<rparr> in
              if \<not> path_fits b then (Some ENAMETOOLONG, closed)
              else if answers b then (Some EADDRINUSE, closed)
              else (case binds b of Some e \<Rightarrow> (Some e, closed) | None \<Rightarrow> listen_on pr fd))"

section \<open>Starting\<close>

datatype death = Already_Running "nat option" | Cannot_Lock errno | Socket_In_Use | Cannot_Listen errno

datatype started = Dies death | Serves nat process

definition startup :: "boot \<Rightarrow> (int \<Rightarrow> bool) \<Rightarrow> (int \<Rightarrow> bool) \<Rightarrow> (int \<Rightarrow> bool) \<Rightarrow> daemon_args \<Rightarrow> process \<Rightarrow> started" where
  "startup b fcntl_ok tty lock_ok a pr =
    (let (restored, lfd, kfd, pr) = (case state_path a of None \<Rightarrow> (0, - 1, - 1, pr)
           | Some _ \<Rightarrow> (case handoff_import fcntl_ok tty lock_ok pr of (r, l, k, pr) \<Rightarrow> (case r of None \<Rightarrow> 0 | Some n \<Rightarrow> n, l, k, pr)));
         lock = (if kfd < 0 then acquired b else Inr kfd)
     in case lock of
          Inl e \<Rightarrow> Dies (if e = EADDRINUSE then Already_Running (if other_pid b \<noteq> 0 then Some (other_pid b) else None) else Cannot_Lock e)
        | Inr fd \<Rightarrow> (case server_init b (pr\<lparr>g_lock_fd := fd\<rparr>) lfd of
            (None, pr) \<Rightarrow> Serves restored pr
          | (Some e, pr) \<Rightarrow> Dies (if e = EADDRINUSE then Socket_In_Use else Cannot_Listen e)))"

section \<open>Serving\<close>

datatype signal = SIGCHLD "(int \<times> wait_status) list" | SIGTERM | SIGINT | SIGHUP | Other_Signal

text \<open>The second component is \<open>g_running\<close>; \<open>reload\<close> is \<open>g_requested\<close> of \<open>handoff.c\<close>.\<close>

fun sigpipe_readable :: "daemon \<times> bool \<Rightarrow> signal list \<Rightarrow> daemon \<times> bool" where
  "sigpipe_readable (d, g) [] = (d, g)"
| "sigpipe_readable (d, g) (s # ss) = sigpipe_readable
     (case s of SIGCHLD ws \<Rightarrow> (session_reap_children d ws, g) | SIGTERM \<Rightarrow> (d, False) | SIGINT \<Rightarrow> (d, False)
      | SIGHUP \<Rightarrow> (d\<lparr>reload := True\<rparr>, False) | Other_Signal \<Rightarrow> (d, g)) ss"

datatype main_event = Event daemon_event | Signals "signal list"

text \<open>A client's reload request also stops the loop.\<close>

definition main_step :: "daemon \<times> bool \<Rightarrow> main_event \<Rightarrow> daemon \<times> bool" where
  "main_step x e = (case e of Signals ss \<Rightarrow> sigpipe_readable x ss
     | Event ev \<Rightarrow> let d = daemon_step (fst x) ev in (d, snd x \<and> (reload d \<longrightarrow> reload (fst x))))"

text \<open>Rounds until the loop is told to stop: whether it was, and the rounds that are left. A round is
  finished even when it was told in its middle. A \<open>poll\<close> that fails for another reason than a signal
  ends the process and is not an event.\<close>

fun loop_run :: "daemon \<Rightarrow> main_event list list \<Rightarrow> bool \<times> daemon \<times> main_event list list" where
  "loop_run d [] = (False, d, [])"
| "loop_run d (es # ess) = (case foldl main_step (d, True) es of (d, g) \<Rightarrow> if g then loop_run d ess else (True, d, ess))"

record exec_calls =
  ex_fcntl :: "int \<Rightarrow> bool"
  ex_open :: bool
  ex_write :: bool
  ex_exec :: bool

datatype ending = Serving process | Stopped process | Reexec process

text \<open>\<open>xs\<close> has the outcomes of the restarts that are tried; \<open>fuel\<close> bounds the rounds in which typed
  input is drained before each of them (a round without progress ends when the 200 ms are over).\<close>

definition stop :: "process \<Rightarrow> process" where
  "stop pr = pr\<lparr>pr_daemon := server_shutdown (session_flush_screens_all (pr_daemon pr))\<rparr>"

fun serve :: "nat \<Rightarrow> exec_calls list \<Rightarrow> process \<Rightarrow> main_event list list \<Rightarrow> ending option" where
  "serve fuel xs pr ess = (case loop_run (pr_daemon pr) ess of
     (False, d, _) \<Rightarrow> Some (Serving (pr\<lparr>pr_daemon := d\<rparr>))
   | (True, d, rest) \<Rightarrow>
      if \<not> reload d then Some (Stopped (stop (pr\<lparr>pr_daemon := d\<rparr>)))
      else (case session_stdin_drain_all fuel (d\<lparr>reload := False\<rparr>) 200 of None \<Rightarrow> None
        | Some d \<Rightarrow> (case xs of [] \<Rightarrow> Some (Serving (pr\<lparr>pr_daemon := d\<rparr>))
          | x # xs \<Rightarrow> (case handoff_exec (ex_fcntl x) (ex_open x) (ex_write x) (ex_exec x) (pr\<lparr>pr_daemon := d\<rparr>) of
              Replaced pr \<Rightarrow> Some (Reexec pr) | Returned pr \<Rightarrow> serve fuel xs pr rest))))"

section \<open>The life of a daemon\<close>

text \<open>What every event, signal, drain and failed restart keeps.\<close>

definition sound :: "daemon \<Rightarrow> bool" where
  "sound d \<longleftrightarrow> tree_ok d \<and> att_ok d"

lemma sound_view: "core d' = core d \<Longrightarrow> att_view d' = att_view d \<Longrightarrow> sound d \<Longrightarrow> sound d'"
  unfolding sound_def using tree_ok_core att_view_ok by blast

lemma sound_flag: "sound (d\<lparr>reload := b\<rparr>) = sound d"
proof -
  have "core (d\<lparr>reload := b\<rparr>) = core d" "att_view (d\<lparr>reload := b\<rparr>) = att_view d" by (simp_all add: core_def att_view_def)
  then show ?thesis using sound_view [of "d\<lparr>reload := b\<rparr>" d] sound_view [of d "d\<lparr>reload := b\<rparr>"] by auto
qed

lemma sound_signals: "sound d \<Longrightarrow> sound (fst (sigpipe_readable (d, g) ss))"
proof (induction ss arbitrary: d g)
  case (Cons s ss)
  have "sound (session_reap_children d ws)" for ws using tree_step [of d "Children ws"] Cons.prems by (simp add: sound_def)
  then show ?case using Cons by (cases s) (simp_all add: sound_flag)
qed simp

lemma sound_main_step: "sound (fst x) \<Longrightarrow> sound (fst (main_step x e))"
  using sound_signals [of "fst x" "snd x"] tree_step [of "fst x"] by (cases e) (simp_all add: main_step_def Let_def sound_def)

interpretation main_loop: inv_machine main_step "\<lambda>x. sound (fst x)"
  by unfold_locales (rule sound_main_step)

lemma sound_loop: "sound d \<Longrightarrow> loop_run d ess = (q, d', rest) \<Longrightarrow> sound d'"
proof (induction ess arbitrary: d)
  case (Cons es ess)
  have "sound (fst (foldl main_step (d, True) es))" using main_loop.run_inv [of "(d, True)" es] Cons.prems(1) by simp
  then show ?case using Cons by (auto split: prod.splits if_splits)
qed simp

lemma sound_drain: "sound d \<Longrightarrow> session_stdin_drain_all fuel d ms = Some d' \<Longrightarrow> sound d'"
proof -
  have c: "core (drain_round d) = core d" for d unfolding drain_round_def all_panes_def by (intro core_foldl) (simp add: core_foldl)
  have v: "att_view (drain_round d) = att_view d" for d
    unfolding drain_round_def all_panes_def by (intro view_foldl) (simp add: view_foldl)
  have r: "sound (drain_round d)" if "sound d" for d using sound_view [OF c v that] .
  have n: "sound (snd (now_ms d))" if "sound d" for d
  proof -
    have "core (snd (now_ms d)) = core d" using core_sys(1) surjective_pairing by blast
    moreover have "att_view (snd (now_ms d)) = att_view d" by (simp add: now_ms_def att_view_def split: list.split)
    ultimately show ?thesis using sound_view that by blast
  qed
  have "sound d'" if "sound d" "drain_rounds fuel dl d = Some d'" for d dl
    using that
  proof (induction fuel arbitrary: d)
    case (Suc fuel)
    show ?case using Suc.prems(2) Suc.IH [OF n [OF r [OF Suc.prems(1)]]] r [OF Suc.prems(1)] n [OF r [OF Suc.prems(1)]]
      by (auto simp: Let_def case_prod_unfold split: if_splits)
  qed simp
  then show "sound d \<Longrightarrow> session_stdin_drain_all fuel d ms = Some d' \<Longrightarrow> sound d'"
    using n by (auto simp: session_stdin_drain_all_def Let_def case_prod_unfold)
qed

lemma sound_departed: "sound d \<Longrightarrow> sound (departed d)"
proof -
  assume s: "sound d"
  have "att_ok (foldl (\<lambda>d c. if cl_use (cli d c) then client_disconnect d c else d) e cs)" if "att_ok e" "set cs \<subseteq> {..<MAX_CLIENTS}" for e cs
    using that by (induction cs arbitrary: e) (auto simp: att_disconnect_ok)
  moreover have "att_ok (session_flush_all d)" using s att_view_ok [OF view_flush_all] by (simp add: sound_def)
  ultimately have "att_ok (departed d)" unfolding departed_def disconnect_all_def by (simp add: lessThan_atLeast0)
  then show ?thesis using s tree_ok_core [OF core_departed] by (simp add: sound_def)
qed

section \<open>Serving across a restart\<close>

lemma exec_lock:
  "case handoff_exec ok o' w e pr of Replaced pr' \<Rightarrow> g_lock_fd pr' = g_lock_fd pr | Returned pr' \<Rightarrow> g_lock_fd pr' = g_lock_fd pr"
proof -
  have a: "g_lock_fd (snd (set_cloexec ok on q n)) = g_lock_fd q" for on q n by (simp add: set_cloexec_def)
  have "g_lock_fd (set_all ok on q l) = g_lock_fd q" for on q l by (induction l arbitrary: q) (simp_all add: set_all_def a)
  then show ?thesis by (simp add: handoff_exec_def Let_def case_prod_unfold a)
qed

text \<open>A process that is replaced was in a sound state when it wrote its file.\<close>

lemma serve_exports:
  assumes "sound (pr_daemon pr)" "serve fuel xs pr ess = Some (Reexec pr1)"
  shows "\<exists>q x. x \<in> set xs \<and> sound (pr_daemon q) \<and> g_lock_fd q = g_lock_fd pr \<and>
    handoff_exec (ex_fcntl x) (ex_open x) (ex_write x) (ex_exec x) q = Replaced pr1"
  using assms
proof (induction xs arbitrary: pr ess)
  case Nil
  then show ?case by (auto simp: serve.simps [of fuel "[]"] split: prod.splits bool.splits if_splits option.splits simp del: serve.simps)
next
  case (Cons x xs)
  note run = Cons.prems(2) [unfolded serve.simps [of fuel "x # xs"]]
  obtain g d rest where l: "loop_run (pr_daemon pr) ess = (g, d, rest)" by (cases "loop_run (pr_daemon pr) ess")
  have g: "g" "reload d" using run unfolding l by (auto split: bool.splits if_splits)
  obtain d' where d': "session_stdin_drain_all fuel (d\<lparr>reload := False\<rparr>) 200 = Some d'" using run g unfolding l by (auto split: option.splits)
  let ?q = "pr\<lparr>pr_daemon := d'\<rparr>"
  have s: "sound (pr_daemon ?q)" using sound_drain [OF _ d'] sound_loop [OF Cons.prems(1) l] by (simp add: sound_flag)
  show ?case
  proof (cases "handoff_exec (ex_fcntl x) (ex_open x) (ex_write x) (ex_exec x) ?q")
    case (Replaced q)
    then have "q = pr1" using run g d' unfolding l by (simp del: serve.simps)
    then show ?thesis using s Replaced by (intro exI [of _ ?q] exI [of _ x]) simp
  next
    case (Returned q)
    have "serve fuel xs q rest = Some (Reexec pr1)" using run g d' Returned unfolding l by (simp del: serve.simps)
    moreover have "sound (pr_daemon q)" "g_lock_fd q = g_lock_fd pr"
      using handoff_exec_cases [where ok = "ex_fcntl x" and o' = "ex_open x" and w = "ex_write x" and e = "ex_exec x" and pr = ?q]
        exec_lock [where ok = "ex_fcntl x" and o' = "ex_open x" and w = "ex_write x" and e = "ex_exec x" and pr = ?q] sound_departed [OF s] Returned by simp_all
    ultimately show ?thesis using Cons.IH [of q rest] by (auto simp del: serve.simps)
  qed
qed

lemma listen_on_room:
  assumes "length (fds (pr_daemon pr)) < LOOP_MAX_FDS" "fd \<notin> set (map pfd (fds (pr_daemon pr)))" "sound (pr_daemon pr)"
  shows "\<exists>pr'. listen_on pr fd = (None, pr') \<and> sound (pr_daemon pr') \<and> sessions (pr_daemon pr') = sessions (pr_daemon pr) \<and> listen_fd (pr_daemon pr') = fd \<and>
    map pfd (fds (pr_daemon pr')) = map pfd (fds (pr_daemon pr)) @ [fd] \<and> g_lock_fd pr' = g_lock_fd pr \<and> state_file pr' = state_file pr"
proof -
  define e where "e = session_changes_seed ((pr_daemon pr)\<lparr>fds := snd (loop_add_fd (fds (pr_daemon pr)) fd POLLIN OwnListener), listen_fd := fd\<rparr>)"
  note room = loop_add_room [OF assms(2,1), of POLLIN OwnListener]
  have run: "listen_on pr fd = (None, pr\<lparr>cloexec := (cloexec pr)(fd := True), pr_daemon := e\<rparr>)"
    using room(1) by (simp add: listen_on_def d_add_fd_def Let_def case_prod_unfold e_def)
  have "sound e" by (rule sound_view [OF _ _ assms(3)]) (simp_all add: e_def session_changes_seed_def core_def att_view_def)
  moreover have "sessions e = sessions (pr_daemon pr)" "listen_fd e = fd" "map pfd (fds e) = map pfd (fds (pr_daemon pr)) @ [fd]"
    using room(2) by (simp_all add: e_def session_changes_seed_def)
  ultimately show ?thesis unfolding run by simp
qed

text \<open>What was asked of the sessions in the state that was left holds of the state they were written from.\<close>

lemma departed_alike:
  assumes "tree_ok d"
  shows "used (departed d) = used d" "s \<in> set (used d) \<Longrightarrow> transferable_session tty (sess (departed d) s) = transferable_session tty (sess d s)"
    "s \<in> set (used d) \<Longrightarrow> ss_name (sess (departed d) s) = ss_name (sess d s)" "s \<in> set (used d) \<Longrightarrow> pane_fds (sess (departed d) s) = pane_fds (sess d s)"
    "s \<in> set (used d) \<Longrightarrow> carried (sess (departed d) s) y = carried (sess d s) y" "listen_fd (departed d) = listen_fd d"
proof -
  have c: "sess_children (sess (departed d) s) = sess_children (sess d s)" if "s < MAX_SESSIONS" for s by (rule departed_session(1) [OF assms that])
  have "ss_use (sess (departed d) s) = ss_use (sess d s)" if "s < MAX_SESSIONS" for s using c [OF that] by (simp add: sess_children_def)
  then show "used (departed d) = used d" unfolding used_def by (intro filter_cong) simp_all
  show "listen_fd (departed d) = listen_fd d" using quiet_departed(2) [of d] by (simp add: quiet_def)
  assume "s \<in> set (used d)"
  then have s: "s < MAX_SESSIONS" and ok: "sess_ok (sess d s)" using assms by (auto simp: used_def tree_ok_def)
  note w = written_alike [OF departed_session(1,2) [OF assms s] ok]
  show "ss_name (sess (departed d) s) = ss_name (sess d s)" "pane_fds (sess (departed d) s) = pane_fds (sess d s)"
    "carried (sess (departed d) s) y = carried (sess d s) y" by (rule w)+
  have "pn_fd (ss_panes (sess (departed d) s) ! j) = pn_fd (ss_panes (sess d s) ! j)" "transferable (ss_panes (sess (departed d) s) ! j) = transferable (ss_panes (sess d s) ! j)"
    if "j \<in> set (live_panes (sess d s))" for j
    using children_pane [OF c [OF s], of j] sess_okD(1) [OF ok] that by (auto simp: in_live transferable_def)
  then show "transferable_session tty (sess (departed d) s) = transferable_session tty (sess d s)" by (auto simp: transferable_session_def w)
qed

text \<open>The file read back, in terms of the state that was left.\<close>

lemma reload_restores_left:
  fixes q pr1 :: process
  defines "d \<equiv> pr_daemon pr1"
  assumes "tree_ok (pr_daemon q)" and x: "handoff_exec ok o' w e q = Replaced pr1"
    and "\<forall>s\<in>set (used d). transferable_session tty (sess d s)" "distinct (map (\<lambda>s. ss_name (sess d s)) (used d))"
    and "listen_fd d \<in> {0..<2147483648}" "ok (listen_fd d)" "g_lock_fd q \<in> {0..<2147483648}" "lock_ok (g_lock_fd q)"
    and "cold_start d1" "allocs d1 = []" "distinct (map pfd (fds d1) @ concat (map (\<lambda>s. pane_fds (sess d s)) (used d)))"
    and "length (map pfd (fds d1) @ concat (map (\<lambda>s. pane_fds (sess d s)) (used d))) \<le> LOOP_MAX_FDS"
  obtains pr2 where "handoff_import fcntl_ok tty lock_ok (pr1\<lparr>pr_daemon := d1\<rparr>) = (Some (length (used d)), listen_fd d, g_lock_fd q, pr2)"
    "state_file pr2 = None" "\<forall>i<length (used d). carried (sess d (used d ! i)) (sess (pr_daemon pr2) i)"
    "\<forall>i<MAX_SESSIONS. length (used d) \<le> i \<longrightarrow> \<not> ss_use (sess (pr_daemon pr2) i)"
    "map pfd (fds (pr_daemon pr2)) = map pfd (fds d1) @ concat (map (\<lambda>s. pane_fds (sess d s)) (used d))" "sound (pr_daemon pr2)"
proof -
  let ?q = "pr_daemon q"
  note t = assms(2)
  have d: "d = departed ?q" using handoff_exec_cases [where ok = ok and o' = o' and w = w and e = e and pr = q] unfolding x d_def by simp
  note al = departed_alike [OF t, folded d]
  have mp: "map (\<lambda>s. pane_fds (sess d s)) (used d) = map (\<lambda>s. pane_fds (sess ?q s)) (used ?q)" "map (\<lambda>s. ss_name (sess d s)) (used d) = map (\<lambda>s. ss_name (sess ?q s)) (used ?q)"
    using al by simp_all
  have c: "\<forall>s\<in>set (used ?q). transferable_session tty (sess ?q s)" using assms(4) al(1,2) by simp
  have nm: "distinct (map (\<lambda>s. ss_name (sess ?q s)) (used ?q))" using assms(5) unfolding mp(2) .
  have l: "listen_fd ?q < 2147483648" "g_lock_fd q \<in> {- 1..<2147483648}" using assms(6,8) al(6) by auto
  obtain pr2 where im: "handoff_import fcntl_ok tty lock_ok (pr1\<lparr>pr_daemon := d1\<rparr>) = (Some (length (used ?q)),
        if 0 \<le> listen_fd ?q \<and> ok (listen_fd ?q) then listen_fd ?q else - 1, if 0 \<le> g_lock_fd q \<and> lock_ok (g_lock_fd q) then g_lock_fd q else - 1, pr2)"
      "state_file pr2 = None" "\<forall>i<length (used ?q). carried (sess ?q (used ?q ! i)) (sess (pr_daemon pr2) i)"
      "\<forall>i<MAX_SESSIONS. length (used d) \<le> i \<longrightarrow> \<not> ss_use (sess (pr_daemon pr2) i)"
      "map pfd (fds (pr_daemon pr2)) = map pfd (fds d1) @ concat (map (\<lambda>s. pane_fds (sess d s)) (used d))" "sound (pr_daemon pr2)"
    using reload_restores [OF t c nm l x assms(10,11) assms(12,13) [unfolded mp(1)], of fcntl_ok lock_ok] unfolding al(1) mp(1) [unfolded al(1)] sound_def by blast
  have i1: "handoff_import fcntl_ok tty lock_ok (pr1\<lparr>pr_daemon := d1\<rparr>) = (Some (length (used d)), listen_fd d, g_lock_fd q, pr2)"
    unfolding im(1) using assms(6-9) al(1,6) by simp
  have "\<forall>i<length (used d). carried (sess d (used d ! i)) (sess (pr_daemon pr2) i)" using im(3) al(1) al(5) [OF nth_mem] by simp
  then show thesis using that i1 im(2,4-6) by blast
qed


lemma drain_nothing:
  assumes "\<And>s j. s < MAX_SESSIONS \<Longrightarrow> j < MAX_PANES_PER_SESSION \<Longrightarrow> stdin_len (pane_at d s j) = 0" "clock d = []"
    and "\<And>s. s < MAX_SESSIONS \<Longrightarrow> length (ss_panes (sess d s)) = MAX_PANES_PER_SESSION"
  shows "session_stdin_drain_all (Suc n) d ms = Some d"
proof -
  have same: "foldl f d ks = d" if "\<And>k. k \<in> set ks \<Longrightarrow> f d k = d" for f and ks :: "nat list" using that by (induction ks) simp_all
  have st: "drain_round d = d" unfolding drain_round_def all_panes_def by (rule same, simp only: if_not_P if_P split: if_split)
      (auto intro!: same simp: assms(1))
  have "p \<in> set (ss_panes (sess d s)) \<Longrightarrow> stdin_len p = 0" if "s < MAX_SESSIONS" for s p using assms(1,3) that by (auto simp: in_set_conv_nth)
  then have "staged_left d = 0" by (auto simp: staged_left_def)
  then show ?thesis using st assms(2) by (simp add: session_stdin_drain_all_def now_ms_def)
qed

lemma one_session_serves:
  assumes "pr = \<lparr>pr_daemon = one_session, cloexec = (\<lambda>_. True), state_file = None, g_lock_fd = 5\<rparr>"
  shows "sound one_session" "\<exists>pr1. serve 1 [\<lparr>ex_fcntl = (\<lambda>_. True), ex_open = True, ex_write = True, ex_exec = True\<rparr>] pr [[Signals [SIGHUP]]] = Some (Reexec pr1) \<and>
    pr_daemon pr1 = departed one_session"
proof -
  have x: "ss_clients (sess one_session s) = replicate MAX_CLIENTS_PER_SESSION None" "length (ss_panes (sess one_session s)) = MAX_PANES_PER_SESSION"
      if "s < MAX_SESSIONS" for s
    using that by (cases "s = 0"; simp add: one_session_def; simp add: zero_session_def)+
  have l: "length (sessions one_session) = MAX_SESSIONS" "clients one_session = replicate MAX_CLIENTS zero_client" by (simp_all add: one_session_def blank_daemon_def)
  have "att_ok one_session" by (rule att_butI) (use x l in \<open>auto simp: tables_ok_def zero_client_def in_set_conv_nth\<close>)
  then show "sound one_session" using one_session_facts(1) by (simp add: sound_def)
  have r: "(one_session\<lparr>reload := True\<rparr>)\<lparr>reload := False\<rparr> = one_session" by (simp add: one_session_def blank_daemon_def)
  have z: "stdin_len (pane_at one_session s j) = 0" if "s < MAX_SESSIONS" "j < MAX_PANES_PER_SESSION" for s j
    using that by (cases "s = 0"; cases "j = 0"; simp add: one_session_def; simp add: zero_session_def zero_pane_def)
  have "session_stdin_drain_all (Suc 0) one_session 200 = Some one_session"
    by (rule drain_nothing) (simp_all add: z x(2), simp add: one_session_def blank_daemon_def)
  then show "\<exists>pr1. serve 1 [\<lparr>ex_fcntl = (\<lambda>_. True), ex_open = True, ex_write = True, ex_exec = True\<rparr>] pr [[Signals [SIGHUP]]] = Some (Reexec pr1) \<and>
    pr_daemon pr1 = departed one_session"
    using handoff_exec_cases [where ok = "\<lambda>_. True" and o' = True and w = True and e = True and pr = pr]
    by (auto simp: assms main_step_def serve.simps [of "Suc 0"] r split: exec_outcome.splits simp del: serve.simps)
qed


end
