(* ===== verification/Spec2Isabelle.thy ===== *)
theory Spec2Isabelle
  imports Width Stdin Lockfile Pump_Facts Cli Startup
begin

text \<open>
  \<^bold>\<open>Verification of agent-terminal.\<close> The program keeps terminal sessions alive in a daemon
  (\<open>agent-terminald\<close>) to which clients (\<open>agent-terminal\<close>) attach over a Unix socket. The daemon runs
  each pane's child on a pseudo-terminal, interprets its output with a terminal engine, keeps the
  scrolled-off lines, draws frames for sessions with several panes, and can replace its own
  executable without losing the children. The C code under \<open>src/src/\<close> is modelled function by
  function; the path names below are relative to it.

  \<^bold>\<open>How C is rendered.\<close> Bytes and 16, 32 and 64 bit integers are words; \<open>size_t\<close> lengths, line counts
  and file sizes are natural numbers, bounded by memory; descriptors and pids are integers, \<open>- 1\<close>
  included. Structs are records, enums datatypes. Pointers into static tables are indices. Buffers are
  lists, and every access that C leaves undefined sets the ghost flag \<open>ub\<close> of the screen. Error
  returns are sums and options over \<open>errno\<close>. What leaves the program is appended to ghost fields
  (\<open>effects\<close>, \<open>out\<close>, \<open>pout\<close>, \<open>sent\<close>, \<open>tape\<close>); what enters it is consumed from queues (\<open>writes\<close>, \<open>spawns\<close>,
  \<open>allocs\<close>, \<open>disk\<close>, \<open>clock\<close>, the turns and attempts of the client, the events of the daemon) or comes
  from parameters (\<open>os\<close>, \<open>memory\<close>, \<open>files\<close>, \<open>fcntl_ok\<close>, \<open>tty\<close>, \<open>lock_ok\<close>, \<open>boot\<close>), so that every outcome of
  a system call that the code distinguishes is covered.

  \<^bold>\<open>The terminal engine\<close> (\<open>vt/\<close>).
    \<^item> \<open>Vt_Types\<close>, \<open>Vt_Screen\<close>: the records of \<open>vt_internal.h\<close> and the grid operations of \<open>vt_screen.c\<close>;
      \<open>Vt_Dispatch\<close>: \<open>vt_dispatch.c\<close>; \<open>Vt_Parser\<close>: the state machine of \<open>vt_parser.c\<close>, \<open>vt_new\<close>, \<open>vt_feed\<close>,
      \<open>vt_resize\<close>; \<open>Utf8\<close> and \<open>Width\<close>: \<open>vt_utf8.c\<close>, \<open>vt_width.c\<close>; \<open>Vt_Render\<close>: the snapshot writer
      \<open>vt_render.c\<close>.
    \<^item> \<open>Vt_Grid\<close> says what the grid operations do cell by cell. \<open>Vt_Safe\<close> states the contract
      of a screen operation and proves it for each. \<open>Vt_Engine\<close> concludes: no input leads to
      undefined behaviour (C1), rows not reported as damaged are unchanged (C2), scrolling hands the
      right lines to the scrollback (C21), and a resize that fails half-way is the one exception to
      safety (C27). \<open>Vt_Stream\<close> follows input to the screen: UTF-8 text is printed (C20), positioning
      and reporting the cursor agree (C18). \<open>Vt_Replay\<close>: the pending bytes of a snapshot rebuild the
      parser (C3), with the exceptions of C26.

  \<^bold>\<open>Shared code\<close> (\<open>common/\<close>).
    \<^item> \<open>Ring\<close>: \<open>ring.c\<close>, which implements a bounded queue (C19). \<open>Proto\<close> and \<open>Wire\<close>: \<open>proto.c\<close>; frames
      come back in order (C4) however the stream is cut (C22). \<open>Path\<close>: \<open>path.c\<close>; exactly the safe
      names are accepted (C33), files lie in a private directory (C34).
    \<^item> \<open>Crc\<close>, \<open>Sb_Log\<close>, \<open>Scrollback\<close>: \<open>scrollback.c\<close>; the table-driven checksum is the polynomial one
      and detects bursts (C35), a torn log is recovered up to the damage (C36), pushing keeps the
      store (C37), fetches return the lines asked for (C38), a restart after a crash continues (C39),
      and a deep fetch across the rotation can skip a line (C40).

  \<^bold>\<open>The daemon\<close> (\<open>daemon/\<close>).
    \<^item> \<open>Layout\<close>: \<open>layout.c\<close>, an array that represents a split tree (C31) whose panes do not overlap (C32).
      \<open>Loop\<close>: the table and the dispatch of \<open>loop.c\<close>. \<open>Daemon\<close>: the state of the daemon and how it
      sends. \<open>Composite\<close>: \<open>composite.c\<close>. \<open>Session\<close>: \<open>session.c\<close>. \<open>Server\<close>: \<open>server.c\<close>, with \<open>daemon_step\<close>
      for one event: a connection, input of a client or a terminal, dead children, the tick.
    \<^item> \<open>Attach\<close> and \<open>Pane_Tree\<close> prove invariants of \<open>daemon_step\<close>: clients and sessions agree on who is
      attached (C5, and C25 for what attaching twice does), and layout, panes, ids and focus of a session
      agree (C6), whatever fails. \<open>Stdin\<close>: typed input reaches the child in order (C17).
    \<^item> \<open>Handoff\<close>: \<open>handoff.c\<close>. \<open>Reload\<close>: a failed restart is undone (C8). \<open>Rebuild\<close> and \<open>Restart\<close>: what is
      written is rebuilt, session by session. \<open>Startup\<close>: \<open>main.c\<close>, \<open>server_init\<close> and \<open>loop_run\<close>; the
      daemon serves, restarts and serves on with the same sessions (C7). \<open>Lockfile\<close>: \<open>lockfile.c\<close> as
      steps of several processes; one holder at a time (C9) until a release races (C10).

  \<^bold>\<open>The client\<close> (\<open>client/\<close>).
    \<^item> \<open>Scan\<close>: \<open>scan.c\<close> and sending; the scanner reads its grammar (C23), frames are sent whole (C24).
      \<open>Pager\<close>: \<open>pager.c\<close>; its state stays well-formed (C29) and stripping recovers the text (C30).
      \<open>Copy_Mode\<close>: paging through history in both processes ends with every line (C28).
    \<^item> \<open>Pump\<close>: \<open>attach.c\<close> and \<open>tty.c\<close>, one turn of the loop as a function. \<open>Pump_Facts\<close>: copy mode owns the
      keyboard and the screen (C11), a client at end of input reports only confirmed sessions (C14),
      reconnecting is bounded and creates a session once (C15), and the detach chord does not wait
      for confirmation (C16). \<open>Cli\<close>: \<open>main.c\<close> and the greeting; a listing shows the daemon's sessions
      (C12), and a request for a new session means to the daemon what the client was asked (C13).

  \<^bold>\<open>Interfaces.\<close> \<open>Prelude\<close> has the shared lemmas and two locales: \<open>inv_machine\<close>, a step function that
  keeps an invariant, and its extension \<open>framed_machine\<close>, which also leaves a part of the state
  alone. They are interpreted on the parser and the engine (\<open>engine\<close>, \<open>session_engine\<close> in \<open>Vt_Parser\<close>),
  the pager (\<open>copy_mode\<close>), the daemon (\<open>daemon\<close> in \<open>Attach\<close>, \<open>session_tree\<close> in \<open>Pane_Tree\<close>, \<open>main_loop\<close> in
  \<open>Startup\<close>) and the attach client (\<open>attach_client\<close> in \<open>Pump_Facts\<close>). \<open>Ring\<close> states the queue that framing
  relies on as \<open>byte_queue\<close> and interprets it on the ring (\<open>rq\<close>); \<open>Copy_Mode\<close> states what paging needs of
  a store of lines as \<open>line_source\<close> and interprets it on the scrollback (\<open>store\<close>).

  \<^bold>\<open>Fuel.\<close> Loops whose end is not structural take fuel. Draining frames takes the length of the ring
  plus one, as every frame has a header. Choosing a pane id tries 256 ids and never runs out. Paging
  takes the number of lines of the current generation, which C28 proves to be enough. \<open>reload\<close> polls 50
  times, as in C. \<open>drain_rounds\<close>, which waits for terminals until a deadline, is an option: \<open>None\<close> means that
  the fuel was spent before the clock reached it.

  \<^bold>\<open>Not modelled.\<close> \<open>pty.c\<close> and \<open>xutil.c\<close> wrap system calls and appear as their outcomes. Left out as pure
  system interaction: resource limits, installing signal handlers, closed standard descriptors,
  daemonising, finding the daemon's executable and starting it, the pid in the lock file, the name of
  the socket in the file system, log lines, poll timeouts, and failing writes to the client's own
  terminal. The commands \<open>history\<close> and \<open>version\<close> of the client only print what \<open>sb_read_log\<close> and the
  greeting deliver.
\<close>

end
